(* ===== verification/Prelude.thy ===== *)
theory Prelude
  imports Main "HOL-Library.Word"
begin

text \<open>
  What the component theories share: the names of the machine types, the collections of
  simplification facts, the decimal printer of \<open>std::to_string\<close>, and the generic facts on
  lists that several components use. Nothing here is specific to one component.
\<close>

section \<open>Machine types of the x86-64 Linux build\<close>

type_synonym u8 = "8 word"
type_synonym u32 = "32 word"
type_synonym u64 = "64 word"
type_synonym s32 = "32 word"
type_synonym s64 = "64 word"

section \<open>Fact collections\<close>

named_theorems sc_simps "status codes: projections and the ternary tables"
named_theorems fsm_simps "life-cycle states of services and algorithms"
named_theorems slot_simps "execution states and event slots"
named_theorems graph_simps "the control and data flow graph"

section \<open>std::to_string on unsigned values\<close>

definition digit_char :: "nat \<Rightarrow> char" where
  "digit_char d = char_of (48 + d)"

fun to_string :: "nat \<Rightarrow> string" where
  "to_string n =
     (if n < 10 then [digit_char n] else to_string (n div 10) @ [digit_char (n mod 10)])"

declare to_string.simps [simp del]

fun of_digits :: "nat \<Rightarrow> string \<Rightarrow> nat" where
  "of_digits acc [] = acc"
| "of_digits acc (c # cs) = of_digits (10 * acc + (of_char c - 48)) cs"

lemma of_digits_append: "of_digits acc (xs @ ys) = of_digits (of_digits acc xs) ys"
  by (induction xs arbitrary: acc) auto

lemma of_char_digit: "d < 10 \<Longrightarrow> of_char (digit_char d) = 48 + (d :: nat)"
  by (simp add: digit_char_def of_char_of)

lemma of_digits_to_string: "of_digits 0 (to_string n) = n"
proof (induction n rule: to_string.induct)
  case (1 n)
  then show ?case
    by (cases "n < 10") (auto simp: to_string.simps [of n] of_digits_append of_char_digit)
qed

lemma to_string_inj: "to_string m = to_string n \<Longrightarrow> m = n"
  by (metis of_digits_to_string)

section \<open>Lists\<close>

text \<open>\<open>std::find\<close>/\<open>push_back\<close> idiom: append an element unless it is there already.\<close>

definition push_unique :: "'a \<Rightarrow> 'a list \<Rightarrow> 'a list" where
  "push_unique x xs = (if x \<in> set xs then xs else xs @ [x])"

lemma set_push_unique [simp]: "set (push_unique x xs) = insert x (set xs)"
  by (auto simp: push_unique_def)

lemma distinct_push_unique [simp]: "distinct xs \<Longrightarrow> distinct (push_unique x xs)"
  by (auto simp: push_unique_def)

lemma push_unique_idem [simp]: "push_unique x (push_unique x xs) = push_unique x xs"
  by (auto simp: push_unique_def)

text \<open>Reading a vector after one cell was written.\<close>

lemma nth_update_cases:
  "j < length xs \<Longrightarrow> (xs[i := v]) ! j = (if i = j then v else xs ! j)"
  by simp

lemma length_filter_update_le:
  "i < length xs \<Longrightarrow> P (xs ! i) \<Longrightarrow> \<not> P v \<Longrightarrow>
   Suc (length (filter P (xs[i := v]))) = length (filter P xs)"
proof (induction xs arbitrary: i)
  case Nil
  then show ?case by simp
next
  case (Cons x xs)
  then show ?case by (cases i) auto
qed

lemma takeWhile_filter_prefix: "\<forall>x \<in> set (takeWhile P xs). P x"
  by (auto dest: set_takeWhileD)

section \<open>std::partition\_point and its relatives\<close>

text \<open>
  The halving loop of \<open>std::partition_point\<close>, \<open>std::lower_bound\<close> and \<open>std::upper_bound\<close>:
  \<open>first\<close> is the left end of the range still to search and \<open>len\<close> its length.
\<close>

function bisect :: "(nat \<Rightarrow> bool) \<Rightarrow> nat \<Rightarrow> nat \<Rightarrow> nat" where
  "bisect p first len =
     (if len = 0 then first
      else if p (first + len div 2)
      then bisect p (Suc (first + len div 2)) (len - len div 2 - 1)
      else bisect p first (len div 2))"
  by pat_completeness auto
termination
  by (relation "measure (\<lambda>(p, first, len). len)") auto

declare bisect.simps [simp del]

lemma bisect_0 [simp]: "bisect p first 0 = first"
  by (simp add: bisect.simps)

definition partition_point :: "('a \<Rightarrow> bool) \<Rightarrow> 'a list \<Rightarrow> nat" where
  "partition_point P xs = bisect (\<lambda>i. P (xs ! i)) 0 (length xs)"

abbreviation partitioned :: "('a \<Rightarrow> bool) \<Rightarrow> 'a list \<Rightarrow> bool" where
  "partitioned P xs \<equiv> sorted_wrt (\<lambda>a b. P b \<longrightarrow> P a) xs"

lemma bisect_bounds: "first \<le> bisect p first len \<and> bisect p first len \<le> first + len"
proof (induction p first len rule: bisect.induct)
  case (1 p first len)
  show ?case
  proof (cases "len = 0")
    case True
    then show ?thesis by simp
  next
    case False
    show ?thesis
    proof (cases "p (first + len div 2)")
      case True
      with False 1(1) have
        "Suc (first + len div 2) \<le> bisect p (Suc (first + len div 2)) (len - len div 2 - 1)"
        "bisect p (Suc (first + len div 2)) (len - len div 2 - 1)
           \<le> Suc (first + len div 2) + (len - len div 2 - 1)"
        by auto
      then show ?thesis
        using False True by (subst (1 2) bisect.simps) auto
    next
      case F: False
      with False 1(2) have "first \<le> bisect p first (len div 2)"
        "bisect p first (len div 2) \<le> first + len div 2"
        by auto
      then show ?thesis
        using False F by (subst (1 2) bisect.simps) auto
    qed
  qed
qed

lemma partition_point_le [simp]: "partition_point P xs \<le> length xs"
  using bisect_bounds [of 0 "\<lambda>i. P (xs ! i)" "length xs"] by (simp add: partition_point_def)

lemma bisect_split:
  assumes mono: "\<And>i j. i < j \<Longrightarrow> j < n \<Longrightarrow> p j \<Longrightarrow> p i"
  shows "first + len \<le> n \<Longrightarrow> \<forall>i < first. p i \<Longrightarrow>
    \<forall>i. first + len \<le> i \<longrightarrow> i < n \<longrightarrow> \<not> p i \<Longrightarrow>
    (\<forall>i < bisect p first len. p i) \<and> (\<forall>i. bisect p first len \<le> i \<longrightarrow> i < n \<longrightarrow> \<not> p i)"
proof (induction len arbitrary: first rule: less_induct)
  case (less len)
  show ?case
  proof (cases "len = 0")
    case True
    with less.prems show ?thesis by simp
  next
    case False
    let ?mid = "first + len div 2"
    have mid: "?mid < n" using False less.prems(1) by linarith
    show ?thesis
    proof (cases "p ?mid")
      case True
      have below: "\<forall>i < Suc ?mid. p i"
        using True mid mono by (metis less_Suc_eq)
      have "\<forall>i. Suc ?mid + (len - len div 2 - 1) \<le> i \<longrightarrow> i < n \<longrightarrow> \<not> p i"
        using False less.prems(3) by auto
      moreover have "Suc ?mid + (len - len div 2 - 1) \<le> n" and "len - len div 2 - 1 < len"
        using False less.prems(1) by linarith+
      moreover have "bisect p first len = bisect p (Suc ?mid) (len - len div 2 - 1)"
        using False True by (simp add: bisect.simps [of p first len])
      ultimately show ?thesis using below less.IH by presburger
    next
      case F: False
      have "\<forall>i. first + len div 2 \<le> i \<longrightarrow> i < n \<longrightarrow> \<not> p i"
        using F mono by (metis le_neq_implies_less)
      moreover have "first + len div 2 \<le> n" and "len div 2 < len"
        using False mid by linarith+
      moreover have "bisect p first len = bisect p first (len div 2)"
        using False F by (simp add: bisect.simps [of p first len])
      ultimately show ?thesis using less.prems(2) less.IH by presburger
    qed
  qed
qed

lemma partition_point_takeWhile:
  assumes "partitioned P xs"
  shows "partition_point P xs = length (takeWhile P xs)"
proof -
  let ?n = "partition_point P xs"
  have mono: "\<And>i j. i < j \<Longrightarrow> j < length xs \<Longrightarrow> P (xs ! j) \<Longrightarrow> P (xs ! i)"
    using assms by (simp add: sorted_wrt_iff_nth_less)
  have split: "(\<forall>i < ?n. P (xs ! i)) \<and> (\<forall>i. ?n \<le> i \<longrightarrow> i < length xs \<longrightarrow> \<not> P (xs ! i))"
    unfolding partition_point_def
    by (rule bisect_split [where n = "length xs"]) (use mono in auto)
  have le: "?n \<le> length xs" by simp
  have "takeWhile P xs = take ?n xs"
  proof (rule takeWhile_eq_take_P_nth)
    show "\<And>i. i < ?n \<Longrightarrow> i < length xs \<Longrightarrow> P (xs ! i)" using split by blast
    show "?n < length xs \<Longrightarrow> \<not> P (xs ! ?n)" using split by blast
  qed
  with le show ?thesis by simp
qed

lemma take_partition_point:
  "partitioned P xs \<Longrightarrow> take (partition_point P xs) xs = takeWhile P xs"
  by (simp add: partition_point_takeWhile takeWhile_eq_take [symmetric])

lemma drop_partition_point:
  "partitioned P xs \<Longrightarrow> drop (partition_point P xs) xs = dropWhile P xs"
  by (simp add: partition_point_takeWhile dropWhile_eq_drop [symmetric])

text \<open>\<open>vector::insert\<close> and \<open>vector::erase\<close> at a position.\<close>

definition insert_at :: "nat \<Rightarrow> 'a \<Rightarrow> 'a list \<Rightarrow> 'a list" where
  "insert_at i x xs = take i xs @ x # drop i xs"

definition erase_range :: "nat \<Rightarrow> nat \<Rightarrow> 'a list \<Rightarrow> 'a list" where
  "erase_range i j xs = take i xs @ drop j xs"

end
