(* ===== verification/StatusCodes.thy ===== *)
theory StatusCodes
  imports Prelude
begin

text \<open>
  \<open>StatusCode\<close> (GaudiKernel/StatusCode.h, StatusCode.cpp): the return value of nearly every
  operation of the framework. A code is a number read through a category, an object compared
  by its address, whose virtual functions say which numbers mean success or recoverable. The
  model keeps a category as a record of its address and its functions, so that a custom
  category is just another record. The exception of \<open>orThrow\<close> is a value of the sum type.
\<close>

section \<open>Codes and categories\<close>

type_synonym code_t = u64

datatype error_code = FAILURE | SUCCESS | RECOVERABLE

fun code_of :: "error_code \<Rightarrow> code_t" where
  "code_of FAILURE = 0"
| "code_of SUCCESS = 1"
| "code_of RECOVERABLE = 2"

record category =
  cat_addr :: nat
  cat_name :: string
  cat_message :: "code_t \<Rightarrow> string"
  cat_isSuccess :: "code_t \<Rightarrow> bool"
  cat_isRecoverable :: "code_t \<Rightarrow> bool"

text \<open>The virtual functions a category inherits when it does not override them.\<close>

definition base_message :: "code_t \<Rightarrow> string" where
  "base_message code = ''UNKNOWN('' @ to_string (unat code) @ '')''"

definition base_isSuccess :: "code_t \<Rightarrow> bool" where
  "base_isSuccess code \<longleftrightarrow> code = code_of SUCCESS"

definition base_isRecoverable :: "code_t \<Rightarrow> bool" where
  "base_isRecoverable code \<longleftrightarrow> code = code_of RECOVERABLE"

text \<open>The default category of StatusCode.cpp; its address is 0 in the model.\<close>

definition default_message :: "code_t \<Rightarrow> string" where
  "default_message code =
     (if code = code_of SUCCESS then ''SUCCESS''
      else if code = code_of FAILURE then ''FAILURE''
      else if code = code_of RECOVERABLE then ''RECOVERABLE''
      else ''UNKNOWN('' @ to_string (unat code) @ '')'')"

definition default_category :: category where
  "default_category =
     \<lparr>cat_addr = 0, cat_name = ''Gaudi'', cat_message = default_message,
      cat_isSuccess = base_isSuccess, cat_isRecoverable = base_isRecoverable\<rparr>"

record status_code =
  m_cat :: category
  m_code :: code_t

record gaudi_exception =
  exc_message :: string
  exc_tag :: string
  exc_code :: status_code

definition sc_default :: status_code where
  "sc_default = \<lparr>m_cat = default_category, m_code = code_of SUCCESS\<rparr>"

definition sc_of_code :: "code_t \<Rightarrow> status_code" where
  "sc_of_code code = \<lparr>m_cat = default_category, m_code = code\<rparr>"

definition sc_of_enum :: "error_code \<Rightarrow> status_code" where
  "sc_of_enum e = \<lparr>m_cat = default_category, m_code = code_of e\<rparr>"

section \<open>Queries\<close>

definition isSuccess :: "status_code \<Rightarrow> bool" where
  "isSuccess sc \<longleftrightarrow> m_code sc = code_of SUCCESS \<or> cat_isSuccess (m_cat sc) (m_code sc)"

definition isFailure :: "status_code \<Rightarrow> bool" where
  "isFailure sc \<longleftrightarrow> \<not> isSuccess sc"

definition isRecoverable :: "status_code \<Rightarrow> bool" where
  "isRecoverable sc \<longleftrightarrow> cat_isRecoverable (m_cat sc) (m_code sc)"

definition default_value :: "status_code \<Rightarrow> error_code" where
  "default_value sc =
     (if isSuccess sc then SUCCESS else if isRecoverable sc then RECOVERABLE else FAILURE)"

definition sc_message :: "status_code \<Rightarrow> string" where
  "sc_message sc = cat_message (m_cat sc) (m_code sc)"

section \<open>Comparison\<close>

definition sc_eq :: "status_code \<Rightarrow> status_code \<Rightarrow> bool" where
  "sc_eq lhs rhs \<longleftrightarrow>
     m_code lhs = m_code rhs \<and>
     (m_code lhs = code_of SUCCESS \<or> m_code lhs = code_of FAILURE \<or>
      cat_addr (m_cat lhs) = cat_addr (m_cat rhs))"

definition sc_less :: "status_code \<Rightarrow> status_code \<Rightarrow> bool" where
  "sc_less lhs rhs \<longleftrightarrow>
     cat_addr (m_cat lhs) < cat_addr (m_cat rhs) \<or>
     (cat_addr (m_cat lhs) = cat_addr (m_cat rhs) \<and> m_code lhs < m_code rhs)"

section \<open>Ternary logic: the assignment operators and their copies\<close>

definition AND_matrix :: "code_t list list" where
  "AND_matrix = [[0, 0, 0], [0, 1, 2], [0, 2, 2]]"

definition OR_matrix :: "code_t list list" where
  "OR_matrix = [[0, 1, 2], [1, 1, 1], [2, 1, 2]]"

definition sc_and_assign :: "status_code \<Rightarrow> status_code \<Rightarrow> status_code" where
  "sc_and_assign lhs rhs =
     (let l = code_of (default_value lhs);
          r = code_of (default_value rhs)
      in lhs\<lparr>m_code := AND_matrix ! unat l ! unat r\<rparr>)"

definition sc_or_assign :: "status_code \<Rightarrow> status_code \<Rightarrow> status_code" where
  "sc_or_assign lhs rhs =
     (let l = code_of (default_value lhs);
          r = code_of (default_value rhs)
      in lhs\<lparr>m_code := OR_matrix ! unat l ! unat r\<rparr>)"

section \<open>Chaining\<close>

text \<open>
  A callable given to \<open>andThen\<close> or \<open>orElse\<close> acts on the program state \<open>'s\<close>. \<open>i_invoke\<close>
  decides at compile time whether its result converts to a \<open>StatusCode\<close>; the two constructors
  are the two branches of that \<open>if constexpr\<close>.
\<close>

datatype 's callable =
    Returns_code "'s \<Rightarrow> status_code \<times> 's"
  | Returns_other "'s \<Rightarrow> 's"

fun i_invoke :: "status_code \<Rightarrow> 's callable \<Rightarrow> 's \<Rightarrow> status_code \<times> 's" where
  "i_invoke sc (Returns_code f) s = f s"
| "i_invoke sc (Returns_other f) s = (sc, f s)"

definition andThen :: "status_code \<Rightarrow> 's callable \<Rightarrow> 's \<Rightarrow> status_code \<times> 's" where
  "andThen sc f s = (if isFailure sc then (sc, s) else i_invoke sc f s)"

definition orElse :: "status_code \<Rightarrow> 's callable \<Rightarrow> 's \<Rightarrow> status_code \<times> 's" where
  "orElse sc f s = (if isSuccess sc then (sc, s) else i_invoke sc f s)"

definition i_doThrow :: "status_code \<Rightarrow> string \<Rightarrow> string \<Rightarrow> gaudi_exception" where
  "i_doThrow sc msg tag = \<lparr>exc_message = msg, exc_tag = tag, exc_code = sc\<rparr>"

definition orThrow :: "status_code \<Rightarrow> string \<Rightarrow> string \<Rightarrow> gaudi_exception + status_code" where
  "orThrow sc msg tag = (if isFailure sc then Inl (i_doThrow sc msg tag) else Inr sc)"

definition orThrow_tag :: "status_code \<Rightarrow> string \<Rightarrow> gaudi_exception + status_code" where
  "orThrow_tag sc tag =
     (if isFailure sc then Inl (i_doThrow sc (sc_message sc) tag) else Inr sc)"

section \<open>Facts\<close>

text \<open>The order of the ternary logic: a failure is below a recoverable, below a success.\<close>

fun truth_rank :: "error_code \<Rightarrow> nat" where
  "truth_rank FAILURE = 0"
| "truth_rank RECOVERABLE = 1"
| "truth_rank SUCCESS = 2"

lemma truth_rank_inj: "truth_rank x = truth_rank y \<longleftrightarrow> x = y"
  by (cases x; cases y) auto

instantiation error_code :: linorder
begin

definition less_eq_error_code :: "error_code \<Rightarrow> error_code \<Rightarrow> bool" where
  "less_eq_error_code x y \<longleftrightarrow> truth_rank x \<le> truth_rank y"

definition less_error_code :: "error_code \<Rightarrow> error_code \<Rightarrow> bool" where
  "less_error_code x y \<longleftrightarrow> truth_rank x < truth_rank y"

instance
  by standard (auto simp: less_eq_error_code_def less_error_code_def truth_rank_inj)

end

lemmas error_code_order [sc_simps] = less_eq_error_code_def less_error_code_def

lemma code_of_inj [simp]: "code_of x = code_of y \<longleftrightarrow> x = y"
  by (cases x; cases y) auto

text \<open>
  What the three values of the tables must mean in a category for the ternary operators to
  work: 0 a failure and not recoverable, 2 recoverable and not a success. (1 is a success in
  every category, by \<open>isSuccess\<close>.)
\<close>

definition ternary_category :: "category \<Rightarrow> bool" where
  "ternary_category c \<longleftrightarrow>
     \<not> cat_isSuccess c 0 \<and> \<not> cat_isRecoverable c 0 \<and> \<not> cat_isSuccess c 2 \<and> cat_isRecoverable c 2"

lemma ternary_default_category [simp]: "ternary_category default_category"
  by (simp add: ternary_category_def default_category_def base_isSuccess_def
      base_isRecoverable_def)

lemma and_assign_code:
  "m_code (sc_and_assign a b) = code_of (min (default_value a) (default_value b))"
  by (cases "default_value a"; cases "default_value b")
     (simp_all add: sc_and_assign_def AND_matrix_def min_def sc_simps)

lemma or_assign_code:
  "m_code (sc_or_assign a b) = code_of (max (default_value a) (default_value b))"
  by (cases "default_value a"; cases "default_value b")
     (simp_all add: sc_or_assign_def OR_matrix_def max_def sc_simps)

lemma assign_cat [simp]:
  "m_cat (sc_and_assign a b) = m_cat a" "m_cat (sc_or_assign a b) = m_cat a"
  by (simp_all add: sc_and_assign_def sc_or_assign_def Let_def)

lemma default_value_code:
  "ternary_category (m_cat sc) \<Longrightarrow> m_code sc = code_of e \<Longrightarrow> default_value sc = e"
  by (cases e) (simp_all add: default_value_def isSuccess_def isRecoverable_def
      ternary_category_def)

lemma default_value_enum [simp]: "default_value (sc_of_enum e) = e"
  by (rule default_value_code) (simp_all add: sc_of_enum_def)

lemma isSuccess_enum [simp]: "isSuccess (sc_of_enum e) \<longleftrightarrow> e = SUCCESS"
  by (cases e) (simp_all add: sc_of_enum_def isSuccess_def default_category_def
      base_isSuccess_def)

text \<open>
  C36. In a category that gives 0, 1, 2 their meaning, \<open>operator&=\<close> computes the
  minimum and \<open>operator|=\<close> the maximum of the two projected codes in the order failure,
  recoverable, success: Kleene's three-valued conjunction and disjunction.
\<close>

theorem ternary_ops_kleene:
  assumes "ternary_category (m_cat a)"
  shows "default_value (sc_and_assign a b) = min (default_value a) (default_value b)
       \<and> default_value (sc_or_assign a b) = max (default_value a) (default_value b)"
  using assms by (simp add: default_value_code and_assign_code or_assign_code)

theorem ternary_ops_kleene_witness:
  "default_value (sc_and_assign (sc_of_enum SUCCESS) (sc_of_enum RECOVERABLE)) = RECOVERABLE"
proof -
  have c: "ternary_category (m_cat (sc_of_enum SUCCESS))"
    by (simp add: sc_of_enum_def)
  show ?thesis
    using ternary_ops_kleene [OF c, of "sc_of_enum RECOVERABLE"]
    by (simp add: min_def sc_simps)
qed

text \<open>
  \<open>operator&=\<close> and \<open>operator|=\<close> store the projected number back but keep the left
  category, so in a category that reads 2 as a success the ternary "recoverable" turns into a
  success: the conjunction of a success with a recoverable code tests as \<open>isSuccess\<close>.
\<close>

theorem ternary_and_custom_category:
  assumes "cat_isSuccess (m_cat a) 2"
    and "default_value a = SUCCESS" and "default_value b = RECOVERABLE"
  shows "isSuccess (sc_and_assign a b) \<and> min (default_value a) (default_value b) = RECOVERABLE"
  using assms and_assign_code [of a b] by (simp add: isSuccess_def min_def sc_simps)

theorem ternary_and_custom_category_witness:
  "isSuccess (sc_and_assign
     \<lparr>m_cat = default_category\<lparr>cat_isSuccess := \<lambda>c. c = 2\<rparr>, m_code = 1\<rparr> (sc_of_enum RECOVERABLE))"
proof -
  let ?a = "\<lparr>m_cat = default_category\<lparr>cat_isSuccess := \<lambda>c. c = 2\<rparr>, m_code = 1\<rparr>"
  have a: "cat_isSuccess (m_cat ?a) 2" "default_value ?a = SUCCESS"
    by (simp_all add: default_value_def isSuccess_def)
  show ?thesis
    using ternary_and_custom_category [OF a(1) a(2), of "sc_of_enum RECOVERABLE"] by simp
qed

text \<open>
  When the equality with SUCCESS agrees with \<open>isSuccess\<close>. The class promises it for all
  categories, and that \<open>isSuccess\<close> cannot be overridden for 0 and 1. Both hold exactly in the
  categories that call no other number than 1 a success: \<open>operator==\<close> looks at the number
  only, \<open>isSuccess\<close> asks the category for every number but 1, 0 included.
\<close>

theorem eq_SUCCESS_iff_isSuccess:
  "(\<forall>code. sc_eq \<lparr>m_cat = c, m_code = code\<rparr> (sc_of_enum SUCCESS)
      = isSuccess \<lparr>m_cat = c, m_code = code\<rparr>) = ({code. cat_isSuccess c code} \<subseteq> {1})
   \<and> isSuccess \<lparr>m_cat = c, m_code = 0\<rparr> = cat_isSuccess c 0
   \<and> sc_eq \<lparr>m_cat = c, m_code = 0\<rparr> (sc_of_enum FAILURE)"
  by (auto simp: sc_eq_def isSuccess_def sc_of_enum_def)

lemma sc_eq_and_less:
  "cat_addr (m_cat a) < cat_addr (m_cat b) \<Longrightarrow> m_code a = m_code b \<Longrightarrow>
   m_code a = 0 \<or> m_code a = 1 \<Longrightarrow> sc_eq a b \<and> sc_less a b"
  by (auto simp: sc_eq_def sc_less_def)

lemma andThen_success: "isSuccess sc \<Longrightarrow> andThen sc f s = i_invoke sc f s"
  by (simp add: andThen_def isFailure_def)

lemma andThen_failure: "isFailure sc \<Longrightarrow> andThen sc f s = (sc, s)"
  by (simp add: andThen_def)

lemma orElse_success: "isSuccess sc \<Longrightarrow> orElse sc f s = (sc, s)"
  by (simp add: orElse_def)

lemma orElse_failure: "isFailure sc \<Longrightarrow> orElse sc f s = i_invoke sc f s"
  by (simp add: orElse_def isFailure_def)

lemmas chain_simps = andThen_success andThen_failure orElse_success orElse_failure

text \<open>A chain of \<open>andThen\<close> calls, as user code writes it.\<close>

fun andThen_chain :: "status_code \<Rightarrow> 's callable list \<Rightarrow> 's \<Rightarrow> status_code \<times> 's" where
  "andThen_chain sc [] s = (sc, s)"
| "andThen_chain sc (f # fs) s = (case andThen sc f s of (sc', s') \<Rightarrow> andThen_chain sc' fs s')"

lemma andThen_chain_failed: "isFailure sc \<Longrightarrow> andThen_chain sc fs s = (sc, s)"
  by (induction fs arbitrary: s) (simp_all add: andThen_failure)

lemma andThen_chain_append:
  "andThen_chain sc (fs @ gs) s =
     (case andThen_chain sc fs s of (sc', s') \<Rightarrow> andThen_chain sc' gs s')"
  by (induction fs arbitrary: sc s) (auto split: prod.splits)

text \<open>All callables of a list, one after the other and whatever they return.\<close>

fun invoke_all :: "status_code \<Rightarrow> 's callable list \<Rightarrow> 's \<Rightarrow> status_code \<times> 's" where
  "invoke_all sc [] s = (sc, s)"
| "invoke_all sc (f # fs) s = (case i_invoke sc f s of (sc', s') \<Rightarrow> invoke_all sc' fs s')"

lemma andThen_chain_prefix:
  "\<exists>k \<le> length fs. andThen_chain sc fs s = invoke_all sc (take k fs) s \<and>
     (\<forall>j < k. isSuccess (fst (invoke_all sc (take j fs) s))) \<and>
     (k < length fs \<longrightarrow> isFailure (fst (andThen_chain sc fs s)))"
proof (induction fs arbitrary: sc s)
  case (Cons f fs)
  show ?case
  proof (cases "isFailure sc")
    case True
    then have "andThen_chain sc (f # fs) s = (sc, s)" by (rule andThen_chain_failed)
    with True show ?thesis by (intro exI [of _ 0]) (simp del: andThen_chain.simps)
  next
    case False
    then have sc: "isSuccess sc" by (simp add: isFailure_def)
    obtain sc' s' where i: "i_invoke sc f s = (sc', s')" by fastforce
    from Cons.IH [of sc' s'] obtain k where k: "k \<le> length fs"
      "andThen_chain sc' fs s' = invoke_all sc' (take k fs) s'"
      "\<forall>j < k. isSuccess (fst (invoke_all sc' (take j fs) s'))"
      "k < length fs \<longrightarrow> isFailure (fst (andThen_chain sc' fs s'))" by blast
    have "isSuccess (fst (invoke_all sc (take j (f # fs)) s))" if "j < Suc k" for j
      using that k(3) i sc by (cases j) auto
    with k(1,2,4) i sc show ?thesis by (intro exI [of _ "Suc k"]) (auto simp: andThen_success)
  qed
qed simp

text \<open>
  C37. A chain of \<open>andThen\<close> calls runs its callables, with their effects and in their order, up to
  and including the first whose code is not a success, and ends with its code and state; with
  none it runs all. Closed by \<open>orElse\<close>, the last callable runs when the chain has ended with a
  failure, its code replacing the failure if it returns one, and does nothing when it has ended
  with a success; \<open>orThrow\<close> at the same place raises the failing code with its message and tag in
  the first case, and hands the code on in the second.
\<close>

theorem andThen_chain_stops:
  "\<exists>k \<le> length fs. (let (sc1, s1) = invoke_all sc (take k fs) s in
     andThen_chain sc fs s = (sc1, s1) \<and>
     (\<forall>j < k. isSuccess (fst (invoke_all sc (take j fs) s))) \<and>
     (if isFailure sc1
      then orElse sc1 h s1 = i_invoke sc1 h s1 \<and>
        orThrow sc1 msg tag = Inl \<lparr>exc_message = msg, exc_tag = tag, exc_code = sc1\<rparr>
      else k = length fs \<and> orElse sc1 h s1 = (sc1, s1) \<and> orThrow sc1 msg tag = Inr sc1))"
proof -
  obtain k where k: "k \<le> length fs" "andThen_chain sc fs s = invoke_all sc (take k fs) s"
    "\<forall>j < k. isSuccess (fst (invoke_all sc (take j fs) s))"
    "k < length fs \<longrightarrow> isFailure (fst (andThen_chain sc fs s))"
    using andThen_chain_prefix [of fs sc s] by blast
  obtain sc1 s1 where r: "invoke_all sc (take k fs) s = (sc1, s1)" by fastforce
  show ?thesis
    using k r by (intro exI [of _ k])
      (auto simp: orElse_failure orElse_success orThrow_def i_doThrow_def isFailure_def)
qed

theorem andThen_chain_stops_witness:
  "andThen_chain (sc_of_enum SUCCESS)
     [Returns_other Suc, Returns_code (\<lambda>n. (sc_of_enum RECOVERABLE, n)), Returns_other Suc] 0
   = (sc_of_enum RECOVERABLE, 1)"
proof -
  let ?fs = "[Returns_other Suc, Returns_code (\<lambda>n. (sc_of_enum RECOVERABLE, n)), Returns_other Suc]"
  let ?r = "\<lambda>j. invoke_all (sc_of_enum SUCCESS) (take j ?fs) (0 :: nat)"
  have len: "length ?fs = 3" by simp
  obtain k where "k \<le> length ?fs \<and> andThen_chain (sc_of_enum SUCCESS) ?fs 0 = ?r k \<and>
      (\<forall>j < k. isSuccess (fst (?r j))) \<and> (isFailure (fst (?r k)) \<or> k = length ?fs)"
    using andThen_chain_stops [of ?fs "sc_of_enum SUCCESS" 0 "Returns_other Suc" "''m''" "''t''"]
    unfolding Let_def split_beta prod.collapse by metis
  then have k: "k \<le> 3" and r: "andThen_chain (sc_of_enum SUCCESS) ?fs 0 = ?r k"
    and before: "\<forall>j < k. isSuccess (fst (?r j))" and stop: "isFailure (fst (?r k)) \<or> k = 3" unfolding len by blast+
  have "\<not> 2 < k" using before by (auto dest: spec [of _ 2])
  moreover have "isSuccess (fst (?r 0))" "isSuccess (fst (?r 1))" by simp_all
  then have "k \<noteq> 0" "k \<noteq> 1" using stop unfolding isFailure_def by (metis one_eq_numeral_iff semiring_norm(84) zero_neq_numeral)+
  ultimately have "k = 2" by linarith
  with r show ?thesis by simp
qed

end
