(* ===== verification/Vector_Map.thy ===== *)
theory Vector_Map
  imports Prelude "HOL-Library.Multiset"
begin

text \<open>
  \<open>GaudiUtils::VectorMap\<close> (GaudiKernel/VectorMap.h): an associative container kept as a
  sorted vector of pairs. The state is that vector \<open>m_vct\<close>, an iterator is a position in it
  (\<open>length m\<close> is \<open>end()\<close>) and \<open>lt\<close> is the template parameter KEYCOMPARE. The abstraction
  is \<open>vm_map\<close>, the partial function that \<open>find\<close> computes. The operations are modelled as
  written, the binary searches of the standard library included, so that an unsorted vector
  behaves as it does in the code.
\<close>

section \<open>The container\<close>

type_synonym ('k, 'v) vector_map = "('k \<times> 'v) list"

definition vm_end :: "('k, 'v) vector_map \<Rightarrow> nat" where
  "vm_end m = length m"

definition vm_lower_bound :: "('k \<Rightarrow> 'k \<Rightarrow> bool) \<Rightarrow> ('k, 'v) vector_map \<Rightarrow> 'k \<Rightarrow> nat" where
  "vm_lower_bound lt m key = partition_point (\<lambda>e. lt (fst e) key) m"

definition vm_upper_bound :: "('k \<Rightarrow> 'k \<Rightarrow> bool) \<Rightarrow> ('k, 'v) vector_map \<Rightarrow> 'k \<Rightarrow> nat" where
  "vm_upper_bound lt m key = partition_point (\<lambda>e. \<not> lt key (fst e)) m"

definition vm_equal_range :: "('k \<Rightarrow> 'k \<Rightarrow> bool) \<Rightarrow> ('k, 'v) vector_map \<Rightarrow> 'k \<Rightarrow> nat \<times> nat" where
  "vm_equal_range lt m key = (vm_lower_bound lt m key, vm_upper_bound lt m key)"

definition vm_find :: "('k \<Rightarrow> 'k \<Rightarrow> bool) \<Rightarrow> ('k, 'v) vector_map \<Rightarrow> 'k \<Rightarrow> nat" where
  "vm_find lt m key =
     (let res = vm_lower_bound lt m key
      in if vm_end m \<noteq> res \<and> lt key (fst (m ! res)) then vm_end m else res)"

definition vm_count :: "('k \<Rightarrow> 'k \<Rightarrow> bool) \<Rightarrow> ('k, 'v) vector_map \<Rightarrow> 'k \<Rightarrow> nat" where
  "vm_count lt m key = (if vm_end m = vm_find lt m key then 0 else 1)"

definition vm_erase_pos :: "('k, 'v) vector_map \<Rightarrow> nat \<Rightarrow> ('k, 'v) vector_map" where
  "vm_erase_pos m pos = erase_range pos (Suc pos) m"

definition vm_erase :: "('k \<Rightarrow> 'k \<Rightarrow> bool) \<Rightarrow> ('k, 'v) vector_map \<Rightarrow> 'k \<Rightarrow> nat \<times> ('k, 'v) vector_map"
where
  "vm_erase lt m key =
     (let pos = vm_find lt m key
      in if vm_end m = pos then (0, m) else (1, vm_erase_pos m pos))"

definition vm_erase_iters :: "('k, 'v) vector_map \<Rightarrow> nat \<Rightarrow> nat \<Rightarrow> nat \<times> ('k, 'v) vector_map" where
  "vm_erase_iters m first lst = (lst - first, erase_range first lst m)"

fun vm_erase_keys ::
  "('k \<Rightarrow> 'k \<Rightarrow> bool) \<Rightarrow> ('k, 'v) vector_map \<Rightarrow> 'k list \<Rightarrow> nat \<times> ('k, 'v) vector_map"
where
  "vm_erase_keys lt m [] = (0, m)"
| "vm_erase_keys lt m (k # ks) =
     (let (n, m') = vm_erase lt m k; (res, m'') = vm_erase_keys lt m' ks in (n + res, m''))"

text \<open>\<open>insert\<close> of a pair: the position of the element with this key, and whether it is new.\<close>

definition vm_insert ::
  "('k \<Rightarrow> 'k \<Rightarrow> bool) \<Rightarrow> ('k, 'v) vector_map \<Rightarrow> 'k \<times> 'v \<Rightarrow> (nat \<times> bool) \<times> ('k, 'v) vector_map"
where
  "vm_insert lt m value =
     (let result = vm_lower_bound lt m (fst value)
      in if vm_end m = result \<or> lt (fst value) (fst (m ! result))
         then ((result, True), insert_at result value m)
         else ((result, False), m))"

definition vm_insert_key ::
  "('k \<Rightarrow> 'k \<Rightarrow> bool) \<Rightarrow> ('k, 'v) vector_map \<Rightarrow> 'k \<Rightarrow> 'v \<Rightarrow> (nat \<times> bool) \<times> ('k, 'v) vector_map"
where
  "vm_insert_key lt m key mapped = vm_insert lt m (key, mapped)"

definition vm_insert_hint ::
  "('k \<Rightarrow> 'k \<Rightarrow> bool) \<Rightarrow> ('k, 'v) vector_map \<Rightarrow> nat \<Rightarrow> 'k \<times> 'v \<Rightarrow>
   (nat \<times> bool) \<times> ('k, 'v) vector_map"
where
  "vm_insert_hint lt m pos value =
     (if pos \<noteq> vm_end m \<and> lt (fst (m ! pos)) (fst value) \<and>
         (pos = vm_end m - 1 \<or>
          (\<not> lt (fst value) (fst (m ! Suc pos)) \<and> lt (fst (m ! Suc pos)) (fst value)))
      then ((pos, True), insert_at pos value m)
      else vm_insert lt m value)"

definition vm_insert_hint_key ::
  "('k \<Rightarrow> 'k \<Rightarrow> bool) \<Rightarrow> ('k, 'v) vector_map \<Rightarrow> nat \<Rightarrow> 'k \<Rightarrow> 'v \<Rightarrow>
   (nat \<times> bool) \<times> ('k, 'v) vector_map"
where
  "vm_insert_hint_key lt m pos key mapped = vm_insert_hint lt m pos (key, mapped)"

fun vm_insert_range ::
  "('k \<Rightarrow> 'k \<Rightarrow> bool) \<Rightarrow> ('k, 'v) vector_map \<Rightarrow> ('k \<times> 'v) list \<Rightarrow> ('k, 'v) vector_map"
where
  "vm_insert_range lt m [] = m"
| "vm_insert_range lt m (x # xs) = vm_insert_range lt (snd (vm_insert lt m x)) xs"

text \<open>
  The overload over two parallel sequences stops at the end of the keys; reading past the
  values is undefined in the code, so the model is an option.
\<close>

fun vm_insert_parallel ::
  "('k \<Rightarrow> 'k \<Rightarrow> bool) \<Rightarrow> ('k, 'v) vector_map \<Rightarrow> 'k list \<Rightarrow> 'v list \<Rightarrow> ('k, 'v) vector_map option"
where
  "vm_insert_parallel lt m [] vs = Some m"
| "vm_insert_parallel lt m (k # ks) [] = None"
| "vm_insert_parallel lt m (k # ks) (v # vs) =
     vm_insert_parallel lt (snd (vm_insert_key lt m k v)) ks vs"

definition vm_update ::
  "('k \<Rightarrow> 'k \<Rightarrow> bool) \<Rightarrow> ('k, 'v) vector_map \<Rightarrow> 'k \<Rightarrow> 'v \<Rightarrow> bool \<times> ('k, 'v) vector_map"
where
  "vm_update lt m key mapped =
     (let result = vm_lower_bound lt m key
      in if vm_end m = result \<or> lt key (fst (m ! result))
         then (False, insert_at result (key, mapped) m)
         else (True, m[result := (fst (m ! result), mapped)]))"

definition vm_update_pair ::
  "('k \<Rightarrow> 'k \<Rightarrow> bool) \<Rightarrow> ('k, 'v) vector_map \<Rightarrow> 'k \<times> 'v \<Rightarrow> bool \<times> ('k, 'v) vector_map"
where
  "vm_update_pair lt m val = vm_update lt m (fst val) (snd val)"

text \<open>\<open>operator()\<close> and \<open>operator[]\<close>: the default value \<open>d\<close> for a missing key, no insertion.\<close>

definition vm_call :: "('k \<Rightarrow> 'k \<Rightarrow> bool) \<Rightarrow> 'v \<Rightarrow> ('k, 'v) vector_map \<Rightarrow> 'k \<Rightarrow> 'v" where
  "vm_call lt d m key =
     (let res = vm_find lt m key in if vm_end m = res then d else snd (m ! res))"

definition vm_index :: "('k \<Rightarrow> 'k \<Rightarrow> bool) \<Rightarrow> 'v \<Rightarrow> ('k, 'v) vector_map \<Rightarrow> 'k \<Rightarrow> 'v" where
  "vm_index lt d m key = vm_call lt d m key"

datatype out_of_range = Out_Of_Range

definition vm_at :: "('k \<Rightarrow> 'k \<Rightarrow> bool) \<Rightarrow> ('k, 'v) vector_map \<Rightarrow> 'k \<Rightarrow> out_of_range + 'v" where
  "vm_at lt m key =
     (let res = vm_find lt m key
      in if vm_end m = res then Inl Out_Of_Range else Inr (snd (m ! res)))"

definition vm_key_at :: "('k, 'v) vector_map \<Rightarrow> nat \<Rightarrow> out_of_range + 'k" where
  "vm_key_at m index = (if index \<ge> length m then Inl Out_Of_Range else Inr (fst (m ! index)))"

definition vm_value_at :: "('k, 'v) vector_map \<Rightarrow> nat \<Rightarrow> out_of_range + 'v" where
  "vm_value_at m index = (if index \<ge> length m then Inl Out_Of_Range else Inr (snd (m ! index)))"

fun vm_merge ::
  "('k \<Rightarrow> 'k \<Rightarrow> bool) \<Rightarrow> ('k, 'v) vector_map \<Rightarrow> ('k, 'v) vector_map \<Rightarrow> ('k, 'v) vector_map"
where
  "vm_merge lt m [] = m"
| "vm_merge lt m (i # right) = vm_merge lt (snd (vm_update lt m (fst i) (snd i))) right"

text \<open>
  The constructors from a sequence or an initializer list sort the elements by key and keep
  them all. \<open>std::sort\<close> leaves the order of equivalent elements open; insertion sort is one of
  its outcomes, and the results below use only that it returns a sorted permutation.
\<close>

fun sort_insert :: "('k \<Rightarrow> 'k \<Rightarrow> bool) \<Rightarrow> 'k \<times> 'v \<Rightarrow> ('k \<times> 'v) list \<Rightarrow> ('k \<times> 'v) list" where
  "sort_insert lt x [] = [x]"
| "sort_insert lt x (y # ys) =
     (if lt (fst y) (fst x) then y # sort_insert lt x ys else x # y # ys)"

fun vm_of_range :: "('k \<Rightarrow> 'k \<Rightarrow> bool) \<Rightarrow> ('k \<times> 'v) list \<Rightarrow> ('k, 'v) vector_map" where
  "vm_of_range lt [] = []"
| "vm_of_range lt (x # xs) = sort_insert lt x (vm_of_range lt xs)"

definition vm_clear :: "('k, 'v) vector_map \<Rightarrow> ('k, 'v) vector_map" where
  "vm_clear m = []"

definition vm_swap ::
  "('k, 'v) vector_map \<Rightarrow> ('k, 'v) vector_map \<Rightarrow> ('k, 'v) vector_map \<times> ('k, 'v) vector_map"
where
  "vm_swap m other = (other, m)"

text \<open>Comparison of containers: equality and the lexicographic order of the vectors.\<close>

definition vm_eq :: "('k, 'v) vector_map \<Rightarrow> ('k, 'v) vector_map \<Rightarrow> bool" where
  "vm_eq m other \<longleftrightarrow> m = other"

fun vm_less ::
  "('k::linorder, 'v::linorder) vector_map \<Rightarrow> ('k, 'v) vector_map \<Rightarrow> bool"
where
  "vm_less _ [] = False"
| "vm_less [] (_ # _) = True"
| "vm_less (x # xs) (y # ys) =
     (if fst x < fst y \<or> (\<not> fst y < fst x \<and> snd x < snd y) then True
      else if fst y < fst x \<or> (\<not> fst x < fst y \<and> snd y < snd x) then False
      else vm_less xs ys)"

text \<open>The default comparison, \<open>std::less\<close>.\<close>

definition std_less :: "'k::linorder \<Rightarrow> 'k \<Rightarrow> bool" where
  "std_less a b \<longleftrightarrow> a < b"

section \<open>Invariant and abstraction\<close>

definition vm_sorted :: "('k \<Rightarrow> 'k \<Rightarrow> bool) \<Rightarrow> ('k, 'v) vector_map \<Rightarrow> bool" where
  "vm_sorted lt m \<longleftrightarrow> sorted_wrt (\<lambda>x y. lt (fst x) (fst y)) m"

definition vm_map :: "('k \<Rightarrow> 'k \<Rightarrow> bool) \<Rightarrow> ('k, 'v) vector_map \<Rightarrow> 'k \<rightharpoonup> 'v" where
  "vm_map lt m key =
     (let i = vm_find lt m key in if i = vm_end m then None else Some (snd (m ! i)))"

text \<open>What the container asks of KEYCOMPARE: a strict total order on the keys.\<close>

locale key_order =
  fixes lt :: "'k \<Rightarrow> 'k \<Rightarrow> bool"
  assumes lt_irrefl: "\<not> lt a a"
    and lt_trans: "lt a b \<Longrightarrow> lt b c \<Longrightarrow> lt a c"
    and lt_total: "lt a b \<or> a = b \<or> lt b a"
begin

lemma lt_asym: "lt a b \<Longrightarrow> \<not> lt b a"
  using lt_irrefl lt_trans by blast

lemma not_lt_trans: "lt a b \<Longrightarrow> \<not> lt c b \<Longrightarrow> lt a c"
  using lt_total lt_trans by blast

lemma partitioned_lower: "vm_sorted lt m \<Longrightarrow> partitioned (\<lambda>e. lt (fst e) key) m"
  unfolding vm_sorted_def by (rule sorted_wrt_mono_rel) (auto intro: lt_trans)

lemma partitioned_upper: "vm_sorted lt m \<Longrightarrow> partitioned (\<lambda>e. \<not> lt key (fst e)) m"
  unfolding vm_sorted_def by (rule sorted_wrt_mono_rel) (auto intro: lt_trans)

text \<open>
  The vector around a key: the smaller keys, then possibly the key itself, then the larger
  ones; \<open>lower_bound\<close> is the number of smaller ones.
\<close>

lemma lower_bound_cases:
  assumes "vm_sorted lt m"
  obtains
    (absent) ls rs where "m = ls @ rs" "vm_lower_bound lt m key = length ls"
      "\<forall>x \<in> set ls. lt (fst x) key" "\<forall>x \<in> set rs. lt key (fst x)"
  | (present) ls v rs where "m = ls @ (key, v) # rs" "vm_lower_bound lt m key = length ls"
      "\<forall>x \<in> set ls. lt (fst x) key" "\<forall>x \<in> set rs. lt key (fst x)"
proof -
  let ?P = "\<lambda>e. lt (fst e) key"
  let ?ls = "takeWhile ?P m" and ?rs = "dropWhile ?P m"
  have m: "m = ?ls @ ?rs" by simp
  have lb: "vm_lower_bound lt m key = length ?ls"
    unfolding vm_lower_bound_def by (rule partition_point_takeWhile [OF partitioned_lower [OF assms]])
  have ls: "\<forall>x \<in> set ?ls. ?P x" by (auto dest: set_takeWhileD)
  have srt: "sorted_wrt (\<lambda>x y. lt (fst x) (fst y)) ?rs"
    using assms m unfolding vm_sorted_def by (metis sorted_wrt_append)
  show thesis
  proof (cases ?rs)
    case Nil
    with m lb ls absent [of ?ls "[]"] show thesis by simp
  next
    case (Cons x rs)
    have nx: "\<not> lt (fst x) key" using Cons hd_dropWhile [of ?P m] by simp
    have gt: "\<forall>y \<in> set rs. lt (fst x) (fst y)" using srt Cons by simp
    show thesis
    proof (cases "fst x = key")
      case True
      with m Cons have "m = ?ls @ (key, snd x) # rs" by (metis prod.collapse)
      with lb ls gt True present show thesis by blast
    next
      case False
      with nx lt_total have "lt key (fst x)" by blast
      with gt Cons have "\<forall>y \<in> set ?rs. lt key (fst y)" by (auto intro: lt_trans)
      with m lb ls absent show thesis by blast
    qed
  qed
qed

lemma find_cases:
  assumes "vm_sorted lt m"
  obtains
    (absent) ls rs where "m = ls @ rs" "vm_find lt m key = length m"
      "vm_lower_bound lt m key = length ls"
      "\<forall>x \<in> set ls. lt (fst x) key" "\<forall>x \<in> set rs. lt key (fst x)"
  | (present) ls v rs where "m = ls @ (key, v) # rs" "vm_find lt m key = length ls"
      "vm_lower_bound lt m key = length ls"
      "\<forall>x \<in> set ls. lt (fst x) key" "\<forall>x \<in> set rs. lt key (fst x)"
proof (rule lower_bound_cases [OF assms, of key])
  fix ls rs
  assume *: "m = ls @ rs" "vm_lower_bound lt m key = length ls"
    "\<forall>x \<in> set ls. lt (fst x) key" "\<forall>x \<in> set rs. lt key (fst x)"
  have "vm_find lt m key = length m"
    using * by (cases rs) (auto simp: vm_find_def vm_end_def)
  with * show thesis by (intro absent)
next
  fix ls v rs
  assume *: "m = ls @ (key, v) # rs" "vm_lower_bound lt m key = length ls"
    "\<forall>x \<in> set ls. lt (fst x) key" "\<forall>x \<in> set rs. lt key (fst x)"
  have "vm_find lt m key = length ls"
    using * lt_irrefl by (auto simp: vm_find_def vm_end_def)
  with * show thesis by (intro present)
qed

lemma map_of_larger: "\<forall>x \<in> set rs. lt key (fst x) \<Longrightarrow> map_of rs key = None"
  using lt_irrefl by (induction rs) auto

lemma map_of_smaller: "\<forall>x \<in> set ls. lt (fst x) key \<Longrightarrow> map_of ls key = None"
  using lt_irrefl by (induction ls) auto

lemmas map_of_outside = map_of_larger map_of_smaller

lemma vm_map_map_of: "vm_sorted lt m \<Longrightarrow> vm_map lt m key = map_of m key"
  by (rule find_cases [of m key]; simp add: vm_map_def vm_end_def map_add_def map_of_outside)

lemma sorted_around:
  "vm_sorted lt (ls @ rs) \<Longrightarrow> \<forall>x \<in> set ls. lt (fst x) key \<Longrightarrow> \<forall>x \<in> set rs. lt key (fst x) \<Longrightarrow>
   vm_sorted lt (ls @ (key, v) # rs)"
  by (auto simp: vm_sorted_def sorted_wrt_append)

lemma sorted_replace:
  "vm_sorted lt (ls @ (key, v) # rs) \<Longrightarrow> vm_sorted lt (ls @ (key, w) # rs)"
  by (auto simp: vm_sorted_def sorted_wrt_append)

lemma sorted_remove: "vm_sorted lt (ls @ x # rs) \<Longrightarrow> vm_sorted lt (ls @ rs)"
  by (auto simp: vm_sorted_def sorted_wrt_append)

lemma vm_sorted_find:
  assumes "vm_sorted lt m" and "i < length m" and "fst (m ! i) = key"
  shows "vm_find lt m key = i"
proof (rule find_cases [OF assms(1), of key])
  fix ls rs
  assume "m = ls @ rs" "\<forall>x \<in> set ls. lt (fst x) key" "\<forall>x \<in> set rs. lt key (fst x)"
  moreover have "m ! i \<in> set m" using assms(2) by (rule nth_mem)
  ultimately show ?thesis using assms(3) lt_irrefl by auto
next
  fix ls v rs
  assume *: "m = ls @ (key, v) # rs" "vm_find lt m key = length ls"
    "\<forall>x \<in> set ls. lt (fst x) key" "\<forall>x \<in> set rs. lt key (fst x)"
  have "i = length ls"
  proof (rule ccontr)
    assume "i \<noteq> length ls"
    then consider "i < length ls" | "length ls < i" by linarith
    then have "m ! i \<in> set ls \<or> m ! i \<in> set rs"
    proof cases
      case 1
      then show ?thesis using *(1) by (simp add: nth_append)
    next
      case 2
      then obtain j where "i = Suc (length ls + j)" by (auto dest: less_imp_Suc_add)
      then have "m ! i = rs ! j" "j < length rs"
        using *(1) assms(2) by (auto simp: nth_append)
      then show ?thesis by simp
    qed
    with * assms(3) lt_irrefl show False by auto
  qed
  with * show ?thesis by simp
qed

text \<open>The three operations that search with \<open>lower_bound\<close>, in the two situations.\<close>

lemma insert_absent:
  "vm_lower_bound lt (ls @ rs) key = length ls \<Longrightarrow> \<forall>x \<in> set rs. lt key (fst x) \<Longrightarrow>
   vm_insert lt (ls @ rs) (key, v) = ((length ls, True), ls @ (key, v) # rs)"
  by (cases rs) (simp_all add: vm_insert_def vm_end_def insert_at_def)

lemma insert_present:
  "vm_lower_bound lt (ls @ (key, w) # rs) key = length ls \<Longrightarrow>
   vm_insert lt (ls @ (key, w) # rs) (key, v) = ((length ls, False), ls @ (key, w) # rs)"
  by (simp add: vm_insert_def vm_end_def lt_irrefl)

lemma update_absent:
  "vm_lower_bound lt (ls @ rs) key = length ls \<Longrightarrow> \<forall>x \<in> set rs. lt key (fst x) \<Longrightarrow>
   vm_update lt (ls @ rs) key v = (False, ls @ (key, v) # rs)"
  by (cases rs) (simp_all add: vm_update_def vm_end_def insert_at_def)

lemma update_present:
  "vm_lower_bound lt (ls @ (key, w) # rs) key = length ls \<Longrightarrow>
   vm_update lt (ls @ (key, w) # rs) key v = (True, ls @ (key, v) # rs)"
  by (simp add: vm_update_def vm_end_def lt_irrefl)

lemmas op_simps = insert_absent insert_present update_absent update_present

lemma insert_sorted: "vm_sorted lt m \<Longrightarrow> vm_sorted lt (snd (vm_insert lt m (key, v)))"
  by (rule lower_bound_cases [of m key]) (auto simp: op_simps intro: sorted_around)

lemma insert_map:
  "vm_sorted lt m \<Longrightarrow> vm_map lt (snd (vm_insert lt m (key, v))) k =
     (if k = key \<and> vm_map lt m key = None then Some v else vm_map lt m k)"
  by (rule lower_bound_cases [of m key])
     (simp_all add: vm_map_map_of insert_sorted op_simps sorted_around map_add_def
        map_of_outside split: option.splits)

lemma insert_result:
  assumes "vm_sorted lt m"
  shows "fst (vm_insert lt m (key, v)) =
    (vm_find lt (snd (vm_insert lt m (key, v))) key, vm_map lt m key = None)"
proof (rule lower_bound_cases [OF assms, of key])
  fix ls rs
  assume *: "m = ls @ rs" "vm_lower_bound lt m key = length ls"
    "\<forall>x \<in> set ls. lt (fst x) key" "\<forall>x \<in> set rs. lt key (fst x)"
  with assms have "vm_sorted lt (ls @ (key, v) # rs)" by (simp add: sorted_around)
  then have "vm_find lt (ls @ (key, v) # rs) key = length ls" by (rule vm_sorted_find) auto
  with * assms show ?thesis
    by (simp add: op_simps vm_map_map_of map_add_def map_of_outside)
next
  fix ls w rs
  assume *: "m = ls @ (key, w) # rs" "vm_lower_bound lt m key = length ls"
  have "vm_find lt m key = length ls" by (rule vm_sorted_find [OF assms]) (use * in auto)
  with * assms show ?thesis
    by (auto simp: op_simps vm_map_def vm_end_def)
qed

lemma update_sorted: "vm_sorted lt m \<Longrightarrow> vm_sorted lt (snd (vm_update lt m key v))"
  by (rule lower_bound_cases [of m key])
     (auto simp: op_simps intro: sorted_around sorted_replace)

lemma update_map:
  assumes "vm_sorted lt m"
  shows "vm_map lt (snd (vm_update lt m key v)) = (vm_map lt m)(key \<mapsto> v)"
proof
  fix k
  have "map_of (snd (vm_update lt m key v)) k = ((map_of m)(key \<mapsto> v)) k"
    by (rule lower_bound_cases [OF assms, of key])
       (auto simp: op_simps map_add_def map_of_outside split: option.splits)
  then show "vm_map lt (snd (vm_update lt m key v)) k = ((vm_map lt m)(key \<mapsto> v)) k"
    using assms by (simp add: vm_map_map_of update_sorted)
qed

lemma update_result:
  "vm_sorted lt m \<Longrightarrow> fst (vm_update lt m key v) \<longleftrightarrow> vm_map lt m key \<noteq> None"
  by (rule lower_bound_cases [of m key])
     (auto simp: vm_map_map_of op_simps map_add_def map_of_outside)

lemma erase_cases:
  assumes "vm_sorted lt m"
  obtains
    (absent) "vm_erase lt m key = (0, m)" "vm_map lt m key = None"
  | (present) ls v rs where "m = ls @ (key, v) # rs" "vm_erase lt m key = (1, ls @ rs)"
      "\<forall>x \<in> set ls. lt (fst x) key" "\<forall>x \<in> set rs. lt key (fst x)"
proof (rule find_cases [OF assms, of key])
  assume "vm_find lt m key = length m"
  then show thesis by (intro absent) (simp_all add: vm_erase_def vm_end_def vm_map_def)
next
  fix ls v rs
  assume *: "m = ls @ (key, v) # rs" "vm_find lt m key = length ls"
    "\<forall>x \<in> set ls. lt (fst x) key" "\<forall>x \<in> set rs. lt key (fst x)"
  then have "vm_erase lt m key = (1, ls @ rs)"
    by (simp add: vm_erase_def vm_end_def vm_erase_pos_def erase_range_def)
  with * show thesis by (intro present)
qed

lemma erase_sorted: "vm_sorted lt m \<Longrightarrow> vm_sorted lt (snd (vm_erase lt m key))"
  by (rule erase_cases [of m key]) (auto intro: sorted_remove)

lemma erase_map:
  "vm_sorted lt m \<Longrightarrow> vm_map lt (snd (vm_erase lt m key)) = (vm_map lt m)(key := None)"
  by (rule ext, rule erase_cases [of m key])
     (auto simp: vm_map_map_of erase_sorted map_add_def map_of_outside dest: sorted_remove
        split: option.splits)

lemma erase_result:
  "vm_sorted lt m \<Longrightarrow> fst (vm_erase lt m key) = (if vm_map lt m key = None then 0 else 1)"
  by (rule erase_cases [of m key])
     (auto simp: vm_map_map_of map_add_def map_of_outside)

end

text \<open>
  The contract the container offers to its clients, free of its representation: an invariant,
  the partial function it denotes, and the three operations that change it. \<open>insert\<close> keeps an
  element that is there, \<open>update\<close> replaces it. The bulk operations are clients.
\<close>

locale map_provider =
  fixes inv :: "'c \<Rightarrow> bool"
    and lookup :: "'c \<Rightarrow> 'k \<rightharpoonup> 'v"
    and ins :: "'c \<Rightarrow> 'k \<times> 'v \<Rightarrow> 'c"
    and upd :: "'c \<Rightarrow> 'k \<times> 'v \<Rightarrow> 'c"
    and del :: "'c \<Rightarrow> 'k \<Rightarrow> 'c"
  assumes ins_inv: "inv m \<Longrightarrow> inv (ins m x)"
    and ins_lookup: "inv m \<Longrightarrow> lookup (ins m x) = [fst x \<mapsto> snd x] ++ lookup m"
    and upd_inv: "inv m \<Longrightarrow> inv (upd m x)"
    and upd_lookup: "inv m \<Longrightarrow> lookup (upd m x) = (lookup m)(fst x \<mapsto> snd x)"
    and del_inv: "inv m \<Longrightarrow> inv (del m k)"
    and del_lookup: "inv m \<Longrightarrow> lookup (del m k) = (lookup m)(k := None)"
begin

lemma bulk_insert:
  "inv m \<Longrightarrow> inv (foldl ins m xs) \<and> lookup (foldl ins m xs) = map_of xs ++ lookup m"
proof (induction xs arbitrary: m)
  case Nil
  then show ?case by simp
next
  case (Cons x xs)
  have "map_of xs ++ ([fst x \<mapsto> snd x] ++ lookup m) = map_of (x # xs) ++ lookup m"
    by (auto simp: fun_eq_iff map_add_def split: option.splits)
  with Cons show ?case by (simp add: ins_inv ins_lookup fun_upd_def)
qed

lemma bulk_update:
  "inv m \<Longrightarrow> inv (foldl upd m xs) \<and> lookup (foldl upd m xs) = lookup m ++ map_of (rev xs)"
  by (induction xs arbitrary: m)
     (simp_all add: upd_inv upd_lookup map_add_upd_left map_of_append)

lemma bulk_delete:
  "inv m \<Longrightarrow> inv (foldl del m ks) \<and> lookup (foldl del m ks) = lookup m |` (- set ks)"
  by (induction ks arbitrary: m)
     (auto simp: del_inv del_lookup restrict_map_def fun_eq_iff)

end

section \<open>The container provides the contract\<close>

interpretation vless: key_order "std_less :: 'k::linorder \<Rightarrow> 'k \<Rightarrow> bool"
  by unfold_locales (auto simp: std_less_def)

interpretation vm: map_provider
  "vm_sorted (std_less :: 'k::linorder \<Rightarrow> 'k \<Rightarrow> bool)" "vm_map std_less"
  "\<lambda>m x. snd (vm_insert std_less m x)" "\<lambda>m x. snd (vm_update_pair std_less m x)"
  "\<lambda>m k. snd (vm_erase std_less m k)"
proof unfold_locales
  fix m :: "('k, 'v) vector_map" and x :: "'k \<times> 'v" and k :: 'k
  assume m: "vm_sorted std_less m"
  show "vm_sorted std_less (snd (vm_insert std_less m x))"
    using vless.insert_sorted [OF m] by (cases x) simp
  show "vm_map std_less (snd (vm_insert std_less m x)) = [fst x \<mapsto> snd x] ++ vm_map std_less m"
    using vless.insert_map [OF m]
    by (cases x) (auto simp: fun_eq_iff map_add_def split: option.splits)
  show "vm_sorted std_less (snd (vm_update_pair std_less m x))"
    using vless.update_sorted [OF m] by (simp add: vm_update_pair_def)
  show "vm_map std_less (snd (vm_update_pair std_less m x)) = (vm_map std_less m)(fst x \<mapsto> snd x)"
    using vless.update_map [OF m] by (simp add: vm_update_pair_def)
  show "vm_sorted std_less (snd (vm_erase std_less m k))" by (rule vless.erase_sorted [OF m])
  show "vm_map std_less (snd (vm_erase std_less m k)) = (vm_map std_less m)(k := None)"
    by (rule vless.erase_map [OF m])
qed

lemma insert_range_foldl:
  "vm_insert_range lt m xs = foldl (\<lambda>m x. snd (vm_insert lt m x)) m xs"
  by (induction xs arbitrary: m) simp_all

lemma merge_foldl: "vm_merge lt m xs = foldl (\<lambda>m x. snd (vm_update_pair lt m x)) m xs"
  by (induction xs arbitrary: m) (simp_all add: vm_update_pair_def)

lemma erase_keys_foldl:
  "snd (vm_erase_keys lt m ks) = foldl (\<lambda>m k. snd (vm_erase lt m k)) m ks"
  by (induction ks arbitrary: m) (simp_all add: split_beta)

lemma insert_parallel_zip:
  "vm_insert_parallel lt m ks vs =
     (if length ks \<le> length vs then Some (vm_insert_range lt m (zip ks vs)) else None)"
  by (induction lt m ks vs rule: vm_insert_parallel.induct) (simp_all add: vm_insert_key_def)

lemma map_of_rev_distinct:
  assumes "distinct (map fst xs)"
  shows "map_of (rev xs) = map_of xs"
proof
  fix k
  have "distinct (map fst (rev xs))" using assms by (simp add: rev_map [symmetric])
  with assms show "map_of (rev xs) k = map_of xs k"
    by (metis map_of_eq_None_iff map_of_eq_Some_iff not_None_eq set_rev list.set_map)
qed

lemma sorted_map_of_rev:
  fixes m :: "('k::linorder, 'v) vector_map"
  assumes "vm_sorted std_less m"
  shows "map_of (rev m) = vm_map std_less m"
proof -
  have "sorted_wrt (<) (map fst m)"
    using assms by (simp add: vm_sorted_def std_less_def sorted_wrt_map)
  then show ?thesis
    using vless.vm_map_map_of [OF assms]
    by (auto simp: map_of_rev_distinct strict_sorted_iff fun_eq_iff)
qed

section \<open>Properties\<close>

text \<open>
  On a sorted vector the binary search of \<open>find\<close> computes what a linear scan would: the
  map it denotes is that of the association list, \<open>at\<close> throws exactly for the keys outside it,
  and \<open>operator()\<close> and \<open>operator[]\<close> return the default value there without inserting.
\<close>

theorem vm_lookup_linear_scan:
  fixes m :: "('k::linorder, 'v) vector_map"
  assumes "vm_sorted std_less m"
  shows "vm_map std_less m key = map_of m key
    \<and> vm_at std_less m key =
        (case map_of m key of None \<Rightarrow> Inl Out_Of_Range | Some v \<Rightarrow> Inr v)
    \<and> vm_index std_less d m key = (case map_of m key of None \<Rightarrow> d | Some v \<Rightarrow> v)
    \<and> vm_count std_less m key = (if map_of m key = None then 0 else 1)"
proof -
  have m: "vm_map std_less m key = map_of m key" by (rule vless.vm_map_map_of [OF assms])
  show ?thesis
    unfolding m [symmetric]
    by (auto simp: vm_at_def vm_index_def vm_call_def vm_count_def vm_map_def Let_def)
qed

theorem vm_lookup_linear_scan_witness:
  "vm_at std_less [(1 :: nat, ''a''), (4, ''b''), (9, ''c'')] 4 = Inr ''b'' \<and>
   vm_at std_less [(1 :: nat, ''a''), (4, ''b''), (9, ''c'')] 5 = Inl Out_Of_Range"
proof -
  have "vm_sorted std_less [(1 :: nat, ''a''), (4, ''b''), (9, ''c'')]"
    by (simp add: vm_sorted_def std_less_def)
  note * = vm_lookup_linear_scan [OF this]
  show ?thesis using * [of 4] * [of 5] by simp
qed

text \<open>
  C34. \<open>insert\<close>, \<open>update\<close> and \<open>erase\<close> keep the vector strictly sorted and refine the
  operations of a finite map: \<open>insert\<close> adds a new key and leaves a present one alone, its flag
  saying which and its iterator pointing at the element; \<open>update\<close> always stores, its flag
  saying that the key was there; \<open>erase\<close> removes and counts.
\<close>

theorem vm_ops_refine_map:
  fixes m :: "('k::linorder, 'v) vector_map"
  assumes m: "vm_sorted std_less m"
    and ins: "vm_insert std_less m (key, v) = ((i, isnew), m1)"
    and upd: "vm_update std_less m key v = (was, m2)"
    and del: "vm_erase std_less m key = (n, m3)"
  shows "vm_sorted std_less m1 \<and> vm_sorted std_less m2 \<and> vm_sorted std_less m3
    \<and> vm_map std_less m1 = [key \<mapsto> v] ++ vm_map std_less m
    \<and> isnew = (vm_map std_less m key = None) \<and> i = vm_find std_less m1 key
    \<and> vm_map std_less m2 = (vm_map std_less m)(key \<mapsto> v)
    \<and> was = (vm_map std_less m key \<noteq> None)
    \<and> vm_map std_less m3 = (vm_map std_less m)(key := None)
    \<and> n = (if vm_map std_less m key = None then 0 else 1)"
  using vm.ins_inv [OF m, of "(key, v)"] vm.ins_lookup [OF m, of "(key, v)"]
    vless.insert_result [OF m, of key v] vm.upd_inv [OF m, of "(key, v)"]
    vless.update_map [OF m, of key v] vless.update_result [OF m, of key v]
    vm.del_inv [OF m, of key] vless.erase_map [OF m, of key] vless.erase_result [OF m, of key]
  by (simp add: ins upd del vm_update_pair_def)

theorem vm_ops_refine_map_witness:
  "vm_sorted std_less [(1 :: nat, ''a''), (3, ''z''), (4, ''b'')] \<and>
   vm_map std_less [(1 :: nat, ''a''), (3, ''z''), (4, ''b'')] 3 = Some ''z''"
proof -
  let ?m = "[(1 :: nat, ''a''), (4, ''b'')]"
  have s: "vm_sorted std_less ?m" by (simp add: vm_sorted_def std_less_def)
  have lb [simplified]: "vm_lower_bound std_less ?m 3 = 1"
    by (simp add: vm_lower_bound_def partition_point_def bisect.simps std_less_def)
  have i: "vm_insert std_less ?m (3, ''z'') = ((1, True), [(1, ''a''), (3, ''z''), (4, ''b'')])"
    by (simp add: vm_insert_def lb vm_end_def std_less_def insert_at_def)
  have u: "vm_update std_less ?m 3 ''z'' = (False, [(1, ''a''), (3, ''z''), (4, ''b'')])"
    by (simp add: vm_update_def lb vm_end_def std_less_def insert_at_def)
  have d: "vm_erase std_less ?m 3 = (0, ?m)"
    by (simp add: vm_erase_def vm_find_def lb vm_end_def std_less_def Let_def)
  from vm_ops_refine_map [OF s i u d]
  have "vm_sorted std_less [(1 :: nat, ''a''), (3, ''z''), (4, ''b'')]"
    "vm_map std_less [(1, ''a''), (3, ''z''), (4, ''b'')] = (vm_map std_less ?m)(3 \<mapsto> ''z'')"
    by blast+
  then show ?thesis by simp
qed

text \<open>
  C35. The bulk operations against finite maps, for sequences of any length and in any order,
  duplicates included: in a range insertion the elements already there win, then the first of
  the sequence; in \<open>merge\<close> the right container wins; \<open>erase\<close> of a sequence of keys removes
  them all; and the insertion of two parallel sequences is defined exactly when there are
  values enough for the keys, and then is the insertion of the pairs.
\<close>

theorem vm_bulk_ops:
  fixes m r :: "('k::linorder, 'v) vector_map"
  assumes m: "vm_sorted std_less m" and r: "vm_sorted std_less r"
  shows "vm_map std_less (vm_insert_range std_less m xs) = map_of xs ++ vm_map std_less m
    \<and> vm_map std_less (vm_merge std_less m r) = vm_map std_less m ++ vm_map std_less r
    \<and> vm_map std_less (snd (vm_erase_keys std_less m ks)) = vm_map std_less m |` (- set ks)
    \<and> vm_sorted std_less (vm_insert_range std_less m xs)
    \<and> vm_sorted std_less (vm_merge std_less m r)
    \<and> vm_sorted std_less (snd (vm_erase_keys std_less m ks))
    \<and> vm_insert_parallel std_less m ks vs =
        (if length ks \<le> length vs then Some (vm_insert_range std_less m (zip ks vs)) else None)"
  using vm.bulk_insert [OF m] vm.bulk_update [OF m] vm.bulk_delete [OF m]
  by (simp add: insert_range_foldl merge_foldl erase_keys_foldl insert_parallel_zip
      sorted_map_of_rev [OF r])

theorem vm_bulk_ops_witness:
  "vm_map std_less (vm_merge std_less [(1 :: nat, ''a''), (2, ''b'')] [(2, ''c'')]) 2 = Some ''c''"
proof -
  have *: "vm_sorted std_less [(1 :: nat, ''a''), (2, ''b'')]"
    "vm_sorted std_less [(2 :: nat, ''c'')]"
    by (simp_all add: vm_sorted_def std_less_def)
  show ?thesis
    using vm_bulk_ops [OF *, of "[]" "[]" "[]"]
    by (simp add: vless.vm_map_map_of [OF *(2)])
qed

text \<open>
  The hinted \<open>insert\<close> takes its hint only to do harm: whenever its condition holds (the
  hinted element, and the next one if there is one, are smaller than the new key) it inserts in
  front of the hinted element, so the new key precedes a smaller one and the vector is no
  longer sorted.
\<close>

theorem vm_insert_hint_unsorts:
  fixes m :: "('k::linorder, 'v) vector_map"
  assumes "pos < length m" and "fst (m ! pos) < key"
    and "pos = length m - 1 \<or> fst (m ! Suc pos) < key"
  shows "fst (vm_insert_hint std_less m pos (key, v)) = (pos, True)
    \<and> \<not> vm_sorted std_less (snd (vm_insert_hint std_less m pos (key, v)))"
proof -
  have r: "vm_insert_hint std_less m pos (key, v) = ((pos, True), insert_at pos (key, v) m)"
    using assms by (auto simp: vm_insert_hint_def vm_end_def std_less_def)
  have "drop pos m = m ! pos # drop (Suc pos) m"
    using assms(1) by (simp add: Cons_nth_drop_Suc)
  then have "\<not> vm_sorted std_less (insert_at pos (key, v) m)"
    using assms(2) by (auto simp: insert_at_def vm_sorted_def std_less_def sorted_wrt_append)
  with r show ?thesis by simp
qed

theorem vm_insert_hint_unsorts_witness:
  "\<not> vm_sorted std_less (snd (vm_insert_hint std_less [(1 :: nat, ''a'')] 0 (2, ''b'')))"
  using vm_insert_hint_unsorts [of 0 "[(1 :: nat, ''a'')]" 2 "''b''"] by simp

lemma mset_sort_insert [simp]: "mset (sort_insert lt x ys) = add_mset x (mset ys)"
  by (induction ys) simp_all

lemma mset_vm_of_range [simp]: "mset (vm_of_range lt xs) = mset xs"
  by (induction xs) simp_all

lemma set_sort_insert [simp]: "set (sort_insert lt x ys) = insert x (set ys)"
  by (induction ys) auto

lemma sorted_sort_insert:
  "sorted (map fst ys) \<Longrightarrow> sorted (map fst (sort_insert std_less x (ys :: ('k::linorder \<times> 'v) list)))"
  by (induction ys) (auto simp: std_less_def intro: order.trans less_imp_le)

lemma sorted_vm_of_range:
  "sorted (map fst (vm_of_range std_less (xs :: ('k::linorder \<times> 'v) list)))"
  by (induction xs) (simp_all add: sorted_sort_insert)

text \<open>
  The constructors from a sequence keep equivalent keys: the vector is a permutation of the
  sequence, in weak order only, and it satisfies the container's invariant exactly when the
  keys of the sequence were distinct.
\<close>

theorem vm_of_range_keeps_duplicates:
  fixes xs :: "('k::linorder \<times> 'v) list"
  shows "mset (vm_of_range std_less xs) = mset xs
    \<and> sorted (map fst (vm_of_range std_less xs))
    \<and> vm_sorted std_less (vm_of_range std_less xs) = distinct (map fst xs)"
proof -
  have "mset (map fst (vm_of_range std_less xs)) = mset (map fst xs)" by (simp add: mset_map)
  then have "distinct (map fst (vm_of_range std_less xs)) = distinct (map fst xs)"
    by (rule mset_eq_imp_distinct_iff)
  then show ?thesis
    using sorted_vm_of_range [of xs]
    by (simp add: vm_sorted_def std_less_def sorted_wrt_map [symmetric] strict_sorted_iff)
qed

end
