(* ===== verification/Exec_States.thy ===== *)
theory Exec_States
  imports StatusCodes
begin

text \<open>
  \<open>AlgsExecutionStates\<close> (GaudiHive/src/AlgsExecutionStates.h, .cpp): the execution states of
  the algorithms within one event, the state machine the concurrent scheduler drives. The
  class keeps the state of every algorithm and, for every state, the sorted set of the
  algorithms in it; \<open>set\<close> is the only operation that changes a state. The legal transitions
  are also given as a step relation, and the book-keeping as a contract that the visitors of
  the precedence graph rely on.
\<close>

section \<open>States and transitions\<close>

datatype exec_state =
    INITIAL | CONTROLREADY | DATAREADY | RESOURCELESS | SCHEDULED
  | EVTACCEPTED | EVTREJECTED | ERROR | MAXVALUE

fun state_num :: "exec_state \<Rightarrow> nat" where
  "state_num INITIAL = 0"
| "state_num CONTROLREADY = 1"
| "state_num DATAREADY = 2"
| "state_num RESOURCELESS = 3"
| "state_num SCHEDULED = 4"
| "state_num EVTACCEPTED = 5"
| "state_num EVTREJECTED = 6"
| "state_num ERROR = 7"
| "state_num MAXVALUE = 8"

fun state_name :: "exec_state \<Rightarrow> string" where
  "state_name INITIAL = ''INITIAL''"
| "state_name CONTROLREADY = ''CONTROLREADY''"
| "state_name DATAREADY = ''DATAREADY''"
| "state_name RESOURCELESS = ''RESOURCELESS''"
| "state_name SCHEDULED = ''SCHEDULED''"
| "state_name EVTACCEPTED = ''EVTACCEPTED''"
| "state_name EVTREJECTED = ''EVTREJECTED''"
| "state_name ERROR = ''ERROR''"
| "state_name MAXVALUE = ''UNKNOWN''"

definition transition :: "exec_state \<Rightarrow> exec_state \<Rightarrow> nat" where
  "transition first second = state_num first * 256 + state_num second"

text \<open>The labels of the \<open>switch\<close> in \<open>set\<close>.\<close>

definition allowed_transitions :: "nat list" where
  "allowed_transitions =
     [transition INITIAL CONTROLREADY, transition CONTROLREADY DATAREADY,
      transition DATAREADY SCHEDULED, transition DATAREADY RESOURCELESS,
      transition RESOURCELESS SCHEDULED, transition SCHEDULED ERROR,
      transition SCHEDULED EVTACCEPTED, transition SCHEDULED EVTREJECTED]"

section \<open>The book-keeping\<close>

text \<open>\<open>m_algsInState\<close> is a vector of flat sets: sorted lists without repetition.\<close>

record algs_states =
  m_states :: "exec_state list"
  m_algsInState :: "nat list list"

definition flat_insert :: "nat \<Rightarrow> nat list \<Rightarrow> nat list" where
  "flat_insert i xs = insort_insert i xs"

definition flat_erase :: "nat \<Rightarrow> nat list \<Rightarrow> nat list" where
  "flat_erase i xs = remove1 i xs"

definition new_algs_states :: "nat \<Rightarrow> algs_states" where
  "new_algs_states algsNumber =
     \<lparr>m_states = replicate algsNumber INITIAL,
      m_algsInState = (replicate (state_num MAXVALUE) [])[state_num INITIAL := [0..<algsNumber]]\<rparr>"

definition set_state :: "nat \<Rightarrow> exec_state \<Rightarrow> algs_states \<Rightarrow> error_code \<times> algs_states" where
  "set_state iAlgo newState s =
     (if iAlgo \<ge> length (m_states s) then (FAILURE, s)
      else
        (let oldState = m_states s ! iAlgo in
         if oldState = newState then (SUCCESS, s)
         else
           (let move = (\<lambda>st. s\<lparr>m_states := (m_states s)[iAlgo := st],
               m_algsInState :=
                 (let erased = (m_algsInState s)
                    [state_num oldState := flat_erase iAlgo (m_algsInState s ! state_num oldState)]
                  in erased[state_num st := flat_insert iAlgo (erased ! state_num st)])\<rparr>)
            in if transition oldState newState \<in> set allowed_transitions
               then (SUCCESS, move newState)
               else (FAILURE, move ERROR))))"

definition reset_states :: "algs_states \<Rightarrow> algs_states" where
  "reset_states s =
     s\<lparr>m_states := map (\<lambda>_. INITIAL) (m_states s),
       m_algsInState :=
         (map (\<lambda>_. []) (m_algsInState s))[state_num INITIAL := [0..<length (m_states s)]]\<rparr>"

definition contains_state :: "algs_states \<Rightarrow> exec_state \<Rightarrow> bool" where
  "contains_state s st \<longleftrightarrow> length (m_algsInState s ! state_num st) > 0"

fun containsAny :: "algs_states \<Rightarrow> exec_state list \<Rightarrow> bool" where
  "containsAny s [] = False"
| "containsAny s (st # l) =
     (if length (m_algsInState s ! state_num st) > 0 then True else containsAny s l)"

definition algsInState :: "algs_states \<Rightarrow> exec_state \<Rightarrow> nat list" where
  "algsInState s st = m_algsInState s ! state_num st"

definition state_of :: "algs_states \<Rightarrow> nat \<Rightarrow> exec_state" where
  "state_of s i = m_states s ! i"

definition states_size :: "algs_states \<Rightarrow> nat" where
  "states_size s = length (m_states s)"

definition sizeOfSubset :: "algs_states \<Rightarrow> exec_state \<Rightarrow> nat" where
  "sizeOfSubset s st = length (m_algsInState s ! state_num st)"

section \<open>Legal steps\<close>

inductive alg_step :: "exec_state \<Rightarrow> exec_state \<Rightarrow> bool" where
  control_ready: "alg_step INITIAL CONTROLREADY"
| data_ready: "alg_step CONTROLREADY DATAREADY"
| resourceless: "alg_step DATAREADY RESOURCELESS"
| scheduled: "st = DATAREADY \<or> st = RESOURCELESS \<Longrightarrow> alg_step st SCHEDULED"
| finished: "st = EVTACCEPTED \<or> st = EVTREJECTED \<or> st = ERROR \<Longrightarrow> alg_step SCHEDULED st"

code_pred alg_step .

inductive_cases alg_stepE: "alg_step a b"

lemma state_num_inj [simp]: "state_num a = state_num b \<longleftrightarrow> a = b"
  by (cases a; cases b) simp_all

lemma state_num_le: "state_num a \<le> 8"
  by (cases a) simp_all

lemma state_num_less_8: "state_num a < 8 \<longleftrightarrow> a \<noteq> MAXVALUE"
  by (cases a) simp_all

lemma transition_inj: "transition a b = transition c d \<longleftrightarrow> a = c \<and> b = d"
proof
  have split: "transition x y div 256 = state_num x \<and> transition x y mod 256 = state_num y" for x y
    using state_num_le [of y] by (simp add: transition_def)
  assume "transition a b = transition c d"
  then show "a = c \<and> b = d" by (metis split state_num_inj)
qed simp

lemma allowed_iff_step: "transition a b \<in> set allowed_transitions \<longleftrightarrow> alg_step a b"
  by (auto simp: allowed_transitions_def transition_inj intro: alg_step.intros elim: alg_stepE)

section \<open>The invariant\<close>

text \<open>Every set holds, in increasing order, exactly the indices of the algorithms in its state.\<close>

definition indices_in :: "exec_state list \<Rightarrow> nat \<Rightarrow> nat list" where
  "indices_in sts k = filter (\<lambda>i. state_num (sts ! i) = k) [0..<length sts]"

definition states_ok :: "algs_states \<Rightarrow> bool" where
  "states_ok s \<longleftrightarrow>
     m_algsInState s = map (indices_in (m_states s)) [0..<8] \<and> MAXVALUE \<notin> set (m_states s)"

lemma sorted_distinct_indices: "sorted (indices_in sts k) \<and> distinct (indices_in sts k)"
  by (simp add: indices_in_def sorted_wrt_filter)

lemma set_indices: "set (indices_in sts k) = {i. i < length sts \<and> state_num (sts ! i) = k}"
  by (auto simp: indices_in_def)

lemma sorted_list_eqI:
  "sorted xs \<Longrightarrow> distinct xs \<Longrightarrow> sorted ys \<Longrightarrow> distinct ys \<Longrightarrow> set xs = set ys \<Longrightarrow> xs = ys"
  by (rule sorted_distinct_set_unique)

lemma indices_erase:
  assumes "i < length sts" and "st \<noteq> sts ! i"
  shows "flat_erase i (indices_in sts (state_num (sts ! i)))
    = indices_in (sts[i := st]) (state_num (sts ! i))"
  unfolding flat_erase_def
  by (rule sorted_list_eqI)
     (use assms in \<open>auto simp: sorted_distinct_indices sorted_remove1 set_indices nth_list_update\<close>)

lemma indices_insert:
  assumes "i < length sts"
  shows "flat_insert i (indices_in sts (state_num st)) = indices_in (sts[i := st]) (state_num st)"
  unfolding flat_insert_def
  by (rule sorted_list_eqI)
     (use assms in \<open>auto simp: sorted_distinct_indices sorted_insort_insert distinct_insort_insert
        set_insort_insert set_indices nth_list_update\<close>)

lemma indices_other:
  "i < length sts \<Longrightarrow> k \<noteq> state_num st \<Longrightarrow> k \<noteq> state_num (sts ! i) \<Longrightarrow>
   indices_in (sts[i := st]) k = indices_in sts k"
  by (auto simp: indices_in_def nth_list_update intro!: filter_cong)

text \<open>What \<open>set\<close> does, on its four branches.\<close>

definition next_state :: "exec_state \<Rightarrow> exec_state \<Rightarrow> exec_state" where
  "next_state old new = (if old = new \<or> alg_step old new then new else ERROR)"

lemma map_upt_update: "(map f [0..<n])[k := v] = map (f(k := v)) [0..<n]"
  by (rule nth_equalityI) (auto simp: nth_list_update)

lemma moved_sets:
  assumes i: "i < length sts" and ok: "ais = map (indices_in sts) [0..<8]"
    and old: "old = sts ! i" "old \<noteq> MAXVALUE" and st: "st \<noteq> MAXVALUE"
  shows "(let erased = ais[state_num old := flat_erase i (ais ! state_num old)]
     in erased[state_num st := flat_insert i (erased ! state_num st)])
     = map (indices_in (sts[i := st])) [0..<8]"
proof -
  have lt: "state_num old < 8" "state_num st < 8" using old st by (simp_all add: state_num_less_8)
  show ?thesis
  proof (cases "st = old")
    case True
    have "flat_insert i (flat_erase i (indices_in sts (state_num old)))
        = indices_in sts (state_num old)"
      unfolding flat_insert_def flat_erase_def
      by (rule sorted_list_eqI)
         (use i old in \<open>auto simp: sorted_distinct_indices sorted_insort_insert
            distinct_insort_insert set_insort_insert sorted_remove1 set_indices\<close>)
    then show ?thesis
      using lt True old ok by (simp add: Let_def map_upt_update)
  next
    case False
    with old have "flat_erase i (indices_in sts (state_num old))
        = indices_in (sts[i := st]) (state_num old)"
      using i by (simp add: indices_erase)
    with False lt i old ok show ?thesis
      by (auto simp: Let_def map_upt_update indices_insert indices_other)
  qed
qed

lemma set_state_cases:
  assumes ok: "states_ok s" and i: "i < length (m_states s)"
  shows "set_state i new s =
    (if state_of s i = new \<or> alg_step (state_of s i) new then SUCCESS else FAILURE,
     let sts = (m_states s)[i := next_state (state_of s i) new]
     in \<lparr>m_states = sts, m_algsInState = map (indices_in sts) [0..<8]\<rparr>)"
proof -
  let ?old = "m_states s ! i"
  have nm: "?old \<noteq> MAXVALUE" using ok i by (metis nth_mem states_ok_def)
  have ais: "m_algsInState s = map (indices_in (m_states s)) [0..<8]"
    using ok by (simp add: states_ok_def)
  have s: "s = \<lparr>m_states = m_states s, m_algsInState = m_algsInState s\<rparr>" by simp
  show ?thesis
  proof (cases "?old = new")
    case True
    then have "(m_states s)[i := new] = m_states s" by (auto simp: list_update_id)
    with True i s show ?thesis
      by (simp add: set_state_def state_of_def next_state_def Let_def ais [symmetric])
  next
    case False
    show ?thesis
    proof (cases "alg_step ?old new")
      case True
      then have "new \<noteq> MAXVALUE" by (auto elim: alg_stepE)
      from moved_sets [OF i ais refl nm this] True False i show ?thesis
        by (simp add: set_state_def state_of_def next_state_def allowed_iff_step Let_def)
    next
      case F: False
      from moved_sets [OF i ais refl nm, of ERROR] F False i show ?thesis
        by (simp add: set_state_def state_of_def next_state_def allowed_iff_step Let_def)
    qed
  qed
qed

lemma set_state_ok:
  assumes "states_ok s"
  shows "states_ok (snd (set_state i new s))"
proof (cases "i < length (m_states s)")
  case True
  have "state_of s i \<noteq> MAXVALUE"
    using assms True unfolding states_ok_def state_of_def by (metis nth_mem)
  then have "next_state (state_of s i) new \<noteq> MAXVALUE"
    by (auto simp: next_state_def elim: alg_stepE)
  with assms True show ?thesis
    by (auto simp: set_state_cases Let_def states_ok_def dest: set_update_subset_insert [THEN subsetD])
next
  case False
  with assms show ?thesis by (simp add: set_state_def)
qed

lemma indices_initial:
  "indices_in (replicate n INITIAL) k = (if k = state_num INITIAL then [0..<n] else [])"
  by (auto simp: indices_in_def filter_empty_conv intro!: filter_True)

lemma initial_ok:
  "states_ok \<lparr>m_states = replicate n INITIAL,
     m_algsInState = (replicate 8 [])[state_num INITIAL := [0..<n]]\<rparr>"
  by (auto simp: states_ok_def indices_initial nth_list_update intro!: nth_equalityI)

lemma new_algs_states_ok [simp]: "states_ok (new_algs_states n)"
  using initial_ok [of n] by (simp add: new_algs_states_def)

lemma reset_states_eq:
  "states_ok s \<Longrightarrow> reset_states s = new_algs_states (length (m_states s))"
  by (simp add: reset_states_def new_algs_states_def states_ok_def map_replicate_const)

lemma reset_states_ok [simp]: "states_ok s \<Longrightarrow> states_ok (reset_states s)"
  by (simp add: reset_states_eq)

section \<open>The contract of the book-keeping\<close>

text \<open>
  A sequence of \<open>set\<close> calls, with the codes they return and the number of calls that change
  the state they address. The functions take the operations as arguments, for any book that
  keeps the contract below.
\<close>

fun run_puts ::
  "(nat \<Rightarrow> 'q \<Rightarrow> 's \<Rightarrow> error_code \<times> 's) \<Rightarrow> (nat \<times> 'q) list \<Rightarrow> 's \<Rightarrow> error_code list \<times> 's"
where
  "run_puts put [] s = ([], s)"
| "run_puts put ((i, q) # calls) s =
     (let (c, s') = put i q s; (cs, s'') = run_puts put calls s' in (c # cs, s''))"

fun num_changes ::
  "('s \<Rightarrow> nat \<Rightarrow> 'q) \<Rightarrow> (nat \<Rightarrow> 'q \<Rightarrow> 's \<Rightarrow> error_code \<times> 's) \<Rightarrow> (nat \<times> 'q) list \<Rightarrow> 's \<Rightarrow> nat"
where
  "num_changes get put [] s = 0"
| "num_changes get put ((i, q) # calls) s =
     (let s' = snd (put i q s)
      in (if get s' i = get s i then 0 else 1) + num_changes get put calls s')"

lemma run_puts_Cons:
  "run_puts put ((i, q) # calls) s =
     (fst (put i q s) # fst (run_puts put calls (snd (put i q s))),
      snd (run_puts put calls (snd (put i q s))))"
  by (simp add: split_beta Let_def)

locale state_book =
  fixes ok :: "'s \<Rightarrow> bool"
    and num :: "'s \<Rightarrow> nat"
    and get :: "'s \<Rightarrow> nat \<Rightarrow> 'q"
    and put :: "nat \<Rightarrow> 'q \<Rightarrow> 's \<Rightarrow> error_code \<times> 's"
    and step :: "'q \<Rightarrow> 'q \<Rightarrow> bool"
    and err :: 'q
    and rank :: "'q \<Rightarrow> nat"
  assumes put_ok: "ok s \<Longrightarrow> ok (snd (put i q s))"
    and put_num: "ok s \<Longrightarrow> num (snd (put i q s)) = num s"
    and put_get: "ok s \<Longrightarrow> i < num s \<Longrightarrow> j < num s \<Longrightarrow>
      get (snd (put i q s)) j =
        (if i = j then (if get s i = q \<or> step (get s i) q then q else err) else get s j)"
    and put_code: "ok s \<Longrightarrow> i < num s \<Longrightarrow>
      fst (put i q s) = (if get s i = q \<or> step (get s i) q then SUCCESS else FAILURE)"
    and put_out: "num s \<le> i \<Longrightarrow> put i q s = (FAILURE, s)"
    and step_rank: "step q q' \<Longrightarrow> rank q' < rank q"
    and err_rank: "q \<noteq> err \<Longrightarrow> rank err < rank q"
begin

lemma put_rank:
  "ok s \<Longrightarrow> i < num s \<Longrightarrow> get (snd (put i q s)) i \<noteq> get s i \<Longrightarrow>
   rank (get (snd (put i q s)) i) < rank (get s i)"
  by (auto simp: put_get step_rank err_rank split: if_splits)

lemma run_ok: "ok s \<Longrightarrow> ok (snd (run_puts put calls s)) \<and> num (snd (run_puts put calls s)) = num s"
proof (induction calls arbitrary: s)
  case (Cons c calls)
  then show ?case by (cases c) (simp add: run_puts_Cons put_ok put_num del: run_puts.simps)
qed simp

lemma put_steps:
  "ok s \<Longrightarrow> i < num s \<Longrightarrow> fst (put j q s) = SUCCESS \<Longrightarrow>
   step\<^sup>*\<^sup>* (get s i) (get (snd (put j q s)) i)"
  by (cases "j < num s") (auto simp: put_get put_code put_out split: if_splits)

lemma run_steps:
  "ok s \<Longrightarrow> i < num s \<Longrightarrow> set (fst (run_puts put calls s)) \<subseteq> {SUCCESS} \<Longrightarrow>
   step\<^sup>*\<^sup>* (get s i) (get (snd (run_puts put calls s)) i)"
proof (induction calls arbitrary: s)
  case (Cons c calls)
  obtain j q where c: "c = (j, q)" by (cases c)
  from Cons.prems have s: "fst (put j q s) = SUCCESS"
    by (simp add: c run_puts_Cons del: run_puts.simps)
  have "step\<^sup>*\<^sup>* (get (snd (put j q s)) i) (get (snd (run_puts put calls (snd (put j q s)))) i)"
    using Cons.prems
    by (intro Cons.IH) (simp_all add: c run_puts_Cons put_ok put_num del: run_puts.simps)
  with put_steps [OF Cons.prems(1,2) s] show ?case
    by (simp add: c run_puts_Cons del: run_puts.simps)
qed simp

lemma put_sum:
  assumes "ok s"
  shows "(if get (snd (put j q s)) j = get s j then 0 else 1)
      + (\<Sum>i < num s. rank (get (snd (put j q s)) i)) \<le> (\<Sum>i < num s. rank (get s i))"
proof (cases "j < num s")
  case True
  let ?s = "snd (put j q s)"
  have rest: "(\<Sum>i \<in> {..<num s} - {j}. rank (get ?s i)) = (\<Sum>i \<in> {..<num s} - {j}. rank (get s i))"
    using assms True by (auto simp: put_get intro!: sum.cong)
  have "(if get ?s j = get s j then 0 else 1) + rank (get ?s j) \<le> rank (get s j)"
    using put_rank [OF assms True, of q] by (auto simp: Suc_le_eq)
  with rest True show ?thesis by (simp add: sum.remove [of "{..<num s}" j])
next
  case False
  then show ?thesis by (simp add: put_out)
qed

lemma changes_bound:
  "ok s \<Longrightarrow> num_changes get put calls s
     + (\<Sum>i < num s. rank (get (snd (run_puts put calls s)) i)) \<le> (\<Sum>i < num s. rank (get s i))"
proof (induction calls arbitrary: s)
  case (Cons c calls)
  obtain j q where c: "c = (j, q)" by (cases c)
  have "num_changes get put calls (snd (put j q s))
      + (\<Sum>i < num s. rank (get (snd (run_puts put calls (snd (put j q s)))) i))
      \<le> (\<Sum>i < num s. rank (get (snd (put j q s)) i))"
    using Cons.IH [OF put_ok [OF Cons.prems]] Cons.prems by (simp add: put_num)
  with put_sum [OF Cons.prems, of j q] show ?case
    by (simp add: c run_puts_Cons Let_def del: run_puts.simps)
qed simp

end

fun exec_rank :: "exec_state \<Rightarrow> nat" where
  "exec_rank INITIAL = 6"
| "exec_rank CONTROLREADY = 5"
| "exec_rank DATAREADY = 4"
| "exec_rank RESOURCELESS = 3"
| "exec_rank SCHEDULED = 2"
| "exec_rank ERROR = 0"
| "exec_rank _ = 1"

lemma length_set_state [simp]:
  "length (m_states (snd (set_state i new s))) = length (m_states s)"
  by (simp add: set_state_def Let_def)

lemma states_size_set [slot_simps]: "states_size (snd (set_state i new s)) = states_size s"
  by (simp add: states_size_def)

lemma state_of_set:
  "states_ok s \<Longrightarrow> i < states_size s \<Longrightarrow> j < states_size s \<Longrightarrow>
   state_of (snd (set_state i new s)) j =
     (if i = j then next_state (state_of s i) new else state_of s j)"
  by (auto simp: states_size_def set_state_cases Let_def state_of_def nth_list_update)

interpretation book: state_book states_ok states_size state_of set_state alg_step ERROR exec_rank
proof unfold_locales
  fix s i q
  assume "states_ok s"
  then show "states_ok (snd (set_state i q s))" by (rule set_state_ok)
next
  fix s i j q
  assume "states_ok s" "i < states_size s" "j < states_size s"
  then show "state_of (snd (set_state i q s)) j =
      (if i = j then (if state_of s i = q \<or> alg_step (state_of s i) q then q else ERROR)
       else state_of s j)"
    by (simp add: state_of_set next_state_def)
next
  fix s i q
  assume "states_ok s" "i < states_size s"
  then show "fst (set_state i q s) =
      (if state_of s i = q \<or> alg_step (state_of s i) q then SUCCESS else FAILURE)"
    by (simp add: states_size_def set_state_cases)
next
  fix q q'
  assume "alg_step q q'"
  then show "exec_rank q' < exec_rank q" by (auto elim!: alg_stepE)
next
  fix q
  assume "q \<noteq> ERROR"
  then show "exec_rank ERROR < exec_rank q" by (cases q) simp_all
next
  fix s q and i :: nat
  show "states_size s \<le> i \<Longrightarrow> set_state i q s = (FAILURE, s)"
    by (simp add: states_size_def set_state_def)
qed (simp add: slot_simps)

section \<open>Properties\<close>

lemma sum_sizes:
  assumes "states_ok s"
  shows "(\<Sum>k < 8. length (m_algsInState s ! k)) = length (m_states s)"
proof -
  let ?n = "length (m_states s)"
  have lt: "state_num (m_states s ! i) < 8" if "i < ?n" for i
    using assms that unfolding states_ok_def by (metis nth_mem state_num_less_8)
  have "(\<Sum>k < 8. length (m_algsInState s ! k))
      = (\<Sum>k < 8. card {i. i < ?n \<and> state_num (m_states s ! i) = k})"
    using assms
    by (intro sum.cong)
       (simp_all add: states_ok_def set_indices [symmetric] distinct_card sorted_distinct_indices)
  also have "\<dots> = card (\<Union>k < 8. {i. i < ?n \<and> state_num (m_states s ! i) = k})"
    by (rule card_UN_disjoint [symmetric]) auto
  also have "(\<Union>k < 8. {i. i < ?n \<and> state_num (m_states s ! i) = k}) = {..<?n}"
    using lt by auto
  finally show ?thesis by simp
qed

lemma states_ok_index:
  assumes "states_ok s" and "st \<noteq> MAXVALUE"
  shows "sorted (algsInState s st) \<and> distinct (algsInState s st)
    \<and> set (algsInState s st) = {i. i < states_size s \<and> state_of s i = st}"
  using assms
  by (simp add: algsInState_def states_ok_def state_num_less_8 sorted_distinct_indices set_indices
      states_size_def state_of_def)

text \<open>
  The plain vector of states that the class stands for: a call moves one state by \<open>next_state\<close>
  or starts the vector again.
\<close>

datatype states_call = Set_call nat exec_state | Reset_call

fun do_call :: "states_call \<Rightarrow> algs_states \<Rightarrow> error_code \<times> algs_states" where
  "do_call (Set_call i q) s = set_state i q s"
| "do_call Reset_call s = (SUCCESS, reset_states s)"

fun plain_call :: "states_call \<Rightarrow> exec_state list \<Rightarrow> error_code \<times> exec_state list" where
  "plain_call (Set_call i q) sts =
     (if length sts \<le> i then (FAILURE, sts)
      else (if sts ! i = q \<or> alg_step (sts ! i) q then SUCCESS else FAILURE, sts[i := next_state (sts ! i) q]))"
| "plain_call Reset_call sts = (SUCCESS, replicate (length sts) INITIAL)"

fun run_calls :: "('c \<Rightarrow> 's \<Rightarrow> error_code \<times> 's) \<Rightarrow> 'c list \<Rightarrow> 's \<Rightarrow> error_code list \<times> 's" where
  "run_calls f [] s = ([], s)"
| "run_calls f (c # cs) s = (let (e, s) = f c s; (es, s) = run_calls f cs s in (e # es, s))"

lemma call_refines:
  assumes "states_ok s"
  shows "states_ok (snd (do_call c s)) \<and> fst (do_call c s) = fst (plain_call c (m_states s)) \<and>
    m_states (snd (do_call c s)) = snd (plain_call c (m_states s)) \<and> length (snd (plain_call c (m_states s))) = length (m_states s)"
proof (cases c)
  case (Set_call i q)
  have "states_ok (snd (set_state i q s))" by (rule set_state_ok [OF assms])
  then show ?thesis
    using Set_call set_state_cases [OF assms, of i q]
    by (cases "i < length (m_states s)") (auto simp: state_of_def Let_def set_state_def [of i q s])
next
  case Reset_call
  then show ?thesis using assms reset_states_ok [OF assms] by (simp add: reset_states_eq new_algs_states_def)
qed

lemma calls_refine:
  "states_ok s \<Longrightarrow> states_ok (snd (run_calls do_call cs s)) \<and>
    fst (run_calls do_call cs s) = fst (run_calls plain_call cs (m_states s)) \<and>
    m_states (snd (run_calls do_call cs s)) = snd (run_calls plain_call cs (m_states s)) \<and>
    length (snd (run_calls plain_call cs (m_states s))) = length (m_states s)"
proof (induction cs arbitrary: s)
  case (Cons c cs)
  with call_refines [OF Cons.prems, of c] Cons.IH [of "snd (do_call c s)"]
  show ?case by (simp add: split_beta Let_def del: do_call.simps plain_call.simps)
qed simp

lemma indices_count: "length (indices_in sts (state_num st)) = count_list sts st"
proof -
  have "filter ((=) st) (map ((!) sts) [0..<length sts]) = map ((!) sts) (indices_in sts (state_num st))"
    by (auto simp: filter_map indices_in_def comp_def intro!: arg_cong [where f = "map ((!) sts)"] filter_cong)
  then show ?thesis by (simp add: map_nth count_list_eq_length_filter)
qed

lemma queries_plain:
  assumes "states_ok s" and "st \<noteq> MAXVALUE"
  shows "algsInState s st = filter (\<lambda>i. m_states s ! i = st) [0..<length (m_states s)]"
    "sizeOfSubset s st = count_list (m_states s) st" "contains_state s st = (st \<in> set (m_states s))"
proof -
  have a: "m_algsInState s ! state_num st = indices_in (m_states s) (state_num st)"
    using assms by (simp add: states_ok_def state_num_less_8)
  then show "algsInState s st = filter (\<lambda>i. m_states s ! i = st) [0..<length (m_states s)]"
    by (simp add: algsInState_def indices_in_def)
  show "sizeOfSubset s st = count_list (m_states s) st" by (simp add: sizeOfSubset_def a indices_count)
  show "contains_state s st = (st \<in> set (m_states s))"
    using count_list_0_iff [of "m_states s" st] by (auto simp: contains_state_def a indices_count simp del: count_list_0_iff)
qed

lemma containsAny_plain:
  "states_ok s \<Longrightarrow> MAXVALUE \<notin> set l \<Longrightarrow> containsAny s l = (\<exists>st \<in> set l. st \<in> set (m_states s))"
proof (induction l)
  case (Cons st l)
  then show ?case using queries_plain(3) [of s st] by (auto simp: contains_state_def)
qed simp

text \<open>
  C32. \<open>AlgsExecutionStates\<close> is the plain vector of states, after any sequence of \<open>set\<close> and \<open>reset\<close>,
  legal or not, with indices in range or not: every call returns the code that the legal
  transitions give and moves one state or none, to ERROR when the transition is illegal, or
  all back to INITIAL; and every query, answered from the per-state sets, is what the vector
  says: the algorithms in a state in increasing order, their number, whether there is one,
  whether there is one in any of several states. The sets are disjoint and cover all algorithms.
\<close>

theorem exec_states_index:
  "let (codes, s) = run_calls do_call calls (new_algs_states n);
       (codes', sts) = run_calls plain_call calls (replicate n INITIAL)
   in codes = codes' \<and> states_size s = n \<and> length sts = n \<and> (\<forall>i < n. state_of s i = sts ! i) \<and>
      (\<forall>st. st \<noteq> MAXVALUE \<longrightarrow> algsInState s st = filter (\<lambda>i. sts ! i = st) [0..<n] \<and>
         sizeOfSubset s st = count_list sts st \<and> contains_state s st = (st \<in> set sts)) \<and>
      (\<forall>l. MAXVALUE \<notin> set l \<longrightarrow> containsAny s l = (\<exists>st \<in> set l. st \<in> set sts)) \<and>
      (\<Sum>k < 8. length (m_algsInState s ! k)) = n"
proof -
  let ?s = "snd (run_calls do_call calls (new_algs_states n))"
  have n: "m_states (new_algs_states n) = replicate n INITIAL" by (simp add: new_algs_states_def)
  note r = calls_refine [OF new_algs_states_ok, of calls n, unfolded n]
  have ok: "states_ok ?s" and len: "length (m_states ?s) = n" using r by simp_all
  show ?thesis
    using r queries_plain [OF ok] containsAny_plain [OF ok] sum_sizes [OF ok] len
    by (simp add: Let_def split_beta states_size_def state_of_def)
qed

theorem exec_states_index_witness:
  "let s = snd (run_calls do_call [Set_call 1 CONTROLREADY, Reset_call, Set_call 0 CONTROLREADY, Set_call 2 SCHEDULED]
       (new_algs_states 3))
   in algsInState s INITIAL = [1] \<and> sizeOfSubset s CONTROLREADY = 1 \<and> containsAny s [DATAREADY, ERROR]"
proof -
  let ?calls = "[Set_call 1 CONTROLREADY, Reset_call, Set_call 0 CONTROLREADY, Set_call 2 SCHEDULED]"
  have *: "snd (run_calls plain_call ?calls (replicate 3 INITIAL)) = [CONTROLREADY, INITIAL, ERROR]"
    by code_simp
  let ?s = "snd (run_calls do_call ?calls (new_algs_states 3))" and ?sts = "[CONTROLREADY, INITIAL, ERROR]"
  have a: "\<And>st. st \<noteq> MAXVALUE \<Longrightarrow> algsInState ?s st = filter (\<lambda>i. ?sts ! i = st) [0..<3] \<and> sizeOfSubset ?s st = count_list ?sts st"
    and l: "\<And>l. MAXVALUE \<notin> set l \<Longrightarrow> containsAny ?s l = (\<exists>st \<in> set l. st \<in> set ?sts)"
    using exec_states_index [of ?calls 3] unfolding Let_def split_beta * by blast+
  have f: "filter (\<lambda>i. ?sts ! i = INITIAL) [0..<3] = [1]" by code_simp
  show ?thesis
    unfolding Let_def using a [of INITIAL] a [of CONTROLREADY] l [of "[DATAREADY, ERROR]"] f by (simp del: run_calls.simps)
qed



end
