(* ===== verification/Event_ID.thy ===== *)
theory Event_ID
  imports Prelude "HOL-Library.Product_Lexorder"
begin

unbundle bit_operations_syntax

text \<open>
  \<open>EventIDBase\<close> (GaudiKernel/EventIDBase.h, .cpp), the identification of an event by
  run/lumi block/event number and by time stamp, and \<open>EventIDRange\<close> (EventIDRange.h, .cpp), an
  interval of such identifications. The members are words of their C++ width, the undefined
  values their maxima; \<open>std::tie\<close> comparisons are the lexicographic order on pairs. The sum of
  type bits is kept as the code keeps it, a word to which the setters only add.
\<close>

section \<open>EventIDBase\<close>

definition UNDEFNUM :: u32 where
  "UNDEFNUM = - 1"

definition UNDEFEVT :: u64 where
  "UNDEFEVT = - 1"

definition type_RunEvent :: u32 where
  "type_RunEvent = push_bit 1 1"

definition type_TimeStamp :: u32 where
  "type_TimeStamp = push_bit 2 1"

definition type_LumiEvent :: u32 where
  "type_LumiEvent = push_bit 3 1"

definition type_RunLumi :: u32 where
  "type_RunLumi = push_bit 4 1"

record event_id =
  eid_type :: u32
  eid_run :: u32
  eid_event :: u64
  eid_time :: u32
  eid_ns :: u32
  eid_lumi :: u32
  eid_bcid :: u32

definition setRE :: "event_id \<Rightarrow> event_id" where
  "setRE e = e\<lparr>eid_type := eid_type e OR type_RunEvent\<rparr>"

definition setTS :: "event_id \<Rightarrow> event_id" where
  "setTS e = e\<lparr>eid_type := eid_type e OR type_TimeStamp\<rparr>"

definition setLE :: "event_id \<Rightarrow> event_id" where
  "setLE e = e\<lparr>eid_type := eid_type e OR type_LumiEvent\<rparr>"

definition setRL :: "event_id \<Rightarrow> event_id" where
  "setRL e = e\<lparr>eid_type := eid_type e OR type_RunLumi\<rparr>"

definition eid_default :: event_id where
  "eid_default =
     \<lparr>eid_type = 0, eid_run = UNDEFNUM, eid_event = UNDEFEVT, eid_time = UNDEFNUM,
      eid_ns = UNDEFNUM, eid_lumi = UNDEFNUM, eid_bcid = UNDEFNUM\<rparr>"

definition eid_new :: "u32 \<Rightarrow> u64 \<Rightarrow> u32 \<Rightarrow> u32 \<Rightarrow> u32 \<Rightarrow> u32 \<Rightarrow> event_id" where
  "eid_new run event time ns lumi bcid =
     (let e = \<lparr>eid_type = 0, eid_run = run, eid_event = event, eid_time = time, eid_ns = ns,
               eid_lumi = lumi, eid_bcid = bcid\<rparr>;
          e = (if eid_run e \<noteq> UNDEFNUM \<and> eid_event e \<noteq> UNDEFEVT then setRE e else e);
          e = (if eid_time e \<noteq> UNDEFNUM
               then (let e = setTS e in if eid_ns e = UNDEFNUM then e\<lparr>eid_ns := 0\<rparr> else e)
               else e);
          e = (if eid_lumi e \<noteq> UNDEFNUM \<and> eid_event e \<noteq> UNDEFEVT then setLE e else e)
      in if eid_run e \<noteq> UNDEFNUM \<and> eid_lumi e \<noteq> UNDEFNUM then setRL e else e)"

definition eid_of_tuples :: "u32 \<times> u32 \<times> u64 \<Rightarrow> u32 \<times> u32 \<Rightarrow> u32 \<Rightarrow> event_id" where
  "eid_of_tuples run_lumi_ev time_stamp bcid =
     (case run_lumi_ev of (run, lumi, ev) \<Rightarrow>
        eid_new run ev (fst time_stamp) (snd time_stamp) lumi bcid)"

definition set_run_number :: "u32 \<Rightarrow> event_id \<Rightarrow> event_id" where
  "set_run_number n e =
     (let e = e\<lparr>eid_run := n\<rparr>;
          e = (if eid_event e \<noteq> UNDEFEVT then setRE e else e)
      in if eid_lumi e \<noteq> UNDEFNUM then setRL e else e)"

definition set_event_number :: "u64 \<Rightarrow> event_id \<Rightarrow> event_id" where
  "set_event_number n e =
     (let e = e\<lparr>eid_event := n\<rparr>;
          e = (if eid_run e \<noteq> UNDEFNUM then setRE e else e)
      in if eid_lumi e \<noteq> UNDEFNUM then setLE e else e)"

definition set_time_stamp :: "u32 \<Rightarrow> event_id \<Rightarrow> event_id" where
  "set_time_stamp n e = setTS (e\<lparr>eid_time := n\<rparr>)"

definition set_time_stamp_ns_offset :: "u32 \<Rightarrow> event_id \<Rightarrow> event_id" where
  "set_time_stamp_ns_offset n e = e\<lparr>eid_ns := n\<rparr>"

definition set_lumi_block :: "u32 \<Rightarrow> event_id \<Rightarrow> event_id" where
  "set_lumi_block n e =
     (let e = e\<lparr>eid_lumi := n\<rparr>;
          e = (if eid_run e \<noteq> UNDEFNUM then setRL e else e)
      in if eid_event e \<noteq> UNDEFEVT then setLE e else e)"

definition set_bunch_crossing_id :: "u32 \<Rightarrow> event_id \<Rightarrow> event_id" where
  "set_bunch_crossing_id n e = e\<lparr>eid_bcid := n\<rparr>"

definition isRunEvent :: "event_id \<Rightarrow> bool" where
  "isRunEvent e \<longleftrightarrow> eid_type e AND type_RunEvent \<noteq> 0"

definition isTimeStamp :: "event_id \<Rightarrow> bool" where
  "isTimeStamp e \<longleftrightarrow> eid_type e AND type_TimeStamp \<noteq> 0"

definition isLumiEvent :: "event_id \<Rightarrow> bool" where
  "isLumiEvent e \<longleftrightarrow> eid_type e AND type_LumiEvent \<noteq> 0"

definition isRunLumi :: "event_id \<Rightarrow> bool" where
  "isRunLumi e \<longleftrightarrow> eid_type e AND type_RunLumi \<noteq> 0"

definition eid_isValid :: "event_id \<Rightarrow> bool" where
  "eid_isValid e \<longleftrightarrow> eid_type e \<noteq> 0"

section \<open>Comparisons\<close>

definition tie_rle :: "event_id \<Rightarrow> u32 \<times> u32 \<times> u64" where
  "tie_rle e = (eid_run e, eid_lumi e, eid_event e)"

definition tie_ts :: "event_id \<Rightarrow> u32 \<times> u32" where
  "tie_ts e = (eid_time e, eid_ns e)"

definition eid_less :: "event_id \<Rightarrow> event_id \<Rightarrow> bool" where
  "eid_less lhs rhs \<longleftrightarrow>
     (if isTimeStamp lhs \<and> isTimeStamp rhs then eid_time lhs < eid_time rhs
      else tie_rle lhs < tie_rle rhs)"

definition eid_eq :: "event_id \<Rightarrow> event_id \<Rightarrow> bool" where
  "eid_eq lhs rhs \<longleftrightarrow>
     eid_run lhs = eid_run rhs \<and> eid_event lhs = eid_event rhs \<and> eid_lumi lhs = eid_lumi rhs"

definition eid_le :: "event_id \<Rightarrow> event_id \<Rightarrow> bool" where
  "eid_le lhs rhs \<longleftrightarrow> \<not> eid_less rhs lhs"

definition SortByTimeStamp :: "event_id \<Rightarrow> event_id \<Rightarrow> bool" where
  "SortByTimeStamp lhs rhs \<longleftrightarrow> tie_ts lhs > tie_ts rhs"

definition SortByRunEvent :: "event_id \<Rightarrow> event_id \<Rightarrow> bool" where
  "SortByRunEvent lhs rhs \<longleftrightarrow> (eid_run lhs, eid_event lhs) > (eid_run rhs, eid_event rhs)"

definition SortByLumiEvent :: "event_id \<Rightarrow> event_id \<Rightarrow> bool" where
  "SortByLumiEvent lhs rhs \<longleftrightarrow> (eid_lumi lhs, eid_event lhs) > (eid_lumi rhs, eid_event rhs)"

definition SortByRunLumi :: "event_id \<Rightarrow> event_id \<Rightarrow> bool" where
  "SortByRunLumi lhs rhs \<longleftrightarrow> (eid_run lhs, eid_lumi lhs) > (eid_run rhs, eid_lumi rhs)"

definition eid_min :: "event_id \<Rightarrow> event_id \<Rightarrow> event_id" where
  "eid_min lhs rhs =
     eid_of_tuples (min (tie_rle lhs) (tie_rle rhs)) (min (tie_ts lhs) (tie_ts rhs)) (eid_bcid lhs)"

definition eid_max :: "event_id \<Rightarrow> event_id \<Rightarrow> event_id" where
  "eid_max lhs rhs =
     (let time_stamp =
            (if isTimeStamp lhs \<and> isTimeStamp rhs then max (tie_ts lhs) (tie_ts rhs)
             else if isTimeStamp lhs then tie_ts lhs else tie_ts rhs);
          run_lumi_ev =
            (if isRunLumi lhs \<and> isRunLumi rhs then max (tie_rle lhs) (tie_rle rhs)
             else if isRunLumi lhs then tie_rle lhs else tie_rle rhs)
      in eid_of_tuples run_lumi_ev time_stamp (eid_bcid lhs))"

section \<open>Printing\<close>

definition pad9 :: "string \<Rightarrow> string" where
  "pad9 s = replicate (9 - length s) CHR ''0'' @ s"

definition eid_print :: "event_id \<Rightarrow> string" where
  "eid_print e =
     (if eid_type e = 0 then ''[INVALID]''
      else
        (let sep = '''';
             os = ''['';
             (os, sep) = (if eid_run e \<noteq> UNDEFNUM then (os @ to_string (unat (eid_run e)), '','')
                          else (os, sep));
             (os, sep) = (if eid_event e \<noteq> UNDEFEVT
                          then (os @ sep @ to_string (unat (eid_event e)), '','') else (os, sep));
             (os, sep) = (if isTimeStamp e
                          then (os @ sep @ ''t:'' @ to_string (unat (eid_time e)) @
                                (if eid_ns e \<noteq> 0 then ''.'' @ pad9 (to_string (unat (eid_ns e)))
                                 else ''''), '','')
                          else (os, sep));
             (os, sep) = (if isLumiEvent e \<or> isRunLumi e
                          then (os @ sep @ ''l:'' @ to_string (unat (eid_lumi e)), '','')
                          else (os, sep));
             os = (if eid_bcid e \<noteq> 0 then os @ sep @ ''b:'' @ to_string (unat (eid_bcid e))
                   else os)
         in os @ '']''))"

section \<open>EventIDRange\<close>

record event_id_range =
  rng_start :: event_id
  rng_stop :: event_id

definition rng_default :: event_id_range where
  "rng_default =
     \<lparr>rng_start = eid_new 0 0 0 0 0 0,
      rng_stop = eid_new UNDEFNUM UNDEFEVT UNDEFNUM UNDEFNUM UNDEFNUM 0\<rparr>"

definition rng_new :: "event_id \<Rightarrow> event_id \<Rightarrow> event_id_range" where
  "rng_new start stop = \<lparr>rng_start = start, rng_stop = stop\<rparr>"

definition isInRange :: "event_id_range \<Rightarrow> event_id \<Rightarrow> bool" where
  "isInRange r t \<longleftrightarrow>
     tie_rle t \<ge> tie_rle (rng_start r) \<and> tie_rle t < tie_rle (rng_stop r) \<and>
     tie_ts t \<ge> tie_ts (rng_start r) \<and> tie_ts t < tie_ts (rng_stop r)"

text \<open>The variadic \<open>intersect\<close>: one range, or the first with the intersection of the rest.\<close>

fun rng_intersect :: "event_id_range \<Rightarrow> event_id_range list \<Rightarrow> event_id_range" where
  "rng_intersect first [] = first"
| "rng_intersect first (x # rest) =
     (let r = rng_intersect x rest;
          i1 = eid_max (rng_start first) (rng_start r);
          i2 = eid_min (rng_stop first) (rng_stop r)
      in rng_new i1 i2)"

definition rng_eq :: "event_id_range \<Rightarrow> event_id_range \<Rightarrow> bool" where
  "rng_eq lhs rhs \<longleftrightarrow>
     eid_eq (rng_start lhs) (rng_start rhs) \<and> eid_eq (rng_stop lhs) (rng_stop rhs)"

definition rng_print :: "event_id_range \<Rightarrow> string" where
  "rng_print r = ''{'' @ eid_print (rng_start r) @ '' - '' @ eid_print (rng_stop r) @ ''}''"

section \<open>Facts\<close>

lemmas type_bits = type_RunEvent_def type_TimeStamp_def type_LumiEvent_def type_RunLumi_def
lemmas set_bits = setRE_def setTS_def setLE_def setRL_def

lemma type_queries:
  "isRunEvent e = bit (eid_type e) 1" "isTimeStamp e = bit (eid_type e) 2"
  "isLumiEvent e = bit (eid_type e) 3" "isRunLumi e = bit (eid_type e) 4"
  by (simp_all only: isRunEvent_def isTimeStamp_def isLumiEvent_def isRunLumi_def type_bits
      bit_iff_and_push_bit_not_eq_0)

lemma type_bit_iff:
  "bit type_RunEvent n = (n = 1)" "bit type_TimeStamp n = (n = 2)"
  "bit type_LumiEvent n = (n = 3)" "bit type_RunLumi n = (n = 4)"
  unfolding type_bits bit_push_bit_iff bit_1_iff by auto

lemma type_setters [simp]:
  "bit (eid_type (setRE e)) n = (bit (eid_type e) n \<or> n = 1)"
  "bit (eid_type (setTS e)) n = (bit (eid_type e) n \<or> n = 2)"
  "bit (eid_type (setLE e)) n = (bit (eid_type e) n \<or> n = 3)"
  "bit (eid_type (setRL e)) n = (bit (eid_type e) n \<or> n = 4)"
  by (simp_all add: set_bits bit_or_iff type_bit_iff)

lemma set_bits_fields [simp]:
  "eid_run (setRE e) = eid_run e" "eid_event (setRE e) = eid_event e"
  "eid_time (setRE e) = eid_time e" "eid_ns (setRE e) = eid_ns e"
  "eid_lumi (setRE e) = eid_lumi e" "eid_bcid (setRE e) = eid_bcid e"
  "eid_run (setTS e) = eid_run e" "eid_event (setTS e) = eid_event e"
  "eid_time (setTS e) = eid_time e" "eid_ns (setTS e) = eid_ns e"
  "eid_lumi (setTS e) = eid_lumi e" "eid_bcid (setTS e) = eid_bcid e"
  "eid_run (setLE e) = eid_run e" "eid_event (setLE e) = eid_event e"
  "eid_time (setLE e) = eid_time e" "eid_ns (setLE e) = eid_ns e"
  "eid_lumi (setLE e) = eid_lumi e" "eid_bcid (setLE e) = eid_bcid e"
  "eid_run (setRL e) = eid_run e" "eid_event (setRL e) = eid_event e"
  "eid_time (setRL e) = eid_time e" "eid_ns (setRL e) = eid_ns e"
  "eid_lumi (setRL e) = eid_lumi e" "eid_bcid (setRL e) = eid_bcid e"
  by (simp_all add: set_bits)

text \<open>The type bits say which members are defined.\<close>

definition flags_ok :: "event_id \<Rightarrow> bool" where
  "flags_ok e \<longleftrightarrow>
     isRunEvent e = (eid_run e \<noteq> UNDEFNUM \<and> eid_event e \<noteq> UNDEFEVT) \<and>
     isTimeStamp e = (eid_time e \<noteq> UNDEFNUM) \<and>
     isLumiEvent e = (eid_lumi e \<noteq> UNDEFNUM \<and> eid_event e \<noteq> UNDEFEVT) \<and>
     isRunLumi e = (eid_run e \<noteq> UNDEFNUM \<and> eid_lumi e \<noteq> UNDEFNUM)"

lemma eid_new_fields [simp]:
  "eid_run (eid_new r ev t ns l b) = r" "eid_event (eid_new r ev t ns l b) = ev"
  "eid_time (eid_new r ev t ns l b) = t" "eid_lumi (eid_new r ev t ns l b) = l"
  "eid_bcid (eid_new r ev t ns l b) = b"
  "eid_ns (eid_new r ev t ns l b) = (if t \<noteq> UNDEFNUM \<and> ns = UNDEFNUM then 0 else ns)"
  by (simp_all add: eid_new_def Let_def)

lemma eid_new_flags [simp]: "flags_ok (eid_new r ev t ns l b)"
  by (auto simp: flags_ok_def type_queries eid_new_def Let_def)

lemma eid_default_flags [simp]: "flags_ok eid_default"
  by (simp add: flags_ok_def type_queries eid_default_def)

text \<open>A sequence of setter calls.\<close>

datatype eid_setter =
    Set_Run u32 | Set_Event u64 | Set_Time u32 | Set_Ns u32 | Set_Lumi u32 | Set_Bcid u32

fun apply_setter :: "eid_setter \<Rightarrow> event_id \<Rightarrow> event_id" where
  "apply_setter (Set_Run n) = set_run_number n"
| "apply_setter (Set_Event n) = set_event_number n"
| "apply_setter (Set_Time n) = set_time_stamp n"
| "apply_setter (Set_Ns n) = set_time_stamp_ns_offset n"
| "apply_setter (Set_Lumi n) = set_lumi_block n"
| "apply_setter (Set_Bcid n) = set_bunch_crossing_id n"

fun defined_value :: "eid_setter \<Rightarrow> bool" where
  "defined_value (Set_Run n) = (n \<noteq> UNDEFNUM)"
| "defined_value (Set_Event n) = (n \<noteq> UNDEFEVT)"
| "defined_value (Set_Time n) = (n \<noteq> UNDEFNUM)"
| "defined_value (Set_Lumi n) = (n \<noteq> UNDEFNUM)"
| "defined_value _ = True"

lemma apply_setter_flags: "flags_ok e \<Longrightarrow> defined_value op \<Longrightarrow> flags_ok (apply_setter op e)"
  by (cases op)
     (auto simp: flags_ok_def type_queries set_run_number_def set_event_number_def
       set_time_stamp_def set_time_stamp_ns_offset_def set_lumi_block_def
       set_bunch_crossing_id_def Let_def)

lemma fold_setter_flags:
  "flags_ok e \<Longrightarrow> \<forall>op \<in> set ops. defined_value op \<Longrightarrow> flags_ok (fold apply_setter ops e)"
  by (induction ops arbitrary: e) (auto simp: apply_setter_flags)

text \<open>Whatever is set, a number that is defined has its flags, and no flag is taken back.\<close>

definition flags_complete :: "event_id \<Rightarrow> bool" where
  "flags_complete e \<longleftrightarrow>
     (eid_run e \<noteq> UNDEFNUM \<and> eid_event e \<noteq> UNDEFEVT \<longrightarrow> isRunEvent e) \<and>
     (eid_time e \<noteq> UNDEFNUM \<longrightarrow> isTimeStamp e) \<and>
     (eid_lumi e \<noteq> UNDEFNUM \<and> eid_event e \<noteq> UNDEFEVT \<longrightarrow> isLumiEvent e) \<and>
     (eid_run e \<noteq> UNDEFNUM \<and> eid_lumi e \<noteq> UNDEFNUM \<longrightarrow> isRunLumi e)"

lemmas setter_defs = set_run_number_def set_event_number_def set_time_stamp_def
  set_time_stamp_ns_offset_def set_lumi_block_def set_bunch_crossing_id_def

lemma apply_setter_complete: "flags_complete e \<Longrightarrow> flags_complete (apply_setter op e)"
  by (cases op) (auto simp: flags_complete_def type_queries setter_defs Let_def)

lemma apply_setter_bits: "bit (eid_type e) k \<Longrightarrow> bit (eid_type (apply_setter op e)) k"
  by (cases op) (auto simp: setter_defs Let_def)

lemma apply_setter_time: "isTimeStamp (apply_setter op e) = (isTimeStamp e \<or> (\<exists>n. op = Set_Time n))"
  by (cases op) (auto simp: type_queries setter_defs Let_def)

lemma fold_setter_all:
  "flags_complete e \<Longrightarrow> flags_complete (fold apply_setter ops e) \<and>
   (bit (eid_type e) k \<longrightarrow> bit (eid_type (fold apply_setter ops e)) k) \<and>
   isTimeStamp (fold apply_setter ops e) = (isTimeStamp e \<or> (\<exists>n. Set_Time n \<in> set ops))"
proof (induction ops arbitrary: e)
  case (Cons op ops)
  then show ?case
    using Cons.IH [OF apply_setter_complete [OF Cons.prems, of op]] apply_setter_bits [of e k op] apply_setter_time [of op e]
    by auto
qed simp

text \<open>
  C38. The type bits tell which numbers an identification has, by either constructor and any
  sequence of setter calls. With values that are defined, \<open>isRunEvent\<close>, \<open>isTimeStamp\<close>, \<open>isLumiEvent\<close>
  and \<open>isRunLumi\<close> hold exactly when the numbers they name are defined. A setter may also be given
  the value that stands for undefined: then the bits still never miss a number that is defined,
  but they stay when the number is gone, as no setter takes a bit back, and a time stamp
  counts as set however it was set.
\<close>

theorem event_id_flags_truthful:
  assumes "e = eid_default \<or> e = eid_new r ev t ns l b"
  shows "let e' = fold apply_setter ops e in
    ((\<forall>op \<in> set ops. defined_value op) \<longrightarrow> flags_ok e') \<and> flags_complete e' \<and>
    (\<forall>k. bit (eid_type e) k \<longrightarrow> bit (eid_type e') k) \<and>
    isTimeStamp e' = (isTimeStamp e \<or> (\<exists>n. Set_Time n \<in> set ops))"
proof -
  have ok: "flags_ok e" using assms by auto
  then have "flags_complete e" by (simp add: flags_ok_def flags_complete_def)
  from fold_setter_all [OF this] fold_setter_flags [OF ok] show ?thesis by (simp add: Let_def)
qed

theorem event_id_flags_truthful_witness:
  "flags_ok (fold apply_setter [Set_Lumi 7, Set_Run 3, Set_Time 10] eid_default) \<and>
   \<not> flags_ok (fold apply_setter [Set_Time UNDEFNUM] eid_default)"
proof
  show "flags_ok (fold apply_setter [Set_Lumi 7, Set_Run 3, Set_Time 10] eid_default)"
    using event_id_flags_truthful [of eid_default 0 0 0 0 0 0 "[Set_Lumi 7, Set_Run 3, Set_Time 10]"]
    by (simp add: Let_def UNDEFNUM_def del: fold_simps)
  have "isTimeStamp (fold apply_setter [Set_Time UNDEFNUM] eid_default)"
    using event_id_flags_truthful [of eid_default 0 0 0 0 0 0 "[Set_Time UNDEFNUM]"]
    by (simp add: Let_def del: fold_simps)
  then show "\<not> flags_ok (fold apply_setter [Set_Time UNDEFNUM] eid_default)"
    by (simp add: flags_ok_def set_time_stamp_def)
qed

section \<open>Intersection of ranges\<close>

text \<open>
  A range as the constructors of its ends make it: the flags of its start are truthful, and no
  undefined nanosecond offset stands beside a defined second.
\<close>

definition proper_range :: "event_id_range \<Rightarrow> bool" where
  "proper_range r \<longleftrightarrow> flags_ok (rng_start r) \<and>
     (eid_time (rng_start r) \<noteq> UNDEFNUM \<longrightarrow> eid_ns (rng_start r) \<noteq> UNDEFNUM) \<and>
     (eid_time (rng_stop r) \<noteq> UNDEFNUM \<longrightarrow> eid_ns (rng_stop r) \<noteq> UNDEFNUM)"

text \<open>
  The numberings a range starts in: \<open>None\<close> when the start has the numbers, and otherwise the
  values that it has in their place.
\<close>

definition starts_in :: "(u32 \<times> u32) option \<Rightarrow> (u32 \<times> u32 \<times> u64) option \<Rightarrow> event_id_range \<Rightarrow> bool" where
  "starts_in ts rle r \<longleftrightarrow>
     (case ts of None \<Rightarrow> isTimeStamp (rng_start r) | Some x \<Rightarrow> tie_ts (rng_start r) = x) \<and>
     (case rle of None \<Rightarrow> isRunLumi (rng_start r) | Some x \<Rightarrow> tie_rle (rng_start r) = x)"

lemma eid_of_tuples_ties:
  "tie_rle (eid_of_tuples rle ts b) = rle"
  "fst ts = UNDEFNUM \<or> snd ts \<noteq> UNDEFNUM \<Longrightarrow> tie_ts (eid_of_tuples rle ts b) = ts"
  "flags_ok (eid_of_tuples rle ts b)"
  by (cases rle; cases ts; auto simp: eid_of_tuples_def tie_rle_def tie_ts_def)+

lemma max_cases: "(max x y :: 'a :: linorder) = x \<or> max x y = y"
  by (simp add: max_def)

lemma min_cases: "(min x y :: 'a :: linorder) = x \<or> min x y = y"
  by (simp add: min_def)

lemma proper_start: "proper_range r \<Longrightarrow> fst (tie_ts (rng_start r)) = UNDEFNUM \<or> snd (tie_ts (rng_start r)) \<noteq> UNDEFNUM"
  by (auto simp: proper_range_def tie_ts_def)

lemma proper_stop: "proper_range r \<Longrightarrow> fst (tie_ts (rng_stop r)) = UNDEFNUM \<or> snd (tie_ts (rng_stop r)) \<noteq> UNDEFNUM"
  by (auto simp: proper_range_def tie_ts_def)

text \<open>Starts of the same numbering: \<open>max\<close> is the maximum of both ties, in the same numbering.\<close>

lemma max_ties:
  assumes a: "proper_range a" "starts_in ts rle a" and b: "proper_range b" "starts_in ts rle b"
  shows "tie_ts (eid_max (rng_start a) (rng_start b)) = max (tie_ts (rng_start a)) (tie_ts (rng_start b))"
    and "tie_rle (eid_max (rng_start a) (rng_start b)) = max (tie_rle (rng_start a)) (tie_rle (rng_start b))"
    and "flags_ok (eid_max (rng_start a) (rng_start b))"
proof -
  let ?t = "if isTimeStamp (rng_start a) \<and> isTimeStamp (rng_start b) then max (tie_ts (rng_start a)) (tie_ts (rng_start b))
             else if isTimeStamp (rng_start a) then tie_ts (rng_start a) else tie_ts (rng_start b)"
  let ?r = "if isRunLumi (rng_start a) \<and> isRunLumi (rng_start b) then max (tie_rle (rng_start a)) (tie_rle (rng_start b))
             else if isRunLumi (rng_start a) then tie_rle (rng_start a) else tie_rle (rng_start b)"
  have t: "?t = max (tie_ts (rng_start a)) (tie_ts (rng_start b))" and r: "?r = max (tie_rle (rng_start a)) (tie_rle (rng_start b))"
    using a(2) b(2) by (auto simp: starts_in_def split: option.splits)
  have m: "eid_max (rng_start a) (rng_start b) = eid_of_tuples ?r ?t (eid_bcid (rng_start a))"
    by (simp add: eid_max_def Let_def)
  have "fst ?t = UNDEFNUM \<or> snd ?t \<noteq> UNDEFNUM"
    unfolding t using max_cases [of "tie_ts (rng_start a)" "tie_ts (rng_start b)"] proper_start [OF a(1)] proper_start [OF b(1)] by auto
  then show "tie_ts (eid_max (rng_start a) (rng_start b)) = max (tie_ts (rng_start a)) (tie_ts (rng_start b))"
    unfolding m by (subst eid_of_tuples_ties(2)) (simp_all only: t)
  show "tie_rle (eid_max (rng_start a) (rng_start b)) = max (tie_rle (rng_start a)) (tie_rle (rng_start b))"
    unfolding m by (simp only: eid_of_tuples_ties(1) r)
  show "flags_ok (eid_max (rng_start a) (rng_start b))" unfolding m by (rule eid_of_tuples_ties(3))
qed

lemma starts_in_ties:
  "flags_ok (rng_start r) \<Longrightarrow> starts_in ts rle r \<longleftrightarrow>
     (case ts of None \<Rightarrow> fst (tie_ts (rng_start r)) \<noteq> UNDEFNUM | Some x \<Rightarrow> tie_ts (rng_start r) = x) \<and>
     (case rle of None \<Rightarrow> fst (tie_rle (rng_start r)) \<noteq> UNDEFNUM \<and> fst (snd (tie_rle (rng_start r))) \<noteq> UNDEFNUM
      | Some x \<Rightarrow> tie_rle (rng_start r) = x)"
  by (auto simp: starts_in_def flags_ok_def tie_ts_def tie_rle_def split: option.splits)

lemma intersect2_same:
  assumes a: "proper_range a" "starts_in ts rle a" and b: "proper_range b" "starts_in ts rle b"
    and r: "r = rng_new (eid_max (rng_start a) (rng_start b)) (eid_min (rng_stop a) (rng_stop b))"
  shows "proper_range r \<and> starts_in ts rle r \<and> (isInRange r t \<longleftrightarrow> isInRange a t \<and> isInRange b t)"
proof -
  have start: "rng_start r = eid_max (rng_start a) (rng_start b)" and stop: "rng_stop r = eid_min (rng_stop a) (rng_stop b)"
    by (simp_all add: r rng_new_def)
  note m = max_ties [OF a b, folded start]
  note tsc = max_cases [of "tie_ts (rng_start a)" "tie_ts (rng_start b)", folded m(1)]
  note rlc = max_cases [of "tie_rle (rng_start a)" "tie_rle (rng_start b)", folded m(2)]
  have fa: "flags_ok (rng_start a)" "flags_ok (rng_start b)" using a(1) b(1) by (simp_all add: proper_range_def)
  have mints: "fst (min (tie_ts (rng_stop a)) (tie_ts (rng_stop b))) = UNDEFNUM \<or> snd (min (tie_ts (rng_stop a)) (tie_ts (rng_stop b))) \<noteq> UNDEFNUM"
    using min_cases [of "tie_ts (rng_stop a)" "tie_ts (rng_stop b)"] proper_stop [OF a(1)] proper_stop [OF b(1)] by auto
  have erle: "tie_rle (rng_stop r) = min (tie_rle (rng_stop a)) (tie_rle (rng_stop b))"
    and ets: "tie_ts (rng_stop r) = min (tie_ts (rng_stop a)) (tie_ts (rng_stop b))"
    unfolding stop eid_min_def by (rule eid_of_tuples_ties(1), rule eid_of_tuples_ties(2) [OF mints])
  have "proper_range r"
    using m(3) tsc proper_start [OF a(1)] proper_start [OF b(1)] mints [folded ets]
    by (auto simp: proper_range_def tie_ts_def)
  moreover have "starts_in ts rle r"
    unfolding starts_in_ties [OF m(3)]
    using a(2) [unfolded starts_in_ties [OF fa(1)]] b(2) [unfolded starts_in_ties [OF fa(2)]] tsc rlc
    by (auto split: option.splits)
  moreover have "isInRange r t \<longleftrightarrow> isInRange a t \<and> isInRange b t"
    unfolding isInRange_def m(1,2) erle ets by auto
  ultimately show ?thesis by simp
qed

lemma intersect_same:
  "\<forall>r \<in> set (first # rest). proper_range r \<and> starts_in ts rle r \<Longrightarrow>
   proper_range (rng_intersect first rest) \<and> starts_in ts rle (rng_intersect first rest) \<and>
   (isInRange (rng_intersect first rest) t \<longleftrightarrow> (\<forall>r \<in> set (first # rest). isInRange r t))"
proof (induction first rest rule: rng_intersect.induct)
  case (1 first)
  then show ?case by simp
next
  case (2 first x rest)
  then have IH: "proper_range (rng_intersect x rest)" "starts_in ts rle (rng_intersect x rest)"
    "isInRange (rng_intersect x rest) t \<longleftrightarrow> (\<forall>r \<in> set (x # rest). isInRange r t)"
    by auto
  from intersect2_same [OF _ _ IH(1,2) refl, of first t] 2(2) IH(3) show ?case
    by (simp add: Let_def)
qed

text \<open>
  C39. \<open>intersect\<close> of any number of ranges is their intersection, \<open>isInRange\<close> accepting an event in
  the result exactly when every range accepts it, as long as they start in the same numbering: the
  starts all have a time stamp, or all stand at the same values in its place, and the same for
  run and lumi block. Starts of different numberings are not treated alike: \<open>max\<close> takes a start
  without a time stamp for no constraint, where \<open>isInRange\<close> accepts nothing that has a time
  stamp; so the intersection accepts events that one of the ranges does not.
\<close>

theorem intersect_is_conjunction:
  assumes "\<forall>r \<in> set (first # rest). proper_range r \<and> starts_in ts rle r"
  shows "(isInRange (rng_intersect first rest) t \<longleftrightarrow> (\<forall>r \<in> set (first # rest). isInRange r t)) \<and>
    (\<forall>r. proper_range r \<and> \<not> isTimeStamp (rng_start r) \<and> eid_time t \<noteq> UNDEFNUM \<longrightarrow> \<not> isInRange r t) \<and>
    (\<exists>a b x. proper_range a \<and> proper_range b \<and> isInRange (rng_intersect a [b]) x \<and> \<not> isInRange b x)"
proof (intro conjI allI impI)
  show "isInRange (rng_intersect first rest) t \<longleftrightarrow> (\<forall>r \<in> set (first # rest). isInRange r t)"
    using intersect_same [OF assms] by blast
next
  fix r
  assume r: "proper_range r \<and> \<not> isTimeStamp (rng_start r) \<and> eid_time t \<noteq> UNDEFNUM"
  then have "eid_time (rng_start r) = UNDEFNUM" by (auto simp: proper_range_def flags_ok_def)
  moreover have "eid_time t < UNDEFNUM" using r unfolding UNDEFNUM_def by (metis word_order.not_eq_extremum)
  ultimately show "\<not> isInRange r t" by (auto simp: isInRange_def tie_ts_def less_eq_prod_def not_le)
next
  let ?a = "rng_new (eid_new 1 0 100 0 1 0) (eid_new 9 0 900 0 1 0)"
  let ?b = "rng_new (eid_new 1 0 UNDEFNUM 0 1 0) (eid_new 9 0 UNDEFNUM 1 1 0)"
  let ?x = "eid_new 3 8 200 0 1 0"
  have "proper_range ?a" "proper_range ?b" by (simp_all add: proper_range_def rng_new_def UNDEFNUM_def)
  moreover have "isInRange (rng_intersect ?a [?b]) ?x" by code_simp
  moreover have "\<not> isInRange ?b ?x" by code_simp
  ultimately show "\<exists>a b x. proper_range a \<and> proper_range b \<and> isInRange (rng_intersect a [b]) x \<and> \<not> isInRange b x"
    by blast
qed

theorem intersect_is_conjunction_witness:
  "isInRange (rng_intersect
     (rng_new (eid_new 1 0 UNDEFNUM 0 1 0) (eid_new 9 0 UNDEFNUM 1 1 0))
     [rng_new (eid_new 2 0 UNDEFNUM 0 1 0) (eid_new 5 0 UNDEFNUM 1 1 0)]) (eid_new 3 8 UNDEFNUM 0 1 0)"
proof -
  let ?a = "rng_new (eid_new 1 0 UNDEFNUM 0 1 0) (eid_new 9 0 UNDEFNUM 1 1 0)"
  let ?b = "rng_new (eid_new 2 0 UNDEFNUM 0 1 0) (eid_new 5 0 UNDEFNUM 1 1 0)"
  have b: "\<forall>r \<in> set [?a, ?b]. proper_range r \<and> starts_in (Some (UNDEFNUM, 0)) None r"
    using eid_new_flags [of 1 0 UNDEFNUM 0 1 0] eid_new_flags [of 2 0 UNDEFNUM 0 1 0]
    by (simp add: proper_range_def starts_in_def rng_new_def flags_ok_def tie_ts_def UNDEFNUM_def)
  have "isInRange ?a (eid_new 3 8 UNDEFNUM 0 1 0) \<and> isInRange ?b (eid_new 3 8 UNDEFNUM 0 1 0)"
    by (simp add: isInRange_def rng_new_def tie_rle_def tie_ts_def UNDEFNUM_def)
  then show ?thesis using intersect_is_conjunction [OF b, of "eid_new 3 8 UNDEFNUM 0 1 0"] by simp
qed

text \<open>
  The default range, meant to cover everything, rejects every identification that is not
  defined in both coordinates by a constructor: one built with setters from the default
  constructor, whose nanosecond offset stays undefined, and one without a run number.
\<close>

theorem default_range_rejects:
  "\<not> isInRange rng_default (set_run_number r (set_lumi_block l (set_event_number ev eid_default)))
   \<and> \<not> isInRange rng_default (set_time_stamp_ns_offset ns (set_time_stamp t eid_default))
   \<and> (isInRange rng_default (eid_new r ev t ns l b)
       = ((r, l, ev) \<noteq> (UNDEFNUM, UNDEFNUM, UNDEFEVT) \<and> (t, ns) \<noteq> (UNDEFNUM, UNDEFNUM)))"
proof -
  have top: "x < (- 1 :: 'a :: len word) \<longleftrightarrow> x \<noteq> - 1" for x
    by (metis word_order.not_eq_extremum)
  show ?thesis
    by (auto simp: isInRange_def rng_default_def tie_rle_def tie_ts_def eid_default_def
        set_run_number_def set_lumi_block_def set_event_number_def set_time_stamp_def
        set_time_stamp_ns_offset_def setTS_def setRE_def setLE_def setRL_def
        UNDEFNUM_def UNDEFEVT_def top less_prod_def less_eq_prod_def Let_def)
qed

section \<open>The order of identifications\<close>

lemma eid_less_time: "isTimeStamp a \<Longrightarrow> isTimeStamp b \<Longrightarrow> eid_less a b = (eid_time a < eid_time b)"
  by (simp add: eid_less_def)

lemma eid_less_rle: "\<not> isTimeStamp a \<or> \<not> isTimeStamp b \<Longrightarrow> eid_less a b = (tie_rle a < tie_rle b)"
  by (auto simp: eid_less_def)

text \<open>
  \<open>operator<\<close> is a strict weak order on identifications that all have a time stamp, and on
  identifications that all lack one, as its comment demands; on a mixture it is not even
  transitive, and it can order two identifications that \<open>operator==\<close> calls equal.
\<close>

theorem event_id_order:
  "(\<forall>hasTS. irreflp_on {e. isTimeStamp e = hasTS} eid_less
     \<and> transp_on {e. isTimeStamp e = hasTS} eid_less
     \<and> transp_on {e. isTimeStamp e = hasTS} (\<lambda>a b. \<not> eid_less a b \<and> \<not> eid_less b a))
   \<and> (\<exists>a b c. eid_less a b \<and> eid_less b c \<and> \<not> eid_less a c)
   \<and> (\<exists>a b. eid_eq a b \<and> eid_less a b)"
proof (intro conjI allI impI)
  fix hasTS
  show "irreflp_on {e. isTimeStamp e = hasTS} eid_less"
    by (auto simp: irreflp_on_def eid_less_def)
  show "transp_on {e. isTimeStamp e = hasTS} eid_less"
    "transp_on {e. isTimeStamp e = hasTS} (\<lambda>a b. \<not> eid_less a b \<and> \<not> eid_less b a)"
    by (cases hasTS; auto simp: transp_on_def eid_less_def)+
next
  let ?a = "eid_new 3 0 1 0 0 0" and ?b = "eid_new 1 0 2 0 0 0" and ?c = "eid_new 2 0 UNDEFNUM 0 0 0"
  have "eid_less ?a ?b \<and> eid_less ?b ?c \<and> \<not> eid_less ?a ?c"
    using eid_new_flags [of 3 0 1 0 0 0] eid_new_flags [of 1 0 2 0 0 0]
      eid_new_flags [of 2 0 UNDEFNUM 0 0 0]
    by (simp add: flags_ok_def eid_less_def tie_rle_def UNDEFNUM_def)
  then show "\<exists>a b c. eid_less a b \<and> eid_less b c \<and> \<not> eid_less a c" by blast
next
  let ?a = "eid_new 3 0 1 0 0 0" and ?b = "eid_new 3 0 2 0 0 0"
  have "eid_eq ?a ?b \<and> eid_less ?a ?b"
    using eid_new_flags [of 3 0 1 0 0 0] eid_new_flags [of 3 0 2 0 0 0]
    by (simp add: flags_ok_def eid_less_def eid_eq_def UNDEFNUM_def)
  then show "\<exists>a b. eid_eq a b \<and> eid_less a b" by blast
qed

end
