(* ===== verification/Event_Slots.thy ===== *)
theory Event_Slots
  imports Exec_States Event_ID "HOL-Library.AList"
begin

text \<open>
  \<open>EventContext\<close> (GaudiKernel/EventContext.h) and \<open>EventSlot\<close> (GaudiHive/src/EventSlot.h): what
  the scheduler knows of one event in flight. A slot holds the execution states, the decisions
  of the control flow nodes (-1 undecided, 0, 1) and the sub-slots of the event views. Views
  are not nested (\<open>scheduleEventView\<close> refuses it), so the tree has two levels and a pointer to
  a slot is \<open>Top\<close> or \<open>Sub i\<close>; \<open>parentSlot\<close> is null on the first and \<open>Top\<close> on the second.
  The extension of the context, an \<open>std::any\<close> for clients, is left out.
\<close>

section \<open>EventContext\<close>

record event_context =
  ctx_eid :: event_id
  ctx_evt :: u64
  ctx_slot :: u64
  ctx_subslot :: u64
  ctx_valid :: bool

definition INVALID_CONTEXT_ID :: u64 where
  "INVALID_CONTEXT_ID = - 1"

definition INVALID_CONTEXT_EVT :: u64 where
  "INVALID_CONTEXT_EVT = - 1"

definition ctx_default :: event_context where
  "ctx_default =
     \<lparr>ctx_eid = eid_default, ctx_evt = INVALID_CONTEXT_EVT, ctx_slot = INVALID_CONTEXT_ID,
      ctx_subslot = INVALID_CONTEXT_ID, ctx_valid = False\<rparr>"

definition ctx_new :: "u64 \<Rightarrow> u64 \<Rightarrow> u64 \<Rightarrow> event_context" where
  "ctx_new e s subSlot =
     \<lparr>ctx_eid = eid_default, ctx_evt = e, ctx_slot = s, ctx_subslot = subSlot,
      ctx_valid = (e \<noteq> INVALID_CONTEXT_EVT \<and> s \<noteq> INVALID_CONTEXT_ID)\<rparr>"

definition usesSubSlot :: "event_context \<Rightarrow> bool" where
  "usesSubSlot c \<longleftrightarrow> ctx_subslot c \<noteq> INVALID_CONTEXT_ID"

definition ctx_set :: "u64 \<Rightarrow> u64 \<Rightarrow> u64 \<Rightarrow> event_context \<Rightarrow> event_context" where
  "ctx_set e s subSlot c =
     c\<lparr>ctx_valid := (e \<noteq> INVALID_CONTEXT_EVT \<and> s \<noteq> INVALID_CONTEXT_ID),
       ctx_evt := e, ctx_slot := s, ctx_subslot := subSlot\<rparr>"

definition setValid :: "bool \<Rightarrow> event_context \<Rightarrow> event_context" where
  "setValid b c =
     (let c = c\<lparr>ctx_valid := b\<rparr>
      in if \<not> ctx_valid c
         then c\<lparr>ctx_slot := INVALID_CONTEXT_ID, ctx_evt := INVALID_CONTEXT_EVT\<rparr> else c)"

definition setEvt :: "u64 \<Rightarrow> event_context \<Rightarrow> event_context" where
  "setEvt e c =
     (let c = (if e = INVALID_CONTEXT_EVT then setValid False c else c) in c\<lparr>ctx_evt := e\<rparr>)"

definition setSlot :: "u64 \<Rightarrow> event_context \<Rightarrow> event_context" where
  "setSlot s c =
     (let c = (if s = INVALID_CONTEXT_ID then setValid False c else c) in c\<lparr>ctx_slot := s\<rparr>)"

definition setSubSlot :: "u64 \<Rightarrow> event_context \<Rightarrow> event_context" where
  "setSubSlot s c = c\<lparr>ctx_subslot := s\<rparr>"

definition setEventID :: "event_id \<Rightarrow> event_context \<Rightarrow> event_context" where
  "setEventID e c = c\<lparr>ctx_eid := e\<rparr>"

definition ctx_print :: "event_context \<Rightarrow> string" where
  "ctx_print c =
     (if ctx_valid c
      then ''s: '' @ to_string (unat (ctx_slot c)) @ ''  e: '' @ to_string (unat (ctx_evt c)) @
           (if usesSubSlot c then '' sub: '' @ to_string (unat (ctx_subslot c)) else '''')
      else ''INVALID'')"

section \<open>EventSlot\<close>

record slot_frame =
  eventContext :: "event_context option"
  algsStates :: algs_states
  controlFlowState :: "int list"
  complete :: bool
  entryPoint :: string
  subSlotsByNode :: "(string \<times> nat list) list"

record event_slot =
  topSlot :: slot_frame
  allSubSlots :: "slot_frame list"

datatype slot_ref = Top | Sub nat

fun parentSlot :: "slot_ref \<Rightarrow> slot_ref option" where
  "parentSlot Top = None"
| "parentSlot (Sub i) = Some Top"

fun slot_at :: "event_slot \<Rightarrow> slot_ref \<Rightarrow> slot_frame" where
  "slot_at ev Top = topSlot ev"
| "slot_at ev (Sub i) = allSubSlots ev ! i"

fun upd_slot :: "slot_ref \<Rightarrow> (slot_frame \<Rightarrow> slot_frame) \<Rightarrow> event_slot \<Rightarrow> event_slot" where
  "upd_slot Top f ev = ev\<lparr>topSlot := f (topSlot ev)\<rparr>"
| "upd_slot (Sub i) f ev = ev\<lparr>allSubSlots := (allSubSlots ev)[i := f (allSubSlots ev ! i)]\<rparr>"

definition new_slot :: "nat \<Rightarrow> nat \<Rightarrow> event_slot" where
  "new_slot numberOfAlgorithms numberOfControlFlowNodes =
     \<lparr>topSlot =
        \<lparr>eventContext = None, algsStates = new_algs_states numberOfAlgorithms,
         controlFlowState = replicate numberOfControlFlowNodes (- 1), complete = False,
         entryPoint = '''', subSlotsByNode = []\<rparr>,
      allSubSlots = []\<rparr>"

definition sub_slot :: "slot_frame \<Rightarrow> event_context option \<Rightarrow> string \<Rightarrow> slot_frame" where
  "sub_slot original theeventContext nodeName =
     \<lparr>eventContext = theeventContext, algsStates = reset_states (algsStates original),
      controlFlowState = controlFlowState original, complete = False,
      entryPoint = nodeName, subSlotsByNode = []\<rparr>"

definition reset_slot :: "event_context \<Rightarrow> event_slot \<Rightarrow> event_slot" where
  "reset_slot theeventContext ev =
     \<lparr>topSlot =
        (topSlot ev)\<lparr>eventContext := Some theeventContext,
          algsStates := reset_states (algsStates (topSlot ev)),
          controlFlowState := replicate (length (controlFlowState (topSlot ev))) (- 1),
          complete := False, entryPoint := '''', subSlotsByNode := []\<rparr>,
      allSubSlots = []\<rparr>"

definition addSubSlot :: "event_context \<Rightarrow> string \<Rightarrow> event_slot \<Rightarrow> event_slot" where
  "addSubSlot viewContext nodeName ev =
     (let lastIndex = length (allSubSlots ev);
          byNode = subSlotsByNode (topSlot ev);
          byNode' = (case map_of byNode nodeName of
              Some l \<Rightarrow> AList.update nodeName (l @ [lastIndex]) byNode
            | None \<Rightarrow> AList.update nodeName (replicate 1 lastIndex) byNode);
          viewContext = setSubSlot (of_nat lastIndex) viewContext;
          top = (topSlot ev)\<lparr>subSlotsByNode := byNode'\<rparr>
      in \<lparr>topSlot = top,
          allSubSlots = allSubSlots ev @ [sub_slot top (Some viewContext) nodeName]\<rparr>)"

definition disableSubSlots :: "string \<Rightarrow> event_slot \<Rightarrow> event_slot" where
  "disableSubSlots nodeName ev =
     (let byNode = subSlotsByNode (topSlot ev)
      in if map_of byNode nodeName = None
         then ev\<lparr>topSlot := (topSlot ev)\<lparr>subSlotsByNode := AList.update nodeName [] byNode\<rparr>\<rparr>
         else ev)"

section \<open>Reading and writing through a slot pointer\<close>

definition decision_of :: "event_slot \<Rightarrow> slot_ref \<Rightarrow> nat \<Rightarrow> int" where
  "decision_of ev r n = controlFlowState (slot_at ev r) ! n"

definition set_decision :: "slot_ref \<Rightarrow> nat \<Rightarrow> int \<Rightarrow> event_slot \<Rightarrow> event_slot" where
  "set_decision r n d ev =
     upd_slot r (\<lambda>s. s\<lparr>controlFlowState := (controlFlowState s)[n := d]\<rparr>) ev"

definition alg_state_of :: "event_slot \<Rightarrow> slot_ref \<Rightarrow> nat \<Rightarrow> exec_state" where
  "alg_state_of ev r a = state_of (algsStates (slot_at ev r)) a"

definition set_alg_state :: "slot_ref \<Rightarrow> nat \<Rightarrow> exec_state \<Rightarrow> event_slot \<Rightarrow> event_slot" where
  "set_alg_state r a st ev =
     upd_slot r (\<lambda>s. s\<lparr>algsStates := snd (set_state a st (algsStates s))\<rparr>) ev"

section \<open>The invariant\<close>

definition ref_ok :: "event_slot \<Rightarrow> slot_ref \<Rightarrow> bool" where
  "ref_ok ev r \<longleftrightarrow> (case r of Top \<Rightarrow> True | Sub i \<Rightarrow> i < length (allSubSlots ev))"

definition frames :: "event_slot \<Rightarrow> slot_frame list" where
  "frames ev = topSlot ev # allSubSlots ev"

definition views_of :: "event_slot \<Rightarrow> string \<Rightarrow> nat list" where
  "views_of ev n = (case map_of (subSlotsByNode (topSlot ev)) n of Some l \<Rightarrow> l | None \<Rightarrow> [])"

text \<open>
  \<open>slot_ok\<close>: every frame keeps its states indexed and has room for every algorithm and node;
  the views registered for a node are those whose frames were entered from it, in the order of
  their creation; each frame of a view carries its own index in its context.
\<close>

definition frame_ok :: "nat \<Rightarrow> nat \<Rightarrow> slot_frame \<Rightarrow> bool" where
  "frame_ok na nn f \<longleftrightarrow>
     states_ok (algsStates f) \<and> states_size (algsStates f) = na \<and> length (controlFlowState f) = nn"

definition views_ok :: "event_slot \<Rightarrow> bool" where
  "views_ok ev \<longleftrightarrow>
     (\<forall>n. views_of ev n =
        filter (\<lambda>i. entryPoint (allSubSlots ev ! i) = n) [0..<length (allSubSlots ev)])"

definition sub_ok :: "event_slot \<Rightarrow> nat \<Rightarrow> bool" where
  "sub_ok ev i \<longleftrightarrow> subSlotsByNode (allSubSlots ev ! i) = [] \<and>
     map_option ctx_subslot (eventContext (allSubSlots ev ! i)) = Some (of_nat i)"

definition slot_ok :: "nat \<Rightarrow> nat \<Rightarrow> event_slot \<Rightarrow> bool" where
  "slot_ok na nn ev \<longleftrightarrow>
     (\<forall>f \<in> set (frames ev). frame_ok na nn f) \<and> views_ok ev \<and>
     (\<forall>i < length (allSubSlots ev). sub_ok ev i)"

lemma map_of_update [simp]: "map_of (AList.update k v al) = (map_of al)(k \<mapsto> v)"
  by (rule update_conv')

lemma states_size_reset [simp]: "states_size (reset_states s) = states_size s"
  by (simp add: states_size_def reset_states_def)

lemma states_size_new [simp]: "states_size (new_algs_states n) = n"
  by (simp add: states_size_def new_algs_states_def)

lemma new_slot_ok: "slot_ok na nn (new_slot na nn)"
  using new_algs_states_ok [of na] states_size_new [of na]
  by (simp add: slot_ok_def frame_ok_def views_ok_def new_slot_def frames_def views_of_def
      del: new_algs_states_ok states_size_new)

lemma reset_slot_ok: "slot_ok na nn ev \<Longrightarrow> slot_ok na nn (reset_slot c ev)"
  by (simp add: slot_ok_def frame_ok_def views_ok_def reset_slot_def frames_def views_of_def)

lemma addSubSlot_fields:
  "allSubSlots (addSubSlot c node ev) = allSubSlots ev @
     [sub_slot (topSlot ev) (Some (setSubSlot (of_nat (length (allSubSlots ev))) c)) node]"
  "algsStates (topSlot (addSubSlot c node ev)) = algsStates (topSlot ev)"
  "controlFlowState (topSlot (addSubSlot c node ev)) = controlFlowState (topSlot ev)"
  "views_of (addSubSlot c node ev) n =
     (if n = node then views_of ev n @ [length (allSubSlots ev)] else views_of ev n)"
  by (auto simp: addSubSlot_def Let_def sub_slot_def views_of_def split: option.splits)

lemma sub_slot_fields [simp]:
  "eventContext (sub_slot f c n) = c" "algsStates (sub_slot f c n) = reset_states (algsStates f)"
  "controlFlowState (sub_slot f c n) = controlFlowState f" "entryPoint (sub_slot f c n) = n"
  "subSlotsByNode (sub_slot f c n) = []"
  by (simp_all add: sub_slot_def)

lemma addSubSlot_ok:
  assumes "slot_ok na nn ev"
  shows "slot_ok na nn (addSubSlot c node ev)"
proof -
  let ?n = "length (allSubSlots ev)" and ?ev = "addSubSlot c node ev"
  have "filter (\<lambda>i. entryPoint (allSubSlots ?ev ! i) = n) [0..<Suc ?n]
      = filter (\<lambda>i. entryPoint (allSubSlots ev ! i) = n) [0..<?n]
        @ (if n = node then [?n] else [])" for n
    by (auto simp: addSubSlot_fields nth_append intro!: filter_cong)
  then have "views_ok ?ev"
    using assms by (auto simp: slot_ok_def views_ok_def addSubSlot_fields)
  moreover have "\<forall>f \<in> set (frames ?ev). frame_ok na nn f"
    using assms by (auto simp: slot_ok_def frames_def frame_ok_def addSubSlot_fields)
  moreover have "\<forall>i < Suc ?n. sub_ok ?ev i"
    using assms by (auto simp: slot_ok_def sub_ok_def addSubSlot_fields nth_append less_Suc_eq
        setSubSlot_def)
  ultimately show ?thesis by (simp add: slot_ok_def addSubSlot_fields)
qed

lemma disableSubSlots_ok:
  assumes "slot_ok na nn ev"
  shows "slot_ok na nn (disableSubSlots node ev)"
proof -
  have "views_of (disableSubSlots node ev) n = views_of ev n" for n
    by (auto simp: disableSubSlots_def Let_def views_of_def split: option.splits)
  moreover have "allSubSlots (disableSubSlots node ev) = allSubSlots ev"
    "algsStates (topSlot (disableSubSlots node ev)) = algsStates (topSlot ev)"
    "controlFlowState (topSlot (disableSubSlots node ev)) = controlFlowState (topSlot ev)"
    by (simp_all add: disableSubSlots_def Let_def)
  ultimately show ?thesis
    using assms by (simp add: slot_ok_def views_ok_def frames_def frame_ok_def sub_ok_def)
qed

lemma upd_slot_frames:
  "ref_ok ev r \<Longrightarrow> \<forall>f \<in> set (frames ev). P f \<Longrightarrow> P (g (slot_at ev r)) \<Longrightarrow>
   \<forall>f \<in> set (frames (upd_slot r g ev)). P f"
  by (cases r) (auto simp: frames_def ref_ok_def dest!: set_update_subset_insert [THEN subsetD])

lemma slot_at_frames: "ref_ok ev r \<Longrightarrow> slot_at ev r \<in> set (frames ev)"
  by (cases r) (auto simp: frames_def ref_ok_def)

text \<open>Changes that keep the views and the contexts keep the invariant.\<close>

lemma upd_slot_ok:
  assumes "slot_ok na nn ev" and r: "ref_ok ev r" and g: "frame_ok na nn (g (slot_at ev r))"
    and same: "\<And>f. entryPoint (g f) = entryPoint f" "\<And>f. subSlotsByNode (g f) = subSlotsByNode f"
      "\<And>f. eventContext (g f) = eventContext f"
  shows "slot_ok na nn (upd_slot r g ev)"
proof -
  have "\<forall>f \<in> set (frames (upd_slot r g ev)). frame_ok na nn f"
    using assms(1) r g by (intro upd_slot_frames) (auto simp: slot_ok_def)
  moreover have "length (allSubSlots (upd_slot r g ev)) = length (allSubSlots ev)"
    "views_of (upd_slot r g ev) = views_of ev"
    by (cases r; simp add: views_of_def same fun_eq_iff)+
  moreover have "entryPoint (allSubSlots (upd_slot r g ev) ! i) = entryPoint (allSubSlots ev ! i)"
    "sub_ok (upd_slot r g ev) i = sub_ok ev i" if "i < length (allSubSlots ev)" for i
    using that r by (cases r; auto simp: ref_ok_def nth_list_update same sub_ok_def)+
  ultimately show ?thesis
    using assms(1) by (auto simp: slot_ok_def views_ok_def intro!: filter_cong)
qed

lemma set_alg_state_ok:
  assumes "slot_ok na nn ev" and "ref_ok ev r"
  shows "slot_ok na nn (set_alg_state r a st ev)"
  unfolding set_alg_state_def
proof (rule upd_slot_ok [OF assms])
  have "frame_ok na nn (slot_at ev r)"
    using assms slot_at_frames by (auto simp: slot_ok_def)
  then show "frame_ok na nn
      ((slot_at ev r)\<lparr>algsStates := snd (set_state a st (algsStates (slot_at ev r)))\<rparr>)"
    by (simp add: frame_ok_def set_state_ok slot_simps)
qed simp_all

lemma set_decision_ok:
  assumes "slot_ok na nn ev" and "ref_ok ev r"
  shows "slot_ok na nn (set_decision r n d ev)"
  unfolding set_decision_def
proof (rule upd_slot_ok [OF assms])
  have "frame_ok na nn (slot_at ev r)"
    using assms slot_at_frames by (auto simp: slot_ok_def)
  then show "frame_ok na nn
      ((slot_at ev r)\<lparr>controlFlowState := (controlFlowState (slot_at ev r))[n := d]\<rparr>)"
    by (simp add: frame_ok_def)
qed simp_all

section \<open>Reading after writing\<close>

lemma ref_ok_upd [slot_simps]: "ref_ok (upd_slot r g ev) r' = ref_ok ev r'"
  by (cases r; cases r') (simp_all add: ref_ok_def)

lemma ref_ok_set [slot_simps]:
  "ref_ok (set_alg_state r a st ev) r' = ref_ok ev r'"
  "ref_ok (set_decision r n d ev) r' = ref_ok ev r'"
  by (simp_all add: set_alg_state_def set_decision_def ref_ok_upd)

lemma slot_at_upd:
  "ref_ok ev r \<Longrightarrow> slot_at (upd_slot r g ev) r' = (if r = r' then g (slot_at ev r) else slot_at ev r')"
  by (cases r; cases r') (auto simp: ref_ok_def nth_list_update)

lemma topSlot_upd_views [slot_simps]:
  "subSlotsByNode (topSlot (set_alg_state r a st ev)) = subSlotsByNode (topSlot ev)"
  "subSlotsByNode (topSlot (set_decision r n d ev)) = subSlotsByNode (topSlot ev)"
  by (cases r; simp add: set_alg_state_def set_decision_def)+

lemma slot_at_const [slot_simps]:
  assumes "ref_ok ev r"
  shows "entryPoint (slot_at (set_alg_state r a st ev) r') = entryPoint (slot_at ev r')"
    "entryPoint (slot_at (set_decision r n d ev) r') = entryPoint (slot_at ev r')"
    "subSlotsByNode (slot_at (set_alg_state r a st ev) r') = subSlotsByNode (slot_at ev r')"
    "subSlotsByNode (slot_at (set_decision r n d ev) r') = subSlotsByNode (slot_at ev r')"
    "eventContext (slot_at (set_alg_state r a st ev) r') = eventContext (slot_at ev r')"
    "eventContext (slot_at (set_decision r n d ev) r') = eventContext (slot_at ev r')"
    "complete (slot_at (set_alg_state r a st ev) r') = complete (slot_at ev r')"
    "complete (slot_at (set_decision r n d ev) r') = complete (slot_at ev r')"
  using assms by (auto simp: set_alg_state_def set_decision_def slot_at_upd)

lemma decision_of_set:
  "ref_ok ev r \<Longrightarrow> n < length (controlFlowState (slot_at ev r)) \<Longrightarrow>
   decision_of (set_decision r n d ev) r' n' =
     (if r = r' \<and> n = n' then d else decision_of ev r' n')"
  by (auto simp: decision_of_def set_decision_def slot_at_upd)

lemma decision_of_set_alg_state [slot_simps]:
  "ref_ok ev r \<Longrightarrow> decision_of (set_alg_state r a st ev) r' n = decision_of ev r' n"
  by (auto simp: decision_of_def set_alg_state_def slot_at_upd)

lemma alg_state_of_set_decision [slot_simps]:
  "ref_ok ev r \<Longrightarrow> alg_state_of (set_decision r n d ev) r' a = alg_state_of ev r' a"
  by (auto simp: alg_state_of_def set_decision_def slot_at_upd)

lemma alg_state_of_set:
  assumes "slot_ok na nn ev" and "ref_ok ev r" and "ref_ok ev r'" and "a < na" and "a' < na"
  shows "alg_state_of (set_alg_state r a st ev) r' a' =
    (if r = r' \<and> a = a' then next_state (alg_state_of ev r a) st else alg_state_of ev r' a')"
proof -
  have "frame_ok na nn (slot_at ev r)"
    using assms slot_at_frames by (auto simp: slot_ok_def)
  with assms show ?thesis
    by (auto simp: alg_state_of_def set_alg_state_def slot_at_upd state_of_set frame_ok_def)
qed

section \<open>The life of a slot\<close>

text \<open>Everything the scheduler and the visitors do to a slot.\<close>

datatype slot_op =
    Reset event_context
  | Add_view event_context string
  | Disable_views string
  | Put_state slot_ref nat exec_state
  | Decide slot_ref nat int

fun slot_step :: "slot_op \<Rightarrow> event_slot \<Rightarrow> event_slot" where
  "slot_step (Reset c) ev = reset_slot c ev"
| "slot_step (Add_view c node) ev = addSubSlot c node ev"
| "slot_step (Disable_views node) ev = disableSubSlots node ev"
| "slot_step (Put_state r a st) ev = (if ref_ok ev r then set_alg_state r a st ev else ev)"
| "slot_step (Decide r n d) ev = (if ref_ok ev r then set_decision r n d ev else ev)"

lemma slot_step_ok: "slot_ok na nn ev \<Longrightarrow> slot_ok na nn (slot_step op ev)"
  by (cases op)
     (auto simp: reset_slot_ok addSubSlot_ok disableSubSlots_ok set_alg_state_ok set_decision_ok)

lemma fold_slot_step_ok: "slot_ok na nn ev \<Longrightarrow> slot_ok na nn (fold slot_step ops ev)"
  by (induction ops arbitrary: ev) (auto simp: slot_step_ok)

text \<open>
  C31. Through any life of a slot (resets, views added and disabled for any nodes in any order,
  state changes legal or not, decisions) the views registered for a node are exactly the
  sub-slots entered from it, in the order they were added, each carrying its index in its
  context; and every frame keeps its per-state index exact and a decision for every node.
\<close>

theorem event_slot_invariant:
  "let ev = fold slot_step ops (new_slot na nn)
   in (\<forall>node. views_of ev node =
        filter (\<lambda>i. entryPoint (allSubSlots ev ! i) = node) [0..<length (allSubSlots ev)])
    \<and> list_all (\<lambda>f. states_ok (algsStates f) \<and> states_size (algsStates f) = na
        \<and> length (controlFlowState f) = nn) (frames ev)
    \<and> list_all (\<lambda>i. map_option ctx_subslot (eventContext (allSubSlots ev ! i)) = Some (of_nat i))
        [0..<length (allSubSlots ev)]"
  using fold_slot_step_ok [OF new_slot_ok, of na nn ops]
  by (auto simp: Let_def slot_ok_def views_ok_def frame_ok_def sub_ok_def list_all_iff)

end
