(* ===== verification/Rules_Graph.thy ===== *)
theory Rules_Graph
  imports Event_Slots "HOL-Library.List_Lexorder" "HOL-Library.Char_ord"
begin

text \<open>
  \<open>PrecedenceRulesGraph\<close> (GaudiHive/src/PRGraph/PrecedenceRulesGraph.h, .cpp): the graph of
  control flow hubs, algorithms and data objects that the scheduler walks, and its mirror for
  analysis. A pointer to a node is the key under which the graph's index holds it: the name of
  an algorithm or hub, the hash of a data identifier (\<open>DataObjID\<close> compares hashes only). An
  index is an association list whose order is the iteration order of the hash map, which the
  code leaves open. The conditions service is code outside the repository's library; the
  record \<open>cond_svc\<close> holds what the graph asks of it.
\<close>

section \<open>DataObjID\<close>

record data_id =
  doid_clid :: u32
  doid_hash :: u64
  doid_key :: string
  doid_className :: string

definition hashGen :: "(string \<Rightarrow> u64) \<Rightarrow> data_id \<Rightarrow> data_id" where
  "hashGen string_hash d =
     (let h = string_hash (doid_key d)
      in d\<lparr>doid_hash :=
           (if doid_clid d \<noteq> 0 then xor h (push_bit 1 (ucast (doid_clid d))) else h)\<rparr>)"

definition doid_of_key :: "(string \<Rightarrow> u64) \<Rightarrow> string \<Rightarrow> data_id" where
  "doid_of_key string_hash key =
     hashGen string_hash
       \<lparr>doid_clid = 0, doid_hash = 0, doid_key = key, doid_className = ''''\<rparr>"

text \<open>\<open>names\<close> and \<open>ids\<close> are the two lookups of the class identifier service.\<close>

definition doid_of_clid ::
  "(u32 \<Rightarrow> string option) \<Rightarrow> (string \<Rightarrow> u64) \<Rightarrow> u32 \<Rightarrow> string \<Rightarrow> data_id"
where
  "doid_of_clid names string_hash clid key =
     hashGen string_hash
       \<lparr>doid_clid = clid, doid_hash = 0, doid_key = key,
        doid_className = (case names clid of Some n \<Rightarrow> n
          | None \<Rightarrow> ''UNKNOW_CLID:'' @ to_string (unat clid))\<rparr>"

definition doid_of_class ::
  "(string \<Rightarrow> u32 option) \<Rightarrow> (string \<Rightarrow> u64) \<Rightarrow> string \<Rightarrow> string \<Rightarrow> data_id"
where
  "doid_of_class ids string_hash className key =
     hashGen string_hash
       (case ids className of
          Some c \<Rightarrow> \<lparr>doid_clid = c, doid_hash = 0, doid_key = key, doid_className = className\<rparr>
        | None \<Rightarrow> \<lparr>doid_clid = 0, doid_hash = 0, doid_key = key,
                   doid_className = ''UNKNOWN_CLASS:'' @ className\<rparr>)"

definition updateKey :: "(string \<Rightarrow> u64) \<Rightarrow> string \<Rightarrow> data_id \<Rightarrow> data_id" where
  "updateKey string_hash key d = hashGen string_hash (d\<lparr>doid_key := key\<rparr>)"

definition fullKey :: "data_id \<Rightarrow> string" where
  "fullKey d =
     (if doid_clid d = 0 \<and> doid_className d = '''' then doid_key d
      else doid_className d @ ''/'' @ doid_key d)"

definition doid_eq :: "data_id \<Rightarrow> data_id \<Rightarrow> bool" where
  "doid_eq lhs rhs \<longleftrightarrow> doid_hash lhs = doid_hash rhs"

definition doid_less :: "data_id \<Rightarrow> data_id \<Rightarrow> bool" where
  "doid_less lhs rhs \<longleftrightarrow> doid_hash lhs < doid_hash rhs"

section \<open>Nodes\<close>

text \<open>What the graph reads of a \<open>Gaudi::Algorithm\<close>.\<close>

record gaudi_alg =
  ga_name :: string
  ga_isBlocking :: bool
  ga_inputs :: "data_id list"
  ga_outputs :: "data_id list"
  ga_cardinality :: nat
  ga_isClonable :: bool

datatype cf_ref = Alg_Node string | Hub_Node string

fun ref_name :: "cf_ref \<Rightarrow> string" where
  "ref_name (Alg_Node n) = n"
| "ref_name (Hub_Node n) = n"

record algorithm_node =
  an_algorithm :: gaudi_alg
  an_nodeIndex :: nat
  an_algoIndex :: nat
  an_inverted :: bool
  an_allPass :: bool
  an_isBlocking :: bool
  an_rank :: int
  an_parents :: "string list"
  an_outputs :: "u64 list"
  an_inputs :: "u64 list"

record decision_node =
  dn_name :: string
  dn_nodeIndex :: nat
  dn_modeConcurrent :: bool
  dn_modePromptDecision :: bool
  dn_modeOR :: bool
  dn_allPass :: bool
  dn_inverted :: bool
  dn_children :: "cf_ref list"
  dn_parents :: "string list"

record data_node =
  da_id :: data_id
  da_condition :: bool
  da_producers :: "string list"
  da_consumers :: "string list"

definition new_algorithm_node :: "gaudi_alg \<Rightarrow> nat \<Rightarrow> nat \<Rightarrow> bool \<Rightarrow> bool \<Rightarrow> algorithm_node" where
  "new_algorithm_node algo nodeIndex algoIndex inverted allPass =
     \<lparr>an_algorithm = algo, an_nodeIndex = nodeIndex, an_algoIndex = algoIndex,
      an_inverted = inverted, an_allPass = allPass, an_isBlocking = ga_isBlocking algo,
      an_rank = - 1, an_parents = [], an_outputs = [], an_inputs = []\<rparr>"

record hub_modes =
  modeConcurrent :: bool
  modePromptDecision :: bool
  modeOR :: bool
  allPassMode :: bool
  invertedMode :: bool

definition new_decision_node :: "string \<Rightarrow> nat \<Rightarrow> hub_modes \<Rightarrow> decision_node" where
  "new_decision_node name nodeIndex m =
     \<lparr>dn_name = name, dn_nodeIndex = nodeIndex, dn_modeConcurrent = modeConcurrent m,
      dn_modePromptDecision = modePromptDecision m, dn_modeOR = modeOR m,
      dn_allPass = allPassMode m, dn_inverted = invertedMode m, dn_children = [], dn_parents = []\<rparr>"

definition new_data_node :: "data_id \<Rightarrow> bool \<Rightarrow> data_node" where
  "new_data_node path condition =
     \<lparr>da_id = path, da_condition = condition, da_producers = [], da_consumers = []\<rparr>"

definition dn_addParentNode :: "string \<Rightarrow> decision_node \<Rightarrow> decision_node" where
  "dn_addParentNode node d = d\<lparr>dn_parents := push_unique node (dn_parents d)\<rparr>"

definition addDaughterNode :: "cf_ref \<Rightarrow> decision_node \<Rightarrow> decision_node" where
  "addDaughterNode node d = d\<lparr>dn_children := push_unique node (dn_children d)\<rparr>"

definition an_addParentNode :: "string \<Rightarrow> algorithm_node \<Rightarrow> algorithm_node" where
  "an_addParentNode node a = a\<lparr>an_parents := push_unique node (an_parents a)\<rparr>"

definition addOutputDataNode :: "u64 \<Rightarrow> algorithm_node \<Rightarrow> algorithm_node" where
  "addOutputDataNode node a = a\<lparr>an_outputs := push_unique node (an_outputs a)\<rparr>"

definition addInputDataNode :: "u64 \<Rightarrow> algorithm_node \<Rightarrow> algorithm_node" where
  "addInputDataNode node a = a\<lparr>an_inputs := push_unique node (an_inputs a)\<rparr>"

definition addProducerNode :: "string \<Rightarrow> data_node \<Rightarrow> data_node" where
  "addProducerNode node d = d\<lparr>da_producers := push_unique node (da_producers d)\<rparr>"

definition addConsumerNode :: "string \<Rightarrow> data_node \<Rightarrow> data_node" where
  "addConsumerNode node d = d\<lparr>da_consumers := push_unique node (da_consumers d)\<rparr>"

section \<open>The mirror for analysis\<close>

text \<open>
  Vertices of the Boost graph: the variant of the four property structures. \<open>add_vertex\<close> gives
  the next number, so the vector of vertices is a list; an edge is a pair of numbers.
\<close>

record algo_props =
  ap_name :: string
  ap_nodeIndex :: nat
  ap_algoIndex :: nat
  ap_inverted :: bool
  ap_allPass :: bool
  ap_isBlocking :: bool

record hub_props =
  hp_name :: string
  hp_nodeIndex :: nat
  hp_modes :: hub_modes

datatype vertex_props =
    AlgoProps algo_props
  | DecisionHubProps hub_props
  | DataProps data_id
  | CondDataProps data_id

definition algo_props_of :: "gaudi_alg \<Rightarrow> nat \<Rightarrow> nat \<Rightarrow> bool \<Rightarrow> bool \<Rightarrow> algo_props" where
  "algo_props_of algo nodeIndex algoIndex inverted allPass =
     \<lparr>ap_name = ga_name algo, ap_nodeIndex = nodeIndex, ap_algoIndex = algoIndex,
      ap_inverted = inverted, ap_allPass = allPass, ap_isBlocking = ga_isBlocking algo\<rparr>"

fun vertexName :: "vertex_props \<Rightarrow> string" where
  "vertexName (AlgoProps p) = ap_name p"
| "vertexName (DecisionHubProps p) = hp_name p"
| "vertexName (DataProps d) = fullKey d"
| "vertexName (CondDataProps d) = fullKey d"

record pr_graph =
  pg_vertices :: "vertex_props list"
  pg_edges :: "(nat \<times> nat) list"

section \<open>The graph\<close>

record cond_svc =
  cs_condAlgs :: "string list"
  cs_isRegistered :: "data_id \<Rightarrow> bool"
  cs_isValidID :: "event_context \<Rightarrow> data_id \<Rightarrow> bool"

record rules_graph =
  g_head :: "string option"
  g_algs :: "(string \<times> algorithm_node) list"
  g_hubs :: "(string \<times> decision_node) list"
  g_data :: "(u64 \<times> data_node) list"
  g_inputs :: "(string \<times> data_id list) list"
  g_outputs :: "(string \<times> data_id list) list"
  g_nodeCounter :: nat
  g_algoCounter :: nat
  g_enableAnalysis :: bool
  g_PRGraph :: pr_graph
  g_conditionsRealmEnabled :: bool

definition new_graph :: rules_graph where
  "new_graph =
     \<lparr>g_head = None, g_algs = [], g_hubs = [], g_data = [], g_inputs = [], g_outputs = [],
      g_nodeCounter = 0, g_algoCounter = 0, g_enableAnalysis = False,
      g_PRGraph = \<lparr>pg_vertices = [], pg_edges = []\<rparr>, g_conditionsRealmEnabled = False\<rparr>"

definition enableAnalysis :: "rules_graph \<Rightarrow> rules_graph" where
  "enableAnalysis g = g\<lparr>g_enableAnalysis := True\<rparr>"

abbreviation alg_node :: "rules_graph \<Rightarrow> string \<rightharpoonup> algorithm_node" where
  "alg_node g n \<equiv> map_of (g_algs g) n"

abbreviation hub_node :: "rules_graph \<Rightarrow> string \<rightharpoonup> decision_node" where
  "hub_node g n \<equiv> map_of (g_hubs g) n"

abbreviation data_node_at :: "rules_graph \<Rightarrow> u64 \<rightharpoonup> data_node" where
  "data_node_at g h \<equiv> map_of (g_data g) h"

definition upd_alg :: "string \<Rightarrow> (algorithm_node \<Rightarrow> algorithm_node) \<Rightarrow> rules_graph \<Rightarrow> rules_graph" where
  "upd_alg n f g = g\<lparr>g_algs := AList.map_entry n f (g_algs g)\<rparr>"

definition upd_hub :: "string \<Rightarrow> (decision_node \<Rightarrow> decision_node) \<Rightarrow> rules_graph \<Rightarrow> rules_graph" where
  "upd_hub n f g = g\<lparr>g_hubs := AList.map_entry n f (g_hubs g)\<rparr>"

definition upd_data :: "u64 \<Rightarrow> (data_node \<Rightarrow> data_node) \<Rightarrow> rules_graph \<Rightarrow> rules_graph" where
  "upd_data h f g = g\<lparr>g_data := AList.map_entry h f (g_data g)\<rparr>"

text \<open>\<open>node\<close>: the first vertex of this name, or the default descriptor 0.\<close>

definition pr_node :: "rules_graph \<Rightarrow> string \<Rightarrow> nat" where
  "pr_node g name =
     (let vs = pg_vertices (g_PRGraph g);
          i = length (takeWhile (\<lambda>v. vertexName v \<noteq> name) vs)
      in if i < length vs then i else 0)"

definition bgl_add_vertex :: "vertex_props \<Rightarrow> rules_graph \<Rightarrow> rules_graph" where
  "bgl_add_vertex v g =
     (if g_enableAnalysis g
      then g\<lparr>g_PRGraph := (g_PRGraph g)\<lparr>pg_vertices := pg_vertices (g_PRGraph g) @ [v]\<rparr>\<rparr> else g)"

definition bgl_add_edge :: "string \<Rightarrow> string \<Rightarrow> rules_graph \<Rightarrow> rules_graph" where
  "bgl_add_edge u v g =
     (if g_enableAnalysis g
      then g\<lparr>g_PRGraph := (g_PRGraph g)
             \<lparr>pg_edges := pg_edges (g_PRGraph g) @ [(pr_node g u, pr_node g v)]\<rparr>\<rparr>
      else g)"

definition bgl_remove_edge :: "string \<Rightarrow> string \<Rightarrow> rules_graph \<Rightarrow> rules_graph" where
  "bgl_remove_edge u v g =
     (if g_enableAnalysis g
      then g\<lparr>g_PRGraph := (g_PRGraph g)
             \<lparr>pg_edges := filter (\<lambda>e. e \<noteq> (pr_node g u, pr_node g v)) (pg_edges (g_PRGraph g))\<rparr>\<rparr>
      else g)"

definition registerIODataObjects :: "gaudi_alg \<Rightarrow> rules_graph \<Rightarrow> rules_graph" where
  "registerIODataObjects algo g =
     g\<lparr>g_inputs := AList.update (ga_name algo) (ga_inputs algo) (g_inputs g),
       g_outputs := AList.update (ga_name algo) (ga_outputs algo) (g_outputs g)\<rparr>"

definition addHeadNode :: "string \<Rightarrow> hub_modes \<Rightarrow> rules_graph \<Rightarrow> rules_graph" where
  "addHeadNode headName m g =
     (if hub_node g headName \<noteq> None then g\<lparr>g_head := Some headName\<rparr>
      else
        (let g = g\<lparr>g_hubs := AList.update headName
                     (new_decision_node headName (g_nodeCounter g) m) (g_hubs g),
                   g_head := Some headName\<rparr>;
             g = bgl_add_vertex (DecisionHubProps
                   \<lparr>hp_name = headName, hp_nodeIndex = g_nodeCounter g, hp_modes = m\<rparr>) g
         in g\<lparr>g_nodeCounter := Suc (g_nodeCounter g)\<rparr>))"

definition addAlgorithmNode ::
  "gaudi_alg \<Rightarrow> string \<Rightarrow> bool \<Rightarrow> bool \<Rightarrow> rules_graph \<Rightarrow> error_code \<times> rules_graph"
where
  "addAlgorithmNode algo parentName inverted allPass g =
     (let algoName = ga_name algo;
          g = (if alg_node g algoName \<noteq> None then g
               else
                 (let g = g\<lparr>g_algs := AList.update algoName
                        (new_algorithm_node algo (g_nodeCounter g) (g_algoCounter g) inverted allPass)
                        (g_algs g)\<rparr>;
                      g = bgl_add_vertex (AlgoProps (algo_props_of algo (g_nodeCounter g)
                            (g_algoCounter g) inverted allPass)) g;
                      g = g\<lparr>g_nodeCounter := Suc (g_nodeCounter g),
                            g_algoCounter := Suc (g_algoCounter g)\<rparr>
                  in registerIODataObjects algo g))
      in if hub_node g parentName \<noteq> None
         then (SUCCESS,
               bgl_add_edge algoName parentName
                 (upd_alg algoName (an_addParentNode parentName)
                   (upd_hub parentName (addDaughterNode (Alg_Node algoName)) g)))
         else (FAILURE, g))"

definition addDecisionHubNode ::
  "string \<Rightarrow> string \<Rightarrow> hub_modes \<Rightarrow> rules_graph \<Rightarrow> error_code \<times> rules_graph"
where
  "addDecisionHubNode decisionHubName parentName m g =
     (let g = (if hub_node g decisionHubName \<noteq> None then g
               else
                 (let g = g\<lparr>g_hubs := AList.update decisionHubName
                        (new_decision_node decisionHubName (g_nodeCounter g) m) (g_hubs g)\<rparr>;
                      g = bgl_add_vertex (DecisionHubProps
                            \<lparr>hp_name = decisionHubName, hp_nodeIndex = g_nodeCounter g,
                             hp_modes = m\<rparr>) g
                  in g\<lparr>g_nodeCounter := Suc (g_nodeCounter g)\<rparr>))
      in if hub_node g parentName \<noteq> None
         then (SUCCESS,
               bgl_add_edge decisionHubName parentName
                 (upd_hub decisionHubName (dn_addParentNode parentName)
                   (upd_hub parentName (addDaughterNode (Hub_Node decisionHubName)) g)))
         else (FAILURE, g))"

definition addDataNode :: "cond_svc option \<Rightarrow> data_id \<Rightarrow> rules_graph \<Rightarrow> error_code \<times> rules_graph" where
  "addDataNode condSvc dataPath g =
     (if data_node_at g (doid_hash dataPath) \<noteq> None then (SUCCESS, g)
      else
        (let isCond = (g_conditionsRealmEnabled g \<and>
               (case condSvc of Some cs \<Rightarrow> cs_isRegistered cs dataPath | None \<Rightarrow> False));
             g = bgl_add_vertex (if isCond then CondDataProps dataPath else DataProps dataPath) g
         in (SUCCESS,
             g\<lparr>g_data := AList.update (doid_hash dataPath) (new_data_node dataPath isCond)
                 (g_data g)\<rparr>)))"

text \<open>
  The two passes of \<open>buildDataDependenciesRealm\<close> visit the algorithms by name. \<open>operator[]\<close> of
  the maps of inputs and outputs gives an empty collection for a name never registered.
\<close>

definition sorted_alg_names :: "rules_graph \<Rightarrow> string list" where
  "sorted_alg_names g = sort (map fst (g_algs g))"

definition outputs_of :: "rules_graph \<Rightarrow> string \<Rightarrow> data_id list" where
  "outputs_of g n = (case map_of (g_outputs g) n of Some ds \<Rightarrow> ds | None \<Rightarrow> [])"

definition inputs_of :: "rules_graph \<Rightarrow> string \<Rightarrow> data_id list" where
  "inputs_of g n = (case map_of (g_inputs g) n of Some ds \<Rightarrow> ds | None \<Rightarrow> [])"

fun link_outputs ::
  "cond_svc option \<Rightarrow> string \<Rightarrow> data_id list \<Rightarrow> error_code \<times> rules_graph \<Rightarrow> error_code \<times> rules_graph"
where
  "link_outputs condSvc algo [] (global_sc, g) = (global_sc, g)"
| "link_outputs condSvc algo (output # outputs) (global_sc, g) =
     (let (sc, g) = addDataNode condSvc output g;
          global_sc = (if sc \<noteq> SUCCESS then sc else global_sc);
          g = upd_data (doid_hash output) (addProducerNode algo) g;
          g = upd_alg algo (addOutputDataNode (doid_hash output)) g;
          g = bgl_add_edge algo (fullKey output) g
      in link_outputs condSvc algo outputs (global_sc, g))"

fun link_inputs :: "string \<Rightarrow> data_id list \<Rightarrow> rules_graph \<Rightarrow> rules_graph" where
  "link_inputs algo [] g = g"
| "link_inputs algo (input # inputs) g =
     (if data_node_at g (doid_hash input) \<noteq> None
      then link_inputs algo inputs
             (bgl_add_edge (fullKey input) algo
               (upd_alg algo (addInputDataNode (doid_hash input))
                 (upd_data (doid_hash input) (addConsumerNode algo) g)))
      else link_inputs algo inputs g)"

definition buildDataDependenciesRealm ::
  "cond_svc option \<Rightarrow> rules_graph \<Rightarrow> error_code \<times> rules_graph"
where
  "buildDataDependenciesRealm condSvc g =
     (let names = sorted_alg_names g;
          (global_sc, g) =
            fold (\<lambda>n (sc, g). link_outputs condSvc n (outputs_of g n) (sc, g)) names (SUCCESS, g)
      in (global_sc, fold (\<lambda>n g. link_inputs n (inputs_of g n) g) names g))"

text \<open>\<open>initialize\<close>: detach the condition algorithms from the control flow, then link the data.\<close>

definition detach_alg :: "string \<Rightarrow> rules_graph \<Rightarrow> rules_graph" where
  "detach_alg n g =
     (case alg_node g n of
        None \<Rightarrow> g
      | Some a \<Rightarrow>
          upd_alg n (\<lambda>a. a\<lparr>an_parents := []\<rparr>)
            (fold (\<lambda>p g. bgl_remove_edge n p
                (upd_hub p (\<lambda>d. d\<lparr>dn_children := removeAll (Alg_Node n) (dn_children d)\<rparr>) g))
              (an_parents a) g))"

definition graph_initialize :: "cond_svc option \<Rightarrow> rules_graph \<Rightarrow> error_code \<times> rules_graph" where
  "graph_initialize condSvc g =
     (let g = (case condSvc of None \<Rightarrow> g
               | Some cs \<Rightarrow> fold detach_alg (cs_condAlgs cs) (g\<lparr>g_conditionsRealmEnabled := True\<rparr>))
      in buildDataDependenciesRealm condSvc g)"

end
