(* ===== verification/Graph_Links.thy ===== *)
theory Graph_Links
  imports Rules_Graph
begin

text \<open>
  The links of the precedence graph are kept on both sides: a hub lists its daughters and each
  daughter its parents, an algorithm its outputs and inputs and each data object its producers
  and consumers. The contract \<open>two_way_link\<close> says what linking two nodes must do to both
  sides; the graph provides it four times, and the consistency of the whole graph, with the
  numbering of its nodes, follows for every way of building it.
\<close>

section \<open>The contract\<close>

locale two_way_link =
  fixes fwd bwd :: "'s \<Rightarrow> 'a \<Rightarrow> 'b \<Rightarrow> bool"
    and has :: "'s \<Rightarrow> 'a \<Rightarrow> 'b \<Rightarrow> bool"
    and link :: "'a \<Rightarrow> 'b \<Rightarrow> 's \<Rightarrow> 's"
  assumes fwd_link: "has s a b \<Longrightarrow> fwd (link a b s) x y = (fwd s x y \<or> x = a \<and> y = b)"
    and bwd_link: "has s a b \<Longrightarrow> bwd (link a b s) x y = (bwd s x y \<or> x = a \<and> y = b)"
    and has_link: "has s a b \<Longrightarrow> has (link a b s) x y = has s x y"
begin

lemma link_consistent: "has s a b \<Longrightarrow> fwd s = bwd s \<Longrightarrow> fwd (link a b s) = bwd (link a b s)"
  by (auto simp: fun_eq_iff fwd_link bwd_link)

lemma has_links:
  "has s a b \<Longrightarrow> \<forall>l \<in> set ls. has s (fst l) (snd l) \<Longrightarrow>
   \<forall>l \<in> set ls. has (link a b s) (fst l) (snd l)"
  by (simp add: has_link)

lemma links_consistent:
  "\<forall>l \<in> set ls. has s (fst l) (snd l) \<Longrightarrow> fwd s = bwd s \<Longrightarrow>
   fwd (fold (\<lambda>l. link (fst l) (snd l)) ls s) = bwd (fold (\<lambda>l. link (fst l) (snd l)) ls s)"
proof (induction ls arbitrary: s)
  case (Cons l ls)
  then have "\<forall>l' \<in> set ls. has (link (fst l) (snd l) s) (fst l') (snd l')"
    by (intro has_links) auto
  from Cons.IH [OF this link_consistent] Cons.prems show ?case by simp
qed simp

lemma links_fwd:
  "\<forall>l \<in> set ls. has s (fst l) (snd l) \<Longrightarrow>
   fwd (fold (\<lambda>l. link (fst l) (snd l)) ls s) x y = (fwd s x y \<or> (x, y) \<in> set ls)"
proof (induction ls arbitrary: s)
  case (Cons l ls)
  then have "\<forall>l' \<in> set ls. has (link (fst l) (snd l) s) (fst l') (snd l')"
    by (intro has_links) auto
  from Cons.IH [OF this] Cons.prems show ?case by (auto simp: fwd_link)
qed simp

end

section \<open>Links of the precedence graph\<close>

definition daughter :: "rules_graph \<Rightarrow> string \<Rightarrow> cf_ref \<Rightarrow> bool" where
  "daughter g p c \<longleftrightarrow> (\<exists>d. hub_node g p = Some d \<and> c \<in> set (dn_children d))"

fun parent_of :: "rules_graph \<Rightarrow> string \<Rightarrow> cf_ref \<Rightarrow> bool" where
  "parent_of g p (Alg_Node n) = (\<exists>a. alg_node g n = Some a \<and> p \<in> set (an_parents a))"
| "parent_of g p (Hub_Node n) = (\<exists>d. hub_node g n = Some d \<and> p \<in> set (dn_parents d))"

fun node_exists :: "rules_graph \<Rightarrow> cf_ref \<Rightarrow> bool" where
  "node_exists g (Alg_Node n) = (alg_node g n \<noteq> None)"
| "node_exists g (Hub_Node n) = (hub_node g n \<noteq> None)"

fun link_cf :: "string \<Rightarrow> cf_ref \<Rightarrow> rules_graph \<Rightarrow> rules_graph" where
  "link_cf p (Alg_Node n) g =
     upd_alg n (an_addParentNode p) (upd_hub p (addDaughterNode (Alg_Node n)) g)"
| "link_cf p (Hub_Node n) g =
     upd_hub n (dn_addParentNode p) (upd_hub p (addDaughterNode (Hub_Node n)) g)"

definition outputs_to :: "rules_graph \<Rightarrow> string \<Rightarrow> u64 \<Rightarrow> bool" where
  "outputs_to g n h \<longleftrightarrow> (\<exists>a. alg_node g n = Some a \<and> h \<in> set (an_outputs a))"

definition produced_by :: "rules_graph \<Rightarrow> string \<Rightarrow> u64 \<Rightarrow> bool" where
  "produced_by g n h \<longleftrightarrow> (\<exists>d. data_node_at g h = Some d \<and> n \<in> set (da_producers d))"

definition link_out :: "string \<Rightarrow> u64 \<Rightarrow> rules_graph \<Rightarrow> rules_graph" where
  "link_out n h g = upd_alg n (addOutputDataNode h) (upd_data h (addProducerNode n) g)"

definition inputs_from :: "rules_graph \<Rightarrow> string \<Rightarrow> u64 \<Rightarrow> bool" where
  "inputs_from g n h \<longleftrightarrow> (\<exists>a. alg_node g n = Some a \<and> h \<in> set (an_inputs a))"

definition consumed_by :: "rules_graph \<Rightarrow> string \<Rightarrow> u64 \<Rightarrow> bool" where
  "consumed_by g n h \<longleftrightarrow> (\<exists>d. data_node_at g h = Some d \<and> n \<in> set (da_consumers d))"

definition link_in :: "string \<Rightarrow> u64 \<Rightarrow> rules_graph \<Rightarrow> rules_graph" where
  "link_in n h g = upd_alg n (addInputDataNode h) (upd_data h (addConsumerNode n) g)"

definition has_data :: "rules_graph \<Rightarrow> string \<Rightarrow> u64 \<Rightarrow> bool" where
  "has_data g n h \<longleftrightarrow> alg_node g n \<noteq> None \<and> data_node_at g h \<noteq> None"

definition has_cf :: "rules_graph \<Rightarrow> string \<Rightarrow> cf_ref \<Rightarrow> bool" where
  "has_cf g p c \<longleftrightarrow> hub_node g p \<noteq> None \<and> node_exists g c"

lemma map_of_entry [simp]:
  "map_of (AList.map_entry k f al) x = (if x = k then map_option f (map_of al k) else map_of al x)"
  by (auto simp: map_of_map_entry split: option.splits)

lemma upd_lookups [graph_simps]:
  "alg_node (upd_alg n f g) x = (if x = n then map_option f (alg_node g n) else alg_node g x)"
  "hub_node (upd_alg n f g) x = hub_node g x"
  "data_node_at (upd_alg n f g) h = data_node_at g h"
  "alg_node (upd_hub p e g) x = alg_node g x"
  "hub_node (upd_hub p e g) x = (if x = p then map_option e (hub_node g p) else hub_node g x)"
  "data_node_at (upd_hub p e g) h = data_node_at g h"
  "alg_node (upd_data h' q g) x = alg_node g x"
  "hub_node (upd_data h' q g) x = hub_node g x"
  "data_node_at (upd_data h' q g) h =
     (if h = h' then map_option q (data_node_at g h') else data_node_at g h)"
  by (simp_all add: upd_alg_def upd_hub_def upd_data_def)

lemma node_adders [graph_simps]:
  "set (dn_children (addDaughterNode c d)) = insert c (set (dn_children d))"
  "dn_parents (addDaughterNode c d) = dn_parents d"
  "set (dn_parents (dn_addParentNode p d)) = insert p (set (dn_parents d))"
  "dn_children (dn_addParentNode p d) = dn_children d"
  "set (an_parents (an_addParentNode p a)) = insert p (set (an_parents a))"
  "an_outputs (an_addParentNode p a) = an_outputs a"
  "an_inputs (an_addParentNode p a) = an_inputs a"
  "set (an_outputs (addOutputDataNode h a)) = insert h (set (an_outputs a))"
  "an_parents (addOutputDataNode h a) = an_parents a"
  "an_inputs (addOutputDataNode h a) = an_inputs a"
  "set (an_inputs (addInputDataNode h a)) = insert h (set (an_inputs a))"
  "an_parents (addInputDataNode h a) = an_parents a"
  "an_outputs (addInputDataNode h a) = an_outputs a"
  "set (da_producers (addProducerNode n q)) = insert n (set (da_producers q))"
  "da_consumers (addProducerNode n q) = da_consumers q"
  "set (da_consumers (addConsumerNode n q)) = insert n (set (da_consumers q))"
  "da_producers (addConsumerNode n q) = da_producers q"
  by (simp_all add: addDaughterNode_def dn_addParentNode_def an_addParentNode_def
      addOutputDataNode_def addInputDataNode_def addProducerNode_def addConsumerNode_def)

interpretation cf: two_way_link daughter parent_of has_cf link_cf
proof unfold_locales
  fix g p c x y
  assume has: "has_cf g p c"
  show "daughter (link_cf p c g) x y = (daughter g x y \<or> x = p \<and> y = c)"
    using has by (cases c) (auto simp: daughter_def has_cf_def graph_simps)
  show "parent_of (link_cf p c g) x y = (parent_of g x y \<or> x = p \<and> y = c)"
    using has by (cases c; cases y) (auto simp: has_cf_def graph_simps)
  show "has_cf (link_cf p c g) x y = has_cf g x y"
    using has by (cases c; cases y) (auto simp: has_cf_def graph_simps)
qed

interpretation out: two_way_link outputs_to produced_by has_data link_out
  by unfold_locales (auto simp: outputs_to_def produced_by_def has_data_def link_out_def graph_simps)

interpretation inp: two_way_link inputs_from consumed_by has_data link_in
  by unfold_locales (auto simp: inputs_from_def consumed_by_def has_data_def link_in_def graph_simps)

section \<open>The invariant of the graph\<close>

definition node_indices :: "rules_graph \<Rightarrow> nat list" where
  "node_indices g = map (an_nodeIndex \<circ> snd) (g_algs g) @ map (dn_nodeIndex \<circ> snd) (g_hubs g)"

definition algo_indices :: "rules_graph \<Rightarrow> nat list" where
  "algo_indices g = map (an_algoIndex \<circ> snd) (g_algs g)"

definition numbered :: "rules_graph \<Rightarrow> bool" where
  "numbered g \<longleftrightarrow>
     distinct (node_indices g) \<and> set (node_indices g) = {..<g_nodeCounter g} \<and>
     distinct (algo_indices g) \<and> set (algo_indices g) = {..<g_algoCounter g}"

definition named :: "rules_graph \<Rightarrow> bool" where
  "named g \<longleftrightarrow>
     distinct (map fst (g_algs g)) \<and> distinct (map fst (g_hubs g)) \<and>
     map (ga_name \<circ> an_algorithm \<circ> snd) (g_algs g) = map fst (g_algs g) \<and>
     map (dn_name \<circ> snd) (g_hubs g) = map fst (g_hubs g)"

definition linked :: "rules_graph \<Rightarrow> bool" where
  "linked g \<longleftrightarrow>
     daughter g = parent_of g \<and> outputs_to g = produced_by g \<and> inputs_from g = consumed_by g"

definition graph_ok :: "rules_graph \<Rightarrow> bool" where
  "graph_ok g \<longleftrightarrow> numbered g \<and> named g \<and> linked g"

lemma new_graph_ok: "graph_ok new_graph"
proof -
  have "daughter new_graph p c = parent_of new_graph p c" for p c
    by (cases c) (simp_all add: daughter_def new_graph_def)
  then show ?thesis
    by (auto simp: graph_ok_def numbered_def named_def linked_def node_indices_def
        algo_indices_def new_graph_def outputs_to_def produced_by_def inputs_from_def
        consumed_by_def fun_eq_iff)
qed

text \<open>The invariant reads six fields only; the mirror and the rest may change freely.\<close>

lemma graph_ok_cong:
  assumes "g_algs g' = g_algs g" "g_hubs g' = g_hubs g" "g_data g' = g_data g"
    "g_nodeCounter g' = g_nodeCounter g" "g_algoCounter g' = g_algoCounter g"
  shows "graph_ok g' = graph_ok g"
proof -
  have p: "parent_of g' = parent_of g"
  proof (intro ext)
    fix p c
    show "parent_of g' p c = parent_of g p c" using assms by (cases c) simp_all
  qed
  have l: "daughter g' = daughter g" "outputs_to g' = outputs_to g" "produced_by g' = produced_by g"
    "inputs_from g' = inputs_from g" "consumed_by g' = consumed_by g"
    using assms by (simp_all add: daughter_def outputs_to_def produced_by_def inputs_from_def
        consumed_by_def fun_eq_iff)
  show ?thesis
    unfolding graph_ok_def linked_def p l
    by (simp add: assms numbered_def named_def node_indices_def algo_indices_def)
qed

lemma bgl_fields [graph_simps]:
  "g_algs (bgl_add_vertex v g) = g_algs g" "g_hubs (bgl_add_vertex v g) = g_hubs g"
  "g_data (bgl_add_vertex v g) = g_data g" "g_head (bgl_add_vertex v g) = g_head g"
  "g_nodeCounter (bgl_add_vertex v g) = g_nodeCounter g"
  "g_algoCounter (bgl_add_vertex v g) = g_algoCounter g"
  "g_algs (bgl_add_edge u w g) = g_algs g" "g_hubs (bgl_add_edge u w g) = g_hubs g"
  "g_data (bgl_add_edge u w g) = g_data g" "g_head (bgl_add_edge u w g) = g_head g"
  "g_nodeCounter (bgl_add_edge u w g) = g_nodeCounter g"
  "g_algoCounter (bgl_add_edge u w g) = g_algoCounter g"
  "g_algs (bgl_remove_edge u w g) = g_algs g" "g_hubs (bgl_remove_edge u w g) = g_hubs g"
  "g_data (bgl_remove_edge u w g) = g_data g" "g_head (bgl_remove_edge u w g) = g_head g"
  "g_nodeCounter (bgl_remove_edge u w g) = g_nodeCounter g"
  "g_algoCounter (bgl_remove_edge u w g) = g_algoCounter g"
  by (simp_all add: bgl_add_vertex_def bgl_add_edge_def bgl_remove_edge_def)

lemma bgl_ok [simp]:
  "graph_ok (bgl_add_vertex v g) = graph_ok g" "graph_ok (bgl_add_edge u w g) = graph_ok g"
  "graph_ok (bgl_remove_edge u w g) = graph_ok g"
  by (rule graph_ok_cong; simp add: graph_simps)+

lemma registerIO_ok [simp]: "graph_ok (registerIODataObjects a g) = graph_ok g"
  by (rule graph_ok_cong) (simp_all add: registerIODataObjects_def)

section \<open>Creating nodes\<close>

lemma update_absent_append: "map_of al k = None \<Longrightarrow> AList.update k v al = al @ [(k, v)]"
  by (induction al) (auto split: if_splits)

lemma map_of_append_absent:
  "map_of al k = None \<Longrightarrow> map_of (al @ [(k, v)]) x = (if x = k then Some v else map_of al x)"
  by (auto simp: map_add_def split: option.splits)

lemma absent_key: "map_of al k = None \<Longrightarrow> k \<notin> fst ` set al"
  by (simp add: map_of_eq_None_iff)

lemma lessThan_Suc_insert: "{..<Suc n} = insert n {..<n}"
  by auto

definition with_alg :: "gaudi_alg \<Rightarrow> bool \<Rightarrow> bool \<Rightarrow> rules_graph \<Rightarrow> rules_graph" where
  "with_alg algo inverted allPass g =
     g\<lparr>g_algs := g_algs g @ [(ga_name algo,
          new_algorithm_node algo (g_nodeCounter g) (g_algoCounter g) inverted allPass)],
       g_nodeCounter := Suc (g_nodeCounter g), g_algoCounter := Suc (g_algoCounter g)\<rparr>"

definition with_hub :: "string \<Rightarrow> hub_modes \<Rightarrow> rules_graph \<Rightarrow> rules_graph" where
  "with_hub n m g =
     g\<lparr>g_hubs := g_hubs g @ [(n, new_decision_node n (g_nodeCounter g) m)],
       g_nodeCounter := Suc (g_nodeCounter g)\<rparr>"

definition with_data :: "data_id \<Rightarrow> bool \<Rightarrow> rules_graph \<Rightarrow> rules_graph" where
  "with_data d cond g = g\<lparr>g_data := g_data g @ [(doid_hash d, new_data_node d cond)]\<rparr>"

lemma with_alg_ok:
  assumes ok: "graph_ok g" and new: "alg_node g (ga_name algo) = None"
  shows "graph_ok (with_alg algo inverted allPass g)"
proof -
  let ?g = "with_alg algo inverted allPass g"
  have par: "parent_of ?g p c = parent_of g p c" for p c
    using new by (cases c) (auto simp: with_alg_def map_of_append_absent new_algorithm_node_def
        split: if_splits)
  have rel: "daughter ?g = daughter g" "outputs_to ?g = outputs_to g" "produced_by ?g = produced_by g"
    "inputs_from ?g = inputs_from g" "consumed_by ?g = consumed_by g"
    using new by (auto simp: fun_eq_iff daughter_def outputs_to_def produced_by_def inputs_from_def
        consumed_by_def with_alg_def map_of_append_absent new_algorithm_node_def
        split: if_splits)
  have "numbered ?g"
    using ok by (auto simp: graph_ok_def numbered_def node_indices_def algo_indices_def with_alg_def
        new_algorithm_node_def lessThan_Suc_insert)
  moreover have "named ?g"
    using ok absent_key [OF new]
    by (simp add: graph_ok_def named_def with_alg_def new_algorithm_node_def)
  ultimately show ?thesis
    using ok by (simp add: graph_ok_def linked_def rel par fun_eq_iff)
qed

lemma with_hub_ok:
  assumes ok: "graph_ok g" and new: "hub_node g n = None"
  shows "graph_ok (with_hub n m g)"
proof -
  let ?g = "with_hub n m g"
  have par: "parent_of ?g p c = parent_of g p c" for p c
    using new by (cases c) (auto simp: with_hub_def map_of_append_absent new_decision_node_def
        split: if_splits)
  have rel: "daughter ?g = daughter g" "outputs_to ?g = outputs_to g" "produced_by ?g = produced_by g"
    "inputs_from ?g = inputs_from g" "consumed_by ?g = consumed_by g"
    using new by (auto simp: fun_eq_iff daughter_def outputs_to_def produced_by_def inputs_from_def
        consumed_by_def with_hub_def map_of_append_absent new_decision_node_def
        split: if_splits)
  have "numbered ?g"
    using ok by (auto simp: graph_ok_def numbered_def node_indices_def algo_indices_def with_hub_def
        new_decision_node_def lessThan_Suc_insert)
  moreover have "named ?g"
    using ok absent_key [OF new]
    by (simp add: graph_ok_def named_def with_hub_def new_decision_node_def)
  ultimately show ?thesis
    using ok by (simp add: graph_ok_def linked_def rel par fun_eq_iff)
qed

lemma with_data_ok:
  assumes ok: "graph_ok g" and new: "data_node_at g (doid_hash d) = None"
  shows "graph_ok (with_data d cond g)"
proof -
  let ?g = "with_data d cond g"
  have par: "parent_of ?g p c = parent_of g p c" for p c
    by (cases c) (auto simp: with_data_def)
  have rel: "daughter ?g = daughter g" "outputs_to ?g = outputs_to g" "produced_by ?g = produced_by g"
    "inputs_from ?g = inputs_from g" "consumed_by ?g = consumed_by g"
    using new by (auto simp: fun_eq_iff daughter_def outputs_to_def produced_by_def inputs_from_def
        consumed_by_def with_data_def map_of_append_absent new_data_node_def split: if_splits)
  have "numbered ?g" "named ?g"
    using ok by (simp_all add: graph_ok_def numbered_def node_indices_def algo_indices_def
        with_data_def named_def)
  then show ?thesis
    using ok by (simp add: graph_ok_def linked_def rel par fun_eq_iff)
qed

section \<open>Linking nodes\<close>

lemma map_entry_proj:
  "(\<And>v. \<pi> (f v) = \<pi> v) \<Longrightarrow> map (\<pi> \<circ> snd) (AList.map_entry k f al) = map (\<pi> \<circ> snd) al"
  by (induction al) auto

lemma map_entry_keys [simp]: "map fst (AList.map_entry k f al) = map fst al"
  by (induction al) auto

lemma keep_numbers:
  assumes "\<And>a. an_nodeIndex (f a) = an_nodeIndex a" "\<And>a. an_algoIndex (f a) = an_algoIndex a"
    "\<And>a. an_algorithm (f a) = an_algorithm a"
    "\<And>d. dn_nodeIndex (e d) = dn_nodeIndex d" "\<And>d. dn_name (e d) = dn_name d"
  shows "numbered (upd_alg n f (upd_hub p e (upd_data h q g))) = numbered g"
    "named (upd_alg n f (upd_hub p e (upd_data h q g))) = named g"
  using map_entry_proj [of an_nodeIndex f n "g_algs g"] map_entry_proj [of an_algoIndex f n "g_algs g"]
    map_entry_proj [of "ga_name \<circ> an_algorithm" f n "g_algs g"]
    map_entry_proj [of dn_nodeIndex e p "g_hubs g"] map_entry_proj [of dn_name e p "g_hubs g"]
  by (simp_all add: assms numbered_def named_def node_indices_def algo_indices_def upd_alg_def
      upd_hub_def upd_data_def comp_assoc)

lemma map_entry_id [simp]: "AList.map_entry k (\<lambda>v. v) al = al"
  by (induction al) auto

lemma upd_id [simp]: "upd_alg n (\<lambda>a. a) g = g" "upd_hub p (\<lambda>d. d) g = g" "upd_data h (\<lambda>q. q) g = g"
  by (simp_all add: upd_alg_def upd_hub_def upd_data_def)

lemma node_adders_const [graph_simps]:
  "an_nodeIndex (an_addParentNode p a) = an_nodeIndex a"
  "an_algoIndex (an_addParentNode p a) = an_algoIndex a"
  "an_algorithm (an_addParentNode p a) = an_algorithm a"
  "an_nodeIndex (addOutputDataNode h a) = an_nodeIndex a"
  "an_algoIndex (addOutputDataNode h a) = an_algoIndex a"
  "an_algorithm (addOutputDataNode h a) = an_algorithm a"
  "an_nodeIndex (addInputDataNode h a) = an_nodeIndex a"
  "an_algoIndex (addInputDataNode h a) = an_algoIndex a"
  "an_algorithm (addInputDataNode h a) = an_algorithm a"
  "dn_nodeIndex (addDaughterNode c d) = dn_nodeIndex d"
  "dn_name (addDaughterNode c d) = dn_name d"
  "dn_nodeIndex (dn_addParentNode p d) = dn_nodeIndex d"
  "dn_name (dn_addParentNode p d) = dn_name d"
  by (simp_all add: addDaughterNode_def dn_addParentNode_def an_addParentNode_def
      addOutputDataNode_def addInputDataNode_def)

lemma link_cf_ok:
  assumes ok: "graph_ok g" and has: "has_cf g p c"
  shows "graph_ok (link_cf p c g)"
proof -
  let ?g = "link_cf p c g"
  have rel: "outputs_to ?g = outputs_to g" "produced_by ?g = produced_by g"
    "inputs_from ?g = inputs_from g" "consumed_by ?g = consumed_by g"
    by (cases c; auto simp: fun_eq_iff outputs_to_def produced_by_def inputs_from_def
        consumed_by_def graph_simps)+
  have "daughter ?g = parent_of ?g"
    using ok by (intro cf.link_consistent [OF has]) (simp add: graph_ok_def linked_def)
  moreover have "numbered ?g = numbered g" "named ?g = named g"
    using keep_numbers [of "an_addParentNode p" "addDaughterNode c" "ref_name c" p 0 "\<lambda>q. q" g]
      keep_numbers [of "\<lambda>a. a" "addDaughterNode c" "[]" p 0 "\<lambda>q. q" g]
      keep_numbers [of "\<lambda>a. a" "dn_addParentNode p" "[]" "ref_name c" 0 "\<lambda>q. q"
        "upd_hub p (addDaughterNode c) g"]
    by (cases c; simp add: graph_simps)+
  ultimately show ?thesis using ok by (simp add: graph_ok_def linked_def rel)
qed

lemma data_link_ok:
  assumes ok: "graph_ok g" and has: "has_data g n h"
  shows "graph_ok (link_out n h g)" "graph_ok (link_in n h g)"
proof -
  have cf: "parent_of (link_out n h g) p c = parent_of g p c"
    "parent_of (link_in n h g) p c = parent_of g p c" for p c
    by (cases c; auto simp: link_out_def link_in_def graph_simps)+
  have rel: "daughter (link_out n h g) = daughter g" "daughter (link_in n h g) = daughter g"
    "inputs_from (link_out n h g) = inputs_from g" "consumed_by (link_out n h g) = consumed_by g"
    "outputs_to (link_in n h g) = outputs_to g" "produced_by (link_in n h g) = produced_by g"
    by (auto simp: fun_eq_iff daughter_def outputs_to_def produced_by_def inputs_from_def
        consumed_by_def link_out_def link_in_def graph_simps)
  have num: "numbered (link_out n h g) = numbered g" "named (link_out n h g) = named g"
    "numbered (link_in n h g) = numbered g" "named (link_in n h g) = named g"
    using keep_numbers [of "addOutputDataNode h" "\<lambda>d. d" n "[]" h "addProducerNode n" g]
      keep_numbers [of "addInputDataNode h" "\<lambda>d. d" n "[]" h "addConsumerNode n" g]
    by (simp_all add: link_out_def link_in_def graph_simps)
  show "graph_ok (link_out n h g)" "graph_ok (link_in n h g)"
    using ok out.link_consistent [OF has] inp.link_consistent [OF has]
    by (simp_all add: graph_ok_def linked_def rel cf num fun_eq_iff)
qed

section \<open>The operations keep the invariant\<close>

lemma addHeadNode_ok: "graph_ok g \<Longrightarrow> graph_ok (addHeadNode n m g)"
proof (cases "hub_node g n")
  case None
  assume ok: "graph_ok g"
  have "graph_ok (addHeadNode n m g) = graph_ok (with_hub n m g)"
    using None by (intro graph_ok_cong)
      (simp_all add: addHeadNode_def with_hub_def Let_def graph_simps update_absent_append)
  with with_hub_ok [OF ok None] show ?thesis by simp
next
  case (Some d)
  assume "graph_ok g"
  then show ?thesis
    using Some by (simp add: addHeadNode_def graph_ok_cong [of "g\<lparr>g_head := Some n\<rparr>" g])
qed

lemma addAlgorithmNode_cases:
  obtains g' where "graph_ok g \<Longrightarrow> graph_ok g'" "g_hubs g' = g_hubs g"
    "alg_node g' (ga_name algo) \<noteq> None"
    "\<forall>n. n \<noteq> ga_name algo \<longrightarrow> alg_node g' n = alg_node g n"
    "alg_node g (ga_name algo) \<noteq> None \<Longrightarrow> g' = g"
    "addAlgorithmNode algo p inverted allPass g =
      (if hub_node g p \<noteq> None
       then (SUCCESS, bgl_add_edge (ga_name algo) p (link_cf p (Alg_Node (ga_name algo)) g'))
       else (FAILURE, g'))"
proof (cases "alg_node g (ga_name algo)")
  case None
  let ?g = "registerIODataObjects algo ((bgl_add_vertex
      (AlgoProps (algo_props_of algo (g_nodeCounter g) (g_algoCounter g) inverted allPass))
      (g\<lparr>g_algs := g_algs g @ [(ga_name algo, new_algorithm_node algo (g_nodeCounter g)
          (g_algoCounter g) inverted allPass)]\<rparr>))
      \<lparr>g_nodeCounter := Suc (g_nodeCounter g), g_algoCounter := Suc (g_algoCounter g)\<rparr>)"
  have fields: "g_algs ?g = g_algs (with_alg algo inverted allPass g)"
    "g_hubs ?g = g_hubs g" "g_data ?g = g_data g"
    "g_nodeCounter ?g = Suc (g_nodeCounter g)" "g_algoCounter ?g = Suc (g_algoCounter g)"
    by (simp_all add: registerIODataObjects_def with_alg_def graph_simps)
  have "graph_ok ?g = graph_ok (with_alg algo inverted allPass g)"
    by (rule graph_ok_cong) (simp_all add: fields with_alg_def)
  then have "graph_ok g \<Longrightarrow> graph_ok ?g" using with_alg_ok [OF _ None] by simp
  moreover have "addAlgorithmNode algo p inverted allPass g =
      (if hub_node g p \<noteq> None
       then (SUCCESS, bgl_add_edge (ga_name algo) p (link_cf p (Alg_Node (ga_name algo)) ?g))
       else (FAILURE, ?g))"
    using None fields(2)
    by (simp add: addAlgorithmNode_def Let_def update_absent_append graph_simps)
  ultimately show thesis
    using fields None
    by (intro that [of ?g]) (auto simp: with_alg_def map_of_append_absent simp del: map_of_append)
next
  case (Some a)
  then show thesis by (intro that [of g]) (auto simp: addAlgorithmNode_def Let_def)
qed

lemma addAlgorithmNode_ok:
  assumes "graph_ok g"
  shows "graph_ok (snd (addAlgorithmNode algo p inverted allPass g))"
proof (rule addAlgorithmNode_cases [of g algo p inverted allPass])
  fix g'
  assume *: "graph_ok g \<Longrightarrow> graph_ok g'" "g_hubs g' = g_hubs g" "alg_node g' (ga_name algo) \<noteq> None"
    "addAlgorithmNode algo p inverted allPass g =
      (if hub_node g p \<noteq> None
       then (SUCCESS, bgl_add_edge (ga_name algo) p (link_cf p (Alg_Node (ga_name algo)) g'))
       else (FAILURE, g'))"
  show ?thesis
  proof (cases "hub_node g p")
    case None
    with * assms show ?thesis by simp
  next
    case (Some d)
    with * have "has_cf g' p (Alg_Node (ga_name algo))" by (simp add: has_cf_def)
    from link_cf_ok [OF *(1) [OF assms] this] Some *(4) show ?thesis by simp
  qed
qed

lemma addDecisionHubNode_cases:
  obtains g' where "graph_ok g \<Longrightarrow> graph_ok g'" "g_algs g' = g_algs g" "hub_node g' n \<noteq> None"
    "\<forall>x. x \<noteq> n \<longrightarrow> hub_node g' x = hub_node g x"
    "hub_node g n \<noteq> None \<Longrightarrow> g' = g"
    "addDecisionHubNode n p m g =
      (if hub_node g' p \<noteq> None
       then (SUCCESS, bgl_add_edge n p (link_cf p (Hub_Node n) g')) else (FAILURE, g'))"
    "hub_node g n = None \<Longrightarrow> hub_node g' n = Some (new_decision_node n (g_nodeCounter g) m)"
proof (cases "hub_node g n")
  case None
  let ?g = "(bgl_add_vertex (DecisionHubProps
        \<lparr>hp_name = n, hp_nodeIndex = g_nodeCounter g, hp_modes = m\<rparr>)
      (g\<lparr>g_hubs := g_hubs g @ [(n, new_decision_node n (g_nodeCounter g) m)]\<rparr>))
      \<lparr>g_nodeCounter := Suc (g_nodeCounter g)\<rparr>"
  have fields: "g_hubs ?g = g_hubs (with_hub n m g)" "g_algs ?g = g_algs g" "g_data ?g = g_data g"
    "g_nodeCounter ?g = Suc (g_nodeCounter g)" "g_algoCounter ?g = g_algoCounter g"
    by (simp_all add: with_hub_def graph_simps)
  have "graph_ok ?g = graph_ok (with_hub n m g)"
    by (rule graph_ok_cong) (simp_all add: fields with_hub_def)
  then have "graph_ok g \<Longrightarrow> graph_ok ?g" using with_hub_ok [OF _ None] by simp
  moreover have "addDecisionHubNode n p m g =
      (if hub_node ?g p \<noteq> None
       then (SUCCESS, bgl_add_edge n p (link_cf p (Hub_Node n) ?g)) else (FAILURE, ?g))"
    using None
    by (simp add: addDecisionHubNode_def Let_def update_absent_append graph_simps
        map_of_append_absent del: map_of_append)
  ultimately show thesis
    using fields None
    by (intro that [of ?g]) (auto simp: with_hub_def map_of_append_absent simp del: map_of_append)
next
  case (Some a)
  then show thesis by (intro that [of g]) (auto simp: addDecisionHubNode_def Let_def)
qed

lemma addDecisionHubNode_ok:
  assumes "graph_ok g"
  shows "graph_ok (snd (addDecisionHubNode n p m g))"
proof (rule addDecisionHubNode_cases [of g n p m])
  fix g'
  assume *: "graph_ok g \<Longrightarrow> graph_ok g'" "hub_node g' n \<noteq> None"
    "addDecisionHubNode n p m g =
      (if hub_node g' p \<noteq> None
       then (SUCCESS, bgl_add_edge n p (link_cf p (Hub_Node n) g')) else (FAILURE, g'))"
  show ?thesis
  proof (cases "hub_node g' p")
    case None
    with * assms show ?thesis by simp
  next
    case (Some d)
    with * have "has_cf g' p (Hub_Node n)" by (simp add: has_cf_def)
    from link_cf_ok [OF *(1) [OF assms] this] Some *(3) show ?thesis by simp
  qed
qed

text \<open>The data realm: what each step keeps, besides the invariant, is the set of algorithms.\<close>

definition alg_names :: "rules_graph \<Rightarrow> string set" where
  "alg_names g = dom (map_of (g_algs g))"

definition realm_step :: "rules_graph \<Rightarrow> rules_graph \<Rightarrow> bool" where
  "realm_step g g' \<longleftrightarrow> graph_ok g' \<and> alg_names g' = alg_names g"

lemma realm_step_trans: "realm_step g g' \<Longrightarrow> realm_step g' g'' \<Longrightarrow> realm_step g g''"
  by (simp add: realm_step_def)

lemma addDataNode_ok:
  assumes "graph_ok g"
  shows "fst (addDataNode cs d g) = SUCCESS \<and> realm_step g (snd (addDataNode cs d g))
    \<and> data_node_at (snd (addDataNode cs d g)) (doid_hash d) \<noteq> None"
proof (cases "data_node_at g (doid_hash d)")
  case None
  define isCond where "isCond = (g_conditionsRealmEnabled g \<and>
      (case cs of Some cs \<Rightarrow> cs_isRegistered cs d | None \<Rightarrow> False))"
  let ?g = "snd (addDataNode cs d g)"
  have f: "g_algs ?g = g_algs g" "g_hubs ?g = g_hubs g" "g_data ?g = g_data (with_data d isCond g)"
    "g_nodeCounter ?g = g_nodeCounter g" "g_algoCounter ?g = g_algoCounter g"
    using None by (simp_all add: addDataNode_def Let_def isCond_def [symmetric] with_data_def
        graph_simps update_absent_append)
  have "graph_ok ?g = graph_ok (with_data d isCond g)"
    by (rule graph_ok_cong) (simp_all add: f with_data_def)
  then show ?thesis
    using with_data_ok [OF assms None] None f
    by (simp add: realm_step_def alg_names_def with_data_def addDataNode_def Let_def
        map_of_append_absent del: map_of_append)
next
  case (Some e)
  with assms show ?thesis by (simp add: addDataNode_def realm_step_def)
qed

lemma link_realm:
  "graph_ok g \<Longrightarrow> n \<in> alg_names g \<Longrightarrow> data_node_at g h \<noteq> None \<Longrightarrow>
   realm_step g (bgl_add_edge u v (link_out n h g)) \<and> realm_step g (bgl_add_edge u v (link_in n h g))"
  using data_link_ok [of g n h]
  by (auto simp: realm_step_def has_data_def alg_names_def dom_def link_out_def link_in_def
      graph_simps)

lemma link_outputs_Cons:
  "addDataNode cs d g = (SUCCESS, g1) \<Longrightarrow> link_outputs cs n (d # outs) (sc, g) =
   link_outputs cs n outs (sc, bgl_add_edge n (fullKey d) (link_out n (doid_hash d) g1))"
  by (simp add: link_out_def Let_def)

lemma link_outputs_ok:
  "graph_ok g \<Longrightarrow> n \<in> alg_names g \<Longrightarrow>
   fst (link_outputs cs n outs (sc, g)) = sc \<and> realm_step g (snd (link_outputs cs n outs (sc, g)))"
proof (induction outs arbitrary: g)
  case Nil
  then show ?case by (simp add: realm_step_def)
next
  case (Cons d outs)
  let ?g1 = "snd (addDataNode cs d g)"
  let ?g2 = "bgl_add_edge n (fullKey d) (link_out n (doid_hash d) ?g1)"
  have a: "addDataNode cs d g = (SUCCESS, ?g1)" "realm_step g ?g1"
    "data_node_at ?g1 (doid_hash d) \<noteq> None"
    using addDataNode_ok [OF Cons.prems(1), of cs d] by (auto simp: prod_eq_iff)
  with Cons.prems have g2: "realm_step g ?g2"
    using link_realm [of ?g1 n "doid_hash d" n "fullKey d"] by (simp add: realm_step_def)
  with Cons.prems have "fst (link_outputs cs n outs (sc, ?g2)) = sc
      \<and> realm_step ?g2 (snd (link_outputs cs n outs (sc, ?g2)))"
    by (intro Cons.IH) (simp_all add: realm_step_def)
  moreover have "link_outputs cs n (d # outs) (sc, g) = link_outputs cs n outs (sc, ?g2)"
    by (rule link_outputs_Cons [OF a(1)])
  ultimately show ?case using g2 by (auto dest: realm_step_trans)
qed

lemma link_inputs_ok: "graph_ok g \<Longrightarrow> n \<in> alg_names g \<Longrightarrow> realm_step g (link_inputs n ins g)"
proof (induction ins arbitrary: g)
  case Nil
  then show ?case by (simp add: realm_step_def)
next
  case (Cons d ins)
  show ?case
  proof (cases "data_node_at g (doid_hash d)")
    case None
    with Cons show ?thesis by simp
  next
    case (Some e)
    let ?g = "bgl_add_edge (fullKey d) n (link_in n (doid_hash d) g)"
    have g: "realm_step g ?g" using link_realm [of g n "doid_hash d"] Cons.prems Some by simp
    with Cons have "realm_step ?g (link_inputs n ins ?g)"
      by (intro Cons.IH) (simp_all add: realm_step_def)
    with g Some show ?thesis by (auto simp: link_in_def dest: realm_step_trans)
  qed
qed

lemma build_outputs_ok:
  "graph_ok g \<Longrightarrow> set ns \<subseteq> alg_names g \<Longrightarrow>
   (let r = fold (\<lambda>n (sc, g). link_outputs cs n (outputs_of g n) (sc, g)) ns (sc, g)
    in fst r = sc \<and> realm_step g (snd r))"
proof (induction ns arbitrary: g)
  case Nil
  then show ?case by (simp add: realm_step_def)
next
  case (Cons n ns)
  let ?r = "link_outputs cs n (outputs_of g n) (sc, g)"
  have r: "?r = (sc, snd ?r)" "realm_step g (snd ?r)"
    using link_outputs_ok [of g n cs "outputs_of g n" sc] Cons.prems by (auto simp: prod_eq_iff)
  with Cons.prems Cons.IH [of "snd ?r"] show ?case
    by (auto simp: Let_def realm_step_def)
qed

lemma build_inputs_ok:
  "graph_ok g \<Longrightarrow> set ns \<subseteq> alg_names g \<Longrightarrow>
   realm_step g (fold (\<lambda>n g. link_inputs n (inputs_of g n) g) ns g)"
proof (induction ns arbitrary: g)
  case Nil
  then show ?case by (simp add: realm_step_def)
next
  case (Cons n ns)
  have "realm_step g (link_inputs n (inputs_of g n) g)"
    using Cons.prems by (intro link_inputs_ok) auto
  with Cons show ?case by (auto simp: realm_step_def)
qed

lemma buildDataDependenciesRealm_ok:
  assumes "graph_ok g"
  shows "fst (buildDataDependenciesRealm cs g) = SUCCESS
    \<and> graph_ok (snd (buildDataDependenciesRealm cs g))"
proof -
  let ?ns = "sorted_alg_names g"
  let ?r = "fold (\<lambda>n (sc, g). link_outputs cs n (outputs_of g n) (sc, g)) ?ns (SUCCESS, g)"
  have ns: "set ?ns = alg_names g"
    by (simp add: sorted_alg_names_def alg_names_def dom_map_of_conv_image_fst)
  have r: "fst ?r = SUCCESS" "realm_step g (snd ?r)"
    using build_outputs_ok [OF assms, of ?ns cs SUCCESS] ns by (auto simp: Let_def)
  then have "realm_step (snd ?r) (fold (\<lambda>n g. link_inputs n (inputs_of g n) g) ?ns (snd ?r))"
    using ns by (intro build_inputs_ok) (auto simp: realm_step_def)
  with r show ?thesis
    by (simp add: buildDataDependenciesRealm_def Let_def split_beta realm_step_def)
qed

text \<open>Detaching the condition algorithms.\<close>

definition drop_daughter :: "string \<Rightarrow> string \<Rightarrow> rules_graph \<Rightarrow> rules_graph" where
  "drop_daughter n p g = bgl_remove_edge n p
     (upd_hub p (\<lambda>d. d\<lparr>dn_children := removeAll (Alg_Node n) (dn_children d)\<rparr>) g)"

lemma drop_daughters:
  shows "daughter (fold (drop_daughter n) ps g) p c = (daughter g p c \<and> (p \<in> set ps \<longrightarrow> c \<noteq> Alg_Node n))"
    and "g_algs (fold (drop_daughter n) ps g) = g_algs g" and "g_data (fold (drop_daughter n) ps g) = g_data g"
    and "parent_of (fold (drop_daughter n) ps g) p c = parent_of g p c"
    and "numbered (fold (drop_daughter n) ps g) = numbered g" and "named (fold (drop_daughter n) ps g) = named g"
proof -
  have num: "numbered (drop_daughter n p g) = numbered g \<and> named (drop_daughter n p g) = named g"
    for p g
    using keep_numbers [of "\<lambda>a. a" "\<lambda>d. d\<lparr>dn_children := removeAll (Alg_Node n) (dn_children d)\<rparr>"
        "[]" p 0 "\<lambda>q. q" g]
    by (simp add: drop_daughter_def numbered_def named_def node_indices_def algo_indices_def
        graph_simps)
  show "daughter (fold (drop_daughter n) ps g) p c = (daughter g p c \<and> (p \<in> set ps \<longrightarrow> c \<noteq> Alg_Node n))"
    by (induction ps arbitrary: g) (auto simp: daughter_def drop_daughter_def graph_simps)
  show "g_algs (fold (drop_daughter n) ps g) = g_algs g"
    by (induction ps arbitrary: g) (auto simp: drop_daughter_def graph_simps upd_hub_def)
  show "g_data (fold (drop_daughter n) ps g) = g_data g"
    by (induction ps arbitrary: g) (auto simp: drop_daughter_def graph_simps upd_hub_def)
  show "parent_of (fold (drop_daughter n) ps g) p c = parent_of g p c"
    by (induction ps arbitrary: g; cases c) (auto simp: drop_daughter_def graph_simps)
  show "numbered (fold (drop_daughter n) ps g) = numbered g" "named (fold (drop_daughter n) ps g) = named g"
    by (induction ps arbitrary: g) (auto simp: num)
qed

lemma detach_alg_ok:
  assumes "graph_ok g"
  shows "graph_ok (detach_alg n g) \<and>
    (\<forall>p c. daughter (detach_alg n g) p c = (daughter g p c \<and> c \<noteq> Alg_Node n))"
proof (cases "alg_node g n")
  case None
  with assms have "\<not> daughter g p (Alg_Node n)" for p
    by (simp add: graph_ok_def linked_def)
  with None assms show ?thesis by (auto simp: detach_alg_def)
next
  case (Some a)
  let ?h = "fold (drop_daughter n) (an_parents a) g"
  let ?g = "upd_alg n (\<lambda>a. a\<lparr>an_parents := []\<rparr>) ?h"
  have det: "detach_alg n g = ?g"
    using Some by (simp add: detach_alg_def drop_daughter_def [abs_def])
  have par: "daughter g p (Alg_Node n) = (p \<in> set (an_parents a))" for p
    using assms Some by (simp add: graph_ok_def linked_def)
  have an: "alg_node ?h = alg_node g" by (simp add: drop_daughters)
  have d: "daughter ?g p c = (daughter g p c \<and> c \<noteq> Alg_Node n)" for p c
  proof -
    have "daughter ?g p c = daughter ?h p c" by (simp add: daughter_def graph_simps)
    then show ?thesis using par by (auto simp: drop_daughters)
  qed
  have "parent_of ?g p c = (parent_of g p c \<and> c \<noteq> Alg_Node n)" for p c
  proof -
    have "parent_of ?g p c = (parent_of ?h p c \<and> c \<noteq> Alg_Node n)"
      by (cases c) (auto simp: graph_simps)
    then show ?thesis by (simp add: drop_daughters)
  qed
  then have "daughter ?g = parent_of ?g"
    using d assms by (simp add: fun_eq_iff graph_ok_def linked_def)
  moreover have "outputs_to ?g = outputs_to g" "produced_by ?g = produced_by g"
    "inputs_from ?g = inputs_from g" "consumed_by ?g = consumed_by g"
    by (auto simp: fun_eq_iff outputs_to_def produced_by_def inputs_from_def consumed_by_def
        graph_simps drop_daughters an split: if_splits)
  moreover have "numbered ?g" "named ?g"
    using keep_numbers [of "\<lambda>a. a\<lparr>an_parents := []\<rparr>" "\<lambda>d. d" n "[]" 0 "\<lambda>q. q" ?h] assms
    by (simp_all add: drop_daughters graph_ok_def)
  ultimately show ?thesis using assms d by (simp add: det graph_ok_def linked_def)
qed

lemma detach_algs:
  "graph_ok g \<Longrightarrow> graph_ok (fold detach_alg ns g) \<and>
   (\<forall>p n. n \<in> set ns \<longrightarrow> \<not> daughter (fold detach_alg ns g) p (Alg_Node n))"
proof -
  have sub: "graph_ok g \<Longrightarrow> daughter (fold detach_alg ns g) p c \<Longrightarrow> daughter g p c" for p c g ns
  proof (induction ns arbitrary: g)
    case (Cons n ns)
    from Cons.IH [of "detach_alg n g"] Cons.prems detach_alg_ok [of g n] show ?case by simp
  qed simp
  assume "graph_ok g"
  then show ?thesis
  proof (induction ns arbitrary: g)
    case (Cons n ns)
    with detach_alg_ok [OF Cons.prems, of n] sub [of "detach_alg n g" ns] show ?case by auto
  qed simp
qed

lemma graph_initialize_ok:
  assumes "graph_ok g"
  shows "fst (graph_initialize cs g) = SUCCESS \<and> graph_ok (snd (graph_initialize cs g))"
proof (cases cs)
  case None
  with assms buildDataDependenciesRealm_ok [OF assms] show ?thesis
    by (simp add: graph_initialize_def)
next
  case (Some c)
  have "graph_ok (g\<lparr>g_conditionsRealmEnabled := True\<rparr>)"
    using assms graph_ok_cong [of "g\<lparr>g_conditionsRealmEnabled := True\<rparr>" g] by simp
  then have "graph_ok (fold detach_alg (cs_condAlgs c) (g\<lparr>g_conditionsRealmEnabled := True\<rparr>))"
    using detach_algs by blast
  from buildDataDependenciesRealm_ok [OF this] Some show ?thesis
    by (simp add: graph_initialize_def)
qed

section \<open>Building a graph\<close>

datatype build_op =
    Analyse
  | Head string hub_modes
  | Add_alg gaudi_alg string bool bool
  | Add_hub string string hub_modes
  | Initialize "cond_svc option"

fun build_step :: "build_op \<Rightarrow> rules_graph \<Rightarrow> error_code \<times> rules_graph" where
  "build_step Analyse g = (SUCCESS, enableAnalysis g)"
| "build_step (Head n m) g = (SUCCESS, addHeadNode n m g)"
| "build_step (Add_alg a p inverted allPass) g = addAlgorithmNode a p inverted allPass g"
| "build_step (Add_hub n p m) g = addDecisionHubNode n p m g"
| "build_step (Initialize cs) g = graph_initialize cs g"

definition build :: "build_op list \<Rightarrow> rules_graph \<Rightarrow> rules_graph" where
  "build ops g = fold (\<lambda>op g. snd (build_step op g)) ops g"

lemma build_step_ok: "graph_ok g \<Longrightarrow> graph_ok (snd (build_step op g))"
proof (cases op)
  case Analyse
  assume "graph_ok g"
  then show ?thesis using Analyse graph_ok_cong [of "enableAnalysis g" g]
    by (simp add: enableAnalysis_def)
qed (simp_all add: addHeadNode_ok addAlgorithmNode_ok addDecisionHubNode_ok graph_initialize_ok)

lemma build_ok: "graph_ok g \<Longrightarrow> graph_ok (build ops g)"
  by (induction ops arbitrary: g) (simp_all add: build_def build_step_ok)

text \<open>
  C29. However the graph is built, by any sequence of insertions (failed ones included),
  analysis switched on at any point and data realms linked any number of times, the two sides
  of every link agree: a node is a daughter of a hub exactly when the hub is among its parents,
  and an algorithm has an output (input) exactly when the data object has it as producer
  (consumer). The node indices of hubs and algorithms are a numbering of 0 to the node count
  without gaps, and so are the algorithm indices, so that the slots sized by the counters
  have a cell for every node and no two nodes share one.
\<close>

theorem rules_graph_consistent:
  "let g = build ops new_graph
   in daughter g = parent_of g \<and> outputs_to g = produced_by g \<and> inputs_from g = consumed_by g
    \<and> distinct (node_indices g) \<and> set (node_indices g) = {..<g_nodeCounter g}
    \<and> distinct (algo_indices g) \<and> set (algo_indices g) = {..<g_algoCounter g}"
  using build_ok [OF new_graph_ok, of ops]
  by (simp add: Let_def graph_ok_def linked_def numbered_def)

text \<open>
  Linking the data realm always succeeds: two algorithms that declare the same output both
  become its producers, and the branch of the code that reports an extra producer as not
  allowed is never taken, because adding a data node never fails.
\<close>

theorem build_realm_never_fails:
  "fst (graph_initialize cs (build ops new_graph)) = SUCCESS
   \<and> fst (addDataNode cs d (build ops new_graph)) = SUCCESS"
  using graph_initialize_ok [OF build_ok [OF new_graph_ok]] addDataNode_ok [OF build_ok [OF new_graph_ok]]
  by blast

end
