(* ===== verification/Scouts.thy ===== *)
theory Scouts
  imports Graph_Links
begin

text \<open>
  The scouts of GaudiHive/src/PRGraph/Visitors/Validators.h, .cpp: visitors that climb from a
  node towards the roots of the control flow, to find whether a decision may be propagated.
  The climb has no bound in the code; it is modelled with fuel, None standing for a climb that
  has not ended (or for a pointer to a node that does not exist), and a graph with a height
  function bounds it. The outcome is then specified by a path in the graph.
\<close>

section \<open>Loops of the visitors\<close>

text \<open>A loop over nodes without a break, and one that stops at the first result \<open>stop\<close> accepts.\<close>

fun loop_all :: "('a \<Rightarrow> 's \<Rightarrow> 's option) \<Rightarrow> 'a list \<Rightarrow> 's \<Rightarrow> 's option" where
  "loop_all f [] s = Some s"
| "loop_all f (x # xs) s = Option.bind (f x s) (loop_all f xs)"

fun loop_break :: "('a \<Rightarrow> 's \<Rightarrow> 's option) \<Rightarrow> ('s \<Rightarrow> bool) \<Rightarrow> 'a list \<Rightarrow> 's \<Rightarrow> 's option" where
  "loop_break f stop [] s = Some s"
| "loop_break f stop (x # xs) s =
     Option.bind (f x s) (\<lambda>s'. if stop s' then Some s' else loop_break f stop xs s')"

section \<open>The scouts\<close>

text \<open>
  \<open>node_index\<close> of a control flow node; a child is compared with the previous node by name. The
  index read through a pointer to no node is 0 in the model; the invariant of the graph rules
  such pointers out.
\<close>

fun node_index :: "rules_graph \<Rightarrow> cf_ref \<Rightarrow> nat" where
  "node_index g (Alg_Node n) = (case alg_node g n of Some a \<Rightarrow> an_nodeIndex a | None \<Rightarrow> 0)"
| "node_index g (Hub_Node n) = (case hub_node g n of Some d \<Rightarrow> dn_nodeIndex d | None \<Rightarrow> 0)"

fun parents_of :: "rules_graph \<Rightarrow> cf_ref \<Rightarrow> string list" where
  "parents_of g (Alg_Node n) = (case alg_node g n of Some a \<Rightarrow> an_parents a | None \<Rightarrow> [])"
| "parents_of g (Hub_Node n) = (case hub_node g n of Some d \<Rightarrow> dn_parents d | None \<Rightarrow> [])"

text \<open>The loop that looks for an unresolved daughter ahead of the sender in a sequential hub.\<close>

fun out_of_sequence ::
  "rules_graph \<Rightarrow> event_slot \<Rightarrow> slot_ref \<Rightarrow> string \<Rightarrow> cf_ref list \<Rightarrow> bool"
where
  "out_of_sequence g ev r prev [] = False"
| "out_of_sequence g ev r prev (c # cs) =
     (if ref_name c = prev then False
      else if decision_of ev r (node_index g c) = - 1 then True
      else out_of_sequence g ev r prev cs)"

text \<open>\<open>ActiveLineageScout\<close>: the state that survives a visit is \<open>m_active\<close>.\<close>

fun lineage_visit ::
  "nat \<Rightarrow> rules_graph \<Rightarrow> event_slot \<Rightarrow> slot_ref \<Rightarrow> string \<Rightarrow> string \<Rightarrow> bool \<Rightarrow> bool option"
where
  "lineage_visit 0 g ev r node prev active = None"
| "lineage_visit (Suc fuel) g ev r node prev active =
     (case hub_node g node of None \<Rightarrow> None
      | Some d \<Rightarrow>
          if decision_of ev r (dn_nodeIndex d) \<noteq> - 1 then Some False
          else if \<not> dn_modeConcurrent d \<and> out_of_sequence g ev r prev (dn_children d)
          then Some False
          else loop_break (\<lambda>p active. lineage_visit fuel g ev r p (dn_name d) True)
                 (\<lambda>reply. reply) (dn_parents d) active)"

text \<open>
  \<open>SubSlotScout\<close>: the state is \<open>m_active\<close> and \<open>m_foundEntryPoint\<close>; it leaves the sub-slot at
  the node it was entered from, and \<open>reply\<close> asks for both flags.
\<close>

fun subslot_visit ::
  "nat \<Rightarrow> rules_graph \<Rightarrow> event_slot \<Rightarrow> slot_ref \<Rightarrow> string \<Rightarrow> string \<Rightarrow> bool \<times> bool \<Rightarrow>
   (bool \<times> bool) option"
where
  "subslot_visit 0 g ev r node prev s = None"
| "subslot_visit (Suc fuel) g ev r node prev s =
     (case hub_node g node of None \<Rightarrow> None
      | Some d \<Rightarrow>
          if decision_of ev r (dn_nodeIndex d) \<noteq> - 1 then Some (False, snd s)
          else if \<not> dn_modeConcurrent d \<and> out_of_sequence g ev r prev (dn_children d)
          then Some (False, snd s)
          else
            (let exit = (parentSlot r \<noteq> None \<and> entryPoint (slot_at ev r) = dn_name d);
                 r' = (if exit then Top else r);
                 s' = (if exit then (fst s, True) else s)
             in loop_break
                  (\<lambda>p s. subslot_visit fuel g ev r' p (dn_name d) (True, parentSlot r' = None))
                  (\<lambda>s. fst s \<and> snd s) (dn_parents d) s'))"

text \<open>A fresh scout sent to a parent of \<open>node\<close>, and its reply.\<close>

definition lineage_reply ::
  "nat \<Rightarrow> rules_graph \<Rightarrow> event_slot \<Rightarrow> slot_ref \<Rightarrow> string \<Rightarrow> string \<Rightarrow> bool option"
where
  "lineage_reply fuel g ev r node p = lineage_visit fuel g ev r p node True"

definition subslot_reply ::
  "nat \<Rightarrow> rules_graph \<Rightarrow> event_slot \<Rightarrow> slot_ref \<Rightarrow> string \<Rightarrow> string \<Rightarrow> bool option"
where
  "subslot_reply fuel g ev r node p =
     map_option (\<lambda>s. fst s \<and> snd s) (subslot_visit fuel g ev r p node (True, parentSlot r = None))"

section \<open>Specification\<close>

text \<open>
  The sender is in sequence in a hub when the hub is concurrent or every daughter listed before
  the first one of the sender's name is resolved.
\<close>

definition in_sequence ::
  "rules_graph \<Rightarrow> event_slot \<Rightarrow> slot_ref \<Rightarrow> decision_node \<Rightarrow> string \<Rightarrow> bool"
where
  "in_sequence g ev r d prev \<longleftrightarrow> dn_modeConcurrent d \<or>
     (\<forall>c \<in> set (takeWhile (\<lambda>c. ref_name c \<noteq> prev) (dn_children d)).
        decision_of ev r (node_index g c) \<noteq> - 1)"

lemma out_of_sequence_iff:
  "out_of_sequence g ev r prev cs =
     (\<exists>c \<in> set (takeWhile (\<lambda>c. ref_name c \<noteq> prev) cs). decision_of ev r (node_index g c) = - 1)"
  by (induction cs) auto

text \<open>
  A hub is active for a sender when it is undecided, the sender is in sequence, and some chain
  of such hubs leads from it to a hub without parents.
\<close>

inductive active_lineage ::
  "rules_graph \<Rightarrow> event_slot \<Rightarrow> slot_ref \<Rightarrow> string \<Rightarrow> string \<Rightarrow> bool"
  for g ev r
where
  top: "hub_node g h = Some d \<Longrightarrow> decision_of ev r (dn_nodeIndex d) = - 1 \<Longrightarrow>
    in_sequence g ev r d prev \<Longrightarrow> dn_parents d = [] \<Longrightarrow> active_lineage g ev r h prev"
| climb: "hub_node g h = Some d \<Longrightarrow> decision_of ev r (dn_nodeIndex d) = - 1 \<Longrightarrow>
    in_sequence g ev r d prev \<Longrightarrow> p \<in> set (dn_parents d) \<Longrightarrow>
    active_lineage g ev r p (dn_name d) \<Longrightarrow> active_lineage g ev r h prev"

inductive_simps active_lineage_unfold: "active_lineage g ev r h prev"

lemma active_lineage_at:
  assumes "hub_node g h = Some d"
  shows "active_lineage g ev r h prev \<longleftrightarrow>
     decision_of ev r (dn_nodeIndex d) = - 1 \<and> in_sequence g ev r d prev \<and>
     (dn_parents d = [] \<or> (\<exists>p \<in> set (dn_parents d). active_lineage g ev r p (dn_name d)))"
  by (subst active_lineage_unfold) (use assms in \<open>simp; blast\<close>)

text \<open>With views: from a frame \<open>r\<close>, the chain must leave it at the node it was entered from.\<close>

inductive view_lineage ::
  "rules_graph \<Rightarrow> event_slot \<Rightarrow> slot_ref \<Rightarrow> string \<Rightarrow> string \<Rightarrow> bool"
  for g ev
where
  vtop: "hub_node g h = Some d \<Longrightarrow> decision_of ev r (dn_nodeIndex d) = - 1 \<Longrightarrow>
    in_sequence g ev r d prev \<Longrightarrow> dn_parents d = [] \<Longrightarrow>
    r = Top \<or> entryPoint (slot_at ev r) = dn_name d \<Longrightarrow> view_lineage g ev r h prev"
| vclimb: "hub_node g h = Some d \<Longrightarrow> decision_of ev r (dn_nodeIndex d) = - 1 \<Longrightarrow>
    in_sequence g ev r d prev \<Longrightarrow> p \<in> set (dn_parents d) \<Longrightarrow>
    r' = (if entryPoint (slot_at ev r) = dn_name d then Top else r) \<Longrightarrow>
    view_lineage g ev r' p (dn_name d) \<Longrightarrow> view_lineage g ev r h prev"

inductive_simps view_lineage_unfold: "view_lineage g ev r h prev"

lemma view_lineage_at:
  assumes "hub_node g h = Some d"
  shows "view_lineage g ev r h prev \<longleftrightarrow>
     decision_of ev r (dn_nodeIndex d) = - 1 \<and> in_sequence g ev r d prev \<and>
     (if dn_parents d = [] then r = Top \<or> entryPoint (slot_at ev r) = dn_name d
      else \<exists>p \<in> set (dn_parents d). view_lineage g ev
        (if entryPoint (slot_at ev r) = dn_name d then Top else r) p (dn_name d))"
  by (subst view_lineage_unfold) (use assms in \<open>simp; blast\<close>)

section \<open>Heights\<close>

text \<open>
  A height of the control flow: every hub is higher than its daughters. A graph whose hubs
  form a cycle has none, and the code does not terminate on it.
\<close>

definition cf_height :: "rules_graph \<Rightarrow> (cf_ref \<Rightarrow> nat) \<Rightarrow> nat \<Rightarrow> bool" where
  "cf_height g \<rho> R \<longleftrightarrow>
     (\<forall>h d. hub_node g h = Some d \<longrightarrow>
        \<rho> (Hub_Node h) \<le> R \<and> (\<forall>c \<in> set (dn_children d). \<rho> c < \<rho> (Hub_Node h)))"

lemma height_parent:
  assumes "graph_ok g" and "cf_height g \<rho> R" and "hub_node g h = Some d" and "p \<in> set (dn_parents d)"
  shows "\<rho> (Hub_Node h) < \<rho> (Hub_Node p) \<and> \<rho> (Hub_Node p) \<le> R \<and> hub_node g p \<noteq> None"
proof -
  have "parent_of g p (Hub_Node h)" using assms by simp
  then have "daughter g p (Hub_Node h)" using assms(1) by (simp add: graph_ok_def linked_def)
  with assms(2) show ?thesis by (auto simp: daughter_def cf_height_def)
qed

lemma height_le: "cf_height g \<rho> R \<Longrightarrow> hub_node g h \<noteq> None \<Longrightarrow> \<rho> (Hub_Node h) \<le> R"
  by (auto simp: cf_height_def)

lemma loop_break_search:
  assumes "\<And>x s. x \<in> set xs \<Longrightarrow> \<exists>s'. f x s = Some s' \<and> stop s' = P x"
  shows "\<exists>s'. loop_break f stop xs s = Some s' \<and>
    stop s' = (if xs = [] then stop s else \<exists>x \<in> set xs. P x)"
  using assms
proof (induction xs arbitrary: s)
  case (Cons x xs)
  from Cons.prems obtain s' where s': "f x s = Some s'" "stop s' = P x" by auto
  show ?case
  proof (cases "P x")
    case True
    with s' show ?thesis by auto
  next
    case False
    from Cons obtain s'' where "loop_break f stop xs s' = Some s''"
      "stop s'' = (if xs = [] then stop s' else \<exists>x \<in> set xs. P x)" by force
    with s' False show ?thesis by auto
  qed
qed simp

lemma in_sequence_iff:
  "in_sequence g ev r d prev \<longleftrightarrow>
     \<not> (\<not> dn_modeConcurrent d \<and> out_of_sequence g ev r prev (dn_children d))"
  by (auto simp: in_sequence_def out_of_sequence_iff)

lemma lineage_visit_spec:
  assumes ok: "graph_ok g" and ht: "cf_height g \<rho> R"
  shows "hub_node g h \<noteq> None \<Longrightarrow> R < fuel + \<rho> (Hub_Node h) \<Longrightarrow>
    lineage_visit fuel g ev r h prev True = Some (active_lineage g ev r h prev)"
proof (induction fuel arbitrary: h prev)
  case 0
  then show ?case using height_le [OF ht] by force
next
  case (Suc fuel)
  then obtain d where d: "hub_node g h = Some d" by auto
  have parents: "lineage_visit fuel g ev r p (dn_name d) True =
      Some (active_lineage g ev r p (dn_name d))" if "p \<in> set (dn_parents d)" for p
    using height_parent [OF ok ht d that] Suc.prems by (intro Suc.IH) auto
  have "\<exists>s'. loop_break (\<lambda>p active. lineage_visit fuel g ev r p (dn_name d) True) (\<lambda>reply. reply)
        (dn_parents d) True = Some s' \<and>
      s' = (if dn_parents d = [] then True
            else \<exists>p \<in> set (dn_parents d). active_lineage g ev r p (dn_name d))"
    by (rule loop_break_search [where stop = "\<lambda>reply. reply"]) (use parents in auto)
  then show ?case
    using d by (auto simp: active_lineage_at [OF d] in_sequence_iff)
qed

lemma subslot_visit_spec:
  assumes ok: "graph_ok g" and ht: "cf_height g \<rho> R"
  shows "hub_node g h \<noteq> None \<Longrightarrow> R < fuel + \<rho> (Hub_Node h) \<Longrightarrow>
    \<exists>s. subslot_visit fuel g ev r h prev (True, parentSlot r = None) = Some s \<and>
        (fst s \<and> snd s \<longleftrightarrow> view_lineage g ev r h prev)"
proof (induction fuel arbitrary: h prev r)
  case 0
  then show ?case using height_le [OF ht] by force
next
  case (Suc fuel)
  then obtain d where d: "hub_node g h = Some d" by auto
  define exit where "exit = (parentSlot r \<noteq> None \<and> entryPoint (slot_at ev r) = dn_name d)"
  define r' where "r' = (if exit then Top else r)"
  have r': "r' = (if entryPoint (slot_at ev r) = dn_name d then Top else r)"
    by (cases r) (auto simp: r'_def exit_def)
  have s': "(if exit then (True, True) else (True, parentSlot r = None)) =
      (True, r = Top \<or> entryPoint (slot_at ev r) = dn_name d)"
    by (cases r) (auto simp: exit_def)
  let ?s0 = "(True, r = Top \<or> entryPoint (slot_at ev r) = dn_name d)"
  have parents: "\<exists>s'. subslot_visit fuel g ev r' p (dn_name d) (True, parentSlot r' = None) = Some s' \<and>
      (fst s' \<and> snd s') = view_lineage g ev r' p (dn_name d)" if "p \<in> set (dn_parents d)" for p
    using height_parent [OF ok ht d that] Suc.prems by (intro Suc.IH) auto
  have "\<exists>s'. loop_break (\<lambda>p s. subslot_visit fuel g ev r' p (dn_name d)
          (True, parentSlot r' = None)) (\<lambda>s. fst s \<and> snd s) (dn_parents d) ?s0 = Some s' \<and>
      (fst s' \<and> snd s') = (if dn_parents d = [] then fst ?s0 \<and> snd ?s0
         else \<exists>p \<in> set (dn_parents d). view_lineage g ev r' p (dn_name d))"
    by (rule loop_break_search [where stop = "\<lambda>s. fst s \<and> snd s"]) (rule parents)
  moreover have "subslot_visit (Suc fuel) g ev r h prev (True, parentSlot r = None) =
      (if decision_of ev r (dn_nodeIndex d) \<noteq> - 1 \<or> \<not> in_sequence g ev r d prev
       then Some (False, parentSlot r = None)
       else loop_break (\<lambda>p s. subslot_visit fuel g ev r' p (dn_name d)
          (True, parentSlot r' = None)) (\<lambda>s. fst s \<and> snd s) (dn_parents d) ?s0)"
    unfolding s' [symmetric] by (simp add: d in_sequence_iff r'_def exit_def Let_def)
  ultimately show ?case
    unfolding view_lineage_at [OF d] r' [symmetric]
    by (cases "decision_of ev r (dn_nodeIndex d) \<noteq> - 1 \<or> \<not> in_sequence g ev r d prev") auto
qed

text \<open>
  C30. The scouts end on every consistent graph that has a height, and tell the truth: an
  \<open>ActiveLineageScout\<close> sent from a node to one of its parents replies that the parent is active
  exactly when a chain of undecided hubs, in each of which the sender is in sequence, leads from
  it to a root; a \<open>SubSlotScout\<close> asks also that the chain leaves the sub-slot at the node the
  view was entered from. Fuel above the height of the graph is always enough.
\<close>

theorem scouts_find_active_lineage:
  assumes "cf_height (build ops new_graph) \<rho> R" and "hub_node (build ops new_graph) p \<noteq> None"
    and "R < fuel"
  shows "lineage_reply fuel (build ops new_graph) ev r node p
      = Some (active_lineage (build ops new_graph) ev r p node)
    \<and> subslot_reply fuel (build ops new_graph) ev r node p
      = Some (view_lineage (build ops new_graph) ev r p node)"
proof -
  let ?g = "build ops new_graph"
  have ok: "graph_ok ?g" by (rule build_ok [OF new_graph_ok])
  have fuel: "R < fuel + \<rho> (Hub_Node p)" using assms(3) by simp
  obtain s where "subslot_visit fuel ?g ev r p node (True, parentSlot r = None) = Some s"
    "(fst s \<and> snd s) = view_lineage ?g ev r p node"
    using subslot_visit_spec [OF ok assms(1,2) fuel] by blast
  with lineage_visit_spec [OF ok assms(1,2) fuel] show ?thesis
    by (simp add: lineage_reply_def subslot_reply_def)
qed

text \<open>A small graph for the witnesses: a root and one sequential hub below it.\<close>

definition example_modes :: hub_modes where
  "example_modes = \<lparr>modeConcurrent = False, modePromptDecision = False, modeOR = False,
     allPassMode = False, invertedMode = False\<rparr>"

definition example_ops :: "build_op list" where
  "example_ops = [Head ''root'' example_modes, Add_hub ''seq'' ''root'' example_modes]"

lemma example_hubs:
  "g_hubs (build example_ops new_graph) =
     [(''root'', (new_decision_node ''root'' 0 example_modes)\<lparr>dn_children := [Hub_Node ''seq'']\<rparr>),
      (''seq'', (new_decision_node ''seq'' 1 example_modes)\<lparr>dn_parents := [''root'']\<rparr>)]"
  by code_simp

lemma example_height:
  "cf_height (build example_ops new_graph)
     (\<lambda>c. case c of Hub_Node n \<Rightarrow> if n = ''root'' then 1 else 0 | Alg_Node n \<Rightarrow> 0) 1"
  by (auto simp: cf_height_def example_hubs new_decision_node_def split: if_splits)

theorem scouts_find_active_lineage_witness:
  "lineage_reply 2 (build example_ops new_graph) (new_slot 0 2) Top ''alg'' ''seq'' =
     Some (active_lineage (build example_ops new_graph) (new_slot 0 2) Top ''seq'' ''alg'')"
  using scouts_find_active_lineage [OF example_height, of "''seq''" 2 "new_slot 0 2" Top "''alg''"]
  by (simp add: example_hubs)

end
