(* ===== verification/Promoters.thy ===== *)
theory Promoters
  imports Scouts
begin

text \<open>
  The visitors of GaudiHive/src/PRGraph/Visitors/Promoters.h, .cpp that move an event forward:
  \<open>DataReadyPromoter\<close>, \<open>DecisionUpdater\<close> and \<open>Supervisor\<close>, with the \<open>accept\<close> methods of the
  nodes, and \<open>PrecedenceSvc::iterate\<close>, which starts them. The visitors call each other through
  \<open>accept\<close>, up and down the graph; each function takes the recursive call as an argument and
  \<open>sup_accept\<close> ties the knot with fuel. None stands for a run that has not ended, for a
  lookup that throws and for a dereferenced null pointer.
\<close>

section \<open>State and environment\<close>

datatype cause_source = Root | Task

record cause =
  c_source :: cause_source
  c_sourceName :: string

text \<open>The precedence trace: vertices with name, index and rank, and the map from names.\<close>

record prec_trace =
  pt_vertices :: "(string \<times> int \<times> int) list"
  pt_edges :: "(nat \<times> nat) list"
  pt_map :: "(string \<times> nat) list"

definition trace_vertex :: "string \<Rightarrow> int \<Rightarrow> int \<Rightarrow> prec_trace \<Rightarrow> nat \<times> prec_trace" where
  "trace_vertex name index rank t =
     (case map_of (pt_map t) name of
        Some v \<Rightarrow> (v, t)
      | None \<Rightarrow>
          (let v = length (pt_vertices t)
           in (v, t\<lparr>pt_vertices := pt_vertices t @ [(name, index, rank)],
                    pt_map := AList.update name v (pt_map t)\<rparr>)))"

definition addEdgeToPrecTrace ::
  "algorithm_node option \<Rightarrow> algorithm_node \<Rightarrow> prec_trace \<Rightarrow> prec_trace"
where
  "addEdgeToPrecTrace u v t =
     (let (source, t) = (case u of
            None \<Rightarrow> trace_vertex ''ENTRY'' (- 1) (- 1) t
          | Some a \<Rightarrow> trace_vertex (ga_name (an_algorithm a)) (int (an_algoIndex a)) (an_rank a) t);
          (target, t) =
            trace_vertex (ga_name (an_algorithm v)) (int (an_algoIndex v)) (an_rank v) t
      in t\<lparr>pt_edges := pt_edges t @ [(source, target)]\<rparr>)"

record vstate =
  v_ev :: event_slot
  v_trace :: prec_trace

record venv =
  e_graph :: rules_graph
  e_cond :: cond_svc
  e_cause :: cause
  e_trace :: bool
  e_scoutFuel :: nat

type_synonym accept_fun = "slot_ref \<Rightarrow> cf_ref \<Rightarrow> vstate \<Rightarrow> (bool \<times> vstate) option"

definition put_state :: "slot_ref \<Rightarrow> nat \<Rightarrow> exec_state \<Rightarrow> vstate \<Rightarrow> vstate" where
  "put_state r a st s = s\<lparr>v_ev := set_alg_state r a st (v_ev s)\<rparr>"

definition put_decision :: "slot_ref \<Rightarrow> nat \<Rightarrow> int \<Rightarrow> vstate \<Rightarrow> vstate" where
  "put_decision r n d s = s\<lparr>v_ev := set_decision r n d (v_ev s)\<rparr>"

section \<open>DataReadyPromoter\<close>

text \<open>\<open>visit(DataNode)\<close>: some producer has been executed in this slot.\<close>

definition producer_done :: "rules_graph \<Rightarrow> event_slot \<Rightarrow> slot_ref \<Rightarrow> string \<Rightarrow> bool" where
  "producer_done g ev r n =
     (case alg_node g n of
        Some a \<Rightarrow> alg_state_of ev r (an_algoIndex a) = EVTACCEPTED \<or>
                  alg_state_of ev r (an_algoIndex a) = EVTREJECTED
      | None \<Rightarrow> False)"

definition data_visit :: "rules_graph \<Rightarrow> event_slot \<Rightarrow> slot_ref \<Rightarrow> data_node \<Rightarrow> bool" where
  "data_visit g ev r d \<longleftrightarrow> list_ex (producer_done g ev r) (da_producers d)"

text \<open>\<open>accept\<close> of a data or condition node by the promoter.\<close>

definition drp_accept_data ::
  "accept_fun \<Rightarrow> venv \<Rightarrow> slot_ref \<Rightarrow> u64 \<Rightarrow> vstate \<Rightarrow> (bool \<times> vstate) option"
where
  "drp_accept_data rec env r h s =
     (case data_node_at (e_graph env) h of
        None \<Rightarrow> None
      | Some d \<Rightarrow>
          if da_condition d
          then (case eventContext (slot_at (v_ev s) r) of
                  None \<Rightarrow> None
                | Some ctx \<Rightarrow>
                    if cs_isValidID (e_cond env) ctx (da_id d) then Some (True, s)
                    else map_option (\<lambda>s. (False, s))
                           (loop_all (\<lambda>p s. map_option snd (rec r (Alg_Node p) s))
                             (da_producers d) s))
          else Some (data_visit (e_graph env) (v_ev s) r d, s))"

definition drp_visit_alg ::
  "accept_fun \<Rightarrow> venv \<Rightarrow> slot_ref \<Rightarrow> string \<Rightarrow> vstate \<Rightarrow> (bool \<times> vstate) option"
where
  "drp_visit_alg rec env r n s =
     (case alg_node (e_graph env) n of
        None \<Rightarrow> None
      | Some a \<Rightarrow>
          Option.bind
            (loop_break (\<lambda>h p. drp_accept_data rec env r h (snd p)) (\<lambda>p. \<not> fst p)
               (an_inputs a) (True, s))
            (\<lambda>p. let s = snd p in
               if \<not> fst p then Some (False, s)
               else
                 (let s = put_state r (an_algoIndex a) DATAREADY s in
                  if \<not> e_trace env then Some (True, s)
                  else if c_source (e_cause env) = Task
                  then (case alg_node (e_graph env) (c_sourceName (e_cause env)) of
                          None \<Rightarrow> None
                        | Some u \<Rightarrow>
                            Some (True, s\<lparr>v_trace := addEdgeToPrecTrace (Some u) a (v_trace s)\<rparr>))
                  else Some (True, s\<lparr>v_trace := addEdgeToPrecTrace None a (v_trace s)\<rparr>))))"

definition drp_accept_alg ::
  "accept_fun \<Rightarrow> venv \<Rightarrow> slot_ref \<Rightarrow> string \<Rightarrow> vstate \<Rightarrow> (bool \<times> vstate) option"
where
  "drp_accept_alg rec env r n s =
     (case alg_node (e_graph env) n of
        None \<Rightarrow> None
      | Some a \<Rightarrow>
          if alg_state_of (v_ev s) r (an_algoIndex a) = CONTROLREADY
          then map_option (\<lambda>p. (True, snd p)) (drp_visit_alg rec env r n s)
          else Some (False, s))"

section \<open>Supervisor\<close>

text \<open>The flags collected while monitoring the children of a hub.\<close>

record child_scan =
  foundNonResolvedChild :: bool
  foundNegativeChild :: bool
  foundPositiveChild :: bool
  scanDecision :: int
  breakout :: bool

definition scan_start :: child_scan where
  "scan_start = \<lparr>foundNonResolvedChild = False, foundNegativeChild = False,
     foundPositiveChild = False, scanDecision = - 1, breakout = False\<rparr>"

definition scan_child :: "decision_node \<Rightarrow> int \<Rightarrow> child_scan \<Rightarrow> child_scan" where
  "scan_child d childDecision c =
     (let c = (if childDecision = - 1 then c\<lparr>foundNonResolvedChild := True\<rparr>
               else if childDecision = 1 then c\<lparr>foundPositiveChild := True\<rparr>
               else c\<lparr>foundNegativeChild := True\<rparr>)
      in if dn_modePromptDecision d
         then (if dn_modeOR d \<and> foundPositiveChild c then c\<lparr>scanDecision := 1, breakout := True\<rparr>
               else if \<not> dn_modeOR d \<and> foundNegativeChild c
               then c\<lparr>scanDecision := 0, breakout := True\<rparr>
               else c)
         else (if foundNonResolvedChild c then c\<lparr>breakout := True\<rparr> else c))"

fun scan_children :: "decision_node \<Rightarrow> int list \<Rightarrow> child_scan \<Rightarrow> child_scan" where
  "scan_children d [] c = c"
| "scan_children d (x # xs) c =
     (let c = scan_child d x c in if breakout c then c else scan_children d xs c)"

definition daughter_decisions ::
  "rules_graph \<Rightarrow> event_slot \<Rightarrow> slot_ref \<Rightarrow> decision_node \<Rightarrow> int list"
where
  "daughter_decisions g ev r d = map (\<lambda>c. decision_of ev r (node_index g c)) (dn_children d)"

fun scan_views ::
  "rules_graph \<Rightarrow> event_slot \<Rightarrow> decision_node \<Rightarrow> nat list \<Rightarrow> child_scan \<Rightarrow> child_scan"
where
  "scan_views g ev d [] c = c"
| "scan_views g ev d (slotIndex # is) c =
     (let c = scan_children d (daughter_decisions g ev (Sub slotIndex) d) c
      in if breakout c then c else scan_views g ev d is c)"

text \<open>The decision of a hub from the flags: aggregation, inversion, all-pass.\<close>

definition hub_decision :: "decision_node \<Rightarrow> child_scan \<Rightarrow> int" where
  "hub_decision d c =
     (let decision = scanDecision c;
          decision =
            (if \<not> foundNonResolvedChild c \<and> decision = - 1
             then (if dn_modeOR d then (if foundPositiveChild c then 1 else 0)
                   else (if foundNegativeChild c then 0 else 1))
             else decision);
          decision =
            (if dn_inverted d \<and> decision = 1 then 0
             else if dn_inverted d \<and> decision = 0 then 1 else decision)
      in if dn_allPass d \<and> \<not> foundNonResolvedChild c then 1 else decision)"

definition views_at :: "event_slot \<Rightarrow> slot_ref \<Rightarrow> string \<Rightarrow> nat list option" where
  "views_at ev r n = map_of (subSlotsByNode (slot_at ev r)) n"

definition monitor_children ::
  "rules_graph \<Rightarrow> event_slot \<Rightarrow> slot_ref \<Rightarrow> decision_node \<Rightarrow> child_scan"
where
  "monitor_children g ev r d =
     (case views_at ev r (dn_name d) of
        Some is \<Rightarrow> scan_views g ev d is scan_start
      | None \<Rightarrow> scan_children d (daughter_decisions g ev r d) scan_start)"

text \<open>
  Propagation of a decision to the parents of a node, common to \<open>DecisionUpdater\<close> and
  \<open>Supervisor\<close>: the only parent, or every parent for which a scout finds an active lineage.
\<close>

definition send_up ::
  "accept_fun \<Rightarrow> venv \<Rightarrow> slot_ref \<Rightarrow> string \<Rightarrow> string list \<Rightarrow> vstate \<Rightarrow> vstate option"
where
  "send_up rec env r node parents s =
     (if length parents = 1 then map_option snd (rec r (Hub_Node (parents ! 0)) s)
      else
        loop_all
          (\<lambda>p s. Option.bind
             ((if parentSlot r \<noteq> None then subslot_reply else lineage_reply)
                (e_scoutFuel env) (e_graph env) (v_ev s) r node p)
             (\<lambda>reply. if reply then map_option snd (rec r (Hub_Node p) s) else Some s))
          parents s)"

text \<open>The request for further information downwards, in one slot.\<close>

definition ask_children ::
  "accept_fun \<Rightarrow> slot_ref \<Rightarrow> decision_node \<Rightarrow> vstate \<Rightarrow> vstate option"
where
  "ask_children rec r d s =
     map_option snd
       (loop_break
          (\<lambda>child p. map_option
             (\<lambda>q. ((\<not> dn_modeConcurrent d \<and> fst q) \<or>
                   (dn_modePromptDecision d \<and>
                    decision_of (v_ev (snd q)) r (dn_nodeIndex d) > - 1), snd q))
             (rec r child (snd p)))
          fst (dn_children d) (False, s))"

definition sup_visit_hub ::
  "accept_fun \<Rightarrow> venv \<Rightarrow> slot_ref \<Rightarrow> decision_node \<Rightarrow> vstate \<Rightarrow> (bool \<times> vstate) option"
where
  "sup_visit_hub rec env r0 d s =
     (let exit = (parentSlot r0 \<noteq> None \<and> entryPoint (slot_at (v_ev s) r0) = dn_name d);
          r = (if exit then Top else r0);
          decision = hub_decision d (monitor_children (e_graph env) (v_ev s) r d)
      in if decision \<noteq> - 1
         then map_option (\<lambda>s. (True, s))
                (send_up rec env r (dn_name d) (dn_parents d)
                  (put_decision r (dn_nodeIndex d) decision s))
         else map_option (\<lambda>s. (False, s))
                (case views_at (v_ev s) r (dn_name d) of
                   Some is \<Rightarrow> loop_all (\<lambda>i s. ask_children rec (Sub i) d s) is s
                 | None \<Rightarrow> ask_children rec r d s))"

definition sup_visit_alg ::
  "accept_fun \<Rightarrow> venv \<Rightarrow> slot_ref \<Rightarrow> string \<Rightarrow> algorithm_node \<Rightarrow> vstate \<Rightarrow>
   (bool \<times> vstate) option"
where
  "sup_visit_alg rec env r n a s =
     (let s = (if alg_state_of (v_ev s) r (an_algoIndex a) = INITIAL
               then put_state r (an_algoIndex a) CONTROLREADY s else s)
      in if alg_state_of (v_ev s) r (an_algoIndex a) = CONTROLREADY
         then drp_visit_alg rec env r n s
         else Some (True, s))"

text \<open>\<open>accept(Supervisor)\<close> of a control flow node.\<close>

fun sup_accept_node :: "accept_fun \<Rightarrow> venv \<Rightarrow> accept_fun" where
  "sup_accept_node rec env r (Alg_Node n) s =
     (case alg_node (e_graph env) n of
        None \<Rightarrow> None
      | Some a \<Rightarrow>
          if decision_of (v_ev s) r (an_nodeIndex a) \<noteq> - 1 then Some (False, s)
          else map_option (\<lambda>p. (True, snd p)) (sup_visit_alg rec env r n a s))"
| "sup_accept_node rec env r (Hub_Node n) s =
     (case hub_node (e_graph env) n of
        None \<Rightarrow> None
      | Some d \<Rightarrow>
          if decision_of (v_ev s) r (dn_nodeIndex d) \<noteq> - 1 then Some (False, s)
          else map_option (\<lambda>p. (\<not> fst p, snd p)) (sup_visit_hub rec env r d s))"

fun sup_accept :: "nat \<Rightarrow> venv \<Rightarrow> accept_fun" where
  "sup_accept 0 env = (\<lambda>r c s. None)"
| "sup_accept (Suc fuel) env = sup_accept_node (sup_accept fuel env) env"

section \<open>DecisionUpdater\<close>

definition algorithm_decision :: "algorithm_node \<Rightarrow> exec_state \<Rightarrow> int" where
  "algorithm_decision a state =
     (if an_allPass a then 1
      else if state = EVTACCEPTED then of_bool (\<not> an_inverted a)
      else if state = EVTREJECTED then of_bool (an_inverted a)
      else - 1)"

definition updater_visit ::
  "nat \<Rightarrow> venv \<Rightarrow> slot_ref \<Rightarrow> string \<Rightarrow> vstate \<Rightarrow> (bool \<times> vstate) option"
where
  "updater_visit fuel env r n s =
     (case alg_node (e_graph env) n of
        None \<Rightarrow> None
      | Some a \<Rightarrow>
          (let decision = algorithm_decision a (alg_state_of (v_ev s) r (an_algoIndex a))
           in if decision = - 1 then Some (False, s)
              else
                Option.bind
                  (loop_all
                     (\<lambda>h s. case data_node_at (e_graph env) h of
                        None \<Rightarrow> None
                      | Some d \<Rightarrow>
                          loop_all (\<lambda>c s. map_option snd
                              (drp_accept_alg (sup_accept fuel env) env r c s))
                            (da_consumers d) s)
                     (an_outputs a) (put_decision r (an_nodeIndex a) decision s))
                  (\<lambda>s. map_option (\<lambda>s. (True, s))
                     (send_up (sup_accept fuel env) env r n (an_parents a) s))))"

section \<open>PrecedenceSvc::iterate\<close>

text \<open>
  Bottom-up from the algorithm that caused the update, or top-down from the head. The dumps of
  the trace and of the rules to files, when the root is resolved, are left out.
\<close>

definition iterate :: "nat \<Rightarrow> venv \<Rightarrow> slot_ref \<Rightarrow> vstate \<Rightarrow> (error_code \<times> vstate) option" where
  "iterate fuel env r s =
     (if c_source (e_cause env) = Task
      then map_option (\<lambda>p. (SUCCESS, snd p)) (updater_visit fuel env r (c_sourceName (e_cause env)) s)
      else
        (case g_head (e_graph env) of
           None \<Rightarrow> None
         | Some h \<Rightarrow> map_option (\<lambda>p. (SUCCESS, snd p)) (sup_accept fuel env r (Hub_Node h) s)))"

definition CFRulesResolved :: "rules_graph \<Rightarrow> event_slot \<Rightarrow> bool option" where
  "CFRulesResolved g ev =
     (case g_head g of
        None \<Rightarrow> None
      | Some h \<Rightarrow> (case hub_node g h of
            None \<Rightarrow> None
          | Some d \<Rightarrow> Some (decision_of ev Top (dn_nodeIndex d) \<noteq> - 1)))"

end
