(* ===== verification/Hub_Decisions.thy ===== *)
theory Hub_Decisions
  imports Promoters
begin

text \<open>
  What a decision hub decides: the loops of \<open>Supervisor::visit(DecisionNode)\<close> over the children,
  in one slot or in all views of the hub, against the conjunction and disjunction of
  three-valued logic.
\<close>

section \<open>Specification\<close>

text \<open>The daughter decisions a hub looks at: its own slot's, or those of all its views.\<close>

definition monitored :: "rules_graph \<Rightarrow> event_slot \<Rightarrow> slot_ref \<Rightarrow> decision_node \<Rightarrow> int list" where
  "monitored g ev r d =
     (case views_at ev r (dn_name d) of
        Some is \<Rightarrow> concat (map (\<lambda>i. daughter_decisions g ev (Sub i) d) is)
      | None \<Rightarrow> daughter_decisions g ev r d)"

text \<open>The value that decides at once: true for a disjunction, false for a conjunction.\<close>

definition decisive :: "decision_node \<Rightarrow> int" where
  "decisive d = (if dn_modeOR d then 1 else 0)"

text \<open>
  Three-valued or/and with -1 for unknown. A hub that is not prompt waits for all children; a
  prompt one decides as soon as the logic allows.
\<close>

definition kleene :: "decision_node \<Rightarrow> int list \<Rightarrow> int" where
  "kleene d xs =
     (if decisive d \<in> set xs \<and> (dn_modePromptDecision d \<or> - 1 \<notin> set xs) then decisive d
      else if - 1 \<in> set xs then - 1
      else 1 - decisive d)"

definition invert :: "decision_node \<Rightarrow> int \<Rightarrow> int" where
  "invert d x = (if dn_inverted d \<and> x \<noteq> - 1 then 1 - x else x)"

text \<open>The children a prompt hub looks at end before the first decisive one.\<close>

definition seen :: "decision_node \<Rightarrow> int list \<Rightarrow> int list" where
  "seen d xs = (if dn_modePromptDecision d then takeWhile (\<lambda>x. x \<noteq> decisive d) xs else xs)"

section \<open>The loops\<close>

definition tri :: "int \<Rightarrow> bool" where
  "tri x \<longleftrightarrow> x \<in> {- 1, 0, 1}"

lemma scan_append:
  "scan_children d (xs @ ys) c =
     (let c' = scan_children d xs c
      in if breakout c' \<and> xs \<noteq> [] then c' else scan_children d ys c')"
  by (induction xs arbitrary: c) (auto simp: Let_def)

lemma scan_views_concat:
  "\<not> breakout c \<Longrightarrow> scan_views g ev d is c =
     scan_children d (concat (map (\<lambda>i. daughter_decisions g ev (Sub i) d) is)) c"
proof (induction "is" arbitrary: c)
  case (Cons i "is")
  let ?xs = "daughter_decisions g ev (Sub i) d"
  show ?case
  proof (cases "breakout (scan_children d ?xs c)")
    case True
    with Cons.prems have "?xs \<noteq> []" by auto
    with True show ?thesis by (simp add: scan_append Let_def)
  next
    case False
    with Cons show ?thesis by (simp add: scan_append Let_def)
  qed
qed simp

lemma monitor_children_scan:
  "monitor_children g ev r d = scan_children d (monitored g ev r d) scan_start"
  by (auto simp: monitor_children_def monitored_def scan_views_concat scan_start_def
      split: option.splits)

text \<open>What the flags hold at the end of the loop.\<close>

lemma scan_prompt:
  assumes "dn_modePromptDecision d" and "\<forall>x \<in> set xs. tri x"
    and "\<not> breakout c" and "scanDecision c = - 1" and "if dn_modeOR d then \<not> foundPositiveChild c else \<not> foundNegativeChild c"
  shows "scanDecision (scan_children d xs c) = (if decisive d \<in> set xs then decisive d else - 1)
    \<and> foundNonResolvedChild (scan_children d xs c)
        = (foundNonResolvedChild c \<or> - 1 \<in> set (seen d xs))
    \<and> (decisive d \<notin> set xs \<longrightarrow>
        (if dn_modeOR d then \<not> foundPositiveChild (scan_children d xs c)
         else \<not> foundNegativeChild (scan_children d xs c)))"
  using assms(2-5)
proof (induction xs arbitrary: c)
  case (Cons x xs)
  let ?c = "scan_child d x c"
  show ?case
  proof (cases "x = decisive d")
    case True
    then show ?thesis
      using assms(1) Cons.prems
      by (auto simp: scan_child_def decisive_def seen_def Let_def split: if_splits)
  next
    case False
    have c: "\<not> breakout ?c" "scanDecision ?c = - 1"
      "if dn_modeOR d then \<not> foundPositiveChild ?c else \<not> foundNegativeChild ?c"
      "foundNonResolvedChild ?c = (foundNonResolvedChild c \<or> x = - 1)"
      using assms(1) Cons.prems False
      by (auto simp: scan_child_def decisive_def tri_def Let_def split: if_splits)
    with Cons.IH [of ?c] Cons.prems False assms(1) show ?thesis
      by (auto simp: seen_def)
  qed
qed (simp add: seen_def)

lemma scan_wait:
  assumes "\<not> dn_modePromptDecision d" and "\<forall>x \<in> set xs. tri x" and "\<not> breakout c"
    and "\<not> foundNonResolvedChild c"
  shows "scanDecision (scan_children d xs c) = scanDecision c
    \<and> foundNonResolvedChild (scan_children d xs c) = (- 1 \<in> set xs)
    \<and> (- 1 \<notin> set xs \<longrightarrow>
        foundPositiveChild (scan_children d xs c) = (foundPositiveChild c \<or> 1 \<in> set xs) \<and>
        foundNegativeChild (scan_children d xs c) = (foundNegativeChild c \<or> 0 \<in> set xs))"
  using assms(2-4)
proof (induction xs arbitrary: c)
  case (Cons x xs)
  let ?c = "scan_child d x c"
  show ?case
  proof (cases "x = - 1")
    case True
    then show ?thesis using assms(1) Cons.prems by (simp add: scan_child_def Let_def)
  next
    case False
    with Cons.prems have x: "x = 0 \<or> x = 1" by (simp add: tri_def)
    have c: "\<not> breakout ?c" "\<not> foundNonResolvedChild ?c" "scanDecision ?c = scanDecision c"
      "foundPositiveChild ?c = (foundPositiveChild c \<or> x = 1)"
      "foundNegativeChild ?c = (foundNegativeChild c \<or> x = 0)"
      using assms(1) Cons.prems x by (auto simp: scan_child_def Let_def)
    with Cons.IH [of ?c] Cons.prems x show ?thesis by auto
  qed
qed simp

lemma hub_decision_scan:
  assumes "\<forall>x \<in> set xs. tri x"
  shows "hub_decision d (scan_children d xs scan_start) =
    (if dn_allPass d \<and> - 1 \<notin> set (seen d xs) then 1 else invert d (kleene d xs))"
proof (cases "dn_modePromptDecision d")
  case True
  let ?c = "scan_children d xs scan_start"
  have c: "scanDecision ?c = (if decisive d \<in> set xs then decisive d else - 1)"
    "foundNonResolvedChild ?c = (- 1 \<in> set (seen d xs))"
    "decisive d \<notin> set xs \<longrightarrow> (if dn_modeOR d then \<not> foundPositiveChild ?c
       else \<not> foundNegativeChild ?c)"
    using scan_prompt [OF True assms, of scan_start] by (auto simp: scan_start_def)
  show ?thesis
  proof (cases "decisive d \<in> set xs")
    case dec: True
    with c True show ?thesis
      by (simp add: hub_decision_def kleene_def invert_def decisive_def Let_def)
  next
    case False
    then have "takeWhile (\<lambda>x. x \<noteq> decisive d) xs = xs" by (auto simp: takeWhile_eq_all_conv)
    then have "seen d xs = xs" by (simp add: seen_def)
    with False c True show ?thesis
      by (auto simp: hub_decision_def kleene_def invert_def decisive_def Let_def)
  qed
next
  case False
  with scan_wait [OF False assms, of scan_start] show ?thesis
    by (cases "dn_modeOR d")
       (auto simp: hub_decision_def kleene_def invert_def decisive_def seen_def scan_start_def
        Let_def)
qed

lemma monitored_hub_decision:
  "\<forall>x \<in> set (monitored g ev r d). tri x \<Longrightarrow>
   hub_decision d (monitor_children g ev r d) =
     (if dn_allPass d \<and> - 1 \<notin> set (seen d (monitored g ev r d)) then 1
      else invert d (kleene d (monitored g ev r d)))"
  by (simp add: monitor_children_scan hub_decision_scan)

section \<open>Properties\<close>

text \<open>
  C8. The loops over the children of a hub, through its views when it has any, compute the
  three-valued disjunction or conjunction of the daughters' decisions, as soon as it is known
  in a prompt hub and when all are known otherwise, inverted in an inverted hub. An all-pass
  hub decides 1 instead when no child it looked at was unresolved, so an all-pass hub that
  is not prompt decides 1 or waits.
\<close>

theorem hub_decision_kleene:
  assumes "\<forall>x \<in> set (monitored g ev r d). tri x"
  shows "hub_decision d (monitor_children g ev r d) =
      (if dn_allPass d \<and> - 1 \<notin> set (seen d (monitored g ev r d)) then 1
       else invert d (kleene d (monitored g ev r d)))
    \<and> (dn_allPass d \<and> \<not> dn_modePromptDecision d \<longrightarrow>
       hub_decision d (monitor_children g ev r d) =
         (if - 1 \<in> set (monitored g ev r d) then - 1 else 1))"
  using monitored_hub_decision [OF assms]
  by (auto simp: seen_def kleene_def invert_def)

theorem hub_decision_kleene_witness:
  "hub_decision ((new_decision_node ''h'' 0 example_modes)\<lparr>dn_children := [Alg_Node ''a'']\<rparr>)
     (monitor_children new_graph (new_slot 0 1) Top
       ((new_decision_node ''h'' 0 example_modes)\<lparr>dn_children := [Alg_Node ''a'']\<rparr>)) = - 1"
proof -
  let ?d = "(new_decision_node ''h'' 0 example_modes)\<lparr>dn_children := [Alg_Node ''a'']\<rparr>"
  have m: "monitored new_graph (new_slot 0 1) Top ?d = [- 1]"
    by code_simp
  then have "\<forall>x \<in> set (monitored new_graph (new_slot 0 1) Top ?d). tri x"
    by (simp add: tri_def)
  from hub_decision_kleene [OF this] show ?thesis
    unfolding m by (simp add: kleene_def invert_def new_decision_node_def example_modes_def
        decisive_def)
qed

text \<open>
  A hub that is all-pass and prompt can still reject: when a decisive child comes after one
  that is unresolved, the loop leaves with \<open>foundNonResolvedChild\<close> set and the all-pass
  correction is skipped. A conjunction then decides 0, against the promise that an
  all-pass hub passes regardless of its daughters' results.
\<close>

theorem allpass_hub_rejects:
  assumes "dn_allPass d" and "dn_modePromptDecision d" and "\<not> dn_modeOR d" and "\<not> dn_inverted d"
    and "monitored g ev r d = xs @ - 1 # ys @ 0 # zs" and "\<forall>x \<in> set xs. tri x \<and> x \<noteq> 0"
    and "\<forall>x \<in> set (ys @ zs). tri x"
  shows "hub_decision d (monitor_children g ev r d) = 0"
proof -
  have t: "\<forall>x \<in> set (monitored g ev r d). tri x" 
    unfolding assms(5) using assms(6,7)
    by (simp add: tri_def [of 0] tri_def [of "- 1"]) blast
  have "- 1 \<in> set (takeWhile (\<lambda>x. x \<noteq> 0) (xs @ - 1 # ys @ 0 # zs))"
    using assms(6) by (subst takeWhile_append2) simp_all
  then have "- 1 \<in> set (seen d (monitored g ev r d))"
    using assms(2,3) by (simp add: seen_def decisive_def assms(5))
  moreover have "kleene d (monitored g ev r d) = 0"
    using assms(2,3) by (simp add: kleene_def decisive_def assms(5))
  ultimately show ?thesis
    using monitored_hub_decision [OF t] assms(4) by (simp add: invert_def)
qed

definition example_alg :: "string \<Rightarrow> gaudi_alg" where
  "example_alg n = \<lparr>ga_name = n, ga_isBlocking = False, ga_inputs = [], ga_outputs = [],
     ga_cardinality = 1, ga_isClonable = True\<rparr>"

definition allpass_graph :: rules_graph where
  "allpass_graph = build
     [Head ''h'' \<lparr>modeConcurrent = True, modePromptDecision = True, modeOR = False,
        allPassMode = True, invertedMode = False\<rparr>,
      Add_alg (example_alg ''a'') ''h'' False False, Add_alg (example_alg ''b'') ''h'' False False]
     new_graph"

definition allpass_hub :: decision_node where
  "allpass_hub = \<lparr>dn_name = ''h'', dn_nodeIndex = 0, dn_modeConcurrent = True,
     dn_modePromptDecision = True, dn_modeOR = False, dn_allPass = True, dn_inverted = False,
     dn_children = [Alg_Node ''a'', Alg_Node ''b''], dn_parents = []\<rparr>"

theorem allpass_hub_rejects_witness:
  "hub_node allpass_graph ''h'' = Some allpass_hub \<and>
   hub_decision allpass_hub
     (monitor_children allpass_graph (set_decision Top 2 0 (new_slot 2 3)) Top allpass_hub) = 0"
proof
  show "hub_node allpass_graph ''h'' = Some allpass_hub" by code_simp
  have "monitored allpass_graph (set_decision Top 2 0 (new_slot 2 3)) Top allpass_hub
      = [] @ - 1 # [] @ 0 # []"
    by code_simp
  then show "hub_decision allpass_hub
      (monitor_children allpass_graph (set_decision Top 2 0 (new_slot 2 3)) Top allpass_hub) = 0"
    by (rule allpass_hub_rejects [rotated 4]) (simp_all add: allpass_hub_def)
qed

end
