(* ===== verification/Promoter_Facts.thy ===== *)
theory Promoter_Facts
  imports Hub_Decisions
begin

text \<open>
  What the visitors may do to an event slot: a relation \<open>evolves\<close> that every step of
  \<open>Supervisor\<close>, \<open>DataReadyPromoter\<close> and \<open>DecisionUpdater\<close> respects. Decisions are only ever
  taken, never withdrawn; algorithms are only promoted, up to DATAREADY, and to DATAREADY only
  when their inputs are there; the views and contexts stay.
\<close>

section \<open>The relation\<close>

definition promoted :: "exec_state \<Rightarrow> exec_state \<Rightarrow> bool" where
  "promoted st st' \<longleftrightarrow>
     st = st' \<or> (st = INITIAL \<and> (st' = CONTROLREADY \<or> st' = DATAREADY)) \<or>
     (st = CONTROLREADY \<and> st' = DATAREADY)"

definition data_ready :: "rules_graph \<Rightarrow> cond_svc \<Rightarrow> event_slot \<Rightarrow> slot_ref \<Rightarrow> u64 \<Rightarrow> bool" where
  "data_ready g cs ev r h \<longleftrightarrow>
     (\<exists>d. data_node_at g h = Some d \<and>
        (if da_condition d
         then \<exists>ctx. eventContext (slot_at ev r) = Some ctx \<and> cs_isValidID cs ctx (da_id d)
         else data_visit g ev r d))"

definition inputs_ready ::
  "rules_graph \<Rightarrow> cond_svc \<Rightarrow> event_slot \<Rightarrow> slot_ref \<Rightarrow> algorithm_node \<Rightarrow> bool"
where
  "inputs_ready g cs ev r a \<longleftrightarrow> (\<forall>h \<in> set (an_inputs a). data_ready g cs ev r h)"

abbreviation graph_slot :: "rules_graph \<Rightarrow> event_slot \<Rightarrow> bool" where
  "graph_slot g ev \<equiv> slot_ok (g_algoCounter g) (g_nodeCounter g) ev"

definition frame_evolves ::
  "rules_graph \<Rightarrow> cond_svc \<Rightarrow> event_slot \<Rightarrow> event_slot \<Rightarrow> slot_ref \<Rightarrow> bool"
where
  "frame_evolves g cs ev ev' r \<longleftrightarrow>
     eventContext (slot_at ev' r) = eventContext (slot_at ev r) \<and>
     entryPoint (slot_at ev' r) = entryPoint (slot_at ev r) \<and>
     complete (slot_at ev' r) = complete (slot_at ev r) \<and>
     subSlotsByNode (slot_at ev' r) = subSlotsByNode (slot_at ev r) \<and>
     (\<forall>n < g_nodeCounter g.
        decision_of ev' r n = decision_of ev r n \<or> decision_of ev' r n \<in> {0, 1}) \<and>
     (\<forall>a < g_algoCounter g. promoted (alg_state_of ev r a) (alg_state_of ev' r a)) \<and>
     (\<forall>n a. alg_node g n = Some a \<longrightarrow> alg_state_of ev r (an_algoIndex a) \<noteq> DATAREADY \<longrightarrow>
        alg_state_of ev' r (an_algoIndex a) = DATAREADY \<longrightarrow> inputs_ready g cs ev' r a)"

definition evolves :: "rules_graph \<Rightarrow> cond_svc \<Rightarrow> event_slot \<Rightarrow> event_slot \<Rightarrow> bool" where
  "evolves g cs ev ev' \<longleftrightarrow>
     graph_slot g ev' \<and> length (allSubSlots ev') = length (allSubSlots ev) \<and>
     (\<forall>r. ref_ok ev r \<longrightarrow> frame_evolves g cs ev ev' r)"

lemma evolves_slot: "evolves g cs ev ev' \<Longrightarrow> graph_slot g ev'"
  by (simp add: evolves_def)

lemma evolves_ref: "evolves g cs ev ev' \<Longrightarrow> ref_ok ev' r = ref_ok ev r"
  by (cases r) (simp_all add: evolves_def ref_ok_def)

lemma evolves_refl [simp]: "graph_slot g ev \<Longrightarrow> evolves g cs ev ev"
  by (simp add: evolves_def frame_evolves_def promoted_def)

lemma alg_index_less:
  assumes "graph_ok g" and "alg_node g n = Some a"
  shows "an_algoIndex a < g_algoCounter g" "an_nodeIndex a < g_nodeCounter g"
proof -
  have "(n, a) \<in> set (g_algs g)" using assms(2) by (rule map_of_SomeD)
  then have "an_algoIndex a \<in> set (algo_indices g)" "an_nodeIndex a \<in> set (node_indices g)"
    by (force simp: algo_indices_def node_indices_def)+
  with assms(1) show "an_algoIndex a < g_algoCounter g" "an_nodeIndex a < g_nodeCounter g"
    by (auto simp: graph_ok_def numbered_def)
qed

lemma hub_index_less:
  assumes "graph_ok g" and "hub_node g n = Some d"
  shows "dn_nodeIndex d < g_nodeCounter g"
proof -
  have "(n, d) \<in> set (g_hubs g)" using assms(2) by (rule map_of_SomeD)
  then have "dn_nodeIndex d \<in> set (node_indices g)" by (force simp: node_indices_def)
  with assms(1) show ?thesis by (auto simp: graph_ok_def numbered_def)
qed

lemma map_proj_fst: "map (f \<circ> snd) xs = map fst xs \<Longrightarrow> (n, d) \<in> set xs \<Longrightarrow> f d = n"
  by (induction xs) auto

lemma hub_name:
  assumes "graph_ok g" and "hub_node g n = Some d"
  shows "dn_name d = n"
proof -
  have "map (dn_name \<circ> snd) (g_hubs g) = map fst (g_hubs g)"
    using assms(1) unfolding graph_ok_def named_def by blast
  from map_proj_fst [OF this map_of_SomeD [OF assms(2)]] show ?thesis .
qed

lemma distinct_map_inj: "distinct (map f xs) \<Longrightarrow> x \<in> set xs \<Longrightarrow> y \<in> set xs \<Longrightarrow> f x = f y \<Longrightarrow> x = y"
  by (simp add: distinct_map inj_on_def)

lemma alg_index_inj:
  assumes "graph_ok g" and "alg_node g n = Some a" and "alg_node g m = Some b"
    and "an_algoIndex a = an_algoIndex b"
  shows "a = b"
proof -
  have "(n, a) = (m, b)"
    using assms
    by (intro distinct_map_inj [of "an_algoIndex \<circ> snd" "g_algs g"])
       (auto simp: graph_ok_def numbered_def algo_indices_def dest: map_of_SomeD)
  then show ?thesis by simp
qed

section \<open>Stability\<close>

lemma promoted_trans: "promoted a b \<Longrightarrow> promoted b c \<Longrightarrow> promoted a c"
  by (auto simp: promoted_def)

lemma promoted_done: "promoted a b \<Longrightarrow> a = EVTACCEPTED \<or> a = EVTREJECTED \<Longrightarrow> b = a"
  by (auto simp: promoted_def)

lemma data_visit_stable:
  assumes g: "graph_ok g" and ev: "evolves g cs ev ev'" and r: "ref_ok ev r" and d: "data_visit g ev r d"
  shows "data_visit g ev' r d"
proof -
  obtain n where n: "n \<in> set (da_producers d)" "producer_done g ev r n"
    using d by (auto simp: data_visit_def list_ex_iff)
  then obtain a where a: "alg_node g n = Some a"
    "alg_state_of ev r (an_algoIndex a) = EVTACCEPTED \<or> alg_state_of ev r (an_algoIndex a) = EVTREJECTED"
    by (auto simp: producer_done_def split: option.splits)
  have "promoted (alg_state_of ev r (an_algoIndex a)) (alg_state_of ev' r (an_algoIndex a))"
    using ev r alg_index_less(1) [OF g a(1)] by (simp add: evolves_def frame_evolves_def)
  with a have "producer_done g ev' r n" by (auto simp: producer_done_def dest: promoted_done)
  with n show ?thesis by (auto simp: data_visit_def list_ex_iff)
qed

lemma data_ready_stable:
  assumes g: "graph_ok g" and ev: "evolves g cs ev ev'" and r: "ref_ok ev r"
    and d: "data_ready g cs ev r h"
  shows "data_ready g cs ev' r h"
proof -
  have "eventContext (slot_at ev' r) = eventContext (slot_at ev r)"
    using ev r by (simp add: evolves_def frame_evolves_def)
  with d data_visit_stable [OF g ev r] show ?thesis
    by (auto simp: data_ready_def split: if_splits)
qed

lemma evolves_trans:
  assumes g: "graph_ok g" and 1: "evolves g cs ev ev'" and 2: "evolves g cs ev' ev''"
  shows "evolves g cs ev ev''"
proof -
  have "frame_evolves g cs ev ev'' r" if r: "ref_ok ev r" for r
  proof -
    have f1: "frame_evolves g cs ev ev' r" and f2: "frame_evolves g cs ev' ev'' r"
      using 1 2 r evolves_ref [OF 1] by (auto simp: evolves_def)
    have dec: "decision_of ev'' r n = decision_of ev r n \<or> decision_of ev'' r n \<in> {0, 1}"
      if "n < g_nodeCounter g" for n
      using f1 f2 that unfolding frame_evolves_def by metis
    have pro: "promoted (alg_state_of ev r a) (alg_state_of ev'' r a)" if "a < g_algoCounter g" for a
      using f1 f2 that unfolding frame_evolves_def by (meson promoted_trans)
    have inp: "inputs_ready g cs ev'' r a"
      if "alg_node g n = Some a" "alg_state_of ev r (an_algoIndex a) \<noteq> DATAREADY"
        "alg_state_of ev'' r (an_algoIndex a) = DATAREADY" for n a
    proof (cases "alg_state_of ev' r (an_algoIndex a) = DATAREADY")
      case True
      with f1 that have "inputs_ready g cs ev' r a" by (simp add: frame_evolves_def)
      then show ?thesis
        using data_ready_stable [OF g 2] r evolves_ref [OF 1] by (simp add: inputs_ready_def)
    next
      case False
      with f2 that show ?thesis by (simp add: frame_evolves_def)
    qed
    from f1 f2 dec pro inp show ?thesis by (simp add: frame_evolves_def)
  qed
  with 1 2 show ?thesis by (simp add: evolves_def)
qed

section \<open>Elementary steps\<close>

lemma graph_frame: "graph_slot g ev \<Longrightarrow> ref_ok ev r \<Longrightarrow>
  length (controlFlowState (slot_at ev r)) = g_nodeCounter g"
  using slot_at_frames [of ev r] by (auto simp: slot_ok_def frame_ok_def)

lemma length_sub_upd [simp]: "length (allSubSlots (upd_slot r f ev)) = length (allSubSlots ev)"
  by (cases r) simp_all

lemma length_sub_set [simp]:
  "length (allSubSlots (set_alg_state r a st ev)) = length (allSubSlots ev)"
  "length (allSubSlots (set_decision r n d ev)) = length (allSubSlots ev)"
  by (simp_all add: set_alg_state_def set_decision_def)

lemma evolves_decision:
  assumes "graph_slot g ev" and "ref_ok ev r" and "n < g_nodeCounter g" and "d \<in> {0, 1}"
  shows "evolves g cs ev (set_decision r n d ev)"
proof -
  have len: "n < length (controlFlowState (slot_at ev r))" using assms graph_frame by simp
  show ?thesis
    using assms len
    by (auto simp: evolves_def set_decision_ok frame_evolves_def slot_simps decision_of_set promoted_def)
qed

lemma evolves_control_ready:
  assumes "graph_ok g" and "graph_slot g ev" and "ref_ok ev r" and "i < g_algoCounter g"
    and "alg_state_of ev r i = INITIAL"
  shows "evolves g cs ev (set_alg_state r i CONTROLREADY ev)"
proof -
  let ?ev = "set_alg_state r i CONTROLREADY ev"
  have st: "alg_state_of ?ev r' j =
      (if r = r' \<and> i = j then CONTROLREADY else alg_state_of ev r' j)"
    if "ref_ok ev r'" "j < g_algoCounter g" for r' j
    using alg_state_of_set [OF assms(2,3) that(1) assms(4) that(2), of CONTROLREADY] assms(5)
    by (auto simp: next_state_def alg_step.simps)
  have "frame_evolves g cs ev ?ev r'" if r': "ref_ok ev r'" for r'
    using assms r' st [OF r'] alg_index_less(1) [OF assms(1)]
    by (auto simp: frame_evolves_def slot_simps promoted_def)
  with assms show ?thesis by (simp add: evolves_def set_alg_state_ok)
qed

lemma evolves_data_ready:
  assumes "graph_ok g" and "graph_slot g ev" and "ref_ok ev r" and a: "alg_node g n = Some a"
    and "alg_state_of ev r (an_algoIndex a) = CONTROLREADY \<or>
         alg_state_of ev r (an_algoIndex a) = DATAREADY"
    and inp: "inputs_ready g cs ev r a"
  shows "evolves g cs ev (set_alg_state r (an_algoIndex a) DATAREADY ev)"
proof -
  let ?ev = "set_alg_state r (an_algoIndex a) DATAREADY ev"
  note i = alg_index_less(1) [OF assms(1) a]
  have st: "alg_state_of ?ev r' j =
      (if r = r' \<and> an_algoIndex a = j then DATAREADY else alg_state_of ev r' j)"
    if "ref_ok ev r'" "j < g_algoCounter g" for r' j
    using alg_state_of_set [OF assms(2,3) that(1) i that(2), of DATAREADY] assms(5)
    by (auto simp: next_state_def alg_step.simps)
  have prod: "producer_done g ?ev r p" if "producer_done g ev r p" for p
    using that st [OF assms(3)] alg_index_less(1) [OF assms(1)] assms(5)
    by (auto simp: producer_done_def split: option.splits)
  have "data_ready g cs ?ev r h" if "data_ready g cs ev r h" for h
    using that prod assms(3)
    by (auto simp: data_ready_def slot_simps data_visit_def list_ex_iff split: if_splits)
  with inp have inp': "inputs_ready g cs ?ev r a" by (simp add: inputs_ready_def)
  have "frame_evolves g cs ev ?ev r'" if r': "ref_ok ev r'" for r'
  proof -
    have "inputs_ready g cs ?ev r' b"
      if "alg_node g m = Some b" "alg_state_of ev r' (an_algoIndex b) \<noteq> DATAREADY"
        "alg_state_of ?ev r' (an_algoIndex b) = DATAREADY" for m b
    proof -
      have "r = r' \<and> an_algoIndex a = an_algoIndex b"
        using that st [OF r' alg_index_less(1) [OF assms(1) that(1)]] by presburger
      with inp' alg_index_inj [OF assms(1) a that(1)] show ?thesis by simp
    qed
    then show ?thesis
      using assms r' st [OF r'] alg_index_less(1) [OF assms(1)]
      by (auto simp: frame_evolves_def slot_simps promoted_def)
  qed
  with assms show ?thesis by (simp add: evolves_def set_alg_state_ok)
qed

section \<open>Loops and visitors\<close>

lemma loop_all_inv:
  assumes step: "\<And>x s s'. x \<in> set xs \<Longrightarrow> I s \<Longrightarrow> f x s = Some s' \<Longrightarrow> I s'"
    and "I s" and "loop_all f xs s = Some s'"
  shows "I s'"
proof -
  have "set ys \<subseteq> set xs \<Longrightarrow> I t \<Longrightarrow> loop_all f ys t = Some s' \<Longrightarrow> I s'" for ys t
  proof (induction ys arbitrary: t)
    case (Cons y ys)
    then obtain u where "f y t = Some u" "loop_all f ys u = Some s'"
      by (auto simp: bind_eq_Some_conv)
    with Cons step [of y t u] show ?case by auto
  qed simp
  with assms(2,3) show ?thesis by blast
qed

lemma loop_break_inv:
  assumes step: "\<And>x s s'. x \<in> set xs \<Longrightarrow> I s \<Longrightarrow> f x s = Some s' \<Longrightarrow> I s'"
    and "I s" and "loop_break f stop xs s = Some s'"
  shows "I s'"
proof -
  have "set ys \<subseteq> set xs \<Longrightarrow> I t \<Longrightarrow> loop_break f stop ys t = Some s' \<Longrightarrow> I s'" for ys t
  proof (induction ys arbitrary: t)
    case (Cons y ys)
    then obtain u where "f y t = Some u" "(if stop u then Some u else loop_break f stop ys u) = Some s'"
      by (auto simp: bind_eq_Some_conv)
    with Cons step [of y t u] show ?case by (auto split: if_splits)
  qed simp
  with assms(2,3) show ?thesis by blast
qed

text \<open>
  A loop that never stopped has visited every element: what each visit establishes unless it
  stops, and later visits keep, holds of all of them at the end.
\<close>

lemma loop_break_all:
  assumes est: "\<And>x s s'. x \<in> set xs \<Longrightarrow> I s \<Longrightarrow> f x s = Some s' \<Longrightarrow> \<not> stop s' \<Longrightarrow> Q x s'"
    and step: "\<And>x s s'. x \<in> set xs \<Longrightarrow> I s \<Longrightarrow> f x s = Some s' \<Longrightarrow> I s'"
    and keep: "\<And>x y s s'. x \<in> set xs \<Longrightarrow> I s \<Longrightarrow> Q y s \<Longrightarrow> f x s = Some s' \<Longrightarrow> Q y s'"
    and "I s" and "loop_break f stop xs s = Some s'" and nostop: "\<not> stop s'"
  shows "\<forall>y \<in> set xs. Q y s'"
proof -
  have "set ys \<subseteq> set xs \<Longrightarrow> I t \<Longrightarrow> (\<forall>y \<in> Y. Q y t) \<Longrightarrow> loop_break f stop ys t = Some s' \<Longrightarrow>
      \<forall>y \<in> Y \<union> set ys. Q y s'" for ys t Y
  proof (induction ys arbitrary: t Y)
    case (Cons y ys)
    then obtain u where u: "f y t = Some u" "loop_break f stop ys u = Some s'" "\<not> stop u"
      using nostop by (auto simp: bind_eq_Some_conv split: if_splits)
    have y: "y \<in> set xs" using Cons.prems(1) by simp
    have "I u" "Q y u" using step [OF y Cons.prems(2) u(1)] est [OF y Cons.prems(2) u(1,3)] by auto
    moreover have "\<forall>z \<in> Y. Q z u" using keep [OF y Cons.prems(2) _ u(1)] Cons.prems(3) by blast
    ultimately have "\<forall>z \<in> insert y Y \<union> set ys. Q z s'"
      using Cons.prems(1) by (intro Cons.IH [OF _ _ _ u(2)]) auto
    then show ?case by simp
  qed simp
  from this [of xs s "{}"] assms(4,5) show ?thesis by simp
qed

text \<open>Decisions are -1, 0 or 1 in every frame: an invariant on top of \<open>slot_ok\<close>.\<close>

definition tri_slot :: "rules_graph \<Rightarrow> event_slot \<Rightarrow> bool" where
  "tri_slot g ev \<longleftrightarrow> (\<forall>r n. ref_ok ev r \<longrightarrow> n < g_nodeCounter g \<longrightarrow> tri (decision_of ev r n))"

lemma tri_slot_evolves:
  assumes "evolves g cs ev ev'" and "tri_slot g ev"
  shows "tri_slot g ev'"
  unfolding tri_slot_def
proof (intro allI impI)
  fix r n
  assume rn: "ref_ok ev' r" "n < g_nodeCounter g"
  then have r: "ref_ok ev r" using evolves_ref [OF assms(1)] by simp
  then have "decision_of ev' r n = decision_of ev r n \<or> decision_of ev' r n \<in> {0, 1}"
    using assms(1) rn(2) by (simp add: evolves_def frame_evolves_def)
  moreover have "tri (decision_of ev r n)" using assms(2) r rn(2) by (simp add: tri_slot_def)
  ultimately show "tri (decision_of ev' r n)" by (auto simp: tri_def)
qed

definition vstep :: "venv \<Rightarrow> vstate \<Rightarrow> vstate \<Rightarrow> bool" where
  "vstep env s s' = evolves (e_graph env) (e_cond env) (v_ev s) (v_ev s')"

definition live :: "venv \<Rightarrow> vstate \<Rightarrow> bool" where
  "live env s \<longleftrightarrow> graph_ok (e_graph env) \<and> graph_slot (e_graph env) (v_ev s) \<and>
     tri_slot (e_graph env) (v_ev s)"

lemma vstep_refl: "live env s \<Longrightarrow> vstep env s s"
  by (simp add: vstep_def live_def)

lemma vstep_trans: "live env s \<Longrightarrow> vstep env s s' \<Longrightarrow> vstep env s' s'' \<Longrightarrow> vstep env s s''"
  by (auto simp: vstep_def live_def intro: evolves_trans)

lemma vstep_live: "live env s \<Longrightarrow> vstep env s s' \<Longrightarrow> live env s'"
  by (auto simp: vstep_def live_def evolves_slot tri_slot_evolves)

lemma vstep_ref: "vstep env s s' \<Longrightarrow> ref_ok (v_ev s') r = ref_ok (v_ev s) r"
  by (simp add: vstep_def evolves_ref)

text \<open>What the recursive call may do, and that loops of such calls may do no more.\<close>

definition good_rec :: "venv \<Rightarrow> accept_fun \<Rightarrow> bool" where
  "good_rec env rec \<longleftrightarrow>
     (\<forall>r c s b s'. live env s \<longrightarrow> ref_ok (v_ev s) r \<longrightarrow> rec r c s = Some (b, s') \<longrightarrow> vstep env s s')"

lemma good_recD: "good_rec env rec \<Longrightarrow> live env s \<Longrightarrow> ref_ok (v_ev s) r \<Longrightarrow>
  rec r c s = Some (b, s') \<Longrightarrow> vstep env s s'"
  by (auto simp: good_rec_def)

lemma loop_all_vstep:
  assumes "\<And>x s s'. x \<in> set xs \<Longrightarrow> live env s \<Longrightarrow> vstep env s0 s \<Longrightarrow> f x s = Some s' \<Longrightarrow> vstep env s s'"
    and "live env s0" and "loop_all f xs s0 = Some s'"
  shows "vstep env s0 s'"
proof -
  have "live env s' \<and> vstep env s0 s'"
  proof (rule loop_all_inv [where I = "\<lambda>s. live env s \<and> vstep env s0 s"])
    show "live env s0 \<and> vstep env s0 s0" using assms(2) vstep_refl by simp
    show "loop_all f xs s0 = Some s'" by (rule assms(3))
    show "live env t' \<and> vstep env s0 t'"
      if "x \<in> set xs" "live env t \<and> vstep env s0 t" "f x t = Some t'" for x t t'
      using assms(1) [OF that(1) _ _ that(3)] that(2) assms(2) vstep_live vstep_trans by blast
  qed
  then show ?thesis by simp
qed

lemma loop_break_vstep:
  assumes "\<And>x p p'. x \<in> set xs \<Longrightarrow> live env (snd p) \<Longrightarrow> vstep env s0 (snd p) \<Longrightarrow> f x p = Some p' \<Longrightarrow>
      vstep env (snd p) (snd p')"
    and "live env s0" and "loop_break f stop xs (b0, s0) = Some p'"
  shows "vstep env s0 (snd p')"
proof -
  have "live env (snd p') \<and> vstep env s0 (snd p')"
  proof (rule loop_break_inv [where I = "\<lambda>p. live env (snd p) \<and> vstep env s0 (snd p)"])
    show "live env (snd (b0, s0)) \<and> vstep env s0 (snd (b0, s0))" using assms(2) vstep_refl by simp
    show "loop_break f stop xs (b0, s0) = Some p'" by (rule assms(3))
    show "live env (snd t') \<and> vstep env s0 (snd t')"
      if "x \<in> set xs" "live env (snd t) \<and> vstep env s0 (snd t)" "f x t = Some t'" for x t t'
      using assms(1) [OF that(1) _ _ that(3)] that(2) assms(2) vstep_live vstep_trans by blast
  qed
  then show ?thesis by simp
qed

lemma send_up_vstep:
  assumes "good_rec env rec" and "live env s" and "ref_ok (v_ev s) r"
    and "send_up rec env r n ps s = Some s'"
  shows "vstep env s s'"
proof (cases "length ps = 1")
  case True
  with assms show ?thesis by (auto simp: send_up_def dest: good_recD)
next
  case False
  from assms(4) have l: "loop_all (\<lambda>p s. Option.bind
             ((if parentSlot r \<noteq> None then subslot_reply else lineage_reply)
                (e_scoutFuel env) (e_graph env) (v_ev s) r n p)
             (\<lambda>reply. if reply then map_option snd (rec r (Hub_Node p) s) else Some s)) ps s = Some s'"
    unfolding send_up_def using False by (simp only: if_False)
  show ?thesis
    by (rule loop_all_vstep [OF _ assms(2) l])
       (use assms(1,3) vstep_ref in \<open>auto simp: bind_eq_Some_conv vstep_refl dest!: good_recD
         split: if_splits\<close>)
qed

lemma ask_children_vstep:
  assumes "good_rec env rec" and "live env s" and "ref_ok (v_ev s) r"
    and "ask_children rec r d s = Some s'"
  shows "vstep env s s'"
proof -
  obtain p' where p': "s' = snd p'" and l: "loop_break (\<lambda>child p. map_option
             (\<lambda>q. ((\<not> dn_modeConcurrent d \<and> fst q) \<or>
                   (dn_modePromptDecision d \<and>
                    decision_of (v_ev (snd q)) r (dn_nodeIndex d) > - 1), snd q))
             (rec r child (snd p))) fst (dn_children d) (False, s) = Some p'"
    using assms(4) by (auto simp: ask_children_def)
  show ?thesis unfolding p'
    by (rule loop_break_vstep [OF _ assms(2) l])
       (use assms(1,3) vstep_ref in \<open>auto dest!: good_recD\<close>)
qed

lemma drp_accept_data_vstep:
  assumes "good_rec env rec" and "live env s" and "ref_ok (v_ev s) r"
    and "drp_accept_data rec env r h s = Some (b, s')"
  shows "vstep env s s' \<and> (b \<longrightarrow> data_ready (e_graph env) (e_cond env) (v_ev s') r h)"
proof -
  obtain d where d: "data_node_at (e_graph env) h = Some d"
    using assms(4) by (auto simp: drp_accept_data_def split: option.splits)
  show ?thesis
  proof (cases "da_condition d \<and> \<not> b")
    case True
    then obtain s1 where l: "loop_all (\<lambda>p s. map_option snd (rec r (Alg_Node p) s)) (da_producers d) s = Some s1"
      and "s' = s1"
      using assms(4) d by (auto simp: drp_accept_data_def split: option.splits if_splits)
    have "vstep env s s1"
      by (rule loop_all_vstep [OF _ assms(2) l])
         (use assms(1,3) vstep_ref in \<open>auto dest!: good_recD\<close>)
    with True \<open>s' = s1\<close> show ?thesis by simp
  next
    case False
    with assms(4) d have "s' = s" "b \<longrightarrow> data_ready (e_graph env) (e_cond env) (v_ev s) r h"
      by (auto simp: drp_accept_data_def data_ready_def split: option.splits if_splits)
    with assms(2) show ?thesis by (simp add: vstep_refl)
  qed
qed

lemma vstep_data_ready:
  "live env s \<Longrightarrow> vstep env s s' \<Longrightarrow> ref_ok (v_ev s) r \<Longrightarrow>
   data_ready (e_graph env) (e_cond env) (v_ev s) r h \<Longrightarrow>
   data_ready (e_graph env) (e_cond env) (v_ev s') r h"
  by (auto simp: live_def vstep_def intro: data_ready_stable)

lemma input_loop_vstep:
  assumes rec: "good_rec env rec" and live: "live env s" and r: "ref_ok (v_ev s) r"
    and l: "loop_break (\<lambda>h p. drp_accept_data rec env r h (snd p)) (\<lambda>p. \<not> fst p) hs (True, s)
      = Some (b, s')"
  shows "vstep env s s'"
    and "b \<Longrightarrow> \<forall>h \<in> set hs. data_ready (e_graph env) (e_cond env) (v_ev s') r h"
proof -
  let ?I = "\<lambda>p. live env (snd p) \<and> vstep env s (snd p)"
  have step: "vstep env (snd p) (snd p') \<and>
      (fst p' \<longrightarrow> data_ready (e_graph env) (e_cond env) (v_ev (snd p')) r h)"
    if "?I p" "drp_accept_data rec env r h (snd p) = Some p'" for h p p'
    using that drp_accept_data_vstep [OF rec, of "snd p" r h "fst p'" "snd p'"] r vstep_ref by auto
  show "vstep env s s'"
    using loop_break_vstep [OF _ live l] step by fastforce
  show "\<forall>h \<in> set hs. data_ready (e_graph env) (e_cond env) (v_ev s') r h" if b
  proof -
    have "\<forall>h \<in> set hs. data_ready (e_graph env) (e_cond env) (v_ev (snd (b, s'))) r h"
    proof (rule loop_break_all [where I = ?I, OF _ _ _ _ l])
      fix x y p p' assume *: "?I p" "drp_accept_data rec env r x (snd p) = Some p'"
      show "?I p'" using step [OF *] *(1) vstep_live vstep_trans live by blast
      show "data_ready (e_graph env) (e_cond env) (v_ev (snd p')) r x" if "\<not> \<not> fst p'"
        using step [OF *] that by simp
      show "data_ready (e_graph env) (e_cond env) (v_ev (snd p')) r y"
        if "data_ready (e_graph env) (e_cond env) (v_ev (snd p)) r y"
        using step [OF *] that * r vstep_ref [of env s "snd p"] by (blast intro: vstep_data_ready)
    qed (use live that vstep_refl in auto)
    then show ?thesis by simp
  qed
qed

lemma drp_visit_alg_vstep:
  assumes rec: "good_rec env rec" and live: "live env s" and r: "ref_ok (v_ev s) r"
    and a: "alg_node (e_graph env) n = Some a"
    and st: "alg_state_of (v_ev s) r (an_algoIndex a) = CONTROLREADY"
    and v: "drp_visit_alg rec env r n s = Some (b, s')"
  shows "vstep env s s'"
proof -
  obtain b1 s1 where l: "loop_break (\<lambda>h p. drp_accept_data rec env r h (snd p)) (\<lambda>p. \<not> fst p)
      (an_inputs a) (True, s) = Some (b1, s1)"
    and post: "if b1 then v_ev s' = set_alg_state r (an_algoIndex a) DATAREADY (v_ev s1)
      else s' = s1"
    using v a by (auto simp: drp_visit_alg_def Let_def bind_eq_Some_conv put_state_def
        split: if_splits option.splits)
  note s1 = input_loop_vstep [OF rec live r l]
  show ?thesis
  proof (cases b1)
    case True
    have "promoted CONTROLREADY (alg_state_of (v_ev s1) r (an_algoIndex a))"
      using s1(1) st r live alg_index_less(1) [OF _ a]
      by (metis evolves_def frame_evolves_def live_def vstep_def)
    then have "alg_state_of (v_ev s1) r (an_algoIndex a) = CONTROLREADY \<or>
        alg_state_of (v_ev s1) r (an_algoIndex a) = DATAREADY"
      by (auto simp: promoted_def)
    moreover have "live env s1" "ref_ok (v_ev s1) r"
      using vstep_live [OF live s1(1)] vstep_ref [OF s1(1)] r by simp_all
    ultimately have "vstep env s1 s'"
      using s1(2) [OF True] post True a
      by (simp add: vstep_def live_def evolves_data_ready inputs_ready_def)
    with s1(1) live show ?thesis by (blast intro: vstep_trans)
  next
    case False
    with post s1(1) show ?thesis by simp
  qed
qed

lemma drp_accept_alg_vstep:
  assumes "good_rec env rec" and "live env s" and "ref_ok (v_ev s) r"
    and "drp_accept_alg rec env r n s = Some (b, s')"
  shows "vstep env s s'"
  using assms drp_visit_alg_vstep [OF assms(1-3), of n]
  by (auto simp: drp_accept_alg_def vstep_refl split: option.splits if_splits)

lemma vstep_put_decision:
  assumes "live env s" and "ref_ok (v_ev s) r" and "n < g_nodeCounter (e_graph env)"
    and "d \<in> {0, 1}"
  shows "vstep env s (put_decision r n d s)"
  using assms evolves_decision by (simp add: vstep_def live_def put_decision_def)

lemma vstep_put_control_ready:
  assumes "live env s" and "ref_ok (v_ev s) r" and "alg_node (e_graph env) n = Some a"
    and "alg_state_of (v_ev s) r (an_algoIndex a) = INITIAL"
  shows "vstep env s (put_state r (an_algoIndex a) CONTROLREADY s)"
    "alg_state_of (v_ev (put_state r (an_algoIndex a) CONTROLREADY s)) r (an_algoIndex a)
      = CONTROLREADY"
proof -
  have i: "an_algoIndex a < g_algoCounter (e_graph env)"
    using assms(1,3) alg_index_less by (auto simp: live_def)
  then show "vstep env s (put_state r (an_algoIndex a) CONTROLREADY s)"
    using assms evolves_control_ready by (simp add: vstep_def live_def put_state_def)
  have "graph_slot (e_graph env) (v_ev s)" using assms(1) by (simp add: live_def)
  from alg_state_of_set [OF this assms(2,2) i i, of CONTROLREADY] assms(4)
  show "alg_state_of (v_ev (put_state r (an_algoIndex a) CONTROLREADY s)) r (an_algoIndex a)
      = CONTROLREADY"
    by (auto simp: put_state_def next_state_def alg_step.simps)
qed

lemma sup_visit_alg_vstep:
  assumes rec: "good_rec env rec" and live: "live env s" and r: "ref_ok (v_ev s) r"
    and a: "alg_node (e_graph env) n = Some a"
    and v: "sup_visit_alg rec env r n a s = Some (b, s')"
  shows "vstep env s s'"
proof (cases "alg_state_of (v_ev s) r (an_algoIndex a) = INITIAL")
  case True
  let ?s = "put_state r (an_algoIndex a) CONTROLREADY s"
  note s1 = vstep_put_control_ready [OF live r a True]
  have "drp_visit_alg rec env r n ?s = Some (b, s')"
    using v True s1(2) by (simp add: sup_visit_alg_def Let_def)
  from drp_visit_alg_vstep [OF rec vstep_live [OF live s1(1)] _ a s1(2) this]
  have "vstep env ?s s'" using r vstep_ref [OF s1(1)] by simp
  with s1(1) live show ?thesis by (blast intro: vstep_trans)
next
  case False
  with v drp_visit_alg_vstep [OF rec live r a] vstep_refl [OF live] show ?thesis
    by (auto simp: sup_visit_alg_def Let_def split: if_splits)
qed

lemma views_at_ref:
  assumes "slot_ok na nn ev" and "ref_ok ev r" and "views_at ev r n = Some is" and "i \<in> set is"
  shows "ref_ok ev (Sub i)"
proof (cases r)
  case Top
  then have "views_of ev n = is" using assms(3) by (simp add: views_at_def views_of_def)
  with assms(1,4) show ?thesis by (auto simp: slot_ok_def views_ok_def ref_ok_def)
next
  case (Sub j)
  with assms(1-3) show ?thesis by (simp add: slot_ok_def sub_ok_def views_at_def ref_ok_def)
qed

lemma daughter_exists:
  assumes "graph_ok g" and "hub_node g h = Some d" and "c \<in> set (dn_children d)"
  shows "h \<in> set (parents_of g c) \<and> node_exists g c"
proof -
  have "daughter g h c" using assms(2,3) by (auto simp: daughter_def)
  then have "parent_of g h c" using assms(1) by (simp add: graph_ok_def linked_def)
  then show ?thesis by (cases c) (auto split: option.splits)
qed

lemma node_index_less:
  "graph_ok g \<Longrightarrow> node_exists g c \<Longrightarrow> node_index g c < g_nodeCounter g"
  by (cases c) (auto intro: alg_index_less hub_index_less)

lemma monitored_tri:
  assumes "graph_ok g" and "slot_ok na nn ev" and "ref_ok ev r" and "tri_slot g ev"
    and "hub_node g h = Some d"
  shows "\<forall>x \<in> set (monitored g ev r d). tri x"
proof -
  have "\<forall>x \<in> set (daughter_decisions g ev r' d). tri x" if "ref_ok ev r'" for r'
    using assms(1,4,5) that daughter_exists [OF assms(1,5)] node_index_less [OF assms(1)]
    by (auto simp: daughter_decisions_def tri_slot_def)
  with assms(3) views_at_ref [OF assms(2,3)] show ?thesis
    by (auto simp: monitored_def split: option.splits) blast
qed

lemma hub_decision_tri:
  assumes "\<forall>x \<in> set (monitored g ev r d). tri x"
  shows "tri (hub_decision d (monitor_children g ev r d))"
  using monitored_hub_decision [OF assms]
  by (auto simp: invert_def kleene_def decisive_def tri_def)

lemma sup_visit_hub_vstep:
  assumes rec: "good_rec env rec" and live: "live env s" and r0: "ref_ok (v_ev s) r0"
    and d: "hub_node (e_graph env) n = Some d"
    and v: "sup_visit_hub rec env r0 d s = Some (b, s')"
  shows "vstep env s s'"
proof -
  define r where "r = (if parentSlot r0 \<noteq> None \<and> entryPoint (slot_at (v_ev s) r0) = dn_name d
    then Top else r0)"
  define dec where "dec = hub_decision d (monitor_children (e_graph env) (v_ev s) r d)"
  have r: "ref_ok (v_ev s) r" using r0 by (simp add: r_def ref_ok_def)
  have v': "(if dec \<noteq> - 1
      then map_option (\<lambda>s. (True, s))
             (send_up rec env r (dn_name d) (dn_parents d) (put_decision r (dn_nodeIndex d) dec s))
      else map_option (\<lambda>s. (False, s))
             (case views_at (v_ev s) r (dn_name d) of
                Some is \<Rightarrow> loop_all (\<lambda>i s. ask_children rec (Sub i) d s) is s
              | None \<Rightarrow> ask_children rec r d s)) = Some (b, s')"
    using v unfolding sup_visit_hub_def Let_def r_def dec_def .
  have ok: "graph_ok (e_graph env)" "graph_slot (e_graph env) (v_ev s)"
    "tri_slot (e_graph env) (v_ev s)"
    using live by (simp_all add: live_def)
  show ?thesis
  proof (cases "dec = - 1")
    case True
    show ?thesis
    proof (cases "views_at (v_ev s) r (dn_name d)")
      case None
      with v' True have "ask_children rec r d s = Some s'" by auto
      then show ?thesis using ask_children_vstep rec live r by blast
    next
      case (Some "is")
      with v' True have l: "loop_all (\<lambda>i s. ask_children rec (Sub i) d s) is s = Some s'" by auto
      show ?thesis
        by (rule loop_all_vstep [OF _ live l])
           (use views_at_ref [OF ok(2) r Some] vstep_ref ask_children_vstep [OF rec] in blast)
    qed
  next
    case False
    let ?s = "put_decision r (dn_nodeIndex d) dec s"
    have "tri dec"
      unfolding dec_def by (intro hub_decision_tri monitored_tri [OF ok(1,2) r ok(3) d])
    with False have s1: "vstep env s ?s"
      using vstep_put_decision [OF live r hub_index_less [OF ok(1) d]] by (auto simp: tri_def)
    have "send_up rec env r (dn_name d) (dn_parents d) ?s = Some s'"
      using v' False by auto
    then have "vstep env ?s s'"
      using send_up_vstep rec vstep_live [OF live s1] vstep_ref [OF s1] r by blast
    with s1 live show ?thesis by (blast intro: vstep_trans)
  qed
qed

lemma sup_accept_node_vstep:
  assumes "good_rec env rec" and "live env s" and "ref_ok (v_ev s) r"
    and "sup_accept_node rec env r c s = Some (b, s')"
  shows "vstep env s s'"
  using assms vstep_refl [OF assms(2)]
  by (cases c)
     (auto split: option.splits if_splits dest: sup_visit_alg_vstep sup_visit_hub_vstep)

lemma sup_accept_good: "good_rec env (sup_accept fuel env)"
proof (induction fuel)
  case (Suc fuel)
  then show ?case
    using sup_accept_node_vstep unfolding good_rec_def sup_accept.simps by blast
qed (simp add: good_rec_def)

lemma updater_visit_vstep:
  assumes live: "live env s" and r: "ref_ok (v_ev s) r"
    and v: "updater_visit fuel env r n s = Some (b, s')"
  shows "vstep env s s'"
proof -
  let ?rec = "sup_accept fuel env"
  obtain a where a: "alg_node (e_graph env) n = Some a"
    using v by (auto simp: updater_visit_def split: option.splits)
  define dec where "dec = algorithm_decision a (alg_state_of (v_ev s) r (an_algoIndex a))"
  show ?thesis
  proof (cases "dec = - 1")
    case True
    with v a show ?thesis
      using vstep_refl [OF live] by (auto simp: updater_visit_def Let_def dec_def)
  next
    case False
    define s1 where "s1 = put_decision r (an_nodeIndex a) dec s"
    obtain s2 where l: "loop_all (\<lambda>h s. case data_node_at (e_graph env) h of
          None \<Rightarrow> None
        | Some d \<Rightarrow> loop_all (\<lambda>c s. map_option snd (drp_accept_alg ?rec env r c s)) (da_consumers d) s)
        (an_outputs a) s1 = Some s2"
      and up: "send_up ?rec env r n (an_parents a) s2 = Some s'"
      using v a False by (auto simp: updater_visit_def Let_def dec_def s1_def bind_eq_Some_conv)
    have ok: "graph_ok (e_graph env)" using live by (simp add: live_def)
    have "dec \<in> {0, 1}" using False by (auto simp: dec_def algorithm_decision_def split: if_splits)
    then have s1: "vstep env s s1"
      unfolding s1_def using live r alg_index_less(2) [OF ok a] by (intro vstep_put_decision)
    have inner: "vstep env t t'"
      if "live env t" "vstep env s1 t" "loop_all (\<lambda>c s. map_option snd (drp_accept_alg ?rec env r c s)) cs t = Some t'"
      for t t' cs
    proof (rule loop_all_vstep [OF _ that(1,3)])
      fix c u u'
      assume u: "live env u" "vstep env t u" "map_option snd (drp_accept_alg ?rec env r c u) = Some u'"
      have "ref_ok (v_ev u) r"
        using r vstep_ref [OF u(2)] vstep_ref [OF that(2)] vstep_ref [OF s1] by simp
      with u(3) drp_accept_alg_vstep [OF sup_accept_good u(1)] show "vstep env u u'" by auto
    qed
    have s2: "vstep env s1 s2"
      by (rule loop_all_vstep [OF _ vstep_live [OF live s1] l])
         (use inner in \<open>auto split: option.splits\<close>)
    have "vstep env s2 s'"
      using send_up_vstep [OF sup_accept_good _ _ up] vstep_live vstep_ref live s1 s2 r by blast
    then show ?thesis using s1 s2 live vstep_trans vstep_live by meson
  qed
qed

lemma iterate_vstep:
  assumes "live env s" and "ref_ok (v_ev s) r" and "iterate fuel env r s = Some (sc, s')"
  shows "vstep env s s' \<and> sc = SUCCESS"
  using assms updater_visit_vstep [OF assms(1,2)] good_recD [OF sup_accept_good assms(1,2)]
  by (auto simp: iterate_def split: if_splits option.splits)

end
