(* ===== verification/Promoter_Runs.thy ===== *)
theory Promoter_Runs
  imports Promoter_Facts
begin

text \<open>
  The visitors end. Every recursive call of \<open>Supervisor\<close> and \<open>DataReadyPromoter\<close> either comes
  after a decision was taken, or goes down the control flow, or up to the producer of a
  condition, or leaves a sub-slot. \<open>cost\<close> counts this, so that fuel above \<open>visit_fuel\<close>, a bound
  computed from the sizes of slot and graph, is always enough; and with more fuel the result
  is the same.
\<close>

section \<open>Loops\<close>

lemma loop_all_total:
  assumes step: "\<And>x s. x \<in> set xs \<Longrightarrow> I s \<Longrightarrow> \<exists>s'. f x s = Some s' \<and> I s'" and "I s"
  shows "loop_all f xs s \<noteq> None"
proof -
  have "set ys \<subseteq> set xs \<Longrightarrow> I t \<Longrightarrow> loop_all f ys t \<noteq> None" for ys t
  proof (induction ys arbitrary: t)
    case (Cons y ys)
    then obtain u where "f y t = Some u" "I u" using step [of y t] by auto
    with Cons show ?case by simp
  qed simp
  with assms(2) show ?thesis by blast
qed

lemma loop_break_total:
  assumes step: "\<And>x s. x \<in> set xs \<Longrightarrow> I s \<Longrightarrow> \<exists>s'. f x s = Some s' \<and> I s'" and "I s"
  shows "loop_break f stop xs s \<noteq> None"
proof -
  have "set ys \<subseteq> set xs \<Longrightarrow> I t \<Longrightarrow> loop_break f stop ys t \<noteq> None" for ys t
  proof (induction ys arbitrary: t)
    case (Cons y ys)
    then obtain u where "f y t = Some u" "I u" using step [of y t] by auto
    with Cons show ?case by simp
  qed simp
  with assms(2) show ?thesis by blast
qed

section \<open>Fuel does not change a result\<close>

text \<open>\<open>y\<close> gives whatever \<open>x\<close> gives; every construct the visitors use respects this order.\<close>

definition ole :: "'a option \<Rightarrow> 'a option \<Rightarrow> bool" where
  "ole x y \<longleftrightarrow> (\<forall>v. x = Some v \<longrightarrow> y = Some v)"

named_theorems ole_intros

lemma ole_refl [ole_intros]: "ole x x"
  by (simp add: ole_def)

lemma ole_bind [ole_intros]:
  "ole x y \<Longrightarrow> (\<And>v. ole (f v) (g v)) \<Longrightarrow> ole (Option.bind x f) (Option.bind y g)"
  by (auto simp: ole_def bind_eq_Some_conv)

lemma ole_map [ole_intros]: "ole x y \<Longrightarrow> ole (map_option f x) (map_option f y)"
  by (auto simp: ole_def)

lemma ole_if [ole_intros]: "ole a c \<Longrightarrow> ole b d \<Longrightarrow> ole (if P then a else b) (if P then c else d)"
  by simp

lemma ole_case [ole_intros]:
  "ole a b \<Longrightarrow> (\<And>v. ole (f v) (g v)) \<Longrightarrow>
   ole (case x of None \<Rightarrow> a | Some v \<Rightarrow> f v) (case x of None \<Rightarrow> b | Some v \<Rightarrow> g v)"
  by (cases x) simp_all

lemma ole_loop_all [ole_intros]:
  assumes "\<And>x s. ole (f x s) (g x s)"
  shows "ole (loop_all f xs s) (loop_all g xs s)"
  by (induction xs arbitrary: s) (simp_all add: ole_refl ole_bind assms)

lemma ole_loop_break [ole_intros]:
  assumes "\<And>x s. ole (f x s) (g x s)"
  shows "ole (loop_break f stop xs s) (loop_break g stop xs s)"
  by (induction xs arbitrary: s) (simp_all add: ole_refl ole_bind ole_if assms)

definition below :: "accept_fun \<Rightarrow> accept_fun \<Rightarrow> bool" where
  "below rec rec' \<longleftrightarrow> (\<forall>r c s. ole (rec r c s) (rec' r c s))"

lemma below_call [ole_intros]: "below rec rec' \<Longrightarrow> ole (rec r c s) (rec' r c s)"
  by (simp add: below_def)

lemma send_up_mono [ole_intros]:
  "below rec rec' \<Longrightarrow> ole (send_up rec env r n ps s) (send_up rec' env r n ps s)"
  unfolding send_up_def by (intro ole_intros)

lemma ask_children_mono [ole_intros]:
  "below rec rec' \<Longrightarrow> ole (ask_children rec r d s) (ask_children rec' r d s)"
  unfolding ask_children_def by (intro ole_intros)

lemma drp_visit_alg_mono [ole_intros]:
  "below rec rec' \<Longrightarrow> ole (drp_visit_alg rec env r n s) (drp_visit_alg rec' env r n s)"
  unfolding drp_visit_alg_def drp_accept_data_def by (intro ole_intros)

lemma drp_accept_alg_mono [ole_intros]:
  "below rec rec' \<Longrightarrow> ole (drp_accept_alg rec env r n s) (drp_accept_alg rec' env r n s)"
  unfolding drp_accept_alg_def by (intro ole_intros)

lemma sup_visit_alg_mono:
  "below rec rec' \<Longrightarrow> ole (sup_visit_alg rec env r n a s) (sup_visit_alg rec' env r n a s)"
  unfolding sup_visit_alg_def Let_def by (intro ole_intros)

lemma sup_visit_hub_mono:
  "below rec rec' \<Longrightarrow> ole (sup_visit_hub rec env r d s) (sup_visit_hub rec' env r d s)"
  unfolding sup_visit_hub_def Let_def by (intro ole_intros)

lemma sup_accept_node_mono:
  "below rec rec' \<Longrightarrow> ole (sup_accept_node rec env r c s) (sup_accept_node rec' env r c s)"
  by (cases c)
     (simp_all add: ole_case ole_if ole_map ole_refl sup_visit_alg_mono sup_visit_hub_mono)

lemma sup_accept_mono [ole_intros]: "below (sup_accept fuel env) (sup_accept (fuel + k) env)"
proof (induction fuel)
  case (Suc fuel)
  then show ?case unfolding below_def [of "sup_accept (Suc fuel) env"] by (simp add: sup_accept_node_mono)
qed (simp add: below_def ole_def)

lemma iterate_mono: "ole (iterate fuel env r s) (iterate (fuel + k) env r s)"
  unfolding iterate_def updater_visit_def Let_def by (intro ole_intros)

section \<open>The measure\<close>

text \<open>
  What the code relies on to end: hubs are higher than their daughters, a consumer of a
  condition is higher than the producers of the condition, the scouts have fuel for the height,
  and the cause of a traced update is an algorithm of the graph.
\<close>

definition condition_height :: "rules_graph \<Rightarrow> (cf_ref \<Rightarrow> nat) \<Rightarrow> bool" where
  "condition_height g \<rho> \<longleftrightarrow>
     (\<forall>n a h d p. alg_node g n = Some a \<longrightarrow> h \<in> set (an_inputs a) \<longrightarrow> data_node_at g h = Some d \<longrightarrow>
        da_condition d \<longrightarrow> p \<in> set (da_producers d) \<longrightarrow> \<rho> (Alg_Node p) < \<rho> (Alg_Node n))"

definition runnable :: "venv \<Rightarrow> (cf_ref \<Rightarrow> nat) \<Rightarrow> nat \<Rightarrow> bool" where
  "runnable env \<rho> R \<longleftrightarrow>
     graph_ok (e_graph env) \<and> cf_height (e_graph env) \<rho> R \<and> condition_height (e_graph env) \<rho> \<and>
     (\<forall>c. \<rho> c \<le> R) \<and> R < e_scoutFuel env \<and>
     (c_source (e_cause env) = Task \<longrightarrow> alg_node (e_graph env) (c_sourceName (e_cause env)) \<noteq> None)"

definition ready :: "venv \<Rightarrow> vstate \<Rightarrow> bool" where
  "ready env s \<longleftrightarrow> live env s \<and> eventContext (topSlot (v_ev s)) \<noteq> None"

definition refs :: "event_slot \<Rightarrow> slot_ref set" where
  "refs ev = insert Top (Sub ` {..<length (allSubSlots ev)})"

definition undecided :: "rules_graph \<Rightarrow> event_slot \<Rightarrow> (slot_ref \<times> nat) set" where
  "undecided g ev = {(r, n) \<in> refs ev \<times> {..<g_nodeCounter g}. decision_of ev r n = - 1}"

definition weight :: "(cf_ref \<Rightarrow> nat) \<Rightarrow> nat \<Rightarrow> event_slot \<Rightarrow> slot_ref \<Rightarrow> cf_ref \<Rightarrow> nat" where
  "weight \<rho> R ev r c =
     (if r = Top \<or> \<rho> c < \<rho> (Hub_Node (entryPoint (slot_at ev r))) then \<rho> c else R + 1 + \<rho> c)"

definition cost :: "venv \<Rightarrow> (cf_ref \<Rightarrow> nat) \<Rightarrow> nat \<Rightarrow> vstate \<Rightarrow> slot_ref \<Rightarrow> cf_ref \<Rightarrow> nat" where
  "cost env \<rho> R s r c =
     card (undecided (e_graph env) (v_ev s)) * (2 * R + 3) + weight \<rho> R (v_ev s) r c"

definition visit_fuel :: "rules_graph \<Rightarrow> event_slot \<Rightarrow> nat \<Rightarrow> nat" where
  "visit_fuel g ev R = (length (allSubSlots ev) + 1) * g_nodeCounter g * (2 * R + 3) + 2 * R + 2"

lemma ref_ok_refs: "ref_ok ev r \<longleftrightarrow> r \<in> refs ev"
  by (cases r) (auto simp: ref_ok_def refs_def)

lemma undecided_finite [simp]: "finite (undecided g ev)"
  by (rule finite_subset [of _ "refs ev \<times> {..<g_nodeCounter g}"])
     (auto simp: undecided_def refs_def)

lemma undecided_bound: "card (undecided g ev) \<le> (length (allSubSlots ev) + 1) * g_nodeCounter g"
proof -
  have "card (refs ev) \<le> length (allSubSlots ev) + 1"
    unfolding refs_def by (subst card_insert_disjoint) (auto simp: card_image inj_on_def)
  moreover have "card (undecided g ev) \<le> card (refs ev \<times> {..<g_nodeCounter g})"
    by (rule card_mono) (auto simp: undecided_def refs_def)
  ultimately show ?thesis
    using mult_le_mono1 [of "card (refs ev)" _ "g_nodeCounter g"]
    by (simp only: card_cartesian_product card_lessThan) (rule le_trans)
qed

lemma weight_bound: "\<forall>c. \<rho> c \<le> R \<Longrightarrow> weight \<rho> R ev r c \<le> 2 * R + 1"
  by (auto simp: weight_def mult_2 intro: le_trans trans_le_add1)

lemma cost_bound:
  "\<forall>c. \<rho> c \<le> R \<Longrightarrow> cost env \<rho> R s r c < visit_fuel (e_graph env) (v_ev s) R"
proof -
  assume "\<forall>c. \<rho> c \<le> R"
  then have "weight \<rho> R (v_ev s) r c \<le> 2 * R + 1" by (rule weight_bound)
  moreover have "card (undecided (e_graph env) (v_ev s)) * (2 * R + 3)
      \<le> (length (allSubSlots (v_ev s)) + 1) * g_nodeCounter (e_graph env) * (2 * R + 3)"
    by (intro mult_le_mono1 undecided_bound)
  ultimately show ?thesis unfolding cost_def visit_fuel_def by linarith
qed

lemma vstep_undecided:
  assumes "vstep env s s'"
  shows "undecided (e_graph env) (v_ev s') \<subseteq> undecided (e_graph env) (v_ev s)"
proof -
  have "decision_of (v_ev s) r n = - 1"
    if "r \<in> refs (v_ev s')" "n < g_nodeCounter (e_graph env)" "decision_of (v_ev s') r n = - 1" for r n
  proof -
    have "ref_ok (v_ev s) r" using that(1) vstep_ref [OF assms] ref_ok_refs by simp
    with assms that(2) have "decision_of (v_ev s') r n = decision_of (v_ev s) r n \<or>
        decision_of (v_ev s') r n \<in> {0, 1}"
      by (simp add: vstep_def evolves_def frame_evolves_def)
    with that(3) show ?thesis by auto
  qed
  moreover have "refs (v_ev s') = refs (v_ev s)"
    using vstep_ref [OF assms] ref_ok_refs by blast
  ultimately show ?thesis by (auto simp: undecided_def)
qed

lemma vstep_weight:
  "vstep env s s' \<Longrightarrow> ref_ok (v_ev s) r \<Longrightarrow> weight \<rho> R (v_ev s') r c = weight \<rho> R (v_ev s) r c"
  by (simp add: vstep_def evolves_def frame_evolves_def weight_def)

lemma vstep_cost:
  assumes "vstep env s s'" and "ref_ok (v_ev s) r"
  shows "cost env \<rho> R s' r c \<le> cost env \<rho> R s r c"
  using card_mono [OF undecided_finite vstep_undecided [OF assms(1)]] vstep_weight [OF assms]
  by (simp add: cost_def)

lemma vstep_ready: "ready env s \<Longrightarrow> vstep env s s' \<Longrightarrow> ready env s'"
  using vstep_live [of env s s']
  by (auto simp: ready_def vstep_def evolves_def frame_evolves_def ref_ok_def
      dest!: spec [of _ Top])

lemma ready_context:
  assumes "ready env s" and "ref_ok (v_ev s) r"
  shows "\<exists>ctx. eventContext (slot_at (v_ev s) r) = Some ctx"
  using assms by (cases r) (auto simp: ready_def live_def slot_ok_def sub_ok_def ref_ok_def)

text \<open>After a new decision anything is cheaper than before.\<close>

lemma decided_cost:
  assumes R: "\<forall>c. \<rho> c \<le> R" and s: "live env s" and r: "ref_ok (v_ev s) r"
    and n: "n < g_nodeCounter (e_graph env)" and d: "d \<in> {0, 1}"
    and new: "decision_of (v_ev s) r n = - 1"
  shows "cost env \<rho> R (put_decision r n d s) r' c + 1 < cost env \<rho> R s r c'"
proof -
  let ?s = "put_decision r n d s"
  have st: "vstep env s ?s" using s r n d by (rule vstep_put_decision)
  have len: "n < length (controlFlowState (slot_at (v_ev s) r))"
    using s n graph_frame [OF _ r] by (auto simp: live_def)
  have "(r, n) \<in> undecided (e_graph env) (v_ev s)"
    using r n new ref_ok_refs by (simp add: undecided_def)
  moreover have "(r, n) \<notin> undecided (e_graph env) (v_ev ?s)"
    using d decision_of_set [OF r len, of d r n] by (auto simp: undecided_def put_decision_def)
  ultimately have "undecided (e_graph env) (v_ev ?s) \<subset> undecided (e_graph env) (v_ev s)"
    using vstep_undecided [OF st] by blast
  then have "card (undecided (e_graph env) (v_ev ?s)) + 1 \<le> card (undecided (e_graph env) (v_ev s))"
    using psubset_card_mono [OF undecided_finite, of "undecided (e_graph env) (v_ev ?s)"] by (simp only: Suc_leI Suc_eq_plus1 [symmetric])
  from mult_le_mono1 [OF this, of "2 * R + 3"]
  have "card (undecided (e_graph env) (v_ev ?s)) * (2 * R + 3) + (2 * R + 3)
      \<le> card (undecided (e_graph env) (v_ev s)) * (2 * R + 3)"
    by (simp only: add_mult_distrib mult_1)
  moreover have "weight \<rho> R (v_ev ?s) r' c \<le> 2 * R + 1" using R by (rule weight_bound)
  ultimately show ?thesis unfolding cost_def by linarith
qed

section \<open>Every call returns\<close>

definition total_rec :: "venv \<Rightarrow> (cf_ref \<Rightarrow> nat) \<Rightarrow> nat \<Rightarrow> nat \<Rightarrow> accept_fun \<Rightarrow> bool" where
  "total_rec env \<rho> R B rec \<longleftrightarrow> good_rec env rec \<and>
     (\<forall>r c s. ready env s \<longrightarrow> ref_ok (v_ev s) r \<longrightarrow> node_exists (e_graph env) c \<longrightarrow>
        cost env \<rho> R s r c < B \<longrightarrow> rec r c s \<noteq> None)"

lemma ready_live: "ready env s \<Longrightarrow> live env s"
  by (simp add: ready_def)

text \<open>A call made from a state that evolved from \<open>s\<close>, and what holds after it.\<close>

definition onward :: "venv \<Rightarrow> vstate \<Rightarrow> vstate \<Rightarrow> bool" where
  "onward env s t \<longleftrightarrow> ready env t \<and> vstep env s t"

lemma onward_refl: "ready env s \<Longrightarrow> onward env s s"
  by (simp add: onward_def vstep_refl ready_live)

lemma onward_step: "ready env s \<Longrightarrow> onward env s t \<Longrightarrow> vstep env t t' \<Longrightarrow> onward env s t'"
  by (meson onward_def ready_live vstep_ready vstep_trans)

lemma onward_call:
  assumes "total_rec env \<rho> R B rec" and "ready env s" and "onward env s t"
    and "ref_ok (v_ev s) r" and "node_exists (e_graph env) c" and "cost env \<rho> R s r c < B"
  shows "\<exists>b t'. rec r c t = Some (b, t') \<and> onward env s t'"
proof -
  have t: "ready env t" "vstep env s t" "ref_ok (v_ev t) r"
    using assms(3,4) vstep_ref by (auto simp: onward_def)
  have "cost env \<rho> R t r c < B"
    using vstep_cost [OF t(2) assms(4), of \<rho> R c] assms(6) by simp
  with assms(1,5) t obtain b t' where "rec r c t = Some (b, t')"
    by (fastforce simp: total_rec_def)
  moreover from this have "vstep env t t'"
    using assms(1) t good_recD by (auto simp: total_rec_def ready_def)
  ultimately show ?thesis using onward_step [OF assms(2,3)] by blast
qed

lemma scout_replies:
  assumes "runnable env \<rho> R" and "hub_node (e_graph env) p \<noteq> None"
  shows "\<exists>b. (if parentSlot r \<noteq> None then subslot_reply else lineage_reply)
    (e_scoutFuel env) (e_graph env) ev r n p = Some b"
proof -
  have ok: "graph_ok (e_graph env)" and ht: "cf_height (e_graph env) \<rho> R"
    and fuel: "R < e_scoutFuel env + \<rho> (Hub_Node p)"
    using assms(1) by (simp_all add: runnable_def)
  have "lineage_reply (e_scoutFuel env) (e_graph env) ev r n p \<noteq> None"
    using lineage_visit_spec [OF ok ht assms(2) fuel] by (simp add: lineage_reply_def)
  moreover have "subslot_reply (e_scoutFuel env) (e_graph env) ev r n p \<noteq> None"
    using subslot_visit_spec [OF ok ht assms(2) fuel, of ev r n] by (auto simp: subslot_reply_def)
  ultimately show ?thesis by auto
qed

lemma send_up_total:
  assumes run: "runnable env \<rho> R" and rec: "total_rec env \<rho> R B rec" and s: "ready env s"
    and r: "ref_ok (v_ev s) r"
    and ps: "\<forall>p \<in> set ps. hub_node (e_graph env) p \<noteq> None \<and> cost env \<rho> R s r (Hub_Node p) < B"
  shows "send_up rec env r n ps s \<noteq> None"
proof (cases "length ps = 1")
  case True
  then have "ps ! 0 \<in> set ps" by (intro nth_mem) simp
  with onward_call [OF rec s onward_refl [OF s] r, of "Hub_Node (ps ! 0)"] ps True
  show ?thesis by (auto simp: send_up_def)
next
  case False
  show ?thesis
    unfolding send_up_def if_not_P [OF False]
  proof (rule loop_all_total [where I = "onward env s"])
    show "onward env s s" using s by (rule onward_refl)
    fix p t
    assume p: "p \<in> set ps" and t: "onward env s t"
    obtain b where b: "(if parentSlot r \<noteq> None then subslot_reply else lineage_reply)
        (e_scoutFuel env) (e_graph env) (v_ev t) r n p = Some b"
      using scout_replies [OF run] ps p by blast
    have call: "\<exists>b' t'. rec r (Hub_Node p) t = Some (b', t') \<and> onward env s t'"
      using ps p by (intro onward_call [OF rec s t r]) auto
    show "\<exists>s'. Option.bind ((if parentSlot r \<noteq> None then subslot_reply else lineage_reply)
            (e_scoutFuel env) (e_graph env) (v_ev t) r n p)
          (\<lambda>reply. if reply then map_option snd (rec r (Hub_Node p) t) else Some t) = Some s' \<and>
        onward env s s'"
      unfolding b using call t by (cases b) auto
  qed
qed

lemma ask_children_total:
  assumes rec: "total_rec env \<rho> R B rec" and s0: "ready env s0" and s: "onward env s0 s"
    and r: "ref_ok (v_ev s0) r"
    and cs: "\<forall>c \<in> set (dn_children d). node_exists (e_graph env) c \<and> cost env \<rho> R s0 r c < B"
  shows "\<exists>s'. ask_children rec r d s = Some s' \<and> onward env s0 s'"
proof -
  have "ask_children rec r d s \<noteq> None"
    unfolding ask_children_def option.map_disc_iff
    by (rule loop_break_total [where I = "\<lambda>p. onward env s0 (snd p)"])
       (use s cs onward_call [OF rec s0 _ r] in fastforce)+
  then obtain s' where s': "ask_children rec r d s = Some s'" by blast
  have "vstep env s s'"
    using rec s r vstep_ref ask_children_vstep [OF _ _ _ s'] by (auto simp: total_rec_def onward_def ready_def)
  with s' onward_step [OF s0 s] show ?thesis by blast
qed

lemma weight_mono: "\<rho> p < \<rho> c \<Longrightarrow> weight \<rho> R ev r p < weight \<rho> R ev r c"
  by (auto simp: weight_def)

lemma cost_mono: "\<rho> p < \<rho> c \<Longrightarrow> cost env \<rho> R s r p < cost env \<rho> R s r c"
  by (simp add: cost_def weight_mono)

lemma drp_visit_alg_total:
  assumes run: "runnable env \<rho> R" and rec: "total_rec env \<rho> R B rec" and s: "ready env s"
    and r: "ref_ok (v_ev s) r" and a: "alg_node (e_graph env) n = Some a"
    and B: "cost env \<rho> R s r (Alg_Node n) \<le> B"
  shows "drp_visit_alg rec env r n s \<noteq> None"
proof -
  let ?g = "e_graph env"
  have link: "inputs_from ?g = consumed_by ?g" "outputs_to ?g = produced_by ?g"
    using run by (simp_all add: runnable_def graph_ok_def linked_def)
  have step: "\<exists>p'. drp_accept_data rec env r h (snd p) = Some p' \<and> onward env s (snd p')"
    if h: "h \<in> set (an_inputs a)" and p: "onward env s (snd p)" for h p
  proof -
    have "inputs_from ?g n h" using a h by (simp add: inputs_from_def)
    then obtain d where d: "data_node_at ?g h = Some d" using link by (auto simp: consumed_by_def)
    obtain ctx where ctx: "eventContext (slot_at (v_ev (snd p)) r) = Some ctx"
      using p r vstep_ref [of env s "snd p"] ready_context [of env "snd p" r]
      by (auto simp: onward_def)
    have "loop_all (\<lambda>q s. map_option snd (rec r (Alg_Node q) s)) (da_producers d) (snd p) \<noteq> None"
      if cond: "da_condition d"
    proof (rule loop_all_total [where I = "onward env s"])
      fix q t assume q: "q \<in> set (da_producers d)" and t: "onward env s t"
      then have "produced_by ?g q h" using d by (auto simp: produced_by_def)
      then have "outputs_to ?g q h" by (simp add: link(2))
      then have ex: "node_exists ?g (Alg_Node q)" by (auto simp: outputs_to_def)
      have "\<rho> (Alg_Node q) < \<rho> (Alg_Node n)"
        using run a h d cond q by (auto simp: runnable_def condition_height_def)
      then have "cost env \<rho> R s r (Alg_Node q) < B"
        using cost_mono [of \<rho> "Alg_Node q" "Alg_Node n" env R s r] B by simp
      from onward_call [OF rec s t r ex this]
      show "\<exists>s'. map_option snd (rec r (Alg_Node q) t) = Some s' \<and> onward env s s'" by auto
    qed (use p in simp)
    then have "drp_accept_data rec env r h (snd p) \<noteq> None"
      by (auto simp: drp_accept_data_def d ctx)
    then obtain b t where acc: "drp_accept_data rec env r h (snd p) = Some (b, t)" by auto
    have "vstep env (snd p) t"
      using drp_accept_data_vstep [OF _ _ _ acc] rec p r vstep_ref
      by (auto simp: total_rec_def onward_def ready_def)
    with acc onward_step [OF s p] show ?thesis by auto
  qed
  have "loop_break (\<lambda>h p. drp_accept_data rec env r h (snd p)) (\<lambda>p. \<not> fst p)
      (an_inputs a) (True, s) \<noteq> None"
    by (rule loop_break_total [where I = "\<lambda>p. onward env s (snd p)"])
       (use step onward_refl [OF s] in auto)
  then obtain p where p: "loop_break (\<lambda>h p. drp_accept_data rec env r h (snd p)) (\<lambda>p. \<not> fst p)
      (an_inputs a) (True, s) = Some p" by blast
  show ?thesis
    using run by (auto simp: drp_visit_alg_def a p Let_def runnable_def split: option.splits)
qed

lemma sup_visit_alg_total:
  assumes run: "runnable env \<rho> R" and rec: "total_rec env \<rho> R B rec" and s: "ready env s"
    and r: "ref_ok (v_ev s) r" and a: "alg_node (e_graph env) n = Some a"
    and B: "cost env \<rho> R s r (Alg_Node n) \<le> B"
  shows "sup_visit_alg rec env r n a s \<noteq> None"
proof (cases "alg_state_of (v_ev s) r (an_algoIndex a) = INITIAL")
  case True
  let ?s = "put_state r (an_algoIndex a) CONTROLREADY s"
  note s1 = vstep_put_control_ready [OF ready_live [OF s] r a True]
  have "cost env \<rho> R ?s r (Alg_Node n) \<le> B"
    using vstep_cost [OF s1(1) r] B le_trans by blast
  moreover have "ref_ok (v_ev ?s) r" using r vstep_ref [OF s1(1)] by simp
  ultimately show ?thesis
    using drp_visit_alg_total [OF run rec vstep_ready [OF s s1(1)] _ a] True
    by (simp add: sup_visit_alg_def Let_def s1(2))
next
  case False
  then show ?thesis
    using drp_visit_alg_total [OF run rec s r a B] by (auto simp: sup_visit_alg_def Let_def)
qed

lemma view_entry:
  assumes "slot_ok na nn ev" and "ref_ok ev r" and "views_at ev r n = Some is"
  shows "\<forall>i \<in> set is. r = Top \<and> ref_ok ev (Sub i) \<and> entryPoint (slot_at ev (Sub i)) = n"
proof (cases r)
  case Top
  then have "views_of ev n = is" using assms(3) by (simp add: views_at_def views_of_def)
  with assms(1) Top show ?thesis by (auto simp: slot_ok_def views_ok_def ref_ok_def)
next
  case (Sub j)
  with assms show ?thesis by (simp add: slot_ok_def sub_ok_def views_at_def ref_ok_def)
qed

lemma sup_visit_hub_total:
  assumes run: "runnable env \<rho> R" and rec: "total_rec env \<rho> R B rec" and s: "ready env s"
    and r0: "ref_ok (v_ev s) r0" and d: "hub_node (e_graph env) n = Some d"
    and und: "decision_of (v_ev s) r0 (dn_nodeIndex d) = - 1"
    and B: "cost env \<rho> R s r0 (Hub_Node n) \<le> B"
  shows "sup_visit_hub rec env r0 d s \<noteq> None"
proof -
  let ?g = "e_graph env"
  define exit where "exit = (parentSlot r0 \<noteq> None \<and> entryPoint (slot_at (v_ev s) r0) = dn_name d)"
  define r where "r = (if exit then Top else r0)"
  define dec where "dec = hub_decision d (monitor_children ?g (v_ev s) r d)"
  have ok: "graph_ok ?g" "graph_slot ?g (v_ev s)" "tri_slot ?g (v_ev s)"
    and ht: "cf_height ?g \<rho> R" and R: "\<forall>c. \<rho> c \<le> R"
    using run s by (simp_all add: runnable_def ready_def live_def)
  have name: "dn_name d = n" using hub_name [OF ok(1) d] .
  have r: "ref_ok (v_ev s) r" using r0 by (simp add: r_def ref_ok_def)
  have exit_cost: "cost env \<rho> R s Top c < B" if exit for c
    using that B R [rule_format, of c]
    by (cases r0) (auto simp: exit_def name cost_def weight_def)
  have child: "node_exists ?g c \<and> \<rho> c < \<rho> (Hub_Node n)" if "c \<in> set (dn_children d)" for c
    using daughter_exists [OF ok(1) d that] ht d that by (auto simp: cf_height_def)
  have unfold: "sup_visit_hub rec env r0 d s =
     (if dec \<noteq> - 1
      then map_option (\<lambda>s. (True, s))
             (send_up rec env r (dn_name d) (dn_parents d) (put_decision r (dn_nodeIndex d) dec s))
      else map_option (\<lambda>s. (False, s))
             (case views_at (v_ev s) r (dn_name d) of
                Some is \<Rightarrow> loop_all (\<lambda>i s. ask_children rec (Sub i) d s) is s
              | None \<Rightarrow> ask_children rec r d s))"
    unfolding sup_visit_hub_def Let_def r_def dec_def exit_def ..
  show ?thesis
  proof (cases "dec = - 1")
    case False
    let ?s = "put_decision r (dn_nodeIndex d) dec s"
    have "tri dec"
      unfolding dec_def by (intro hub_decision_tri monitored_tri [OF ok(1,2) r ok(3) d])
    with False have dec: "dec \<in> {0, 1}" by (auto simp: tri_def)
    note idx = hub_index_less [OF ok(1) d]
    have st: "vstep env s ?s" using ready_live [OF s] r idx dec by (rule vstep_put_decision)
    have "cost env \<rho> R ?s r (Hub_Node p) < B" for p
    proof (cases exit)
      case True
      then have "cost env \<rho> R s r (Hub_Node p) < B" using exit_cost by (simp add: r_def)
      then show ?thesis using vstep_cost [OF st r, of \<rho> R "Hub_Node p"] by simp
    next
      case False
      then show ?thesis
        using decided_cost [OF R ready_live [OF s] r idx dec, of r "Hub_Node p" "Hub_Node n"] und B
        by (simp add: r_def)
    qed
    then have "send_up rec env r (dn_name d) (dn_parents d) ?s \<noteq> None"
      using height_parent [OF ok(1) ht d] r vstep_ref [OF st]
      by (intro send_up_total [OF run rec vstep_ready [OF s st]]) auto
    with False show ?thesis by (simp add: unfold)
  next
    case True
    show ?thesis
    proof (cases "views_at (v_ev s) r (dn_name d)")
      case None
      have "cost env \<rho> R s r c < B" if "c \<in> set (dn_children d)" for c
        using exit_cost [of c] cost_mono [of \<rho> c "Hub_Node n" env R s r0] child [OF that] B
        by (cases exit) (auto simp: r_def)
      then have "\<exists>s'. ask_children rec r d s = Some s' \<and> onward env s s'"
        using child by (intro ask_children_total [OF rec s onward_refl [OF s] r]) auto
      with True None show ?thesis by (auto simp: unfold)
    next
      case (Some "is")
      have entry: "\<forall>i \<in> set is. r = Top \<and> ref_ok (v_ev s) (Sub i) \<and> entryPoint (slot_at (v_ev s) (Sub i)) = n"
        using view_entry [OF ok(2) r Some] by (simp add: name)
      have "cost env \<rho> R s (Sub i) c < B" if i: "i \<in> set is" and c: "c \<in> set (dn_children d)" for i c
      proof -
        have "weight \<rho> R (v_ev s) (Sub i) c = \<rho> c" using entry i child [OF c] by (simp add: weight_def)
        also have "\<rho> c < weight \<rho> R (v_ev s) r0 (Hub_Node n)"
          using child [OF c] by (auto simp: weight_def)
        finally show ?thesis using B by (simp add: cost_def)
      qed
      then have "\<exists>t'. ask_children rec (Sub i) d t = Some t' \<and> onward env s t'"
        if "i \<in> set is" "onward env s t" for i t
        using that entry child by (intro ask_children_total [OF rec s]) auto
      then have "loop_all (\<lambda>i s. ask_children rec (Sub i) d s) is s \<noteq> None"
        by (intro loop_all_total [where I = "onward env s"]) (auto intro: onward_refl [OF s])
      with True Some show ?thesis by (simp add: unfold)
    qed
  qed
qed

lemma sup_accept_total: "runnable env \<rho> R \<Longrightarrow> total_rec env \<rho> R fuel (sup_accept fuel env)"
proof (induction fuel)
  case 0
  then show ?case using sup_accept_good [of env 0] by (simp add: total_rec_def)
next
  case (Suc fuel)
  note rec = Suc.IH [OF Suc.prems]
  have "sup_accept_node (sup_accept fuel env) env r c s \<noteq> None"
    if "ready env s" "ref_ok (v_ev s) r" "node_exists (e_graph env) c" "cost env \<rho> R s r c < Suc fuel"
    for r c s
  proof (cases c)
    case (Alg_Node n)
    with that obtain a where "alg_node (e_graph env) n = Some a" by auto
    with Alg_Node that sup_visit_alg_total [OF Suc.prems rec that(1,2), of n a] show ?thesis by auto
  next
    case (Hub_Node n)
    with that obtain d where "hub_node (e_graph env) n = Some d" by auto
    with Hub_Node that sup_visit_hub_total [OF Suc.prems rec that(1,2), of n d] show ?thesis by auto
  qed
  then show ?case using sup_accept_good [of env "Suc fuel"] by (simp add: total_rec_def)
qed

lemma updater_visit_total:
  assumes run: "runnable env \<rho> R" and s: "ready env s" and r: "ref_ok (v_ev s) r"
    and a: "alg_node (e_graph env) n = Some a" and fuel: "visit_fuel (e_graph env) (v_ev s) R \<le> fuel"
  shows "updater_visit fuel env r n s \<noteq> None"
proof -
  let ?g = "e_graph env" and ?rec = "sup_accept fuel env"
  define dec where "dec = algorithm_decision a (alg_state_of (v_ev s) r (an_algoIndex a))"
  note rec = sup_accept_total [OF run, of fuel]
  have ok: "graph_ok ?g" and R: "\<forall>c. \<rho> c \<le> R" using run by (simp_all add: runnable_def)
  have cost: "cost env \<rho> R t r c \<le> fuel" "cost env \<rho> R t r c < fuel" if "onward env s t" for t c
    using cost_bound [OF R, of env s r c] vstep_cost [OF _ r, of env t \<rho> R c] that fuel
    by (auto simp: onward_def)
  show ?thesis
  proof (cases "dec = - 1")
    case True
    then show ?thesis by (auto simp: updater_visit_def a dec_def Let_def)
  next
    case False
    then have d: "dec \<in> {0, 1}" by (auto simp: dec_def algorithm_decision_def split: if_splits)
    let ?s = "put_decision r (an_nodeIndex a) dec s"
    have s1: "onward env s ?s"
      using vstep_put_decision [OF ready_live [OF s] r alg_index_less(2) [OF ok a] d]
      by (rule onward_step [OF s onward_refl [OF s]])
    have consumer: "\<exists>t'. map_option snd (drp_accept_alg ?rec env r c t) = Some t' \<and> onward env s t'"
      if t: "onward env s t" and c: "alg_node ?g c \<noteq> None" for c t
    proof -
      obtain b where b: "alg_node ?g c = Some b" using c by blast
      have rt: "ready env t" "ref_ok (v_ev t) r" using t r vstep_ref by (auto simp: onward_def)
      have "drp_accept_alg ?rec env r c t \<noteq> None"
        using drp_visit_alg_total [OF run rec rt b cost(1) [OF t]] by (auto simp: drp_accept_alg_def b)
      then obtain q t' where acc: "drp_accept_alg ?rec env r c t = Some (q, t')" by auto
      with drp_accept_alg_vstep [OF sup_accept_good ready_live [OF rt(1)] rt(2) acc]
        onward_step [OF s t] show ?thesis by auto
    qed
    have outp: "\<exists>t'. (case data_node_at ?g h of None \<Rightarrow> None
        | Some d \<Rightarrow> loop_all (\<lambda>c s. map_option snd (drp_accept_alg ?rec env r c s)) (da_consumers d) t)
        = Some t' \<and> onward env s t'"
      if h: "h \<in> set (an_outputs a)" and t: "onward env s t" for h t
    proof -
      have "outputs_to ?g n h" using a h by (simp add: outputs_to_def)
      then have "produced_by ?g n h" using ok by (simp add: graph_ok_def linked_def)
      then obtain d where d: "data_node_at ?g h = Some d" by (auto simp: produced_by_def)
      have ex: "alg_node ?g c \<noteq> None" if "c \<in> set (da_consumers d)" for c
      proof -
        have "consumed_by ?g c h" using d that by (auto simp: consumed_by_def)
        then have "inputs_from ?g c h" using ok by (simp add: graph_ok_def linked_def)
        then show ?thesis by (auto simp: inputs_from_def)
      qed
      have "loop_all (\<lambda>c s. map_option snd (drp_accept_alg ?rec env r c s)) (da_consumers d) t \<noteq> None"
        by (rule loop_all_total [where I = "onward env s"]) (use consumer ex t in auto)
      then obtain t' where l: "loop_all (\<lambda>c s. map_option snd (drp_accept_alg ?rec env r c s))
          (da_consumers d) t = Some t'" by blast
      have "onward env s t'"
        by (rule loop_all_inv [where I = "onward env s", OF _ t l]) (use consumer ex in fastforce)
      with d l show ?thesis by simp
    qed
    have "loop_all (\<lambda>h s. case data_node_at ?g h of None \<Rightarrow> None
        | Some d \<Rightarrow> loop_all (\<lambda>c s. map_option snd (drp_accept_alg ?rec env r c s)) (da_consumers d) s)
        (an_outputs a) ?s \<noteq> None"
      by (rule loop_all_total [where I = "onward env s"]) (use outp s1 in auto)
    then obtain s2 where l: "loop_all (\<lambda>h s. case data_node_at ?g h of None \<Rightarrow> None
        | Some d \<Rightarrow> loop_all (\<lambda>c s. map_option snd (drp_accept_alg ?rec env r c s)) (da_consumers d) s)
        (an_outputs a) ?s = Some s2" by blast
    have s2: "onward env s s2"
      by (rule loop_all_inv [where I = "onward env s", OF _ s1 l]) (use outp in fastforce)
    have "hub_node ?g p \<noteq> None" if "p \<in> set (an_parents a)" for p
    proof -
      have "parent_of ?g p (Alg_Node n)" using a that by simp
      then have "daughter ?g p (Alg_Node n)" using ok by (simp add: graph_ok_def linked_def)
      then show ?thesis by (auto simp: daughter_def)
    qed
    then have "send_up ?rec env r n (an_parents a) s2 \<noteq> None"
      using s2 cost(2) [OF s2] r vstep_ref
      by (intro send_up_total [OF run rec]) (auto simp: onward_def)
    with False show ?thesis by (auto simp: updater_visit_def a Let_def dec_def [symmetric] l)
  qed
qed

lemma iterate_total:
  assumes "runnable env \<rho> R" and "ready env s" and "ref_ok (v_ev s) r"
    and "visit_fuel (e_graph env) (v_ev s) R \<le> fuel"
    and "g_head (e_graph env) = Some h" and "hub_node (e_graph env) h \<noteq> None"
  shows "iterate fuel env r s \<noteq> None"
proof (cases "c_source (e_cause env) = Task")
  case True
  with assms(1) obtain a where "alg_node (e_graph env) (c_sourceName (e_cause env)) = Some a"
    by (auto simp: runnable_def)
  from updater_visit_total [OF assms(1-3) this assms(4)] True show ?thesis by (auto simp: iterate_def)
next
  case False
  have "cost env \<rho> R s r (Hub_Node h) < fuel"
    using cost_bound [of \<rho> R env s r "Hub_Node h"] assms(1,4) by (simp add: runnable_def)
  then have "sup_accept fuel env r (Hub_Node h) s \<noteq> None"
    using sup_accept_total [OF assms(1), of fuel] assms(2,3,6) by (simp add: total_rec_def)
  with False assms(5) show ?thesis by (auto simp: iterate_def)
qed

section \<open>Properties\<close>

text \<open>
  C6. One iteration of the precedence rules ends: on every graph built by the operations whose
  hubs and conditions have heights, from any slot with a context and the invariant, in the
  event slot or one of its views, it returns SUCCESS, with a result that does not depend on
  the fuel beyond a bound computed from the number of slots, the number of nodes and the height.
\<close>

theorem iterate_terminates:
  assumes "e_graph env = build ops new_graph" and "runnable env \<rho> R" and "ready env s"
    and "ref_ok (v_ev s) r" and "g_head (e_graph env) = Some h" and "hub_node (e_graph env) h \<noteq> None"
  shows "\<exists>s'. \<forall>fuel \<ge> visit_fuel (e_graph env) (v_ev s) R. iterate fuel env r s = Some (SUCCESS, s')"
proof -
  let ?B = "visit_fuel (e_graph env) (v_ev s) R"
  obtain sc s' where it: "iterate ?B env r s = Some (sc, s')"
    using iterate_total [OF assms(2-4) order_refl assms(5,6)] by auto
  have "sc = SUCCESS" using iterate_vstep [OF ready_live [OF assms(3)] assms(4) it] by simp
  moreover have "iterate fuel env r s = Some (sc, s')" if "?B \<le> fuel" for fuel
    using that it iterate_mono [of ?B env r s "fuel - ?B"] by (simp add: ole_def)
  ultimately show ?thesis by auto
qed

text \<open>Two algorithms below a head, the second reading what the first writes.\<close>

definition run_ops :: "build_op list" where
  "run_ops = [Head ''h'' example_modes,
     Add_alg ((example_alg ''a'')\<lparr>ga_outputs := [doid_of_key (\<lambda>s. of_nat (length s)) ''x'']\<rparr>) ''h'' False False,
     Add_alg ((example_alg ''b'')\<lparr>ga_inputs := [doid_of_key (\<lambda>s. of_nat (length s)) ''x'']\<rparr>) ''h'' False False,
     Initialize None]"

definition run_env :: "cause \<Rightarrow> venv" where
  "run_env c = \<lparr>e_graph = build run_ops new_graph,
     e_cond = \<lparr>cs_condAlgs = [], cs_isRegistered = \<lambda>d. False, cs_isValidID = \<lambda>c d. False\<rparr>,
     e_cause = c, e_trace = True, e_scoutFuel = 2\<rparr>"

definition root_cause :: cause where
  "root_cause = \<lparr>c_source = Root, c_sourceName = ''''\<rparr>"

definition run_start :: vstate where
  "run_start = \<lparr>v_ev = reset_slot ctx_default (new_slot 2 3),
     v_trace = \<lparr>pt_vertices = [], pt_edges = [], pt_map = []\<rparr>\<rparr>"

lemma run_graph:
  "map fst (g_hubs (build run_ops new_graph)) = [''h''] \<and> map fst (g_algs (build run_ops new_graph)) = [''a'', ''b'']
   \<and> map (dn_children \<circ> snd) (g_hubs (build run_ops new_graph)) = [[Alg_Node ''a'', Alg_Node ''b'']]
   \<and> list_all (\<lambda>p. \<not> da_condition (snd p)) (g_data (build run_ops new_graph))
   \<and> g_nodeCounter (build run_ops new_graph) = 3 \<and> g_algoCounter (build run_ops new_graph) = 2
   \<and> g_head (build run_ops new_graph) = Some ''h''"
  by code_simp

lemma run_runnable: "runnable (run_env root_cause) (case_cf_ref (\<lambda>n. 0) (\<lambda>n. 1)) 1"
proof -
  let ?g = "build run_ops new_graph"
  have "dn_children d = [Alg_Node ''a'', Alg_Node ''b'']" if "hub_node ?g h = Some d" for h d
    using run_graph map_of_SomeD [OF that] by auto
  moreover have "\<not> da_condition d" if "data_node_at ?g x = Some d" for x d
    using run_graph map_of_SomeD [OF that] by (auto simp: list_all_iff)
  ultimately show ?thesis
    using build_ok [OF new_graph_ok, of run_ops]
    by (auto simp: runnable_def run_env_def root_cause_def cf_height_def condition_height_def
        split: cf_ref.splits)
qed

lemma run_ready: "ready (run_env c) run_start"
proof -
  have "ref_ok (v_ev run_start) r \<longleftrightarrow> r = Top" for r
    by (cases r) (simp_all add: run_start_def ref_ok_def reset_slot_def)
  moreover have "decision_of (v_ev run_start) Top n = - 1" if "n < 3" for n
    using that by (simp add: run_start_def decision_of_def reset_slot_def new_slot_def)
  ultimately have "tri_slot (build run_ops new_graph) (v_ev run_start)"
    using run_graph by (simp add: tri_slot_def tri_def)
  moreover have "slot_ok 2 3 (v_ev run_start)"
    by (simp add: run_start_def reset_slot_ok new_slot_ok)
  ultimately show ?thesis
    using build_ok [OF new_graph_ok, of run_ops] run_graph
    by (simp add: ready_def live_def run_env_def) (simp add: run_start_def reset_slot_def)
qed

theorem iterate_terminates_witness:
  "\<exists>s'. \<forall>fuel \<ge> 19. iterate fuel (run_env root_cause) Top run_start = Some (SUCCESS, s')"
proof -
  let ?env = "run_env root_cause"
  have g: "e_graph ?env = build run_ops new_graph" by (simp add: run_env_def)
  have "hub_node (e_graph ?env) ''h'' \<noteq> None"
    using run_graph g by (simp add: map_of_eq_None_iff flip: set_map)
  moreover have "visit_fuel (e_graph ?env) (v_ev run_start) 1 = 19"
    using run_graph g by (simp add: visit_fuel_def run_start_def reset_slot_def)
  ultimately show ?thesis
    using iterate_terminates [OF g run_runnable run_ready, of Top "''h''"] run_graph g
    by (simp add: ref_ok_def)
qed

text \<open>
  C7. One iteration only moves the event forward, whatever the graph: it answers SUCCESS; in
  every slot, the event's own and its views, contexts, entry points, views and completion stay, a
  decision that was taken stays taken, with values 0 and 1 only, an algorithm stays where it is
  or is promoted from INITIAL to CONTROLREADY and from there to DATAREADY; and an algorithm that
  became DATAREADY has every input ready in that slot, a data object by a producer that ran, a
  condition by a valid ID for the slot's context. The invariant of the slot is preserved.
\<close>

theorem iterate_only_promotes:
  assumes "e_graph env = build ops new_graph" and "graph_slot (e_graph env) (v_ev s)"
    and "tri_slot (e_graph env) (v_ev s)" and "ref_ok (v_ev s) r"
    and "iterate fuel env r s = Some (sc, s')"
  shows "sc = SUCCESS \<and> evolves (e_graph env) (e_cond env) (v_ev s) (v_ev s')
    \<and> tri_slot (e_graph env) (v_ev s')"
proof -
  have live: "live env s"
    using assms(1-3) build_ok [OF new_graph_ok, of ops] by (simp add: live_def)
  from iterate_vstep [OF this assms(4,5)] vstep_live [OF this] show ?thesis
    by (auto simp: vstep_def live_def)
qed

theorem iterate_only_promotes_witness:
  "\<exists>s'. iterate 19 (run_env root_cause) Top run_start = Some (SUCCESS, s')
    \<and> map (alg_state_of (v_ev s') Top) [0, 1] = [DATAREADY, INITIAL]
    \<and> inputs_ready (build run_ops new_graph) (e_cond (run_env root_cause)) (v_ev s') Top
        (the (alg_node (build run_ops new_graph) ''a''))"
proof -
  let ?env = "run_env root_cause"
  have g: "e_graph ?env = build run_ops new_graph" by (simp add: run_env_def)
  have live: "graph_slot (e_graph ?env) (v_ev run_start)" "tri_slot (e_graph ?env) (v_ev run_start)"
    using run_ready by (simp_all add: ready_def live_def)
  have "(case iterate 19 ?env Top run_start of None \<Rightarrow> False
      | Some (sc, s') \<Rightarrow> map (alg_state_of (v_ev s') Top) [0, 1] = [DATAREADY, INITIAL])"
    by code_simp
  then obtain sc s' where it: "iterate 19 ?env Top run_start = Some (sc, s')"
    and res: "map (alg_state_of (v_ev s') Top) [0, 1] = [DATAREADY, INITIAL]"
    by (auto split: option.splits)
  have ev: "sc = SUCCESS" "evolves (e_graph ?env) (e_cond ?env) (v_ev run_start) (v_ev s')"
    using iterate_only_promotes [OF g live _ it] by (simp_all add: ref_ok_def)
  have "map_option an_algoIndex (alg_node (build run_ops new_graph) ''a'') = Some 0"
    by code_simp
  then obtain a where a: "alg_node (e_graph ?env) ''a'' = Some a" "an_algoIndex a = 0"
    by (auto simp: g)
  have "alg_state_of (v_ev run_start) Top 0 = INITIAL" by code_simp
  moreover have "frame_evolves (e_graph ?env) (e_cond ?env) (v_ev run_start) (v_ev s') Top"
    using ev(2) by (simp add: evolves_def ref_ok_def)
  ultimately have "inputs_ready (e_graph ?env) (e_cond ?env) (v_ev s') Top a"
    using a res unfolding frame_evolves_def by force
  then have "inputs_ready (build run_ops new_graph) (e_cond ?env) (v_ev s') Top
      (the (alg_node (build run_ops new_graph) ''a''))"
    by (simp only: g [symmetric] a(1) option.sel)
  with it ev(1) res show ?thesis by (intro exI [of _ s'] conjI) simp_all
qed

end
