(* ===== verification/Simulation.thy ===== *)
theory Simulation
  imports Promoter_Runs
begin

text \<open>
  The simulation of the rules without running anything: \<open>RunSimulator\<close> of
  GaudiHive/src/PRGraph/Visitors/Promoters.cpp, which takes every algorithm for accepted, and
  \<open>PrecedenceSvc::simulate\<close>, which sends it from the head until the head is decided. The file
  of speedup data and the messages are left out.
\<close>

section \<open>RunSimulator\<close>

record sim_state =
  sm_visit :: vstate
  sm_nodesSucceeded :: nat

type_synonym sim_fun = "cf_ref \<Rightarrow> sim_state \<Rightarrow> (bool \<times> sim_state) option"

definition sim_put :: "slot_ref \<Rightarrow> nat \<Rightarrow> exec_state \<Rightarrow> sim_state \<Rightarrow> sim_state" where
  "sim_put r a st s = s\<lparr>sm_visit := put_state r a st (sm_visit s)\<rparr>"

definition sim_decide :: "slot_ref \<Rightarrow> nat \<Rightarrow> sim_state \<Rightarrow> sim_state" where
  "sim_decide r n s = s\<lparr>sm_visit := put_decision r n 1 (sm_visit s)\<rparr>"

abbreviation sim_ev :: "sim_state \<Rightarrow> event_slot" where
  "sim_ev s \<equiv> v_ev (sm_visit s)"

text \<open>A hub with its decision taken tells its parents.\<close>

definition sim_propagate :: "sim_fun \<Rightarrow> decision_node \<Rightarrow> sim_state \<Rightarrow> sim_state option" where
  "sim_propagate rec d s =
     loop_all (\<lambda>p s. map_option snd (rec (Hub_Node p) s)) (dn_parents d) s"

text \<open>The loop over the daughters and what follows it.\<close>

fun sim_children ::
  "sim_fun \<Rightarrow> rules_graph \<Rightarrow> slot_ref \<Rightarrow> decision_node \<Rightarrow> cf_ref list \<Rightarrow> bool \<Rightarrow> sim_state \<Rightarrow>
   (bool \<times> sim_state) option"
where
  "sim_children rec g r d [] allResolved s =
     (if allResolved
      then map_option (\<lambda>s. (True, s)) (sim_propagate rec d (sim_decide r (dn_nodeIndex d) s))
      else Some (False, s))"
| "sim_children rec g r d (child # cs) allResolved s =
     Option.bind (rec child s)
       (\<lambda>p. let s = snd p;
              childDecision = decision_of (sim_ev s) r (node_index g child);
              allResolved = (allResolved \<and> childDecision \<noteq> - 1)
          in if \<not> dn_modeConcurrent d \<and> childDecision = - 1 then Some (False, s)
             else if childDecision = 1 \<and> dn_modeOR d \<and> dn_modePromptDecision d
             then map_option (\<lambda>s. (True, s)) (sim_propagate rec d (sim_decide r (dn_nodeIndex d) s))
             else sim_children rec g r d cs allResolved s)"

text \<open>An algorithm that gets its data is taken through its states and accepted.\<close>

definition sim_execute :: "slot_ref \<Rightarrow> algorithm_node \<Rightarrow> sim_state \<Rightarrow> sim_state" where
  "sim_execute r a s =
     (let s = sim_put r (an_algoIndex a) SCHEDULED s;
          s = sim_put r (an_algoIndex a) EVTACCEPTED s;
          s = sim_decide r (an_nodeIndex a) s
      in s\<lparr>sm_nodesSucceeded := Suc (sm_nodesSucceeded s)\<rparr>)"

definition sim_promote ::
  "nat \<Rightarrow> venv \<Rightarrow> slot_ref \<Rightarrow> string \<Rightarrow> algorithm_node \<Rightarrow> sim_state \<Rightarrow> (bool \<times> sim_state) option"
where
  "sim_promote fuel env r n a s =
     map_option
       (\<lambda>p. let s = s\<lparr>sm_visit := snd p\<rparr>
          in if fst p then (True, sim_execute r a s) else (False, s))
       (drp_visit_alg (sup_accept fuel env) env r n (sm_visit s))"

definition sim_visit_alg ::
  "nat \<Rightarrow> venv \<Rightarrow> slot_ref \<Rightarrow> string \<Rightarrow> algorithm_node \<Rightarrow> sim_state \<Rightarrow> (bool \<times> sim_state) option"
where
  "sim_visit_alg fuel env r n a s =
     (if alg_state_of (sim_ev s) r (an_algoIndex a) = INITIAL
      then sim_promote fuel env r n a (sim_put r (an_algoIndex a) CONTROLREADY s)
      else if alg_state_of (sim_ev s) r (an_algoIndex a) = CONTROLREADY
      then sim_promote fuel env r n a s
      else Some (False, s))"

text \<open>\<open>accept\<close> of the nodes with \<open>visitEnter\<close> of the simulator.\<close>

fun sim_accept_node :: "nat \<Rightarrow> sim_fun \<Rightarrow> venv \<Rightarrow> slot_ref \<Rightarrow> sim_fun" where
  "sim_accept_node fuel rec env r (Alg_Node n) s =
     (case alg_node (e_graph env) n of
        None \<Rightarrow> None
      | Some a \<Rightarrow>
          if decision_of (sim_ev s) r (an_nodeIndex a) \<noteq> 1
          then map_option (\<lambda>p. (True, snd p)) (sim_visit_alg fuel env r n a s)
          else Some (False, s))"
| "sim_accept_node fuel rec env r (Hub_Node n) s =
     (case hub_node (e_graph env) n of
        None \<Rightarrow> None
      | Some d \<Rightarrow>
          if decision_of (sim_ev s) r (dn_nodeIndex d) \<noteq> 1
          then map_option (\<lambda>p. (\<not> fst p, snd p))
                 (sim_children rec (e_graph env) r d (dn_children d) True s)
          else Some (False, s))"

fun sim_accept :: "nat \<Rightarrow> venv \<Rightarrow> slot_ref \<Rightarrow> sim_fun" where
  "sim_accept 0 env r = (\<lambda>c s. None)"
| "sim_accept (Suc fuel) env r = sim_accept_node fuel (sim_accept fuel env r) env r"

section \<open>PrecedenceSvc::simulate\<close>

definition sim_cause :: cause where
  "sim_cause = \<lparr>c_source = Root, c_sourceName = ''RootDecisionHub''\<rparr>"

text \<open>The loop; \<open>turns\<close> bounds the iterations and \<open>fuel\<close> the visits of each.\<close>

fun sim_loop :: "nat \<Rightarrow> nat \<Rightarrow> venv \<Rightarrow> string \<Rightarrow> sim_state \<Rightarrow> (error_code \<times> sim_state) option" where
  "sim_loop 0 fuel env h s = None"
| "sim_loop (Suc turns) fuel env h s =
     (case CFRulesResolved (e_graph env) (sim_ev s) of
        None \<Rightarrow> None
      | Some True \<Rightarrow> Some (SUCCESS, s)
      | Some False \<Rightarrow>
          Option.bind (sim_accept fuel env Top (Hub_Node h) s)
            (\<lambda>p. if controlFlowState (topSlot (sim_ev s)) = controlFlowState (topSlot (sim_ev (snd p)))
               then Some (FAILURE, snd p)
               else sim_loop turns fuel env h (snd p)))"

definition simulate ::
  "nat \<Rightarrow> nat \<Rightarrow> venv \<Rightarrow> event_slot \<Rightarrow> (error_code \<times> event_slot) option"
where
  "simulate turns fuel env ev =
     (case g_head (e_graph env) of
        None \<Rightarrow> None
      | Some h \<Rightarrow>
          map_option
            (\<lambda>p. if fst p = SUCCESS
               then (SUCCESS, upd_slot Top (\<lambda>f. f\<lparr>algsStates := reset_states (algsStates f),
                       controlFlowState := replicate (length (controlFlowState f)) (- 1)\<rparr>)
                       (sim_ev (snd p)))
               else (fst p, sim_ev (snd p)))
            (sim_loop turns fuel (env\<lparr>e_cause := sim_cause, e_trace := False\<rparr>) h
              \<lparr>sm_visit = \<lparr>v_ev = ev, v_trace = \<lparr>pt_vertices = [], pt_edges = [], pt_map = []\<rparr>\<rparr>,
               sm_nodesSucceeded = 0\<rparr>))"

section \<open>Promoting an algorithm writes algorithm states only\<close>

definition quiet :: "slot_ref \<Rightarrow> event_slot \<Rightarrow> event_slot \<Rightarrow> bool" where
  "quiet r ev ev' \<longleftrightarrow> (\<exists>st. ev' = upd_slot r (\<lambda>f. f\<lparr>algsStates := st\<rparr>) ev)"

lemma quiet_refl: "quiet r ev ev"
  unfolding quiet_def by (cases r) (auto intro: exI [of _ "algsStates (slot_at ev r)"])

lemma upd_slot_twice: "ref_ok ev r \<Longrightarrow> upd_slot r f (upd_slot r g ev) = upd_slot r (f \<circ> g) ev"
  by (cases r) (auto simp: ref_ok_def)

lemma quiet_trans: "ref_ok ev r \<Longrightarrow> quiet r ev ev' \<Longrightarrow> quiet r ev' ev'' \<Longrightarrow> quiet r ev ev''"
  by (auto simp: quiet_def upd_slot_twice o_def)

lemma quiet_ref: "quiet r ev ev' \<Longrightarrow> ref_ok ev' r' = ref_ok ev r'"
  by (auto simp: quiet_def ref_ok_upd)

lemma quiet_put: "ref_ok (v_ev s) r \<Longrightarrow> quiet r (v_ev s) (v_ev (put_state r a st s))"
  by (cases r) (auto simp: quiet_def put_state_def set_alg_state_def ref_ok_def)

definition quiet_rec :: "accept_fun \<Rightarrow> bool" where
  "quiet_rec rec \<longleftrightarrow> (\<forall>r n s b s'. ref_ok (v_ev s) r \<longrightarrow> rec r (Alg_Node n) s = Some (b, s') \<longrightarrow>
     quiet r (v_ev s) (v_ev s'))"

lemma drp_accept_data_quiet:
  assumes rec: "quiet_rec rec" and r: "ref_ok (v_ev s) r"
    and acc: "drp_accept_data rec env r h s = Some (b, s')"
  shows "quiet r (v_ev s) (v_ev s')"
proof -
  have loop: "quiet r (v_ev s) (v_ev t)"
    if l: "loop_all (\<lambda>p s. map_option snd (rec r (Alg_Node p) s)) ps s = Some t" for ps t
  proof (rule loop_all_inv [where I = "\<lambda>u. quiet r (v_ev s) (v_ev u)", OF _ quiet_refl l])
    fix p u u'
    assume u: "quiet r (v_ev s) (v_ev u)" and "map_option snd (rec r (Alg_Node p) u) = Some u'"
    moreover have "ref_ok (v_ev u) r" using quiet_ref [OF u] r by simp
    ultimately have "quiet r (v_ev u) (v_ev u')" using rec by (auto simp: quiet_rec_def)
    with u show "quiet r (v_ev s) (v_ev u')" by (rule quiet_trans [OF r])
  qed
  from acc loop show ?thesis
    by (auto simp: drp_accept_data_def quiet_refl split: option.splits if_splits)
qed

lemma drp_visit_alg_quiet:
  assumes rec: "quiet_rec rec" and r: "ref_ok (v_ev s) r"
    and v: "drp_visit_alg rec env r n s = Some (b, s')"
  shows "quiet r (v_ev s) (v_ev s')"
proof -
  obtain a where a: "alg_node (e_graph env) n = Some a"
    using v by (auto simp: drp_visit_alg_def split: option.splits)
  obtain b1 s1 where l: "loop_break (\<lambda>h p. drp_accept_data rec env r h (snd p)) (\<lambda>p. \<not> fst p)
      (an_inputs a) (True, s) = Some (b1, s1)"
    and post: "if b1 then v_ev s' = v_ev (put_state r (an_algoIndex a) DATAREADY s1) else s' = s1"
    using v a by (auto simp: drp_visit_alg_def Let_def bind_eq_Some_conv
        split: if_splits option.splits)
  have "quiet r (v_ev s) (v_ev (snd (b1, s1)))"
  proof (rule loop_break_inv [where I = "\<lambda>u. quiet r (v_ev s) (v_ev (snd u))", OF _ _ l])
    fix x u u'
    assume u: "quiet r (v_ev s) (v_ev (snd u))" and "drp_accept_data rec env r x (snd u) = Some u'"
    moreover have "ref_ok (v_ev (snd u)) r" using quiet_ref [OF u] r by simp
    ultimately have "quiet r (v_ev (snd u)) (v_ev (snd u'))"
      using drp_accept_data_quiet [OF rec] by (cases u') auto
    with u show "quiet r (v_ev s) (v_ev (snd u'))" by (rule quiet_trans [OF r])
  qed (simp add: quiet_refl)
  then have q: "quiet r (v_ev s) (v_ev s1)" by simp
  then have "ref_ok (v_ev s1) r" using quiet_ref r by simp
  with quiet_trans [OF r q quiet_put [of s1 r "an_algoIndex a" DATAREADY]] post q show ?thesis
    by (auto split: if_splits)
qed

lemma sup_accept_quiet: "quiet_rec (sup_accept fuel env)"
proof (induction fuel)
  case (Suc fuel)
  have "quiet r (v_ev s) (v_ev s')"
    if r: "ref_ok (v_ev s) r" and a: "sup_visit_alg (sup_accept fuel env) env r n a s = Some (b, s')"
    for r n a s b s'
  proof -
    define t where "t = (if alg_state_of (v_ev s) r (an_algoIndex a) = INITIAL
      then put_state r (an_algoIndex a) CONTROLREADY s else s)"
    have t: "quiet r (v_ev s) (v_ev t)" using quiet_put [OF r] quiet_refl by (simp add: t_def)
    have "ref_ok (v_ev t) r" using quiet_ref [OF t] r by simp
    from drp_visit_alg_quiet [OF Suc this] a have "quiet r (v_ev t) (v_ev s')"
      by (auto simp: sup_visit_alg_def Let_def t_def quiet_refl split: if_splits)
    with t show ?thesis by (rule quiet_trans [OF r])
  qed
  then show ?case
    by (auto simp: quiet_rec_def quiet_refl split: option.splits if_splits)
qed (simp add: quiet_rec_def)

section \<open>What the simulator does to the slot\<close>

definition simul :: "event_slot \<Rightarrow> event_slot \<Rightarrow> bool" where
  "simul ev ev' \<longleftrightarrow>
     (\<exists>st ds. ev' = upd_slot Top (\<lambda>f. f\<lparr>algsStates := st, controlFlowState := ds\<rparr>) ev \<and>
        length ds = length (controlFlowState (topSlot ev)) \<and>
        (\<forall>n < length ds. ds ! n = controlFlowState (topSlot ev) ! n \<or> ds ! n = 1))"

lemma simul_refl: "simul ev ev"
  unfolding simul_def
  by (intro exI [of _ "algsStates (topSlot ev)"] exI [of _ "controlFlowState (topSlot ev)"]) simp

lemma simul_trans: "simul ev ev' \<Longrightarrow> simul ev' ev'' \<Longrightarrow> simul ev ev''"
  unfolding simul_def by (elim exE conjE) (rule exI, rule exI, auto, metis)

lemma quiet_simul: "quiet Top ev ev' \<Longrightarrow> simul ev ev'"
  unfolding quiet_def simul_def
  by (elim exE) (rule exI, rule exI [of _ "controlFlowState (topSlot ev)"], simp)

lemma decide_simul: "simul ev (set_decision Top n 1 ev)"
  unfolding simul_def set_decision_def
  by (intro exI [of _ "algsStates (topSlot ev)"]
        exI [of _ "(controlFlowState (topSlot ev))[n := 1]"])
     (simp, metis nth_list_update_eq nth_list_update_neq)

lemma simul_fields:
  assumes "simul ev ev'"
  shows "allSubSlots ev' = allSubSlots ev" "eventContext (topSlot ev') = eventContext (topSlot ev)"
    "n < length (controlFlowState (topSlot ev)) \<Longrightarrow>
     decision_of ev' Top n = decision_of ev Top n \<or> decision_of ev' Top n = 1"
    "length (controlFlowState (topSlot ev')) = length (controlFlowState (topSlot ev))"
  using assms by (auto simp: simul_def decision_of_def)

definition sonward :: "venv \<Rightarrow> sim_state \<Rightarrow> sim_state \<Rightarrow> bool" where
  "sonward env s t \<longleftrightarrow> ready env (sm_visit t) \<and> simul (sim_ev s) (sim_ev t)"

definition pending :: "rules_graph \<Rightarrow> event_slot \<Rightarrow> nat set" where
  "pending g ev = {n \<in> {..<g_nodeCounter g}. decision_of ev Top n \<noteq> 1}"

definition scost :: "venv \<Rightarrow> (cf_ref \<Rightarrow> nat) \<Rightarrow> nat \<Rightarrow> sim_state \<Rightarrow> cf_ref \<Rightarrow> nat" where
  "scost env \<rho> R s c = card (pending (e_graph env) (sim_ev s)) * (R + 1) + \<rho> c"

lemma pending_finite [simp]: "finite (pending g ev)"
  by (simp add: pending_def)

lemma ready_top: "ready env v \<Longrightarrow> length (controlFlowState (topSlot (v_ev v))) = g_nodeCounter (e_graph env)"
  using graph_frame [of "e_graph env" "v_ev v" Top] by (simp add: ready_def live_def ref_ok_def)

lemma simul_pending:
  "simul (sim_ev s) (sim_ev t) \<Longrightarrow> ready env (sm_visit s) \<Longrightarrow>
   pending (e_graph env) (sim_ev t) \<subseteq> pending (e_graph env) (sim_ev s)"
  using simul_fields(3) [of "sim_ev s" "sim_ev t"] ready_top [of env "sm_visit s"]
  by (fastforce simp: pending_def)

lemma sonward_cost:
  "sonward env s t \<Longrightarrow> ready env (sm_visit s) \<Longrightarrow> scost env \<rho> R t c \<le> scost env \<rho> R s c"
  using mult_le_mono1 [OF card_mono [OF pending_finite simul_pending [of s t env]], of "R + 1"]
  by (simp add: sonward_def scost_def)

lemma sonward_trans: "sonward env s t \<Longrightarrow> sonward env t u \<Longrightarrow> sonward env s u"
  by (auto simp: sonward_def intro: simul_trans)

lemma sonward_refl: "ready env (sm_visit s) \<Longrightarrow> sonward env s s"
  by (simp add: sonward_def simul_refl)

lemma vstep_sonward:
  "ready env (sm_visit s) \<Longrightarrow> vstep env (sm_visit s) v \<Longrightarrow> quiet Top (sim_ev s) (v_ev v) \<Longrightarrow>
   sonward env s (s\<lparr>sm_visit := v\<rparr>)"
  by (simp add: sonward_def vstep_ready quiet_simul)

lemma ready_put:
  assumes "ready env v"
  shows "ready env (put_state Top a st v)"
proof -
  have top: "ref_ok (v_ev v) Top" by (simp add: ref_ok_def)
  have "tri_slot (e_graph env) (v_ev (put_state Top a st v))"
    using assms by (simp add: ready_def live_def tri_slot_def put_state_def slot_simps top)
  with assms show ?thesis
    by (simp add: ready_def live_def put_state_def set_alg_state_ok top slot_at_const(5) [of _ Top _ _ Top, simplified])
qed

lemma sim_put_sonward: "ready env (sm_visit s) \<Longrightarrow> sonward env s (sim_put Top a st s)"
  using quiet_simul [OF quiet_put [of "sm_visit s" Top a st]]
  by (simp add: sonward_def sim_put_def ready_put ref_ok_def)

lemma sim_decide_sonward:
  "ready env (sm_visit s) \<Longrightarrow> n < g_nodeCounter (e_graph env) \<Longrightarrow> sonward env s (sim_decide Top n s)"
  using decide_simul [of "sim_ev s" n] vstep_ready [OF _ vstep_put_decision [OF ready_live]]
  by (simp add: sonward_def sim_decide_def put_decision_def ref_ok_def)

lemma sim_decide_pending:
  assumes "sonward env s t" and "ready env (sm_visit s)" and "n \<in> pending (e_graph env) (sim_ev s)"
  shows "card (pending (e_graph env) (sim_ev (sim_decide Top n t))) < card (pending (e_graph env) (sim_ev s))"
proof (rule psubset_card_mono)
  have n: "n < g_nodeCounter (e_graph env)" using assms(3) by (simp add: pending_def)
  have t: "ready env (sm_visit t)" using assms(1) by (simp add: sonward_def)
  have "sonward env s (sim_decide Top n t)"
    using assms(1) sim_decide_sonward [OF t n] by (rule sonward_trans)
  then have "pending (e_graph env) (sim_ev (sim_decide Top n t)) \<subseteq> pending (e_graph env) (sim_ev s)"
    using simul_pending assms(2) by (simp add: sonward_def)
  moreover have "decision_of (sim_ev (sim_decide Top n t)) Top n = 1"
    using ready_top [OF t] n
    by (simp add: sim_decide_def put_decision_def decision_of_set ref_ok_def)
  ultimately show "pending (e_graph env) (sim_ev (sim_decide Top n t)) \<subset> pending (e_graph env) (sim_ev s)"
    using assms(3) by (auto simp: pending_def)
qed simp

section \<open>Every visit returns\<close>

definition sim_total :: "venv \<Rightarrow> (cf_ref \<Rightarrow> nat) \<Rightarrow> nat \<Rightarrow> nat \<Rightarrow> nat \<Rightarrow> sim_fun \<Rightarrow> bool" where
  "sim_total env \<rho> R B m rec \<longleftrightarrow>
     (\<forall>c s. ready env (sm_visit s) \<longrightarrow> node_exists (e_graph env) c \<longrightarrow>
        length (allSubSlots (sim_ev s)) = m \<longrightarrow> scost env \<rho> R s c < B \<longrightarrow>
        (\<exists>b t. rec c s = Some (b, t) \<and> sonward env s t))"

lemma sonward_views: "sonward env s t \<Longrightarrow> length (allSubSlots (sim_ev t)) = length (allSubSlots (sim_ev s))"
  using simul_fields(1) [of "sim_ev s" "sim_ev t"] by (simp add: sonward_def)

lemma sim_call:
  assumes "sim_total env \<rho> R B (length (allSubSlots (sim_ev s))) rec" and "ready env (sm_visit s)"
    and "sonward env s t" and "node_exists (e_graph env) c" and "scost env \<rho> R s c < B"
  shows "\<exists>b u. rec c t = Some (b, u) \<and> sonward env s u"
proof -
  have t: "ready env (sm_visit t)" using assms(3) by (simp add: sonward_def)
  have "scost env \<rho> R t c < B"
    using sonward_cost [OF assms(3,2), of \<rho> R c] assms(5) by simp
  with assms(1,4) t sonward_views [OF assms(3)] obtain b u where "rec c t = Some (b, u)" "sonward env t u"
    unfolding sim_total_def by blast
  with assms(3) show ?thesis using sonward_trans by blast
qed

lemma loop_all_onward:
  assumes "\<And>x t. x \<in> set xs \<Longrightarrow> I t \<Longrightarrow> \<exists>u. f x t = Some u \<and> I u" and "I s"
  shows "\<exists>u. loop_all f xs s = Some u \<and> I u"
proof -
  obtain u where u: "loop_all f xs s = Some u"
    using loop_all_total [of xs I f s] assms by auto
  have "I u" by (rule loop_all_inv [where I = I, OF _ assms(2) u]) (use assms(1) in fastforce)
  with u show ?thesis by blast
qed

lemma sim_propagate_total:
  assumes "sim_total env \<rho> R B (length (allSubSlots (sim_ev s))) rec" and "ready env (sm_visit s)"
    and "sonward env s t" and "n \<in> pending (e_graph env) (sim_ev s)"
    and R: "\<forall>c. \<rho> c \<le> R" and B: "scost env \<rho> R s c \<le> B"
    and ps: "\<forall>p \<in> set (dn_parents d). hub_node (e_graph env) p \<noteq> None"
  shows "\<exists>u. sim_propagate rec d (sim_decide Top n t) = Some u \<and> sonward env s u"
proof -
  let ?t = "sim_decide Top n t"
  have t: "ready env (sm_visit t)" using assms(3) by (simp add: sonward_def)
  have n: "n < g_nodeCounter (e_graph env)" using assms(4) by (simp add: pending_def)
  have st: "sonward env s ?t" using assms(3) sim_decide_sonward [OF t n] by (rule sonward_trans)
  have rt: "ready env (sm_visit ?t)" using st by (simp add: sonward_def)
  have cost: "scost env \<rho> R ?t (Hub_Node p) < B" for p
  proof -
    have "Suc (card (pending (e_graph env) (sim_ev ?t))) * (R + 1)
        \<le> card (pending (e_graph env) (sim_ev s)) * (R + 1)"
      using sim_decide_pending [OF assms(3,2,4)] by (intro mult_le_mono1) simp
    with R [rule_format, of "Hub_Node p"] B show ?thesis by (simp add: scost_def)
  qed
  have total: "sim_total env \<rho> R B (length (allSubSlots (sim_ev ?t))) rec"
    using assms(1) sonward_views [OF st] by simp
  have "\<exists>u. map_option snd (rec (Hub_Node p) v) = Some u \<and> sonward env ?t u"
    if p: "p \<in> set (dn_parents d)" and v: "sonward env ?t v" for p v
    using sim_call [OF total rt v _ cost, of p] ps p by auto
  then obtain u where "sim_propagate rec d ?t = Some u" "sonward env ?t u"
    using loop_all_onward [of "dn_parents d" "sonward env ?t"] sonward_refl [OF rt]
    unfolding sim_propagate_def by meson
  with st show ?thesis using sonward_trans by blast
qed

lemma sim_children_total:
  assumes rec: "sim_total env \<rho> R B (length (allSubSlots (sim_ev s))) rec" and s: "ready env (sm_visit s)"
    and n: "dn_nodeIndex d \<in> pending (e_graph env) (sim_ev s)"
    and R: "\<forall>c. \<rho> c \<le> R" and B: "scost env \<rho> R s c0 \<le> B"
    and ps: "\<forall>p \<in> set (dn_parents d). hub_node (e_graph env) p \<noteq> None"
  shows "\<forall>c \<in> set cs. node_exists (e_graph env) c \<and> scost env \<rho> R s c < B \<Longrightarrow> sonward env s t \<Longrightarrow>
    \<exists>b u. sim_children rec (e_graph env) Top d cs allRes t = Some (b, u) \<and> sonward env s u"
proof (induction cs arbitrary: allRes t)
  case Nil
  with sim_propagate_total [OF rec s Nil.prems(2) n R B ps] show ?case by auto
next
  case (Cons c cs)
  then obtain b u where u: "rec c t = Some (b, u)" "sonward env s u"
    using sim_call [OF rec s Cons.prems(2), of c] by auto
  with sim_propagate_total [OF rec s u(2) n R B ps] Cons.IH [OF _ u(2)] Cons.prems(1)
  show ?case by (auto simp: Let_def)
qed

lemma visit_fuel_cong:
  "length (allSubSlots ev) = length (allSubSlots ev') \<Longrightarrow> visit_fuel g ev R = visit_fuel g ev' R"
  by (simp add: visit_fuel_def)

lemma sim_promote_total:
  assumes run: "runnable env \<rho> R" and s: "ready env (sm_visit s)"
    and a: "alg_node (e_graph env) n = Some a"
    and st: "alg_state_of (sim_ev s) Top (an_algoIndex a) = CONTROLREADY"
    and fuel: "visit_fuel (e_graph env) (sim_ev s) R \<le> fuel"
  shows "\<exists>b t. sim_promote fuel env Top n a s = Some (b, t) \<and> sonward env s t"
proof -
  have R: "\<forall>c. \<rho> c \<le> R" and ok: "graph_ok (e_graph env)" using run by (simp_all add: runnable_def)
  have top: "ref_ok (sim_ev s) Top" by (simp add: ref_ok_def)
  have "cost env \<rho> R (sm_visit s) Top (Alg_Node n) \<le> fuel"
    using cost_bound [OF R, of env "sm_visit s" Top "Alg_Node n"] fuel by simp
  with drp_visit_alg_total [OF run sup_accept_total [OF run, of fuel] s top a]
  obtain b v where v: "drp_visit_alg (sup_accept fuel env) env Top n (sm_visit s) = Some (b, v)" by auto
  let ?s = "s\<lparr>sm_visit := v\<rparr>"
  have s1: "sonward env s ?s"
    using drp_visit_alg_vstep [OF sup_accept_good ready_live [OF s] top a st v]
      drp_visit_alg_quiet [OF sup_accept_quiet top v] by (rule vstep_sonward [OF s])
  have "sonward env s (sim_execute Top a ?s)"
  proof -
    let ?s2 = "sim_put Top (an_algoIndex a) SCHEDULED ?s"
    let ?s3 = "sim_put Top (an_algoIndex a) EVTACCEPTED ?s2"
    have s2: "sonward env s ?s2"
      using sonward_trans [OF s1 sim_put_sonward] s1 by (simp add: sonward_def)
    have s3: "sonward env s ?s3"
      using sonward_trans [OF s2 sim_put_sonward] s2 by (simp add: sonward_def)
    have "sonward env s (sim_decide Top (an_nodeIndex a) ?s3)"
      using sonward_trans [OF s3 sim_decide_sonward] s3 alg_index_less(2) [OF ok a]
      by (simp add: sonward_def)
    then show ?thesis by (simp add: sim_execute_def Let_def sonward_def)
  qed
  with s1 v show ?thesis by (cases b) (auto simp: sim_promote_def Let_def)
qed

lemma sim_visit_alg_total:
  assumes run: "runnable env \<rho> R" and s: "ready env (sm_visit s)"
    and a: "alg_node (e_graph env) n = Some a"
    and fuel: "visit_fuel (e_graph env) (sim_ev s) R \<le> fuel"
  shows "\<exists>b t. sim_visit_alg fuel env Top n a s = Some (b, t) \<and> sonward env s t"
proof (cases "alg_state_of (sim_ev s) Top (an_algoIndex a) = INITIAL")
  case True
  let ?s = "sim_put Top (an_algoIndex a) CONTROLREADY s"
  have s1: "sonward env s ?s" using s by (rule sim_put_sonward)
  have "alg_state_of (sim_ev ?s) Top (an_algoIndex a) = CONTROLREADY"
    using vstep_put_control_ready(2) [OF ready_live [OF s] _ a True] by (simp add: sim_put_def ref_ok_def)
  moreover have "visit_fuel (e_graph env) (sim_ev ?s) R \<le> fuel"
    using fuel visit_fuel_cong [OF sonward_views [OF s1]] by simp
  ultimately obtain b t where "sim_promote fuel env Top n a ?s = Some (b, t)" "sonward env ?s t"
    using sim_promote_total [OF run _ a, of ?s fuel] s1 by (auto simp: sonward_def)
  with True s1 sonward_trans show ?thesis by (auto simp: sim_visit_alg_def)
next
  case False
  with sim_promote_total [OF run s a _ fuel] sonward_refl [OF s] show ?thesis
    by (auto simp: sim_visit_alg_def)
qed

lemma sim_accept_total:
  assumes run: "runnable env \<rho> R"
  shows "sim_total env \<rho> R (fuel - ((m + 1) * g_nodeCounter (e_graph env) * (2 * R + 3) + 2 * R + 2)) m
    (sim_accept fuel env Top)"
proof (induction fuel)
  case (Suc fuel)
  let ?g = "e_graph env" and ?V = "(m + 1) * g_nodeCounter (e_graph env) * (2 * R + 3) + 2 * R + 2"
  have ok: "graph_ok ?g" and ht: "cf_height ?g \<rho> R" and R: "\<forall>c. \<rho> c \<le> R"
    using run by (simp_all add: runnable_def)
  have "\<exists>b t. sim_accept_node fuel (sim_accept fuel env Top) env Top c s = Some (b, t) \<and> sonward env s t"
    if s: "ready env (sm_visit s)" and c: "node_exists ?g c"
      and m: "length (allSubSlots (sim_ev s)) = m" and B: "scost env \<rho> R s c < Suc fuel - ?V" for c s
  proof (cases c)
    case (Alg_Node n)
    with c obtain a where a: "alg_node ?g n = Some a" by auto
    have "visit_fuel ?g (sim_ev s) R \<le> fuel" using B m by (simp add: visit_fuel_def)
    from sim_visit_alg_total [OF run s a this] a Alg_Node sonward_refl [OF s] show ?thesis by auto
  next
    case (Hub_Node n)
    with c obtain d where d: "hub_node ?g n = Some d" by auto
    show ?thesis
    proof (cases "decision_of (sim_ev s) Top (dn_nodeIndex d) = 1")
      case True
      with d Hub_Node sonward_refl [OF s] show ?thesis by auto
    next
      case False
      then have n: "dn_nodeIndex d \<in> pending ?g (sim_ev s)"
        using hub_index_less [OF ok d] by (simp add: pending_def)
      have child: "\<forall>c \<in> set (dn_children d). node_exists ?g c \<and> scost env \<rho> R s c < fuel - ?V"
      proof
        fix x assume x: "x \<in> set (dn_children d)"
        have "\<rho> x < \<rho> (Hub_Node n)" using ht d x by (auto simp: cf_height_def)
        with B Hub_Node daughter_exists [OF ok d x] show "node_exists ?g x \<and> scost env \<rho> R s x < fuel - ?V"
          by (auto simp: scost_def)
      qed
      have "scost env \<rho> R s c \<le> fuel - ?V" using B by simp
      from sim_children_total [OF _ s n R this _ child sonward_refl [OF s]] Suc.IH m
        height_parent [OF ok ht d] d Hub_Node False
      show ?thesis by fastforce
    qed
  qed
  then show ?case by (simp add: sim_total_def)
qed (simp add: sim_total_def)

section \<open>Fuel does not change a simulation\<close>

definition sim_below :: "sim_fun \<Rightarrow> sim_fun \<Rightarrow> bool" where
  "sim_below rec rec' \<longleftrightarrow> (\<forall>c s. ole (rec c s) (rec' c s))"

lemma sim_propagate_mono:
  "sim_below rec rec' \<Longrightarrow> ole (sim_propagate rec d s) (sim_propagate rec' d s)"
  unfolding sim_propagate_def sim_below_def by (intro ole_loop_all ole_map) blast

lemma sim_children_mono:
  assumes "sim_below rec rec'"
  shows "ole (sim_children rec g r d cs allRes s) (sim_children rec' g r d cs allRes s)"
proof (induction cs arbitrary: allRes s)
  case (Cons c cs)
  have "ole (rec c s) (rec' c s)" using assms by (simp add: sim_below_def)
  then show ?case
    unfolding sim_children.simps Let_def
    by (intro ole_bind ole_if ole_map ole_refl sim_propagate_mono assms Cons.IH)
qed (simp add: ole_if ole_map ole_refl sim_propagate_mono assms)

lemma sim_visit_alg_mono: "ole (sim_visit_alg fuel env r n a s) (sim_visit_alg (fuel + k) env r n a s)"
  unfolding sim_visit_alg_def sim_promote_def by (intro ole_intros)

lemma sim_accept_mono: "sim_below (sim_accept fuel env r) (sim_accept (fuel + k) env r)"
proof (induction fuel)
  case (Suc fuel)
  have "ole (sim_accept_node fuel (sim_accept fuel env r) env r c s)
      (sim_accept_node (fuel + k) (sim_accept (fuel + k) env r) env r c s)" for c s
    by (cases c) (auto intro!: ole_case ole_if ole_map ole_refl sim_visit_alg_mono
      sim_children_mono Suc)
  then show ?case by (simp add: sim_below_def)
qed (simp add: sim_below_def ole_def)

lemma sim_loop_mono: "ole (sim_loop turns fuel env h s) (sim_loop (turns + i) (fuel + k) env h s)"
proof (induction turns arbitrary: s)
  case (Suc turns)
  have "ole (sim_accept fuel env Top (Hub_Node h) s) (sim_accept (fuel + k) env Top (Hub_Node h) s)"
    using sim_accept_mono by (simp add: sim_below_def)
  then show ?case
    unfolding add_Suc sim_loop.simps
    by (auto split: option.splits bool.splits intro!: ole_refl ole_bind ole_if Suc)
qed (simp add: ole_def)

lemma simulate_mono: "ole (simulate turns fuel env ev) (simulate (turns + i) (fuel + k) env ev)"
  unfolding simulate_def by (intro ole_intros sim_loop_mono)

section \<open>The loop ends\<close>

lemma simul_progress:
  assumes "sonward env s t" and "ready env (sm_visit s)"
    and "controlFlowState (topSlot (sim_ev s)) \<noteq> controlFlowState (topSlot (sim_ev t))"
  shows "card (pending (e_graph env) (sim_ev t)) < card (pending (e_graph env) (sim_ev s))"
proof (rule psubset_card_mono)
  have sim: "simul (sim_ev s) (sim_ev t)" using assms(1) by (simp add: sonward_def)
  obtain n where n: "n < length (controlFlowState (topSlot (sim_ev s)))"
    "decision_of (sim_ev t) Top n \<noteq> decision_of (sim_ev s) Top n"
    using assms(3) simul_fields(4) [OF sim] by (auto simp: list_eq_iff_nth_eq decision_of_def)
  then have "n \<in> pending (e_graph env) (sim_ev s) - pending (e_graph env) (sim_ev t)"
    using simul_fields(3) [OF sim n(1)] ready_top [OF assms(2)] by (auto simp: pending_def)
  then show "pending (e_graph env) (sim_ev t) \<subset> pending (e_graph env) (sim_ev s)"
    using simul_pending [OF sim assms(2)] by blast
qed simp

definition sim_fuel :: "rules_graph \<Rightarrow> event_slot \<Rightarrow> nat \<Rightarrow> nat" where
  "sim_fuel g ev R = visit_fuel g ev R + (g_nodeCounter g + 1) * (R + 1)"

lemma sim_loop_total:
  assumes run: "runnable env \<rho> R" and d: "hub_node (e_graph env) h = Some d"
    and head: "g_head (e_graph env) = Some h"
  shows "ready env (sm_visit s) \<Longrightarrow> sim_fuel (e_graph env) (sim_ev s) R \<le> fuel \<Longrightarrow>
    card (pending (e_graph env) (sim_ev s)) < turns \<Longrightarrow>
    \<exists>sc t. sim_loop turns fuel env h s = Some (sc, t) \<and> sonward env s t \<and>
      (if sc = SUCCESS then CFRulesResolved (e_graph env) (sim_ev t) = Some True
       else sc = FAILURE \<and> CFRulesResolved (e_graph env) (sim_ev t) = Some False)"
proof (induction turns arbitrary: s)
  case (Suc turns)
  let ?g = "e_graph env" and ?res = "\<lambda>s. decision_of (sim_ev s) Top (dn_nodeIndex d) \<noteq> - 1"
  have res: "CFRulesResolved ?g (sim_ev u) = Some (?res u)" for u
    by (simp add: CFRulesResolved_def head d)
  show ?case
  proof (cases "?res s")
    case True
    with res [of s] sonward_refl [OF Suc.prems(1)] show ?thesis by simp
  next
    case False
    have R: "\<forall>c. \<rho> c \<le> R" using run by (simp add: runnable_def)
    have "card (pending ?g (sim_ev s)) \<le> g_nodeCounter ?g"
      using card_mono [of "{..<g_nodeCounter ?g}" "pending ?g (sim_ev s)"] by (auto simp: pending_def)
    from mult_le_mono1 [OF this, of "R + 1"] R [rule_format, of "Hub_Node h"] Suc.prems(2)
    have cost: "scost env \<rho> R s (Hub_Node h) < fuel - visit_fuel ?g (sim_ev s) R"
      by (simp add: scost_def sim_fuel_def)
    then have "\<exists>b t. sim_accept fuel env Top (Hub_Node h) s = Some (b, t) \<and> sonward env s t"
      using sim_accept_total [OF run, of fuel "length (allSubSlots (sim_ev s))"] Suc.prems(1) d
      unfolding sim_total_def visit_fuel_def by (metis (no_types) node_exists.simps(2) option.distinct(1))
    then obtain b t where t: "sim_accept fuel env Top (Hub_Node h) s = Some (b, t)" "sonward env s t"
      by blast
    show ?thesis
    proof (cases "controlFlowState (topSlot (sim_ev s)) = controlFlowState (topSlot (sim_ev t))")
      case True
      then have "\<not> ?res t" using False by (simp add: decision_of_def)
      with True False t res show ?thesis by simp
    next
      case changed: False
      have rt: "ready env (sm_visit t)" using t(2) by (simp add: sonward_def)
      have "sim_fuel ?g (sim_ev t) R \<le> fuel"
        using Suc.prems(2) visit_fuel_cong [OF sonward_views [OF t(2)]] by (simp add: sim_fuel_def)
      from Suc.IH [OF rt this] simul_progress [OF t(2) Suc.prems(1) changed] Suc.prems(3)
      obtain sc u where "sim_loop turns fuel env h t = Some (sc, u)" "sonward env t u"
        "if sc = SUCCESS then CFRulesResolved ?g (sim_ev u) = Some True
         else sc = FAILURE \<and> CFRulesResolved ?g (sim_ev u) = Some False"
        by auto
      with False changed t res [of s] sonward_trans [OF t(2)] show ?thesis by auto
    qed
  qed
qed simp

section \<open>Properties\<close>

lemma reset_states_new:
  assumes "states_ok s" and "states_size s = n"
  shows "reset_states s = new_algs_states n"
proof -
  have "length (m_algsInState s) = 8" using assms(1) by (simp add: states_ok_def)
  then have "map (\<lambda>_. [] :: nat list) (m_algsInState s) = replicate 8 []"
    by (simp add: map_replicate_const)
  moreover have "map (\<lambda>_. INITIAL) (m_states s) = replicate n INITIAL"
    using assms(2) by (simp add: states_size_def map_replicate_const)
  ultimately show ?thesis
    using assms(2) by (simp add: reset_states_def new_algs_states_def states_size_def)
qed

definition sim_venv :: "venv \<Rightarrow> venv" where
  "sim_venv env = env\<lparr>e_cause := sim_cause, e_trace := False\<rparr>"

definition sim_start :: "event_slot \<Rightarrow> sim_state" where
  "sim_start ev = \<lparr>sm_visit = \<lparr>v_ev = ev, v_trace = \<lparr>pt_vertices = [], pt_edges = [], pt_map = []\<rparr>\<rparr>,
     sm_nodesSucceeded = 0\<rparr>"

lemma simulate_result:
  assumes run: "runnable (sim_venv env) \<rho> R" and s: "ready (sim_venv env) (sm_visit (sim_start ev))"
    and head: "g_head (e_graph env) = Some h" and h: "hub_node (e_graph env) h \<noteq> None"
    and fuel: "sim_fuel (e_graph env) ev R \<le> fuel" and turns: "g_nodeCounter (e_graph env) < turns"
  shows "\<exists>ev'. simulate turns fuel env ev =
      Some (SUCCESS, upd_slot Top (\<lambda>f. f\<lparr>algsStates := new_algs_states (g_algoCounter (e_graph env)),
        controlFlowState := replicate (g_nodeCounter (e_graph env)) (- 1)\<rparr>) ev)
    \<or> simulate turns fuel env ev = Some (FAILURE, ev') \<and> simul ev ev' \<and>
      CFRulesResolved (e_graph env) ev' = Some False"
proof -
  let ?env = "sim_venv env" and ?g = "e_graph env" and ?s = "sim_start ev"
  have g: "e_graph ?env = ?g" by (simp add: sim_venv_def)
  obtain d where d: "hub_node ?g h = Some d" using h by blast
  have "card (pending ?g (sim_ev ?s)) \<le> g_nodeCounter ?g"
    using card_mono [of "{..<g_nodeCounter ?g}" "pending ?g (sim_ev ?s)"] by (auto simp: pending_def)
  then obtain sc t where t: "sim_loop turns fuel ?env h ?s = Some (sc, t)" "sonward ?env ?s t"
    and sc: "if sc = SUCCESS then CFRulesResolved ?g (sim_ev t) = Some True
       else sc = FAILURE \<and> CFRulesResolved ?g (sim_ev t) = Some False"
    using sim_loop_total [OF run, unfolded g, OF d head s, of fuel turns] fuel turns
    by (auto simp: sim_start_def)
  have sim: "simulate turns fuel env ev =
    Some (if sc = SUCCESS
      then (SUCCESS, upd_slot Top (\<lambda>f. f\<lparr>algsStates := reset_states (algsStates f),
              controlFlowState := replicate (length (controlFlowState f)) (- 1)\<rparr>) (sim_ev t))
      else (sc, sim_ev t))"
    using t(1) by (simp add: simulate_def head sim_venv_def sim_start_def)
  show ?thesis
  proof (cases "sc = SUCCESS")
    case False
    with sim sc t(2) show ?thesis by (auto simp: sonward_def sim_start_def)
  next
    case True
    have "graph_slot ?g (sim_ev t)" using t(2) by (simp add: sonward_def ready_def live_def g)
    then have top: "frame_ok (g_algoCounter ?g) (g_nodeCounter ?g) (topSlot (sim_ev t))"
      by (simp add: slot_ok_def frames_def)
    then have "reset_states (algsStates (topSlot (sim_ev t))) = new_algs_states (g_algoCounter ?g)"
      by (intro reset_states_new) (simp_all add: frame_ok_def)
    moreover obtain st ds where "sim_ev t =
        upd_slot Top (\<lambda>f. f\<lparr>algsStates := st, controlFlowState := ds\<rparr>) ev"
      using t(2) by (auto simp: sonward_def simul_def sim_start_def)
    ultimately show ?thesis using sim True top by (simp add: frame_ok_def)
  qed
qed

text \<open>
  C10. The simulation of the rules ends, on every graph whose hubs and conditions have heights,
  after at most one iteration per node and with a result that more turns and fuel do not change.
  On SUCCESS the slot is as new: every algorithm INITIAL, every decision open, everything else
  untouched. On FAILURE the head is still open, and the slot is left as the simulation made it, with
  decisions changed to 1 only.
\<close>

theorem simulate_terminates:
  assumes "e_graph env = build ops new_graph" and "runnable (sim_venv env) \<rho> R"
    and "ready (sim_venv env) (sm_visit (sim_start ev))"
    and "g_head (e_graph env) = Some h" and "hub_node (e_graph env) h \<noteq> None"
  shows "\<exists>sc ev'.
    (\<forall>fuel \<ge> sim_fuel (e_graph env) ev R. \<forall>turns > g_nodeCounter (e_graph env).
       simulate turns fuel env ev = Some (sc, ev')) \<and>
    (sc = SUCCESS \<and>
       ev' = upd_slot Top (\<lambda>f. f\<lparr>algsStates := new_algs_states (g_algoCounter (e_graph env)),
         controlFlowState := replicate (g_nodeCounter (e_graph env)) (- 1)\<rparr>) ev
     \<or> sc = FAILURE \<and> simul ev ev' \<and> CFRulesResolved (e_graph env) ev' = Some False)"
proof -
  let ?F = "sim_fuel (e_graph env) ev R" and ?T = "Suc (g_nodeCounter (e_graph env))"
  have mono: "simulate turns fuel env ev = Some x"
    if "simulate ?T ?F env ev = Some x" "?F \<le> fuel" "?T \<le> turns" for turns fuel x
    using simulate_mono [of ?T ?F env ev "turns - ?T" "fuel - ?F"] that by (simp add: ole_def)
  from simulate_result [OF assms(2-5), of ?F ?T] show ?thesis
    using mono by (metis Suc_leI lessI order_refl)
qed

lemma run_ready_sim: "ready (sim_venv (run_env root_cause)) (sm_visit (sim_start (v_ev run_start)))"
  using run_ready [of root_cause]
  by (simp add: ready_def live_def sim_venv_def sim_start_def run_env_def)

lemma run_runnable_sim: "runnable (sim_venv (run_env root_cause)) (case_cf_ref (\<lambda>n. 0) (\<lambda>n. 1)) 1"
  using run_runnable
  by (simp add: runnable_def sim_venv_def run_env_def root_cause_def sim_cause_def)

theorem simulate_terminates_witness:
  "simulate 4 27 (run_env root_cause) (v_ev run_start) = Some (SUCCESS, v_ev run_start)"
proof -
  let ?env = "run_env root_cause"
  have g: "e_graph ?env = build run_ops new_graph" by (simp add: run_env_def)
  have h: "g_head (e_graph ?env) = Some ''h''" "hub_node (e_graph ?env) ''h'' \<noteq> None"
    using run_graph g by (simp_all add: map_of_eq_None_iff flip: set_map)
  obtain sc ev' where res: "\<forall>fuel \<ge> sim_fuel (e_graph ?env) (v_ev run_start) 1.
      \<forall>turns > g_nodeCounter (e_graph ?env). simulate turns fuel ?env (v_ev run_start) = Some (sc, ev')"
    and sc: "sc = SUCCESS \<and>
       ev' = upd_slot Top (\<lambda>f. f\<lparr>algsStates := new_algs_states (g_algoCounter (e_graph ?env)),
         controlFlowState := replicate (g_nodeCounter (e_graph ?env)) (- 1)\<rparr>) (v_ev run_start)
     \<or> sc = FAILURE \<and> simul (v_ev run_start) ev' \<and> CFRulesResolved (e_graph ?env) ev' = Some False"
    using simulate_terminates [OF g run_runnable_sim run_ready_sim h] by blast
  have "sim_fuel (e_graph ?env) (v_ev run_start) 1 = 27" "g_nodeCounter (e_graph ?env) = 3"
    using run_graph g by (simp_all add: sim_fuel_def visit_fuel_def run_start_def reset_slot_def)
  with res have sim: "simulate 4 27 ?env (v_ev run_start) = Some (sc, ev')" by simp
  have "map_option fst (simulate 4 27 ?env (v_ev run_start)) = Some SUCCESS" by code_simp
  then have "sc = SUCCESS" using sim by simp
  then have "ev' = upd_slot Top (\<lambda>f. f\<lparr>algsStates := new_algs_states 2,
      controlFlowState := replicate 3 (- 1)\<rparr>) (v_ev run_start)"
    using sc run_graph g by simp
  also have "\<dots> = v_ev run_start"
    by (simp add: run_start_def reset_slot_def new_slot_def new_algs_states_def reset_states_def
        eval_nat_numeral)
  finally show ?thesis using sim \<open>sc = SUCCESS\<close> by simp
qed

end
