(* ===== verification/Assembly.thy ===== *)
theory Assembly
  imports Simulation
begin

text \<open>
  How GaudiHive/src/PrecedenceSvc.cpp builds the rules from the sequences of algorithms:
  \<open>assembleCFRules\<close>, and \<open>initialize\<close> up to the point where the graph links its data. A graph built
  this way has exactly the edges of the sequences, hence a height when the sequences have one,
  and every event can be driven through it.
\<close>

section \<open>Sequences\<close>

text \<open>
  What \<open>assembleCFRules\<close> reads of an algorithm: a leaf, or a sequence with its name, its
  properties as strings, whether the cast to \<open>Gaudi::Sequence\<close> succeeds, and its members.
\<close>

datatype alg_tree =
    Leaf_alg gaudi_alg
  | Seq_alg (seq_name: string) (seq_props: "(string \<times> string) list") bool "alg_tree list"

fun tree_ref :: "alg_tree \<Rightarrow> cf_ref" where
  "tree_ref (Leaf_alg a) = Alg_Node (ga_name a)"
| "tree_ref (Seq_alg n ps ok subs) = Hub_Node n"

definition hasProperty :: "(string \<times> string) list \<Rightarrow> string \<Rightarrow> bool" where
  "hasProperty ps n \<longleftrightarrow> map_of ps n \<noteq> None"

text \<open>\<open>getProperty(n).toString() == v\<close>; None when there is no such property and it throws.\<close>

definition property_is :: "(string \<times> string) list \<Rightarrow> string \<Rightarrow> string \<Rightarrow> bool option" where
  "property_is ps n v = map_option (\<lambda>x. x = v) (map_of ps n)"

definition is_sequential :: "(string \<times> string) list \<Rightarrow> bool" where
  "is_sequential ps \<longleftrightarrow> property_is ps ''Sequential'' ''True'' = Some True"

definition sequence_modes :: "(string \<times> string) list \<Rightarrow> hub_modes option" where
  "sequence_modes ps =
     (if hasProperty ps ''ShortCircuit'' then
        Option.bind (property_is ps ''ModeOR'' ''True'') (\<lambda>modeOr.
        Option.bind (property_is ps ''IgnoreFilterPassed'' ''True'') (\<lambda>allPass.
        Option.bind (property_is ps ''ShortCircuit'' ''True'') (\<lambda>promptDecision.
        Option.bind (property_is ps ''Invert'' ''True'') (\<lambda>isInverted.
          Some \<lparr>modeConcurrent = \<not> is_sequential ps,
                modePromptDecision = (if allPass then False else promptDecision),
                modeOR = modeOr, allPassMode = allPass, invertedMode = isInverted\<rparr>))))
      else if hasProperty ps ''StopOverride'' then
        Option.bind (property_is ps ''ModeOR'' ''True'') (\<lambda>modeOr.
        Option.bind (property_is ps ''IgnoreFilterPassed'' ''True'') (\<lambda>allPass.
        Option.bind (property_is ps ''StopOverride'' ''False'') (\<lambda>promptDecision.
          Some \<lparr>modeConcurrent = \<not> is_sequential ps, modePromptDecision = promptDecision,
                modeOR = modeOr, allPassMode = allPass, invertedMode = False\<rparr>)))
      else Some \<lparr>modeConcurrent = True, modePromptDecision = False, modeOR = False,
                 allPassMode = False, invertedMode = False\<rparr>)"

fun assembleCFRules ::
    "alg_tree \<Rightarrow> string \<Rightarrow> rules_graph \<Rightarrow> (error_code \<times> rules_graph) option"
  and assemble_members ::
    "alg_tree list \<Rightarrow> string \<Rightarrow> error_code \<times> rules_graph \<Rightarrow> (error_code \<times> rules_graph) option"
where
  "assembleCFRules (Leaf_alg a) parentName g = Some (addAlgorithmNode a parentName False False g)"
| "assembleCFRules (Seq_alg n ps castable subs) parentName g =
     (if \<not> castable then Some (FAILURE, g)
      else
        Option.bind (sequence_modes ps) (\<lambda>m.
          let (sc, g) = addDecisionHubNode n parentName m g
          in if sc \<noteq> SUCCESS then Some (sc, g) else assemble_members subs n (sc, g)))"
| "assemble_members [] parentName (sc, g) = Some (sc, g)"
| "assemble_members (t # ts) parentName (sc, g) =
     Option.bind (assembleCFRules t parentName g)
       (\<lambda>p. if fst p \<noteq> SUCCESS then Some p else assemble_members ts parentName p)"

section \<open>PrecedenceSvc::initialize\<close>

definition root_modes :: hub_modes where
  "root_modes = \<lparr>modeConcurrent = True, modePromptDecision = False, modeOR = True,
     allPassMode = True, invertedMode = False\<rparr>"

text \<open>
  From the top algorithms to the graph with its data realm; \<open>dump\<close> is DumpPrecedenceRules and
  \<open>ignoreDF\<close> is IgnoreDFRules.
\<close>

definition initialize_rules ::
  "bool \<Rightarrow> bool \<Rightarrow> cond_svc option \<Rightarrow> alg_tree list \<Rightarrow> (error_code \<times> rules_graph) option"
where
  "initialize_rules dump ignoreDF condSvc topAlgs =
     (let g = (if dump then enableAnalysis new_graph else new_graph);
          g = addHeadNode ''RootDecisionHub'' root_modes g
      in Option.bind (assemble_members topAlgs ''RootDecisionHub'' (SUCCESS, g))
           (\<lambda>(sc, g). if sc \<noteq> SUCCESS then Some (sc, g)
              else if ignoreDF then Some (SUCCESS, g)
              else Some (graph_initialize condSvc g)))"

section \<open>The edges of the graph are those of the sequences\<close>

fun tree_edges :: "alg_tree \<Rightarrow> (string \<times> cf_ref) set" where
  "tree_edges (Leaf_alg a) = {}"
| "tree_edges (Seq_alg n ps ok subs) =
     (\<lambda>t. (n, tree_ref t)) ` set subs \<union> (\<Union>t \<in> set subs. tree_edges t)"

definition cf_edges :: "rules_graph \<Rightarrow> (string \<times> cf_ref) set" where
  "cf_edges g = {(p, c). daughter g p c}"

lemma link_edges:
  "has_cf g p c \<Longrightarrow> cf_edges (link_cf p c g) = insert (p, c) (cf_edges g)"
  using cf.fwd_link [of g p c] by (auto simp: cf_edges_def)

lemma bgl_edges [simp]: "cf_edges (bgl_add_edge u v g) = cf_edges g"
  by (simp add: cf_edges_def daughter_def graph_simps)

definition hubs :: "rules_graph \<Rightarrow> string set" where
  "hubs g = dom (map_of (g_hubs g))"

lemma hub_link [simp]: "hubs (link_cf p c g) = hubs g" "hubs (bgl_add_edge u v g) = hubs g"
  by (cases c; auto simp: graph_simps hubs_def split: if_splits)+

lemma add_alg_edges:
  assumes "p \<in> hubs g"
  shows "fst (addAlgorithmNode a p iv ap g) = SUCCESS
    \<and> cf_edges (snd (addAlgorithmNode a p iv ap g)) = insert (p, Alg_Node (ga_name a)) (cf_edges g)
    \<and> hubs (snd (addAlgorithmNode a p iv ap g)) = hubs g"
proof (rule addAlgorithmNode_cases [of g a p iv ap])
  fix g'
  assume g': "g_hubs g' = g_hubs g" "alg_node g' (ga_name a) \<noteq> None"
    "addAlgorithmNode a p iv ap g =
      (if hub_node g p \<noteq> None
       then (SUCCESS, bgl_add_edge (ga_name a) p (link_cf p (Alg_Node (ga_name a)) g'))
       else (FAILURE, g'))"
  have p: "hub_node g p \<noteq> None" using assms by (auto simp: hubs_def)
  then have "has_cf g' p (Alg_Node (ga_name a))" using g' by (simp add: has_cf_def)
  moreover have "cf_edges g' = cf_edges g" "hubs g' = hubs g"
    using g'(1) by (simp_all add: cf_edges_def daughter_def hubs_def)
  ultimately show ?thesis
    using link_edges g'(3) p by (simp del: link_cf.simps)
qed

lemma add_hub_edges:
  assumes "p \<in> hubs g"
  shows "fst (addDecisionHubNode n p m g) = SUCCESS
    \<and> cf_edges (snd (addDecisionHubNode n p m g)) = insert (p, Hub_Node n) (cf_edges g)
    \<and> hubs (snd (addDecisionHubNode n p m g)) = insert n (hubs g)"
proof (rule addDecisionHubNode_cases [of g n p m])
  fix g'
  assume g': "hub_node g' n \<noteq> None" "\<forall>x. x \<noteq> n \<longrightarrow> hub_node g' x = hub_node g x"
    "hub_node g n \<noteq> None \<Longrightarrow> g' = g"
    "addDecisionHubNode n p m g =
      (if hub_node g' p \<noteq> None
       then (SUCCESS, bgl_add_edge n p (link_cf p (Hub_Node n) g')) else (FAILURE, g'))"
    "hub_node g n = None \<Longrightarrow> hub_node g' n = Some (new_decision_node n (g_nodeCounter g) m)"
  have hubs: "hubs g' = insert n (hubs g)"
    using g'(1,2) by (auto simp: hubs_def dom_def)
  then have p: "hub_node g' p \<noteq> None" using assms by (auto simp: hubs_def)
  then have has: "has_cf g' p (Hub_Node n)" using g'(1) by (simp add: has_cf_def)
  have "daughter g' x c = daughter g x c" for x c
    using g'(2,3,5) by (cases "x = n"; cases "hub_node g n") (auto simp: daughter_def new_decision_node_def)
  then have "cf_edges g' = cf_edges g" by (simp add: cf_edges_def)
  with link_edges [OF has] g'(4) p hubs show ?thesis by (simp del: link_cf.simps)
qed

lemma same_hubs [simp]:
  "g_hubs (upd_alg n f g) = g_hubs g" "g_hubs (upd_data h q g) = g_hubs g"
  "g_head (upd_alg n f g) = g_head g" "g_head (upd_data h q g) = g_head g"
  "g_head (upd_hub p e g) = g_head g"
  "g_hubs (snd (addDataNode cs d g)) = g_hubs g" "g_head (snd (addDataNode cs d g)) = g_head g"
  by (simp_all add: upd_alg_def upd_data_def upd_hub_def addDataNode_def Let_def graph_simps)

lemma add_node_head:
  "g_head (snd (addAlgorithmNode a p iv ap g)) = g_head g"
  "g_head (snd (addDecisionHubNode n p m g)) = g_head g"
  by (simp_all add: addAlgorithmNode_def addDecisionHubNode_def Let_def graph_simps
      registerIODataObjects_def)

text \<open>What assembling a tree without an error adds, first for the members of a sequence.\<close>

definition adds_edges :: "rules_graph \<Rightarrow> (string \<times> cf_ref) set \<Rightarrow> rules_graph \<Rightarrow> bool" where
  "adds_edges g E g' \<longleftrightarrow> cf_edges g' = cf_edges g \<union> E \<and> hubs g \<subseteq> hubs g' \<and>
     g_head g' = g_head g \<and> (graph_ok g \<longrightarrow> graph_ok g')"

lemma adds_edges_trans: "adds_edges g E g' \<Longrightarrow> adds_edges g' F g'' \<Longrightarrow> adds_edges g (E \<union> F) g''"
  by (auto simp: adds_edges_def)

lemma assemble_members_edges:
  assumes "\<And>t g g'. t \<in> set ts \<Longrightarrow> assembleCFRules t p g = Some (SUCCESS, g') \<Longrightarrow>
      p \<in> hubs g \<Longrightarrow> adds_edges g (insert (p, tree_ref t) (tree_edges t)) g'"
  shows "assemble_members ts p (SUCCESS, g) = Some (SUCCESS, g') \<Longrightarrow> p \<in> hubs g \<Longrightarrow>
    adds_edges g ((\<lambda>t. (p, tree_ref t)) ` set ts \<union> (\<Union>t \<in> set ts. tree_edges t)) g'"
  using assms
proof (induction ts arbitrary: g)
  case Nil
  then show ?case by (simp add: adds_edges_def)
next
  case (Cons t ts)
  from Cons.prems(1) obtain g1 where t: "assembleCFRules t p g = Some (SUCCESS, g1)"
    and ts: "assemble_members ts p (SUCCESS, g1) = Some (SUCCESS, g')"
    by (auto simp: bind_eq_Some_conv split: if_splits)
  have 1: "adds_edges g (insert (p, tree_ref t) (tree_edges t)) g1"
    using Cons.prems(3) [OF _ t Cons.prems(2)] by simp
  then have "p \<in> hubs g1" using Cons.prems(2) by (auto simp: adds_edges_def)
  with Cons.IH [OF ts] Cons.prems(3)
  have "adds_edges g1 ((\<lambda>t. (p, tree_ref t)) ` set ts \<union> (\<Union>t \<in> set ts. tree_edges t)) g'"
    by simp
  from adds_edges_trans [OF 1 this]
  have "adds_edges g (insert (p, tree_ref t) (tree_edges t)
      \<union> ((\<lambda>t. (p, tree_ref t)) ` set ts \<union> (\<Union>t \<in> set ts. tree_edges t))) g'" .
  moreover have "insert (p, tree_ref t) (tree_edges t)
      \<union> ((\<lambda>t. (p, tree_ref t)) ` set ts \<union> (\<Union>t \<in> set ts. tree_edges t))
    = (\<lambda>t. (p, tree_ref t)) ` set (t # ts) \<union> (\<Union>t \<in> set (t # ts). tree_edges t)"
    by auto
  ultimately show ?case by simp
qed

lemma assemble_edges:
  "assembleCFRules t p g = Some (SUCCESS, g') \<Longrightarrow> p \<in> hubs g \<Longrightarrow>
   adds_edges g (insert (p, tree_ref t) (tree_edges t)) g'"
proof (induction t arbitrary: p g g')
  case (Leaf_alg a)
  with add_alg_edges [of p g a False False] add_node_head(1) [of a p False False g]
    addAlgorithmNode_ok [of g a p False False]
  show ?case by (auto simp: adds_edges_def)
next
  case (Seq_alg n ps ok subs)
  obtain m where m: "sequence_modes ps = Some m" and ok
    using Seq_alg.prems by (auto simp: bind_eq_Some_conv split: if_splits)
  obtain sc1 g1 where add: "addDecisionHubNode n p m g = (sc1, g1)" by fastforce
  note e = add_hub_edges [OF Seq_alg.prems(2), of n m, unfolded add]
  have mem: "assemble_members subs n (SUCCESS, g1) = Some (SUCCESS, g')"
    using Seq_alg.prems(1) m \<open>ok\<close> add e by auto
  have "n \<in> hubs g1" using e by simp
  from assemble_members_edges [OF Seq_alg.IH mem this]
  have "adds_edges g1 (tree_edges (Seq_alg n ps ok subs)) g'" by simp
  moreover have "adds_edges g {(p, Hub_Node n)} g1"
    using e add_node_head(2) [of n p m g] addDecisionHubNode_ok [of g n p m]
    by (auto simp: adds_edges_def add)
  ultimately show ?case using adds_edges_trans by fastforce
qed

section \<open>The data realm adds no edge\<close>

lemma link_outputs_hubs:
  "g_hubs (snd (link_outputs cs n ds (sc, g))) = g_hubs g
   \<and> g_head (snd (link_outputs cs n ds (sc, g))) = g_head g"
proof (induction ds arbitrary: sc g)
  case (Cons d ds)
  then show ?case by (simp add: Let_def graph_simps case_prod_beta)
qed simp

lemma link_inputs_hubs:
  "g_hubs (link_inputs n ds g) = g_hubs g \<and> g_head (link_inputs n ds g) = g_head g"
  by (induction ds arbitrary: g) (auto simp: graph_simps)

lemma fold_keeps: "(\<And>x s. x \<in> set xs \<Longrightarrow> P s (f x s)) \<Longrightarrow> (\<And>s. P s s) \<Longrightarrow>
  (\<And>s t u. P s t \<Longrightarrow> P t u \<Longrightarrow> P s u) \<Longrightarrow> P s (fold f xs s)"
  by (induction xs arbitrary: s) (simp, metis fold_simps(2) list.set_intros)

lemma realm_hubs:
  "g_hubs (snd (buildDataDependenciesRealm cs g)) = g_hubs g
   \<and> g_head (snd (buildDataDependenciesRealm cs g)) = g_head g"
proof -
  have 1: "g_hubs (snd (fold (\<lambda>n (sc, g). link_outputs cs n (outputs_of g n) (sc, g)) ns s)) = g_hubs (snd s)
      \<and> g_head (snd (fold (\<lambda>n (sc, g). link_outputs cs n (outputs_of g n) (sc, g)) ns s)) = g_head (snd s)"
    for ns s
    by (rule fold_keeps) (use link_outputs_hubs in \<open>auto split: prod.splits\<close>)
  have 2: "g_hubs (fold (\<lambda>n g. link_inputs n (inputs_of g n) g) ns h) = g_hubs h
      \<and> g_head (fold (\<lambda>n g. link_inputs n (inputs_of g n) g) ns h) = g_head h" for ns h
    by (rule fold_keeps) (use link_inputs_hubs in auto)
  show ?thesis
    using 1 [of _ "(SUCCESS, g)"] 2
    by (simp add: buildDataDependenciesRealm_def Let_def case_prod_beta)
qed

text \<open>Detaching the condition algorithms takes away their edges and no other.\<close>

definition detached :: "cond_svc option \<Rightarrow> cf_ref set" where
  "detached cs = (case cs of None \<Rightarrow> {} | Some c \<Rightarrow> Alg_Node ` set (cs_condAlgs c))"

lemma detach_edges:
  "graph_ok g \<Longrightarrow> cf_edges (fold detach_alg ns g) = cf_edges g - UNIV \<times> Alg_Node ` set ns"
proof (induction ns arbitrary: g)
  case (Cons n ns)
  from detach_alg_ok [OF Cons.prems, of n] have "graph_ok (detach_alg n g)"
    and "cf_edges (detach_alg n g) = cf_edges g - UNIV \<times> {Alg_Node n}" by (auto simp: cf_edges_def)
  with Cons.IH [of "detach_alg n g"] show ?case by auto
qed simp

text \<open>What a step leaves alone: the head, the names of the hubs and their modes.\<close>

definition modes_of :: "decision_node \<Rightarrow> hub_modes" where
  "modes_of d = \<lparr>modeConcurrent = dn_modeConcurrent d, modePromptDecision = dn_modePromptDecision d,
     modeOR = dn_modeOR d, allPassMode = dn_allPass d, invertedMode = dn_inverted d\<rparr>"

definition same_modes :: "rules_graph \<Rightarrow> rules_graph \<Rightarrow> bool" where
  "same_modes g g' \<longleftrightarrow> (\<lambda>n. map_option modes_of (hub_node g' n)) = (\<lambda>n. map_option modes_of (hub_node g n)) \<and>
     g_head g' = g_head g"

lemma same_modes_trans: "same_modes g g' \<Longrightarrow> same_modes g' g'' \<Longrightarrow> same_modes g g''"
  by (simp add: same_modes_def)

lemma same_modes_refl [simp]: "same_modes g g"
  by (simp add: same_modes_def)

lemma same_modes_hubs: "same_modes g g' \<Longrightarrow> hubs g' = hubs g"
  by (auto simp: same_modes_def hubs_def dom_def fun_eq_iff) (metis option.map_disc_iff option.distinct(1) not_None_eq)+

lemma same_modes_cong: "g_hubs g' = g_hubs g \<Longrightarrow> g_head g' = g_head g \<Longrightarrow> same_modes g g'"
  by (simp add: same_modes_def)

text \<open>The parts of the graph that hold the declared inputs and outputs, and the data objects.\<close>

definition same_io :: "rules_graph \<Rightarrow> rules_graph \<Rightarrow> bool" where
  "same_io g g' \<longleftrightarrow> g_inputs g' = g_inputs g \<and> g_outputs g' = g_outputs g \<and> g_data g' = g_data g \<and>
     (\<lambda>n. map_option an_inputs (alg_node g' n)) = (\<lambda>n. map_option an_inputs (alg_node g n))"

lemma same_io_trans: "same_io g g' \<Longrightarrow> same_io g' g'' \<Longrightarrow> same_io g g''"
  by (simp add: same_io_def)

lemma same_io_refl [simp]: "same_io g g"
  by (simp add: same_io_def)

lemma bgl_io [simp]:
  "same_io g (bgl_add_edge u v g)" "same_io g (bgl_remove_edge u v g)" "same_io g (bgl_add_vertex w g)"
  by (simp_all add: same_io_def bgl_add_edge_def bgl_remove_edge_def bgl_add_vertex_def)

lemma upd_io:
  "same_io g (upd_hub p e g)" "(\<And>a. an_inputs (f a) = an_inputs a) \<Longrightarrow> same_io g (upd_alg n f g)"
  by (auto simp: same_io_def upd_hub_def upd_alg_def fun_eq_iff option.map_comp comp_def)

lemma upd_modes:
  "(\<And>d. modes_of (e d) = modes_of d) \<Longrightarrow> same_modes g (upd_hub p e g)" "same_modes g (upd_alg n f g)"
  "same_modes g (upd_data h q g)" "same_modes g (bgl_add_edge u v g)" "same_modes g (bgl_remove_edge u v g)"
  "same_modes g (bgl_add_vertex w g)"
  by (auto simp: same_modes_def graph_simps fun_eq_iff option.map_comp comp_def)

lemma detach_same: "same_modes g (detach_alg n g) \<and> same_io g (detach_alg n g)"
proof (cases "alg_node g n")
  case None
  then show ?thesis by (simp add: detach_alg_def)
next
  case (Some a)
  let ?f = "\<lambda>p g. bgl_remove_edge n p
      (upd_hub p (\<lambda>d. d\<lparr>dn_children := removeAll (Alg_Node n) (dn_children d)\<rparr>) g)"
  have m: "same_modes g (?f p g)" for p g
    by (rule same_modes_trans [OF upd_modes(1) upd_modes(5)]) (simp add: modes_of_def)
  have i: "same_io g (?f p g)" for p g
    by (rule same_io_trans [OF upd_io(1) bgl_io(2)])
  have "same_modes g (fold ?f (an_parents a) g)"
    by (rule fold_keeps [where P = same_modes]) (auto intro: m same_modes_trans)
  moreover have "same_io g (fold ?f (an_parents a) g)"
    by (rule fold_keeps [where P = same_io]) (auto intro: i same_io_trans)
  ultimately show ?thesis
    using Some upd_modes(2) [of _ n] upd_io(2) [of "\<lambda>a. a\<lparr>an_parents := []\<rparr>"]
    by (auto simp: detach_alg_def intro: same_modes_trans same_io_trans)
qed

lemma detaches_same: "same_modes g (fold detach_alg ns g) \<and> same_io g (fold detach_alg ns g)"
  by (rule fold_keeps [where P = "\<lambda>g g'. same_modes g g' \<and> same_io g g'"])
    (auto simp: detach_same intro: same_modes_trans same_io_trans)

lemma initialize_edges:
  assumes "graph_ok g"
  shows "cf_edges (snd (graph_initialize cs g)) = cf_edges g - UNIV \<times> detached cs \<and> same_modes g (snd (graph_initialize cs g))"
proof (cases cs)
  case None
  then show ?thesis using realm_hubs [of cs g]
    by (simp add: graph_initialize_def detached_def cf_edges_def daughter_def same_modes_cong)
next
  case (Some c)
  let ?g = "g\<lparr>g_conditionsRealmEnabled := True\<rparr>" and ?h = "fold detach_alg (cs_condAlgs c) (g\<lparr>g_conditionsRealmEnabled := True\<rparr>)"
  have "graph_ok ?g" using assms graph_ok_cong [of ?g g] by simp
  from detach_edges [OF this, of "cs_condAlgs c"]
  have "cf_edges ?h = cf_edges g - UNIV \<times> detached cs" by (simp add: Some detached_def cf_edges_def daughter_def)
  moreover have "same_modes g ?h"
    using detaches_same [of ?g "cs_condAlgs c"] same_modes_cong [of ?g g] by (auto intro: same_modes_trans)
  moreover have "g_hubs (snd (graph_initialize cs g)) = g_hubs ?h" "g_head (snd (graph_initialize cs g)) = g_head ?h"
    using realm_hubs [of cs ?h] by (simp_all add: graph_initialize_def Some)
  ultimately show ?thesis
    using same_modes_cong by (auto simp: cf_edges_def daughter_def intro: same_modes_trans)
qed

section \<open>Where the nodes come from\<close>

text \<open>
  \<open>T\<close> is the set of algorithms and sequences of the tree: the modes of each hub but the root are
  those of a sequence of its name, and the declared inputs and outputs those of an algorithm.
\<close>

fun subtrees :: "alg_tree \<Rightarrow> alg_tree set" where
  "subtrees (Leaf_alg a) = {Leaf_alg a}"
| "subtrees (Seq_alg n ps ok subs) = insert (Seq_alg n ps ok subs) (\<Union>t \<in> set subs. subtrees t)"

definition hubs_from :: "alg_tree set \<Rightarrow> rules_graph \<Rightarrow> bool" where
  "hubs_from T g \<longleftrightarrow> (\<forall>n d. hub_node g n = Some d \<longrightarrow> n = ''RootDecisionHub'' \<or>
     (\<exists>ps ok subs. Seq_alg n ps ok subs \<in> T \<and> sequence_modes ps = Some (modes_of d)))"

definition io_from :: "alg_tree set \<Rightarrow> rules_graph \<Rightarrow> bool" where
  "io_from T g \<longleftrightarrow>
     (\<forall>n ds. map_of (g_inputs g) n = Some ds \<longrightarrow> (\<exists>a. Leaf_alg a \<in> T \<and> ga_name a = n \<and> ga_inputs a = ds)) \<and>
     (\<forall>n ds. map_of (g_outputs g) n = Some ds \<longrightarrow> (\<exists>a. Leaf_alg a \<in> T \<and> ga_name a = n \<and> ga_outputs a = ds))"

definition no_data :: "rules_graph \<Rightarrow> bool" where
  "no_data g \<longleftrightarrow> g_data g = [] \<and> (\<forall>n a. alg_node g n = Some a \<longrightarrow> an_inputs a = [])"

definition built_from :: "alg_tree set \<Rightarrow> rules_graph \<Rightarrow> bool" where
  "built_from T g \<longleftrightarrow> hubs_from T g \<and> io_from T g \<and> no_data g"

lemma hubs_from_same:
  assumes "same_modes g g'" and "hubs_from T g"
  shows "hubs_from T g'"
  unfolding hubs_from_def
proof (intro allI impI)
  fix n d
  assume d: "hub_node g' n = Some d"
  have "map_option modes_of (hub_node g' n) = map_option modes_of (hub_node g n)"
    using assms(1) unfolding same_modes_def by (elim conjE) (rule fun_cong)
  with d have "map_option modes_of (hub_node g n) = Some (modes_of d)" by simp
  then obtain d' where "hub_node g n = Some d'" "modes_of d' = modes_of d" by auto
  then show "n = ''RootDecisionHub'' \<or> (\<exists>ps ok subs. Seq_alg n ps ok subs \<in> T \<and> sequence_modes ps = Some (modes_of d))"
    using assms(2) unfolding hubs_from_def by metis
qed

lemma io_from_same: "same_io g g' \<Longrightarrow> io_from T g \<Longrightarrow> io_from T g'"
  by (simp add: io_from_def same_io_def)

lemma no_data_same:
  assumes "same_io g g'" and "no_data g"
  shows "no_data g'"
proof -
  have "an_inputs a = []" if "alg_node g' n = Some a" for n a
  proof -
    have "map_option an_inputs (alg_node g' n) = map_option an_inputs (alg_node g n)"
      using assms(1) by (simp add: same_io_def fun_eq_iff)
    with that assms(2) show ?thesis by (cases "alg_node g n") (auto simp: no_data_def)
  qed
  then show ?thesis using assms by (simp add: no_data_def same_io_def)
qed

lemma built_same: "same_modes g g' \<Longrightarrow> same_io g g' \<Longrightarrow> built_from T g \<Longrightarrow> built_from T g'"
  unfolding built_from_def using hubs_from_same io_from_same no_data_same by blast

lemma linked_modes [simp]:
  "modes_of (addDaughterNode c d) = modes_of d" "modes_of (dn_addParentNode p d) = modes_of d"
  "an_inputs (an_addParentNode p a) = an_inputs a"
  by (simp_all add: modes_of_def addDaughterNode_def dn_addParentNode_def an_addParentNode_def)

lemma link_same: "same_modes g (bgl_add_edge u v (link_cf p c g)) \<and> same_io g (bgl_add_edge u v (link_cf p c g))"
proof -
  have "same_modes g (link_cf p c g) \<and> same_io g (link_cf p c g)"
  proof (cases c)
    case (Alg_Node n)
    let ?h = "upd_hub p (addDaughterNode (Alg_Node n)) g"
    have "same_modes g ?h" "same_modes ?h (upd_alg n (an_addParentNode p) ?h)"
      "same_io g ?h" "same_io ?h (upd_alg n (an_addParentNode p) ?h)"
      by (rule upd_modes upd_io; simp)+
    then show ?thesis unfolding Alg_Node link_cf.simps using same_modes_trans same_io_trans by blast
  next
    case (Hub_Node n)
    let ?h = "upd_hub p (addDaughterNode (Hub_Node n)) g"
    have "same_modes g ?h" "same_modes ?h (upd_hub n (dn_addParentNode p) ?h)"
      "same_io g ?h" "same_io ?h (upd_hub n (dn_addParentNode p) ?h)"
      by (rule upd_modes upd_io; simp)+
    then show ?thesis unfolding Hub_Node link_cf.simps using same_modes_trans same_io_trans by blast
  qed
  then show ?thesis using same_modes_trans [OF _ upd_modes(4)] same_io_trans [OF _ bgl_io(1)] by blast
qed

lemma built_add_alg:
  assumes "built_from T g" and "Leaf_alg a \<in> T"
  shows "built_from T (snd (addAlgorithmNode a p iv ap g))"
proof -
  let ?g = "g\<lparr>g_algs := AList.update (ga_name a) (new_algorithm_node a (g_nodeCounter g) (g_algoCounter g) iv ap) (g_algs g)\<rparr>"
  let ?h = "bgl_add_vertex (AlgoProps (algo_props_of a (g_nodeCounter g) (g_algoCounter g) iv ap)) ?g"
  define g1 where "g1 = (if alg_node g (ga_name a) \<noteq> None then g
    else registerIODataObjects a (?h\<lparr>g_nodeCounter := Suc (g_nodeCounter ?h), g_algoCounter := Suc (g_algoCounter ?h)\<rparr>))"
  have "built_from T g1"
    using assms by (auto simp: g1_def built_from_def hubs_from_def io_from_def no_data_def registerIODataObjects_def
        bgl_add_vertex_def update_conv' new_algorithm_node_def split: if_splits)
  moreover have "snd (addAlgorithmNode a p iv ap g) =
      (if hub_node g1 p \<noteq> None then bgl_add_edge (ga_name a) p (link_cf p (Alg_Node (ga_name a)) g1) else g1)"
    by (simp add: addAlgorithmNode_def g1_def Let_def)
  moreover have "built_from T (bgl_add_edge (ga_name a) p (link_cf p (Alg_Node (ga_name a)) g1))" if "built_from T g1"
    by (rule built_same [OF _ _ that]) (use link_same in blast)+
  ultimately show ?thesis by (simp del: link_cf.simps)
qed

lemma built_add_hub:
  assumes "built_from T g" and "Seq_alg n ps ok subs \<in> T" and "sequence_modes ps = Some m"
  shows "built_from T (snd (addDecisionHubNode n p m g))"
proof -
  let ?g = "g\<lparr>g_hubs := AList.update n (new_decision_node n (g_nodeCounter g) m) (g_hubs g)\<rparr>"
  let ?h = "bgl_add_vertex (DecisionHubProps \<lparr>hp_name = n, hp_nodeIndex = g_nodeCounter ?g, hp_modes = m\<rparr>) ?g"
  define g1 where "g1 = (if hub_node g n \<noteq> None then g else ?h\<lparr>g_nodeCounter := Suc (g_nodeCounter ?h)\<rparr>)"
  have m: "modes_of (new_decision_node n k m) = m" for k by (simp add: modes_of_def new_decision_node_def)
  have "hub_node g1 x = (if x = n \<and> hub_node g n = None then Some (new_decision_node n (g_nodeCounter g) m) else hub_node g x)" for x
    by (auto simp: g1_def bgl_add_vertex_def update_conv')
  then have "hubs_from T g1"
    using assms m unfolding built_from_def hubs_from_def by (metis option.inject)
  moreover have "io_from T g1" "no_data g1"
    using assms(1) by (auto simp: g1_def built_from_def io_from_def no_data_def bgl_add_vertex_def)
  ultimately have "built_from T g1" by (simp add: built_from_def)
  moreover have "snd (addDecisionHubNode n p m g) =
      (if hub_node g1 p \<noteq> None then bgl_add_edge n p (link_cf p (Hub_Node n) g1) else g1)"
    by (simp add: addDecisionHubNode_def g1_def Let_def)
  moreover have "built_from T (bgl_add_edge n p (link_cf p (Hub_Node n) g1))" if "built_from T g1"
    by (rule built_same [OF _ _ that]) (use link_same in blast)+
  ultimately show ?thesis by (simp del: link_cf.simps)
qed

lemma assemble_built:
  "assembleCFRules t p g = Some (sc, g') \<Longrightarrow> subtrees t \<subseteq> T \<Longrightarrow> built_from T g \<Longrightarrow> built_from T g'"
  "assemble_members ts p (sc0, g) = Some (sc, g') \<Longrightarrow> (\<Union>t \<in> set ts. subtrees t) \<subseteq> T \<Longrightarrow> built_from T g \<Longrightarrow> built_from T g'"
proof (induction t p g and ts p "(sc0, g)" arbitrary: sc g' and sc g' sc0 g
    rule: assembleCFRules_assemble_members.induct)
  case (1 a p g)
  then show ?case using built_add_alg [of T g a p False False] by auto
next
  case (2 n ps ok subs p g)
  show ?case
  proof (cases ok)
    case False
    with 2 show ?thesis by simp
  next
    case True
    then obtain m where m: "sequence_modes ps = Some m" using 2(2) by (auto simp: bind_eq_Some_conv)
    obtain sc1 g1 where h: "addDecisionHubNode n p m g = (sc1, g1)" by fastforce
    have b: "built_from T g1" using built_add_hub [OF 2(4) _ m, of n ok subs p] 2(3) h by simp
    show ?thesis
    proof (cases "sc1 = SUCCESS")
      case False
      with 2(2) True m h b show ?thesis by simp
    next
      case ok: True
      with 2(2) True m h have "assemble_members subs n (sc1, g1) = Some (sc, g')" by simp
      from 2(1) [OF _ m refl h [symmetric] _ this] True ok 2(3) b show ?thesis by simp
    qed
  qed
next
  case (3 p sc1 g1)
  then show ?case by simp
next
  case (4 t ts p sc1 g1)
  then show ?case by (auto simp: bind_eq_Some_conv split: if_splits)
qed

text \<open>
  The data realm links an algorithm only with data of its declared inputs and outputs, and only an
  output that the condition service has registered makes a data object a condition.
\<close>

definition declares :: "alg_tree set \<Rightarrow> (gaudi_alg \<Rightarrow> data_id list) \<Rightarrow> string \<Rightarrow> u64 \<Rightarrow> bool" where
  "declares T io n h \<longleftrightarrow> (\<exists>a. Leaf_alg a \<in> T \<and> ga_name a = n \<and> h \<in> doid_hash ` set (io a))"

definition is_condition :: "cond_svc option \<Rightarrow> alg_tree set \<Rightarrow> u64 \<Rightarrow> bool" where
  "is_condition cs T h \<longleftrightarrow>
     (\<exists>c a x. cs = Some c \<and> Leaf_alg a \<in> T \<and> x \<in> set (ga_outputs a) \<and> doid_hash x = h \<and> cs_isRegistered c x)"

definition data_from :: "cond_svc option \<Rightarrow> alg_tree set \<Rightarrow> rules_graph \<Rightarrow> bool" where
  "data_from cs T g \<longleftrightarrow> io_from T g \<and>
     (\<forall>n a h. alg_node g n = Some a \<longrightarrow> h \<in> set (an_inputs a) \<longrightarrow> declares T ga_inputs n h) \<and>
     (\<forall>h d. data_node_at g h = Some d \<longrightarrow>
        (\<forall>p \<in> set (da_producers d). declares T ga_outputs p h) \<and> (da_condition d \<longrightarrow> is_condition cs T h))"

lemma built_data: "io_from T g \<Longrightarrow> no_data g \<Longrightarrow> data_from cs T g"
  by (simp add: data_from_def no_data_def)

lemma bgl_data [simp]: "data_from cs T (bgl_add_edge u v g) = data_from cs T g"
  by (simp add: data_from_def io_from_def bgl_add_edge_def)

lemma add_data_from:
  assumes g: "data_from cs T g" and a: "Leaf_alg a \<in> T" "x \<in> set (ga_outputs a)"
  shows "data_from cs T (snd (addDataNode cs x g))"
proof -
  have "is_condition cs T (doid_hash x)" if "case cs of Some c \<Rightarrow> cs_isRegistered c x | None \<Rightarrow> False"
    using that a by (auto simp: is_condition_def split: option.splits)
  then show ?thesis
    using g by (auto simp: data_from_def io_from_def addDataNode_def bgl_add_vertex_def Let_def update_conv'
        new_data_node_def split: if_splits)
qed

lemma add_producer_from:
  assumes g: "data_from cs T g" and d: "declares T ga_outputs n h"
  shows "data_from cs T (upd_alg n (addOutputDataNode h) (upd_data h (addProducerNode n) g))"
proof -
  have "da_condition (addProducerNode n q) = da_condition q" for q by (simp add: addProducerNode_def)
  moreover have "g_inputs (upd_alg n (addOutputDataNode h) (upd_data h (addProducerNode n) g)) = g_inputs g"
    "g_outputs (upd_alg n (addOutputDataNode h) (upd_data h (addProducerNode n) g)) = g_outputs g"
    by (simp_all add: upd_alg_def upd_data_def)
  ultimately show ?thesis
    using g d by (auto simp: data_from_def io_from_def graph_simps split: if_splits)
qed

lemma add_consumer_from:
  assumes g: "data_from cs T g" and d: "declares T ga_inputs n h"
  shows "data_from cs T (upd_alg n (addInputDataNode h) (upd_data h (addConsumerNode n) g))"
proof -
  have "da_condition (addConsumerNode n q) = da_condition q" for q by (simp add: addConsumerNode_def)
  moreover have "g_inputs (upd_alg n (addInputDataNode h) (upd_data h (addConsumerNode n) g)) = g_inputs g"
    "g_outputs (upd_alg n (addInputDataNode h) (upd_data h (addConsumerNode n) g)) = g_outputs g"
    by (simp_all add: upd_alg_def upd_data_def)
  ultimately show ?thesis
    using g d by (auto simp: data_from_def io_from_def graph_simps split: if_splits)
qed

lemma link_outputs_from:
  "data_from cs T g \<Longrightarrow> \<forall>x \<in> set ds. \<exists>a. Leaf_alg a \<in> T \<and> ga_name a = n \<and> x \<in> set (ga_outputs a) \<Longrightarrow>
   data_from cs T (snd (link_outputs cs n ds (sc, g)))"
proof (induction ds arbitrary: sc g)
  case (Cons x ds)
  then obtain a where a: "Leaf_alg a \<in> T" "ga_name a = n" "x \<in> set (ga_outputs a)" by auto
  have "declares T ga_outputs n (doid_hash x)" using a by (auto simp: declares_def)
  from add_producer_from [OF add_data_from [OF Cons.prems(1) a(1,3)] this] Cons
  show ?case by (simp add: Let_def case_prod_beta)
qed simp

lemma link_inputs_from:
  "data_from cs T g \<Longrightarrow> \<forall>x \<in> set ds. declares T ga_inputs n (doid_hash x) \<Longrightarrow> data_from cs T (link_inputs n ds g)"
proof (induction ds arbitrary: g)
  case (Cons x ds)
  then show ?case using add_consumer_from [of cs T g n "doid_hash x"] by auto
qed simp

lemma realm_from:
  assumes "data_from cs T g"
  shows "data_from cs T (snd (buildDataDependenciesRealm cs g))"
proof -
  have out: "data_from cs T (snd (link_outputs cs n (outputs_of g n) (sc, g)))" if g: "data_from cs T g" for n sc g
  proof (rule link_outputs_from [OF g], cases "map_of (g_outputs g) n")
    case (Some ds)
    then obtain a where "Leaf_alg a \<in> T" "ga_name a = n" "ga_outputs a = ds" using g unfolding data_from_def io_from_def by metis
    with Some show "\<forall>x \<in> set (outputs_of g n). \<exists>a. Leaf_alg a \<in> T \<and> ga_name a = n \<and> x \<in> set (ga_outputs a)"
      by (auto simp: outputs_of_def)
  qed (simp add: outputs_of_def)
  have inp: "data_from cs T (link_inputs n (inputs_of g n) g)" if g: "data_from cs T g" for n g
  proof (rule link_inputs_from [OF g], cases "map_of (g_inputs g) n")
    case (Some ds)
    then obtain a where "Leaf_alg a \<in> T" "ga_name a = n" "ga_inputs a = ds" using g unfolding data_from_def io_from_def by metis
    with Some show "\<forall>x \<in> set (inputs_of g n). declares T ga_inputs n (doid_hash x)"
      by (auto simp: inputs_of_def declares_def)
  qed (simp add: inputs_of_def)
  have 1: "data_from cs T (snd s) \<Longrightarrow>
      data_from cs T (snd (fold (\<lambda>n (sc, g). link_outputs cs n (outputs_of g n) (sc, g)) ns s))" for ns s
  proof (induction ns arbitrary: s)
    case (Cons n ns)
    obtain sc h where s: "s = (sc, h)" by (rule prod.exhaust)
    with Cons.IH [of "link_outputs cs n (outputs_of h n) (sc, h)"] out [of h n sc] Cons.prems show ?case by simp
  qed simp
  have 2: "data_from cs T h \<Longrightarrow> data_from cs T (fold (\<lambda>n g. link_inputs n (inputs_of g n) g) ns h)" for ns h
    by (induction ns arbitrary: h) (use inp in auto)
  show ?thesis
    using 1 [of "(SUCCESS, g)"] 2 assms by (simp add: buildDataDependenciesRealm_def Let_def case_prod_beta)
qed

lemma initialize_from:
  assumes "built_from T g"
  shows "data_from cs T (snd (graph_initialize cs g))"
proof (cases cs)
  case None
  then show ?thesis
    using assms realm_from [OF built_data] by (simp add: graph_initialize_def built_from_def)
next
  case (Some c)
  let ?g = "g\<lparr>g_conditionsRealmEnabled := True\<rparr>"
  have "same_io ?g (fold detach_alg (cs_condAlgs c) ?g)" using detaches_same by blast
  moreover have "same_io g ?g" by (simp add: same_io_def)
  ultimately have i: "same_io g (fold detach_alg (cs_condAlgs c) ?g)" using same_io_trans by blast
  have "data_from cs T (fold detach_alg (cs_condAlgs c) ?g)"
    using assms io_from_same [OF i] no_data_same [OF i] by (simp add: built_from_def built_data)
  from realm_from [OF this] show ?thesis by (simp add: graph_initialize_def Some)
qed

text \<open>
  Consumers of conditions are higher than the producers, said of the algorithms of the tree.
\<close>

definition conditions_ordered :: "cond_svc option \<Rightarrow> alg_tree set \<Rightarrow> (cf_ref \<Rightarrow> nat) \<Rightarrow> bool" where
  "conditions_ordered cs T \<rho> \<longleftrightarrow>
     (\<forall>n p h. declares T ga_inputs n h \<longrightarrow> declares T ga_outputs p h \<longrightarrow> is_condition cs T h \<longrightarrow>
        \<rho> (Alg_Node p) < \<rho> (Alg_Node n))"

lemma ordered_height: "data_from cs T g \<Longrightarrow> conditions_ordered cs T \<rho> \<Longrightarrow> condition_height g \<rho>"
  unfolding condition_height_def data_from_def conditions_ordered_def by blast

section \<open>The whole initialization\<close>

definition top_edges :: "alg_tree list \<Rightarrow> (string \<times> cf_ref) set" where
  "top_edges ts = (\<lambda>t. (''RootDecisionHub'', tree_ref t)) ` set ts \<union> (\<Union>t \<in> set ts. tree_edges t)"

definition members :: "alg_tree list \<Rightarrow> alg_tree set" where
  "members ts = (\<Union>t \<in> set ts. subtrees t)"

lemma initialize_rules_result:
  assumes "initialize_rules dump ignoreDF cs ts = Some (SUCCESS, g)"
  shows "graph_ok g" "cf_edges g = top_edges ts - (if ignoreDF then {} else UNIV \<times> detached cs)"
    "g_head g = Some ''RootDecisionHub''" "''RootDecisionHub'' \<in> hubs g"
    "hubs_from (members ts) g" "data_from cs (members ts) g"
proof -
  let ?R = "''RootDecisionHub''"
  define g0 where "g0 = addHeadNode ?R root_modes (if dump then enableAnalysis new_graph else new_graph)"
  have R: "?R \<in> hubs g0" "g_head g0 = Some ?R" and e0: "cf_edges g0 = {}" and b0: "built_from (members ts) g0"
    by (auto simp: g0_def addHeadNode_def Let_def hubs_def graph_simps enableAnalysis_def new_graph_def
        cf_edges_def daughter_def new_decision_node_def built_from_def hubs_from_def io_from_def no_data_def
        bgl_add_vertex_def split: if_splits)
  have ok0: "graph_ok g0"
    using build_ok [OF new_graph_ok, of "(if dump then [Analyse] else []) @ [Head ?R root_modes]"]
    by (simp add: g0_def build_def split: if_splits)
  obtain sc1 g1 where mem0: "assemble_members ts ?R (SUCCESS, g0) = Some (sc1, g1)"
    and rest: "(if sc1 \<noteq> SUCCESS then Some (sc1, g1) else if ignoreDF then Some (SUCCESS, g1)
        else Some (graph_initialize cs g1)) = Some (SUCCESS, g)"
    using assms unfolding initialize_rules_def Let_def g0_def [symmetric]
    by (auto simp: bind_eq_Some_conv)
  then have mem: "assemble_members ts ?R (SUCCESS, g0) = Some (SUCCESS, g1)"
    and g: "g = (if ignoreDF then g1 else snd (graph_initialize cs g1))"
    by (auto split: if_splits)
  have edges: "adds_edges g0 (top_edges ts) g1"
    unfolding top_edges_def by (rule assemble_members_edges [OF assemble_edges mem R(1)])
  then have ok1: "graph_ok g1" using ok0 by (simp add: adds_edges_def)
  have b1: "built_from (members ts) g1"
    by (rule assemble_built(2) [OF mem _ b0]) (simp add: members_def)
  note i = initialize_edges [OF ok1, of cs]
  have same: "same_modes g1 g" using g i by simp
  show "graph_ok g" using ok1 graph_initialize_ok [OF ok1] g by simp
  show "cf_edges g = top_edges ts - (if ignoreDF then {} else UNIV \<times> detached cs)"
    using edges i e0 g by (simp add: adds_edges_def)
  show "?R \<in> hubs g" using R(1) edges same_modes_hubs [OF same] by (auto simp: adds_edges_def)
  show "g_head g = Some ?R" using R(2) edges same by (simp add: adds_edges_def same_modes_def)
  show "hubs_from (members ts) g" using hubs_from_same [OF same] b1 by (simp add: built_from_def)
  show "data_from cs (members ts) g"
    using g initialize_from [OF b1] built_data b1 by (simp add: built_from_def)
qed

section \<open>When the assembly succeeds\<close>

text \<open>Each sequence can be cast and has the properties of its kind.\<close>

fun assemblable :: "alg_tree \<Rightarrow> bool" where
  "assemblable (Leaf_alg a) = True"
| "assemblable (Seq_alg n ps ok subs) = (ok \<and> sequence_modes ps \<noteq> None \<and> (\<forall>t \<in> set subs. assemblable t))"

lemma assemble_members_succeeds:
  assumes "\<And>t g. t \<in> set ts \<Longrightarrow> p \<in> hubs g \<Longrightarrow> (\<exists>g'. assembleCFRules t p g = Some (SUCCESS, g')) = assemblable t"
    and "p \<in> hubs g"
  shows "(\<exists>g'. assemble_members ts p (SUCCESS, g) = Some (SUCCESS, g')) = (\<forall>t \<in> set ts. assemblable t)"
  using assms
proof (induction ts arbitrary: g)
  case (Cons t ts)
  have t: "(\<exists>g'. assembleCFRules t p g = Some (SUCCESS, g')) = assemblable t" using Cons.prems by simp
  show ?case
  proof (cases "assemblable t")
    case True
    then obtain g1 where g1: "assembleCFRules t p g = Some (SUCCESS, g1)" using t by blast
    have "p \<in> hubs g1" using assemble_edges [OF g1 Cons.prems(2)] Cons.prems(2) by (auto simp: adds_edges_def)
    with Cons.IH [of g1] Cons.prems(1) True g1 show ?thesis by simp
  next
    case False
    with t show ?thesis by (auto simp: bind_eq_Some_conv split: if_splits)
  qed
qed simp

lemma assemble_succeeds: "p \<in> hubs g \<Longrightarrow> (\<exists>g'. assembleCFRules t p g = Some (SUCCESS, g')) = assemblable t"
proof (induction t arbitrary: p g)
  case (Leaf_alg a)
  then show ?case using add_alg_edges [of p g a False False] by (simp add: prod_eq_iff)
next
  case (Seq_alg n ps ok subs)
  note h = add_hub_edges [OF Seq_alg.prems, of n]
  have mem: "(\<exists>g'. assemble_members subs n (SUCCESS, snd (addDecisionHubNode n p m g)) = Some (SUCCESS, g')) = (\<forall>t \<in> set subs. assemblable t)" for m
    using assemble_members_succeeds [OF Seq_alg.IH, of subs n "snd (addDecisionHubNode n p m g)"] h [of m] by simp
  show ?case
  proof (cases "ok \<and> sequence_modes ps \<noteq> None")
    case True
    then obtain m where "sequence_modes ps = Some m" "ok" by auto
    moreover obtain g1 where "addDecisionHubNode n p m g = (SUCCESS, g1)" using h [of m] by (metis prod.collapse)
    ultimately show ?thesis using mem [of m] by simp
  qed auto
qed

lemma initialize_succeeds:
  "(\<exists>g. initialize_rules dump ignoreDF cs ts = Some (SUCCESS, g)) = (\<forall>t \<in> set ts. assemblable t)"
proof -
  let ?R = "''RootDecisionHub''"
  define g0 where "g0 = addHeadNode ?R root_modes (if dump then enableAnalysis new_graph else new_graph)"
  have R: "?R \<in> hubs g0" and ok0: "graph_ok g0"
    using build_ok [OF new_graph_ok, of "(if dump then [Analyse] else []) @ [Head ?R root_modes]"]
    by (auto simp: g0_def addHeadNode_def Let_def hubs_def graph_simps enableAnalysis_def new_graph_def build_def split: if_splits)
  have "fst (graph_initialize cs g1) = SUCCESS" if "assemble_members ts ?R (SUCCESS, g0) = Some (SUCCESS, g1)" for g1
    using assemble_members_edges [OF assemble_edges that R] ok0 graph_initialize_ok by (simp add: adds_edges_def)
  then have "(\<exists>g. initialize_rules dump ignoreDF cs ts = Some (SUCCESS, g)) =
      (\<exists>g. assemble_members ts ?R (SUCCESS, g0) = Some (SUCCESS, g))"
    unfolding initialize_rules_def Let_def g0_def [symmetric]
    by (auto simp: bind_eq_Some_conv prod_eq_iff split: if_splits) blast+
  then show ?thesis using assemble_members_succeeds [OF assemble_succeeds R] by simp
qed

section \<open>Properties\<close>


definition example_tree :: "alg_tree list" where
  "example_tree =
     [Seq_alg ''s'' [(''ModeOR'', ''False''), (''IgnoreFilterPassed'', ''True''),
        (''ShortCircuit'', ''True''), (''Invert'', ''False'')] True
        [Leaf_alg ((example_alg ''a'')\<lparr>ga_outputs := [doid_of_key (\<lambda>s. of_nat (length s)) ''x'']\<rparr>),
         Leaf_alg ((example_alg ''b'')\<lparr>ga_inputs := [doid_of_key (\<lambda>s. of_nat (length s)) ''x'']\<rparr>)]]"

definition example_rules :: rules_graph where
  "example_rules = snd (the (initialize_rules True False None example_tree))"

lemma example_rules: "initialize_rules True False None example_tree = Some (SUCCESS, example_rules)"
proof -
  have "map_option fst (initialize_rules True False None example_tree) = Some SUCCESS" by code_simp
  then show ?thesis by (auto simp: example_rules_def)
qed

definition cond_of_b :: cond_svc where
  "cond_of_b = \<lparr>cs_condAlgs = [''b'', ''c''], cs_isRegistered = \<lambda>d. False, cs_isValidID = \<lambda>c d. False\<rparr>"


text \<open>
  C9. Rules assembled from sequences can always be driven: when the sequences have heights (no
  sequence contains itself) and the algorithms too, such that whoever reads a condition is higher
  than whoever writes it, every iteration of the resulting graph, from any slot with a context
  and the invariant, ends with SUCCESS. Both are read off the tree and the condition service; of
  the second the promoter has need, as it calls the producers of a condition within the visit of
  its reader.
\<close>

theorem assembled_rules_run:
  assumes "initialize_rules dump ignoreDF cs ts = Some (SUCCESS, g)" and "e_graph env = g"
    and "\<forall>(p, c) \<in> top_edges ts. \<rho> c < \<rho> (Hub_Node p)" and "conditions_ordered cs (members ts) \<rho>"
    and "\<forall>c. \<rho> c \<le> R" and "R < e_scoutFuel env"
    and "c_source (e_cause env) = Root \<or> alg_node g (c_sourceName (e_cause env)) \<noteq> None"
    and "ready env s" and "ref_ok (v_ev s) r"
  shows "\<exists>s'. \<forall>fuel \<ge> visit_fuel g (v_ev s) R. iterate fuel env r s = Some (SUCCESS, s')"
proof -
  note g = initialize_rules_result [OF assms(1)]
  have "cf_height g \<rho> R"
    using g(2) assms(3,5) by (fastforce simp: cf_height_def cf_edges_def daughter_def)
  then have run: "runnable env \<rho> R"
    using g(1) ordered_height [OF g(6) assms(4)] assms(2,5-7) by (auto simp: runnable_def)
  obtain d where d: "hub_node (e_graph env) ''RootDecisionHub'' = Some d"
    using g(4) assms(2) by (auto simp: hubs_def)
  let ?B = "visit_fuel g (v_ev s) R"
  obtain sc s' where it: "iterate ?B env r s = Some (sc, s')"
    using iterate_total [OF run assms(8,9), of ?B "''RootDecisionHub''"] g(3) d assms(2) by auto
  have "sc = SUCCESS" using iterate_vstep [OF ready_live [OF assms(8)] assms(9) it] by simp
  moreover have "iterate fuel env r s = Some (sc, s')" if "?B \<le> fuel" for fuel
    using that it iterate_mono [of ?B env r s "fuel - ?B"] by (simp add: ole_def)
  ultimately show ?thesis by auto
qed

definition tree_env :: venv where
  "tree_env = \<lparr>e_graph = example_rules,
     e_cond = \<lparr>cs_condAlgs = [], cs_isRegistered = \<lambda>d. False, cs_isValidID = \<lambda>c d. False\<rparr>,
     e_cause = root_cause, e_trace = False, e_scoutFuel = 3\<rparr>"

definition tree_start :: vstate where
  "tree_start = \<lparr>v_ev = reset_slot ctx_default (new_slot 2 4),
     v_trace = \<lparr>pt_vertices = [], pt_edges = [], pt_map = []\<rparr>\<rparr>"

fun tree_height :: "cf_ref \<Rightarrow> nat" where
  "tree_height (Alg_Node n) = 0"
| "tree_height (Hub_Node n) = (if n = ''RootDecisionHub'' then 2 else 1)"

lemma tree_counters:
  "g_nodeCounter example_rules = 4 \<and> g_algoCounter example_rules = 2
   \<and> list_all (\<lambda>p. \<not> da_condition (snd p)) (g_data example_rules)"
  by code_simp

lemma tree_ready: "ready tree_env tree_start"
proof -
  have "ref_ok (v_ev tree_start) r \<longleftrightarrow> r = Top" for r
    by (cases r) (simp_all add: tree_start_def ref_ok_def reset_slot_def)
  moreover have "decision_of (v_ev tree_start) Top n = - 1" if "n < 4" for n
    using that by (simp add: tree_start_def decision_of_def reset_slot_def new_slot_def)
  ultimately have "tri_slot example_rules (v_ev tree_start)"
    using tree_counters by (simp add: tri_slot_def tri_def)
  moreover have "slot_ok 2 4 (v_ev tree_start)"
    by (simp add: tree_start_def reset_slot_ok new_slot_ok)
  ultimately show ?thesis
    using initialize_rules_result(1) [OF example_rules] tree_counters
    by (simp add: ready_def live_def tree_env_def) (simp add: tree_start_def reset_slot_def)
qed

theorem assembled_rules_run_witness:
  "\<exists>s'. \<forall>fuel \<ge> 34. iterate fuel tree_env Top tree_start = Some (SUCCESS, s')"
proof -
  have "\<forall>(p, c) \<in> top_edges example_tree. tree_height c < tree_height (Hub_Node p)"
    by (auto simp: top_edges_def example_tree_def)
  moreover have "conditions_ordered None (members example_tree) tree_height"
    by (simp add: conditions_ordered_def is_condition_def)
  moreover have "\<forall>c. tree_height c \<le> 2"
  proof
    fix c show "tree_height c \<le> 2" by (cases c) simp_all
  qed
  ultimately have "\<exists>s'. \<forall>fuel \<ge> visit_fuel example_rules (v_ev tree_start) 2.
      iterate fuel tree_env Top tree_start = Some (SUCCESS, s')"
    by (intro assembled_rules_run [OF example_rules _ _ _ _ _ _ tree_ready])
       (simp_all add: tree_env_def root_cause_def ref_ok_def)
  moreover have "visit_fuel example_rules (v_ev tree_start) 2 = 34"
    using tree_counters by (simp add: visit_fuel_def tree_start_def reset_slot_def)
  ultimately show ?thesis by simp
qed

section \<open>What the hub of a sequence decides\<close>

text \<open>
  In terms of the properties of the sequence: the three-valued conjunction or disjunction of its
  members, with -1 for open, that a prompt sequence decides as soon as it can.
\<close>

definition three_valued :: "bool \<Rightarrow> bool \<Rightarrow> int list \<Rightarrow> int" where
  "three_valued modeOr prompt vs =
     (let dec = (if modeOr then 1 else 0)
      in if dec \<in> set vs \<and> (prompt \<or> - 1 \<notin> set vs) then dec
         else if - 1 \<in> set vs then - 1 else 1 - dec)"

definition has_value :: "(string \<times> string) list \<Rightarrow> string \<Rightarrow> string \<Rightarrow> bool" where
  "has_value ps x v \<longleftrightarrow> map_of ps x = Some v"

definition sequence_decision :: "(string \<times> string) list \<Rightarrow> int list \<Rightarrow> int" where
  "sequence_decision ps vs =
     (let modeOr = has_value ps ''ModeOR'' ''True''; passAll = has_value ps ''IgnoreFilterPassed'' ''True''
      in if hasProperty ps ''ShortCircuit'' then
           if passAll then if - 1 \<in> set vs then - 1 else 1
           else (let x = three_valued modeOr (has_value ps ''ShortCircuit'' ''True'') vs
                 in if has_value ps ''Invert'' ''True'' \<and> x \<noteq> - 1 then 1 - x else x)
         else if hasProperty ps ''StopOverride'' then
           (let prompt = has_value ps ''StopOverride'' ''False'';
                looked = (if prompt then takeWhile (\<lambda>x. x \<noteq> (if modeOr then 1 else 0)) vs else vs)
            in if passAll \<and> - 1 \<notin> set looked then 1 else three_valued modeOr prompt vs)
         else three_valued False False vs)"

lemma kleene_three_valued: "kleene d vs = three_valued (dn_modeOR d) (dn_modePromptDecision d) vs"
  by (simp add: kleene_def three_valued_def decisive_def)

lemma modes_decide:
  assumes "sequence_modes ps = Some (modes_of d)"
  shows "(if dn_allPass d \<and> - 1 \<notin> set (seen d vs) then 1 else invert d (kleene d vs)) = sequence_decision ps vs"
proof (cases "hasProperty ps ''ShortCircuit''")
  case True
  then have "dn_modeOR d = has_value ps ''ModeOR'' ''True''" "dn_allPass d = has_value ps ''IgnoreFilterPassed'' ''True''"
    "dn_inverted d = has_value ps ''Invert'' ''True''"
    "dn_modePromptDecision d = (\<not> dn_allPass d \<and> has_value ps ''ShortCircuit'' ''True'')"
    using assms by (auto simp: sequence_modes_def modes_of_def bind_eq_Some_conv property_is_def has_value_def)
  then show ?thesis
    using True by (simp add: sequence_decision_def kleene_three_valued seen_def invert_def Let_def)
      (simp add: three_valued_def Let_def)
next
  case gaudi: False
  show ?thesis
  proof (cases "hasProperty ps ''StopOverride''")
    case True
    then have "dn_modeOR d = has_value ps ''ModeOR'' ''True''" "dn_allPass d = has_value ps ''IgnoreFilterPassed'' ''True''"
      "\<not> dn_inverted d" "dn_modePromptDecision d = has_value ps ''StopOverride'' ''False''"
      using assms gaudi by (auto simp: sequence_modes_def modes_of_def bind_eq_Some_conv property_is_def has_value_def)
    then show ?thesis
      using True gaudi by (simp add: sequence_decision_def kleene_three_valued seen_def invert_def decisive_def Let_def) blast
  next
    case False
    then have "\<not> dn_modeOR d" "\<not> dn_allPass d" "\<not> dn_inverted d" "\<not> dn_modePromptDecision d"
      using assms gaudi by (auto simp: sequence_modes_def modes_of_def)
    then show ?thesis
      using False gaudi by (simp add: sequence_decision_def kleene_three_valued invert_def)
  qed
qed

lemma member_edge: "t' \<in> subtrees t \<Longrightarrow> t' = t \<or> (\<exists>p. (p, tree_ref t') \<in> tree_edges t)"
proof (induction t)
  case (Seq_alg n ps ok subs)
  show ?case
  proof (cases "t' = Seq_alg n ps ok subs")
    case False
    then obtain t where t: "t \<in> set subs" "t' \<in> subtrees t" using Seq_alg.prems by auto
    from Seq_alg.IH [OF t] t(1) show ?thesis by auto
  qed simp
qed simp

lemma member_hub:
  assumes "initialize_rules dump ignoreDF cs ts = Some (SUCCESS, g)" and "Seq_alg n ps ok subs \<in> members ts"
  obtains d where "hub_node g n = Some d"
proof -
  note g = initialize_rules_result [OF assms(1)]
  have "\<exists>p. (p, Hub_Node n) \<in> top_edges ts"
  proof -
    obtain t where t: "t \<in> set ts" "Seq_alg n ps ok subs \<in> subtrees t" using assms(2) by (auto simp: members_def)
    from member_edge [OF t(2)] have "t = Seq_alg n ps ok subs \<or> (\<exists>p. (p, Hub_Node n) \<in> tree_edges t)" by auto
    then show ?thesis
    proof
      assume "t = Seq_alg n ps ok subs"
      then have "(''RootDecisionHub'', Hub_Node n) \<in> top_edges ts"
        unfolding top_edges_def by (intro UnI1 image_eqI [OF _ t(1)]) simp
      then show ?thesis by blast
    qed (use t(1) in \<open>auto simp: top_edges_def\<close>)
  qed
  then obtain p where "(p, Hub_Node n) \<in> cf_edges g" using g(2) by (auto simp: detached_def split: if_splits option.splits)
  then have "parent_of g p (Hub_Node n)" using g(1) by (simp add: cf_edges_def graph_ok_def linked_def)
  then show thesis using that by auto
qed

text \<open>
  C25. The hub of a sequence decides by the properties of the sequence. With those of a
  GaudiSequencer it is the conjunction, under ModeOR the disjunction, of its members, decided
  as soon as possible under ShortCircuit and after all members otherwise, and inverted under
  Invert; under IgnoreFilterPassed it waits for all members and passes. With those of an
  Athena sequencer it is the same but for the inversion, prompt when StopOverride is off; under
  IgnoreFilterPassed it passes unless a member it looked at is open. So an Athena sequence that
  ignores the filters and does not override the stop rejects the event when a member that
  rejects comes after an open one. Any other sequence is a conjunction that waits for all.
  Sequences of one name must have the modes of each other, as there is one hub for the name.
\<close>

theorem sequence_hub_decision:
  assumes "initialize_rules dump ignoreDF cs ts = Some (SUCCESS, g)"
    and "Seq_alg n ps ok subs \<in> members ts" and "n \<noteq> ''RootDecisionHub''"
    and "\<forall>ps' ok' subs'. Seq_alg n ps' ok' subs' \<in> members ts \<longrightarrow> sequence_modes ps' = sequence_modes ps"
  shows "\<exists>d. hub_node g n = Some d \<and>
    (\<forall>ev r. (\<forall>x \<in> set (monitored g ev r d). tri x) \<longrightarrow>
       hub_decision d (monitor_children g ev r d) = sequence_decision ps (monitored g ev r d) \<and>
       (\<not> hasProperty ps ''ShortCircuit'' \<and> has_value ps ''StopOverride'' ''False'' \<and>
          has_value ps ''IgnoreFilterPassed'' ''True'' \<and> has_value ps ''ModeOR'' ''False'' \<longrightarrow>
        (\<exists>xs ys. monitored g ev r d = xs @ - 1 # ys \<and> 0 \<notin> set xs \<and> 0 \<in> set ys) \<longrightarrow>
        hub_decision d (monitor_children g ev r d) = 0))"
proof -
  obtain d where d: "hub_node g n = Some d" by (rule member_hub [OF assms(1,2)])
  have "sequence_modes ps = Some (modes_of d)"
    using initialize_rules_result(5) [OF assms(1)] d assms(3,4) unfolding hubs_from_def by metis
  then have dec: "hub_decision d (monitor_children g ev r d) = sequence_decision ps (monitored g ev r d)"
    if "\<forall>x \<in> set (monitored g ev r d). tri x" for ev r
    using monitored_hub_decision [OF that] modes_decide by simp
  moreover have "sequence_decision ps (xs @ - 1 # ys) = 0"
    if "\<not> hasProperty ps ''ShortCircuit''" "has_value ps ''StopOverride'' ''False''"
      "has_value ps ''IgnoreFilterPassed'' ''True''" "has_value ps ''ModeOR'' ''False''" "0 \<notin> set xs" "0 \<in> set ys" for xs ys
  proof -
    have "- 1 \<in> set (takeWhile (\<lambda>x. x \<noteq> 0) (xs @ - 1 # ys))" using that(5) by (subst takeWhile_append2) auto
    then show ?thesis using that by (simp add: sequence_decision_def three_valued_def has_value_def hasProperty_def)
  qed
  ultimately show ?thesis using d by (intro exI [of _ d]) (auto simp del: set_append)
qed

definition athena_tree :: "alg_tree list" where
  "athena_tree =
     [Seq_alg ''s'' [(''StopOverride'', ''False''), (''ModeOR'', ''False''), (''IgnoreFilterPassed'', ''True'')] True
        [Leaf_alg (example_alg ''a''), Leaf_alg (example_alg ''b'')]]"

definition athena_rules :: rules_graph where
  "athena_rules = snd (the (initialize_rules False False None athena_tree))"

lemma athena_rules: "initialize_rules False False None athena_tree = Some (SUCCESS, athena_rules)"
proof -
  have "map_option fst (initialize_rules False False None athena_tree) = Some SUCCESS" by code_simp
  then show ?thesis by (auto simp: athena_rules_def)
qed

theorem sequence_hub_decision_witness:
  "hub_decision (the (hub_node athena_rules ''s''))
     (monitor_children athena_rules (set_decision Top 3 0 (new_slot 2 4)) Top (the (hub_node athena_rules ''s''))) = 0"
proof -
  let ?ps = "seq_props (athena_tree ! 0)" and ?ev = "set_decision Top 3 0 (new_slot 2 4)"
  have m: "Seq_alg ''s'' ps ok subs \<in> members athena_tree \<longleftrightarrow> Seq_alg ''s'' ps ok subs = athena_tree ! 0" for ps ok subs
    by (auto simp: members_def athena_tree_def)
  have "Seq_alg ''s'' ?ps True [Leaf_alg (example_alg ''a''), Leaf_alg (example_alg ''b'')] \<in> members athena_tree"
    unfolding m by (simp add: athena_tree_def)
  from sequence_hub_decision [OF athena_rules this] obtain d where d: "hub_node athena_rules ''s'' = Some d"
    and all: "\<And>ev r. \<forall>x \<in> set (monitored athena_rules ev r d). tri x \<Longrightarrow>
      hub_decision d (monitor_children athena_rules ev r d) = sequence_decision ?ps (monitored athena_rules ev r d)"
    unfolding m by (auto simp: athena_tree_def)
  have "monitored athena_rules ?ev Top (the (hub_node athena_rules ''s'')) = [- 1, 0]" by code_simp
  then have mon: "monitored athena_rules ?ev Top d = [- 1, 0]" using d by simp
  have "sequence_decision ?ps [- 1, 0] = 0" by code_simp
  then show ?thesis using all [of ?ev Top] mon d by (simp add: tri_def)
qed

end
