(* ===== verification/Validators.thy ===== *)
theory Validators
  imports Assembly
begin

text \<open>
  The visitors of GaudiHive/src/PRGraph/Visitors/Validators.h, .cpp that check the rules before a
  job starts: \<open>NodePropertiesValidator\<close>, \<open>ConditionalLineageFinder\<close> and
  \<open>ProductionAmbiguityFinder\<close>, and the walk of \<open>PrecedenceRulesGraph::accept\<close> over all nodes. The
  walk follows the order of the model's lists where the code follows a hash map; what is proved
  of the verdicts does not depend on the order.
\<close>

section \<open>Output streams\<close>

text \<open>
  A \<open>std::ostringstream\<close> constructed with a text writes from its start: the position begins at
  0 and output replaces the characters there.
\<close>

record ostringstream =
  os_buffer :: string
  os_pos :: nat

definition os_of :: "string \<Rightarrow> ostringstream" where
  "os_of s = \<lparr>os_buffer = s, os_pos = 0\<rparr>"

definition os_write :: "string \<Rightarrow> ostringstream \<Rightarrow> ostringstream" where
  "os_write s os =
     \<lparr>os_buffer = take (os_pos os) (os_buffer os) @ s @ drop (os_pos os + length s) (os_buffer os),
      os_pos = os_pos os + length s\<rparr>"

section \<open>NodePropertiesValidator\<close>

record np_validator =
  np_status :: ostringstream
  np_foundViolations :: bool

definition np_new :: np_validator where
  "np_new = \<lparr>np_status = os_of ''  No 'Concurrent'/'Prompt' contradictions found'',
     np_foundViolations = False\<rparr>"

definition np_visit :: "decision_node \<Rightarrow> np_validator \<Rightarrow> bool \<times> np_validator" where
  "np_visit d v =
     (if dn_modeConcurrent d \<and> dn_modePromptDecision d
      then
        (let st = (if \<not> np_foundViolations v
                   then os_write (''  'Concurrent'/'Prompt' contradiction(s) found. Settings are mutually exclusive within a task group. '' @
                          ''Discarding 'Prompt' for '') (np_status v)
                   else np_status v);
             st = os_write (if np_foundViolations v then '', '' else '''') st;
             st = os_write (dn_name d) st
         in (False, v\<lparr>np_status := st, np_foundViolations := True\<rparr>))
      else (True, v))"

definition np_reply :: "np_validator \<Rightarrow> string" where
  "np_reply v = os_buffer (np_status v)"

definition np_passed :: "np_validator \<Rightarrow> bool" where
  "np_passed v \<longleftrightarrow> \<not> np_foundViolations v"

text \<open>\<open>m_status.clear()\<close> clears error flags of the stream and keeps its text.\<close>

definition np_reset :: "np_validator \<Rightarrow> np_validator" where
  "np_reset v = v\<lparr>np_foundViolations := False\<rparr>"

text \<open>The walk over the graph: algorithms and data nodes refuse this visitor.\<close>

definition np_check :: "rules_graph \<Rightarrow> np_validator" where
  "np_check g = fold (\<lambda>d v. snd (np_visit d v)) (map snd (g_hubs g)) np_new"

section \<open>ConditionalLineageFinder\<close>

record lineage_finder =
  lf_positive :: bool
  lf_negative :: bool

definition lf_new :: lineage_finder where
  "lf_new = \<lparr>lf_positive = False, lf_negative = False\<rparr>"

definition lf_both :: "lineage_finder \<Rightarrow> bool" where
  "lf_both f \<longleftrightarrow> lf_positive f \<and> lf_negative f"

fun lf_visit_hub :: "nat \<Rightarrow> rules_graph \<Rightarrow> string \<Rightarrow> lineage_finder \<Rightarrow> lineage_finder option" where
  "lf_visit_hub 0 g h f = None"
| "lf_visit_hub (Suc fuel) g h f =
     (case hub_node g h of
        None \<Rightarrow> None
      | Some d \<Rightarrow>
          if dn_modePromptDecision d \<and> np_passed (snd (np_visit d np_new))
          then Some (f\<lparr>lf_positive := True\<rparr>)
          else if dn_parents d = [] then Some (f\<lparr>lf_negative := True\<rparr>)
          else loop_break (lf_visit_hub fuel g) lf_both (dn_parents d) f)"

definition lf_visit_alg :: "nat \<Rightarrow> rules_graph \<Rightarrow> string \<Rightarrow> lineage_finder \<Rightarrow> lineage_finder option" where
  "lf_visit_alg fuel g n f =
     (case alg_node g n of
        None \<Rightarrow> None
      | Some a \<Rightarrow> loop_break (lf_visit_hub fuel g) lf_both (an_parents a) f)"

section \<open>ProductionAmbiguityFinder\<close>

text \<open>
  A \<open>visitor_book\<close> is a map from data nodes, ordered by \<open>DataObjID\<close>, to sets of algorithms
  ordered by name: an association list sorted by hash, with sorted lists of names.
\<close>

type_synonym visitor_book = "(u64 \<times> string list) list"

fun book_insert :: "u64 \<Rightarrow> string \<Rightarrow> visitor_book \<Rightarrow> visitor_book" where
  "book_insert h n [] = [(h, [n])]"
| "book_insert h n ((k, ns) # b) =
     (if h < k then (h, [n]) # (k, ns) # b
      else if h = k then (k, insort_insert n ns) # b
      else (k, ns) # book_insert h n b)"

record ambiguity_finder =
  af_foundViolations :: bool
  af_conditional :: visitor_book
  af_unconditional :: visitor_book

definition af_new :: ambiguity_finder where
  "af_new = \<lparr>af_foundViolations = False, af_conditional = [], af_unconditional = []\<rparr>"

fun af_producers ::
  "nat \<Rightarrow> rules_graph \<Rightarrow> u64 \<Rightarrow> string list \<Rightarrow> ambiguity_finder \<Rightarrow> ambiguity_finder option"
where
  "af_producers fuel g h [] f = Some f"
| "af_producers fuel g h (p # ps) f =
     Option.bind (lf_visit_alg fuel g p lf_new)
       (\<lambda>scout. af_producers fuel g h ps
          (if lf_negative scout then f\<lparr>af_unconditional := book_insert h p (af_unconditional f)\<rparr>
           else f\<lparr>af_conditional := book_insert h p (af_conditional f)\<rparr>))"

definition af_visit_data ::
  "nat \<Rightarrow> rules_graph \<Rightarrow> data_node \<Rightarrow> ambiguity_finder \<Rightarrow> ambiguity_finder option"
where
  "af_visit_data fuel g d f =
     (if length (da_producers d) > 1
      then af_producers fuel g (doid_hash (da_id d)) (da_producers d) (f\<lparr>af_foundViolations := True\<rparr>)
      else Some f)"

definition af_visit_condition :: "data_node \<Rightarrow> ambiguity_finder \<Rightarrow> ambiguity_finder" where
  "af_visit_condition d f =
     (if length (da_producers d) > 1
      then f\<lparr>af_foundViolations := True,
             af_unconditional := fold (book_insert (doid_hash (da_id d))) (da_producers d)
               (af_unconditional f)\<rparr>
      else f)"

definition af_passed :: "ambiguity_finder \<Rightarrow> bool" where
  "af_passed f \<longleftrightarrow> list_all (\<lambda>pr. length (snd pr) = 1) (af_unconditional f)"

definition af_reset :: "ambiguity_finder \<Rightarrow> ambiguity_finder" where
  "af_reset f = af_new"

definition af_check :: "nat \<Rightarrow> rules_graph \<Rightarrow> ambiguity_finder option" where
  "af_check fuel g =
     loop_all (\<lambda>d f. if da_condition d then Some (af_visit_condition d f) else af_visit_data fuel g d f)
       (map snd (g_data g)) af_new"

text \<open>The report; \<open>name\<close> prints the identification of a data node.\<close>

definition af_algs :: "string \<Rightarrow> string list \<Rightarrow> string" where
  "af_algs tag ns = concat (map (\<lambda>n. '' '' @ n @ '' ('' @ tag @ '')'' @ '' |'') ns)"

definition af_reply :: "(u64 \<Rightarrow> string) \<Rightarrow> ambiguity_finder \<Rightarrow> string" where
  "af_reply name f =
     (let status = os_of ''  No topology violations found in the DF realm''
      in if \<not> af_foundViolations f then os_buffer status
         else os_buffer (fold os_write
           ([''  Conditional (C) and/or unconditional (U) topology violations found in the DF realm:'' @ [CHR 10, CHR 10]] @
            map (\<lambda>upr. '' (U): '' @ name (fst upr) @ '' <---- |'' @ af_algs ''U'' (snd upr) @
                (case map_of (af_conditional f) (fst upr) of Some ns \<Rightarrow> af_algs ''C'' ns | None \<Rightarrow> []) @
                [CHR 10])
              (af_unconditional f) @
            map (\<lambda>cpr. '' (C): '' @ name (fst cpr) @ '' <---- |'' @ af_algs ''C'' (snd cpr) @ [CHR 10])
              (filter (\<lambda>cpr. map_of (af_unconditional f) (fst cpr) = None) (af_conditional f)))
           status))"

section \<open>Lineages\<close>

text \<open>
  A hub is conditional when it may stop before all members ran: it exits early and its members
  run in sequence. An algorithm runs unconditionally when some path of hubs that are not
  conditional leads from it to a root.
\<close>

definition conditional_hub :: "decision_node \<Rightarrow> bool" where
  "conditional_hub d \<longleftrightarrow> dn_modePromptDecision d \<and> \<not> dn_modeConcurrent d"

lemma np_visit_passed [simp]:
  "np_passed (snd (np_visit d v)) \<longleftrightarrow> np_passed v \<and> \<not> (dn_modeConcurrent d \<and> dn_modePromptDecision d)"
  by (simp add: np_visit_def np_passed_def Let_def)

lemma np_new_passed [simp]: "np_passed np_new"
  by (simp add: np_new_def np_passed_def)

inductive conditional_path :: "rules_graph \<Rightarrow> string \<Rightarrow> bool" for g where
  cond_here: "hub_node g h = Some d \<Longrightarrow> conditional_hub d \<Longrightarrow> conditional_path g h"
| cond_up: "hub_node g h = Some d \<Longrightarrow> \<not> conditional_hub d \<Longrightarrow> p \<in> set (dn_parents d) \<Longrightarrow>
    conditional_path g p \<Longrightarrow> conditional_path g h"

inductive unconditional_path :: "rules_graph \<Rightarrow> string \<Rightarrow> bool" for g where
  uncond_top: "hub_node g h = Some d \<Longrightarrow> \<not> conditional_hub d \<Longrightarrow> dn_parents d = [] \<Longrightarrow>
    unconditional_path g h"
| uncond_up: "hub_node g h = Some d \<Longrightarrow> \<not> conditional_hub d \<Longrightarrow> p \<in> set (dn_parents d) \<Longrightarrow>
    unconditional_path g p \<Longrightarrow> unconditional_path g h"

inductive_simps conditional_path_unfold: "conditional_path g h"
inductive_simps unconditional_path_unfold: "unconditional_path g h"

lemma path_at:
  assumes "hub_node g h = Some d"
  shows "conditional_path g h \<longleftrightarrow>
      conditional_hub d \<or> (\<exists>p \<in> set (dn_parents d). conditional_path g p)"
    and "unconditional_path g h \<longleftrightarrow> \<not> conditional_hub d \<and>
      (dn_parents d = [] \<or> (\<exists>p \<in> set (dn_parents d). unconditional_path g p))"
proof -
  show "conditional_path g h \<longleftrightarrow>
      conditional_hub d \<or> (\<exists>p \<in> set (dn_parents d). conditional_path g p)"
    by (subst conditional_path_unfold) (use assms in auto)
  show "unconditional_path g h \<longleftrightarrow> \<not> conditional_hub d \<and>
      (dn_parents d = [] \<or> (\<exists>p \<in> set (dn_parents d). unconditional_path g p))"
    by (subst unconditional_path_unfold) (use assms in auto)
qed

definition runs_always :: "rules_graph \<Rightarrow> string \<Rightarrow> bool" where
  "runs_always g n \<longleftrightarrow>
     (\<exists>a. alg_node g n = Some a \<and> (\<exists>p \<in> set (an_parents a). unconditional_path g p))"

lemma lf_loop:
  assumes "\<And>p f. p \<in> set ps \<Longrightarrow>
      visit p f = Some \<lparr>lf_positive = lf_positive f \<or> C p, lf_negative = lf_negative f \<or> N p\<rparr>"
  shows "loop_break visit lf_both ps f = Some
    \<lparr>lf_positive = lf_positive f \<or> (\<exists>p \<in> set ps. C p), lf_negative = lf_negative f \<or> (\<exists>p \<in> set ps. N p)\<rparr>"
  using assms
  by (induction ps arbitrary: f) (auto simp: lf_both_def)

lemma lf_visit_hub_spec:
  assumes ok: "graph_ok g" and ht: "cf_height g \<rho> R"
  shows "hub_node g h \<noteq> None \<Longrightarrow> R < fuel + \<rho> (Hub_Node h) \<Longrightarrow>
    lf_visit_hub fuel g h f = Some \<lparr>lf_positive = lf_positive f \<or> conditional_path g h,
      lf_negative = lf_negative f \<or> unconditional_path g h\<rparr>"
proof (induction fuel arbitrary: h f)
  case 0
  then show ?case using height_le [OF ht] by force
next
  case (Suc fuel)
  then obtain d where d: "hub_node g h = Some d" by auto
  have "lf_visit_hub fuel g p f' = Some \<lparr>lf_positive = lf_positive f' \<or> conditional_path g p,
      lf_negative = lf_negative f' \<or> unconditional_path g p\<rparr>" if "p \<in> set (dn_parents d)" for p f'
    using height_parent [OF ok ht d that] Suc.prems by (intro Suc.IH) auto
  note loop = lf_loop [where visit = "lf_visit_hub fuel g", OF this]
  show ?case
    using d loop path_at [OF d]
    by (cases "conditional_hub d"; cases "dn_parents d = []")
       (auto simp: conditional_hub_def)
qed

lemma lf_visit_alg_spec:
  assumes "graph_ok g" and "cf_height g \<rho> R" and "R < fuel" and "alg_node g n = Some a"
  shows "\<exists>s. lf_visit_alg fuel g n lf_new = Some s \<and> lf_negative s = runs_always g n"
proof -
  have "hub_node g p \<noteq> None" if "p \<in> set (an_parents a)" for p
  proof -
    have "parent_of g p (Alg_Node n)" using assms(4) that by simp
    then have "daughter g p (Alg_Node n)" using assms(1) by (simp add: graph_ok_def linked_def)
    then show ?thesis by (auto simp: daughter_def)
  qed
  then have "loop_break (lf_visit_hub fuel g) lf_both (an_parents a) lf_new = Some
      \<lparr>lf_positive = lf_positive lf_new \<or> (\<exists>p \<in> set (an_parents a). conditional_path g p),
       lf_negative = lf_negative lf_new \<or> (\<exists>p \<in> set (an_parents a). unconditional_path g p)\<rparr>"
    using assms(3) by (intro lf_loop lf_visit_hub_spec [OF assms(1,2)]) auto
  then show ?thesis using assms(4) by (simp add: lf_visit_alg_def runs_always_def lf_new_def)
qed

section \<open>The books of producers\<close>

fun book_of :: "visitor_book \<Rightarrow> u64 \<Rightarrow> string set" where
  "book_of [] h = {}"
| "book_of ((k, ns) # b) h = (if k = h then set ns \<union> book_of b h else book_of b h)"

definition book_ok :: "visitor_book \<Rightarrow> bool" where
  "book_ok b \<longleftrightarrow> sorted_wrt (<) (map fst b) \<and>
     (\<forall>pr \<in> set b. snd pr \<noteq> [] \<and> sorted (snd pr) \<and> distinct (snd pr))"

lemma book_insert_keys: "set (map fst (book_insert h n b)) = insert h (set (map fst b))"
  by (induction h n b rule: book_insert.induct) auto

lemma insort_insert_nonempty: "insort_insert x xs \<noteq> []"
  by (auto simp: insort_insert_key_def insort_not_Nil)

lemma book_insert_ok: "book_ok b \<Longrightarrow> book_ok (book_insert h n b)"
proof (induction h n b rule: book_insert.induct)
  case (2 h n k ns b)
  then show ?case
    using book_insert_keys [of h n b]
    by (auto simp: book_ok_def sorted_insort_insert distinct_insort_insert insort_insert_nonempty
        dest: less_trans)
qed (simp add: book_ok_def)

lemma set_insort_insert_eq: "set (insort_insert x xs) = insert x (set xs)"
  by (auto simp: insort_insert_key_def set_insort_key)

lemma book_of_insert: "book_of (book_insert h n b) x = (if x = h then insert n (book_of b x) else book_of b x)"
proof (induction h n b rule: book_insert.induct)
  case (2 h n k ns b)
  consider "h < k" | "h = k" | "\<not> h < k" "h \<noteq> k" by blast
  then show ?case
  proof cases
    case 3
    with 2 show ?thesis by (cases "x = h"; cases "k = x") simp_all
  qed (simp_all add: set_insort_insert_eq)
qed simp

lemma book_of_absent: "h \<notin> fst ` set b \<Longrightarrow> book_of b h = {}"
  by (induction b h rule: book_of.induct) auto

lemma book_of_entry: "book_ok b \<Longrightarrow> pr \<in> set b \<Longrightarrow> book_of b (fst pr) = set (snd pr)"
proof (induction b)
  case (Cons x b)
  obtain k ns where x: "x = (k, ns)" by fastforce
  have b: "book_ok b" and k: "k \<notin> fst ` set b"
    using Cons.prems(1) by (auto simp: book_ok_def x)
  show ?case
  proof (cases "pr = x")
    case True
    with k show ?thesis by (simp add: x book_of_absent)
  next
    case False
    with Cons.prems(2) have pr: "pr \<in> set b" by simp
    then have "k \<noteq> fst pr" using k by auto
    with Cons.IH [OF b pr] show ?thesis by (simp add: x)
  qed
qed simp

lemma af_passed_iff:
  assumes "book_ok (af_unconditional f)"
  shows "af_passed f \<longleftrightarrow> (\<forall>h. card (book_of (af_unconditional f) h) \<le> 1)"
proof -
  let ?b = "af_unconditional f"
  have len: "length (snd pr) = card (book_of ?b (fst pr)) \<and> 0 < length (snd pr)" if "pr \<in> set ?b" for pr
    using assms that by (simp add: book_of_entry distinct_card book_ok_def)
  note none = book_of_absent [of _ ?b]
  show ?thesis
  proof
    assume p: "af_passed f"
    show "\<forall>h. card (book_of ?b h) \<le> 1"
    proof
      fix h
      show "card (book_of ?b h) \<le> 1"
        using none [of h] len p by (cases "h \<in> fst ` set ?b") (auto simp: af_passed_def list_all_iff)
    qed
  next
    assume c: "\<forall>h. card (book_of ?b h) \<le> 1"
    have "length (snd pr) = 1" if "pr \<in> set ?b" for pr
      using c [rule_format, of "fst pr"] len [OF that] by linarith
    then show "af_passed f" by (simp add: af_passed_def list_all_iff)
  qed
qed

lemma book_fold:
  "book_ok b \<Longrightarrow> book_ok (fold (book_insert h) ns b) \<and>
   book_of (fold (book_insert h) ns b) x = (if x = h then set ns \<union> book_of b x else book_of b x)"
proof (induction ns arbitrary: b)
  case (Cons n ns)
  from Cons.IH [OF book_insert_ok [OF Cons.prems]] show ?case
    by (cases "x = h") (simp_all add: book_of_insert)
qed simp

lemma af_producers_spec:
  assumes scout: "\<And>p. p \<in> set ps \<Longrightarrow>
      \<exists>s. lf_visit_alg fuel g p lf_new = Some s \<and> lf_negative s = runs_always g p"
  shows "\<exists>f'. af_producers fuel g h ps f = Some f' \<and>
    af_unconditional f' = fold (book_insert h) (filter (runs_always g) ps) (af_unconditional f)"
  using scout
proof (induction ps arbitrary: f)
  case (Cons p ps)
  from Cons.prems [of p] obtain s where "lf_visit_alg fuel g p lf_new = Some s" "lf_negative s = runs_always g p"
    by auto
  moreover obtain f' where "af_producers fuel g h ps
      (if lf_negative s then f\<lparr>af_unconditional := book_insert h p (af_unconditional f)\<rparr>
       else f\<lparr>af_conditional := book_insert h p (af_conditional f)\<rparr>) = Some f'"
    "af_unconditional f' = fold (book_insert h) (filter (runs_always g) ps)
      (af_unconditional (if lf_negative s then f\<lparr>af_unconditional := book_insert h p (af_unconditional f)\<rparr>
         else f\<lparr>af_conditional := book_insert h p (af_conditional f)\<rparr>))"
    using Cons.IH Cons.prems by (metis list.set_intros(2))
  ultimately show ?case by (cases "runs_always g p") auto
qed simp

section \<open>Data nodes are known by their hash\<close>

definition data_keyed :: "rules_graph \<Rightarrow> bool" where
  "data_keyed g \<longleftrightarrow> distinct (map fst (g_data g)) \<and> (\<forall>(h, d) \<in> set (g_data g). doid_hash (da_id d) = h)"

lemma data_keyed_same: "g_data g' = g_data g \<Longrightarrow> data_keyed g \<Longrightarrow> data_keyed g'"
  by (simp add: data_keyed_def)

lemma data_keyed_cong: "g_data g' = g_data g \<Longrightarrow> data_keyed g' = data_keyed g"
  by (simp add: data_keyed_def)

lemma map_entry_keyed:
  "(\<And>d. da_id (f d) = da_id d) \<Longrightarrow> \<forall>(h, d) \<in> set al. doid_hash (da_id d) = h \<Longrightarrow>
   \<forall>(h, d) \<in> set (AList.map_entry k f al). doid_hash (da_id d) = h"
  by (induction al) auto

lemma upd_data_keyed: "(\<And>d. da_id (f d) = da_id d) \<Longrightarrow> data_keyed g \<Longrightarrow> data_keyed (upd_data k f g)"
  using map_entry_keyed [of f "g_data g" k] by (simp add: data_keyed_def upd_data_def)

lemma same_data [simp]:
  "g_data (upd_alg n f g) = g_data g" "g_data (upd_hub p e g) = g_data g"
  "g_data (addHeadNode n m g) = g_data g" "g_data (snd (addAlgorithmNode a p iv ap g)) = g_data g"
  "g_data (snd (addDecisionHubNode n p m g)) = g_data g"
  by (simp_all add: upd_alg_def upd_hub_def addHeadNode_def addAlgorithmNode_def
      addDecisionHubNode_def Let_def graph_simps registerIODataObjects_def)

lemma addDataNode_keyed: "data_keyed g \<Longrightarrow> data_keyed (snd (addDataNode cs d g))"
  by (auto simp: addDataNode_def Let_def data_keyed_def graph_simps update_absent_append
      new_data_node_def map_of_eq_None_iff)

lemma link_outputs_keyed: "data_keyed g \<Longrightarrow> data_keyed (snd (link_outputs cs n ds (sc, g)))"
proof (induction ds arbitrary: sc g)
  case (Cons d ds)
  have "data_keyed (bgl_add_edge n (fullKey d) (upd_alg n (addOutputDataNode (doid_hash d))
      (upd_data (doid_hash d) (addProducerNode n) (snd (addDataNode cs d g)))))"
    using upd_data_keyed [OF _ addDataNode_keyed [OF Cons.prems], of "addProducerNode n"]
    by (simp add: data_keyed_cong [OF bgl_fields(9)] data_keyed_cong [OF same_data(1)] addProducerNode_def)
  with Cons.IH show ?case by (simp add: Let_def case_prod_beta)
qed simp

lemma link_inputs_keyed: "data_keyed g \<Longrightarrow> data_keyed (link_inputs n ds g)"
proof (induction ds arbitrary: g)
  case (Cons d ds)
  have "data_keyed (bgl_add_edge (fullKey d) n (upd_alg n (addInputDataNode (doid_hash d))
      (upd_data (doid_hash d) (addConsumerNode n) g)))"
    using upd_data_keyed [OF _ Cons.prems, of "addConsumerNode n"]
    by (simp add: data_keyed_cong [OF bgl_fields(9)] data_keyed_cong [OF same_data(1)] addConsumerNode_def)
  with Cons show ?case by simp
qed simp

lemma realm_keyed: "data_keyed g \<Longrightarrow> data_keyed (snd (buildDataDependenciesRealm cs g))"
proof -
  have 1: "data_keyed (snd s) \<longrightarrow>
      data_keyed (snd (fold (\<lambda>n (sc, g). link_outputs cs n (outputs_of g n) (sc, g)) ns s))" for ns s
    by (rule fold_keeps) (use link_outputs_keyed in \<open>auto split: prod.splits\<close>)
  have 2: "data_keyed h \<longrightarrow> data_keyed (fold (\<lambda>n g. link_inputs n (inputs_of g n) g) ns h)" for ns h
    by (rule fold_keeps) (use link_inputs_keyed in auto)
  assume "data_keyed g"
  with 1 [of "(SUCCESS, g)"] 2 show ?thesis
    by (simp add: buildDataDependenciesRealm_def Let_def case_prod_beta)
qed

lemma detach_data: "g_data (detach_alg n g) = g_data g"
proof (cases "alg_node g n")
  case (Some a)
  have "g_data (fold (\<lambda>p g. bgl_remove_edge n p
      (upd_hub p (\<lambda>d. d\<lparr>dn_children := removeAll (Alg_Node n) (dn_children d)\<rparr>) g)) ps g) = g_data g" for ps
    by (rule fold_keeps) (simp_all add: graph_simps)
  with Some show ?thesis by (simp add: detach_alg_def)
qed (simp add: detach_alg_def)

lemma graph_initialize_keyed: "data_keyed g \<Longrightarrow> data_keyed (snd (graph_initialize cs g))"
proof (cases cs)
  case (Some c)
  have "g_data (fold detach_alg ns h) = g_data h" for ns h
    by (rule fold_keeps) (simp_all add: detach_data)
  then have "g_data (fold detach_alg (cs_condAlgs c) (g\<lparr>g_conditionsRealmEnabled := True\<rparr>)) = g_data g"
    by simp
  moreover assume "data_keyed g"
  ultimately have "data_keyed (fold detach_alg (cs_condAlgs c) (g\<lparr>g_conditionsRealmEnabled := True\<rparr>))"
    by (rule data_keyed_same)
  with Some realm_keyed show ?thesis by (simp add: graph_initialize_def)
qed (simp add: graph_initialize_def realm_keyed)

lemma build_keyed: "data_keyed g \<Longrightarrow> data_keyed (build ops g)"
proof (induction ops arbitrary: g)
  case (Cons op ops)
  have "data_keyed (snd (build_step op g))"
  proof (cases op)
    case Analyse
    then have "g_data (snd (build_step op g)) = g_data g" by (simp add: enableAnalysis_def)
    then show ?thesis using Cons.prems by (rule data_keyed_same)
  next
    case (Initialize cs)
    then show ?thesis using Cons.prems graph_initialize_keyed by simp
  qed (simp_all add: data_keyed_cong [OF same_data(3)] data_keyed_cong [OF same_data(4)]
      data_keyed_cong [OF same_data(5)] Cons.prems)
  with Cons.IH show ?case by (simp add: build_def)
qed (simp add: build_def)

section \<open>Properties\<close>

text \<open>The producers of one data node that the finder takes for unconditional.\<close>

definition certain_producers :: "rules_graph \<Rightarrow> data_node \<Rightarrow> string set" where
  "certain_producers g d =
     (if length (da_producers d) > 1
      then {p \<in> set (da_producers d). da_condition d \<or> runs_always g p} else {})"

lemma af_check_step:
  assumes "book_ok (af_unconditional f)"
    and "\<And>p. p \<in> set (da_producers d) \<Longrightarrow>
      \<exists>s. lf_visit_alg fuel g p lf_new = Some s \<and> lf_negative s = runs_always g p"
  shows "\<exists>f'. (if da_condition d then Some (af_visit_condition d f) else af_visit_data fuel g d f) = Some f' \<and>
    book_ok (af_unconditional f') \<and>
    (\<forall>h. book_of (af_unconditional f') h = book_of (af_unconditional f) h \<union>
       (if h = doid_hash (da_id d) then certain_producers g d else {}))"
proof (cases "length (da_producers d) > 1")
  case False
  then show ?thesis
    using assms(1) by (simp add: af_visit_condition_def af_visit_data_def certain_producers_def)
next
  case True
  let ?h = "doid_hash (da_id d)"
  define ns where "ns = (if da_condition d then da_producers d else filter (runs_always g) (da_producers d))"
  obtain f' where f': "(if da_condition d then Some (af_visit_condition d f) else af_visit_data fuel g d f) = Some f'"
    "af_unconditional f' = fold (book_insert ?h) ns (af_unconditional f)"
    using True af_producers_spec [OF assms(2), where f = "f\<lparr>af_foundViolations := True\<rparr>" and h = ?h]
    by (cases "da_condition d") (auto simp: af_visit_condition_def af_visit_data_def ns_def)
  moreover have "set ns = certain_producers g d"
    using True by (auto simp: ns_def certain_producers_def)
  ultimately show ?thesis
    using book_fold [OF assms(1), of ?h ns] by (auto simp: Un_commute)
qed

lemma af_check_loop:
  assumes "\<And>d p. d \<in> set ds \<Longrightarrow> p \<in> set (da_producers d) \<Longrightarrow>
      \<exists>s. lf_visit_alg fuel g p lf_new = Some s \<and> lf_negative s = runs_always g p"
  shows "book_ok (af_unconditional f) \<Longrightarrow>
    \<exists>f'. loop_all (\<lambda>d f. if da_condition d then Some (af_visit_condition d f) else af_visit_data fuel g d f) ds f = Some f' \<and>
      book_ok (af_unconditional f') \<and>
      (\<forall>h. book_of (af_unconditional f') h = book_of (af_unconditional f) h \<union>
         (\<Union>d \<in> {d \<in> set ds. doid_hash (da_id d) = h}. certain_producers g d))"
  using assms
proof (induction ds arbitrary: f)
  case (Cons d ds)
  obtain f1 where f1: "(if da_condition d then Some (af_visit_condition d f) else af_visit_data fuel g d f) = Some f1"
    and ok: "book_ok (af_unconditional f1)"
    and b1: "\<forall>h. book_of (af_unconditional f1) h = book_of (af_unconditional f) h \<union>
       (if h = doid_hash (da_id d) then certain_producers g d else {})"
    using af_check_step [OF Cons.prems(1), of d fuel g] Cons.prems(2) by auto
  obtain f' where f': "loop_all (\<lambda>d f. if da_condition d then Some (af_visit_condition d f) else af_visit_data fuel g d f) ds f1 = Some f'"
    "book_ok (af_unconditional f')"
    and b2: "\<forall>h. book_of (af_unconditional f') h = book_of (af_unconditional f1) h \<union>
         (\<Union>d \<in> {d \<in> set ds. doid_hash (da_id d) = h}. certain_producers g d)"
    using Cons.IH [OF ok] Cons.prems(2) by auto
  have "book_of (af_unconditional f') h = book_of (af_unconditional f) h \<union>
         (\<Union>x \<in> {x \<in> set (d # ds). doid_hash (da_id x) = h}. certain_producers g x)" for h
    unfolding b2 [rule_format] b1 [rule_format]
    by (cases "h = doid_hash (da_id d)") auto
  with f1 f' show ?case unfolding loop_all.simps by simp
qed simp

text \<open>
  C24. The checks made before a job starts end and give the right verdicts, whatever order they
  walk the graph in: the first one passes exactly when no hub is both concurrent and prompt, and
  the production check passes exactly when no data object has two producers that both run
  unconditionally (every producer of a condition does). One unconditional producer beside any
  number of conditional ones passes.
\<close>

theorem validators_verdicts:
  assumes "g = build ops new_graph" and "cf_height g \<rho> R" and "R < fuel"
  shows "np_passed (np_check g) =
      (\<forall>d \<in> snd ` set (g_hubs g). \<not> (dn_modeConcurrent d \<and> dn_modePromptDecision d))
    \<and> map_option af_passed (af_check fuel g) =
      Some (\<forall>d \<in> snd ` set (g_data g). card (certain_producers g d) \<le> 1)"
proof
  have "np_passed (fold (\<lambda>d v. snd (np_visit d v)) ds v) \<longleftrightarrow> np_passed v \<and>
      (\<forall>d \<in> set ds. \<not> (dn_modeConcurrent d \<and> dn_modePromptDecision d))" for ds v
    by (induction ds arbitrary: v) auto
  then show "np_passed (np_check g) =
      (\<forall>d \<in> snd ` set (g_hubs g). \<not> (dn_modeConcurrent d \<and> dn_modePromptDecision d))"
    by (simp add: np_check_def)
  let ?ds = "map snd (g_data g)"
  have ok: "graph_ok g" and keyed: "data_keyed g"
    using assms(1) build_ok [OF new_graph_ok] build_keyed [of new_graph]
    by (simp_all add: data_keyed_def new_graph_def)
  have scout: "\<exists>s. lf_visit_alg fuel g p lf_new = Some s \<and> lf_negative s = runs_always g p"
    if d: "d \<in> set ?ds" and p: "p \<in> set (da_producers d)" for d p
  proof -
    obtain h where "(h, d) \<in> set (g_data g)" using d by auto
    then have "data_node_at g h = Some d" using keyed by (simp add: data_keyed_def)
    with p have "produced_by g p h" by (auto simp: produced_by_def)
    then have "outputs_to g p h" using ok by (simp add: graph_ok_def linked_def)
    then obtain a where "alg_node g p = Some a" by (auto simp: outputs_to_def)
    from lf_visit_alg_spec [OF ok assms(2,3) this] show ?thesis .
  qed
  obtain f where f: "af_check fuel g = Some f" "book_ok (af_unconditional f)"
    and book: "\<And>h. book_of (af_unconditional f) h =
      (\<Union>d \<in> {d \<in> set ?ds. doid_hash (da_id d) = h}. certain_producers g d)"
  proof -
    have "book_ok (af_unconditional af_new)" by (simp add: af_new_def book_ok_def)
    from af_check_loop [where ds = ?ds and f = af_new and fuel = fuel and g = g, OF _ this] scout that
    show thesis by (auto simp: af_check_def af_new_def)
  qed
  have same: "{x \<in> set ?ds. doid_hash (da_id x) = doid_hash (da_id d)} = {d}" if "d \<in> set ?ds" for d
  proof -
    have "x = d" if x: "x \<in> set ?ds" "doid_hash (da_id x) = doid_hash (da_id d)" for x
    proof -
      obtain k l where kl: "(k, x) \<in> set (g_data g)" "(l, d) \<in> set (g_data g)"
        using x(1) \<open>d \<in> set ?ds\<close> by auto
      moreover have "doid_hash (da_id x) = k" "doid_hash (da_id d) = l"
        using kl keyed unfolding data_keyed_def by blast+
      ultimately have "k = l" using x(2) by simp
      with kl show ?thesis using keyed eq_key_imp_eq_value [of "g_data g"] by (auto simp: data_keyed_def)
    qed
    with that show ?thesis by auto
  qed
  have "card (book_of (af_unconditional f) h) \<le> 1" if "\<forall>d \<in> set ?ds. card (certain_producers g d) \<le> 1" for h
  proof (cases "\<exists>d \<in> set ?ds. doid_hash (da_id d) = h")
    case True
    then obtain d where d: "d \<in> set ?ds" "doid_hash (da_id d) = h" by blast
    have "book_of (af_unconditional f) h = certain_producers g d"
      using same [OF d(1)] book [of h] d(2) by simp
    with that d(1) show ?thesis by metis
  next
    case False
    then have "{d \<in> set ?ds. doid_hash (da_id d) = h} = {}" by blast
    then have "book_of (af_unconditional f) h = {}" unfolding book by (simp only: Union_empty image_empty)
    then show ?thesis by simp
  qed
  moreover have "card (certain_producers g d) \<le> 1"
    if "\<forall>h. card (book_of (af_unconditional f) h) \<le> 1" "d \<in> set ?ds" for d
    using that(1) [rule_format, of "doid_hash (da_id d)"] book [of "doid_hash (da_id d)"] same [OF that(2)]
    by simp
  ultimately have "af_passed f \<longleftrightarrow> (\<forall>d \<in> set ?ds. card (certain_producers g d) \<le> 1)"
    unfolding af_passed_iff [OF f(2)] by blast
  with f(1) show "map_option af_passed (af_check fuel g) =
      Some (\<forall>d \<in> snd ` set (g_data g). card (certain_producers g d) \<le> 1)"
    by simp
qed

text \<open>Two algorithms with the same output, the first under a hub that may leave it out.\<close>

definition rival_ops :: "build_op list" where
  "rival_ops = [Head ''h'' example_modes, Add_hub ''early'' ''h'' (example_modes\<lparr>modePromptDecision := True\<rparr>),
     Add_alg ((example_alg ''a'')\<lparr>ga_outputs := [doid_of_key (\<lambda>s. of_nat (length s)) ''x'']\<rparr>) ''early'' False False,
     Add_alg ((example_alg ''b'')\<lparr>ga_outputs := [doid_of_key (\<lambda>s. of_nat (length s)) ''x'']\<rparr>) ''h'' False False,
     Initialize None]"

lemma rival_height:
  "cf_height (build rival_ops new_graph) (case_cf_ref (\<lambda>n. 0) (\<lambda>n. if n = ''h'' then 2 else 1)) 2"
proof -
  have "map (\<lambda>(n, d). (n, dn_children d)) (g_hubs (build rival_ops new_graph)) =
      [(''h'', [Hub_Node ''early'', Alg_Node ''b'']), (''early'', [Alg_Node ''a''])]"
    by code_simp
  then have hubs: "(n, d) \<in> set (g_hubs (build rival_ops new_graph)) \<Longrightarrow>
      (n, dn_children d) \<in> {(''h'', [Hub_Node ''early'', Alg_Node ''b'']), (''early'', [Alg_Node ''a''])}" for n d
    by (metis (no_types, lifting) case_prod_conv image_eqI list.set_map list.simps(15) empty_set)
  show ?thesis
    using hubs [OF map_of_SomeD] by (fastforce simp: cf_height_def)
qed

theorem validators_verdicts_witness:
  "map_option (\<lambda>f. (af_passed f, af_foundViolations f)) (af_check 3 (build rival_ops new_graph)) = Some (True, True)
   \<and> list_all (\<lambda>d. card (certain_producers (build rival_ops new_graph) d) \<le> 1)
        (map snd (g_data (build rival_ops new_graph)))"
proof -
  have run: "map_option (\<lambda>f. (af_passed f, af_foundViolations f)) (af_check 3 (build rival_ops new_graph))
      = Some (True, True)"
    by code_simp
  then have "map_option af_passed (af_check 3 (build rival_ops new_graph)) = Some True"
    by auto
  with run validators_verdicts [OF refl rival_height, of 3] show ?thesis by (simp add: list_all_iff)
qed

end
