(* ===== verification/Registry.thy ===== *)
theory Registry
  imports Prelude
begin

text \<open>
  The entries of the transient data store: \<open>RegistryEntry\<close> of
  GaudiKernel/include/GaudiKernel/RegistryEntry.h and GaudiKernel/src/Lib/RegistryEntry.cpp.
  Entries, data objects and opaque addresses live at numbered places of a heap, as the code
  keeps pointers to them from several sides: an entry knows its parent, its leaves, its object
  and its address, and an object and an address know their entry. A pointer is an option of a
  place; a freed place holds nothing.
\<close>

section \<open>The heap\<close>

type_synonym entry_id = nat
type_synonym object_id = nat
type_synonym address_id = nat

record reg_entry =
  re_refCount :: nat
  re_isSoft :: bool
  re_fullpath :: string
  re_path :: string
  re_parent :: "entry_id option"
  re_address :: "address_id option"
  re_object :: "object_id option"
  re_dataSvc :: bool
  re_store :: "entry_id list"

text \<open>What the store sees of a data object or an address: \<open>m_refCount\<close> and \<open>m_pRegistry\<close>.\<close>

record counted =
  cn_refCount :: nat
  cn_registry :: "entry_id option"

record heap =
  hp_entries :: "entry_id \<Rightarrow> reg_entry option"
  hp_objects :: "object_id \<Rightarrow> counted option"
  hp_addresses :: "address_id \<Rightarrow> counted option"
  hp_next :: nat
  hp_nextObject :: nat

definition upd_entry :: "entry_id \<Rightarrow> (reg_entry \<Rightarrow> reg_entry) \<Rightarrow> heap \<Rightarrow> heap" where
  "upd_entry e f h = h\<lparr>hp_entries := (hp_entries h)(e := map_option f (hp_entries h e))\<rparr>"

definition upd_object :: "object_id \<Rightarrow> (counted \<Rightarrow> counted) \<Rightarrow> heap \<Rightarrow> heap" where
  "upd_object x f h = h\<lparr>hp_objects := (hp_objects h)(x := map_option f (hp_objects h x))\<rparr>"

definition upd_address :: "address_id \<Rightarrow> (counted \<Rightarrow> counted) \<Rightarrow> heap \<Rightarrow> heap" where
  "upd_address a f h = h\<lparr>hp_addresses := (hp_addresses h)(a := map_option f (hp_addresses h a))\<rparr>"

definition with_some :: "('a \<Rightarrow> 'b \<Rightarrow> 'b) \<Rightarrow> 'a option \<Rightarrow> 'b \<Rightarrow> 'b" where
  "with_some f p s = (case p of None \<Rightarrow> s | Some x \<Rightarrow> f x s)"

lemma with_some_simps [simp]: "with_some f None s = s" "with_some f (Some x) s = f x s"
  by (simp_all add: with_some_def)

text \<open>
  \<open>addRef\<close>, \<open>release\<close> and \<open>setRegistry\<close> of objects and addresses. An object is born with no
  reference; releasing it then wraps the unsigned counter and does not free it.
\<close>

definition drop_ref :: "counted option \<Rightarrow> counted option" where
  "drop_ref c =
     (case c of None \<Rightarrow> None
      | Some o' \<Rightarrow>
          if cn_refCount o' = 1 then None
          else Some (o'\<lparr>cn_refCount := (if cn_refCount o' = 0 then 2 ^ 64 - 1 else cn_refCount o' - 1)\<rparr>))"

definition new_object :: "heap \<Rightarrow> object_id \<times> heap" where
  "new_object h =
     (hp_nextObject h,
      h\<lparr>hp_objects := (hp_objects h)(hp_nextObject h \<mapsto> \<lparr>cn_refCount = 0, cn_registry = None\<rparr>),
        hp_nextObject := Suc (hp_nextObject h)\<rparr>)"

definition obj_addRef :: "object_id \<Rightarrow> heap \<Rightarrow> heap" where
  "obj_addRef x = upd_object x (\<lambda>o'. o'\<lparr>cn_refCount := Suc (cn_refCount o')\<rparr>)"

definition obj_setRegistry :: "entry_id option \<Rightarrow> object_id \<Rightarrow> heap \<Rightarrow> heap" where
  "obj_setRegistry e x = upd_object x (\<lambda>o'. o'\<lparr>cn_registry := e\<rparr>)"

definition obj_release :: "object_id \<Rightarrow> heap \<Rightarrow> heap" where
  "obj_release x h = h\<lparr>hp_objects := (hp_objects h)(x := drop_ref (hp_objects h x))\<rparr>"

definition adr_addRef :: "address_id \<Rightarrow> heap \<Rightarrow> heap" where
  "adr_addRef a = upd_address a (\<lambda>o'. o'\<lparr>cn_refCount := Suc (cn_refCount o')\<rparr>)"

definition adr_setRegistry :: "entry_id option \<Rightarrow> address_id \<Rightarrow> heap \<Rightarrow> heap" where
  "adr_setRegistry e a = upd_address a (\<lambda>o'. o'\<lparr>cn_registry := e\<rparr>)"

definition adr_release :: "address_id \<Rightarrow> heap \<Rightarrow> heap" where
  "adr_release a h = h\<lparr>hp_addresses := (hp_addresses h)(a := drop_ref (hp_addresses h a))\<rparr>"

text \<open>Reading through a pointer.\<close>

definition entry_get :: "(reg_entry \<Rightarrow> 'a) \<Rightarrow> 'a \<Rightarrow> heap \<Rightarrow> entry_id \<Rightarrow> 'a" where
  "entry_get f d h e = (case hp_entries h e of None \<Rightarrow> d | Some r \<Rightarrow> f r)"

abbreviation leaves_of :: "heap \<Rightarrow> entry_id \<Rightarrow> entry_id list" where
  "leaves_of \<equiv> entry_get re_store []"

abbreviation path_of :: "heap \<Rightarrow> entry_id \<Rightarrow> string" where
  "path_of \<equiv> entry_get re_path []"

abbreviation fullpath_of :: "heap \<Rightarrow> entry_id \<Rightarrow> string" where
  "fullpath_of \<equiv> entry_get re_fullpath []"

abbreviation object_of :: "heap \<Rightarrow> entry_id \<Rightarrow> object_id option" where
  "object_of \<equiv> entry_get re_object None"

abbreviation address_of :: "heap \<Rightarrow> entry_id \<Rightarrow> address_id option" where
  "address_of \<equiv> entry_get re_address None"

abbreviation parent_entry :: "heap \<Rightarrow> entry_id \<Rightarrow> entry_id option" where
  "parent_entry \<equiv> entry_get re_parent None"

abbreviation is_soft :: "heap \<Rightarrow> entry_id \<Rightarrow> bool" where
  "is_soft \<equiv> entry_get re_isSoft False"

definition registry_of :: "heap \<Rightarrow> object_id \<Rightarrow> entry_id option" where
  "registry_of h x = (case hp_objects h x of None \<Rightarrow> None | Some o' \<Rightarrow> cn_registry o')"

section \<open>Paths\<close>

abbreviation SEPARATOR :: char where
  "SEPARATOR \<equiv> CHR ''/''"

text \<open>
  The name of an entry: the constructor looks for the last separator, adds one in front where it
  is missing, and then erases as many characters as the search said, before the insertion.
\<close>

definition last_sep :: "string \<Rightarrow> nat option" where
  "last_sep p = (if SEPARATOR \<in> set p then Some (length p - Suc (length (takeWhile (\<lambda>c. c \<noteq> SEPARATOR) (rev p)))) else None)"

definition lead_sep :: "string \<Rightarrow> string" where
  "lead_sep p = (if p \<noteq> [] \<and> hd p = SEPARATOR then p else SEPARATOR # p)"

definition entry_name :: "string \<Rightarrow> string" where
  "entry_name p = (case last_sep p of None \<Rightarrow> lead_sep p | Some n \<Rightarrow> drop n (lead_sep p))"

definition strip_sep :: "string \<Rightarrow> string" where
  "strip_sep p = (case p of [] \<Rightarrow> [] | c # cs \<Rightarrow> if c = SEPARATOR then cs else p)"

section \<open>RegistryEntry\<close>

text \<open>\<open>assemblePath\<close>, from the parent down; \<open>fuel\<close> bounds the depth.\<close>

fun assemblePath :: "nat \<Rightarrow> heap \<Rightarrow> entry_id \<Rightarrow> string" where
  "assemblePath 0 h e = []"
| "assemblePath (Suc fuel) h e =
     (case parent_entry h e of None \<Rightarrow> [] | Some p \<Rightarrow> assemblePath fuel h p) @ path_of h e"

text \<open>The constructor: the new entry gets the next place and one reference.\<close>

definition new_entry :: "string \<Rightarrow> entry_id option \<Rightarrow> heap \<Rightarrow> entry_id \<times> heap" where
  "new_entry path parent h =
     (let e = hp_next h;
          r = \<lparr>re_refCount = 0, re_isSoft = False, re_fullpath = [], re_path = entry_name path,
               re_parent = parent, re_address = None, re_object = None, re_dataSvc = False,
               re_store = []\<rparr>;
          h = h\<lparr>hp_entries := (hp_entries h)(e \<mapsto> r), hp_next := Suc e\<rparr>
      in (e, upd_entry e (\<lambda>r. r\<lparr>re_fullpath := assemblePath (hp_next h) h e,
                              re_refCount := Suc (re_refCount r)\<rparr>) h))"

definition setParent :: "entry_id \<Rightarrow> entry_id option \<Rightarrow> heap \<Rightarrow> heap" where
  "setParent e p h =
     (let h = upd_entry e (\<lambda>r. r\<lparr>re_parent := p, re_fullpath := []\<rparr>) h
      in upd_entry e (\<lambda>r. r\<lparr>re_fullpath := assemblePath (hp_next h) h e\<rparr>) h)"

definition setAddress :: "entry_id \<Rightarrow> address_id option \<Rightarrow> heap \<Rightarrow> heap" where
  "setAddress e pAddress h =
     (let h = with_some (\<lambda>a h. adr_setRegistry (Some e) a (adr_addRef a h)) pAddress h;
          h = with_some adr_release (address_of h e) h
      in upd_entry e (\<lambda>r. r\<lparr>re_address := pAddress\<rparr>) h)"

definition setObject :: "entry_id \<Rightarrow> object_id option \<Rightarrow> heap \<Rightarrow> heap" where
  "setObject e pObject h =
     (let h = with_some (\<lambda>x h. if \<not> is_soft h e then obj_setRegistry (Some e) x (obj_addRef x h)
                               else obj_addRef x h) pObject h;
          h = with_some obj_release (object_of h e) h
      in upd_entry e (\<lambda>r. r\<lparr>re_object := pObject\<rparr>) h)"

definition set_soft :: "entry_id \<Rightarrow> bool \<Rightarrow> heap \<Rightarrow> heap" where
  "set_soft e b = upd_entry e (\<lambda>r. r\<lparr>re_isSoft := b\<rparr>)"

definition makeSoft_object :: "entry_id \<Rightarrow> object_id option \<Rightarrow> heap \<Rightarrow> heap" where
  "makeSoft_object e pObject h = setObject e pObject (set_soft e True h)"

definition makeSoft_address :: "entry_id \<Rightarrow> address_id option \<Rightarrow> heap \<Rightarrow> heap" where
  "makeSoft_address e pAddress h = setAddress e pAddress (set_soft e True h)"

definition makeHard_object :: "entry_id \<Rightarrow> object_id option \<Rightarrow> heap \<Rightarrow> heap" where
  "makeHard_object e pObject h =
     (let h = makeSoft_object e pObject h;
          h = set_soft e False h;
          h = with_some (obj_setRegistry (Some e)) (object_of h e) h
      in with_some (adr_setRegistry (Some e)) (address_of h e) h)"

definition makeHard_address :: "entry_id \<Rightarrow> address_id option \<Rightarrow> heap \<Rightarrow> heap" where
  "makeHard_address e pAddress h = setAddress e pAddress (set_soft e False h)"

text \<open>
  The destructor after the leaves are gone: the object and the address lose their entry, unless
  the link is soft, and one reference each.
\<close>

definition free_entry :: "entry_id \<Rightarrow> heap \<Rightarrow> heap" where
  "free_entry e h =
     (let h = with_some (\<lambda>x h. obj_release x (if is_soft h e then h else obj_setRegistry None x h))
                (object_of h e) h;
          h = with_some (\<lambda>a h. adr_release a (if is_soft h e then h else adr_setRegistry None a h))
                (address_of h e) h
      in h\<lparr>hp_entries := (hp_entries h)(e := None)\<rparr>)"

text \<open>
  \<open>deleteElements\<close> and \<open>release\<close>, which deletes the entry with its last reference; \<open>fuel\<close>
  bounds the depth. The destructor deletes the elements again.
\<close>

fun deleteElements :: "nat \<Rightarrow> entry_id \<Rightarrow> heap \<Rightarrow> heap"
  and entry_release :: "nat \<Rightarrow> entry_id \<Rightarrow> heap \<Rightarrow> heap"
where
  "deleteElements 0 e h = h"
| "deleteElements (Suc fuel) e h =
     upd_entry e (\<lambda>r. r\<lparr>re_store := []\<rparr>)
       (fold (\<lambda>c h. entry_release fuel c (deleteElements fuel c h)) (leaves_of h e) h)"
| "entry_release 0 e h = h"
| "entry_release (Suc fuel) e h =
     (let h = upd_entry e (\<lambda>r. r\<lparr>re_refCount := re_refCount r - 1\<rparr>) h
      in if entry_get re_refCount 0 h e = 0 then free_entry e (deleteElements fuel e h) else h)"

text \<open>The depth of the heap is bounded by the number of places ever given out.\<close>

definition depth_fuel :: "heap \<Rightarrow> nat" where
  "depth_fuel h = hp_next h + 2"

definition remove_entry :: "entry_id \<Rightarrow> entry_id \<Rightarrow> heap \<Rightarrow> heap" where
  "remove_entry e obj h =
     (if obj \<in> set (leaves_of h e)
      then upd_entry e (\<lambda>r. r\<lparr>re_store := removeAll obj (re_store r)\<rparr>)
             (entry_release (depth_fuel h) obj h)
      else h)"

definition name_is :: "heap \<Rightarrow> string \<Rightarrow> entry_id \<Rightarrow> bool" where
  "name_is h n c \<longleftrightarrow> drop 1 (path_of h c) = n"

text \<open>\<open>remove\<close> by name; the name is not empty. The result says whether it was there.\<close>

definition remove_name :: "entry_id \<Rightarrow> string \<Rightarrow> heap \<Rightarrow> bool \<times> heap" where
  "remove_name e nam h =
     (case find (name_is h (strip_sep nam)) (leaves_of h e) of
        None \<Rightarrow> (False, h)
      | Some c \<Rightarrow> (True, remove_entry e c h))"

definition i_create :: "entry_id \<Rightarrow> string \<Rightarrow> heap \<Rightarrow> entry_id option \<times> heap" where
  "i_create e nam h =
     (let nam = lead_sep nam
      in if list_all (\<lambda>i. nam \<noteq> path_of h i) (leaves_of h e)
         then map_prod Some id (new_entry nam (Some e) h)
         else (None, h))"

definition i_add :: "entry_id \<Rightarrow> entry_id \<Rightarrow> heap \<Rightarrow> heap" where
  "i_add e c h =
     (let svc = entry_get re_dataSvc False h e;
          h = upd_entry c (\<lambda>r. r\<lparr>re_dataSvc := svc\<rparr>) h;
          h = upd_entry e (\<lambda>r. r\<lparr>re_store := re_store r @ [c]\<rparr>) h;
          h = setParent c (Some e) h
      in if \<not> is_soft h c then with_some (adr_setRegistry (Some c)) (address_of h c) h else h)"

definition add_object :: "entry_id \<Rightarrow> string \<Rightarrow> object_id option \<Rightarrow> bool \<Rightarrow> heap \<Rightarrow> bool \<times> heap" where
  "add_object e name pObject soft h =
     (case i_create e name h of
        (None, h) \<Rightarrow> (False, h)
      | (Some c, h) \<Rightarrow>
          (True, i_add e c (if soft then makeSoft_object c pObject h else makeHard_object c pObject h)))"

definition add_address :: "entry_id \<Rightarrow> string \<Rightarrow> address_id option \<Rightarrow> bool \<Rightarrow> heap \<Rightarrow> bool \<times> heap" where
  "add_address e name pAddress soft h =
     (case i_create e name h of
        (None, h) \<Rightarrow> (False, h)
      | (Some c, h) \<Rightarrow>
          (True, i_add e c (if soft then makeSoft_address c pAddress h else makeHard_address c pAddress h)))"

text \<open>\<open>i_find\<close> by path. The path is not empty at the call.\<close>

function find_leaf :: "heap \<Rightarrow> entry_id \<Rightarrow> string \<Rightarrow> entry_id option" where
  "find_leaf h e path =
     (if path = [] then None
      else
        (let cpath = takeWhile (\<lambda>c. c \<noteq> SEPARATOR) path;
             rest = drop 1 (dropWhile (\<lambda>c. c \<noteq> SEPARATOR) path)
         in case find (name_is h cpath) (leaves_of h e) of
              Some c \<Rightarrow> if rest = [] then Some c else find_leaf h c (strip_sep rest)
            | None \<Rightarrow> if cpath \<noteq> drop 1 (path_of h e) then None else find_leaf h e rest))"
  by pat_completeness auto

lemma rest_shorter: "path \<noteq> [] \<Longrightarrow> length (drop 1 (dropWhile P path)) < length path"
  by (cases "dropWhile P path = []") (use length_dropWhile_le [of P path] in \<open>auto simp: length_greater_0_conv [symmetric] simp del: length_greater_0_conv\<close>)

lemma strip_sep_le: "length (strip_sep p) \<le> length p"
  by (cases p) (simp_all add: strip_sep_def)

lemma strip_rest_shorter: "path \<noteq> [] \<Longrightarrow> length (strip_sep (drop 1 (dropWhile P path))) < length path"
  using rest_shorter strip_sep_le by (meson le_less_trans)

termination find_leaf
  using rest_shorter strip_rest_shorter
  by (relation "measure (\<lambda>(h, e, path). length path)") auto

declare find_leaf.simps [simp del]

definition i_find_path :: "heap \<Rightarrow> entry_id \<Rightarrow> string \<Rightarrow> entry_id option" where
  "i_find_path h e path = find_leaf h e (strip_sep path)"

text \<open>\<open>i_find\<close> by object: this entry, its leaves, and then below each of them.\<close>

fun first_found :: "('a \<Rightarrow> 'b option) \<Rightarrow> 'a list \<Rightarrow> 'b option" where
  "first_found f [] = None"
| "first_found f (x # xs) = (case f x of Some y \<Rightarrow> Some y | None \<Rightarrow> first_found f xs)"

fun i_find_object :: "nat \<Rightarrow> heap \<Rightarrow> entry_id \<Rightarrow> object_id \<Rightarrow> entry_id option" where
  "i_find_object 0 h e x = None"
| "i_find_object (Suc fuel) h e x =
     (if object_of h e = Some x then Some e
      else
        (case registry_of h x of
           Some e' \<Rightarrow> if e' \<in> set (leaves_of h e) then Some e'
                      else first_found (\<lambda>c. i_find_object fuel h c x) (leaves_of h e)
         | None \<Rightarrow> first_found (\<lambda>c. i_find_object fuel h c x) (leaves_of h e)))"

text \<open>
  \<open>traverseTree\<close> with an agent that is shown every entry with its level and says whether to go
  below it.
\<close>

fun traverseTree ::
  "nat \<Rightarrow> heap \<Rightarrow> (entry_id \<Rightarrow> nat \<Rightarrow> 'a \<Rightarrow> bool \<times> 'a) \<Rightarrow> entry_id \<Rightarrow> nat \<Rightarrow> 'a \<Rightarrow> 'a"
where
  "traverseTree 0 h analyse e level a = a"
| "traverseTree (Suc fuel) h analyse e level a =
     (let (go_down, a) = analyse e level a
      in if go_down then fold (\<lambda>c a. traverseTree fuel h analyse c (Suc level) a) (leaves_of h e) a
         else a)"

end
