(* ===== verification/Registry_Facts.thy ===== *)
theory Registry_Facts
  imports Registry
begin

text \<open>
  What the operations on registry entries keep: the entries form trees whose names, full paths
  and parents agree (\<open>tree_ok\<close>), and no entry points to a freed object or address, no object to
  a freed entry (\<open>hold_ok\<close>).
\<close>

section \<open>Reading and writing\<close>

definition alive :: "heap \<Rightarrow> entry_id \<Rightarrow> bool" where
  "alive h e \<longleftrightarrow> hp_entries h e \<noteq> None"

named_theorems heap_simps "reading the registry heap after a write"

lemma upd_fields [heap_simps]:
  "hp_next (upd_entry e f h) = hp_next h" "hp_objects (upd_entry e f h) = hp_objects h"
  "hp_addresses (upd_entry e f h) = hp_addresses h"
  "hp_entries (upd_object x g h) = hp_entries h" "hp_next (upd_object x g h) = hp_next h"
  "hp_addresses (upd_object x g h) = hp_addresses h"
  "hp_entries (upd_address x g h) = hp_entries h" "hp_next (upd_address x g h) = hp_next h"
  "hp_objects (upd_address x g h) = hp_objects h"
  "hp_entries (obj_release x h) = hp_entries h" "hp_next (obj_release x h) = hp_next h"
  "hp_addresses (obj_release x h) = hp_addresses h"
  "hp_entries (adr_release x h) = hp_entries h" "hp_next (adr_release x h) = hp_next h"
  "hp_objects (adr_release x h) = hp_objects h"
  "hp_nextObject (upd_entry e f h) = hp_nextObject h" "hp_nextObject (upd_object x g h) = hp_nextObject h"
  "hp_nextObject (upd_address x g h) = hp_nextObject h" "hp_nextObject (obj_release x h) = hp_nextObject h"
  "hp_nextObject (adr_release x h) = hp_nextObject h"
  by (simp_all add: upd_entry_def upd_object_def upd_address_def obj_release_def adr_release_def)

lemma counted_ops_entries [heap_simps]:
  "hp_entries (obj_addRef x h) = hp_entries h" "hp_entries (obj_setRegistry p x h) = hp_entries h"
  "hp_entries (adr_addRef x h) = hp_entries h" "hp_entries (adr_setRegistry p x h) = hp_entries h"
  "hp_next (obj_addRef x h) = hp_next h" "hp_next (obj_setRegistry p x h) = hp_next h"
  "hp_next (adr_addRef x h) = hp_next h" "hp_next (adr_setRegistry p x h) = hp_next h"
  "hp_addresses (obj_addRef x h) = hp_addresses h" "hp_addresses (obj_setRegistry p x h) = hp_addresses h"
  "hp_objects (adr_addRef x h) = hp_objects h" "hp_objects (adr_setRegistry p x h) = hp_objects h"
  "hp_nextObject (obj_addRef x h) = hp_nextObject h" "hp_nextObject (obj_setRegistry p x h) = hp_nextObject h"
  "hp_nextObject (adr_addRef x h) = hp_nextObject h" "hp_nextObject (adr_setRegistry p x h) = hp_nextObject h"
  by (simp_all add: obj_addRef_def obj_setRegistry_def adr_addRef_def adr_setRegistry_def heap_simps)

lemma entry_get_cong: "hp_entries h' = hp_entries h \<Longrightarrow> entry_get sel d h' = entry_get sel d h"
  by (simp add: entry_get_def fun_eq_iff)

lemma upd_entry_at [heap_simps]: "hp_entries (upd_entry e f h) = (hp_entries h)(e := map_option f (hp_entries h e))"
  by (simp add: upd_entry_def)

lemma entry_get_upd: "(\<And>r. sel (f r) = sel r) \<Longrightarrow> entry_get sel d (upd_entry e f h) = entry_get sel d h"
  by (auto simp: entry_get_def fun_eq_iff upd_entry_def split: option.splits)

lemma alive_upd: "alive (upd_entry e f h) = alive h"
  by (auto simp: alive_def upd_entry_def fun_eq_iff)

lemma with_some_keeps: "(\<And>x. P (f x h)) \<Longrightarrow> P h \<Longrightarrow> P (with_some f p h)"
  by (cases p) simp_all

section \<open>The shape of the trees\<close>

definition tree_ok :: "heap \<Rightarrow> bool" where
  "tree_ok h \<longleftrightarrow>
     (\<forall>e. alive h e \<longrightarrow> e < hp_next h) \<and>
     (\<forall>e. alive h e \<longrightarrow> entry_get re_refCount 0 h e = 1) \<and>
     (\<forall>e. alive h e \<longrightarrow> (\<exists>n. path_of h e = SEPARATOR # n)) \<and>
     (\<forall>e. distinct (leaves_of h e) \<and> inj_on (path_of h) (set (leaves_of h e))) \<and>
     (\<forall>e c. c \<in> set (leaves_of h e) \<longrightarrow> alive h c \<and> parent_entry h c = Some e \<and> e < c) \<and>
     (\<forall>e p. parent_entry h e = Some p \<longrightarrow> e \<in> set (leaves_of h p)) \<and>
     (\<forall>e. alive h e \<longrightarrow> fullpath_of h e =
        (case parent_entry h e of None \<Rightarrow> path_of h e | Some p \<Rightarrow> fullpath_of h p @ path_of h e))"

lemma tree_okD:
  assumes "tree_ok h"
  shows "alive h e \<Longrightarrow> e < hp_next h" and "alive h e \<Longrightarrow> entry_get re_refCount 0 h e = 1"
    and "alive h e \<Longrightarrow> \<exists>n. path_of h e = SEPARATOR # n"
    and "distinct (leaves_of h e)" and "inj_on (path_of h) (set (leaves_of h e))"
    and "c \<in> set (leaves_of h e) \<Longrightarrow> alive h c"
    and "c \<in> set (leaves_of h e) \<Longrightarrow> parent_entry h c = Some e"
    and "c \<in> set (leaves_of h e) \<Longrightarrow> e < c"
    and "parent_entry h e = Some p \<Longrightarrow> e \<in> set (leaves_of h p)"
    and "alive h e \<Longrightarrow> fullpath_of h e =
        (case parent_entry h e of None \<Rightarrow> path_of h e | Some p \<Rightarrow> fullpath_of h p @ path_of h e)"
  using assms unfolding tree_ok_def by blast+

lemma leaf_owner_alive: "c \<in> set (leaves_of h e) \<Longrightarrow> alive h e"
  by (cases "hp_entries h e") (simp_all add: alive_def entry_get_def)

definition same_tree :: "heap \<Rightarrow> heap \<Rightarrow> bool" where
  "same_tree h h' \<longleftrightarrow> hp_next h' = hp_next h \<and> alive h' = alive h \<and>
     entry_get re_refCount 0 h' = entry_get re_refCount 0 h \<and> path_of h' = path_of h \<and>
     fullpath_of h' = fullpath_of h \<and> parent_entry h' = parent_entry h \<and> leaves_of h' = leaves_of h"

lemma same_tree_refl [intro, simp]: "same_tree h h"
  by (simp add: same_tree_def)

lemma same_tree_trans [trans]: "same_tree h h' \<Longrightarrow> same_tree h' h'' \<Longrightarrow> same_tree h h''"
  by (simp add: same_tree_def)

lemma same_tree_ok: "same_tree h h' \<Longrightarrow> tree_ok h \<Longrightarrow> tree_ok h'"
proof -
  assume "same_tree h h'" and ok: "tree_ok h"
  then have eqs: "hp_next h' = hp_next h" "alive h' = alive h"
     "entry_get re_refCount 0 h' = entry_get re_refCount 0 h" "path_of h' = path_of h"
     "fullpath_of h' = fullpath_of h" "parent_entry h' = parent_entry h" "leaves_of h' = leaves_of h"
    by (simp_all add: same_tree_def)
  show "tree_ok h'"
    using ok unfolding tree_ok_def eqs .
qed

lemma same_tree_entries: "hp_entries h' = hp_entries h \<Longrightarrow> hp_next h' = hp_next h \<Longrightarrow> same_tree h h'"
  by (simp add: same_tree_def entry_get_cong [of h' h] alive_def fun_eq_iff)

lemma same_tree_upd:
  assumes "\<And>r. re_refCount (f r) = re_refCount r" "\<And>r. re_path (f r) = re_path r"
    "\<And>r. re_fullpath (f r) = re_fullpath r" "\<And>r. re_parent (f r) = re_parent r"
    "\<And>r. re_store (f r) = re_store r"
  shows "same_tree h (upd_entry e f h)"
  using assms by (simp add: same_tree_def entry_get_upd upd_fields alive_upd)

lemma setObject_tree: "same_tree h (setObject e p h)"
proof -
  let ?h1 = "with_some (\<lambda>x h. if \<not> is_soft h e then obj_setRegistry (Some e) x (obj_addRef x h)
                               else obj_addRef x h) p h"
  have 1: "hp_entries ?h1 = hp_entries h \<and> hp_next ?h1 = hp_next h"
    by (cases p) (simp_all add: heap_simps)
  have 2: "hp_entries (with_some obj_release q g) = hp_entries g \<and> hp_next (with_some obj_release q g) = hp_next g" for q g
    by (cases q) (simp_all add: heap_simps)
  have "same_tree h (with_some obj_release (object_of ?h1 e) ?h1)"
    using 1 2 by (intro same_tree_entries) simp_all
  also have "same_tree \<dots> (setObject e p h)"
    unfolding setObject_def Let_def by (rule same_tree_upd) simp_all
  finally show ?thesis .
qed

lemma setAddress_tree: "same_tree h (setAddress e p h)"
proof -
  let ?h1 = "with_some (\<lambda>a h. adr_setRegistry (Some e) a (adr_addRef a h)) p h"
  have 1: "hp_entries ?h1 = hp_entries h \<and> hp_next ?h1 = hp_next h"
    by (cases p) (simp_all add: heap_simps)
  have 2: "hp_entries (with_some adr_release q g) = hp_entries g \<and> hp_next (with_some adr_release q g) = hp_next g" for q g
    by (cases q) (simp_all add: heap_simps)
  have "same_tree h (with_some adr_release (address_of ?h1 e) ?h1)"
    using 1 2 by (intro same_tree_entries) simp_all
  also have "same_tree \<dots> (setAddress e p h)"
    unfolding setAddress_def Let_def by (rule same_tree_upd) simp_all
  finally show ?thesis .
qed

lemma set_soft_tree: "same_tree h (set_soft e b h)"
  unfolding set_soft_def by (rule same_tree_upd) simp_all

lemma registry_tree: "same_tree h (with_some (obj_setRegistry p) q h)" "same_tree h (with_some (adr_setRegistry p) q h)"
  by (cases q; simp add: same_tree_entries heap_simps)+

lemma make_tree:
  "same_tree h (makeSoft_object e p h)" "same_tree h (makeHard_object e p h)"
  "same_tree h (makeSoft_address e q h)" "same_tree h (makeHard_address e q h)"
  unfolding makeSoft_object_def makeHard_object_def makeSoft_address_def makeHard_address_def Let_def
  by (rule same_tree_trans [OF set_soft_tree setObject_tree]
        same_tree_trans [OF same_tree_trans [OF same_tree_trans [OF same_tree_trans
          [OF set_soft_tree setObject_tree] set_soft_tree] registry_tree(1)] registry_tree(2)]
        same_tree_trans [OF set_soft_tree setAddress_tree])+

section \<open>Adding an entry\<close>

lemma entry_get_put:
  "alive h e \<Longrightarrow> (\<And>r. sel (f r) = g (sel r)) \<Longrightarrow>
   entry_get sel d (upd_entry e f h) = (entry_get sel d h)(e := g (entry_get sel d h e))"
  by (auto simp: entry_get_def fun_eq_iff upd_entry_def alive_def split: option.splits)

lemma assemblePath_agree:
  assumes ok: "tree_ok h"
    and agree: "\<And>x. alive h x \<Longrightarrow> parent_entry h' x = parent_entry h x \<and> path_of h' x = path_of h x"
  shows "alive h e \<Longrightarrow> e < fuel \<Longrightarrow> assemblePath fuel h' e = fullpath_of h e"
proof (induction fuel arbitrary: e)
  case (Suc fuel)
  note full = tree_okD(10) [OF ok Suc.prems(1)]
  show ?case
  proof (cases "parent_entry h e")
    case None
    with full agree [OF Suc.prems(1)] show ?thesis by simp
  next
    case (Some p)
    note leaf = tree_okD(9) [OF ok Some]
    have "alive h p" "p < fuel"
      using leaf_owner_alive [OF leaf] tree_okD(8) [OF ok leaf] Suc.prems(2) by simp_all
    from Suc.IH [OF this] Some full agree [OF Suc.prems(1)] show ?thesis by simp
  qed
qed simp

definition one_segment :: "string \<Rightarrow> bool" where
  "one_segment p \<longleftrightarrow> p \<noteq> [] \<and> SEPARATOR \<notin> set (strip_sep p)"

lemma lead_strip: "p \<noteq> [] \<Longrightarrow> lead_sep p = SEPARATOR # strip_sep p"
  by (cases p) (auto simp: lead_sep_def strip_sep_def)

lemma takeWhile_sep: "SEPARATOR \<notin> set n \<Longrightarrow> takeWhile (\<lambda>c. c \<noteq> SEPARATOR) (n @ [SEPARATOR]) = n"
  by (induction n) auto

lemma entry_name_segment: "one_segment p \<Longrightarrow> entry_name (lead_sep p) = lead_sep p"
  using takeWhile_sep [of "rev (strip_sep p)"]
  by (simp add: one_segment_def lead_strip entry_name_def last_sep_def) (simp add: strip_sep_def)

lemma new_entry_shape:
  assumes ok: "tree_ok h" and e: "alive h e" and nam: "one_segment p"
  shows "fst (new_entry (lead_sep p) (Some e) h) = hp_next h"
    and "hp_next (snd (new_entry (lead_sep p) (Some e) h)) = Suc (hp_next h)"
    and "hp_entries (snd (new_entry (lead_sep p) (Some e) h)) = (hp_entries h)(hp_next h \<mapsto>
      \<lparr>re_refCount = 1, re_isSoft = False, re_fullpath = fullpath_of h e @ lead_sep p,
       re_path = lead_sep p, re_parent = Some e, re_address = None, re_object = None,
       re_dataSvc = False, re_store = []\<rparr>)"
    and "hp_objects (snd (new_entry (lead_sep p) (Some e) h)) = hp_objects h"
    and "hp_addresses (snd (new_entry (lead_sep p) (Some e) h)) = hp_addresses h"
    and "hp_nextObject (snd (new_entry (lead_sep p) (Some e) h)) = hp_nextObject h"
proof -
  let ?c = "hp_next h"
  let ?r = "\<lparr>re_refCount = 0, re_isSoft = False, re_fullpath = [], re_path = lead_sep p,
     re_parent = Some e, re_address = None, re_object = None, re_dataSvc = False, re_store = []\<rparr>"
  let ?h = "h\<lparr>hp_entries := (hp_entries h)(?c \<mapsto> ?r), hp_next := Suc ?c\<rparr>"
  have "\<not> alive h ?c" using tree_okD(1) [OF ok, of ?c] by blast
  then have "assemblePath ?c ?h e = fullpath_of h e"
    using tree_okD(1) [OF ok e]
    by (intro assemblePath_agree [OF ok _ e]) (auto simp: entry_get_def)
  then have path: "assemblePath (Suc ?c) ?h ?c = fullpath_of h e @ lead_sep p"
    by (simp add: entry_get_def)
  show "fst (new_entry (lead_sep p) (Some e) h) = hp_next h"
    and "hp_next (snd (new_entry (lead_sep p) (Some e) h)) = Suc (hp_next h)"
    and "hp_entries (snd (new_entry (lead_sep p) (Some e) h)) = (hp_entries h)(hp_next h \<mapsto>
      \<lparr>re_refCount = 1, re_isSoft = False, re_fullpath = fullpath_of h e @ lead_sep p,
       re_path = lead_sep p, re_parent = Some e, re_address = None, re_object = None,
       re_dataSvc = False, re_store = []\<rparr>)"
    and "hp_objects (snd (new_entry (lead_sep p) (Some e) h)) = hp_objects h"
    and "hp_addresses (snd (new_entry (lead_sep p) (Some e) h)) = hp_addresses h"
    and "hp_nextObject (snd (new_entry (lead_sep p) (Some e) h)) = hp_nextObject h"
    by (simp_all add: new_entry_def Let_def entry_name_segment [OF nam] heap_simps path del: assemblePath.simps)
qed

definition grown :: "heap \<Rightarrow> entry_id \<Rightarrow> string \<Rightarrow> heap \<Rightarrow> bool" where
  "grown h e nam h' \<longleftrightarrow>
     (let c = hp_next h
      in hp_next h' = Suc c \<and> alive h' = (alive h)(c := True) \<and>
         entry_get re_refCount 0 h' = (entry_get re_refCount 0 h)(c := 1) \<and>
         path_of h' = (path_of h)(c := nam) \<and>
         fullpath_of h' = (fullpath_of h)(c := fullpath_of h e @ nam) \<and>
         parent_entry h' = (parent_entry h)(c := Some e) \<and>
         leaves_of h' = (leaves_of h)(e := leaves_of h e @ [c]))"

lemma grown_ok:
  assumes ok: "tree_ok h" and g: "grown h e nam h'" and e: "alive h e"
    and nam: "nam = SEPARATOR # n" and new: "nam \<notin> path_of h ` set (leaves_of h e)"
  shows "tree_ok h'"
proof -
  let ?c = "hp_next h"
  have f: "hp_next h' = Suc ?c" "alive h' = (alive h)(?c := True)"
    "entry_get re_refCount 0 h' = (entry_get re_refCount 0 h)(?c := 1)"
    "path_of h' = (path_of h)(?c := nam)"
    "fullpath_of h' = (fullpath_of h)(?c := fullpath_of h e @ nam)"
    "parent_entry h' = (parent_entry h)(?c := Some e)"
    "leaves_of h' = (leaves_of h)(e := leaves_of h e @ [?c])"
    using g by (simp_all add: grown_def Let_def)
  have dead: "\<not> alive h ?c" using tree_okD(1) [OF ok, of ?c] by blast
  have ec: "e < ?c" using tree_okD(1) [OF ok e] .
  have nc: "?c \<notin> set (leaves_of h x)" for x using tree_okD(6) [OF ok] dead by blast
  have np: "parent_entry h x \<noteq> Some ?c" for x
    using tree_okD(9) [OF ok] leaf_owner_alive dead by blast
  have nl: "leaves_of h ?c = []" using dead by (simp add: alive_def entry_get_def)
  have low: "x < ?c" if "x \<in> set (leaves_of h y)" for x y
    using tree_okD(1) [OF ok tree_okD(6) [OF ok that]] .
  have inj: "inj_on ((path_of h)(?c := nam)) (set (leaves_of h x))" for x
    using tree_okD(5) [OF ok, of x] nc [of x] by (auto simp: inj_on_def)
  show ?thesis
    unfolding tree_ok_def f
  proof (intro conjI allI impI)
    fix x
    show "x < Suc ?c" if "((alive h)(?c := True)) x"
      using that tree_okD(1) [OF ok, of x] by (auto split: if_splits)
    show "((entry_get re_refCount 0 h)(?c := 1)) x = 1" if "((alive h)(?c := True)) x"
      using that tree_okD(2) [OF ok, of x] by (auto split: if_splits)
    show "\<exists>n. ((path_of h)(?c := nam)) x = SEPARATOR # n" if "((alive h)(?c := True)) x"
      using that tree_okD(3) [OF ok, of x] nam by (auto split: if_splits)
    show "distinct (((leaves_of h)(e := leaves_of h e @ [?c])) x)"
      using tree_okD(4) [OF ok] nc by simp
    show "inj_on ((path_of h)(?c := nam)) (set (((leaves_of h)(e := leaves_of h e @ [?c])) x))"
      using inj [of x] new nc [of e] by (auto simp: inj_on_insert)
    show "((fullpath_of h)(?c := fullpath_of h e @ nam)) x =
        (case ((parent_entry h)(?c := Some e)) x of None \<Rightarrow> ((path_of h)(?c := nam)) x
         | Some p \<Rightarrow> ((fullpath_of h)(?c := fullpath_of h e @ nam)) p @ ((path_of h)(?c := nam)) x)"
      if "((alive h)(?c := True)) x"
      using that tree_okD(10) [OF ok, of x] np [of x] ec by (auto split: if_splits option.splits)
    fix y
    show "((alive h)(?c := True)) y" "((parent_entry h)(?c := Some e)) y = Some x" "x < y"
      if "y \<in> set (((leaves_of h)(e := leaves_of h e @ [?c])) x)"
      using that tree_okD(6,7,8) [OF ok, of y x] nc [of x] ec by (auto split: if_splits)
    show "x \<in> set (((leaves_of h)(e := leaves_of h e @ [?c])) y)"
      if "((parent_entry h)(?c := Some e)) x = Some y"
      using that tree_okD(9) [OF ok, of x y] by (auto split: if_splits)
  qed
qed

lemma new_entry_funs:
  assumes ok: "tree_ok h" and e: "alive h e" and nam: "one_segment p"
    and same: "same_tree (snd (new_entry (lead_sep p) (Some e) h)) h2"
  shows "hp_next h2 = Suc (hp_next h)" "alive h2 = (alive h)(hp_next h := True)"
    "entry_get re_refCount 0 h2 = (entry_get re_refCount 0 h)(hp_next h := 1)"
    "path_of h2 = (path_of h)(hp_next h := lead_sep p)"
    "fullpath_of h2 = (fullpath_of h)(hp_next h := fullpath_of h e @ lead_sep p)"
    "parent_entry h2 = (parent_entry h)(hp_next h := Some e)"
    "leaves_of h2 = (leaves_of h)(hp_next h := [])"
  using same
  by (simp_all add: same_tree_def new_entry_shape [OF ok e nam] entry_get_def alive_def fun_eq_iff)

lemma setParent_funs:
  assumes "alive h c"
  shows "hp_next (setParent c p h) = hp_next h" "alive (setParent c p h) = alive h"
    "entry_get re_refCount 0 (setParent c p h) = entry_get re_refCount 0 h"
    "path_of (setParent c p h) = path_of h" "leaves_of (setParent c p h) = leaves_of h"
    "parent_entry (setParent c p h) = (parent_entry h)(c := p)"
    "fullpath_of (setParent c p h) = (fullpath_of h)(c :=
       assemblePath (hp_next h) (upd_entry c (\<lambda>r. r\<lparr>re_parent := p, re_fullpath := []\<rparr>) h) c)"
  using assms
  by (simp_all add: setParent_def Let_def upd_fields alive_upd entry_get_upd
      entry_get_put [where g = "\<lambda>_. p"] entry_get_put [where g = "\<lambda>_. []"]
      entry_get_put [where g = "\<lambda>_. assemblePath (hp_next h) (upd_entry c (\<lambda>r. r\<lparr>re_parent := p, re_fullpath := []\<rparr>) h) c"])

lemma i_add_grown:
  assumes ok: "tree_ok h" and e: "alive h e" and nam: "one_segment p"
    and same: "same_tree (snd (new_entry (lead_sep p) (Some e) h)) h2"
  shows "grown h e (lead_sep p) (i_add e (hp_next h) h2)"
proof -
  let ?c = "hp_next h"
  define h3 where "h3 = upd_entry ?c (\<lambda>r. r\<lparr>re_dataSvc := entry_get re_dataSvc False h2 e\<rparr>) h2"
  define h4 where "h4 = upd_entry e (\<lambda>r. r\<lparr>re_store := re_store r @ [?c]\<rparr>) h3"
  define h6 where "h6 = setParent ?c (Some e) h4"
  have ne: "e \<noteq> ?c" and dead: "\<not> alive h ?c" using tree_okD(1) [OF ok e] tree_okD(1) [OF ok, of ?c] by auto
  have none: "leaves_of h ?c = []" using dead by (simp add: alive_def entry_get_def)
  have "same_tree h2 h3" unfolding h3_def by (rule same_tree_upd) simp_all
  with same have "same_tree (snd (new_entry (lead_sep p) (Some e) h)) h3" by (rule same_tree_trans)
  note f3 = new_entry_funs [OF ok e nam this]
  have e3: "alive h3 e" using e by (simp add: f3(2))
  have leaf4: "leaves_of h4 = (leaves_of h3)(e := leaves_of h3 e @ [?c])"
    unfolding h4_def using e3 by (rule entry_get_put) simp
  note f4 = alive_upd [of e "\<lambda>r. r\<lparr>re_store := re_store r @ [?c]\<rparr>" h3, folded h4_def]
    upd_fields(1) [of e "\<lambda>r. r\<lparr>re_store := re_store r @ [?c]\<rparr>" h3, folded h4_def]
    leaf4 entry_get_upd [of _ "\<lambda>r. r\<lparr>re_store := re_store r @ [?c]\<rparr>" _ e h3, folded h4_def]
  have c4: "alive h4 ?c" by (simp add: f4 f3)
  let ?h5 = "upd_entry ?c (\<lambda>r. r\<lparr>re_parent := Some e, re_fullpath := []\<rparr>) h4"
  have p5: "parent_entry ?h5 = (parent_entry h4)(?c := Some e)"
    using c4 by (rule entry_get_put) simp
  have q5: "path_of ?h5 = path_of h4" by (rule entry_get_upd) simp
  have "assemblePath ?c ?h5 e = fullpath_of h e"
    using tree_okD(1) [OF ok e] dead by (intro assemblePath_agree [OF ok _ e]) (auto simp: p5 q5 f4 f3)
  then have full: "assemblePath (Suc ?c) ?h5 ?c = fullpath_of h e @ lead_sep p"
    by (simp add: p5 q5 f4 f3)
  have "grown h e (lead_sep p) h6"
    unfolding grown_def Let_def h6_def setParent_funs [OF c4]
    using ne full none by (simp add: f4 f3) (simp add: fun_eq_iff)
  moreover have "same_tree h6 (i_add e ?c h2)"
    by (simp add: i_add_def Let_def h3_def [symmetric] h4_def [symmetric] h6_def [symmetric] registry_tree)
  ultimately show ?thesis by (simp add: grown_def same_tree_def Let_def)
qed

lemma i_create_cases:
  "i_create e p h = (if lead_sep p \<in> path_of h ` set (leaves_of h e) then (None, h)
     else map_prod Some id (new_entry (lead_sep p) (Some e) h))"
  by (auto simp: i_create_def Let_def list_all_iff)

lemma add_grown:
  assumes "tree_ok h" "alive h e" "one_segment p"
  shows "fst (add_object e p x s h) \<longleftrightarrow> lead_sep p \<notin> path_of h ` set (leaves_of h e)"
    and "fst (add_object e p x s h) \<Longrightarrow> grown h e (lead_sep p) (snd (add_object e p x s h))"
    and "\<not> fst (add_object e p x s h) \<Longrightarrow> snd (add_object e p x s h) = h"
    and "fst (add_address e p a s h) \<longleftrightarrow> lead_sep p \<notin> path_of h ` set (leaves_of h e)"
    and "fst (add_address e p a s h) \<Longrightarrow> grown h e (lead_sep p) (snd (add_address e p a s h))"
    and "\<not> fst (add_address e p a s h) \<Longrightarrow> snd (add_address e p a s h) = h"
  using new_entry_shape(1) [OF assms] i_add_grown [OF assms] make_tree
  by (auto simp: add_object_def add_address_def i_create_cases case_prod_beta)

lemma add_tree:
  assumes "tree_ok h" "alive h e" "one_segment p"
  shows "tree_ok (snd (add_object e p x s h))" "tree_ok (snd (add_address e p a s h))"
proof -
  have n: "lead_sep p = SEPARATOR # strip_sep p" using assms(3) by (simp add: one_segment_def lead_strip)
  show "tree_ok (snd (add_object e p x s h))"
    using add_grown(1-3) [OF assms] grown_ok [OF assms(1) _ assms(2) n] assms(1)
    by (cases "fst (add_object e p x s h)") auto
  show "tree_ok (snd (add_address e p a s h))"
    using add_grown(4-6) [OF assms] grown_ok [OF assms(1) _ assms(2) n] assms(1)
    by (cases "fst (add_address e p a s h)") auto
qed

section \<open>Deleting a subtree\<close>

definition child_rel :: "heap \<Rightarrow> (entry_id \<times> entry_id) set" where
  "child_rel h = {(a, b). b \<in> set (leaves_of h a)}"

definition below :: "heap \<Rightarrow> entry_id \<Rightarrow> entry_id set" where
  "below h e = {x. (e, x) \<in> (child_rel h)\<^sup>*}"

definition strictly_below :: "heap \<Rightarrow> entry_id \<Rightarrow> entry_id set" where
  "strictly_below h e = (\<Union>c \<in> set (leaves_of h e). below h c)"

lemma below_refl [simp]: "e \<in> below h e"
  by (simp add: below_def)

lemma below_split: "below h e = insert e (strictly_below h e)"
proof -
  have "x \<in> insert e (strictly_below h e)" if "(e, x) \<in> (child_rel h)\<^sup>*" for x
    using that by (cases rule: converse_rtranclE) (auto simp: strictly_below_def below_def child_rel_def)
  moreover have "(e, x) \<in> (child_rel h)\<^sup>*" if "c \<in> set (leaves_of h e)" "(c, x) \<in> (child_rel h)\<^sup>*" for c x
    using that by (auto simp: child_rel_def intro: converse_rtrancl_into_rtrancl)
  ultimately show ?thesis by (auto simp: strictly_below_def below_def)
qed

lemma below_leaf: "x \<in> below h e \<Longrightarrow> c \<in> set (leaves_of h x) \<Longrightarrow> c \<in> below h e"
  by (auto simp: below_def child_rel_def intro: rtrancl_into_rtrancl)

lemma below_ge: "tree_ok h \<Longrightarrow> x \<in> below h e \<Longrightarrow> e \<le> x"
proof -
  assume ok: "tree_ok h" and "x \<in> below h e"
  then have "(e, x) \<in> (child_rel h)\<^sup>*" by (simp add: below_def)
  then show "e \<le> x"
    by (induction rule: rtrancl_induct)
       (auto simp: child_rel_def dest!: tree_okD(8) [OF ok] intro: order_trans less_imp_le)
qed

lemma leaf_owner_unique:
  assumes "tree_ok h" "x \<in> set (leaves_of h y)" "x \<in> set (leaves_of h p)"
  shows "y = p"
  using tree_okD(7) [OF assms(1,2)] tree_okD(7) [OF assms(1,3)] by simp

lemma below_parent:
  assumes ok: "tree_ok h" and "x \<in> below h c" "x \<noteq> c" "x \<in> set (leaves_of h p)"
  shows "p \<in> below h c"
proof -
  have "(c, x) \<in> (child_rel h)\<^sup>*" using assms(2) by (simp add: below_def)
  then obtain y where "(c, y) \<in> (child_rel h)\<^sup>*" "x \<in> set (leaves_of h y)"
    using assms(3) by (cases rule: rtranclE) (auto simp: child_rel_def)
  moreover from this(2) assms(4) have "y = p" by (rule leaf_owner_unique [OF ok])
  ultimately show ?thesis by (simp add: below_def)
qed

lemma below_alive:
  assumes ok: "tree_ok h" and "x \<in> below h e" "alive h e"
  shows "alive h x"
proof -
  have "(e, x) \<in> (child_rel h)\<^sup>*" using assms(2) by (simp add: below_def)
  then show ?thesis
    using assms(3) by (cases rule: rtranclE) (auto simp: child_rel_def tree_okD(6) [OF ok])
qed

lemma leaf_not_below:
  assumes ok: "tree_ok h" and "c \<in> set (leaves_of h e)"
  shows "e \<notin> below h c"
  using below_ge [OF ok] tree_okD(8) [OF ok assms(2)] by force

lemma subtrees_disjoint:
  assumes ok: "tree_ok h" and c: "c \<in> set (leaves_of h e)" and d: "d \<in> set (leaves_of h e)"
    and x: "x \<in> below h c" "x \<in> below h d"
  shows "c = d"
proof -
  have "(c, x) \<in> (child_rel h)\<^sup>*" using x(1) by (simp add: below_def)
  then show ?thesis using x(2)
  proof (induction rule: rtrancl_induct)
    case base
    show ?case
      using below_parent [OF ok base _ c] leaf_not_below [OF ok d] by blast
  next
    case (step y z)
    then have yz: "z \<in> set (leaves_of h y)" and cy: "y \<in> below h c"
      by (simp_all add: child_rel_def below_def)
    show ?case
    proof (cases "z = d")
      case True
      with yz d have "y = e" using leaf_owner_unique [OF ok] by blast
      with cy leaf_not_below [OF ok c] show ?thesis by blast
    next
      case False
      with below_parent [OF ok step.prems False yz] step.IH show ?thesis by blast
    qed
  qed
qed

lemma free_entries [heap_simps]:
  "hp_entries (free_entry e h) = (hp_entries h)(e := None)" "hp_next (free_entry e h) = hp_next h"
  "hp_nextObject (free_entry e h) = hp_nextObject h"
proof -
  have 1: "hp_entries (with_some (\<lambda>x h. obj_release x (if is_soft h e then h else obj_setRegistry None x h)) p g) = hp_entries g
      \<and> hp_next (with_some (\<lambda>x h. obj_release x (if is_soft h e then h else obj_setRegistry None x h)) p g) = hp_next g
      \<and> hp_nextObject (with_some (\<lambda>x h. obj_release x (if is_soft h e then h else obj_setRegistry None x h)) p g) = hp_nextObject g" for p g
    by (cases p) (simp_all add: heap_simps)
  have 2: "hp_entries (with_some (\<lambda>x h. adr_release x (if is_soft h e then h else adr_setRegistry None x h)) p g) = hp_entries g
      \<and> hp_next (with_some (\<lambda>x h. adr_release x (if is_soft h e then h else adr_setRegistry None x h)) p g) = hp_next g
      \<and> hp_nextObject (with_some (\<lambda>x h. adr_release x (if is_soft h e then h else adr_setRegistry None x h)) p g) = hp_nextObject g" for p g
    by (cases p) (simp_all add: heap_simps)
  show "hp_entries (free_entry e h) = (hp_entries h)(e := None)" "hp_next (free_entry e h) = hp_next h"
    "hp_nextObject (free_entry e h) = hp_nextObject h"
    by (simp_all add: free_entry_def Let_def 1 2)
qed

lemma empty_delete:
  "leaves_of h e = [] \<Longrightarrow> hp_next (deleteElements fuel e h) = hp_next h \<and>
   (\<forall>x. x \<noteq> e \<longrightarrow> hp_entries (deleteElements fuel e h) x = hp_entries h x)"
  by (cases fuel) (simp_all add: heap_simps)

lemma release_entries:
  assumes "leaves_of h c = []" and "entry_get re_refCount 0 h c = 1" and "0 < fuel"
  shows "hp_entries (entry_release fuel c h) = (hp_entries h)(c := None)
    \<and> hp_next (entry_release fuel c h) = hp_next h"
proof -
  obtain f where f: "fuel = Suc f" using assms(3) by (cases fuel) auto
  let ?h = "upd_entry c (\<lambda>r. r\<lparr>re_refCount := re_refCount r - 1\<rparr>) h"
  have c: "alive h c" using assms(2) by (auto simp: alive_def entry_get_def split: option.splits)
  have "leaves_of ?h c = []" using assms(1) by (simp add: entry_get_upd)
  from empty_delete [OF this, of f] have
    "hp_next (deleteElements f c ?h) = hp_next h"
    "\<And>x. x \<noteq> c \<Longrightarrow> hp_entries (deleteElements f c ?h) x = hp_entries h x"
    by (simp_all add: heap_simps)
  moreover have "entry_get re_refCount 0 ?h c = 0"
    using assms(2) by (simp add: entry_get_put [OF c, where g = "\<lambda>n. n - 1"])
  ultimately show ?thesis by (auto simp: f Let_def heap_simps fun_eq_iff)
qed

lemma refCount_entry: "hp_entries t x = hp_entries s x \<Longrightarrow> entry_get f d t x = entry_get f d s x"
  by (simp add: entry_get_def)

lemma delete_leaves:
  assumes ok: "tree_ok s"
    and step: "\<And>c t. c \<in> set (leaves_of s e) \<Longrightarrow> \<forall>x \<in> below s c. hp_entries t x = hp_entries s x \<Longrightarrow>
      hp_entries (step c t) = (\<lambda>x. if x \<in> below s c then None else hp_entries t x) \<and>
      hp_next (step c t) = hp_next t"
  shows "distinct cs \<Longrightarrow> set cs \<subseteq> set (leaves_of s e) \<Longrightarrow>
    \<forall>c \<in> set cs. \<forall>x \<in> below s c. hp_entries t x = hp_entries s x \<Longrightarrow>
    hp_entries (fold step cs t) = (\<lambda>x. if \<exists>c \<in> set cs. x \<in> below s c then None else hp_entries t x) \<and>
    hp_next (fold step cs t) = hp_next t"
proof (induction cs arbitrary: t)
  case (Cons c cs)
  have c: "c \<in> set (leaves_of s e)" using Cons.prems(2) by simp
  have s: "hp_entries (step c t) = (\<lambda>x. if x \<in> below s c then None else hp_entries t x)"
    "hp_next (step c t) = hp_next t"
    using step [OF c, of t] Cons.prems(3) by simp_all
  have apart: "x \<notin> below s c" if "d \<in> set cs" "x \<in> below s d" for d x
    using subtrees_disjoint [OF ok c, of d x] that Cons.prems(1,2) by auto
  have "hp_entries (fold step cs (step c t)) =
      (\<lambda>x. if \<exists>c \<in> set cs. x \<in> below s c then None else hp_entries (step c t) x) \<and>
      hp_next (fold step cs (step c t)) = hp_next (step c t)"
    using Cons.prems apart s by (intro Cons.IH) auto
  then show ?case using s by (auto simp: fun_eq_iff)
qed simp

lemma deleteElements_entries:
  assumes ok: "tree_ok s"
  shows "alive s e \<Longrightarrow> hp_next s < fuel + e \<Longrightarrow> leaves_of t e = leaves_of s e \<Longrightarrow>
    \<forall>x \<in> strictly_below s e. hp_entries t x = hp_entries s x \<Longrightarrow>
    hp_entries (deleteElements fuel e t) =
      (\<lambda>x. if x \<in> strictly_below s e then None
           else if x = e then map_option (\<lambda>r. r\<lparr>re_store := []\<rparr>) (hp_entries t e) else hp_entries t x) \<and>
    hp_next (deleteElements fuel e t) = hp_next t"
proof (induction fuel arbitrary: e t)
  case 0
  then show ?case using tree_okD(1) [OF ok 0(1)] by simp
next
  case (Suc fuel)
  let ?step = "\<lambda>c h. entry_release fuel c (deleteElements fuel c h)"
  have step: "hp_entries (?step c u) = (\<lambda>x. if x \<in> below s c then None else hp_entries u x) \<and>
      hp_next (?step c u) = hp_next u"
    if c: "c \<in> set (leaves_of s e)" and u: "\<forall>x \<in> below s c. hp_entries u x = hp_entries s x" for c u
  proof -
    have alive: "alive s c" and ec: "e < c" using tree_okD(6,8) [OF ok c] by simp_all
    have cu: "hp_entries u c = hp_entries s c" using u by simp
    have fuel: "hp_next s < fuel + c" using Suc.prems(2) ec by simp
    have nb: "c \<notin> strictly_below s c"
      using below_ge [OF ok] tree_okD(8) [OF ok] unfolding strictly_below_def by force
    have d: "hp_entries (deleteElements fuel c u) =
      (\<lambda>x. if x \<in> strictly_below s c then None
           else if x = c then map_option (\<lambda>r. r\<lparr>re_store := []\<rparr>) (hp_entries u c) else hp_entries u x)"
      "hp_next (deleteElements fuel c u) = hp_next u"
      using Suc.IH [OF alive fuel refCount_entry [OF cu]] u below_split [of s c] by auto
    have at: "hp_entries (deleteElements fuel c u) c = map_option (\<lambda>r. r\<lparr>re_store := []\<rparr>) (hp_entries s c)"
      using nb cu by (simp add: d)
    have "leaves_of (deleteElements fuel c u) c = []"
      using at by (simp add: entry_get_def split: option.splits)
    moreover have "entry_get re_refCount 0 (deleteElements fuel c u) c = 1"
      using at tree_okD(2) [OF ok alive] by (simp add: entry_get_def split: option.splits)
    moreover have "0 < fuel" using fuel tree_okD(1) [OF ok alive] by simp
    ultimately show ?thesis
      using release_entries [of "deleteElements fuel c u" c fuel] d below_split [of s c]
      by (auto simp: fun_eq_iff)
  qed
  have "hp_entries (fold ?step (leaves_of s e) t) =
      (\<lambda>x. if \<exists>c \<in> set (leaves_of s e). x \<in> below s c then None else hp_entries t x) \<and>
      hp_next (fold ?step (leaves_of s e) t) = hp_next t"
    using Suc.prems(4) tree_okD(4) [OF ok]
    by (intro delete_leaves [OF ok, of e ?step "leaves_of s e" t] step) (auto simp: strictly_below_def)
  moreover have "e \<notin> strictly_below s e"
    using leaf_not_below [OF ok] by (auto simp: strictly_below_def)
  ultimately show ?case using Suc.prems(3)
    by (auto simp: heap_simps fun_eq_iff strictly_below_def)
qed

text \<open>Removing an entry removes its subtree and its place among the leaves.\<close>

lemma remove_entries:
  assumes ok: "tree_ok h" and c: "c \<in> set (leaves_of h e)"
  shows "hp_entries (remove_entry e c h) =
      (\<lambda>x. if x \<in> below h c then None
           else if x = e then map_option (\<lambda>r. r\<lparr>re_store := removeAll c (re_store r)\<rparr>) (hp_entries h e)
           else hp_entries h x)
    \<and> hp_next (remove_entry e c h) = hp_next h"
proof -
  let ?h1 = "upd_entry c (\<lambda>r. r\<lparr>re_refCount := re_refCount r - 1\<rparr>) h"
  let ?h2 = "deleteElements (Suc (hp_next h)) c ?h1"
  have alive: "alive h c" using tree_okD(6) [OF ok c] .
  have nb: "c \<notin> strictly_below h c"
    using below_ge [OF ok] tree_okD(8) [OF ok] unfolding strictly_below_def by force
  have "hp_entries ?h2 = (\<lambda>x. if x \<in> strictly_below h c then None
      else if x = c then map_option (\<lambda>r. r\<lparr>re_store := []\<rparr>) (hp_entries ?h1 c) else hp_entries ?h1 x) \<and>
      hp_next ?h2 = hp_next ?h1"
    using nb by (intro deleteElements_entries [OF ok alive]) (auto simp: entry_get_upd heap_simps)
  moreover have "entry_get re_refCount 0 ?h1 c = 0"
    using tree_okD(2) [OF ok alive] by (simp add: entry_get_put [OF alive, where g = "\<lambda>n. n - 1"])
  ultimately have "hp_entries (entry_release (depth_fuel h) c h) =
      (\<lambda>x. if x \<in> below h c then None else hp_entries h x)"
    "hp_next (entry_release (depth_fuel h) c h) = hp_next h"
    using below_split [of h c]
    by (auto simp: depth_fuel_def heap_simps fun_eq_iff simp del: deleteElements.simps)
  then show ?thesis
    using c leaf_not_below [OF ok c] by (auto simp: remove_entry_def heap_simps fun_eq_iff)
qed

lemma remove_funs:
  assumes "tree_ok h" and "c \<in> set (leaves_of h e)"
  shows "hp_next (remove_entry e c h) = hp_next h"
    "alive (remove_entry e c h) x \<longleftrightarrow> alive h x \<and> x \<notin> below h c"
    "leaves_of (remove_entry e c h) x = (if x \<in> below h c then [] else if x = e then removeAll c (leaves_of h e) else leaves_of h x)"
    "x \<notin> below h c \<Longrightarrow> path_of (remove_entry e c h) x = path_of h x"
    "x \<notin> below h c \<Longrightarrow> fullpath_of (remove_entry e c h) x = fullpath_of h x"
    "x \<notin> below h c \<Longrightarrow> entry_get re_refCount 0 (remove_entry e c h) x = entry_get re_refCount 0 h x"
    "parent_entry (remove_entry e c h) x = (if x \<in> below h c then None else parent_entry h x)"
    "object_of (remove_entry e c h) x = (if x \<in> below h c then None else object_of h x)"
    "is_soft (remove_entry e c h) x = (if x \<in> below h c then False else is_soft h x)"
  using remove_entries [OF assms]
  by (auto simp: alive_def entry_get_def split: option.splits)

lemma remove_tree:
  assumes ok: "tree_ok h" and c: "c \<in> set (leaves_of h e)"
  shows "tree_ok (remove_entry e c h)"
proof -
  note f = remove_funs [OF ok c]
  have up: "p \<notin> below h c" if "x \<in> set (leaves_of h p)" "x \<notin> below h c" for x p
    using below_leaf that by blast
  have down: "x \<notin> below h c" if "x \<in> set (leaves_of h p)" "p \<notin> below h c" "x \<noteq> c" for x p
    using below_parent [OF ok] that by blast
  have owner: "p = e" if "c \<in> set (leaves_of h p)" for p
    using leaf_owner_unique [OF ok that c] .
  have leaves: "x \<notin> below h c \<and> x \<in> set (leaves_of h p) \<and> p \<notin> below h c"
    if "x \<in> set (leaves_of (remove_entry e c h) p)" for x p
  proof -
    from that have p: "p \<notin> below h c" by (auto simp: f(3))
    with that have x: "x \<in> set (leaves_of h p)" by (auto simp: f(3) split: if_splits)
    have "x \<noteq> c"
    proof
      assume "x = c"
      with x owner have "p = e" by blast
      with that p \<open>x = c\<close> show False by (simp add: f(3))
    qed
    with down [OF x p] x p show ?thesis by blast
  qed
  have inj: "inj_on (path_of (remove_entry e c h)) (set (leaves_of (remove_entry e c h) p))" for p
  proof (rule inj_onI)
    fix x y assume x: "x \<in> set (leaves_of (remove_entry e c h) p)"
      and y: "y \<in> set (leaves_of (remove_entry e c h) p)"
      and eq: "path_of (remove_entry e c h) x = path_of (remove_entry e c h) y"
    note x = leaves [OF x] and y = leaves [OF y]
    from eq x y have "path_of h x = path_of h y" by (simp add: f(4))
    then show "x = y" using x y by (intro inj_onD [OF tree_okD(5) [OF ok, of p]]) simp_all
  qed
  show ?thesis
    unfolding tree_ok_def
  proof (intro conjI allI impI)
    fix x
    show "x < hp_next (remove_entry e c h)" if "alive (remove_entry e c h) x"
      using that tree_okD(1) [OF ok] by (simp add: f)
    show "entry_get re_refCount 0 (remove_entry e c h) x = 1" if "alive (remove_entry e c h) x"
      using that tree_okD(2) [OF ok] by (simp add: f)
    show "\<exists>n. path_of (remove_entry e c h) x = SEPARATOR # n" if "alive (remove_entry e c h) x"
      using that tree_okD(3) [OF ok] by (simp add: f)
    show "distinct (leaves_of (remove_entry e c h) x)"
      using tree_okD(4) [OF ok] by (simp add: f distinct_removeAll)
    show "inj_on (path_of (remove_entry e c h)) (set (leaves_of (remove_entry e c h) x))" by (rule inj)
    show "fullpath_of (remove_entry e c h) x = (case parent_entry (remove_entry e c h) x of
        None \<Rightarrow> path_of (remove_entry e c h) x
      | Some p \<Rightarrow> fullpath_of (remove_entry e c h) p @ path_of (remove_entry e c h) x)"
      if "alive (remove_entry e c h) x"
      using that tree_okD(10) [OF ok, of x] up [OF tree_okD(9) [OF ok, of x]]
      by (auto simp: f split: option.splits)
    fix y
    show "alive (remove_entry e c h) y" "parent_entry (remove_entry e c h) y = Some x" "x < y"
      if "y \<in> set (leaves_of (remove_entry e c h) x)"
      using leaves [OF that] tree_okD(6,7,8) [OF ok, of y x] by (simp_all add: f)
    show "x \<in> set (leaves_of (remove_entry e c h) y)" if "parent_entry (remove_entry e c h) x = Some y"
      using that up [OF tree_okD(9) [OF ok, of x y]] tree_okD(9) [OF ok, of x y]
      by (auto simp: f split: if_splits)
  qed
qed

lemma remove_entry_absent: "c \<notin> set (leaves_of h e) \<Longrightarrow> remove_entry e c h = h"
  by (simp add: remove_entry_def)

lemma remove_tree_any: "tree_ok h \<Longrightarrow> tree_ok (remove_entry e c h)"
  by (cases "c \<in> set (leaves_of h e)") (simp_all add: remove_tree remove_entry_absent)

lemma remove_name_tree: "tree_ok h \<Longrightarrow> tree_ok (snd (remove_name e n h))"
  by (simp add: remove_name_def remove_tree_any split: option.splits)

section \<open>Objects and addresses are held\<close>

text \<open>
  \<open>get\<close> says what each entry holds and \<open>cells\<close> what is alive: whatever is held is alive, with a
  reference for every holder.
\<close>

definition holders :: "(entry_id \<Rightarrow> nat option) \<Rightarrow> nat \<Rightarrow> entry_id set" where
  "holders get x = {e. get e = Some x}"

definition counts_ok :: "(entry_id \<Rightarrow> nat option) \<Rightarrow> (nat \<Rightarrow> counted option) \<Rightarrow> bool" where
  "counts_ok get cells \<longleftrightarrow> finite (dom get) \<and>
     (\<forall>e x. get e = Some x \<longrightarrow> (\<exists>k. cells x = Some k \<and> card (holders get x) \<le> cn_refCount k))"

lemma counts_okD:
  assumes "counts_ok get cells"
  shows "finite (dom get)"
    and "get e = Some x \<Longrightarrow> \<exists>k. cells x = Some k \<and> card (holders get x) \<le> cn_refCount k"
  using assms unfolding counts_ok_def by blast+

lemma finite_holders: "finite (dom get) \<Longrightarrow> finite (holders get x)"
  by (rule finite_subset [of _ "dom get"]) (auto simp: holders_def)

lemma holders_drop:
  "get e = Some x \<Longrightarrow> holders (get(e := None)) y = (if y = x then holders get x - {e} else holders get y)"
  by (auto simp: holders_def)

lemma holders_add:
  "get e = None \<Longrightarrow> holders (get(e := Some x)) y = (if y = x then insert e (holders get x) else holders get y)"
  by (auto simp: holders_def)

lemma counts_drop:
  assumes ok: "counts_ok get cells" and e: "get e = Some x"
  shows "counts_ok (get(e := None)) (cells(x := drop_ref (cells x)))"
proof -
  obtain k where k: "cells x = Some k" "card (holders get x) \<le> cn_refCount k"
    using counts_okD(2) [OF ok e] by blast
  note fin = finite_holders [OF counts_okD(1) [OF ok], of x]
  have card: "Suc (card (holders get x - {e})) = card (holders get x)"
    using fin e by (intro card_Suc_Diff1) (simp_all add: holders_def)
  have "\<exists>k'. (cells(x := drop_ref (cells x))) y = Some k' \<and> card (holders (get(e := None)) y) \<le> cn_refCount k'"
    if d: "(get(e := None)) d = Some y" for d y
  proof (cases "y = x")
    case True
    have "d \<in> holders get x - {e}" using d True by (auto simp: holders_def split: if_splits)
    then have "0 < card (holders get x - {e})" using fin by (auto simp: card_gt_0_iff)
    with k card show ?thesis using True by (simp add: holders_drop [where get = get, OF e] drop_ref_def)
  next
    case False
    have "get d = Some y" using d by (simp split: if_splits)
    from counts_okD(2) [OF ok this] False show ?thesis by (simp add: holders_drop [where get = get, OF e])
  qed
  moreover have "finite (dom (get(e := None)))" using counts_okD(1) [OF ok] by simp
  ultimately show ?thesis unfolding counts_ok_def by blast
qed

lemma counts_add:
  assumes ok: "counts_ok get cells" and e: "get e = None" and x: "cells x = Some k"
  shows "counts_ok (get(e := Some x)) (cells(x := Some (k\<lparr>cn_refCount := Suc (cn_refCount k)\<rparr>)))"
proof -
  note fin = finite_holders [OF counts_okD(1) [OF ok], of x]
  have old: "card (holders get x) \<le> cn_refCount k"
  proof (cases "\<exists>d. get d = Some x")
    case True
    with counts_okD(2) [OF ok] x show ?thesis by force
  next
    case False
    then have "holders get x = {}" by (simp add: holders_def)
    then show ?thesis by simp
  qed
  have new: "card (insert e (holders get x)) = Suc (card (holders get x))"
    using fin e by (simp add: holders_def)
  have "\<exists>k'. (cells(x := Some (k\<lparr>cn_refCount := Suc (cn_refCount k)\<rparr>))) y = Some k' \<and>
      card (holders (get(e := Some x)) y) \<le> cn_refCount k'"
    if d: "(get(e := Some x)) d = Some y" for d y
  proof (cases "y = x")
    case True
    with new old show ?thesis by (simp add: holders_add [where get = get, OF e])
  next
    case False
    then have "get d = Some y" using d by (auto split: if_splits)
    from counts_okD(2) [OF ok this] False show ?thesis by (simp add: holders_add [where get = get, OF e])
  qed
  moreover have "finite (dom (get(e := Some x)))" using counts_okD(1) [OF ok] by simp
  ultimately show ?thesis unfolding counts_ok_def by blast
qed

lemma counts_cells:
  assumes ok: "counts_ok get cells"
    and more: "\<And>x k. cells x = Some k \<Longrightarrow> \<exists>k'. cells' x = Some k' \<and> cn_refCount k \<le> cn_refCount k'"
  shows "counts_ok get cells'"
  unfolding counts_ok_def
proof (intro conjI allI impI)
  show "finite (dom get)" using counts_okD(1) [OF ok] .
  fix e x assume "get e = Some x"
  from counts_okD(2) [OF ok this] obtain k where k: "cells x = Some k" "card (holders get x) \<le> cn_refCount k"
    by blast
  from more [OF k(1)] k(2) show "\<exists>k'. cells' x = Some k' \<and> card (holders get x) \<le> cn_refCount k'"
    by auto
qed

definition hold_ok :: "heap \<Rightarrow> bool" where
  "hold_ok h \<longleftrightarrow>
     (\<forall>e. alive h e \<longrightarrow> e < hp_next h) \<and>
     counts_ok (object_of h) (hp_objects h) \<and>
     counts_ok (address_of h) (hp_addresses h) \<and>
     (\<forall>x e. registry_of h x = Some e \<longrightarrow> object_of h e = Some x \<and> \<not> is_soft h e) \<and>
     (\<forall>e. is_soft h e \<longrightarrow> object_of h e \<noteq> None) \<and>
     (\<forall>x. hp_objects h x \<noteq> None \<longrightarrow> x < hp_nextObject h)"

lemma hold_okD:
  assumes "hold_ok h"
  shows "alive h e \<Longrightarrow> e < hp_next h" "counts_ok (object_of h) (hp_objects h)"
    "counts_ok (address_of h) (hp_addresses h)"
    "registry_of h x = Some e \<Longrightarrow> object_of h e = Some x" "registry_of h x = Some e \<Longrightarrow> \<not> is_soft h e"
    "is_soft h e \<Longrightarrow> object_of h e \<noteq> None"
    "hp_objects h x \<noteq> None \<Longrightarrow> x < hp_nextObject h"
  using assms unfolding hold_ok_def by blast+

lemma hold_okI:
  assumes "\<And>e. alive h e \<Longrightarrow> e < hp_next h" "counts_ok (object_of h) (hp_objects h)"
    "counts_ok (address_of h) (hp_addresses h)"
    "\<And>x e. registry_of h x = Some e \<Longrightarrow> object_of h e = Some x \<and> \<not> is_soft h e"
    "\<And>e. is_soft h e \<Longrightarrow> object_of h e \<noteq> None"
    "\<And>x. hp_objects h x \<noteq> None \<Longrightarrow> x < hp_nextObject h"
  shows "hold_ok h"
  using assms unfolding hold_ok_def by blast

lemma hold_cong:
  assumes "hold_ok h" "object_of h' = object_of h" "address_of h' = address_of h" "is_soft h' = is_soft h"
    "hp_objects h' = hp_objects h" "hp_addresses h' = hp_addresses h" "hp_nextObject h' = hp_nextObject h"
    "\<And>e. alive h' e \<Longrightarrow> e < hp_next h'"
  shows "hold_ok h'"
proof (rule hold_okI)
  have "registry_of h' = registry_of h" by (simp add: registry_of_def fun_eq_iff assms(5))
  then show "object_of h' e = Some x \<and> \<not> is_soft h' e" if "registry_of h' x = Some e" for x e
    using that hold_okD(4,5) [OF assms(1), of x e] by (simp add: assms(2,4))
  show "counts_ok (object_of h') (hp_objects h')" "counts_ok (address_of h') (hp_addresses h')"
    using hold_okD(2,3) [OF assms(1)] unfolding assms(2,3,5,6) .
  show "is_soft h' e \<Longrightarrow> object_of h' e \<noteq> None" for e
    using hold_okD(6) [OF assms(1)] by (simp add: assms(2,4))
  show "hp_objects h' x \<noteq> None \<Longrightarrow> x < hp_nextObject h'" for x
    using hold_okD(7) [OF assms(1), of x] unfolding assms(5,7) .
qed (rule assms(8))

lemma hold_upd:
  assumes "hold_ok h" "\<And>r. re_object (f r) = re_object r" "\<And>r. re_address (f r) = re_address r"
    "\<And>r. re_isSoft (f r) = re_isSoft r"
  shows "hold_ok (upd_entry e f h)"
  using assms(1)
  by (rule hold_cong) (simp_all add: entry_get_upd assms upd_fields alive_upd hold_okD(1) [OF assms(1)])

lemma registry_of_upd:
  "registry_of (h\<lparr>hp_objects := (hp_objects h)(x := c)\<rparr>) =
     (registry_of h)(x := (case c of None \<Rightarrow> None | Some k \<Rightarrow> cn_registry k))"
  by (simp add: registry_of_def fun_eq_iff)

subsection \<open>Freeing an entry\<close>

lemma free_objects:
  "hp_objects (free_entry e h) =
     (case object_of h e of None \<Rightarrow> hp_objects h
      | Some x \<Rightarrow> (hp_objects h)(x := drop_ref (map_option (\<lambda>k. if is_soft h e then k else k\<lparr>cn_registry := None\<rparr>) (hp_objects h x))))"
proof -
  have "hp_objects (with_some (\<lambda>a h. adr_release a (if is_soft h e then h else adr_setRegistry None a h)) p g) = hp_objects g" for p g
    by (cases p) (simp_all add: heap_simps)
  then show ?thesis
    by (cases "object_of h e"; cases "hp_objects h (the (object_of h e))")
      (simp_all add: free_entry_def Let_def obj_release_def obj_setRegistry_def upd_object_def drop_ref_def)
qed

lemma free_addresses:
  "hp_addresses (free_entry e h) =
     (case address_of h e of None \<Rightarrow> hp_addresses h
      | Some x \<Rightarrow> (hp_addresses h)(x := drop_ref (map_option (\<lambda>k. if is_soft h e then k else k\<lparr>cn_registry := None\<rparr>) (hp_addresses h x))))"
proof -
  let ?h = "with_some (\<lambda>x h. obj_release x (if is_soft h e then h else obj_setRegistry None x h)) (object_of h e) h"
  have e: "hp_entries ?h = hp_entries h" and a: "hp_addresses ?h = hp_addresses h"
    by (cases "object_of h e"; simp add: heap_simps)+
  show ?thesis
    using a by (cases "address_of h e"; cases "hp_addresses h (the (address_of h e))")
      (simp_all add: free_entry_def Let_def entry_get_cong [OF e] adr_release_def adr_setRegistry_def
        upd_address_def drop_ref_def)
qed

lemma entry_get_free: "entry_get f d (free_entry e h) = (entry_get f d h)(e := d)"
  by (simp add: entry_get_def heap_simps fun_eq_iff)

lemma drop_ref_map: "(\<And>k. cn_refCount (f k) = cn_refCount k) \<Longrightarrow>
    (case drop_ref c of None \<Rightarrow> drop_ref (map_option f c) = None
     | Some k \<Rightarrow> \<exists>k'. drop_ref (map_option f c) = Some k' \<and> cn_refCount k' = cn_refCount k)"
  by (cases c) (simp_all add: drop_ref_def)

lemma counts_free:
  assumes ok: "counts_ok get cells" and f: "\<And>k. cn_refCount (f k) = cn_refCount k"
  shows "counts_ok (get(e := None))
    (case get e of None \<Rightarrow> cells | Some x \<Rightarrow> cells(x := drop_ref (map_option f (cells x))))"
proof (cases "get e")
  case None
  then have "get(e := None) = get" by (simp add: fun_eq_iff)
  with None ok show ?thesis by simp
next
  case (Some x)
  have more: "\<exists>k'. (cells(x := drop_ref (map_option f (cells x)))) y = Some k' \<and> cn_refCount k \<le> cn_refCount k'"
    if "(cells(x := drop_ref (cells x))) y = Some k" for y k
    using that drop_ref_map [of f "cells x"] f by (auto split: if_splits)
  have "counts_ok (get(e := None)) (cells(x := drop_ref (map_option f (cells x))))"
    by (rule counts_cells [OF counts_drop [OF ok Some]]) (rule more)
  with Some show ?thesis by simp
qed

lemma free_hold: "hold_ok h \<Longrightarrow> hold_ok (free_entry e h)"
proof (rule hold_okI)
  assume ok: "hold_ok h"
  show "x < hp_next (free_entry e h)" if "alive (free_entry e h) x" for x
    using that hold_okD(1) [OF ok, of x] by (auto simp: alive_def heap_simps split: if_splits)
  show "counts_ok (object_of (free_entry e h)) (hp_objects (free_entry e h))"
    unfolding entry_get_free free_objects by (rule counts_free [OF hold_okD(2) [OF ok]]) simp
  show "counts_ok (address_of (free_entry e h)) (hp_addresses (free_entry e h))"
    unfolding entry_get_free free_addresses by (rule counts_free [OF hold_okD(3) [OF ok]]) simp
  show "is_soft (free_entry e h) x \<Longrightarrow> object_of (free_entry e h) x \<noteq> None" for x
    using hold_okD(6) [OF ok, of x] by (simp add: entry_get_free split: if_splits)
  show "hp_objects (free_entry e h) x \<noteq> None \<Longrightarrow> x < hp_nextObject (free_entry e h)" for x
    using hold_okD(7) [OF ok, of x]
    by (auto simp: free_objects heap_simps drop_ref_def split: option.splits if_splits)
  fix x d assume reg: "registry_of (free_entry e h) x = Some d"
  have "registry_of h x = Some d \<and> d \<noteq> e"
  proof (cases "object_of h e = Some x")
    case True
    then obtain k where "hp_objects h x = Some k" "is_soft h e" "registry_of h x = Some d"
      using reg by (auto simp: registry_of_def free_objects drop_ref_def split: option.splits if_splits)
    with hold_okD(5) [OF ok] show ?thesis by blast
  next
    case False
    then have "registry_of h x = Some d"
      using reg by (auto simp: registry_of_def free_objects split: option.splits if_splits)
    with False hold_okD(4) [OF ok] show ?thesis by blast
  qed
  then show "object_of (free_entry e h) d = Some x \<and> \<not> is_soft (free_entry e h) d"
    using hold_okD(4,5) [OF ok, of x d] by (simp add: entry_get_free)
qed

lemma delete_hold:
  "hold_ok h \<Longrightarrow> hold_ok (deleteElements fuel e h)" "hold_ok h \<Longrightarrow> hold_ok (entry_release fuel e h)"
proof (induction fuel arbitrary: e h)
  case (Suc fuel)
  {
    case 1
    have "hold_ok h \<longrightarrow> hold_ok (fold (\<lambda>c h. entry_release fuel c (deleteElements fuel c h)) cs h)" for cs h
      using Suc.IH by (induction cs arbitrary: h) simp_all
    with 1 show ?case by (simp add: hold_upd)
  next
    case 2
    then have "hold_ok (upd_entry e (\<lambda>r. r\<lparr>re_refCount := re_refCount r - 1\<rparr>) h)" by (intro hold_upd) simp_all
    with Suc.IH(1) show ?case by (simp add: Let_def free_hold)
  }
qed simp_all

lemma remove_hold: "hold_ok h \<Longrightarrow> hold_ok (remove_entry e c h)"
  by (simp add: remove_entry_def hold_upd delete_hold)

lemma remove_name_hold: "hold_ok h \<Longrightarrow> hold_ok (snd (remove_name e n h))"
  by (simp add: remove_name_def remove_hold split: option.splits)

subsection \<open>Filling an entry\<close>

lemma setObject_fields:
  "hp_entries (setObject e p h) = (hp_entries h)(e := map_option (\<lambda>r. r\<lparr>re_object := p\<rparr>) (hp_entries h e))"
  "hp_addresses (setObject e p h) = hp_addresses h" "hp_next (setObject e p h) = hp_next h"
  "hp_nextObject (setObject e p h) = hp_nextObject h"
proof -
  let ?h1 = "with_some (\<lambda>x h. if \<not> is_soft h e then obj_setRegistry (Some e) x (obj_addRef x h)
                               else obj_addRef x h) p h"
  have 1: "hp_entries ?h1 = hp_entries h \<and> hp_next ?h1 = hp_next h \<and> hp_addresses ?h1 = hp_addresses h
      \<and> hp_nextObject ?h1 = hp_nextObject h"
    by (cases p) (simp_all add: heap_simps)
  have 2: "hp_entries (with_some obj_release q g) = hp_entries g \<and> hp_next (with_some obj_release q g) = hp_next g
      \<and> hp_addresses (with_some obj_release q g) = hp_addresses g
      \<and> hp_nextObject (with_some obj_release q g) = hp_nextObject g" for q g
    by (cases q) (simp_all add: heap_simps)
  show "hp_entries (setObject e p h) = (hp_entries h)(e := map_option (\<lambda>r. r\<lparr>re_object := p\<rparr>) (hp_entries h e))"
    "hp_addresses (setObject e p h) = hp_addresses h" "hp_next (setObject e p h) = hp_next h"
    "hp_nextObject (setObject e p h) = hp_nextObject h"
    by (simp_all add: setObject_def Let_def 1 2 heap_simps)
qed

lemma setObject_get:
  "alive h e \<Longrightarrow> object_of (setObject e p h) = (object_of h)(e := p)"
  "address_of (setObject e p h) = address_of h" "is_soft (setObject e p h) = is_soft h"
  "alive (setObject e p h) = alive h"
  by (auto simp: entry_get_def setObject_fields alive_def fun_eq_iff split: option.splits)

lemma setObject_objects:
  "object_of h e = None \<Longrightarrow> hp_objects (setObject e p h) =
     (case p of None \<Rightarrow> hp_objects h
      | Some x \<Rightarrow> (hp_objects h)(x := map_option (\<lambda>k. if is_soft h e then k\<lparr>cn_refCount := Suc (cn_refCount k)\<rparr>
            else k\<lparr>cn_refCount := Suc (cn_refCount k), cn_registry := Some e\<rparr>) (hp_objects h x)))"
proof -
  assume none: "object_of h e = None"
  have "object_of (with_some (\<lambda>x h. if \<not> is_soft h e then obj_setRegistry (Some e) x (obj_addRef x h)
      else obj_addRef x h) p h) e = None"
    using none by (cases p) (simp_all add: entry_get_def heap_simps)
  then show ?thesis
    by (cases p; cases "hp_objects h (the p)")
      (simp_all add: setObject_def Let_def heap_simps obj_setRegistry_def obj_addRef_def upd_object_def
        entry_get_def)
qed

text \<open>An entry without an object gets one; a soft entry is one made soft just before.\<close>

lemma setObject_hold:
  assumes ok: "hold_ok (set_soft e False h)" and e: "alive h e" and none: "object_of h e = None"
    and x: "hp_objects h x \<noteq> None"
  shows "hold_ok (setObject e (Some x) h)"
proof (rule hold_okI)
  let ?h = "setObject e (Some x) h"
  have soft: "is_soft (set_soft e False h) = (is_soft h)(e := False)"
    unfolding set_soft_def by (rule entry_get_put [OF e]) simp
  have get: "object_of (set_soft e False h) = object_of h" "address_of (set_soft e False h) = address_of h"
    "alive (set_soft e False h) = alive h"
    unfolding set_soft_def by (simp_all add: entry_get_upd alive_upd)
  have flds: "hp_objects (set_soft e False h) = hp_objects h" "hp_addresses (set_soft e False h) = hp_addresses h"
    "hp_next (set_soft e False h) = hp_next h" "hp_nextObject (set_soft e False h) = hp_nextObject h"
    by (simp_all add: set_soft_def heap_simps)
  note old = hold_okD [OF ok, unfolded soft get flds]
  obtain k where k: "hp_objects h x = Some k" using x by blast
  show "alive ?h d \<Longrightarrow> d < hp_next ?h" for d using old(1) by (simp add: setObject_get setObject_fields)
  have "counts_ok ((object_of h)(e := Some x)) ((hp_objects h)(x := Some (k\<lparr>cn_refCount := Suc (cn_refCount k)\<rparr>)))"
    by (rule counts_add [OF old(2) none k])
  then have "counts_ok ((object_of h)(e := Some x)) (hp_objects ?h)"
    by (rule counts_cells) (auto simp: setObject_objects [OF none] k split: if_splits)
  then show "counts_ok (object_of ?h) (hp_objects ?h)" by (simp only: setObject_get(1) [OF e])
  show "counts_ok (address_of ?h) (hp_addresses ?h)" using old(3) unfolding setObject_get setObject_fields .
  show "is_soft ?h d \<Longrightarrow> object_of ?h d \<noteq> None" for d
    using old(6) [of d] by (auto simp: setObject_get(3) setObject_get(1) [OF e])
  show "hp_objects ?h y \<noteq> None \<Longrightarrow> y < hp_nextObject ?h" for y
    using old(7) [of y] k
    by (auto simp: setObject_objects [OF none] setObject_fields set_soft_def heap_simps split: if_splits)
  fix y d assume reg: "registry_of ?h y = Some d"
  have same: "registry_of (set_soft e False h) = registry_of h" by (simp add: registry_of_def flds fun_eq_iff)
  show "object_of ?h d = Some y \<and> \<not> is_soft ?h d"
  proof (cases "y = x \<and> \<not> is_soft h e")
    case True
    then have "d = e" using reg by (simp add: registry_of_def setObject_objects [OF none] k)
    with True show ?thesis by (simp add: setObject_get(3) setObject_get(1) [OF e])
  next
    case False
    then have "registry_of h y = Some d"
      using reg k by (auto simp: registry_of_def setObject_objects [OF none] split: if_splits option.splits)
    with old(4,5) same have "object_of h d = Some y" "\<not> ((is_soft h)(e := False)) d" by simp_all
    moreover from this(1) none have "d \<noteq> e" by auto
    ultimately show ?thesis by (simp add: setObject_get(3) setObject_get(1) [OF e])
  qed
qed

lemma set_soft_hold: "hold_ok h \<Longrightarrow> hold_ok (set_soft e False h)"
proof -
  assume ok: "hold_ok h"
  have soft: "is_soft (set_soft e False h) d \<Longrightarrow> is_soft h d" for d
    by (auto simp: set_soft_def entry_get_def upd_entry_def split: option.splits if_splits)
  have get: "object_of (set_soft e False h) = object_of h" "address_of (set_soft e False h) = address_of h"
    "alive (set_soft e False h) = alive h" "registry_of (set_soft e False h) = registry_of h"
    by (simp_all add: set_soft_def entry_get_upd alive_upd registry_of_def fun_eq_iff heap_simps)
  show ?thesis
    using hold_okD [OF ok] soft
    unfolding hold_ok_def get upd_fields(1-3,16) [where e = e and f = "\<lambda>r. r\<lparr>re_isSoft := False\<rparr>", folded set_soft_def]
    by blast
qed

lemma set_soft_twice: "set_soft e b (set_soft e c h) = set_soft e b h"
  by (auto simp: set_soft_def upd_entry_def option.map_comp o_def)

lemma makeSoft_hold:
  assumes "hold_ok h" "alive h e" "object_of h e = None" "hp_objects h x \<noteq> None"
  shows "hold_ok (makeSoft_object e (Some x) h)"
  unfolding makeSoft_object_def
  using assms by (intro setObject_hold)
    (simp_all add: set_soft_twice set_soft_hold, simp_all add: set_soft_def alive_upd entry_get_upd heap_simps)

lemma adr_registry_hold: "hold_ok h \<Longrightarrow> hold_ok (adr_setRegistry p a h)"
proof (rule hold_okI)
  assume ok: "hold_ok h"
  note same = entry_get_cong [of "adr_setRegistry p a h" h, OF counted_ops_entries(4)]
  have reg: "registry_of (adr_setRegistry p a h) = registry_of h"
    by (simp add: registry_of_def heap_simps fun_eq_iff)
  show "counts_ok (address_of (adr_setRegistry p a h)) (hp_addresses (adr_setRegistry p a h))"
    unfolding same using hold_okD(3) [OF ok]
    by (rule counts_cells) (auto simp: adr_setRegistry_def upd_address_def)
  show "counts_ok (object_of (adr_setRegistry p a h)) (hp_objects (adr_setRegistry p a h))"
    unfolding same counted_ops_entries using hold_okD(2) [OF ok] .
qed (simp_all add: entry_get_cong [OF counted_ops_entries(4)] alive_def registry_of_def heap_simps
    hold_ok_def)

lemma obj_registry_hold:
  assumes ok: "hold_ok h" and e: "object_of h e = Some x" "\<not> is_soft h e"
  shows "hold_ok (obj_setRegistry (Some e) x h)"
proof (rule hold_okI)
  let ?h = "obj_setRegistry (Some e) x h"
  note same = entry_get_cong [of ?h h, OF counted_ops_entries(2)]
  show "counts_ok (object_of ?h) (hp_objects ?h)"
    unfolding same using hold_okD(2) [OF ok]
    by (rule counts_cells) (auto simp: obj_setRegistry_def upd_object_def)
  show "counts_ok (address_of ?h) (hp_addresses ?h)"
    unfolding same counted_ops_entries using hold_okD(3) [OF ok] .
  show "alive ?h d \<Longrightarrow> d < hp_next ?h" for d
    using hold_okD(1) [OF ok] by (simp add: alive_def heap_simps)
  show "is_soft ?h d \<Longrightarrow> object_of ?h d \<noteq> None" for d
    using hold_okD(6) [OF ok] by (simp add: same)
  show "hp_objects ?h y \<noteq> None \<Longrightarrow> y < hp_nextObject ?h" for y
    using hold_okD(7) [OF ok, of y]
    by (auto simp: heap_simps, auto simp: obj_setRegistry_def upd_object_def split: if_splits)
  fix y d assume "registry_of ?h y = Some d"
  then have "registry_of h y = Some d \<or> y = x \<and> d = e"
    by (auto simp: registry_of_def obj_setRegistry_def upd_object_def split: if_splits option.splits)
  then show "object_of ?h d = Some y \<and> \<not> is_soft ?h d"
    using hold_okD(4,5) [OF ok, of y d] e by (auto simp: same)
qed

lemma makeHard_hold:
  assumes ok: "hold_ok h" and e: "alive h e" "object_of h e = None" "address_of h e = None"
    and x: "hp_objects h x \<noteq> None"
  shows "hold_ok (makeHard_object e (Some x) h)"
proof -
  let ?h = "set_soft e False (makeSoft_object e (Some x) h)"
  have 1: "hold_ok ?h" using assms by (simp add: set_soft_hold makeSoft_hold)
  have "object_of (makeSoft_object e (Some x) h) e = Some x" "address_of (makeSoft_object e (Some x) h) e = None"
    using e by (simp_all add: makeSoft_object_def setObject_get set_soft_def alive_upd entry_get_upd)
  then have get: "object_of ?h e = Some x" "address_of ?h e = None"
    by (simp_all add: set_soft_def entry_get_upd)
  have "alive (makeSoft_object e (Some x) h) e"
    using e by (simp add: makeSoft_object_def setObject_get set_soft_def alive_upd)
  then have "\<not> is_soft ?h e"
    by (simp add: set_soft_def entry_get_put [where g = "\<lambda>_. False"])
  from obj_registry_hold [OF 1 get(1) this] get show ?thesis
    by (simp add: makeHard_object_def Let_def entry_get_cong [OF counted_ops_entries(2)])
qed

lemma setObject_None: "object_of h e = None \<Longrightarrow> hold_ok h \<Longrightarrow> hold_ok (setObject e None h)"
  by (simp add: setObject_def Let_def)
    (rule hold_cong [of h]; (simp add: alive_upd upd_fields entry_get_upd hold_okD(1))?;
     auto simp: entry_get_def upd_entry_def fun_eq_iff split: option.splits)

text \<open>An entry takes its first address, or gives its address up.\<close>

lemma setAddress_fields:
  "hp_entries (setAddress e p h) = (hp_entries h)(e := map_option (\<lambda>r. r\<lparr>re_address := p\<rparr>) (hp_entries h e))"
  "hp_objects (setAddress e p h) = hp_objects h" "hp_next (setAddress e p h) = hp_next h"
  "hp_nextObject (setAddress e p h) = hp_nextObject h"
proof -
  let ?h1 = "with_some (\<lambda>a h. adr_setRegistry (Some e) a (adr_addRef a h)) p h"
  have 1: "hp_entries ?h1 = hp_entries h \<and> hp_next ?h1 = hp_next h \<and> hp_objects ?h1 = hp_objects h
      \<and> hp_nextObject ?h1 = hp_nextObject h"
    by (cases p) (simp_all add: heap_simps)
  have 2: "hp_entries (with_some adr_release q g) = hp_entries g \<and> hp_next (with_some adr_release q g) = hp_next g
      \<and> hp_objects (with_some adr_release q g) = hp_objects g
      \<and> hp_nextObject (with_some adr_release q g) = hp_nextObject g" for q g
    by (cases q) (simp_all add: heap_simps)
  show "hp_entries (setAddress e p h) = (hp_entries h)(e := map_option (\<lambda>r. r\<lparr>re_address := p\<rparr>) (hp_entries h e))"
    "hp_objects (setAddress e p h) = hp_objects h" "hp_next (setAddress e p h) = hp_next h"
    "hp_nextObject (setAddress e p h) = hp_nextObject h"
    by (simp_all add: setAddress_def Let_def 1 2 heap_simps)
qed

lemma setAddress_get:
  "alive h e \<Longrightarrow> address_of (setAddress e p h) = (address_of h)(e := p)"
  "object_of (setAddress e p h) = object_of h" "is_soft (setAddress e p h) = is_soft h"
  "alive (setAddress e p h) = alive h"
  by (auto simp: entry_get_def setAddress_fields alive_def fun_eq_iff split: option.splits)

lemma setAddress_hold:
  assumes ok: "hold_ok h" and e: "alive h e"
    and p: "p = None \<or> address_of h e = None \<and> (\<exists>a. p = Some a \<and> hp_addresses h a \<noteq> None)"
  shows "hold_ok (setAddress e p h)"
proof (rule hold_okI)
  let ?h = "setAddress e p h"
  show "alive ?h d \<Longrightarrow> d < hp_next ?h" for d
    using hold_okD(1) [OF ok] by (simp add: setAddress_get setAddress_fields)
  show "counts_ok (object_of ?h) (hp_objects ?h)"
    unfolding setAddress_get setAddress_fields using hold_okD(2) [OF ok] .
  show "is_soft ?h d \<Longrightarrow> object_of ?h d \<noteq> None" for d
    using hold_okD(6) [OF ok] by (simp add: setAddress_get)
  show "hp_objects ?h x \<noteq> None \<Longrightarrow> x < hp_nextObject ?h" for x
    using hold_okD(7) [OF ok] by (simp add: setAddress_fields)
  show "object_of ?h d = Some x \<and> \<not> is_soft ?h d" if "registry_of ?h x = Some d" for x d
    using that hold_okD(4,5) [OF ok, of x d] by (simp add: setAddress_get registry_of_def setAddress_fields)
  show "counts_ok (address_of ?h) (hp_addresses ?h)"
  proof (cases p)
    case None
    have "hp_addresses ?h = (case address_of h e of None \<Rightarrow> hp_addresses h
        | Some x \<Rightarrow> (hp_addresses h)(x := drop_ref (map_option id (hp_addresses h x))))"
      using None by (cases "address_of h e") (simp_all add: setAddress_def Let_def heap_simps adr_release_def option.map_id)
    with counts_free [OF hold_okD(3) [OF ok], of id e] None show ?thesis
      by (simp add: setAddress_get(1) [OF e])
  next
    case (Some a)
    with p obtain k where k: "address_of h e = None" "hp_addresses h a = Some k" by auto
    have "address_of (adr_setRegistry (Some e) a (adr_addRef a h)) e = None"
      using k(1) by (simp add: entry_get_def heap_simps)
    then have new: "hp_addresses ?h = (hp_addresses h)(a := Some (k\<lparr>cn_refCount := Suc (cn_refCount k), cn_registry := Some e\<rparr>))"
      using Some k(2) by (simp add: setAddress_def Let_def heap_simps adr_setRegistry_def adr_addRef_def upd_address_def)
    have "counts_ok ((address_of h)(e := Some a)) ((hp_addresses h)(a := Some (k\<lparr>cn_refCount := Suc (cn_refCount k)\<rparr>)))"
      by (rule counts_add [OF hold_okD(3) [OF ok] k])
    then have "counts_ok ((address_of h)(e := Some a)) (hp_addresses ?h)"
      by (rule counts_cells) (auto simp: new split: if_splits)
    with Some show ?thesis by (simp only: setAddress_get(1) [OF e])
  qed
qed

subsection \<open>Adding an entry\<close>

lemma new_entry_hold:
  assumes ok: "hold_ok h" "tree_ok h" and e: "alive h e" "one_segment p"
  shows "hold_ok (snd (new_entry (lead_sep p) (Some e) h))"
proof (rule hold_cong [OF ok(1)])
  note n = new_entry_shape [OF ok(2) e]
  have "\<not> alive h (hp_next h)" using tree_okD(1) [OF ok(2)] by blast
  then have none: "hp_entries h (hp_next h) = None" by (simp add: alive_def)
  show "object_of (snd (new_entry (lead_sep p) (Some e) h)) = object_of h"
    "address_of (snd (new_entry (lead_sep p) (Some e) h)) = address_of h"
    "is_soft (snd (new_entry (lead_sep p) (Some e) h)) = is_soft h"
    using none by (auto simp: entry_get_def n fun_eq_iff)
  show "alive (snd (new_entry (lead_sep p) (Some e) h)) d \<Longrightarrow> d < hp_next (snd (new_entry (lead_sep p) (Some e) h))" for d
    using tree_okD(1) [OF ok(2), of d] by (auto simp: alive_def n split: if_splits)
qed (simp_all add: new_entry_shape [OF ok(2) e])

lemma i_add_hold: "hold_ok h \<Longrightarrow> hold_ok (i_add e c h)"
proof -
  assume "hold_ok h"
  then have "hold_ok (upd_entry c f (upd_entry c g (upd_entry e k (upd_entry c l h))))"
    if "\<And>r. re_object (f r) = re_object r" "\<And>r. re_address (f r) = re_address r" "\<And>r. re_isSoft (f r) = re_isSoft r"
      "\<And>r. re_object (g r) = re_object r" "\<And>r. re_address (g r) = re_address r" "\<And>r. re_isSoft (g r) = re_isSoft r"
      "\<And>r. re_object (k r) = re_object r" "\<And>r. re_address (k r) = re_address r" "\<And>r. re_isSoft (k r) = re_isSoft r"
      "\<And>r. re_object (l r) = re_object r" "\<And>r. re_address (l r) = re_address r" "\<And>r. re_isSoft (l r) = re_isSoft r"
    for f g k l using that by (intro hold_upd)
  then show ?thesis
    unfolding i_add_def Let_def setParent_def
    by (cases "address_of h c") (simp_all add: with_some_keeps adr_registry_hold)
qed

lemma makeHard_address_hold:
  assumes "hold_ok h" "alive h e" "address_of h e = None" "hp_addresses h a \<noteq> None"
  shows "hold_ok (makeHard_address e (Some a) h)"
  unfolding makeHard_address_def
proof (rule setAddress_hold)
  show "hold_ok (set_soft e False h)" by (rule set_soft_hold [OF assms(1)])
  show "alive (set_soft e False h) e" using assms(2) by (simp add: set_soft_def alive_upd)
  show "Some a = None \<or> address_of (set_soft e False h) e = None \<and>
      (\<exists>b. Some a = Some b \<and> hp_addresses (set_soft e False h) b \<noteq> None)"
    using assms(3,4) by (simp add: set_soft_def entry_get_upd upd_fields)
qed

lemma add_hold:
  assumes ok: "hold_ok h" "tree_ok h" and e: "alive h e" "one_segment p"
  shows "hp_objects h x \<noteq> None \<Longrightarrow> hold_ok (snd (add_object e p (Some x) s h))"
    and "hp_addresses h a \<noteq> None \<Longrightarrow> hold_ok (snd (add_address e p (Some a) False h))"
proof -
  let ?h = "snd (new_entry (lead_sep p) (Some e) h)"
  note n = new_entry_shape [OF ok(2) e] and hold = new_entry_hold [OF assms]
  have c: "alive ?h (hp_next h)" "object_of ?h (hp_next h) = None" "address_of ?h (hp_next h) = None"
    by (simp_all add: alive_def entry_get_def n)
  show "hold_ok (snd (add_object e p (Some x) s h))" if "hp_objects h x \<noteq> None"
    using that ok c hold
    by (auto simp: add_object_def i_create_cases case_prod_beta n intro!: i_add_hold makeSoft_hold makeHard_hold)
  show "hold_ok (snd (add_address e p (Some a) False h))" if "hp_addresses h a \<noteq> None"
    using that ok c hold
    by (auto simp: add_address_def i_create_cases case_prod_beta n intro!: i_add_hold makeHard_address_hold)
qed

end
