(* ===== verification/Data_Store.thy ===== *)
theory Data_Store
  imports Registry_Facts
begin

text \<open>
  The transient data store: \<open>DataSvc\<close> of GaudiKernel/include/GaudiKernel/DataSvc.h and
  GaudiKernel/src/Lib/DataSvc.cpp, over the heap of registry entries. The conversion service and
  the listeners of the incident service are parameters: what the store calls of them may change
  the store. An operation returns, throws, runs into undefined behaviour (a null pointer is
  followed, an empty view is read) or, where the calls can go round in circles, uses up its fuel.
  \<open>Throws\<close> keeps no store, so the model ends at an exception that a service raises, also within
  \<open>linkObject\<close>, which would catch it and answer INVALID\_PARENT.
\<close>

section \<open>Results\<close>

datatype ds_status =
    DS_SUCCESS | DS_FAILURE | DOUBL_OBJ_PATH | INVALID_OBJ_PATH | INVALID_ROOT | INVALID_OBJECT
  | INVALID_PARENT | OBJ_NOT_LOADED | NO_DATA_LOADER | INVALID_OBJ_ADDR | DIR_NOT_EMPTY
  | NO_MORE_LEVELS | NO_ACCESS

text \<open>\<open>IDataProviderSvc_NO_ERROR\<close> has the value of success.\<close>

abbreviation NO_ERROR :: ds_status where
  "NO_ERROR \<equiv> DS_SUCCESS"

datatype 'a outcome = Done 'a | Throws | Undefined | Exhausted

fun obind :: "'a outcome \<Rightarrow> ('a \<Rightarrow> 'b outcome) \<Rightarrow> 'b outcome" where
  "obind (Done x) f = f x"
| "obind Throws f = Throws"
| "obind Undefined f = Undefined"
| "obind Exhausted f = Exhausted"

lemma obind_cong [fundef_cong]:
  "m = m' \<Longrightarrow> (\<And>x. m' = Done x \<Longrightarrow> f x = f' x) \<Longrightarrow> obind m f = obind m' f'"
  by (cases m') auto

lemma obind_Done [simp]: "obind m f = Done y \<longleftrightarrow> (\<exists>x. m = Done x \<and> f x = Done y)"
  by (cases m) auto

section \<open>The service\<close>

record data_svc =
  ds_heap :: heap
  ds_root :: "entry_id option"
  ds_rootName :: string
  ds_forceLeaves :: bool
  ds_inhibitPathes :: "string list"
  ds_enableFaultHdlr :: bool
  ds_enableAccessHdlr :: bool
  ds_dataLoader :: bool
  ds_preLoads :: "(string \<times> int) list"

abbreviation on_heap :: "(heap \<Rightarrow> heap) \<Rightarrow> data_svc \<Rightarrow> data_svc" where
  "on_heap f s \<equiv> s\<lparr>ds_heap := f (ds_heap s)\<rparr>"

text \<open>
  What the store calls: four functions of the conversion service, which may throw,
  and the listeners an incident reaches. The incident is its type and the path it is about.
\<close>

datatype 'a call = Ret 'a | Raised

datatype incident_type = DataFault | DataAccess

record services =
  sv_createObj :: "address_id \<Rightarrow> data_svc \<Rightarrow> (ds_status \<times> object_id option) call \<times> data_svc"
  sv_fillObjRefs :: "address_id \<Rightarrow> object_id option \<Rightarrow> data_svc \<Rightarrow> ds_status call \<times> data_svc"
  sv_updateObj :: "address_id \<Rightarrow> object_id \<Rightarrow> data_svc \<Rightarrow> ds_status call \<times> data_svc"
  sv_updateObjRefs :: "address_id \<Rightarrow> object_id \<Rightarrow> data_svc \<Rightarrow> ds_status call \<times> data_svc"
  sv_fireIncident :: "incident_type \<Rightarrow> string \<Rightarrow> data_svc \<Rightarrow> data_svc"

section \<open>Paths\<close>

text \<open>The local \<open>find(s, '/', 1)\<close>.\<close>

definition find_sep1 :: "string \<Rightarrow> nat option" where
  "find_sep1 p =
     (case p of [] \<Rightarrow> None
      | c # q \<Rightarrow> if SEPARATOR \<in> set q then Some (Suc (length (takeWhile (\<lambda>c. c \<noteq> SEPARATOR) q))) else None)"

abbreviation starts_sep :: "string \<Rightarrow> bool" where
  "starts_sep p \<equiv> hd p = SEPARATOR"

lemma find_sep1_bounds: "find_sep1 p = Some n \<Longrightarrow> 0 < n \<and> n < length p"
proof (cases p)
  case (Cons c q)
  assume "find_sep1 p = Some n"
  moreover have "length (takeWhile (\<lambda>c. c \<noteq> SEPARATOR) q) < length q" if "SEPARATOR \<in> set q"
    using that by (induction q) auto
  ultimately show ?thesis using Cons by (auto simp: find_sep1_def split: if_splits)
qed (simp add: find_sep1_def)

section \<open>Loading on demand\<close>

text \<open>\<open>i_handleDataFault\<close>: with a path, what is asked for is the path below the entry.\<close>

definition handleDataFault ::
  "services \<Rightarrow> entry_id option \<Rightarrow> string \<Rightarrow> data_svc \<Rightarrow> (object_id option \<times> data_svc) outcome"
where
  "handleDataFault svc pReg path s =
     (if \<not> ds_enableFaultHdlr s then Done (None, s)
      else
        (case pReg of
           Some e \<Rightarrow>
             if path = [] then
               (let s = sv_fireIncident svc DataFault (fullpath_of (ds_heap s) e) s
                in Done (object_of (ds_heap s) e, s))
             else
               (let p = fullpath_of (ds_heap s) e @ (if starts_sep path then [] else [SEPARATOR]) @ path;
                    s = sv_fireIncident svc DataFault p s
                in (case ds_root s of
                      None \<Rightarrow> Undefined
                    | Some r \<Rightarrow> Done (Option.bind (i_find_path (ds_heap s) r p) (object_of (ds_heap s)), s)))
         | None \<Rightarrow>
             (case ds_root s of
                None \<Rightarrow> Undefined
              | Some r \<Rightarrow>
                  if path = [] then Undefined
                  else
                    (let p = fullpath_of (ds_heap s) r @ (if starts_sep path then [] else [SEPARATOR]) @ path;
                         s = sv_fireIncident svc DataFault p s
                     in (case ds_root s of
                           None \<Rightarrow> Undefined
                         | Some r \<Rightarrow> Done (Option.bind (i_find_path (ds_heap s) r p) (object_of (ds_heap s)), s))))))"

text \<open>A load that failed is a success after all when the fault handler brings the object.\<close>

definition or_fault ::
  "services \<Rightarrow> entry_id \<Rightarrow> (ds_status \<times> data_svc) outcome \<Rightarrow> data_svc \<Rightarrow> (ds_status \<times> data_svc) outcome"
where
  "or_fault svc e r s =
     obind (handleDataFault svc (Some e) [] s)
       (\<lambda>(obj, s'). if obj \<noteq> None then Done (DS_SUCCESS, s')
          else (case r of Done (st, _) \<Rightarrow> Done (st, s') | r \<Rightarrow> r))"

definition loadObject :: "services \<Rightarrow> entry_id \<Rightarrow> data_svc \<Rightarrow> (ds_status \<times> data_svc) outcome" where
  "loadObject svc e s =
     (if \<not> ds_dataLoader s then or_fault svc e (Done (NO_DATA_LOADER, s)) s
      else
        (let ident = fullpath_of (ds_heap s) e;
             s = (if ds_enableAccessHdlr s then sv_fireIncident svc DataAccess ident s else s)
         in if fullpath_of (ds_heap s) e \<in> set (ds_inhibitPathes s) then Done (NO_ACCESS, s)
            else
              (case address_of (ds_heap s) e of
                 None \<Rightarrow> Done (INVALID_OBJ_ADDR, s)
               | Some a \<Rightarrow>
                   (case sv_createObj svc a s of
                      (Raised, s) \<Rightarrow> or_fault svc e Throws s
                    | (Ret (st, pObject), s) \<Rightarrow>
                        if st \<noteq> DS_SUCCESS then or_fault svc e (Done (st, s)) s
                        else
                          (case sv_fillObjRefs svc a pObject (on_heap (setObject e pObject) s) of
                             (Raised, s) \<Rightarrow> or_fault svc e Throws s
                           | (Ret st, s) \<Rightarrow>
                               if st \<noteq> DS_SUCCESS then or_fault svc e (Done (st, s)) s
                               else Done (st, s))))))"

text \<open>An entry without an object is loaded; with one, nothing happens.\<close>

definition ensure_loaded :: "services \<Rightarrow> entry_id \<Rightarrow> data_svc \<Rightarrow> (ds_status \<times> data_svc) outcome" where
  "ensure_loaded svc e s =
     (if object_of (ds_heap s) e = None then loadObject svc e s else Done (DS_SUCCESS, s))"

text \<open>\<open>findLeaf\<close>, and once more after the fault handler was asked for the path.\<close>

definition find_or_fault ::
  "services \<Rightarrow> entry_id \<Rightarrow> string \<Rightarrow> data_svc \<Rightarrow> (entry_id option \<times> data_svc) outcome"
where
  "find_or_fault svc p path s =
     (case i_find_path (ds_heap s) p path of
        Some e \<Rightarrow> Done (Some e, s)
      | None \<Rightarrow>
          if ds_enableFaultHdlr s
          then obind (handleDataFault svc (Some p) path s)
                 (\<lambda>(_, s). Done (i_find_path (ds_heap s) p path, s))
          else Done (None, s))"

text \<open>
  \<open>i_retrieveEntry\<close>. A null parent stands for the root, once the front of the path is off; a
  soft link on the way is followed through the registry of its object.
\<close>

function retrieveEntry ::
  "services \<Rightarrow> entry_id option \<Rightarrow> string \<Rightarrow> data_svc \<Rightarrow> (ds_status \<times> entry_id option \<times> data_svc) outcome"
where
  "retrieveEntry svc None path s =
     (case ds_root s of
        None \<Rightarrow> Done (INVALID_ROOT, None, s)
      | Some root \<Rightarrow>
          if path = [] \<or> path = ds_rootName s then retrieveEntry svc (Some root) [] s
          else if \<not> starts_sep path then retrieveEntry svc (Some root) path s
          else
            (case find_sep1 path of
               None \<Rightarrow> Done (INVALID_OBJ_PATH, None, s)
             | Some sep \<Rightarrow>
                 if object_of (ds_heap s) root = None
                 then obind (retrieveEntry svc (Some root) [] s)
                        (\<lambda>(st, _, s). if st \<noteq> DS_SUCCESS then Done (st, None, s)
                           else (case ds_root s of
                                   None \<Rightarrow> Undefined
                                 | Some root \<Rightarrow> retrieveEntry svc (Some root) (drop sep path) s))
                 else retrieveEntry svc (Some root) (drop sep path) s))"
| "retrieveEntry svc (Some parentObj) path s =
     (if ds_root s = None then Done (INVALID_ROOT, None, s)
      else
        (case find_sep1 path of
           Some sep \<Rightarrow>
             obind (ensure_loaded svc parentObj s)
               (\<lambda>(st, s). if st \<noteq> DS_SUCCESS then Done (st, None, s)
                  else obind (find_or_fault svc parentObj (take sep path) s)
                    (\<lambda>(r, s). case r of
                       None \<Rightarrow> Done (INVALID_OBJ_PATH, None, s)
                     | Some root_entry \<Rightarrow>
                         (let pO = object_of (ds_heap s) root_entry
                          in obind (ensure_loaded svc root_entry s)
                               (\<lambda>(st, s). if st \<noteq> DS_SUCCESS then Done (st, None, s)
                                  else if is_soft (ds_heap s) root_entry
                                  then (case pO of
                                          None \<Rightarrow> Undefined
                                        | Some x \<Rightarrow> retrieveEntry svc (registry_of (ds_heap s) x) (drop sep path) s)
                                  else retrieveEntry svc (Some root_entry) (drop sep path) s))))
         | None \<Rightarrow>
             obind (if path = [] then Done (DS_SUCCESS, Some parentObj, s)
                    else obind (ensure_loaded svc parentObj s)
                      (\<lambda>(st, s). if st \<noteq> DS_SUCCESS then Done (st, None, s)
                         else obind (find_or_fault svc parentObj path s)
                           (\<lambda>(r, s). Done (if r = None then INVALID_OBJ_PATH else DS_SUCCESS, r, s))))
               (\<lambda>(st, r, s). case r of
                  None \<Rightarrow> Done (st, None, s)
                | Some e \<Rightarrow> obind (ensure_loaded svc e s) (\<lambda>(st, s). Done (st, Some e, s)))))"
  by pat_completeness auto
termination
  by (relation "measure (\<lambda>(svc, p, path, s). 2 * length path + (if p = None then 1 else 0))")
    (auto dest!: find_sep1_bounds)

definition retrieveObject ::
  "services \<Rightarrow> entry_id option \<Rightarrow> string \<Rightarrow> data_svc \<Rightarrow> (ds_status \<times> object_id option \<times> data_svc) outcome"
where
  "retrieveObject svc pRegistry path s =
     obind (retrieveEntry svc pRegistry path s)
       (\<lambda>(st, r, s).
          if st = DS_SUCCESS
          then (case r of None \<Rightarrow> Undefined | Some e \<Rightarrow> Done (st, object_of (ds_heap s) e, s))
          else Done (st, None, s))"

section \<open>Finding\<close>

definition findObject_at ::
  "entry_id option \<Rightarrow> string \<Rightarrow> data_svc \<Rightarrow> ds_status \<times> object_id option"
where
  "findObject_at pRegistry path s =
     (case (case pRegistry of Some e \<Rightarrow> Some e | None \<Rightarrow> ds_root s) of
        None \<Rightarrow> (OBJ_NOT_LOADED, None)
      | Some e \<Rightarrow>
          (case (if path = [] then Some e else i_find_path (ds_heap s) e path) of
             None \<Rightarrow> (INVALID_OBJ_PATH, None)
           | Some r \<Rightarrow>
               (case object_of (ds_heap s) r of
                  None \<Rightarrow> (OBJ_NOT_LOADED, None)
                | Some x \<Rightarrow> (NO_ERROR, Some x))))"

definition findObject :: "string \<Rightarrow> data_svc \<Rightarrow> ds_status \<times> object_id option" where
  "findObject path s =
     (case ds_root s of
        None \<Rightarrow> (INVALID_ROOT, None)
      | Some r \<Rightarrow>
          if path = [] \<or> path = ds_rootName s
          then (case object_of (ds_heap s) r of None \<Rightarrow> (OBJ_NOT_LOADED, None) | Some x \<Rightarrow> (NO_ERROR, Some x))
          else findObject_at (if starts_sep path then None else Some r) path s)"

section \<open>Updating\<close>

definition updateObject :: "services \<Rightarrow> object_id option \<Rightarrow> data_svc \<Rightarrow> (ds_status \<times> data_svc) outcome" where
  "updateObject svc toUpdate s =
     (case toUpdate of
        None \<Rightarrow> Done (INVALID_OBJECT, s)
      | Some x \<Rightarrow>
          (case registry_of (ds_heap s) x of
             None \<Rightarrow> Done (INVALID_OBJECT, s)
           | Some e \<Rightarrow>
               (case address_of (ds_heap s) e of
                  None \<Rightarrow> Done (INVALID_OBJ_ADDR, s)
                | Some a \<Rightarrow>
                    if \<not> ds_dataLoader s then Done (NO_DATA_LOADER, s)
                    else if fullpath_of (ds_heap s) e \<in> set (ds_inhibitPathes s) then Done (NO_ACCESS, s)
                    else
                      (case sv_updateObj svc a x s of
                         (Raised, s) \<Rightarrow> Throws
                       | (Ret st, s) \<Rightarrow>
                           if st \<noteq> DS_SUCCESS then Done (st, s)
                           else (case sv_updateObjRefs svc a x s of
                                   (Raised, s) \<Rightarrow> Throws
                                 | (Ret st, s) \<Rightarrow> Done (st, s))))))"

definition updateObject_at :: "services \<Rightarrow> entry_id option \<Rightarrow> data_svc \<Rightarrow> (ds_status \<times> data_svc) outcome" where
  "updateObject_at svc pRegistry s =
     (case pRegistry of
        None \<Rightarrow> Done (INVALID_OBJ_ADDR, s)
      | Some e \<Rightarrow>
          (case object_of (ds_heap s) e of
             None \<Rightarrow> loadObject svc e s
           | Some x \<Rightarrow> updateObject svc (Some x) s))"

section \<open>Registering\<close>

text \<open>\<open>createDefaultObject\<close>, \<open>delete\<close> of such an object, and its \<open>release\<close>.\<close>

definition createDefaultObject :: "data_svc \<Rightarrow> object_id \<times> data_svc" where
  "createDefaultObject s = (let (x, h) = new_object (ds_heap s) in (x, s\<lparr>ds_heap := h\<rparr>))"

definition delete_object :: "object_id \<Rightarrow> heap \<Rightarrow> heap" where
  "delete_object x h = h\<lparr>hp_objects := (hp_objects h)(x := None)\<rparr>"

text \<open>The last name of the path: a new entry, or one that has no object yet.\<close>

definition register_leaf ::
  "entry_id \<Rightarrow> string \<Rightarrow> object_id option \<Rightarrow> data_svc \<Rightarrow> (ds_status \<times> data_svc) outcome"
where
  "register_leaf node_entry objPath pObject s =
     (if objPath = [] then Undefined
      else
        (case i_find_path (ds_heap s) node_entry objPath of
           None \<Rightarrow>
             Done (if fst (add_object node_entry objPath pObject False (ds_heap s)) then DS_SUCCESS else DS_FAILURE,
                   on_heap (\<lambda>h. snd (add_object node_entry objPath pObject False h)) s)
         | Some leaf \<Rightarrow>
             if object_of (ds_heap s) leaf \<noteq> None then Done (DOUBL_OBJ_PATH, s)
             else
               (case pObject of
                  None \<Rightarrow> Done (DS_FAILURE, s)
                | Some x \<Rightarrow>
                    Done (DS_SUCCESS,
                      on_heap (\<lambda>h. setObject leaf (Some x)
                        (setAddress leaf None (obj_setRegistry (Some leaf) x h))) s))))"

text \<open>
  The entry for the front of the path: found, loaded if it has no object, or made by force, which
  gives the entry that is then there.
\<close>

definition open_parent ::
  "(data_svc \<Rightarrow> (entry_id option \<times> data_svc) outcome) \<Rightarrow> services \<Rightarrow> entry_id \<Rightarrow> string \<Rightarrow> data_svc \<Rightarrow>
   (ds_status \<times> entry_id option \<times> data_svc) outcome"
where
  "open_parent force svc node_entry p_path s =
     (case i_find_path (ds_heap s) node_entry p_path of
        None \<Rightarrow>
          if ds_forceLeaves s
          then obind (force s) (\<lambda>(par, s). Done (INVALID_PARENT, par, s))
          else Done (INVALID_PARENT, None, s)
      | Some par \<Rightarrow>
          if object_of (ds_heap s) par \<noteq> None then Done (INVALID_PARENT, Some par, s)
          else obind (retrieveEntry svc (Some node_entry) p_path s)
            (\<lambda>(st, par, s).
               if st = DS_SUCCESS then Done (st, par, s)
               else (case par of
                       None \<Rightarrow> Undefined
                     | Some e \<Rightarrow>
                         if address_of (ds_heap s) e = None \<and> ds_forceLeaves s
                         then obind (force s) (\<lambda>(par, s). Done (st, par, s))
                         else Done (st, Some e, s))))"

text \<open>
  The two overloads of \<open>registerObject\<close> call each other, and with ForceLeaves themselves for the
  missing nodes on the way.
\<close>

fun registerObject ::
    "nat \<Rightarrow> services \<Rightarrow> string \<Rightarrow> string \<Rightarrow> object_id option \<Rightarrow> data_svc \<Rightarrow> (ds_status \<times> data_svc) outcome"
  and registerObject_at ::
    "nat \<Rightarrow> services \<Rightarrow> object_id option \<Rightarrow> string \<Rightarrow> object_id option \<Rightarrow> data_svc \<Rightarrow> (ds_status \<times> data_svc) outcome"
where
  "registerObject 0 svc parentPath objPath pObject s = Exhausted"
| "registerObject (Suc fuel) svc parentPath objPath pObject s =
     obind (retrieveObject svc None parentPath s)
       (\<lambda>(st, pO, s).
          if st \<noteq> DS_SUCCESS \<and> ds_forceLeaves s
          then (let (d, s) = createDefaultObject s
                in obind (registerObject_at fuel svc None parentPath (Some d) s)
                     (\<lambda>(st, s). if st \<noteq> DS_SUCCESS then Done (st, on_heap (obj_release d) s)
                        else registerObject_at fuel svc (Some d) objPath pObject s))
          else if st = DS_SUCCESS then registerObject_at fuel svc pO objPath pObject s
          else Done (st, s))"
| "registerObject_at 0 svc parentObj objPath pObject s = Exhausted"
| "registerObject_at (Suc fuel) svc None objPath pObject s =
     (if ds_root s = None then Done (INVALID_ROOT, s)
      else if objPath = [] then Done (INVALID_OBJ_PATH, s)
      else if \<not> starts_sep objPath then registerObject fuel svc (ds_rootName s) objPath pObject s
      else
        (case find_sep1 objPath of
           None \<Rightarrow> Done (INVALID_OBJ_PATH, s)
         | Some sep \<Rightarrow> registerObject fuel svc (take sep objPath) (drop sep objPath) pObject s))"
| "registerObject_at (Suc fuel) svc (Some p) objPath pObject s =
     (if ds_root s = None then Done (INVALID_ROOT, s)
      else
        (case registry_of (ds_heap s) p of
           None \<Rightarrow> Done (INVALID_PARENT, s)
         | Some node_entry \<Rightarrow>
             (case find_sep1 objPath of
                None \<Rightarrow> register_leaf node_entry objPath pObject s
              | Some sep \<Rightarrow>
                  obind
                    (open_parent
                       (\<lambda>s. let (d, s) = createDefaultObject s
                          in obind (registerObject_at fuel svc (Some p) (take sep objPath) (Some d) s)
                               (\<lambda>(sc, s).
                                  let s = (if sc \<noteq> DS_SUCCESS then on_heap (delete_object d) s else s)
                                  in Done (i_find_path (ds_heap s) node_entry (take sep objPath), s)))
                       svc node_entry (take sep objPath) s)
                    (\<lambda>(st, par, s).
                       case Option.bind par (object_of (ds_heap s)) of
                         None \<Rightarrow> Done (st, s)
                       | Some obj \<Rightarrow> registerObject_at fuel svc (Some obj) (drop sep objPath) pObject s))))"

text \<open>\<open>registerObject\<close> by full path.\<close>

definition registerObject_full ::
  "nat \<Rightarrow> services \<Rightarrow> string \<Rightarrow> object_id option \<Rightarrow> data_svc \<Rightarrow> (ds_status \<times> data_svc) outcome"
where
  "registerObject_full fuel svc fullPath pObject s = registerObject_at fuel svc None fullPath pObject s"

section \<open>Unregistering\<close>

definition unregisterObject :: "string \<Rightarrow> data_svc \<Rightarrow> (ds_status \<times> data_svc) outcome" where
  "unregisterObject fullPath s =
     (case findObject fullPath s of
        (st, pObject) \<Rightarrow>
          if st \<noteq> DS_SUCCESS then Done (st, s)
          else
            (case Option.bind pObject (registry_of (ds_heap s)) of
               None \<Rightarrow> Done (INVALID_ROOT, s)
             | Some e \<Rightarrow>
                 if leaves_of (ds_heap s) e \<noteq> [] then Done (DIR_NOT_EMPTY, s)
                 else
                   (case parent_entry (ds_heap s) e of
                      None \<Rightarrow> Done (INVALID_PARENT, s)
                    | Some p \<Rightarrow>
                        Done (DS_SUCCESS,
                          on_heap (\<lambda>h. remove_entry p e (with_some obj_addRef pObject h)) s))))"

definition unregisterObject_ptr :: "object_id option \<Rightarrow> data_svc \<Rightarrow> (ds_status \<times> data_svc) outcome" where
  "unregisterObject_ptr pObject s =
     (case ds_root s of
        None \<Rightarrow> Done (INVALID_ROOT, s)
      | Some r \<Rightarrow>
          (case Option.bind pObject (i_find_object (depth_fuel (ds_heap s)) (ds_heap s) r) of
             None \<Rightarrow> Done (INVALID_OBJECT, s)
           | Some e \<Rightarrow>
               (case parent_entry (ds_heap s) e of
                  None \<Rightarrow> Done (INVALID_PARENT, s)
                | Some p \<Rightarrow>
                    if leaves_of (ds_heap s) e \<noteq> [] then Done (DIR_NOT_EMPTY, s)
                    else Done (DS_SUCCESS,
                      on_heap (\<lambda>h. remove_entry p e (with_some obj_addRef (object_of h e) h)) s))))"

text \<open>The entry found may lie deeper; it is removed from the leaves of the parent itself.\<close>

definition unregisterObject_at ::
  "object_id option \<Rightarrow> string \<Rightarrow> data_svc \<Rightarrow> (ds_status \<times> data_svc) outcome"
where
  "unregisterObject_at pParentObj objectPath s =
     (if ds_root s = None then Done (INVALID_ROOT, s)
      else
        (case pParentObj of
           None \<Rightarrow> Undefined
         | Some x \<Rightarrow>
             (case registry_of (ds_heap s) x of
                None \<Rightarrow> Done (INVALID_PARENT, s)
              | Some parent \<Rightarrow>
                  if objectPath = [] then Undefined
                  else
                    (case i_find_path (ds_heap s) parent objectPath of
                       None \<Rightarrow> Done (INVALID_OBJECT, s)
                     | Some e \<Rightarrow>
                         if leaves_of (ds_heap s) e \<noteq> [] then Done (DIR_NOT_EMPTY, s)
                         else Done (DS_SUCCESS,
                           on_heap (\<lambda>h. remove_entry parent e (with_some obj_addRef (object_of h e) h)) s)))))"

section \<open>Addresses\<close>

text \<open>\<open>rfind\<close> of the separator, when it is found after the first character.\<close>

definition deep_sep :: "string \<Rightarrow> nat option" where
  "deep_sep p = (case last_sep p of Some n \<Rightarrow> if 0 < n then Some n else None | None \<Rightarrow> None)"

fun registerAddress_at ::
  "nat \<Rightarrow> services \<Rightarrow> entry_id option \<Rightarrow> string \<Rightarrow> address_id option \<Rightarrow> data_svc \<Rightarrow> (ds_status \<times> data_svc) outcome"
where
  "registerAddress_at 0 svc parentObj objPath pAddress s = Exhausted"
| "registerAddress_at (Suc fuel) svc parentObj objPath pAddress s =
     (if ds_root s = None then Done (INVALID_ROOT, s)
      else if objPath = [] then Done (INVALID_OBJ_PATH, s)
      else
        (case parentObj of
           None \<Rightarrow>
             if \<not> starts_sep objPath then registerAddress_at fuel svc (ds_root s) objPath pAddress s
             else
               (case find_sep1 objPath of
                  None \<Rightarrow> Done (INVALID_PARENT, s)
                | Some sep \<Rightarrow>
                    if take sep objPath \<noteq> ds_rootName s then Done (INVALID_PARENT, s)
                    else registerAddress_at fuel svc (ds_root s) (drop sep objPath) pAddress s)
         | Some par \<Rightarrow>
             if \<not> starts_sep objPath
             then registerAddress_at fuel svc parentObj (SEPARATOR # objPath) pAddress s
             else
               (case deep_sep objPath of
                  Some sep \<Rightarrow>
                    (let p_path = take sep objPath; o_path = drop sep objPath
                     in obind
                          (case i_find_path (ds_heap s) par p_path of
                             Some e \<Rightarrow> Done (Some e, s)
                           | None \<Rightarrow>
                               if ds_forceLeaves s
                               then (let (d, s) = createDefaultObject s
                                     in obind (registerObject fuel svc (fullpath_of (ds_heap s) par) p_path (Some d) s)
                                          (\<lambda>(sc, s).
                                             let s = (if sc \<noteq> DS_SUCCESS then on_heap (delete_object d) s else s)
                                             in Done (i_find_path (ds_heap s) par p_path, s)))
                               else Done (None, s))
                          (\<lambda>(p_entry, s).
                             case p_entry of
                               None \<Rightarrow> Done (INVALID_PARENT, s)
                             | Some e \<Rightarrow> registerAddress_at fuel svc (Some e) o_path pAddress s))
                | None \<Rightarrow>
                    (let (ok, h) = add_address par objPath pAddress False (ds_heap s)
                     in Done (if ok then DS_SUCCESS else DOUBL_OBJ_PATH, s\<lparr>ds_heap := h\<rparr>)))))"

definition registerAddress ::
  "nat \<Rightarrow> services \<Rightarrow> string \<Rightarrow> address_id option \<Rightarrow> data_svc \<Rightarrow> (ds_status \<times> data_svc) outcome"
where
  "registerAddress fuel svc fullPath pAddress s =
     (if fullPath = [] then Done (INVALID_OBJ_PATH, s)
      else registerAddress_at fuel svc (if starts_sep fullPath then None else ds_root s) fullPath pAddress s)"

fun unregisterAddress_at ::
  "nat \<Rightarrow> entry_id option \<Rightarrow> string \<Rightarrow> data_svc \<Rightarrow> (ds_status \<times> data_svc) outcome"
where
  "unregisterAddress_at 0 pParent objPath s = Exhausted"
| "unregisterAddress_at (Suc fuel) pParent objPath s =
     (if ds_root s = None then Done (INVALID_ROOT, s)
      else if objPath = [] then Done (INVALID_OBJ_PATH, s)
      else
        (case pParent of
           None \<Rightarrow>
             if \<not> starts_sep objPath then unregisterAddress_at fuel (ds_root s) objPath s
             else
               (case find_sep1 objPath of
                  None \<Rightarrow> Done (INVALID_PARENT, s)
                | Some sep \<Rightarrow>
                    if take sep objPath = ds_rootName s
                    then unregisterAddress_at fuel (ds_root s) (drop sep objPath) s
                    else Done (INVALID_PARENT, s))
         | Some node_entry \<Rightarrow>
             if \<not> starts_sep objPath then unregisterAddress_at fuel pParent (SEPARATOR # objPath) s
             else
               (case i_find_path (ds_heap s) node_entry objPath of
                  None \<Rightarrow> Done (INVALID_PARENT, s)
                | Some leaf_entry \<Rightarrow>
                    (case deep_sep objPath of
                       Some sep \<Rightarrow>
                         unregisterAddress_at fuel (parent_entry (ds_heap s) leaf_entry) (drop sep objPath) s
                     | None \<Rightarrow>
                         (let (ok, h) = remove_name node_entry objPath (ds_heap s)
                          in Done (if ok then DS_SUCCESS else INVALID_PARENT, s\<lparr>ds_heap := h\<rparr>))))))"

definition unregisterAddress :: "nat \<Rightarrow> string \<Rightarrow> data_svc \<Rightarrow> (ds_status \<times> data_svc) outcome" where
  "unregisterAddress fuel fullPath s =
     (if fullPath = [] then Done (INVALID_OBJ_PATH, s)
      else unregisterAddress_at fuel (if starts_sep fullPath then None else ds_root s) fullPath s)"

section \<open>Links\<close>

text \<open>\<open>findLeaf(to)\<close> over the whole tree; the link is set at the last name of the path.\<close>

definition registered :: "data_svc \<Rightarrow> object_id option \<Rightarrow> bool" where
  "registered s x =
     (case ds_root s of
        None \<Rightarrow> False
      | Some r \<Rightarrow> Option.bind x (i_find_object (depth_fuel (ds_heap s)) (ds_heap s) r) \<noteq> None)"

fun linkObject_at ::
  "nat \<Rightarrow> services \<Rightarrow> entry_id option \<Rightarrow> string \<Rightarrow> object_id option \<Rightarrow> data_svc \<Rightarrow> (ds_status \<times> data_svc) outcome"
where
  "linkObject_at 0 svc from objPath target s = Exhausted"
| "linkObject_at (Suc fuel) svc from objPath target s =
     (if ds_root s = None then Done (INVALID_ROOT, s)
      else
        (case from of
           None \<Rightarrow> Done (INVALID_PARENT, s)
         | Some e \<Rightarrow>
             if \<not> registered s target then Done (INVALID_OBJECT, s)
             else
               (case deep_sep objPath of
                  Some sep \<Rightarrow>
                    obind (retrieveObject svc from (take sep objPath) s)
                      (\<lambda>(sc, pO, s).
                         if sc \<noteq> DS_SUCCESS then Done (sc, s)
                         else (case pO of
                                 None \<Rightarrow> Undefined
                               | Some x \<Rightarrow> linkObject_at fuel svc (registry_of (ds_heap s) x) (drop sep objPath) target s))
                | None \<Rightarrow>
                    if objPath = [] then Undefined
                    else
                      (let (ok, h) = add_object e objPath target True (ds_heap s)
                       in Done (if ok then NO_ERROR else DOUBL_OBJ_PATH, s\<lparr>ds_heap := h\<rparr>)))))"

text \<open>\<open>linkObject(fromPath, objPath, to)\<close> and \<open>linkObject(fullPath, to)\<close>.\<close>

definition linkObject_path ::
  "nat \<Rightarrow> services \<Rightarrow> string \<Rightarrow> string \<Rightarrow> object_id option \<Rightarrow> data_svc \<Rightarrow> (ds_status \<times> data_svc) outcome"
where
  "linkObject_path fuel svc fromPath objPath target s =
     obind (retrieveObject svc None fromPath s)
       (\<lambda>(st, pO, s).
          if st \<noteq> DS_SUCCESS then Done (st, s)
          else (case pO of
                  None \<Rightarrow> Undefined
                | Some x \<Rightarrow> linkObject_at fuel svc (registry_of (ds_heap s) x) objPath target s))"

definition linkObject ::
  "nat \<Rightarrow> services \<Rightarrow> string \<Rightarrow> object_id option \<Rightarrow> data_svc \<Rightarrow> (ds_status \<times> data_svc) outcome"
where
  "linkObject fuel svc fullPath target s =
     (if fullPath = [] then Done (INVALID_OBJ_PATH, s)
      else if \<not> starts_sep fullPath then linkObject_path fuel svc (ds_rootName s) fullPath target s
      else (case last_sep fullPath of
              None \<Rightarrow> Undefined
            | Some sep \<Rightarrow> linkObject_path fuel svc (take sep fullPath) (drop sep fullPath) target s))"

fun unlinkObject_at :: "nat \<Rightarrow> entry_id option \<Rightarrow> string \<Rightarrow> data_svc \<Rightarrow> (ds_status \<times> data_svc) outcome" where
  "unlinkObject_at 0 from objPath s = Exhausted"
| "unlinkObject_at (Suc fuel) from objPath s =
     (if ds_root s = None then Done (INVALID_ROOT, s)
      else
        (case from of
           None \<Rightarrow> Done (INVALID_PARENT, s)
         | Some e \<Rightarrow>
             (case deep_sep objPath of
                Some sep \<Rightarrow>
                  (case findObject_at from (take sep objPath) s of
                     (sc, pO) \<Rightarrow>
                       if sc \<noteq> DS_SUCCESS then Done (sc, s)
                       else unlinkObject_at fuel (Option.bind pO (registry_of (ds_heap s))) (drop sep objPath) s)
              | None \<Rightarrow>
                  if objPath = [] then Undefined
                  else
                    (let (ok, h) = remove_name e objPath (ds_heap s)
                     in Done (if ok then DS_SUCCESS else INVALID_OBJ_PATH, s\<lparr>ds_heap := h\<rparr>)))))"

definition unlinkObject_path :: "nat \<Rightarrow> string \<Rightarrow> string \<Rightarrow> data_svc \<Rightarrow> (ds_status \<times> data_svc) outcome" where
  "unlinkObject_path fuel fromPath objPath s =
     (case findObject fromPath s of
        (st, pObject) \<Rightarrow>
          if st \<noteq> DS_SUCCESS then Done (st, s)
          else unlinkObject_at fuel (Option.bind pObject (registry_of (ds_heap s))) objPath s)"

definition unlinkObject :: "nat \<Rightarrow> string \<Rightarrow> data_svc \<Rightarrow> (ds_status \<times> data_svc) outcome" where
  "unlinkObject fuel fullPath s =
     (if fullPath = [] then Done (INVALID_OBJ_PATH, s)
      else if \<not> starts_sep fullPath then unlinkObject_path fuel (ds_rootName s) fullPath s
      else (case last_sep fullPath of
              None \<Rightarrow> Undefined
            | Some sep \<Rightarrow> unlinkObject_path fuel (take sep fullPath) (drop sep fullPath) s))"

definition unlinkObject_ptr :: "nat \<Rightarrow> object_id option \<Rightarrow> string \<Rightarrow> data_svc \<Rightarrow> (ds_status \<times> data_svc) outcome" where
  "unlinkObject_ptr fuel from objPath s =
     (case ds_root s of
        None \<Rightarrow> Done (INVALID_ROOT, s)
      | Some r \<Rightarrow>
          unlinkObject_at fuel (Option.bind from (i_find_object (depth_fuel (ds_heap s)) (ds_heap s) r)) objPath s)"

section \<open>The whole store\<close>

definition clearStore :: "data_svc \<Rightarrow> data_svc" where
  "clearStore s =
     (case ds_root s of
        None \<Rightarrow> s
      | Some r \<Rightarrow> s\<lparr>ds_heap := free_entry r (deleteElements (depth_fuel (ds_heap s)) r (ds_heap s)),
                    ds_root := None\<rparr>)"

text \<open>\<open>i_setRoot\<close>: the new root takes the place of the old one, if there still is one.\<close>

definition i_setRoot :: "(entry_id \<Rightarrow> heap \<Rightarrow> heap) \<Rightarrow> string \<Rightarrow> data_svc \<Rightarrow> data_svc" where
  "i_setRoot hold root_path s =
     (let (r, h) = new_entry root_path None (ds_heap s);
          s = (clearStore (s\<lparr>ds_heap := h\<rparr>))\<lparr>ds_root := Some r\<rparr>
      in on_heap (\<lambda>h. upd_entry r (\<lambda>e. e\<lparr>re_dataSvc := True\<rparr>) (hold r h)) s)"

definition setRoot_object :: "string \<Rightarrow> object_id option \<Rightarrow> data_svc \<Rightarrow> data_svc" where
  "setRoot_object root_path pRootObj s =
     (if pRootObj = None then clearStore s
      else i_setRoot (\<lambda>r. makeHard_object r pRootObj) root_path (clearStore s))"

definition setRoot_address :: "string \<Rightarrow> address_id option \<Rightarrow> data_svc \<Rightarrow> data_svc" where
  "setRoot_address root_path pRootAddr s =
     (if pRootAddr = None then clearStore s
      else i_setRoot (\<lambda>r. makeHard_address r pRootAddr) root_path (clearStore s))"

definition clearSubTree :: "string \<Rightarrow> data_svc \<Rightarrow> ds_status \<times> data_svc" where
  "clearSubTree path s =
     (case findObject path s of
        (st, pObject) \<Rightarrow>
          if st \<noteq> DS_SUCCESS then (st, s)
          else
            (case Option.bind pObject (registry_of (ds_heap s)) of
               None \<Rightarrow> (INVALID_OBJECT, s)
             | Some e \<Rightarrow>
                 (case parent_entry (ds_heap s) e of
                    None \<Rightarrow> (INVALID_PARENT, s)
                  | Some p \<Rightarrow> (DS_SUCCESS, on_heap (remove_entry p e) s))))"

definition clearSubTree_ptr :: "object_id \<Rightarrow> data_svc \<Rightarrow> ds_status \<times> data_svc" where
  "clearSubTree_ptr x s =
     (if ds_root s = None then (INVALID_ROOT, s)
      else
        (case registry_of (ds_heap s) x of
           None \<Rightarrow> (INVALID_OBJECT, s)
         | Some e \<Rightarrow>
             (case parent_entry (ds_heap s) e of
                None \<Rightarrow> (INVALID_PARENT, s)
              | Some p \<Rightarrow> (DS_SUCCESS, on_heap (remove_entry p e) s))))"

definition objectParent :: "object_id option \<Rightarrow> data_svc \<Rightarrow> ds_status \<times> entry_id option" where
  "objectParent pObject s =
     (if pObject = None then (INVALID_OBJECT, None)
      else if ds_root s = None then (INVALID_ROOT, None)
      else (case Option.bind pObject (registry_of (ds_heap s)) of
              None \<Rightarrow> (INVALID_OBJECT, None)
            | Some e \<Rightarrow> (DS_SUCCESS, parent_entry (ds_heap s) e)))"

definition objectLeaves :: "object_id option \<Rightarrow> data_svc \<Rightarrow> ds_status \<times> entry_id list" where
  "objectLeaves pObject s =
     (if pObject = None then (INVALID_OBJECT, [])
      else if ds_root s = None then (INVALID_ROOT, [])
      else (case Option.bind pObject (registry_of (ds_heap s)) of
              None \<Rightarrow> (INVALID_OBJECT, [])
            | Some e \<Rightarrow> (DS_SUCCESS, leaves_of (ds_heap s) e)))"

definition traverse_store ::
  "(entry_id \<Rightarrow> nat \<Rightarrow> 'a \<Rightarrow> bool \<times> 'a) \<Rightarrow> 'a \<Rightarrow> data_svc \<Rightarrow> ds_status \<times> 'a"
where
  "traverse_store analyse a s =
     (case ds_root s of
        None \<Rightarrow> (INVALID_ROOT, a)
      | Some r \<Rightarrow> (DS_SUCCESS, traverseTree (depth_fuel (ds_heap s)) (ds_heap s) analyse r 0 a))"

definition traverseSubTree ::
  "string \<Rightarrow> (entry_id \<Rightarrow> nat \<Rightarrow> 'a \<Rightarrow> bool \<times> 'a) \<Rightarrow> 'a \<Rightarrow> data_svc \<Rightarrow> ds_status \<times> 'a"
where
  "traverseSubTree path analyse a s =
     (case findObject path s of
        (st, pO) \<Rightarrow>
          if st \<noteq> DS_SUCCESS then (st, a)
          else
            (case Option.bind pO (registry_of (ds_heap s)) of
               None \<Rightarrow> (INVALID_OBJECT, a)
             | Some e \<Rightarrow> (DS_SUCCESS, traverseTree (depth_fuel (ds_heap s)) (ds_heap s) analyse e 0 a)))"

text \<open>The list of items to load.\<close>

definition addPreLoadItem :: "string \<times> int \<Rightarrow> data_svc \<Rightarrow> data_svc" where
  "addPreLoadItem item s = s\<lparr>ds_preLoads := push_unique item (ds_preLoads s)\<rparr>"

definition removePreLoadItem :: "string \<times> int \<Rightarrow> data_svc \<Rightarrow> data_svc" where
  "removePreLoadItem item s = s\<lparr>ds_preLoads := removeAll item (ds_preLoads s)\<rparr>"

definition resetPreLoad :: "data_svc \<Rightarrow> data_svc" where
  "resetPreLoad s = s\<lparr>ds_preLoads := []\<rparr>"

definition finalize_store :: "data_svc \<Rightarrow> data_svc" where
  "finalize_store s = clearStore (resetPreLoad (s\<lparr>ds_dataLoader := False\<rparr>))"

text \<open>
  \<open>preLoad\<close>: every leaf of the object's entry is retrieved, and below it the next level; the
  first argument is \<open>load_depth - depth\<close>.
\<close>

fun each :: "('a \<Rightarrow> 's \<Rightarrow> 's outcome) \<Rightarrow> 'a list \<Rightarrow> 's \<Rightarrow> 's outcome" where
  "each f [] s = Done s"
| "each f (x # xs) s = obind (f x s) (each f xs)"

fun preLoad_object :: "nat \<Rightarrow> services \<Rightarrow> object_id option \<Rightarrow> data_svc \<Rightarrow> data_svc outcome" where
  "preLoad_object 0 svc pObject s = Done s"
| "preLoad_object (Suc n) svc pObject s =
     (case Option.bind pObject (registry_of (ds_heap s)) of
        None \<Rightarrow> Done s
      | Some dir \<Rightarrow>
          each (\<lambda>i s. obind (retrieveObject svc (Option.bind pObject (registry_of (ds_heap s))) (path_of (ds_heap s) i) s)
                   (\<lambda>(st, pObj, s). if st = DS_SUCCESS \<and> 0 < n then preLoad_object n svc pObj s else Done s))
            (leaves_of (ds_heap s) dir) s)"

definition preLoad :: "services \<Rightarrow> data_svc \<Rightarrow> data_svc outcome" where
  "preLoad svc s =
     each (\<lambda>(path, load_depth) s. obind (retrieveObject svc None path s)
         (\<lambda>(st, pObj, s).
            if st = DS_SUCCESS \<and> 1 < load_depth then preLoad_object (nat (load_depth - 1)) svc pObj s
            else Done s))
       (ds_preLoads s) s"

end
