(* ===== verification/Data_Store_Facts.thy ===== *)
theory Data_Store_Facts
  imports Data_Store
begin

text \<open>
  What every operation of the data store keeps, whatever the conversion service and the incident
  listeners do within their contract: the entries form trees under the root, and nothing points
  to freed memory.
\<close>

section \<open>Soundness of the store\<close>

definition root_ok :: "data_svc \<Rightarrow> bool" where
  "root_ok s \<longleftrightarrow> (\<forall>r. ds_root s = Some r \<longrightarrow> alive (ds_heap s) r \<and> parent_entry (ds_heap s) r = None)"

definition sound :: "data_svc \<Rightarrow> bool" where
  "sound s \<longleftrightarrow> tree_ok (ds_heap s) \<and> hold_ok (ds_heap s) \<and> root_ok s"

text \<open>Calls from inside the store add to it and take nothing away.\<close>

definition extends :: "data_svc \<Rightarrow> data_svc \<Rightarrow> bool" where
  "extends s s' \<longleftrightarrow> ds_root s' = ds_root s \<and> ds_forceLeaves s' = ds_forceLeaves s \<and>
     (\<forall>e. alive (ds_heap s) e \<longrightarrow> alive (ds_heap s') e) \<and>
     (\<forall>x. hp_objects (ds_heap s) x \<noteq> None \<longrightarrow> hp_objects (ds_heap s') x \<noteq> None)"

lemma extends_refl [simp]: "extends s s"
  by (simp add: extends_def)

lemma extends_trans [trans]: "extends s t \<Longrightarrow> extends t u \<Longrightarrow> extends s u"
  by (simp add: extends_def)

definition keeps :: "data_svc \<Rightarrow> data_svc \<Rightarrow> bool" where
  "keeps s s' \<longleftrightarrow> (sound s \<longrightarrow> sound s' \<and> extends s s')"

lemma keeps_refl [simp]: "keeps s s"
  by (simp add: keeps_def)

lemma keeps_trans: "keeps s t \<Longrightarrow> keeps t u \<Longrightarrow> keeps s u"
  using extends_trans by (auto simp: keeps_def)

lemma keepsD: "keeps s s' \<Longrightarrow> sound s \<Longrightarrow> sound s'" "keeps s s' \<Longrightarrow> sound s \<Longrightarrow> extends s s'"
  by (simp_all add: keeps_def)

text \<open>
  The contract of the services: each call keeps the store sound and extends it, and an object
  that was created is alive and not yet in an entry that waits for it; the listeners of the
  access incident do not fill such an entry either.
\<close>

definition services_ok :: "services \<Rightarrow> bool" where
  "services_ok svc \<longleftrightarrow>
     (\<forall>a s r s'. sv_createObj svc a s = (r, s') \<longrightarrow> keeps s s' \<and>
        (\<forall>e. object_of (ds_heap s) e = None \<and> alive (ds_heap s) e \<longrightarrow> object_of (ds_heap s') e = None) \<and>
        (\<forall>st x. r = Ret (st, Some x) \<longrightarrow> hp_objects (ds_heap s') x \<noteq> None)) \<and>
     (\<forall>a p s r s'. sv_fillObjRefs svc a p s = (r, s') \<longrightarrow> keeps s s') \<and>
     (\<forall>a x s r s'. sv_updateObj svc a x s = (r, s') \<longrightarrow> keeps s s') \<and>
     (\<forall>a x s r s'. sv_updateObjRefs svc a x s = (r, s') \<longrightarrow> keeps s s') \<and>
     (\<forall>t p s. keeps s (sv_fireIncident svc t p s)) \<and>
     (\<forall>p s e. object_of (ds_heap s) e = None \<and> alive (ds_heap s) e \<longrightarrow>
        object_of (ds_heap (sv_fireIncident svc DataAccess p s)) e = None)"

lemma services_okD:
  assumes "services_ok svc"
  shows "sv_createObj svc a s = (r, s') \<Longrightarrow> keeps s s'"
    "sv_createObj svc a s = (r, s') \<Longrightarrow> object_of (ds_heap s) e = None \<Longrightarrow> alive (ds_heap s) e \<Longrightarrow>
      object_of (ds_heap s') e = None"
    "sv_createObj svc a s = (Ret (st, Some x), s') \<Longrightarrow> hp_objects (ds_heap s') x \<noteq> None"
    "sv_fillObjRefs svc a p s = (rf, s') \<Longrightarrow> keeps s s'"
    "sv_updateObj svc a x s = (rf, s') \<Longrightarrow> keeps s s'"
    "sv_updateObjRefs svc a x s = (rf, s') \<Longrightarrow> keeps s s'"
    "keeps s (sv_fireIncident svc t q s)"
    "object_of (ds_heap s) e = None \<Longrightarrow> alive (ds_heap s) e \<Longrightarrow>
      object_of (ds_heap (sv_fireIncident svc DataAccess q s)) e = None"
proof -
  note c = assms [unfolded services_ok_def]
  note c1 = c [THEN conjunct1, rule_format] and c2 = c [THEN conjunct2, THEN conjunct1, rule_format]
    and c3 = c [THEN conjunct2, THEN conjunct2, THEN conjunct1, rule_format]
    and c4 = c [THEN conjunct2, THEN conjunct2, THEN conjunct2, THEN conjunct1, rule_format]
    and c5 = c [THEN conjunct2, THEN conjunct2, THEN conjunct2, THEN conjunct2, THEN conjunct1, rule_format]
    and c6 = c [THEN conjunct2, THEN conjunct2, THEN conjunct2, THEN conjunct2, THEN conjunct2, rule_format]
  show "sv_createObj svc a s = (r, s') \<Longrightarrow> keeps s s'"
    "sv_createObj svc a s = (r, s') \<Longrightarrow> object_of (ds_heap s) e = None \<Longrightarrow> alive (ds_heap s) e \<Longrightarrow>
      object_of (ds_heap s') e = None"
    "sv_createObj svc a s = (Ret (st, Some x), s') \<Longrightarrow> hp_objects (ds_heap s') x \<noteq> None"
    using c1 by fast+
  show "sv_fillObjRefs svc a p s = (rf, s') \<Longrightarrow> keeps s s'" by (rule c2)
  show "sv_updateObj svc a x s = (rf, s') \<Longrightarrow> keeps s s'" by (rule c3)
  show "sv_updateObjRefs svc a x s = (rf, s') \<Longrightarrow> keeps s s'" by (rule c4)
  show "keeps s (sv_fireIncident svc t q s)" by (rule c5)
  show "object_of (ds_heap s) e = None \<Longrightarrow> alive (ds_heap s) e \<Longrightarrow>
      object_of (ds_heap (sv_fireIncident svc DataAccess q s)) e = None"
    by (rule c6) (rule conjI)
qed

lemma find_leaf_unfold:
  "path \<noteq> [] \<Longrightarrow> find_leaf h e path =
     (case find (name_is h (takeWhile (\<lambda>c. c \<noteq> SEPARATOR) path)) (leaves_of h e) of
        Some c \<Rightarrow> if drop 1 (dropWhile (\<lambda>c. c \<noteq> SEPARATOR) path) = [] then Some c
                  else find_leaf h c (strip_sep (drop 1 (dropWhile (\<lambda>c. c \<noteq> SEPARATOR) path)))
      | None \<Rightarrow> if takeWhile (\<lambda>c. c \<noteq> SEPARATOR) path \<noteq> drop 1 (path_of h e) then None
                else find_leaf h e (drop 1 (dropWhile (\<lambda>c. c \<noteq> SEPARATOR) path)))"
  by (subst find_leaf.simps) (simp only: Let_def if_False)

lemma find_leaf_Nil [simp]: "find_leaf h e [] = None"
  by (simp add: find_leaf.simps)

lemma find_leaf_Some: "find_leaf h e path = Some c \<Longrightarrow> \<exists>d. c \<in> set (leaves_of h d)"
proof (induction "length path" arbitrary: e path rule: less_induct)
  case less
  let ?cp = "takeWhile (\<lambda>c. c \<noteq> SEPARATOR) path" and ?rest = "drop 1 (dropWhile (\<lambda>c. c \<noteq> SEPARATOR) path)"
  have ne: "path \<noteq> []" using less.prems by auto
  note IH = less.hyps [OF rest_shorter [OF ne]] less.hyps [OF strip_rest_shorter [OF ne]]
  show ?case
  proof (cases "find (name_is h ?cp) (leaves_of h e)")
    case None
    with less.prems IH(1) show ?thesis by (auto simp: find_leaf_unfold [OF ne] split: if_splits)
  next
    case (Some d)
    then have "d \<in> set (leaves_of h e)" by (auto simp: find_Some_iff)
    with less.prems IH(2) Some show ?thesis by (auto simp: find_leaf_unfold [OF ne] split: if_splits)
  qed
qed

lemma find_leaf_alive: "tree_ok h \<Longrightarrow> find_leaf h e path = Some c \<Longrightarrow> alive h c"
  using find_leaf_Some tree_okD(6) by blast

lemma i_find_alive: "tree_ok h \<Longrightarrow> i_find_path h e path = Some c \<Longrightarrow> alive h c"
  by (simp add: i_find_path_def find_leaf_alive)

lemma registry_alive: "hold_ok h \<Longrightarrow> registry_of h x = Some e \<Longrightarrow> alive h e"
  using hold_okD(4) [of h x e] by (auto simp: alive_def entry_get_def split: option.splits)

section \<open>Loading\<close>

lemma soundD:
  assumes "sound s"
  shows "tree_ok (ds_heap s)" "hold_ok (ds_heap s)" "ds_root s = Some r \<Longrightarrow> alive (ds_heap s) r"
  using assms by (simp_all add: sound_def root_ok_def)

lemma extends_alive: "extends s s' \<Longrightarrow> alive (ds_heap s) e \<Longrightarrow> alive (ds_heap s') e"
  by (simp add: extends_def)

lemma handleDataFault_keeps:
  "services_ok svc \<Longrightarrow> handleDataFault svc p path s = Done (x, s') \<Longrightarrow> keeps s s'"
  by (auto simp: handleDataFault_def Let_def services_okD(7) split: if_splits option.splits)

lemma or_fault_keeps:
  assumes "services_ok svc" "or_fault svc e r s = Done (st, s')"
  shows "keeps s s'"
  using assms(2) handleDataFault_keeps [OF assms(1)]
  by (auto simp: or_fault_def split: if_splits outcome.splits prod.splits)

lemma same_heap_sound:
  assumes "sound s" "same_tree (ds_heap s) h" "hold_ok h"
  shows "sound (s\<lparr>ds_heap := h\<rparr>)"
  using assms same_tree_ok [OF assms(2)] by (auto simp: sound_def root_ok_def same_tree_def)

lemma setObject_keeps:
  assumes "alive (ds_heap s) e" "object_of (ds_heap s) e = None" "p = None \<or> (\<exists>x. p = Some x \<and> hp_objects (ds_heap s) x \<noteq> None)"
  shows "keeps s (on_heap (setObject e p) s)"
  unfolding keeps_def
proof
  assume s: "sound s"
  have "hold_ok (setObject e p (ds_heap s))"
    using assms soundD(2) [OF s] by (auto intro: setObject_hold setObject_None set_soft_hold)
  with same_heap_sound [OF s setObject_tree] have "sound (on_heap (setObject e p) s)" by simp
  moreover have "extends s (on_heap (setObject e p) s)"
    using setObject_objects [OF assms(2), of p] by (auto simp: extends_def setObject_get split: option.splits)
  ultimately show "sound (on_heap (setObject e p) s) \<and> extends s (on_heap (setObject e p) s)" ..
qed

lemma loadObject_keeps:
  assumes ok: "services_ok svc" and e: "alive (ds_heap s) e" and s: "sound s"
    and none: "object_of (ds_heap s) e = None"
    and load: "loadObject svc e s = Done (st, s')"
  shows "keeps s s'"
proof (cases "ds_dataLoader s")
  case False
  with load or_fault_keeps [OF ok] show ?thesis by (simp add: loadObject_def)
next
  case True
  define s1 where "s1 = (if ds_enableAccessHdlr s then sv_fireIncident svc DataAccess (fullpath_of (ds_heap s) e) s else s)"
  have k1: "keeps s s1" by (simp add: s1_def services_okD(7) [OF ok])
  have none1: "object_of (ds_heap s1) e = None" using none services_okD(8) [OF ok none e] by (simp add: s1_def)
  note sound1 = keepsD(1) [OF k1 s]
  have alive1: "alive (ds_heap s1) e" using extends_alive [OF keepsD(2) [OF k1 s] e] .
  show ?thesis
  proof (cases "fullpath_of (ds_heap s1) e \<in> set (ds_inhibitPathes s1) \<or> address_of (ds_heap s1) e = None")
    case True
    with load k1 \<open>ds_dataLoader s\<close> show ?thesis
      by (auto simp: loadObject_def Let_def s1_def [symmetric] split: if_splits option.splits)
  next
    case False
    then obtain a where a: "address_of (ds_heap s1) e = Some a" by blast
    obtain r s2 where c: "sv_createObj svc a s1 = (r, s2)" by fastforce
    note k2 = keeps_trans [OF k1 services_okD(1) [OF ok c]]
    note none2 = services_okD(2) [OF ok c none1 alive1]
    have alive2: "alive (ds_heap s2) e"
      using extends_alive [OF keepsD(2) [OF services_okD(1) [OF ok c] sound1] alive1] .
    have run: "(case r of Raised \<Rightarrow> or_fault svc e Throws s2
       | Ret (st, pObject) \<Rightarrow>
           if st \<noteq> DS_SUCCESS then or_fault svc e (Done (st, s2)) s2
           else (case sv_fillObjRefs svc a pObject (on_heap (setObject e pObject) s2) of
                   (Raised, s) \<Rightarrow> or_fault svc e Throws s
                 | (Ret st, s) \<Rightarrow> if st \<noteq> DS_SUCCESS then or_fault svc e (Done (st, s)) s else Done (st, s)))
        = Done (st, s')"
      using load False \<open>ds_dataLoader s\<close> a c
      by (auto simp: loadObject_def Let_def s1_def [symmetric] split: call.splits prod.splits)
    show ?thesis
    proof (cases r)
      case Raised
      with run or_fault_keeps [OF ok] k2 keeps_trans show ?thesis by force
    next
      case (Ret x)
      obtain st1 p where x: "x = (st1, p)" by fastforce
      show ?thesis
      proof (cases "st1 = DS_SUCCESS")
        case False
        with run Ret x or_fault_keeps [OF ok] k2 keeps_trans show ?thesis by force
      next
        case True
        let ?s3 = "on_heap (setObject e p) s2"
        have "p = None \<or> (\<exists>x. p = Some x \<and> hp_objects (ds_heap s2) x \<noteq> None)"
          using services_okD(3) [OF ok] c Ret x by (cases p) auto
        note k3 = keeps_trans [OF k2 setObject_keeps [OF alive2 none2 this]]
        obtain r4 s4 where f: "sv_fillObjRefs svc a p ?s3 = (r4, s4)" by fastforce
        note k4 = keeps_trans [OF k3 services_okD(4) [OF ok f]]
        show ?thesis
        proof (cases r4)
          case Raised
          with run Ret x True f or_fault_keeps [OF ok] k4 keeps_trans show ?thesis by force
        next
          case (Ret st4)
          with run \<open>r = Ret x\<close> x True f have "(if st4 \<noteq> DS_SUCCESS then or_fault svc e (Done (st4, s4)) s4 else Done (st4, s4)) = Done (st, s')"
            by simp
          then show ?thesis using or_fault_keeps [OF ok] k4 keeps_trans by (auto split: if_splits)
        qed
      qed
    qed
  qed
qed

lemma ensure_loaded_keeps:
  assumes "services_ok svc" "alive (ds_heap s) e" "sound s" "ensure_loaded svc e s = Done (st, s')"
  shows "keeps s s'"
  using assms loadObject_keeps by (auto simp: ensure_loaded_def split: if_splits)

lemma find_or_fault_keeps:
  assumes "services_ok svc" "sound s" "find_or_fault svc p path s = Done (r, s')"
  shows "keeps s s' \<and> (\<forall>e. r = Some e \<longrightarrow> alive (ds_heap s') e)"
proof (cases "i_find_path (ds_heap s) p path")
  case (Some e)
  with assms(3) i_find_alive [OF soundD(1) [OF assms(2)] Some] show ?thesis
    by (auto simp: find_or_fault_def)
next
  case None
  show ?thesis
  proof (cases "ds_enableFaultHdlr s")
    case True
    with None assms(3) obtain x where x: "handleDataFault svc (Some p) path s = Done (x, s')"
      and r: "r = i_find_path (ds_heap s') p path"
      by (auto simp: find_or_fault_def)
    note k = handleDataFault_keeps [OF assms(1) x]
    with i_find_alive [OF soundD(1) [OF keepsD(1) [OF k assms(2)]]] r show ?thesis by auto
  next
    case False
    with None assms(3) show ?thesis by (simp add: find_or_fault_def)
  qed
qed

text \<open>A step of a chain of calls, each of which keeps the store and its entries.\<close>

lemma keeps_step:
  assumes "keeps s t" "sound s" "alive (ds_heap s) e"
  shows "sound t" "alive (ds_heap t) e"
  using keepsD [OF assms(1,2)] extends_alive assms(3) by auto

lemma retrieveEntry_keeps:
  assumes ok: "services_ok svc"
  shows "sound s \<Longrightarrow> (\<And>p. parent = Some p \<Longrightarrow> alive (ds_heap s) p) \<Longrightarrow>
    retrieveEntry svc parent path s = Done (st, r, s') \<Longrightarrow>
    keeps s s' \<and> (\<forall>e. r = Some e \<longrightarrow> alive (ds_heap s') e)"
  using ok
proof (induction svc parent path s arbitrary: st r s' rule: retrieveEntry.induct)
  case (1 svc path s)
  show ?case
  proof (cases "ds_root s")
    case None
    with 1 show ?thesis by simp
  next
    case (Some root)
    have alive: "alive (ds_heap s) root" using soundD(3) [OF "1.prems"(1) Some] .
    consider (root) "path = [] \<or> path = ds_rootName s"
      | (rel) "\<not> (path = [] \<or> path = ds_rootName s)" "\<not> starts_sep path"
      | (bad) "\<not> (path = [] \<or> path = ds_rootName s)" "starts_sep path" "find_sep1 path = None"
      | (full) sep where "\<not> (path = [] \<or> path = ds_rootName s)" "starts_sep path" "find_sep1 path = Some sep"
      by (cases "find_sep1 path") auto
    then show ?thesis
    proof cases
      case root
      with "1.prems" Some alive show ?thesis by (intro "1.IH"(1) [OF Some root]) auto
    next
      case rel
      with "1.prems" Some alive show ?thesis by (intro "1.IH"(2) [OF Some rel]) auto
    next
      case bad
      with "1.prems" Some show ?thesis by auto
    next
      case full
      note IH = "1.IH"(3-5) [OF Some full(1) _ full(3)]
      show ?thesis
      proof (cases "object_of (ds_heap s) root = None")
        case True
        with "1.prems" Some full obtain st1 r1 s1 where r1: "retrieveEntry svc (Some root) [] s = Done (st1, r1, s1)"
          and rest: "(if st1 \<noteq> DS_SUCCESS then Done (st1, None, s1)
             else (case ds_root s1 of None \<Rightarrow> Undefined
                   | Some root \<Rightarrow> retrieveEntry svc (Some root) (drop sep path) s1)) = Done (st, r, s')"
          by auto
        have k1: "keeps s s1"
          using IH(1) [OF _ True _ _ r1 "1.prems"(4)] full(2) "1.prems"(1) alive by auto
        note s1 = keepsD(1) [OF k1 "1.prems"(1)]
        show ?thesis
        proof (cases "st1 = DS_SUCCESS")
          case False
          with rest k1 show ?thesis by auto
        next
          case st1: True
          with rest obtain root1 where root1: "ds_root s1 = Some root1"
            and r2: "retrieveEntry svc (Some root1) (drop sep path) s1 = Done (st, r, s')"
            by (auto split: option.splits)
          have "keeps s1 s' \<and> (\<forall>e. r = Some e \<longrightarrow> alive (ds_heap s') e)"
            using IH(2) [OF _ True r1 refl refl _ root1 s1 _ r2 "1.prems"(4)] full(2) st1
              soundD(3) [OF s1 root1] by auto
          with keeps_trans [OF k1] show ?thesis by blast
        qed
      next
        case False
        with "1.prems" Some full have "retrieveEntry svc (Some root) (drop sep path) s = Done (st, r, s')" by auto
        with IH(3) [OF _ False "1.prems"(1) _ this "1.prems"(4)] full(2) alive show ?thesis by auto
      qed
    qed
  qed
next
  case (2 svc p path s)
  have alive: "alive (ds_heap s) p" using "2.prems"(2) by simp
  note sound = "2.prems"(1) and ok = "2.prems"(4)
  show ?case
  proof (cases "ds_root s = None")
    case True
    with 2 show ?thesis by simp
  next
    case root: False
    show ?thesis
    proof (cases "find_sep1 path")
      case None
      define m where "m = (if path = [] then Done (DS_SUCCESS, Some p, s)
        else obind (ensure_loaded svc p s)
          (\<lambda>(st, s). if st \<noteq> DS_SUCCESS then Done (st, None, s)
             else obind (find_or_fault svc p path s)
               (\<lambda>(r, s). Done (if r = None then INVALID_OBJ_PATH else DS_SUCCESS, r, s))))"
      have eq: "retrieveEntry svc (Some p) path s = obind m
          (\<lambda>(st, r, s). case r of None \<Rightarrow> Done (st, None, s)
             | Some e \<Rightarrow> obind (ensure_loaded svc e s) (\<lambda>(st, s). Done (st, Some e, s)))"
        using root None by (auto simp: m_def)
      obtain st1 r1 s1 where m1: "m = Done (st1, r1, s1)"
        and last: "(case r1 of None \<Rightarrow> Done (st1, None, s1)
             | Some e \<Rightarrow> obind (ensure_loaded svc e s1) (\<lambda>(st, s). Done (st, Some e, s))) = Done (st, r, s')"
        using "2.prems"(3) unfolding eq obind_Done by auto
      have k1: "keeps s s1 \<and> (\<forall>e. r1 = Some e \<longrightarrow> alive (ds_heap s1) e)"
      proof (cases "path = []")
        case True
        with m1 alive show ?thesis by (auto simp: m_def)
      next
        case False
        with m1 obtain st2 s2 where l: "ensure_loaded svc p s = Done (st2, s2)"
          and f: "(if st2 \<noteq> DS_SUCCESS then Done (st2, None, s2)
             else obind (find_or_fault svc p path s2)
               (\<lambda>(r, s). Done (if r = None then INVALID_OBJ_PATH else DS_SUCCESS, r, s))) = Done (st1, r1, s1)"
          by (auto simp: m_def)
        note k2 = ensure_loaded_keeps [OF ok alive sound l]
        show ?thesis
          using f k2 find_or_fault_keeps [OF ok keepsD(1) [OF k2 sound]] keeps_trans [OF k2]
          by (auto split: if_splits)
      qed
      show ?thesis
      proof (cases r1)
        case None
        with last k1 show ?thesis by auto
      next
        case (Some e)
        with last obtain s3 where l: "ensure_loaded svc e s1 = Done (st, s')" "r = Some e" by auto
        have a1: "alive (ds_heap s1) e" and s1: "sound s1" using k1 Some keepsD(1) sound by auto
        note k3 = ensure_loaded_keeps [OF ok a1 s1 l(1)]
        show ?thesis using keeps_trans [OF conjunct1 [OF k1] k3] keeps_step(2) [OF k3 s1 a1] l(2) by auto
      qed
    next
      case (Some sep)
      with root "2.prems"(3) obtain st1 s1 where l1: "ensure_loaded svc p s = Done (st1, s1)"
        and c1: "(if st1 \<noteq> DS_SUCCESS then Done (st1, None, s1)
            else obind (find_or_fault svc p (take sep path) s1)
              (\<lambda>(r, s). case r of None \<Rightarrow> Done (INVALID_OBJ_PATH, None, s)
               | Some root_entry \<Rightarrow>
                   (let pO = object_of (ds_heap s) root_entry
                    in obind (ensure_loaded svc root_entry s)
                         (\<lambda>(st, s). if st \<noteq> DS_SUCCESS then Done (st, None, s)
                            else if is_soft (ds_heap s) root_entry
                            then (case pO of None \<Rightarrow> Undefined
                                  | Some x \<Rightarrow> retrieveEntry svc (registry_of (ds_heap s) x) (drop sep path) s)
                            else retrieveEntry svc (Some root_entry) (drop sep path) s)))) = Done (st, r, s')"
        by auto
      note k1 = ensure_loaded_keeps [OF ok alive sound l1]
      note s1 = keepsD(1) [OF k1 sound]
      show ?thesis
      proof (cases "st1 = DS_SUCCESS")
        case False
        with c1 k1 show ?thesis by auto
      next
        case st1: True
        with c1 obtain r2 s2 where f2: "find_or_fault svc p (take sep path) s1 = Done (r2, s2)"
          and c2: "(case r2 of None \<Rightarrow> Done (INVALID_OBJ_PATH, None, s2)
               | Some root_entry \<Rightarrow>
                   (let pO = object_of (ds_heap s2) root_entry
                    in obind (ensure_loaded svc root_entry s2)
                         (\<lambda>(st, s). if st \<noteq> DS_SUCCESS then Done (st, None, s)
                            else if is_soft (ds_heap s) root_entry
                            then (case pO of None \<Rightarrow> Undefined
                                  | Some x \<Rightarrow> retrieveEntry svc (registry_of (ds_heap s) x) (drop sep path) s)
                            else retrieveEntry svc (Some root_entry) (drop sep path) s))) = Done (st, r, s')"
          by auto
        note k2 = find_or_fault_keeps [OF ok s1 f2]
        note k12 = keeps_trans [OF k1 conjunct1 [OF k2]]
        note s2 = keepsD(1) [OF k12 sound]
        show ?thesis
        proof (cases r2)
          case None
          with c2 k12 show ?thesis by auto
        next
          case e: (Some e)
          have a2: "alive (ds_heap s2) e" using k2 e by blast
          from c2 e obtain st3 s3 where l3: "ensure_loaded svc e s2 = Done (st3, s3)"
            and c3: "(if st3 \<noteq> DS_SUCCESS then Done (st3, None, s3)
                 else if is_soft (ds_heap s3) e
                 then (case object_of (ds_heap s2) e of None \<Rightarrow> Undefined
                       | Some x \<Rightarrow> retrieveEntry svc (registry_of (ds_heap s3) x) (drop sep path) s3)
                 else retrieveEntry svc (Some e) (drop sep path) s3) = Done (st, r, s')"
            by (auto simp: Let_def)
          note k3 = ensure_loaded_keeps [OF ok a2 s2 l3]
          note k123 = keeps_trans [OF k12 k3] and s3 = keeps_step(1) [OF k3 s2 a2] and a3 = keeps_step(2) [OF k3 s2 a2]
          show ?thesis
          proof (cases "st3 = DS_SUCCESS")
            case False
            with c3 k123 show ?thesis by auto
          next
            case st3: True
            show ?thesis
            proof (cases "is_soft (ds_heap s3) e")
              case True
              with c3 st3 obtain x where x: "object_of (ds_heap s2) e = Some x"
                "retrieveEntry svc (registry_of (ds_heap s3) x) (drop sep path) s3 = Done (st, r, s')"
                by (auto split: option.splits)
              have "keeps s3 s' \<and> (\<forall>e. r = Some e \<longrightarrow> alive (ds_heap s') e)"
                using "2.IH"(1) [OF root Some l1 refl _ f2 refl e refl l3 refl _ True x(1) s3 _ x(2) ok]
                  st1 st3 registry_alive [OF soundD(2) [OF s3]] by simp
              with keeps_trans [OF k123] show ?thesis by blast
            next
              case False
              with c3 st3 have q: "retrieveEntry svc (Some e) (drop sep path) s3 = Done (st, r, s')" by simp
              have "keeps s3 s' \<and> (\<forall>e. r = Some e \<longrightarrow> alive (ds_heap s') e)"
                using "2.IH"(2) [OF root Some l1 refl _ f2 refl e refl l3 refl _ False s3 _ q ok]
                  st1 st3 a3 by simp
              with keeps_trans [OF k123] show ?thesis by blast
            qed
          qed
        qed
      qed
    qed
  qed
qed

section \<open>Registering\<close>

lemma retrieveObject_keeps:
  assumes "services_ok svc" "sound s" "\<And>p. parent = Some p \<Longrightarrow> alive (ds_heap s) p"
    "retrieveObject svc parent path s = Done (st, x, s')"
  shows "keeps s s'"
  using assms(4) retrieveEntry_keeps [OF assms(1,2,3)]
  by (auto simp: retrieveObject_def split: if_splits option.splits)

lemma one_segment_flat: "find_sep1 p = None \<Longrightarrow> p \<noteq> [] \<Longrightarrow> one_segment p"
  by (cases p) (auto simp: find_sep1_def one_segment_def strip_sep_def split: if_splits)

lemma takeWhile_less: "SEPARATOR \<in> set q \<Longrightarrow> length (takeWhile (\<lambda>c. c \<noteq> SEPARATOR) q) < length q"
  by (induction q) auto

lemma one_segment_last: "deep_sep p = None \<Longrightarrow> p \<noteq> [] \<Longrightarrow> one_segment p"
proof (cases p)
  case (Cons c q)
  assume d: "deep_sep p = None"
  have "SEPARATOR \<notin> set q"
  proof
    assume q: "SEPARATOR \<in> set q"
    then have "length (takeWhile (\<lambda>c. c \<noteq> SEPARATOR) (rev q @ [c])) < length q"
    proof -
      have "length (takeWhile (\<lambda>c. c \<noteq> SEPARATOR) (rev q)) < length (rev q)"
        using q by (intro takeWhile_less) simp
      then show ?thesis using q by (simp add: takeWhile_append)
    qed
    with d q Cons show False by (auto simp: deep_sep_def last_sep_def split: if_splits)
  qed
  with Cons show ?thesis by (auto simp: one_segment_def strip_sep_def)
qed simp

lemma add_keeps:
  assumes e: "alive (ds_heap s) e" and n: "one_segment n"
  shows "hp_objects (ds_heap s) x \<noteq> None \<Longrightarrow> keeps s (on_heap (\<lambda>h. snd (add_object e n (Some x) b h)) s)"
    and "hp_addresses (ds_heap s) a \<noteq> None \<Longrightarrow> keeps s (on_heap (\<lambda>h. snd (add_address e n (Some a) False h)) s)"
proof -
  have grow: "extends s (on_heap f s) \<and> root_ok (on_heap f s)"
    if g: "grown (ds_heap s) e m (f (ds_heap s))" and s: "sound s"
      and o: "\<And>x. hp_objects (ds_heap s) x \<noteq> None \<Longrightarrow> hp_objects (f (ds_heap s)) x \<noteq> None" for f m
  proof -
    have "\<not> alive (ds_heap s) (hp_next (ds_heap s))" using tree_okD(1) [OF soundD(1) [OF s]] by blast
    with g o s show ?thesis
      by (auto simp: extends_def grown_def Let_def sound_def root_ok_def)
  qed
  have eo: "hp_objects (makeHard_object c (Some y) h) z = None \<longleftrightarrow> hp_objects h z = None"
    "hp_objects (makeSoft_object c (Some y) h) z = None \<longleftrightarrow> hp_objects h z = None"
    if "object_of h c = None" for c y h z
  proof -
    have none: "object_of (set_soft c True h) c = None" using that by (simp add: set_soft_def entry_get_upd)
    show soft: "hp_objects (makeSoft_object c (Some y) h) z = None \<longleftrightarrow> hp_objects h z = None"
      unfolding makeSoft_object_def setObject_objects [OF none] by (simp add: set_soft_def heap_simps)
    have "hp_objects (makeHard_object c (Some y) h) z = None \<longleftrightarrow> hp_objects (makeSoft_object c (Some y) h) z = None"
      by (cases "object_of (set_soft c False (makeSoft_object c (Some y) h)) c";
          cases "address_of (with_some (obj_setRegistry (Some c)) (object_of (set_soft c False (makeSoft_object c (Some y) h)) c) (set_soft c False (makeSoft_object c (Some y) h))) c")
        (auto simp: makeHard_object_def Let_def set_soft_def heap_simps obj_setRegistry_def upd_object_def)
    with soft show "hp_objects (makeHard_object c (Some y) h) z = None \<longleftrightarrow> hp_objects h z = None" by simp
  qed
  have ia: "hp_objects (i_add e c h) = hp_objects h" for c h
    by (cases "address_of (setParent c (Some e) (upd_entry e (\<lambda>r. r\<lparr>re_store := re_store r @ [c]\<rparr>)
          (upd_entry c (\<lambda>r. r\<lparr>re_dataSvc := entry_get re_dataSvc False h e\<rparr>) h))) c")
      (simp_all add: i_add_def Let_def setParent_def heap_simps)
  show "keeps s (on_heap (\<lambda>h. snd (add_object e n (Some x) b h)) s)" if x: "hp_objects (ds_heap s) x \<noteq> None"
    unfolding keeps_def
  proof
    assume s: "sound s"
    note ok = soundD(1,2) [OF s]
    note sh = new_entry_shape [OF ok(1) e n]
    have o: "object_of (snd (new_entry (lead_sep n) (Some e) (ds_heap s))) (hp_next (ds_heap s)) = None"
      by (simp add: entry_get_def sh)
    have objs: "hp_objects (snd (add_object e n (Some x) b (ds_heap s))) z \<noteq> None" if "hp_objects (ds_heap s) z \<noteq> None" for z
      using that eo [OF o, of x z] by (auto simp: add_object_def i_create_cases case_prod_beta sh ia)
    show "sound (on_heap (\<lambda>h. snd (add_object e n (Some x) b h)) s) \<and> extends s (on_heap (\<lambda>h. snd (add_object e n (Some x) b h)) s)"
    proof (cases "fst (add_object e n (Some x) b (ds_heap s))")
      case True
      from grow [of "lead_sep n" "\<lambda>h. snd (add_object e n (Some x) b h)", OF add_grown(2) [OF ok(1) e n True] s objs]
        add_tree(1) [OF ok(1) e n] add_hold(1) [OF ok(2,1) e n x]
      show ?thesis by (simp add: sound_def)
    next
      case False
      from add_grown(3) [OF ok(1) e n False] s show ?thesis by simp
    qed
  qed
  show "keeps s (on_heap (\<lambda>h. snd (add_address e n (Some a) False h)) s)" if a: "hp_addresses (ds_heap s) a \<noteq> None"
    unfolding keeps_def
  proof
    assume s: "sound s"
    note ok = soundD(1,2) [OF s]
    note sh = new_entry_shape [OF ok(1) e n]
    have objs: "hp_objects (snd (add_address e n (Some a) False (ds_heap s))) z \<noteq> None" if "hp_objects (ds_heap s) z \<noteq> None" for z
      using that by (auto simp: add_address_def i_create_cases case_prod_beta sh ia makeHard_address_def
          setAddress_fields set_soft_def heap_simps)
    show "sound (on_heap (\<lambda>h. snd (add_address e n (Some a) False h)) s) \<and> extends s (on_heap (\<lambda>h. snd (add_address e n (Some a) False h)) s)"
    proof (cases "fst (add_address e n (Some a) False (ds_heap s))")
      case True
      from grow [of "lead_sep n" "\<lambda>h. snd (add_address e n (Some a) False h)", OF add_grown(5) [OF ok(1) e n True] s objs]
        add_tree(2) [OF ok(1) e n] add_hold(2) [OF ok(2,1) e n a]
      show ?thesis by (simp add: sound_def)
    next
      case False
      from add_grown(6) [OF ok(1) e n False] s show ?thesis by simp
    qed
  qed
qed

lemma registry_twice:
  assumes "object_of h e = None" "\<not> is_soft h e"
  shows "setObject e (Some x) (setAddress e None (obj_setRegistry (Some e) x h)) = setObject e (Some x) (setAddress e None h)"
proof -
  have 1: "hp_entries (setAddress e None (obj_setRegistry (Some e) x h)) = hp_entries (setAddress e None h)"
    "hp_addresses (setAddress e None (obj_setRegistry (Some e) x h)) = hp_addresses (setAddress e None h)"
    "hp_objects (setAddress e None (obj_setRegistry (Some e) x h)) = hp_objects (obj_setRegistry (Some e) x h)"
    "hp_next (setAddress e None (obj_setRegistry (Some e) x h)) = hp_next (setAddress e None h)"
    "hp_nextObject (setAddress e None (obj_setRegistry (Some e) x h)) = hp_nextObject (setAddress e None h)"
    by (simp_all add: setAddress_fields heap_simps)
      (cases "address_of h e"; simp add: setAddress_def Let_def heap_simps entry_get_cong [OF counted_ops_entries(2)] adr_release_def)
  have o: "object_of (setAddress e None h) e = None" "object_of (setAddress e None (obj_setRegistry (Some e) x h)) e = None"
    "is_soft (setAddress e None h) e = False" "is_soft (setAddress e None (obj_setRegistry (Some e) x h)) e = False"
    using assms by (simp_all add: setAddress_get entry_get_cong [OF counted_ops_entries(2)])
  show ?thesis
    by (rule heap.equality)
      (simp_all add: setObject_fields 1 setObject_objects [OF o(1)] setObject_objects [OF o(2)] o(3,4) setAddress_fields,
        simp_all add: heap_simps, simp add: obj_setRegistry_def upd_object_def option.map_comp o_def)
qed

lemma fill_keeps:
  assumes e: "alive (ds_heap s) e" and none: "object_of (ds_heap s) e = None" and x: "hp_objects (ds_heap s) x \<noteq> None"
  shows "keeps s (on_heap (\<lambda>h. setObject e (Some x) (setAddress e None (obj_setRegistry (Some e) x h))) s)"
  unfolding keeps_def
proof
  assume s: "sound s"
  have soft: "\<not> is_soft (ds_heap s) e" using hold_okD(6) [OF soundD(2) [OF s]] none by blast
  let ?t = "on_heap (setAddress e None) s"
  have t: "sound ?t"
    using same_heap_sound [OF s setAddress_tree setAddress_hold [OF soundD(2) [OF s] e]] by simp
  have et: "extends s ?t" by (simp add: extends_def setAddress_get setAddress_fields)
  have k: "keeps ?t (on_heap (setObject e (Some x)) ?t)"
    using e none x by (intro setObject_keeps) (simp_all add: setAddress_get setAddress_fields)
  from keepsD [OF k t] extends_trans [OF et]
  show "sound (on_heap (\<lambda>h. setObject e (Some x) (setAddress e None (obj_setRegistry (Some e) x h))) s) \<and>
      extends s (on_heap (\<lambda>h. setObject e (Some x) (setAddress e None (obj_setRegistry (Some e) x h))) s)"
    by (simp add: registry_twice [OF none soft])
qed

end
