(* ===== verification/Data_Store_Runs.thy ===== *)
theory Data_Store_Runs
  imports Data_Store_Facts
begin

text \<open>
  Sequences of operations on the data store, and the properties of the store: it stays sound,
  what was registered is found under its path and under its identifier, and what the code does
  where a link outlives its target or a nested object is unregistered through its ancestor.
\<close>

section \<open>Registering keeps the store sound\<close>

lemma open_parent_keeps:
  assumes ok: "services_ok svc" and s: "sound s" "\<not> ds_forceLeaves s" and e: "alive (ds_heap s) e"
    and run: "open_parent force svc e path s = Done (st, par, s')"
  shows "keeps s s'"
proof (cases "i_find_path (ds_heap s) e path")
  case None
  with run s(2) show ?thesis by (simp add: open_parent_def)
next
  case (Some par0)
  show ?thesis
  proof (cases "object_of (ds_heap s) par0 = None")
    case False
    with run Some show ?thesis by (simp add: open_parent_def)
  next
    case True
    with run Some obtain st1 r1 s1 where r: "retrieveEntry svc (Some e) path s = Done (st1, r1, s1)"
      and c: "(if st1 = DS_SUCCESS then Done (st1, r1, s1)
         else (case r1 of None \<Rightarrow> Undefined
               | Some e \<Rightarrow> if address_of (ds_heap s1) e = None \<and> ds_forceLeaves s1
                         then obind (force s1) (\<lambda>(par, s). Done (st1, par, s)) else Done (st1, Some e, s1)))
         = Done (st, par, s')"
      by (auto simp: open_parent_def)
    have k: "keeps s s1" using retrieveEntry_keeps [OF ok s(1) _ r] e by simp
    moreover have "\<not> ds_forceLeaves s1" using keepsD(2) [OF k s(1)] s(2) by (simp add: extends_def)
    ultimately show ?thesis using c by (auto split: if_splits option.splits)
  qed
qed

lemma register_leaf_keeps:
  assumes s: "sound s" and e: "alive (ds_heap s) e" and flat: "find_sep1 path = None"
    and x: "hp_objects (ds_heap s) x \<noteq> None"
    and run: "register_leaf e path (Some x) s = Done (st, s')"
  shows "keeps s s'"
proof -
  have ne: "path \<noteq> []" using run by (auto simp: register_leaf_def)
  show ?thesis
  proof (cases "i_find_path (ds_heap s) e path")
    case None
    with run ne add_keeps(1) [OF e one_segment_flat [OF flat ne] x] show ?thesis
      by (auto simp: register_leaf_def)
  next
    case (Some l)
    show ?thesis
    proof (cases "object_of (ds_heap s) l = None")
      case True
      with run ne Some fill_keeps [OF i_find_alive [OF soundD(1) [OF s] Some] True x] show ?thesis
        by (auto simp: register_leaf_def)
    next
      case False
      with run ne Some show ?thesis by (auto simp: register_leaf_def)
    qed
  qed
qed

lemma keeps_client:
  assumes "keeps s t" "sound s" "\<not> ds_forceLeaves s" "hp_objects (ds_heap s) x \<noteq> None"
  shows "sound t" "\<not> ds_forceLeaves t" "hp_objects (ds_heap t) x \<noteq> None"
  using keepsD [OF assms(1,2)] assms(3,4) by (auto simp: extends_def)

definition registers_well :: "services \<Rightarrow> nat \<Rightarrow> bool" where
  "registers_well svc fuel \<longleftrightarrow>
     (\<forall>x s st s'. sound s \<longrightarrow> \<not> ds_forceLeaves s \<longrightarrow> hp_objects (ds_heap s) x \<noteq> None \<longrightarrow>
        (\<forall>a b. registerObject fuel svc a b (Some x) s = Done (st, s') \<longrightarrow> keeps s s') \<and>
        (\<forall>p b. registerObject_at fuel svc p b (Some x) s = Done (st, s') \<longrightarrow> keeps s s'))"

lemma registers_wellD:
  assumes "registers_well svc fuel" "sound s" "\<not> ds_forceLeaves s" "hp_objects (ds_heap s) x \<noteq> None"
  shows "registerObject fuel svc a b (Some x) s = Done (st, s') \<Longrightarrow> keeps s s'"
    and "registerObject_at fuel svc p b (Some x) s = Done (st, s') \<Longrightarrow> keeps s s'"
  using assms unfolding registers_well_def by blast+

lemma register_step:
  assumes ok: "services_ok svc" and IH: "registers_well svc fuel"
    and s: "sound s" "\<not> ds_forceLeaves s" "hp_objects (ds_heap s) x \<noteq> None"
    and run: "registerObject (Suc fuel) svc a b (Some x) s = Done (st, s')"
  shows "keeps s s'"
proof -
  obtain st1 pO s1 where r: "retrieveObject svc None a s = Done (st1, pO, s1)"
    using run by auto
  have k: "keeps s s1" using retrieveObject_keeps [OF ok s(1) _ r] by simp
  note n = keeps_client [OF k s]
  show ?thesis
  proof (cases "st1 = DS_SUCCESS")
    case True
    with run r have "registerObject_at fuel svc pO b (Some x) s1 = Done (st, s')" by simp
    from keeps_trans [OF k registers_wellD(2) [OF IH n this]] show ?thesis .
  next
    case False
    with run r n(2) k show ?thesis by simp
  qed
qed

lemma register_at_step:
  assumes ok: "services_ok svc" and IH: "registers_well svc fuel"
    and s: "sound s" "\<not> ds_forceLeaves s" "hp_objects (ds_heap s) x \<noteq> None"
    and run: "registerObject_at (Suc fuel) svc p b (Some x) s = Done (st, s')"
  shows "keeps s s'"
proof (cases p)
  case None
  with run registers_wellD(1) [OF IH s] show ?thesis by (auto split: if_splits option.splits)
next
  case (Some y)
  show ?thesis
  proof (cases "ds_root s = None \<or> registry_of (ds_heap s) y = None")
    case True
    with run Some show ?thesis by (auto split: if_splits)
  next
    case False
    then obtain e where e: "registry_of (ds_heap s) y = Some e" and root: "ds_root s \<noteq> None" by blast
    note alive = registry_alive [OF soundD(2) [OF s(1)] e]
    show ?thesis
    proof (cases "find_sep1 b")
      case None
      with run Some e root register_leaf_keeps [OF s(1) alive None s(3)] show ?thesis by simp
    next
      case sep: (Some sep)
      with run Some e root obtain force st1 par s1
        where o: "open_parent force svc e (take sep b) s = Done (st1, par, s1)"
        and c: "(case Option.bind par (object_of (ds_heap s1)) of None \<Rightarrow> Done (st1, s1)
           | Some obj \<Rightarrow> registerObject_at fuel svc (Some obj) (drop sep b) (Some x) s1) = Done (st, s')"
        by auto
      note k = open_parent_keeps [OF ok s(1,2) alive o]
      note n = keeps_client [OF k s]
      show ?thesis
        using c k registers_wellD(2) [OF IH n] keeps_trans [OF k] by (auto split: option.splits)
    qed
  qed
qed

lemma register_keeps: "services_ok svc \<Longrightarrow> registers_well svc fuel"
proof (induction fuel)
  case (Suc fuel)
  note IH = Suc.IH [OF Suc.prems]
  show ?case
    unfolding registers_well_def
    by (intro allI impI conjI)
      (rule register_step [OF Suc.prems IH] register_at_step [OF Suc.prems IH]; assumption)+
qed (simp add: registers_well_def)

section \<open>Addresses, links and removal\<close>

lemma registerAddress_keeps:
  assumes ok: "services_ok svc"
  shows "sound s \<Longrightarrow> \<not> ds_forceLeaves s \<Longrightarrow> hp_addresses (ds_heap s) a \<noteq> None \<Longrightarrow>
    (\<And>e. p = Some e \<Longrightarrow> alive (ds_heap s) e) \<Longrightarrow>
    registerAddress_at fuel svc p path (Some a) s = Done (st, s') \<Longrightarrow> keeps s s'"
proof (induction fuel arbitrary: p path)
  case (Suc fuel)
  show ?case
  proof (cases "ds_root s = None \<or> path = []")
    case True
    with Suc.prems show ?thesis by (auto split: if_splits)
  next
    case ne: False
    show ?thesis
    proof (cases p)
      case None
      have "q = ds_root s \<Longrightarrow> registerAddress_at fuel svc q pa (Some a) s = Done (st, s') \<Longrightarrow> keeps s s'" for q pa
        using Suc.IH [OF Suc.prems(1-3), of q pa] soundD(3) [OF Suc.prems(1)] by simp
      with Suc.prems(5) None ne show ?thesis by (auto split: if_splits option.splits)
    next
      case (Some e)
      have alive: "alive (ds_heap s) e" using Suc.prems(4) Some by simp
      show ?thesis
      proof (cases "starts_sep path")
        case False
        with Suc.prems ne Some have "registerAddress_at fuel svc p (SEPARATOR # path) (Some a) s = Done (st, s')"
          by auto
        from Suc.IH [OF Suc.prems(1-4) this] show ?thesis .
      next
        case lead: True
        show ?thesis
        proof (cases "deep_sep path")
          case None
          with Suc.prems(5) ne Some lead have "s' = on_heap (\<lambda>h. snd (add_address e path (Some a) False h)) s"
            by (auto simp: case_prod_beta Let_def split: if_splits)
          then show ?thesis
            using add_keeps(2) [OF alive one_segment_last [OF None] Suc.prems(3)] ne by simp
        next
          case sep: (Some sep)
          show ?thesis
          proof (cases "i_find_path (ds_heap s) e (take sep path)")
            case None
            with Suc.prems(2,5) ne Some lead sep show ?thesis by (auto split: if_splits)
          next
            case par: (Some par)
            with Suc.prems(5) ne Some lead sep
            have "registerAddress_at fuel svc (Some par) (drop sep path) (Some a) s = Done (st, s')"
              by (auto split: if_splits)
            from Suc.IH [OF Suc.prems(1-3) _ this] i_find_alive [OF soundD(1) [OF Suc.prems(1)] par]
            show ?thesis by simp
          qed
        qed
      qed
    qed
  qed
qed simp

lemma each_keeps:
  "(\<And>x s t. sound s \<Longrightarrow> f x s = Done t \<Longrightarrow> keeps s t) \<Longrightarrow> sound s \<Longrightarrow> each f xs s = Done t \<Longrightarrow> keeps s t"
proof (induction xs arbitrary: s)
  case (Cons x xs)
  from Cons.prems(3) obtain u where u: "f x s = Done u" "each f xs u = Done t" by auto
  note k = Cons.prems(1) [OF Cons.prems(2) u(1)]
  from keeps_trans [OF k Cons.IH [OF Cons.prems(1) keepsD(1) [OF k Cons.prems(2)] u(2)]] show ?case .
qed simp

lemma preLoad_object_keeps:
  "services_ok svc \<Longrightarrow> sound s \<Longrightarrow> preLoad_object n svc x s = Done t \<Longrightarrow> keeps s t"
proof (induction n arbitrary: x s t)
  case (Suc n)
  let ?f = "\<lambda>i s. obind (retrieveObject svc (Option.bind x (registry_of (ds_heap s))) (path_of (ds_heap s) i) s)
    (\<lambda>(st, pObj, s). if st = DS_SUCCESS \<and> 0 < n then preLoad_object n svc pObj s else Done s)"
  have step: "keeps u v" if u: "sound u" and f: "?f i u = Done v" for i u v
  proof -
    from f obtain st y w where r: "retrieveObject svc (Option.bind x (registry_of (ds_heap u))) (path_of (ds_heap u) i) u = Done (st, y, w)"
      and c: "(if st = DS_SUCCESS \<and> 0 < n then preLoad_object n svc y w else Done w) = Done v"
      by auto
    have k: "keeps u w"
      by (rule retrieveObject_keeps [OF Suc.prems(1) u _ r])
        (use registry_alive [OF soundD(2) [OF u]] in \<open>auto simp: Option.bind_eq_Some_conv\<close>)
    show "keeps u v"
      using c k keeps_trans [OF k Suc.IH [OF Suc.prems(1) keepsD(1) [OF k u]]] by (auto split: if_splits)
  qed
  show ?case
    using Suc.prems(3) each_keeps [of ?f, OF step Suc.prems(2)] by (auto split: option.splits)
qed simp

lemma preLoad_keeps:
  assumes ok: "services_ok svc" and s: "sound s" and run: "preLoad svc s = Done t"
  shows "keeps s t"
proof (rule each_keeps [OF _ s run [unfolded preLoad_def]], clarsimp)
  fix p d u v st x w
  assume u: "sound u" and r: "retrieveObject svc None p u = Done (st, x, w)"
    and c: "(if st = DS_SUCCESS \<and> 1 < d then preLoad_object (nat (d - 1)) svc x w else Done w) = Done v"
  have k: "keeps u w" using retrieveObject_keeps [OF ok u _ r] by simp
  show "keeps u v"
    using c k keeps_trans [OF k preLoad_object_keeps [OF ok keepsD(1) [OF k u]]] by (auto split: if_splits)
qed

lemma object_alive_of_find:
  "hold_ok h \<Longrightarrow> object_of h e = Some x \<Longrightarrow> hp_objects h x \<noteq> None"
  using counts_okD(2) [OF hold_okD(2)] by fastforce

lemma i_find_object_alive: "tree_ok h \<Longrightarrow> alive h e \<Longrightarrow> hold_ok h \<Longrightarrow> i_find_object fuel h e x = Some d \<Longrightarrow> object_of h d = Some x \<or> registry_of h x = Some d"
proof (induction fuel arbitrary: e)
  case (Suc fuel)
  have rec: "first_found (\<lambda>c. i_find_object fuel h c x) cs = Some d \<Longrightarrow> set cs \<subseteq> set (leaves_of h e) \<Longrightarrow>
      object_of h d = Some x \<or> registry_of h x = Some d" for cs
  proof (induction cs)
    case (Cons c cs)
    then show ?case
      using Suc.IH [of c] Suc.prems(1,3) tree_okD(6) [OF Suc.prems(1), of c e] by (auto split: option.splits)
  qed simp
  show ?case
    using Suc.prems(4) rec [of "leaves_of h e"] by (auto split: if_splits option.splits)
qed simp

lemma registered_alive:
  assumes "sound s" "registered s x"
  shows "\<exists>y. x = Some y \<and> hp_objects (ds_heap s) y \<noteq> None"
proof -
  note ok = soundD(1,2) [OF assms(1)]
  from assms(2) obtain r y d where r: "ds_root s = Some r" and x: "x = Some y"
    and d: "i_find_object (depth_fuel (ds_heap s)) (ds_heap s) r y = Some d"
    by (cases x) (auto simp: registered_def split: option.splits)
  have "object_of (ds_heap s) d = Some y \<or> registry_of (ds_heap s) y = Some d"
    using i_find_object_alive [OF ok(1) soundD(3) [OF assms(1) r] ok(2) d] .
  then have "hp_objects (ds_heap s) y \<noteq> None"
    using object_alive_of_find [OF ok(2), of d y] by (auto simp: registry_of_def split: option.splits)
  with x show ?thesis by blast
qed

lemma linkObject_keeps:
  assumes ok: "services_ok svc"
  shows "sound s \<Longrightarrow> (\<And>e. p = Some e \<Longrightarrow> alive (ds_heap s) e) \<Longrightarrow>
    linkObject_at fuel svc p path x s = Done (st, s') \<Longrightarrow> keeps s s'"
proof (induction fuel arbitrary: p path s)
  case (Suc fuel)
  show ?case
  proof (cases "ds_root s = None \<or> p = None \<or> \<not> registered s x")
    case True
    with Suc.prems show ?thesis by (auto split: if_splits option.splits)
  next
    case False
    then obtain e y where e: "p = Some e" and root: "ds_root s \<noteq> None" and reg: "registered s x" and y: "x = Some y"
      "hp_objects (ds_heap s) y \<noteq> None"
      using registered_alive [OF Suc.prems(1), of x] by auto
    have alive: "alive (ds_heap s) e" using Suc.prems(2) e by simp
    show ?thesis
    proof (cases "deep_sep path")
      case None
      then have ne: "path \<noteq> []" using Suc.prems(3) e root reg by auto
      with Suc.prems(3) e root reg None have "s' = on_heap (\<lambda>h. snd (add_object e path x True h)) s"
        by (auto simp: case_prod_beta Let_def split: if_splits)
      then show ?thesis
        using add_keeps(1) [OF alive one_segment_last [OF None ne] y(2)] y(1) by simp
    next
      case (Some sep)
      with Suc.prems(3) e root reg obtain sc pO s1 where r: "retrieveObject svc p (take sep path) s = Done (sc, pO, s1)"
        and c: "(if sc \<noteq> DS_SUCCESS then Done (sc, s1)
           else (case pO of None \<Rightarrow> Undefined
                 | Some x' \<Rightarrow> linkObject_at fuel svc (registry_of (ds_heap s1) x') (drop sep path) x s1)) = Done (st, s')"
        by auto
      have k: "keeps s s1" using retrieveObject_keeps [OF ok Suc.prems(1) _ r] alive e by simp
      note s1 = keepsD(1) [OF k Suc.prems(1)]
      show ?thesis
        using c k keeps_trans [OF k Suc.IH [OF s1]] registry_alive [OF soundD(2) [OF s1]]
        by (auto split: if_splits option.splits)
    qed
  qed
qed simp

text \<open>Removing entries other than the root.\<close>

lemma root_not_below:
  assumes ok: "tree_ok h" and r: "parent_entry h r = None" and c: "c \<in> set (leaves_of h p)"
  shows "r \<notin> below h c"
proof
  assume b: "r \<in> below h c"
  have "r \<noteq> c" using r tree_okD(7) [OF ok c] by auto
  then obtain y where "r \<in> set (leaves_of h y)"
    using b by (auto simp: below_def child_rel_def elim: rtranclE)
  from tree_okD(7) [OF ok this] r show False by simp
qed

lemma remove_sound:
  assumes s: "sound s"
  shows "sound (on_heap (remove_entry p c) s)"
proof (cases "c \<in> set (leaves_of (ds_heap s) p)")
  case True
  note ok = soundD(1,2) [OF s]
  have "root_ok (on_heap (remove_entry p c) s)"
    using s root_not_below [OF ok(1) _ True]
    by (auto simp: root_ok_def sound_def remove_funs [OF ok(1) True])
  with remove_tree_any [OF ok(1)] remove_hold [OF ok(2)] show ?thesis by (simp add: sound_def)
next
  case False
  with s show ?thesis by (simp add: remove_entry_absent)
qed

lemma remove_name_sound: "sound s \<Longrightarrow> sound (on_heap (\<lambda>h. snd (remove_name e n h)) s)"
  using remove_sound [of s e] by (auto simp: remove_name_def split: option.splits)

lemma addRef_sound:
  assumes "sound s"
  shows "sound (on_heap (with_some obj_addRef x) s)"
proof (cases x)
  case (Some y)
  note ok = soundD(1,2) [OF assms]
  have "hold_ok (obj_addRef y (ds_heap s))"
  proof (rule hold_okI)
    note same = entry_get_cong [of "obj_addRef y (ds_heap s)" "ds_heap s", OF counted_ops_entries(1)]
    show "counts_ok (object_of (obj_addRef y (ds_heap s))) (hp_objects (obj_addRef y (ds_heap s)))"
      unfolding same using hold_okD(2) [OF ok(2)]
      by (rule counts_cells) (auto simp: obj_addRef_def upd_object_def)
    show "counts_ok (address_of (obj_addRef y (ds_heap s))) (hp_addresses (obj_addRef y (ds_heap s)))"
      unfolding same counted_ops_entries using hold_okD(3) [OF ok(2)] .
    show "alive (obj_addRef y (ds_heap s)) e \<Longrightarrow> e < hp_next (obj_addRef y (ds_heap s))" for e
      using hold_okD(1) [OF ok(2)] by (simp add: alive_def heap_simps)
    show "object_of (obj_addRef y (ds_heap s)) e = Some z \<and> \<not> is_soft (obj_addRef y (ds_heap s)) e"
      if "registry_of (obj_addRef y (ds_heap s)) z = Some e" for z e
    proof -
      have "registry_of (ds_heap s) z = Some e"
        using that by (auto simp: registry_of_def obj_addRef_def upd_object_def split: if_splits option.splits)
      with hold_okD(4,5) [OF ok(2), of z e] show ?thesis by (simp add: same)
    qed
    show "is_soft (obj_addRef y (ds_heap s)) e \<Longrightarrow> object_of (obj_addRef y (ds_heap s)) e \<noteq> None" for e
      using hold_okD(6) [OF ok(2), of e] by (simp add: same)
    show "hp_objects (obj_addRef y (ds_heap s)) z \<noteq> None \<Longrightarrow> z < hp_nextObject (obj_addRef y (ds_heap s))" for z
      using hold_okD(7) [OF ok(2), of z]
      by (auto simp: heap_simps, auto simp: obj_addRef_def upd_object_def split: if_splits)
  qed
  with Some same_heap_sound [OF assms same_tree_entries, of "obj_addRef y (ds_heap s)"] show ?thesis
    by (simp add: heap_simps)
qed (use assms in simp)

lemma remove_and_addRef_sound:
  "sound s \<Longrightarrow> sound (on_heap (\<lambda>h. remove_entry p c (with_some obj_addRef x h)) s)"
  using remove_sound [OF addRef_sound [where s = s and x = x], of p c] by simp

section \<open>Roots\<close>

lemma clear_hold: "hold_ok h \<Longrightarrow> hold_ok (free_entry r (deleteElements fuel r h))"
  by (simp add: free_hold delete_hold)

lemma clear_entries:
  assumes ok: "tree_ok h" and r: "alive h r"
  shows "hp_entries (free_entry r (deleteElements (depth_fuel h) r h)) =
      (\<lambda>x. if x \<in> below h r then None else hp_entries h x)"
    and "hp_next (free_entry r (deleteElements (depth_fuel h) r h)) = hp_next h"
proof -
  have "hp_next h < depth_fuel h + r" by (simp add: depth_fuel_def)
  from deleteElements_entries [OF ok r this refl]
  show "hp_entries (free_entry r (deleteElements (depth_fuel h) r h)) =
      (\<lambda>x. if x \<in> below h r then None else hp_entries h x)"
    "hp_next (free_entry r (deleteElements (depth_fuel h) r h)) = hp_next h"
    using below_split [of h r] by (auto simp: heap_simps fun_eq_iff)
qed

lemma cut_tree:
  assumes ok: "tree_ok h" and r: "parent_entry h r = None" "alive h r"
    and e: "hp_entries h' = (\<lambda>x. if x \<in> below h r then None else hp_entries h x)" and n: "hp_next h' = hp_next h"
  shows "tree_ok h'"
proof -
  have get1: "entry_get f d h' x = (if x \<in> below h r then d else entry_get f d h x)" for f :: "reg_entry \<Rightarrow> nat" and d x
    by (simp add: entry_get_def e)
  have get2: "entry_get f d h' x = (if x \<in> below h r then d else entry_get f d h x)" for f :: "reg_entry \<Rightarrow> string" and d x
    by (simp add: entry_get_def e)
  have get3: "entry_get f d h' x = (if x \<in> below h r then d else entry_get f d h x)" for f :: "reg_entry \<Rightarrow> nat list" and d x
    by (simp add: entry_get_def e)
  have get4: "entry_get f d h' x = (if x \<in> below h r then d else entry_get f d h x)" for f :: "reg_entry \<Rightarrow> nat option" and d x
    by (simp add: entry_get_def e)
  have al: "alive h' x \<longleftrightarrow> alive h x \<and> x \<notin> below h r" for x by (simp add: alive_def e)
  have down: "x \<notin> below h r" if "x \<in> set (leaves_of h p)" "p \<notin> below h r" for x p
    using below_parent [OF ok _ _ that(1), of r] that tree_okD(7) [OF ok that(1)] r(1) by (metis option.distinct(1))
  have up: "p \<notin> below h r" if "x \<in> set (leaves_of h p)" "x \<notin> below h r" for x p
    using below_leaf that by blast
  show ?thesis
    unfolding tree_ok_def
  proof (intro conjI allI impI)
    fix x
    show "x < hp_next h'" if "alive h' x" using that tree_okD(1) [OF ok] by (simp add: al n)
    show "entry_get re_refCount 0 h' x = 1" if "alive h' x" using that tree_okD(2) [OF ok] by (simp add: al get1)
    show "\<exists>m. path_of h' x = SEPARATOR # m" if "alive h' x" using that tree_okD(3) [OF ok] by (simp add: al get2)
    show "distinct (leaves_of h' x)" using tree_okD(4) [OF ok] by (simp add: get3)
    show "inj_on (path_of h') (set (leaves_of h' x))"
      using tree_okD(5) [OF ok, of x] down [of _ x] by (auto simp: get2 get3 inj_on_def)
    show "fullpath_of h' x = (case parent_entry h' x of None \<Rightarrow> path_of h' x | Some p \<Rightarrow> fullpath_of h' p @ path_of h' x)"
      if "alive h' x"
      using that tree_okD(10) [OF ok, of x] up [OF tree_okD(9) [OF ok, of x]]
      by (auto simp: al get2 get4 split: option.splits)
    fix y
    show "alive h' y" "parent_entry h' y = Some x" "x < y" if "y \<in> set (leaves_of h' x)"
      using that tree_okD(6,7,8) [OF ok, of y x] down [of y x] by (auto simp: al get3 get4 split: if_splits)
    show "x \<in> set (leaves_of h' y)" if "parent_entry h' x = Some y"
      using that tree_okD(9) [OF ok, of x y] up [OF tree_okD(9) [OF ok, of x y]] by (auto simp: get3 get4 split: if_splits)
  qed
qed

lemma clear_sound: "sound s \<Longrightarrow> sound (clearStore s) \<and> ds_root (clearStore s) = None"
proof (cases "ds_root s")
  case (Some r)
  assume s: "sound s"
  note ok = soundD(1,2) [OF s]
  have r: "alive (ds_heap s) r" "parent_entry (ds_heap s) r = None" using s Some by (auto simp: sound_def root_ok_def)
  show ?thesis
    using cut_tree [OF ok(1) r(2,1) clear_entries [OF ok(1) r(1)]] clear_hold [OF ok(2)] Some
    by (simp add: clearStore_def sound_def root_ok_def)
qed (simp add: clearStore_def)

definition root_name :: "string \<Rightarrow> bool" where
  "root_name p \<longleftrightarrow> (case entry_name p of [] \<Rightarrow> False | c # n \<Rightarrow> c = SEPARATOR)"

lemma root_entry_ok:
  assumes s: "sound s" "ds_root s = None" and p: "root_name p"
  shows "sound (s\<lparr>ds_heap := snd (new_entry p None (ds_heap s)), ds_root := Some (hp_next (ds_heap s))\<rparr>)"
    and "fst (new_entry p None (ds_heap s)) = hp_next (ds_heap s)"
    and "hp_entries (snd (new_entry p None (ds_heap s))) (hp_next (ds_heap s)) = Some
      \<lparr>re_refCount = 1, re_isSoft = False, re_fullpath = entry_name p, re_path = entry_name p,
       re_parent = None, re_address = None, re_object = None, re_dataSvc = False, re_store = []\<rparr>"
    and "hp_objects (snd (new_entry p None (ds_heap s))) = hp_objects (ds_heap s)"
    and "hp_addresses (snd (new_entry p None (ds_heap s))) = hp_addresses (ds_heap s)"
proof -
  let ?h = "ds_heap s" and ?c = "hp_next (ds_heap s)" and ?h' = "snd (new_entry p None (ds_heap s))"
  note ok = soundD(1,2) [OF s(1)]
  obtain n where n: "entry_name p = SEPARATOR # n" using p by (auto simp: root_name_def split: list.splits)
  have dead: "hp_entries ?h ?c = None" using tree_okD(1) [OF ok(1), of ?c] by (cases "hp_entries ?h ?c") (simp_all add: alive_def)
  let ?r = "\<lparr>re_refCount = 1, re_isSoft = False, re_fullpath = entry_name p, re_path = entry_name p,
       re_parent = None, re_address = None, re_object = None, re_dataSvc = False, re_store = []\<rparr>"
  have ent: "hp_entries ?h' = (hp_entries ?h)(?c \<mapsto> ?r)"
    and nx: "hp_next ?h' = Suc ?c" "hp_nextObject ?h' = hp_nextObject ?h"
    and ob: "hp_objects ?h' = hp_objects ?h" "hp_addresses ?h' = hp_addresses ?h"
    by (simp_all add: new_entry_def Let_def heap_simps entry_get_def)
  show "fst (new_entry p None ?h) = ?c" by (simp add: new_entry_def Let_def)
  show "hp_entries ?h' ?c = Some ?r" by (simp add: ent)
  show "hp_objects ?h' = hp_objects ?h" "hp_addresses ?h' = hp_addresses ?h" by (rule ob)+
  have al: "alive ?h' = (alive ?h)(?c := True)" by (simp add: alive_def ent fun_eq_iff)
  have f: "entry_get re_refCount 0 ?h' = (entry_get re_refCount 0 ?h)(?c := 1)"
    "path_of ?h' = (path_of ?h)(?c := entry_name p)" "fullpath_of ?h' = (fullpath_of ?h)(?c := entry_name p)"
    "parent_entry ?h' = (parent_entry ?h)(?c := None)" "leaves_of ?h' = (leaves_of ?h)(?c := [])"
    "object_of ?h' = object_of ?h" "address_of ?h' = address_of ?h" "is_soft ?h' = is_soft ?h"
    using dead by (auto simp: entry_get_def ent fun_eq_iff)
  have nc: "?c \<notin> set (leaves_of ?h x)" "parent_entry ?h x \<noteq> Some ?c" for x
    using tree_okD(6) [OF ok(1), of ?c x] tree_okD(9) [OF ok(1), of x ?c] leaf_owner_alive [of x ?h ?c] dead
    by (auto simp: alive_def)
  have "tree_ok ?h'"
    unfolding tree_ok_def al f nx
  proof (intro conjI allI impI)
    fix x
    show "x < Suc ?c" if "((alive ?h)(?c := True)) x"
      using that tree_okD(1) [OF ok(1), of x] by (auto split: if_splits)
    show "((entry_get re_refCount 0 ?h)(?c := 1)) x = 1" if "((alive ?h)(?c := True)) x"
      using that tree_okD(2) [OF ok(1), of x] by (auto split: if_splits)
    show "\<exists>n. ((path_of ?h)(?c := entry_name p)) x = SEPARATOR # n" if "((alive ?h)(?c := True)) x"
      using that tree_okD(3) [OF ok(1), of x] n by (auto split: if_splits)
    show "distinct (((leaves_of ?h)(?c := [])) x)" using tree_okD(4) [OF ok(1)] by simp
    show "inj_on ((path_of ?h)(?c := entry_name p)) (set (((leaves_of ?h)(?c := [])) x))"
      using tree_okD(5) [OF ok(1), of x] nc(1) [of x] by (auto simp: inj_on_def)
    show "((fullpath_of ?h)(?c := entry_name p)) x = (case ((parent_entry ?h)(?c := None)) x of
        None \<Rightarrow> ((path_of ?h)(?c := entry_name p)) x
      | Some q \<Rightarrow> ((fullpath_of ?h)(?c := entry_name p)) q @ ((path_of ?h)(?c := entry_name p)) x)"
      if "((alive ?h)(?c := True)) x"
      using that tree_okD(10) [OF ok(1), of x] nc(2) [of x] by (auto split: if_splits option.splits)
    fix y
    show "((alive ?h)(?c := True)) y" "((parent_entry ?h)(?c := None)) y = Some x" "x < y"
      if "y \<in> set (((leaves_of ?h)(?c := [])) x)"
      using that tree_okD(6,7,8) [OF ok(1), of y x] nc(1) [of x] by (auto split: if_splits)
    show "x \<in> set (((leaves_of ?h)(?c := [])) y)" if "((parent_entry ?h)(?c := None)) x = Some y"
      using that tree_okD(9) [OF ok(1), of x y] nc(2) [of x] by (auto split: if_splits)
  qed
  moreover have "hold_ok ?h'"
    using tree_okD(1) [OF ok(1)]
    by (intro hold_cong [OF ok(2)]) (auto simp: f ob nx al less_Suc_eq split: if_splits)
  ultimately show "sound (s\<lparr>ds_heap := ?h', ds_root := Some ?c\<rparr>)"
    by (simp add: sound_def root_ok_def al f)
qed

section \<open>Sequences of operations\<close>

text \<open>
  What clients do: make objects, set and clear the root, register, retrieve, link and remove. A
  client that hands over an object that was freed is outside the model.
\<close>

datatype store_op =
    New_object
  | Set_root string object_id
  | Register string object_id
  | Register_at object_id string object_id
  | Register_address string address_id
  | Retrieve string
  | Link string object_id
  | Unlink string
  | Unregister string
  | Unregister_ptr object_id
  | Unregister_at object_id string
  | Clear_sub_tree string
  | Add_preload "string \<times> int"
  | Pre_load
  | Clear

definition object_given :: "data_svc \<Rightarrow> object_id \<Rightarrow> 'a outcome \<Rightarrow> 'a outcome" where
  "object_given s x r = (if hp_objects (ds_heap s) x = None then Undefined else r)"

definition address_given :: "data_svc \<Rightarrow> address_id \<Rightarrow> 'a outcome \<Rightarrow> 'a outcome" where
  "address_given s a r = (if hp_addresses (ds_heap s) a = None then Undefined else r)"

fun store_step :: "nat \<Rightarrow> services \<Rightarrow> store_op \<Rightarrow> data_svc \<Rightarrow> (ds_status \<times> data_svc) outcome" where
  "store_step fuel svc New_object s = Done (DS_SUCCESS, snd (createDefaultObject s))"
| "store_step fuel svc (Set_root p x) s =
     object_given s x
       (if root_name p \<and> hp_objects (ds_heap (clearStore s)) x \<noteq> None
        then Done (DS_SUCCESS, setRoot_object p (Some x) s) else Undefined)"
| "store_step fuel svc (Register p x) s =
     object_given s x (registerObject_full fuel svc p (Some x) s)"
| "store_step fuel svc (Register_at o' p x) s =
     object_given s o' (object_given s x (registerObject_at fuel svc (Some o') p (Some x) s))"
| "store_step fuel svc (Register_address p a) s =
     address_given s a (registerAddress fuel svc p (Some a) s)"
| "store_step fuel svc (Retrieve p) s =
     obind (retrieveObject svc None p s) (\<lambda>(st, x, s). Done (st, s))"
| "store_step fuel svc (Link p x) s = object_given s x (linkObject fuel svc p (Some x) s)"
| "store_step fuel svc (Unlink p) s = unlinkObject fuel p s"
| "store_step fuel svc (Unregister p) s = unregisterObject p s"
| "store_step fuel svc (Unregister_ptr x) s = object_given s x (unregisterObject_ptr (Some x) s)"
| "store_step fuel svc (Unregister_at x p) s = object_given s x (unregisterObject_at (Some x) p s)"
| "store_step fuel svc (Clear_sub_tree p) s = Done (clearSubTree p s)"
| "store_step fuel svc (Add_preload i) s = Done (DS_SUCCESS, addPreLoadItem i s)"
| "store_step fuel svc Pre_load s = obind (preLoad svc s) (\<lambda>s. Done (DS_SUCCESS, s))"
| "store_step fuel svc Clear s = Done (DS_SUCCESS, clearStore s)"

fun run_store :: "nat \<Rightarrow> services \<Rightarrow> store_op list \<Rightarrow> data_svc \<Rightarrow> (ds_status list \<times> data_svc) outcome" where
  "run_store fuel svc [] s = Done ([], s)"
| "run_store fuel svc (op # ops) s =
     obind (store_step fuel svc op s)
       (\<lambda>(st, s). obind (run_store fuel svc ops s) (\<lambda>(sts, s). Done (st # sts, s)))"

lemma given_Done [simp]:
  "object_given s x r = Done y \<longleftrightarrow> hp_objects (ds_heap s) x \<noteq> None \<and> r = Done y"
  "address_given s a r' = Done y' \<longleftrightarrow> hp_addresses (ds_heap s) a \<noteq> None \<and> r' = Done y'"
  by (simp_all add: object_given_def address_given_def)

lemma new_object_sound: "sound s \<Longrightarrow> sound (snd (createDefaultObject s))"
proof -
  assume s: "sound s"
  let ?h = "snd (new_object (ds_heap s))"
  note ok = soundD(1,2) [OF s]
  have e: "hp_entries ?h = hp_entries (ds_heap s)" "hp_next ?h = hp_next (ds_heap s)"
    "hp_addresses ?h = hp_addresses (ds_heap s)"
    by (simp_all add: new_object_def)
  have fresh: "hp_objects (ds_heap s) (hp_nextObject (ds_heap s)) = None"
    using hold_okD(7) [OF ok(2)] by blast
  have reg: "registry_of ?h x = registry_of (ds_heap s) x" for x
    using fresh by (simp add: registry_of_def new_object_def)
  have "counts_ok (object_of (ds_heap s))
      ((hp_objects (ds_heap s))(hp_nextObject (ds_heap s) \<mapsto> \<lparr>cn_refCount = 0, cn_registry = None\<rparr>))"
    by (rule counts_cells [OF hold_okD(2) [OF ok(2)]]) (use fresh in auto)
  then have "hold_ok ?h"
    using hold_okD [OF ok(2)] fresh unfolding hold_ok_def entry_get_cong [OF e(1)] reg e alive_def
    by (auto simp: new_object_def less_Suc_eq)
  with same_heap_sound [OF s same_tree_entries [OF e(1,2)]] show ?thesis
    by (simp add: createDefaultObject_def case_prod_beta Let_def)
qed

lemma setRoot_sound:
  assumes s: "sound s" and p: "root_name p" and x: "hp_objects (ds_heap (clearStore s)) x \<noteq> None"
  shows "sound (setRoot_object p (Some x) s)"
proof -
  note c = clear_sound [OF s]
  let ?s = "clearStore s"
  note r = root_entry_ok [OF conjunct1 [OF c] conjunct2 [OF c] p]
  let ?h = "snd (new_entry p None (ds_heap ?s))" and ?c = "hp_next (ds_heap ?s)"
  have e: "alive ?h ?c" "object_of ?h ?c = None" "address_of ?h ?c = None"
    using r(3) by (simp_all add: alive_def entry_get_def)
  have hold: "hold_ok (makeHard_object ?c (Some x) ?h)"
    using soundD(2) [OF r(1)] x by (intro makeHard_hold e) (simp_all add: r(4))
  let ?f = "\<lambda>r. r\<lparr>re_dataSvc := True\<rparr>"
  have tree: "same_tree ?h (upd_entry ?c ?f (makeHard_object ?c (Some x) ?h))"
    by (rule same_tree_trans [OF make_tree(2) same_tree_upd]) simp_all
  have "setRoot_object p (Some x) s = (?s\<lparr>ds_heap := ?h, ds_root := Some ?c\<rparr>)\<lparr>ds_heap := upd_entry ?c ?f (makeHard_object ?c (Some x) ?h)\<rparr>"
    using r(2) c by (simp add: setRoot_object_def i_setRoot_def Let_def case_prod_beta clearStore_def)
  moreover have "sound \<dots>"
    by (rule same_heap_sound [OF r(1)]) (use tree in simp, rule hold_upd [OF hold], simp_all)
  ultimately show ?thesis by simp
qed

lemma clearSubTree_sound: "sound s \<Longrightarrow> sound (snd (clearSubTree p s))"
  using remove_sound by (simp add: clearSubTree_def split: prod.splits option.splits)

text \<open>A step leaves a sound store, and ForceLeaves as it was.\<close>

definition steady :: "data_svc \<Rightarrow> data_svc \<Rightarrow> bool" where
  "steady s s' \<longleftrightarrow> sound s' \<and> ds_forceLeaves s' = ds_forceLeaves s"

lemma keeps_steady: "keeps s s' \<Longrightarrow> sound s \<Longrightarrow> steady s s'"
  by (simp add: keeps_def steady_def extends_def)

lemma clear_forceLeaves [simp]: "ds_forceLeaves (clearStore s) = ds_forceLeaves s"
  by (simp add: clearStore_def split: option.splits)

lemma setRoot_forceLeaves [simp]: "ds_forceLeaves (setRoot_object p x s) = ds_forceLeaves s"
  by (simp add: setRoot_object_def i_setRoot_def Let_def case_prod_beta clearStore_def split: option.splits)

lemma unlink_sound: "sound s \<Longrightarrow> unlinkObject_at fuel p path s = Done (st, s') \<Longrightarrow> steady s s'"
proof (induction fuel arbitrary: p path)
  case (Suc fuel)
  show ?case
  proof (cases "ds_root s = None \<or> p = None \<or> path = []")
    case True
    with Suc.prems show ?thesis
      by (auto simp: steady_def deep_sep_def last_sep_def split: if_splits option.splits)
  next
    case False
    then obtain e where "p = Some e" by auto
    with False Suc show ?thesis
      using remove_name_sound [OF Suc.prems(1), of e path]
      by (auto simp: steady_def case_prod_beta Let_def split: if_splits option.splits prod.splits)
  qed
qed simp

lemma store_step_sound:
  assumes ok: "services_ok svc" and s: "sound s" "\<not> ds_forceLeaves s"
    and run: "store_step fuel svc op s = Done (st, s')"
  shows "steady s s'"
proof (cases op)
  case New_object
  with run new_object_sound [OF s(1)] show ?thesis
    by (auto simp: steady_def createDefaultObject_def case_prod_beta)
next
  case (Set_root p x)
  with run setRoot_sound [OF s(1)] show ?thesis by (auto simp: steady_def split: if_splits)
next
  case (Register p x)
  with run have "registerObject_at fuel svc None p (Some x) s = Done (st, s')" "hp_objects (ds_heap s) x \<noteq> None"
    by (auto simp: registerObject_full_def)
  from keeps_steady [OF registers_wellD(2) [OF register_keeps [OF ok] s this(2,1)] s(1)] show ?thesis .
next
  case (Register_at y p x)
  with run have "registerObject_at fuel svc (Some y) p (Some x) s = Done (st, s')" "hp_objects (ds_heap s) x \<noteq> None"
    by auto
  from keeps_steady [OF registers_wellD(2) [OF register_keeps [OF ok] s this(2,1)] s(1)] show ?thesis .
next
  case (Register_address p a)
  with run have a: "hp_addresses (ds_heap s) a \<noteq> None" and r: "registerAddress fuel svc p (Some a) s = Done (st, s')"
    by auto
  show ?thesis
  proof (cases "p = []")
    case True
    with r s show ?thesis by (simp add: registerAddress_def steady_def)
  next
    case False
    with r have "registerAddress_at fuel svc (if starts_sep p then None else ds_root s) p (Some a) s = Done (st, s')"
      by (simp add: registerAddress_def)
    from keeps_steady [OF registerAddress_keeps [OF ok s a _ this] s(1)] soundD(3) [OF s(1)] show ?thesis
      by (cases "starts_sep p") simp_all
  qed
next
  case (Retrieve p)
  with run obtain x where "retrieveObject svc None p s = Done (st, x, s')" by auto
  from keeps_steady [OF retrieveObject_keeps [OF ok s(1) _ this] s(1)] show ?thesis by simp
next
  case (Link p x)
  with run have l: "linkObject fuel svc p (Some x) s = Done (st, s')" by auto
  have path: "linkObject_path fuel svc a b (Some x) s = Done (st, s') \<Longrightarrow> steady s s'" for a b
  proof -
    assume "linkObject_path fuel svc a b (Some x) s = Done (st, s')"
    then obtain st1 pO s1 where r: "retrieveObject svc None a s = Done (st1, pO, s1)"
      and c: "(if st1 \<noteq> DS_SUCCESS then Done (st1, s1)
          else (case pO of None \<Rightarrow> Undefined
                | Some y \<Rightarrow> linkObject_at fuel svc (registry_of (ds_heap s1) y) b (Some x) s1)) = Done (st, s')"
      by (auto simp: linkObject_path_def)
    have k: "keeps s s1" using retrieveObject_keeps [OF ok s(1) _ r] by simp
    note s1 = keepsD(1) [OF k s(1)]
    show "steady s s'"
      using c k keeps_trans [OF k linkObject_keeps [OF ok s1 registry_alive [OF soundD(2) [OF s1]]]]
        keeps_steady [OF _ s(1)]
      by (auto split: if_splits option.splits)
  qed
  show ?thesis using l s path by (auto simp: linkObject_def steady_def split: if_splits option.splits)
next
  case (Unlink p)
  with run have l: "unlinkObject fuel p s = Done (st, s')" by auto
  have "unlinkObject_path fuel a b s = Done (st, s') \<Longrightarrow> steady s s'" for a b
    using unlink_sound [OF s(1)] s(1) by (auto simp: unlinkObject_path_def steady_def split: prod.splits if_splits)
  with l s show ?thesis by (auto simp: unlinkObject_def steady_def split: if_splits option.splits)
next
  case (Unregister p)
  with run s show ?thesis
    using remove_and_addRef_sound [OF s(1)]
    by (auto simp: unregisterObject_def steady_def split: prod.splits if_splits option.splits)
next
  case (Unregister_ptr x)
  with run s show ?thesis
    using remove_and_addRef_sound [OF s(1)]
    by (auto simp: unregisterObject_ptr_def steady_def split: if_splits option.splits)
next
  case (Unregister_at x p)
  with run s show ?thesis
    using remove_and_addRef_sound [OF s(1)]
    by (auto simp: unregisterObject_at_def steady_def split: if_splits option.splits)
next
  case (Clear_sub_tree p)
  then have "s' = snd (clearSubTree p s)" using run by (metis outcome.inject snd_conv store_step.simps(12))
  then show ?thesis using clearSubTree_sound [OF s(1), of p]
    by (auto simp: steady_def clearSubTree_def split: prod.splits option.splits)
next
  case (Add_preload i)
  with run s(1) show ?thesis by (auto simp: steady_def addPreLoadItem_def sound_def root_ok_def)
next
  case Pre_load
  with run have "preLoad svc s = Done s'" by auto
  from keeps_steady [OF preLoad_keeps [OF ok s(1) this] s(1)] show ?thesis .
next
  case Clear
  with run clear_sound [OF s(1)] show ?thesis by (auto simp: steady_def)
qed

section \<open>Properties\<close>

text \<open>The service after its construction.\<close>

definition empty_store :: data_svc where
  "empty_store = \<lparr>ds_heap = \<lparr>hp_entries = (\<lambda>_. None), hp_objects = (\<lambda>_. None), hp_addresses = (\<lambda>_. None),
       hp_next = 0, hp_nextObject = 0\<rparr>,
     ds_root = None, ds_rootName = ''/Event'', ds_forceLeaves = False, ds_inhibitPathes = [],
     ds_enableFaultHdlr = False, ds_enableAccessHdlr = False, ds_dataLoader = False, ds_preLoads = []\<rparr>"

lemma empty_store_sound: "sound empty_store"
proof -
  have e: "object_of (ds_heap empty_store) = (\<lambda>_. None)" "address_of (ds_heap empty_store) = (\<lambda>_. None)"
    by (simp_all add: fun_eq_iff empty_store_def entry_get_def)
  show ?thesis
    unfolding sound_def hold_ok_def counts_ok_def e
    by (simp add: tree_ok_def root_ok_def empty_store_def alive_def entry_get_def registry_of_def)
qed

lemma run_store_sound:
  "services_ok svc \<Longrightarrow> sound s \<Longrightarrow> \<not> ds_forceLeaves s \<Longrightarrow> run_store fuel svc ops s = Done (sts, s') \<Longrightarrow> sound s'"
proof (induction ops arbitrary: s sts)
  case (Cons op ops)
  from Cons.prems(4) obtain st s1 sts1 where "store_step fuel svc op s = Done (st, s1)"
    and r: "run_store fuel svc ops s1 = Done (sts1, s')"
    by auto
  from store_step_sound [OF Cons.prems(1-3) this(1)] Cons.prems(3) have "sound s1" "\<not> ds_forceLeaves s1"
    by (simp_all add: steady_def)
  from Cons.IH [OF Cons.prems(1) this r] show ?case .
qed simp

text \<open>
  C20. However clients use the data store, registering, linking, retrieving, unregistering and
  clearing in any order, and whatever the conversion service and the listeners add within their
  contract, the store stays sound: every entry's parent, leaves and full path agree and siblings
  have different names; every object and address an entry points to is alive and holds a
  reference for each entry that points to it; and an object's registry pointer is null or leads
  to a live entry that holds just this object.
\<close>

theorem data_store_sound:
  assumes "services_ok svc" and "run_store fuel svc ops empty_store = Done (sts, s)"
  shows "(\<forall>e c. c \<in> set (leaves_of (ds_heap s) e) \<longleftrightarrow> parent_entry (ds_heap s) c = Some e)
    \<and> (\<forall>e. inj_on (path_of (ds_heap s)) (set (leaves_of (ds_heap s) e)))
    \<and> (\<forall>e p. parent_entry (ds_heap s) e = Some p \<longrightarrow>
         fullpath_of (ds_heap s) e = fullpath_of (ds_heap s) p @ path_of (ds_heap s) e)
    \<and> (\<forall>e x. object_of (ds_heap s) e = Some x \<longrightarrow>
         (\<exists>k. hp_objects (ds_heap s) x = Some k \<and> card (holders (object_of (ds_heap s)) x) \<le> cn_refCount k))
    \<and> (\<forall>e a. address_of (ds_heap s) e = Some a \<longrightarrow>
         (\<exists>k. hp_addresses (ds_heap s) a = Some k \<and> card (holders (address_of (ds_heap s)) a) \<le> cn_refCount k))
    \<and> (\<forall>x e. registry_of (ds_heap s) x = Some e \<longrightarrow> alive (ds_heap s) e \<and> object_of (ds_heap s) e = Some x)"
proof -
  have s: "sound s"
    using run_store_sound [OF assms(1) empty_store_sound _ assms(2)] by (simp add: empty_store_def)
  note tree = soundD(1) [OF s] and hold = soundD(2) [OF s]
  have "fullpath_of (ds_heap s) e = fullpath_of (ds_heap s) p @ path_of (ds_heap s) e"
    if "parent_entry (ds_heap s) e = Some p" for e p
    using tree_okD(10) [OF tree tree_okD(6) [OF tree tree_okD(9) [OF tree that]]] that by simp
  then show ?thesis
    using tree_okD(5,7,9) [OF tree] counts_okD(2) [OF hold_okD(2) [OF hold]] counts_okD(2) [OF hold_okD(3) [OF hold]]
      hold_okD(4) [OF hold] registry_alive [OF hold]
    by (intro conjI allI impI iffI) blast+
qed

text \<open>Services that do nothing, and a job that registers, links and unregisters.\<close>

definition idle_services :: services where
  "idle_services = \<lparr>sv_createObj = (\<lambda>a s. (Ret (DS_FAILURE, None), s)), sv_fillObjRefs = (\<lambda>a x s. (Ret DS_SUCCESS, s)),
     sv_updateObj = (\<lambda>a x s. (Ret DS_SUCCESS, s)), sv_updateObjRefs = (\<lambda>a x s. (Ret DS_SUCCESS, s)),
     sv_fireIncident = (\<lambda>t p s. s)\<rparr>"

lemma idle_services_ok: "services_ok idle_services"
  by (simp add: services_ok_def idle_services_def)

definition job_ops :: "store_op list" where
  "job_ops = [New_object, Set_root ''/Event'' 0, New_object, Register ''/Event/a'' 1, New_object,
     Register ''/Event/y'' 2, Link ''/Event/l'' 1, Retrieve ''/Event/l'', Register ''a'' 2, Unregister ''/Event/a'']"

definition store_after :: "store_op list \<Rightarrow> data_svc" where
  "store_after ops =
     (case run_store 9 idle_services ops empty_store of Done (sts, s) \<Rightarrow> s | _ \<Rightarrow> empty_store)"

definition store_summary :: "(ds_status list \<times> data_svc) outcome \<Rightarrow> (ds_status list \<times> nat option \<times> nat option option) option" where
  "store_summary r = (case r of
     Done (sts, s) \<Rightarrow> Some (sts, map_option cn_refCount (hp_objects (ds_heap s) 1), map_option cn_registry (hp_objects (ds_heap s) 1))
   | _ \<Rightarrow> None)"

text \<open>
  Evaluating the store on a concrete state by simplification: the definitions, and congruences
  that keep the simplifier from unrolling a continuation before its argument is known.
\<close>

lemmas heap_eval = new_object_def new_entry_def setParent_def setAddress_def setObject_def set_soft_def
  makeSoft_object_def makeSoft_address_def makeHard_object_def makeHard_address_def free_entry_def
  depth_fuel_def remove_entry_def name_is_def remove_name_def i_create_def i_add_def add_address_def
  i_find_path_def entry_get_def registry_of_def upd_entry_def upd_object_def upd_address_def
  entry_name_def lead_sep_def last_sep_def strip_sep_def with_some_def obj_addRef_def obj_release_def
  obj_setRegistry_def drop_ref_def find_leaf.simps

lemmas store_eval = heap_eval find_sep1_def handleDataFault_def or_fault_def loadObject_def ensure_loaded_def
  find_or_fault_def retrieveObject_def createDefaultObject_def register_leaf_def open_parent_def
  registerObject_full_def setRoot_object_def i_setRoot_def clearStore_def findObject_at_def
  findObject_def unregisterObject_def unregisterObject_at_def linkObject_def linkObject_path_def
  registered_def deep_sep_def object_given_def root_name_def Let_def

lemma add_object_eval:
  "add_object e n p soft h =
     (if list_all (\<lambda>i. lead_sep n \<noteq> path_of h i) (leaves_of h e)
      then (True, i_add e (hp_next h) ((if soft then makeSoft_object else makeHard_object) (hp_next h) p
              (snd (new_entry (lead_sep n) (Some e) h))))
      else (False, h))"
  by (simp add: add_object_def i_create_def Let_def new_entry_def split: prod.splits)

lemma eval_congs:
  shows "m = m' \<Longrightarrow> obind m k = obind m' k"
    and "xs = xs' \<Longrightarrow> first_found g xs = first_found g xs'"
    and "ys = ys' \<Longrightarrow> y = y' \<Longrightarrow> fold f ys y = fold f ys' y'"
    and "e = e' \<Longrightarrow> s = s' \<Longrightarrow> open_parent c svc e p s = open_parent c svc e' p s'"
    and "q = q' \<Longrightarrow> h = h' \<Longrightarrow> with_some w q h = with_some w q' h'"
  by simp_all

lemma job_run:
  "store_summary (run_store 9 idle_services job_ops empty_store) =
     Some ([DS_SUCCESS, DS_SUCCESS, DS_SUCCESS, DS_SUCCESS, DS_SUCCESS, DS_SUCCESS, DS_SUCCESS, DS_SUCCESS,
            DOUBL_OBJ_PATH, DS_SUCCESS], Some 2, Some None)"
  by (simp add: store_eval add_object_eval eval_nat_numeral empty_store_def job_ops_def store_summary_def
      cong: eval_congs let_weak_cong prod.case_cong_weak)

lemma job_done: "\<exists>sts. run_store 9 idle_services job_ops empty_store = Done (sts, store_after job_ops)"
  using job_run by (auto simp: store_summary_def store_after_def split: outcome.splits)

lemma data_store_sound_witness:
  "map_option cn_refCount (hp_objects (ds_heap (store_after job_ops)) 1) = Some 2
   \<and> (\<forall>e c. c \<in> set (leaves_of (ds_heap (store_after job_ops)) e) \<longleftrightarrow>
        parent_entry (ds_heap (store_after job_ops)) c = Some e)
   \<and> (\<forall>e. inj_on (path_of (ds_heap (store_after job_ops))) (set (leaves_of (ds_heap (store_after job_ops)) e)))"
proof -
  obtain sts where "run_store 9 idle_services job_ops empty_store = Done (sts, store_after job_ops)"
    using job_done by blast
  from data_store_sound [OF idle_services_ok this] job_run this show ?thesis
    by (auto simp: store_summary_def)
qed

end
