(* ===== verification/Data_Store_Paths.thy ===== *)
theory Data_Store_Paths
  imports Data_Store_Runs
begin

text \<open>
  Names, paths and identifiers of the data store: what was registered is found under its name and
  under its identifier, unregistering through an ancestor leaves the entry, and a soft link
  whose target was unregistered leads to the root.
\<close>

section \<open>Finding by path\<close>

lemma sepfree_takeWhile: "SEPARATOR \<notin> set m \<Longrightarrow> takeWhile (\<lambda>c. c \<noteq> SEPARATOR) m = m \<and> dropWhile (\<lambda>c. c \<noteq> SEPARATOR) m = []"
  by (induction m) auto

lemma strip_sep_simps [simp]: "strip_sep [] = []" "strip_sep (SEPARATOR # m) = m"
  by (simp_all add: strip_sep_def)

lemma strip_sepfree: "SEPARATOR \<notin> set m \<Longrightarrow> strip_sep m = m"
  by (cases m) (auto simp: strip_sep_def)

lemma strip_sep_append: "p \<noteq> [] \<Longrightarrow> strip_sep (p @ q) = strip_sep p @ q"
  by (cases p) (simp_all add: strip_sep_def)

lemma find_leaf_name:
  assumes "SEPARATOR \<notin> set m" "m \<noteq> []"
  shows "find_leaf h e m = find (name_is h m) (leaves_of h e)"
  unfolding find_leaf_unfold [OF assms(2)] sepfree_takeWhile [OF assms(1), THEN conjunct1]
    sepfree_takeWhile [OF assms(1), THEN conjunct2]
  by (simp split: option.splits)

lemma i_find_name:
  assumes "one_segment n" "strip_sep n \<noteq> []"
  shows "i_find_path h e n = find (name_is h (strip_sep n)) (leaves_of h e)"
  using assms find_leaf_name [of "strip_sep n"] by (simp add: i_find_path_def one_segment_def)

lemma name_is_path:
  assumes "tree_ok h" "alive h c"
  shows "name_is h n c \<longleftrightarrow> path_of h c = SEPARATOR # n"
  using tree_okD(3) [OF assms] by (auto simp: name_is_def)

lemma find_leaf_unique:
  assumes ok: "tree_ok h" and c: "c \<in> set (leaves_of h e)" and n: "name_is h n c"
  shows "find (name_is h n) (leaves_of h e) = Some c"
proof -
  have "d = c" if "d \<in> set (leaves_of h e)" "name_is h n d" for d
    using that n c tree_okD(5) [OF ok, of e] name_is_path [OF ok tree_okD(6) [OF ok]]
    by (metis inj_onD)
  moreover obtain d where d: "find (name_is h n) (leaves_of h e) = Some d"
    using c n by (cases "find (name_is h n) (leaves_of h e)") (auto simp: find_None_iff)
  moreover have "d \<in> set (leaves_of h e) \<and> name_is h n d" using d by (auto simp: find_Some_iff)
  ultimately show ?thesis using d by blast
qed

text \<open>One more name at the end of a path takes one more step down.\<close>

lemma find_leaf_extend:
  "find_leaf h e p = Some d \<Longrightarrow> m \<noteq> [] \<Longrightarrow> SEPARATOR \<notin> set m \<Longrightarrow>
    find_leaf h e (p @ SEPARATOR # m) = find_leaf h d m"
proof (induction "length p" arbitrary: e p rule: less_induct)
  case less
  let ?cp = "takeWhile (\<lambda>c. c \<noteq> SEPARATOR) p" and ?rest = "drop 1 (dropWhile (\<lambda>c. c \<noteq> SEPARATOR) p)"
  let ?q = "p @ SEPARATOR # m"
  have ne: "p \<noteq> []" using less.prems(1) by auto
  have cp: "takeWhile (\<lambda>c. c \<noteq> SEPARATOR) ?q = ?cp" by (induction p) auto
  have rest: "drop 1 (dropWhile (\<lambda>c. c \<noteq> SEPARATOR) ?q) = (if SEPARATOR \<in> set p then ?rest @ SEPARATOR # m else m)"
    by (induction p) auto
  have ne': "?q \<noteq> []" by simp
  note unfold = find_leaf_unfold [OF ne', unfolded cp rest]
  have none: "?rest = []" if "SEPARATOR \<notin> set p" using sepfree_takeWhile [OF that] by (simp only: drop_Nil)
  note IH = less.hyps [OF rest_shorter [OF ne] _ less.prems(2,3)] less.hyps [OF strip_rest_shorter [OF ne] _ less.prems(2,3)]
  show ?case
  proof (cases "find (name_is h ?cp) (leaves_of h e)")
    case None
    with less.prems(1) have own: "?cp = drop 1 (path_of h e)" and f: "find_leaf h e ?rest = Some d"
      by (auto simp: find_leaf_unfold [OF ne] split: if_splits)
    with none have "SEPARATOR \<in> set p" by (cases "SEPARATOR \<in> set p") auto
    with None own IH(1) [OF f] show ?thesis by (simp add: unfold del: drop_append)
  next
    case (Some c)
    show ?thesis
    proof (cases "?rest = []")
      case True
      with less.prems(1) Some have "c = d" by (simp add: find_leaf_unfold [OF ne])
      with True Some less.prems(2,3) show ?thesis by (simp add: unfold strip_sepfree del: drop_append)
    next
      case False
      with less.prems(1) Some have f: "find_leaf h c (strip_sep ?rest) = Some d" by (simp add: find_leaf_unfold [OF ne])
      from False none have "SEPARATOR \<in> set p" by blast
      with False Some IH(2) [OF f] show ?thesis by (simp add: unfold strip_sep_append del: drop_append)
    qed
  qed
qed

section \<open>Identifiers\<close>

definition proper_name :: "string \<Rightarrow> bool" where
  "proper_name p \<longleftrightarrow> (case p of [] \<Rightarrow> False | c # m \<Rightarrow> c = SEPARATOR \<and> m \<noteq> [] \<and> SEPARATOR \<notin> set m)"

lemma proper_nameE:
  assumes "proper_name p"
  obtains m where "p = SEPARATOR # m" "m \<noteq> []" "SEPARATOR \<notin> set m"
  using assms by (auto simp: proper_name_def split: list.splits)

lemma identifier_leads_back:
  assumes ok: "tree_ok h" and r: "alive h r" "parent_entry h r = None"
    and names: "\<And>d. d \<in> below h r \<Longrightarrow> proper_name (path_of h d)"
    and own: "\<And>c. c \<in> set (leaves_of h r) \<Longrightarrow> path_of h c \<noteq> path_of h r"
    and e: "(r, e) \<in> (child_rel h)\<^sup>*"
  shows "e = r \<and> fullpath_of h e = path_of h r
    \<or> (\<exists>p. fullpath_of h e = SEPARATOR # p \<and> find_leaf h r p = Some e)"
  using e
proof (induction rule: rtrancl_induct)
  case base
  show ?case using tree_okD(10) [OF ok r(1)] r(2) by simp
next
  case (step d e)
  from step.hyps have leaf: "e \<in> set (leaves_of h d)" and b: "d \<in> below h r" "e \<in> below h r"
    by (auto simp: child_rel_def below_def intro: rtrancl_into_rtrancl)
  obtain m where m: "path_of h e = SEPARATOR # m" "m \<noteq> []" "SEPARATOR \<notin> set m"
    using proper_nameE [OF names [OF b(2)]] by blast
  have full: "fullpath_of h e = fullpath_of h d @ SEPARATOR # m"
    using tree_okD(10) [OF ok tree_okD(6) [OF ok leaf]] tree_okD(7) [OF ok leaf] m(1) by simp
  have last: "find_leaf h d m = Some e"
    using find_leaf_name [OF m(3,2)] find_leaf_unique [OF ok leaf, of m] m(1) by (simp add: name_is_def)
  show ?case
  proof (cases "d = r \<and> fullpath_of h d = path_of h r")
    case True
    obtain k where k: "path_of h r = SEPARATOR # k" "k \<noteq> []" "SEPARATOR \<notin> set k"
      using proper_nameE [OF names [of r]] by (auto simp: below_def)
    have none: "find (name_is h k) (leaves_of h r) = None"
      using own name_is_path [OF ok tree_okD(6) [OF ok]] k(1) by (fastforce simp: find_None_iff)
    have cut: "takeWhile (\<lambda>c. c \<noteq> SEPARATOR) (k @ SEPARATOR # m) = k"
      "drop 1 (dropWhile (\<lambda>c. c \<noteq> SEPARATOR) (k @ SEPARATOR # m)) = m"
      using k(3) by (induction k) auto
    have "find_leaf h r (k @ SEPARATOR # m) = Some e"
      by (subst find_leaf_unfold) (use last True k(1) none in \<open>simp_all only: cut, simp_all\<close>)
    moreover have "fullpath_of h e = SEPARATOR # k @ SEPARATOR # m" using True full k(1) by auto
    ultimately show ?thesis by blast
  next
    case False
    with step.IH obtain p where p: "fullpath_of h d = SEPARATOR # p" "find_leaf h r p = Some d" by auto
    from find_leaf_extend [OF p(2) m(2,3)] last full p(1) show ?thesis by simp
  qed
qed

text \<open>
  C22. Round trip between entries and identifiers: when the names below the root are proper (they
  start with a separator and hold no other, as the names given at registration do) and no leaf
  of the root is named like the root, the identifier of every entry below the root leads back to
  that entry, and looking it up gives the entry's object, or says that it is not loaded.
\<close>

theorem identifier_finds_entry:
  assumes "sound s" and "ds_root s = Some r" and "e \<in> strictly_below (ds_heap s) r"
    and "\<And>d. d \<in> below (ds_heap s) r \<Longrightarrow> proper_name (path_of (ds_heap s) d)"
    and "\<And>c. c \<in> set (leaves_of (ds_heap s) r) \<Longrightarrow> path_of (ds_heap s) c \<noteq> path_of (ds_heap s) r"
  shows "i_find_path (ds_heap s) r (fullpath_of (ds_heap s) e) = Some e
    \<and> findObject_at None (fullpath_of (ds_heap s) e) s =
        (case object_of (ds_heap s) e of None \<Rightarrow> (OBJ_NOT_LOADED, None) | Some x \<Rightarrow> (NO_ERROR, Some x))"
proof -
  let ?h = "ds_heap s"
  have root: "alive ?h r" "parent_entry ?h r = None"
    using assms(1,2) by (simp_all add: sound_def root_ok_def)
  note ok = soundD(1) [OF assms(1)]
  have e: "(r, e) \<in> (child_rel ?h)\<^sup>*" "e \<noteq> r"
  proof -
    obtain c where c: "c \<in> set (leaves_of ?h r)" "e \<in> below ?h c" using assms(3) by (auto simp: strictly_below_def)
    then show "(r, e) \<in> (child_rel ?h)\<^sup>*"
      by (auto simp: below_def child_rel_def intro: converse_rtrancl_into_rtrancl)
    from below_ge [OF ok c(2)] tree_okD(8) [OF ok c(1)] show "e \<noteq> r" by simp
  qed
  from identifier_leads_back [OF ok root assms(4,5) e(1)] e(2)
  obtain p where "fullpath_of ?h e = SEPARATOR # p" "find_leaf ?h r p = Some e" by auto
  then show ?thesis using assms(2) by (simp add: i_find_path_def findObject_at_def)
qed

section \<open>Registering and finding\<close>

lemma makeHard_get:
  assumes "alive h c"
  shows "object_of (makeHard_object c p h) = (object_of h)(c := p)"
proof -
  have e: "hp_entries (makeHard_object c p h) = hp_entries (set_soft c False (setObject c p (set_soft c True h)))"
  proof -
    have w: "hp_entries (with_some (obj_setRegistry q) y k) = hp_entries k"
      "hp_entries (with_some (adr_setRegistry q) z k) = hp_entries k" for q y z k
      by (cases y; simp add: counted_ops_entries) (cases z; simp add: counted_ops_entries)
    show ?thesis unfolding makeHard_object_def makeSoft_object_def Let_def w ..
  qed
  have a: "alive (set_soft c True h) c" using assms by (simp add: set_soft_def alive_upd)
  have o: "object_of (set_soft c b k) = object_of k" for b k
    by (simp add: set_soft_def entry_get_upd)
  show ?thesis unfolding entry_get_cong [OF e] o setObject_get(1) [OF a] ..
qed

lemma makeHard_registry:
  assumes "alive h c" "object_of h c = None" "hp_objects h x \<noteq> None"
  shows "registry_of (makeHard_object c (Some x) h) x = Some c"
proof -
  let ?k = "set_soft c False (setObject c (Some x) (set_soft c True h))"
  have a: "alive (set_soft c True h) c" using assms(1) by (simp add: set_soft_def alive_upd)
  have o: "object_of (set_soft c b k) = object_of k" for b k
    by (simp add: set_soft_def entry_get_upd)
  have ob: "object_of ?k c = Some x" unfolding o setObject_get(1) [OF a] by simp
  have "hp_objects ?k x \<noteq> None"
    using assms(3) unfolding set_soft_def heap_simps
    by (subst setObject_objects) (simp_all add: assms(2) entry_get_upd heap_simps)
  then have "registry_of (obj_setRegistry (Some c) x ?k) x = Some c"
    by (auto simp: registry_of_def obj_setRegistry_def upd_object_def)
  moreover have "registry_of (with_some (adr_setRegistry q) y k) x = registry_of k x" for q y k
    by (cases y) (simp_all add: registry_of_def heap_simps)
  ultimately show ?thesis
    by (simp add: makeHard_object_def makeSoft_object_def Let_def ob)
qed

lemma i_add_keeps_objects:
  "object_of (i_add e c h) = object_of h" "registry_of (i_add e c h) = registry_of h"
proof -
  let ?k = "setParent c (Some e) (upd_entry e (\<lambda>r. r\<lparr>re_store := re_store r @ [c]\<rparr>)
          (upd_entry c (\<lambda>r. r\<lparr>re_dataSvc := entry_get re_dataSvc False h e\<rparr>) h))"
  have k: "object_of ?k = object_of h" "registry_of ?k = registry_of h"
    by (simp_all add: setParent_def Let_def entry_get_upd registry_of_def heap_simps fun_eq_iff)
  show "object_of (i_add e c h) = object_of h" "registry_of (i_add e c h) = registry_of h"
    using k by (cases "address_of ?k c";
        simp add: i_add_def Let_def entry_get_cong [OF counted_ops_entries(4)] registry_of_def heap_simps fun_eq_iff)+
qed

lemma added_object:
  assumes ok: "tree_ok h" and e: "alive h e" and n: "one_segment n" and x: "hp_objects h x \<noteq> None"
    and new: "fst (add_object e n (Some x) False h)"
  shows "object_of (snd (add_object e n (Some x) False h)) (hp_next h) = Some x"
    and "registry_of (snd (add_object e n (Some x) False h)) x = Some (hp_next h)"
proof -
  note sh = new_entry_shape [OF ok e n]
  let ?k = "snd (new_entry (lead_sep n) (Some e) h)" and ?c = "hp_next h"
  have k: "alive ?k ?c" "object_of ?k ?c = None" "hp_objects ?k x \<noteq> None"
    using x by (simp_all add: alive_def entry_get_def sh)
  have s: "snd (add_object e n (Some x) False h) = i_add e ?c (makeHard_object ?c (Some x) ?k)"
    using new sh(1) by (auto simp: add_object_def i_create_cases case_prod_beta split: if_splits)
  show "object_of (snd (add_object e n (Some x) False h)) ?c = Some x"
    unfolding s i_add_keeps_objects makeHard_get [OF k(1)] by simp
  show "registry_of (snd (add_object e n (Some x) False h)) x = Some ?c"
    unfolding s i_add_keeps_objects makeHard_registry [OF k] ..
qed

lemma filled_object:
  assumes "alive h c" "object_of h c = None" "\<not> is_soft h c" "hp_objects h x \<noteq> None"
  shows "object_of (setObject c (Some x) (setAddress c None (obj_setRegistry (Some c) x h))) c = Some x"
    and "registry_of (setObject c (Some x) (setAddress c None (obj_setRegistry (Some c) x h))) x = Some c"
proof -
  have a: "alive (setAddress c None h) c" "object_of (setAddress c None h) c = None"
    using assms by (simp_all add: setAddress_get)
  show "object_of (setObject c (Some x) (setAddress c None (obj_setRegistry (Some c) x h))) c = Some x"
    unfolding registry_twice [OF assms(2,3)] setObject_get(1) [OF a(1)] by simp
  show "registry_of (setObject c (Some x) (setAddress c None (obj_setRegistry (Some c) x h))) x = Some c"
    unfolding registry_twice [OF assms(2,3)] registry_of_def setObject_objects [OF a(2)]
    using assms(3,4) by (auto simp: setAddress_get setAddress_fields)
qed

lemma registered_leaf:
  assumes s: "sound s" and e: "alive (ds_heap s) e" and flat: "find_sep1 n = None" and name: "strip_sep n \<noteq> []"
    and x: "hp_objects (ds_heap s) x \<noteq> None" and run: "register_leaf e n (Some x) s = Done (DS_SUCCESS, s')"
  shows "\<exists>c. i_find_path (ds_heap s') e n = Some c \<and> object_of (ds_heap s') c = Some x
    \<and> registry_of (ds_heap s') x = Some c \<and> fullpath_of (ds_heap s') c = fullpath_of (ds_heap s') e @ lead_sep n"
proof -
  let ?h = "ds_heap s"
  have ne: "n \<noteq> []" using name by auto
  have one: "one_segment n" using one_segment_flat [OF flat ne] .
  note ok = soundD(1) [OF s]
  have s': "sound s'" using keepsD(1) [OF register_leaf_keeps [OF s e flat x run] s] .
  note ok' = soundD(1) [OF s']
  have path: "fullpath_of (ds_heap s') c = fullpath_of (ds_heap s') e @ lead_sep n"
    if "c \<in> set (leaves_of (ds_heap s') e)" "name_is (ds_heap s') (strip_sep n) c" for c
    using tree_okD(10) [OF ok' tree_okD(6) [OF ok' that(1)]] tree_okD(7) [OF ok' that(1)]
      name_is_path [OF ok' tree_okD(6) [OF ok' that(1)]] that(2) lead_strip [OF ne] by simp
  have here: ?thesis
    if "i_find_path (ds_heap s') e n = Some c" "object_of (ds_heap s') c = Some x"
      "registry_of (ds_heap s') x = Some c" for c
  proof -
    from that(1) have "c \<in> set (leaves_of (ds_heap s') e)" "name_is (ds_heap s') (strip_sep n) c"
      by (auto simp: i_find_name [OF one name] find_Some_iff)
    with path that show ?thesis by blast
  qed
  show ?thesis
  proof (cases "i_find_path ?h e n")
    case None
    with run ne have new: "fst (add_object e n (Some x) False ?h)"
      and h: "ds_heap s' = snd (add_object e n (Some x) False ?h)"
      by (auto simp: register_leaf_def split: if_splits)
    note g = add_grown(2) [OF ok e one new, folded h]
    let ?c = "hp_next ?h"
    have "?c \<in> set (leaves_of (ds_heap s') e)" "path_of (ds_heap s') ?c = lead_sep n"
      using g by (simp_all add: grown_def Let_def)
    then have "i_find_path (ds_heap s') e n = Some ?c"
      using find_leaf_unique [OF ok', of ?c e "strip_sep n"] lead_strip [OF ne]
      by (simp add: i_find_name [OF one name] name_is_def)
    then show ?thesis using added_object [OF ok e one x new, folded h] by (intro here)
  next
    case (Some l)
    with run ne have none: "object_of ?h l = None"
      and h: "ds_heap s' = setObject l (Some x) (setAddress l None (obj_setRegistry (Some l) x ?h))"
      by (auto simp: register_leaf_def split: if_splits)
    have l: "alive ?h l" using i_find_alive [OF ok Some] .
    have "\<not> is_soft ?h l" using hold_okD(6) [OF soundD(2) [OF s]] none by blast
    note f = filled_object [OF l none this x, folded h]
    have "same_tree ?h (ds_heap s')"
      unfolding h
      using same_tree_entries [of "obj_setRegistry (Some l) x ?h" ?h] setAddress_tree setObject_tree same_tree_trans
      by (metis counted_ops_entries(2,6))
    then have "i_find_path (ds_heap s') e n = i_find_path ?h e n"
      by (simp add: i_find_name [OF one name] same_tree_def name_is_def [abs_def])
    with Some f show ?thesis by (intro here) simp_all
  qed
qed

text \<open>
  C21. What was registered is found: after an object was registered under a name of one segment
  with success, looking the name up below the same entry gives that object, the object's
  registry leads to its entry, whose identifier is the parent's followed by the name; and
  registering anything there again is refused and changes nothing.
\<close>

theorem registered_object_found:
  assumes "sound s" and "registry_of (ds_heap s) p = Some e"
    and "find_sep1 n = None" and "strip_sep n \<noteq> []" and "hp_objects (ds_heap s) x \<noteq> None"
    and "registerObject_at (Suc fuel) svc (Some p) n (Some x) s = Done (DS_SUCCESS, s')"
  shows "findObject_at (Some e) n s' = (NO_ERROR, Some x)
    \<and> (\<exists>c. registry_of (ds_heap s') x = Some c \<and> object_of (ds_heap s') c = Some x
         \<and> fullpath_of (ds_heap s') c = fullpath_of (ds_heap s') e @ lead_sep n)
    \<and> (\<forall>q y. registry_of (ds_heap s') q = Some e \<longrightarrow>
         registerObject_at (Suc fuel) svc (Some q) n y s' = Done (DOUBL_OBJ_PATH, s'))"
proof -
  have ne: "n \<noteq> []" using assms(4) by auto
  from assms(2,3,6) have root: "ds_root s \<noteq> None" and r: "register_leaf e n (Some x) s = Done (DS_SUCCESS, s')"
    by (auto split: if_splits)
  note e = registry_alive [OF soundD(2) [OF assms(1)] assms(2)]
  from registered_leaf [OF assms(1) e assms(3-5) r]
  obtain c where c: "i_find_path (ds_heap s') e n = Some c" "object_of (ds_heap s') c = Some x"
    "registry_of (ds_heap s') x = Some c" "fullpath_of (ds_heap s') c = fullpath_of (ds_heap s') e @ lead_sep n"
    by blast
  have "ds_root s' \<noteq> None"
    using keepsD(2) [OF register_leaf_keeps [OF assms(1) e assms(3,5) r] assms(1)] root by (simp add: extends_def)
  with c ne assms(3) show ?thesis by (auto simp: findObject_at_def register_leaf_def)
qed

section \<open>Where the code surprises\<close>

text \<open>
  An object that lies deeper than one level below the given parent is not unregistered by its
  path: the call says success, yet the entry and everything else stays as it was, and only the
  object's reference count grows by one.
\<close>

theorem nested_unregister_keeps_entry:
  assumes "ds_root s \<noteq> None" and "registry_of (ds_heap s) p = Some e" and "path \<noteq> []"
    and "i_find_path (ds_heap s) e path = Some d" and "d \<notin> set (leaves_of (ds_heap s) e)"
    and "leaves_of (ds_heap s) d = []" and "object_of (ds_heap s) d = Some x"
    and "hp_objects (ds_heap s) x = Some k"
  shows "\<exists>s'. unregisterObject_at (Some p) path s = Done (DS_SUCCESS, s')
    \<and> hp_entries (ds_heap s') = hp_entries (ds_heap s)
    \<and> hp_objects (ds_heap s') = (hp_objects (ds_heap s))(x \<mapsto> k\<lparr>cn_refCount := cn_refCount k + 1\<rparr>)
    \<and> i_find_path (ds_heap s') e path = Some d"
proof -
  let ?h = "obj_addRef x (ds_heap s)"
  have "leaves_of ?h = leaves_of (ds_heap s)" "path_of ?h = path_of (ds_heap s)"
    by (simp_all add: entry_get_cong [OF counted_ops_entries(1)])
  then have "find_leaf ?h f q = find_leaf (ds_heap s) f q" for f q
  proof (induction "length q" arbitrary: f q rule: less_induct)
    case less
    show ?case
    proof (cases "q = []")
      case False
      note less.hyps [OF rest_shorter [OF False] less.prems] less.hyps [OF strip_rest_shorter [OF False] less.prems]
      with less.prems show ?thesis
        unfolding find_leaf_unfold [OF False] by (simp only: name_is_def [abs_def])
    qed simp
  qed
  then show ?thesis
    using assms remove_entry_absent [of d ?h e] \<open>leaves_of ?h = _\<close>
    by (simp add: unregisterObject_at_def i_find_path_def heap_simps obj_addRef_def upd_object_def)
qed

lemma find_sep1_front:
  "SEPARATOR \<notin> set m \<Longrightarrow> find_sep1 (SEPARATOR # m @ SEPARATOR # q) = Some (Suc (length m))"
proof -
  assume "SEPARATOR \<notin> set m"
  then have "takeWhile (\<lambda>c. c \<noteq> SEPARATOR) (m @ SEPARATOR # q) = m" by (induction m) auto
  then show ?thesis by (simp add: find_sep1_def)
qed

text \<open>
  A soft link keeps its object alive when the object is unregistered, but the object then has
  no registry entry, and the path below the link is looked up from a null parent, which stands
  for the root: the name after the link is dropped and the rest is looked up under the root, so
  that with a stale link \<open>/Event/l\<close> the path \<open>/Event/l/x/y\<close> gives \<open>/Event/y\<close>.
\<close>

theorem stale_link_restarts_at_root:
  assumes "ds_root s = Some r" and "object_of (ds_heap s) r \<noteq> None" and "find_sep1 (ds_rootName s) = None"
    and "SEPARATOR \<notin> set m" and "i_find_path (ds_heap s) r (SEPARATOR # m) = Some l"
    and "is_soft (ds_heap s) l" and "object_of (ds_heap s) l = Some x" and "registry_of (ds_heap s) x = None"
    and "SEPARATOR \<notin> set k"
  shows "retrieveEntry svc (Some r) (SEPARATOR # m @ SEPARATOR # k @ SEPARATOR # rest) s =
         retrieveEntry svc (Some r) (SEPARATOR # rest) s"
proof -
  let ?below = "SEPARATOR # k @ SEPARATOR # rest"
  obtain y where y: "object_of (ds_heap s) r = Some y" using assms(2) by blast
  have "ds_rootName s \<noteq> ?below" using find_sep1_front [OF assms(9), of rest] assms(3) by auto
  have "retrieveEntry svc (Some r) (SEPARATOR # m @ ?below) s = retrieveEntry svc None ?below s"
    by (subst retrieveEntry.simps(2))
      (use assms(1,3-) y in \<open>simp add: find_sep1_front ensure_loaded_def find_or_fault_def Let_def del: retrieveEntry.simps\<close>)
  also have "\<dots> = retrieveEntry svc (Some r) (SEPARATOR # rest) s"
    by (subst retrieveEntry.simps(1))
      (use assms(1,3-) y \<open>ds_rootName s \<noteq> ?below\<close> find_sep1_front [OF assms(9)] in \<open>auto simp del: retrieveEntry.simps\<close>)
  finally show ?thesis .
qed

section \<open>Witnesses\<close>

definition link_ops :: "store_op list" where
  "link_ops = [New_object, Set_root ''/Event'' 0, New_object, Register ''/Event/a'' 1, New_object,
     Register ''/Event/y'' 2, Link ''/Event/l'' 1, Unregister ''/Event/a'', New_object,
     Register ''/Event/y/b'' 3, New_object]"

definition link_store :: data_svc where
  "link_store = \<lparr>ds_heap = \<lparr>hp_entries = [
      0 \<mapsto> \<lparr>re_refCount = 1, re_isSoft = False, re_fullpath = ''/Event'', re_path = ''/Event'',
           re_parent = None, re_address = None, re_object = Some 0, re_dataSvc = True, re_store = [2, 3]\<rparr>,
      2 \<mapsto> \<lparr>re_refCount = 1, re_isSoft = False, re_fullpath = ''/Event/y'', re_path = ''/y'',
           re_parent = Some 0, re_address = None, re_object = Some 2, re_dataSvc = True, re_store = [4]\<rparr>,
      3 \<mapsto> \<lparr>re_refCount = 1, re_isSoft = True, re_fullpath = ''/Event/l'', re_path = ''/l'',
           re_parent = Some 0, re_address = None, re_object = Some 1, re_dataSvc = True, re_store = []\<rparr>,
      4 \<mapsto> \<lparr>re_refCount = 1, re_isSoft = False, re_fullpath = ''/Event/y/b'', re_path = ''/b'',
           re_parent = Some 2, re_address = None, re_object = Some 3, re_dataSvc = True, re_store = []\<rparr>],
     hp_objects = [0 \<mapsto> \<lparr>cn_refCount = 1, cn_registry = Some 0\<rparr>, 1 \<mapsto> \<lparr>cn_refCount = 2, cn_registry = None\<rparr>,
       2 \<mapsto> \<lparr>cn_refCount = 1, cn_registry = Some 2\<rparr>, 3 \<mapsto> \<lparr>cn_refCount = 1, cn_registry = Some 4\<rparr>,
       4 \<mapsto> \<lparr>cn_refCount = 0, cn_registry = None\<rparr>],
     hp_addresses = (\<lambda>_. None), hp_next = 5, hp_nextObject = 5\<rparr>,
    ds_root = Some 0, ds_rootName = ''/Event'', ds_forceLeaves = False, ds_inhibitPathes = [],
    ds_enableFaultHdlr = False, ds_enableAccessHdlr = False, ds_dataLoader = False, ds_preLoads = []\<rparr>"

lemma link_run:
  "run_store 5 idle_services link_ops empty_store = Done (replicate 11 DS_SUCCESS, link_store)"
  by (simp add: store_eval add_object_eval eval_nat_numeral empty_store_def link_ops_def link_store_def
      cong: eval_congs let_weak_cong prod.case_cong_weak)
    (simp add: fun_eq_iff)

lemma link_store_sound: "sound link_store"
  using run_store_sound [OF idle_services_ok empty_store_sound _ link_run] by (simp add: empty_store_def)

lemmas link_store_eval = link_store_def store_eval retrieveEntry.simps

lemma stale_link_restarts_at_root_witness:
  "retrieveEntry idle_services (Some 0) ''/l/x/y'' link_store = Done (DS_SUCCESS, Some 2, link_store)"
proof -
  have "retrieveEntry idle_services (Some 0) (SEPARATOR # ''l'' @ SEPARATOR # ''x'' @ SEPARATOR # ''y'') link_store =
        retrieveEntry idle_services (Some 0) (SEPARATOR # ''y'') link_store"
    by (rule stale_link_restarts_at_root [where l = 3 and x = 1])
      (simp_all add: link_store_def store_eval cong: eval_congs let_weak_cong)
  also have "\<dots> = Done (DS_SUCCESS, Some 2, link_store)"
    by (simp add: link_store_def store_eval cong: eval_congs let_weak_cong prod.case_cong_weak)
  finally show ?thesis by simp
qed

lemma nested_unregister_keeps_entry_witness:
  "\<exists>s'. unregisterObject_at (Some 0) ''/y/b'' link_store = Done (DS_SUCCESS, s')
    \<and> i_find_path (ds_heap s') 0 ''/y/b'' = Some 4"
proof -
  have "\<exists>s'. unregisterObject_at (Some 0) ''/y/b'' link_store = Done (DS_SUCCESS, s')
    \<and> hp_entries (ds_heap s') = hp_entries (ds_heap link_store)
    \<and> hp_objects (ds_heap s') = (hp_objects (ds_heap link_store))
         (3 \<mapsto> \<lparr>cn_refCount = 1, cn_registry = Some 4\<rparr>\<lparr>cn_refCount := cn_refCount \<lparr>cn_refCount = 1, cn_registry = Some 4\<rparr> + 1\<rparr>)
    \<and> i_find_path (ds_heap s') 0 ''/y/b'' = Some 4"
    by (rule nested_unregister_keeps_entry)
      (simp_all add: link_store_def store_eval cong: eval_congs let_weak_cong)
  then show ?thesis by blast
qed

lemma registered_object_found_witness:
  "\<exists>s'. registerObject_at 1 idle_services (Some 2) ''/c'' (Some 4) link_store = Done (DS_SUCCESS, s')
    \<and> findObject_at (Some 2) ''/c'' s' = (NO_ERROR, Some 4)
    \<and> fst (findObject_at (Some 2) ''/c'' link_store) = INVALID_OBJ_PATH"
proof -
  have reg: "registry_of (ds_heap link_store) 2 = Some 2" and x: "hp_objects (ds_heap link_store) 4 \<noteq> None"
    by (simp_all add: link_store_def registry_of_def)
  have n: "find_sep1 ''/c'' = None" "strip_sep ''/c'' \<noteq> []" by (simp_all add: find_sep1_def)
  have "\<exists>s'. registerObject_at (Suc 0) idle_services (Some 2) ''/c'' (Some 4) link_store = Done (DS_SUCCESS, s')"
    by (simp add: link_store_def store_eval add_object_eval cong: eval_congs let_weak_cong prod.case_cong_weak)
  then obtain s' where r: "registerObject_at (Suc 0) idle_services (Some 2) ''/c'' (Some 4) link_store = Done (DS_SUCCESS, s')"
    by blast
  moreover have "fst (findObject_at (Some 2) ''/c'' link_store) = INVALID_OBJ_PATH"
    by (simp add: link_store_def store_eval cong: eval_congs let_weak_cong)
  ultimately show ?thesis using registered_object_found [OF link_store_sound reg n x r] by (simp only: One_nat_def) blast
qed

lemma link_store_below: "below (ds_heap link_store) 0 \<subseteq> {0, 2, 3, 4}"
proof
  fix x assume "x \<in> below (ds_heap link_store) 0"
  then have "(0, x) \<in> (child_rel (ds_heap link_store))\<^sup>*" by (simp add: below_def)
  then show "x \<in> {0, 2, 3, 4}"
    by (induction rule: rtrancl_induct)
      (auto simp: child_rel_def link_store_def entry_get_def split: if_splits)
qed

lemma identifier_finds_entry_witness:
  "i_find_path (ds_heap link_store) 0 ''/Event/y/b'' = Some 4"
proof -
  have "i_find_path (ds_heap link_store) 0 (fullpath_of (ds_heap link_store) 4) = Some 4"
  proof (rule conjunct1 [OF identifier_finds_entry])
    show "4 \<in> strictly_below (ds_heap link_store) 0"
      unfolding strictly_below_def below_def
    proof (rule UN_I)
      show "2 \<in> set (leaves_of (ds_heap link_store) 0)" by (simp add: link_store_def entry_get_def)
      show "4 \<in> {x. (2, x) \<in> (child_rel (ds_heap link_store))\<^sup>*}"
        by (auto simp: child_rel_def link_store_def entry_get_def intro!: r_into_rtrancl)
    qed
    show "proper_name (path_of (ds_heap link_store) d)" if "d \<in> below (ds_heap link_store) 0" for d
      using that link_store_below by (auto simp: link_store_def entry_get_def proper_name_def dest!: subsetD)
    show "path_of (ds_heap link_store) c \<noteq> path_of (ds_heap link_store) 0" if "c \<in> set (leaves_of (ds_heap link_store) 0)" for c
      using that by (auto simp: link_store_def entry_get_def)
  qed (simp_all add: link_store_sound, simp add: link_store_def)
  then show ?thesis by (simp add: link_store_def entry_get_def)
qed

end
