(* ===== verification/Stream_Buffer.thy ===== *)
theory Stream_Buffer
  imports Prelude
begin

text \<open>
  \<open>StreamBuffer\<close> (GaudiKernel/include/GaudiKernel/StreamBuffer.h): a byte stream on the heap that
  objects are written to and read from. The memory of the host is explicit: the byte order, the
  bytes of fresh heap blocks and of the uninitialised local array of \<open>swapToBuffer\<close> are
  parameters. None stands for an access out of the bounds of a block or to an element that is not
  there. \<open>realloc\<close> always finds memory. The types have the widths of a 64-bit Unix on every
  platform value; the value only selects the branches that the code compiles for it, so
  \<open>Windows\<close> stands for its swapping code, not for its \<open>long\<close> of four bytes.
\<close>

section \<open>The host\<close>

datatype platform = Alpha | Sun_i386 | Apple | Linux | Windows | Other_platform

record host =
  h_platform :: platform
  h_bigEndian :: bool
  h_stack :: "u8 list"
  h_heap :: "nat \<Rightarrow> u8"

text \<open>The types of the overloads; values are their bit patterns.\<close>

datatype prim_type = T_longlong | T_int | T_uint | T_long | T_ulong | T_short | T_ushort | T_char | T_uchar | T_float | T_double

fun size_of :: "prim_type \<Rightarrow> nat" where
  "size_of T_longlong = 8" | "size_of T_int = 4" | "size_of T_uint = 4" | "size_of T_long = 8" | "size_of T_ulong = 8"
| "size_of T_short = 2" | "size_of T_ushort = 2" | "size_of T_char = 1" | "size_of T_uchar = 1" | "size_of T_float = 4"
| "size_of T_double = 8"

primrec le_bytes :: "nat \<Rightarrow> u64 \<Rightarrow> u8 list" where
  "le_bytes 0 v = []"
| "le_bytes (Suc n) v = ucast v # le_bytes n (drop_bit 8 v)"

fun of_le :: "u8 list \<Rightarrow> u64" where
  "of_le [] = 0"
| "of_le (b # bs) = ucast b + 256 * of_le bs"

definition memory_of :: "host \<Rightarrow> nat \<Rightarrow> u64 \<Rightarrow> u8 list" where
  "memory_of h n v = (if h_bigEndian h then rev (le_bytes n v) else le_bytes n v)"

definition of_memory :: "host \<Rightarrow> u8 list \<Rightarrow> u64" where
  "of_memory h bs = (if h_bigEndian h then of_le (rev bs) else of_le bs)"

text \<open>\<open>swab\<close> of the C library.\<close>

fun swab :: "u8 list \<Rightarrow> u8 list" where
  "swab (a # b # bs) = b # a # swab bs"
| "swab bs = bs"

section \<open>The stream\<close>

datatype stream_mode = UNINITIALIZED | READING | WRITING

datatype swap_action = SINGLE_BYTE | SWAP | NOSWAP

text \<open>Objects are natural numbers, None the null pointer; the two numbers are hint and link.\<close>

type_synonym object_ptr = "nat option"
type_synonym contained_link = "object_ptr \<times> int \<times> int"
type_synonym identified_link = "object_ptr \<times> int"

record stream =
  sb_mode :: stream_mode
  sb_pointer :: int
  sb_length :: int
  sb_buffer :: "u8 list"
  sb_swapEnabled :: bool
  sb_containedLinks :: "contained_link list"
  sb_identifiedLinks :: "identified_link list"
  sb_analyzer :: bool

definition INVALID_LINK :: int where
  "INVALID_LINK = - 1"

definition new_stream :: "bool \<Rightarrow> stream" where
  "new_stream do_swap =
     \<lparr>sb_mode = UNINITIALIZED, sb_pointer = 0, sb_length = 0, sb_buffer = [], sb_swapEnabled = do_swap,
      sb_containedLinks = [], sb_identifiedLinks = [], sb_analyzer = False\<rparr>"

definition sb_erase :: "stream \<Rightarrow> stream" where
  "sb_erase s = s\<lparr>sb_pointer := 0\<rparr>"

definition adopt :: "stream \<Rightarrow> u8 list \<times> stream" where
  "adopt s = (sb_buffer s,
     s\<lparr>sb_containedLinks := [], sb_identifiedLinks := [], sb_buffer := [], sb_pointer := 0, sb_length := 0\<rparr>)"

definition realloc :: "host \<Rightarrow> nat \<Rightarrow> u8 list \<Rightarrow> u8 list" where
  "realloc h n bs = (if n \<le> length bs then take n bs else bs @ map (h_heap h) [length bs..<n])"

definition reserve :: "host \<Rightarrow> int \<Rightarrow> stream \<Rightarrow> stream" where
  "reserve h len s =
     (if len > sb_length s
      then (let m_length = (if len < 16384 then 16384 else len)
            in s\<lparr>sb_length := m_length, sb_buffer := realloc h (nat m_length) (sb_buffer s)\<rparr>)
      else s)"

definition sb_extend :: "host \<Rightarrow> int \<Rightarrow> stream \<Rightarrow> stream" where
  "sb_extend h len s =
     (if len + sb_pointer s > sb_length s
      then (let new_len = (if sb_length s < 16384 then 16384 else 2 * sb_length s);
                new_len = (if sb_length s < len then new_len + len else new_len)
            in reserve h new_len s)
      else s)"

definition sb_setMode :: "stream_mode \<Rightarrow> stream \<Rightarrow> stream" where
  "sb_setMode m s = s\<lparr>sb_mode := m, sb_pointer := 0, sb_containedLinks := [], sb_identifiedLinks := []\<rparr>"

definition isReading :: "stream \<Rightarrow> bool" where
  "isReading s \<longleftrightarrow> sb_mode s = READING"

definition isWriting :: "stream \<Rightarrow> bool" where
  "isWriting s \<longleftrightarrow> sb_mode s = WRITING"

definition setBuffPointer :: "int \<Rightarrow> stream \<Rightarrow> stream" where
  "setBuffPointer p s = s\<lparr>sb_pointer := p\<rparr>"

definition setAnalyzer :: "bool \<Rightarrow> stream \<Rightarrow> stream" where
  "setAnalyzer on s = s\<lparr>sb_analyzer := on\<rparr>"

section \<open>Bytes in and out of the buffer\<close>

definition in_block :: "int \<Rightarrow> nat \<Rightarrow> stream \<Rightarrow> bool" where
  "in_block p n s \<longleftrightarrow> 0 \<le> p \<and> p + int n \<le> int (length (sb_buffer s))"

definition poke :: "nat \<Rightarrow> u8 list \<Rightarrow> u8 list \<Rightarrow> u8 list" where
  "poke p bs buf = take p buf @ bs @ drop (p + length bs) buf"

text \<open>\<open>copy_n\<close> to the place of the pointer, and the move of the pointer.\<close>

definition copy_in :: "u8 list \<Rightarrow> stream \<Rightarrow> stream option" where
  "copy_in bs s =
     (if in_block (sb_pointer s) (length bs) s
      then Some (s\<lparr>sb_buffer := poke (nat (sb_pointer s)) bs (sb_buffer s), sb_pointer := sb_pointer s + int (length bs)\<rparr>)
      else None)"

definition swapBuffer :: "host \<Rightarrow> nat \<Rightarrow> stream \<Rightarrow> swap_action" where
  "swapBuffer h siz s =
     (if siz = 1 then SINGLE_BYTE
      else case h_platform h of
          Alpha \<Rightarrow> NOSWAP
        | Sun_i386 \<Rightarrow> NOSWAP
        | Apple \<Rightarrow> SWAP
        | Linux \<Rightarrow> NOSWAP
        | Windows \<Rightarrow> NOSWAP
        | Other_platform \<Rightarrow> if sb_swapEnabled s then SWAP else NOSWAP)"

text \<open>
  In the case SWAP the bytes copied are those of the local array: on Apple the loop has put the
  bytes into the target, and the array is as the stack left it.
\<close>

definition swapToBuffer :: "host \<Rightarrow> u8 list \<Rightarrow> stream \<Rightarrow> stream option" where
  "swapToBuffer h source s =
     (let siz = length source;
          s = sb_extend h (sb_pointer s + int siz) s
      in copy_in
           (case swapBuffer h siz s of
              SINGLE_BYTE \<Rightarrow> source
            | SWAP \<Rightarrow> if h_platform h = Apple then take siz (h_stack h) else swab source
            | NOSWAP \<Rightarrow> source) s)"

definition swapFromBuffer :: "host \<Rightarrow> nat \<Rightarrow> stream \<Rightarrow> (u8 list \<times> stream) option" where
  "swapFromBuffer h siz s =
     (if in_block (sb_pointer s) siz s
      then (let src = take siz (drop (nat (sb_pointer s)) (sb_buffer s))
            in Some (case swapBuffer h siz s of
                       SINGLE_BYTE \<Rightarrow> src
                     | SWAP \<Rightarrow> if h_platform h = Apple then rev src else swab src
                     | NOSWAP \<Rightarrow> src,
                     s\<lparr>sb_pointer := sb_pointer s + int siz\<rparr>))
      else None)"

definition write_prim :: "host \<Rightarrow> prim_type \<Rightarrow> u64 \<Rightarrow> stream \<Rightarrow> stream option" where
  "write_prim h t v s = swapToBuffer h (memory_of h (size_of t) v) s"

definition read_prim :: "host \<Rightarrow> prim_type \<Rightarrow> stream \<Rightarrow> (u64 \<times> stream) option" where
  "read_prim h t s = map_option (\<lambda>(bs, s). (of_memory h bs, s)) (swapFromBuffer h (size_of t) s)"

definition read_long :: "host \<Rightarrow> stream \<Rightarrow> (int \<times> stream) option" where
  "read_long h s = map_option (\<lambda>(v, s). (sint v, s)) (read_prim h T_long s)"

definition writeBytes :: "host \<Rightarrow> u8 list \<Rightarrow> stream \<Rightarrow> stream option" where
  "writeBytes h str s =
     (let s = sb_extend h (sb_pointer s + int (length str) + 4) s
      in Option.bind (write_prim h T_long (of_nat (length str)) s) (copy_in str))"

text \<open>\<open>m_buffer[m_pointer++]\<close>, so often.\<close>

primrec take_bytes :: "nat \<Rightarrow> stream \<Rightarrow> (u8 list \<times> stream) option" where
  "take_bytes 0 s = Some ([], s)"
| "take_bytes (Suc n) s =
     (if in_block (sb_pointer s) 1 s
      then map_option (\<lambda>(bs, s'). (sb_buffer s ! nat (sb_pointer s) # bs, s'))
             (take_bytes n (s\<lparr>sb_pointer := sb_pointer s + 1\<rparr>))
      else None)"

definition write_cstring :: "host \<Rightarrow> u8 list option \<Rightarrow> stream \<Rightarrow> stream option" where
  "write_cstring h data s =
     (let ptr = (case data of None \<Rightarrow> [] | Some bs \<Rightarrow> takeWhile (\<lambda>b. b \<noteq> 0) bs)
      in if sb_analyzer s then Some s else writeBytes h (ptr @ [0]) s)"

text \<open>\<open>cap\<close>: the size of the array the caller gives.\<close>

definition read_cstring :: "host \<Rightarrow> nat \<Rightarrow> stream \<Rightarrow> (u8 list \<times> stream) option" where
  "read_cstring h cap s =
     Option.bind (read_long h s) (\<lambda>(len, s).
       if cap = 0 \<or> len > int cap then None
       else map_option (\<lambda>(bs, s). (if bs = [] then [0] else bs, s)) (take_bytes (nat len) s))"

definition write_string :: "host \<Rightarrow> u8 list \<Rightarrow> stream \<Rightarrow> stream option" where
  "write_string h data s = (if sb_analyzer s then Some s else writeBytes h data s)"

definition read_string :: "host \<Rightarrow> stream \<Rightarrow> (u8 list \<times> stream) option" where
  "read_string h s = Option.bind (read_long h s) (\<lambda>(len, s). take_bytes (nat len) s)"

section \<open>Vectors and lists\<close>

text \<open>What can be streamed; \<open>std::vector\<close> and \<open>std::list\<close> are streamed alike.\<close>

datatype item_type = Prim prim_type | Text | Sequence item_type

datatype item = P prim_type u64 | S "u8 list" | V "item list"

primrec fold_write :: "('a \<Rightarrow> stream \<Rightarrow> stream option) \<Rightarrow> 'a list \<Rightarrow> stream \<Rightarrow> stream option" where
  "fold_write f [] s = Some s"
| "fold_write f (x # xs) s = Option.bind (f x s) (fold_write f xs)"

primrec repeat_read :: "(stream \<Rightarrow> ('a \<times> stream) option) \<Rightarrow> nat \<Rightarrow> stream \<Rightarrow> ('a list \<times> stream) option" where
  "repeat_read f 0 s = Some ([], s)"
| "repeat_read f (Suc n) s =
     Option.bind (f s) (\<lambda>(x, s). map_option (\<lambda>(xs, s). (x # xs, s)) (repeat_read f n s))"

lemma fold_write_cong [fundef_cong]:
  "xs = ys \<Longrightarrow> s = t \<Longrightarrow> (\<And>x s. x \<in> set ys \<Longrightarrow> f x s = g x s) \<Longrightarrow> fold_write f xs s = fold_write g ys t"
  by (induction xs arbitrary: ys s t) (auto intro!: bind_option_cong)

fun write_item :: "host \<Rightarrow> item \<Rightarrow> stream \<Rightarrow> stream option" where
  "write_item h (P t v) s = write_prim h t v s"
| "write_item h (S bs) s = write_string h bs s"
| "write_item h (V xs) s = Option.bind (write_prim h T_ulong (of_nat (length xs)) s) (fold_write (\<lambda>x s. write_item h x s) xs)"

primrec read_item :: "host \<Rightarrow> item_type \<Rightarrow> stream \<Rightarrow> (item \<times> stream) option" where
  "read_item h (Prim t) s = map_option (\<lambda>(v, s). (P t v, s)) (read_prim h t s)"
| "read_item h Text s = map_option (\<lambda>(bs, s). (S bs, s)) (read_string h s)"
| "read_item h (Sequence t) s =
     Option.bind (read_long h s) (\<lambda>(len, s). map_option (\<lambda>(xs, s). (V xs, s)) (repeat_read (read_item h t) (nat len) s))"

section \<open>Links\<close>

definition addIdentifiedLink :: "object_ptr \<Rightarrow> int \<Rightarrow> stream \<Rightarrow> stream" where
  "addIdentifiedLink pObject hint s = s\<lparr>sb_identifiedLinks := sb_identifiedLinks s @ [(pObject, hint)]\<rparr>"

definition getIdentifiedLink :: "stream \<Rightarrow> (object_ptr \<times> int \<times> stream) option" where
  "getIdentifiedLink s =
     (if sb_identifiedLinks s = [] then None
      else (case last (sb_identifiedLinks s) of
              (pObject, hint) \<Rightarrow> Some (pObject, hint, s\<lparr>sb_identifiedLinks := butlast (sb_identifiedLinks s)\<rparr>)))"

definition addContainedLink :: "object_ptr \<Rightarrow> int \<Rightarrow> int \<Rightarrow> stream \<Rightarrow> stream" where
  "addContainedLink pObject hint link s = s\<lparr>sb_containedLinks := sb_containedLinks s @ [(pObject, hint, link)]\<rparr>"

definition getContainedLink :: "stream \<Rightarrow> (object_ptr \<times> int \<times> int \<times> stream) option" where
  "getContainedLink s =
     (if sb_containedLinks s = [] then None
      else (case last (sb_containedLinks s) of
              (pObject, hint, link) \<Rightarrow> Some (pObject, hint, link, s\<lparr>sb_containedLinks := butlast (sb_containedLinks s)\<rparr>)))"

text \<open>\<open>is_type\<close>: which objects the \<open>dynamic_cast\<close> accepts.\<close>

definition cast_to :: "(nat \<Rightarrow> bool) \<Rightarrow> object_ptr \<Rightarrow> object_ptr" where
  "cast_to is_type p = (case p of None \<Rightarrow> None | Some obj \<Rightarrow> if is_type obj then Some obj else None)"

definition getObjectPointer :: "(nat \<Rightarrow> bool) \<Rightarrow> stream \<Rightarrow> (object_ptr \<times> stream) option" where
  "getObjectPointer is_type s = map_option (\<lambda>(p, hint, s). (cast_to is_type p, s)) (getIdentifiedLink s)"

definition getContainedPointer :: "(nat \<Rightarrow> bool) \<Rightarrow> stream \<Rightarrow> (object_ptr \<times> stream) option" where
  "getContainedPointer is_type s = map_option (\<lambda>(p, hint, link, s). (cast_to is_type p, s)) (getContainedLink s)"

definition write_object :: "object_ptr \<Rightarrow> stream \<Rightarrow> stream" where
  "write_object p = addIdentifiedLink p INVALID_LINK"

definition write_contained :: "object_ptr \<Rightarrow> stream \<Rightarrow> stream" where
  "write_contained p = addContainedLink p INVALID_LINK INVALID_LINK"

section \<open>Standard streams\<close>

record istream =
  is_chars :: "u8 list"
  is_good :: bool

definition is_space :: "u8 \<Rightarrow> bool" where
  "is_space c \<longleftrightarrow> c = 32 \<or> (9 \<le> c \<and> c \<le> 13)"

definition is_digit :: "u8 \<Rightarrow> bool" where
  "is_digit c \<longleftrightarrow> 48 \<le> c \<and> c \<le> 57"

text \<open>\<open>>>\<close> of an \<open>int\<close>: when the stream is not good, or ends before it, the variable stays uninitialised.\<close>

definition extract_int :: "istream \<Rightarrow> (int \<times> istream) option" where
  "extract_int st =
     (let cs = dropWhile is_space (is_chars st)
      in if \<not> is_good st \<or> cs = [] then None
         else
           (let (neg, cs) = (if hd cs = 45 then (True, tl cs) else if hd cs = 43 then (False, tl cs) else (False, cs));
                ds = takeWhile is_digit cs;
                rest = dropWhile is_digit cs;
                v = int (of_digits 0 (map (\<lambda>c. char_of (unat c)) ds));
                v = (if neg then - v else v);
                len = max (- (2 ^ 31)) (min (2 ^ 31 - 1) v)
            in Some (len, \<lparr>is_chars = rest, is_good = ds \<noteq> [] \<and> v = len \<and> rest \<noteq> []\<rparr>)))"

definition istream_load :: "host \<Rightarrow> istream \<Rightarrow> stream \<Rightarrow> (istream \<times> stream) option" where
  "istream_load h st s =
     map_option (\<lambda>(len, st).
       (let s = reserve h len (sb_erase s);
            n = (if is_good st then nat len else 0);
            got = take n (is_chars st)
        in (st\<lparr>is_chars := drop n (is_chars st), is_good := is_good st \<and> int (length got) = len\<rparr>,
            s\<lparr>sb_buffer := poke 0 got (sb_buffer s)\<rparr>)))
       (extract_int st)"

definition ostream_dump :: "u8 list \<Rightarrow> stream \<Rightarrow> (u8 list \<times> stream) option" where
  "ostream_dump out s =
     (if 0 \<le> sb_pointer s \<and> in_block 0 (nat (sb_pointer s)) s
      then Some (out @ map of_char (to_string (nat (sb_pointer s))) @ take (nat (sb_pointer s)) (sb_buffer s), s)
      else None)"

datatype data_io = Istream_io istream | Ostream_io "u8 list"

datatype stream_error = Bad_stream_mode

text \<open>\<open>StreamBuffer::serialize\<close>, over \<open>DataIO::serialize\<close> of the two classes.\<close>

definition sb_serialize :: "host \<Rightarrow> data_io \<Rightarrow> stream \<Rightarrow> (stream_error + data_io \<times> stream) option" where
  "sb_serialize h io s =
     (case io of
        Istream_io st \<Rightarrow>
          if isReading s
          then map_option (\<lambda>(st, s). Inr (Istream_io st, s\<lparr>sb_pointer := 0\<rparr>)) (istream_load h st s)
          else Some (Inl Bad_stream_mode)
      | Ostream_io out \<Rightarrow>
          if isReading s then Some (Inl Bad_stream_mode)
          else if isWriting s
          then map_option (\<lambda>(out, s). Inr (Ostream_io out, s\<lparr>sb_pointer := 0\<rparr>)) (ostream_dump out s)
          else Some (Inl Bad_stream_mode))"

section \<open>Runs of a client\<close>

datatype stream_op =
    Write item
  | Write_cstring "u8 list option"
  | Read item_type
  | Read_cstring nat
  | Set_mode stream_mode
  | Erase
  | Reserve int
  | Extend int
  | Adopt
  | Set_analyzer bool

fun stream_step :: "host \<Rightarrow> stream_op \<Rightarrow> stream \<Rightarrow> stream option" where
  "stream_step h (Write x) s = write_item h x s"
| "stream_step h (Write_cstring d) s = write_cstring h d s"
| "stream_step h (Read t) s = map_option snd (read_item h t s)"
| "stream_step h (Read_cstring cap) s = map_option snd (read_cstring h cap s)"
| "stream_step h (Set_mode m) s = Some (sb_setMode m s)"
| "stream_step h Erase s = Some (sb_erase s)"
| "stream_step h (Reserve n) s = Some (reserve h n s)"
| "stream_step h (Extend n) s = Some (sb_extend h n s)"
| "stream_step h Adopt s = Some (snd (adopt s))"
| "stream_step h (Set_analyzer on) s = Some (setAnalyzer on s)"

definition stream_run :: "host \<Rightarrow> stream_op list \<Rightarrow> stream \<Rightarrow> stream option" where
  "stream_run h = fold_write (stream_step h)"

end
