(* ===== verification/Stream_Facts.thy ===== *)
theory Stream_Facts
  imports Stream_Buffer
begin

text \<open>
  What is written to a stream buffer is appended to its content within the bounds of the block,
  but for the strings of \<open>writeBytes\<close> that end in its last bytes; and what was written is read back.
\<close>

section \<open>Memory images\<close>

lemma length_le_bytes [simp]: "length (le_bytes n v) = n"
  by (induction n arbitrary: v) auto

lemma length_memory_of [simp]: "length (memory_of h n v) = n"
  by (simp add: memory_of_def)

lemma take_bit_split:
  fixes v :: u64
  shows "take_bit 8 v + 256 * take_bit m (drop_bit 8 v) = take_bit (8 + m) v"
proof -
  have "take_bit 8 v + push_bit 8 (take_bit m (drop_bit 8 v)) = take_bit (8 + m) v"
    by (subst disjunctive_add) (auto intro!: bit_word_eqI simp: bit_simps)
  then show ?thesis by (simp add: push_bit_eq_mult mult.commute)
qed

lemma of_le_bytes: "of_le (le_bytes n v) = take_bit (8 * n) v"
proof (induction n arbitrary: v)
  case (Suc n)
  have "ucast (ucast v :: u8) = take_bit 8 v" by (simp add: unsigned_ucast_eq)
  then show ?case using take_bit_split [of v "8 * n"] Suc by simp
qed simp

lemma of_memory_of: "of_memory h (memory_of h n v) = take_bit (8 * n) v"
  by (simp add: of_memory_def memory_of_def of_le_bytes)

lemma swab_swab [simp]: "swab (swab bs) = bs"
  by (induction bs rule: swab.induct) auto

lemma length_swab [simp]: "length (swab bs) = length bs"
  by (induction bs rule: swab.induct) auto

section \<open>The block and the pointer\<close>

definition stream_inv :: "stream \<Rightarrow> bool" where
  "stream_inv s \<longleftrightarrow> int (length (sb_buffer s)) = sb_length s \<and> 0 \<le> sb_pointer s \<and> sb_pointer s \<le> sb_length s
     \<and> (sb_length s = 0 \<or> 16384 \<le> sb_length s)"

definition content :: "stream \<Rightarrow> u8 list" where
  "content s = take (nat (sb_pointer s)) (sb_buffer s)"

definition remaining :: "stream \<Rightarrow> u8 list" where
  "remaining s = drop (nat (sb_pointer s)) (sb_buffer s)"

text \<open>\<open>appends s bs s'\<close>: the step from s to s' puts bs behind the pointer and changes nothing else.\<close>

definition appends :: "stream \<Rightarrow> u8 list \<Rightarrow> stream \<Rightarrow> bool" where
  "appends s bs s' \<longleftrightarrow> stream_inv s' \<and> content s' = content s @ bs \<and> sb_pointer s' = sb_pointer s + int (length bs)
     \<and> sb_length s \<le> sb_length s' \<and> sb_swapEnabled s' = sb_swapEnabled s \<and> sb_analyzer s' = sb_analyzer s"

lemma appends_trans: "appends s xs t \<Longrightarrow> appends t ys u \<Longrightarrow> appends s (xs @ ys) u"
  by (auto simp: appends_def)

lemma appends_refl: "stream_inv s \<Longrightarrow> appends s [] s"
  by (simp add: appends_def)

lemma appends_inv: "appends s bs s' \<Longrightarrow> stream_inv s'"
  by (simp add: appends_def)

lemma new_stream_inv: "stream_inv (new_stream e)"
  by (simp add: stream_inv_def new_stream_def)

lemma length_realloc [simp]: "length (realloc h n bs) = n"
  by (simp add: realloc_def)

lemma take_realloc: "k \<le> length bs \<Longrightarrow> length bs \<le> n \<Longrightarrow> take k (realloc h n bs) = take k bs"
  by (auto simp: realloc_def)

lemma reserve_appends: "stream_inv s \<Longrightarrow> appends s [] (reserve h len s)"
  by (auto simp: appends_def stream_inv_def reserve_def Let_def content_def take_realloc)

lemma reserve_length: "len \<le> sb_length (reserve h len s)"
  by (simp add: reserve_def Let_def)

lemma sb_extend_appends: "stream_inv s \<Longrightarrow> appends s [] (sb_extend h len s)"
  by (auto simp: sb_extend_def Let_def reserve_appends) (simp add: appends_def)

lemma sb_extend_length:
  assumes "stream_inv s"
  shows "len \<le> sb_length (sb_extend h len s)"
  using assms by (auto simp: sb_extend_def reserve_def Let_def stream_inv_def)

lemma copy_in_appends:
  assumes "stream_inv s" and "sb_pointer s + int (length bs) \<le> sb_length s"
  obtains s' where "copy_in bs s = Some s'" "appends s bs s'" "sb_length s' = sb_length s"
proof -
  let ?s = "s\<lparr>sb_buffer := poke (nat (sb_pointer s)) bs (sb_buffer s), sb_pointer := sb_pointer s + int (length bs)\<rparr>"
  have "nat (sb_pointer s + int (length bs)) = nat (sb_pointer s) + length bs"
    using assms by (simp add: stream_inv_def nat_add_distrib)
  then have "appends s bs ?s"
    using assms by (auto simp: appends_def stream_inv_def content_def poke_def)
  moreover have "copy_in bs s = Some ?s"
    using assms by (simp add: copy_in_def in_block_def stream_inv_def)
  ultimately show thesis by (intro that [of ?s]) simp_all
qed

lemma copy_in_overrun: "stream_inv s \<Longrightarrow> sb_length s < sb_pointer s + int (length bs) \<Longrightarrow> copy_in bs s = None"
  by (simp add: copy_in_def in_block_def stream_inv_def)

section \<open>Writing\<close>

text \<open>What a value looks like in the stream.\<close>

definition wire :: "host \<Rightarrow> bool \<Rightarrow> u8 list \<Rightarrow> u8 list" where
  "wire h e bs =
     (if length bs = 1 then bs
      else case h_platform h of
          Apple \<Rightarrow> take (length bs) (h_stack h)
        | Other_platform \<Rightarrow> if e then swab bs else bs
        | _ \<Rightarrow> bs)"

lemma length_wire: "length (h_stack h) = 8 \<Longrightarrow> length bs \<le> 8 \<Longrightarrow> length (wire h e bs) = length bs"
  by (simp add: wire_def split: platform.split)

lemma size_of_range: "0 < size_of t \<and> size_of t \<le> 8"
  by (cases t) auto

lemma swapToBuffer_wire:
  "swapToBuffer h bs s = copy_in (wire h (sb_swapEnabled s) bs) (sb_extend h (sb_pointer s + int (length bs)) s)"
  by (auto simp: swapToBuffer_def Let_def swapBuffer_def wire_def sb_extend_def reserve_def split: platform.split)

lemma write_prim_appends:
  assumes "stream_inv s" and "length (h_stack h) = 8"
  obtains s' where "write_prim h t v s = Some s'"
    "appends s (wire h (sb_swapEnabled s) (memory_of h (size_of t) v)) s'"
    "sb_length s' = sb_length (sb_extend h (sb_pointer s + int (size_of t)) s)"
proof -
  let ?w = "wire h (sb_swapEnabled s) (memory_of h (size_of t) v)"
  let ?e = "sb_extend h (sb_pointer s + int (size_of t)) s"
  have e: "appends s [] ?e" using assms(1) by (rule sb_extend_appends)
  have w: "length ?w = size_of t" using assms(2) size_of_range [of t] by (simp add: length_wire)
  have "sb_pointer ?e = sb_pointer s" using e by (simp add: appends_def)
  moreover have "sb_pointer s + int (size_of t) \<le> sb_length ?e" using assms(1) by (rule sb_extend_length)
  ultimately obtain s' where s': "copy_in ?w ?e = Some s'" "appends ?e ?w s'" "sb_length s' = sb_length ?e"
    using copy_in_appends [OF appends_inv [OF e], of ?w] w by force
  then show thesis
    using appends_trans [OF e] by (intro that [of s']) (simp_all add: write_prim_def swapToBuffer_wire)
qed

text \<open>The strings \<open>writeBytes\<close> has no room for: it reserves four bytes for the length, and writes eight.\<close>

definition overruns :: "nat \<Rightarrow> stream \<Rightarrow> bool" where
  "overruns n s \<longleftrightarrow> 2 * sb_pointer s + int n + 4 \<le> sb_length s \<and> sb_length s < sb_pointer s + int n + 8"

lemma not_overruns: "stream_inv s \<Longrightarrow> 8 \<le> sb_pointer s \<or> sb_length s = 0 \<Longrightarrow> \<not> overruns n s"
  by (auto simp: overruns_def stream_inv_def)

definition long_wire :: "host \<Rightarrow> bool \<Rightarrow> nat \<Rightarrow> u8 list" where
  "long_wire h e n = wire h e (memory_of h 8 (of_nat n))"

lemma length_long_wire: "length (h_stack h) = 8 \<Longrightarrow> length (long_wire h e n) = 8"
  by (simp add: long_wire_def length_wire)

lemma writeBytes_cases:
  assumes inv: "stream_inv s" and st: "length (h_stack h) = 8"
  shows "if overruns (length bs) s then writeBytes h bs s = None
         else \<exists>s'. writeBytes h bs s = Some s' \<and> appends s (long_wire h (sb_swapEnabled s) (length bs) @ bs) s'"
proof -
  let ?len = "sb_pointer s + int (length bs) + 4"
  let ?e = "sb_extend h ?len s"
  have e: "appends s [] ?e" using inv by (rule sb_extend_appends)
  then have ep: "sb_pointer ?e = sb_pointer s" by (simp add: appends_def)
  obtain s1 where s1: "write_prim h T_long (of_nat (length bs)) ?e = Some s1"
    "appends ?e (long_wire h (sb_swapEnabled ?e) (length bs)) s1"
    "sb_length s1 = sb_length (sb_extend h (sb_pointer s + 8) ?e)"
    using write_prim_appends [OF appends_inv [OF e] st, of T_long "of_nat (length bs)"] ep
    by (auto simp: long_wire_def)
  have s1p: "sb_pointer s1 = sb_pointer s + 8" using s1(2) ep st by (simp add: appends_def length_long_wire)
  have a: "appends s (long_wire h (sb_swapEnabled s) (length bs)) s1"
    using appends_trans [OF e s1(2)] e by (simp add: appends_def)
  have w: "writeBytes h bs s = copy_in bs s1" by (simp add: writeBytes_def Let_def s1(1))
  have room: "overruns (length bs) s \<longleftrightarrow> sb_length s1 < sb_pointer s1 + int (length bs)"
    using inv unfolding s1p s1(3) overruns_def
    by (auto simp: sb_extend_def reserve_def Let_def stream_inv_def)
  show ?thesis
  proof (cases "overruns (length bs) s")
    case True
    then show ?thesis using room copy_in_overrun [OF appends_inv [OF a]] w by simp
  next
    case False
    then obtain s' where "copy_in bs s1 = Some s'" "appends s1 bs s'"
      using room copy_in_appends [OF appends_inv [OF a], of bs] by force
    then show ?thesis using False w appends_trans [OF a] by auto
  qed
qed

section \<open>Items\<close>

text \<open>The bytes of an item; with an analyser set, strings leave none.\<close>

fun encode :: "host \<Rightarrow> bool \<Rightarrow> bool \<Rightarrow> item \<Rightarrow> u8 list" where
  "encode h e a (P t v) = wire h e (memory_of h (size_of t) v)"
| "encode h e a (S bs) = (if a then [] else long_wire h e (length bs) @ bs)"
| "encode h e a (V xs) = long_wire h e (length xs) @ concat (map (encode h e a) xs)"

fun item_overruns :: "item \<Rightarrow> stream \<Rightarrow> bool" where
  "item_overruns (S bs) s \<longleftrightarrow> \<not> sb_analyzer s \<and> overruns (length bs) s"
| "item_overruns _ s \<longleftrightarrow> False"

abbreviation stream_encode :: "host \<Rightarrow> stream \<Rightarrow> item \<Rightarrow> u8 list" where
  "stream_encode h s \<equiv> encode h (sb_swapEnabled s) (sb_analyzer s)"

lemma fold_write_appends:
  assumes "\<And>x s. x \<in> set xs \<Longrightarrow> stream_inv s \<Longrightarrow> 8 \<le> sb_pointer s \<Longrightarrow>
    \<exists>s'. f x s = Some s' \<and> appends s (stream_encode h s x) s'"
    and "stream_inv s" and "8 \<le> sb_pointer s"
  shows "\<exists>s'. fold_write f xs s = Some s' \<and> appends s (concat (map (stream_encode h s) xs)) s'"
  using assms
proof (induction xs arbitrary: s)
  case Nil
  then show ?case by (simp add: appends_def)
next
  case (Cons x xs)
  obtain t where t: "f x s = Some t" "appends s (stream_encode h s x) t"
    using Cons.prems(1) [of x s] Cons.prems(2,3) by auto
  have "8 \<le> sb_pointer t" and flags: "sb_swapEnabled t = sb_swapEnabled s" "sb_analyzer t = sb_analyzer s"
    using t(2) Cons.prems(3) by (auto simp: appends_def)
  then obtain u where u: "fold_write f xs t = Some u" "appends t (concat (map (stream_encode h t) xs)) u"
    using Cons.IH [of t] Cons.prems(1) appends_inv [OF t(2)] by auto
  then show ?case using t(1) appends_trans [OF t(2) u(2)] flags by simp
qed

lemma no_item_overruns: "stream_inv s \<Longrightarrow> 8 \<le> sb_pointer s \<or> sb_length s = 0 \<Longrightarrow> \<not> item_overruns x s"
  by (cases x) (auto simp: not_overruns)

lemma write_item_appends:
  assumes "length (h_stack h) = 8" and "stream_inv s" and "\<not> item_overruns x s"
  shows "\<exists>s'. write_item h x s = Some s' \<and> appends s (stream_encode h s x) s'"
  using assms(2,3)
proof (induction x arbitrary: s)
  case (P t v)
  then show ?case using write_prim_appends [OF P(1) assms(1)] by (metis encode.simps(1) write_item.simps(1))
next
  case (S bs)
  then show ?case using writeBytes_cases [OF S(1) assms(1), of bs]
    by (auto simp: write_string_def appends_refl split: if_splits)
next
  case (V xs)
  obtain t where t: "write_prim h T_ulong (of_nat (length xs)) s = Some t"
    "appends s (long_wire h (sb_swapEnabled s) (length xs)) t"
    using write_prim_appends [OF V.prems(1) assms(1), of T_ulong "of_nat (length xs)"] by (auto simp: long_wire_def)
  have "8 \<le> sb_pointer t" and flags: "sb_swapEnabled t = sb_swapEnabled s" "sb_analyzer t = sb_analyzer s"
    using t(2) V.prems(1) assms(1) by (auto simp: appends_def length_long_wire stream_inv_def)
  then obtain u where u: "fold_write (\<lambda>x s. write_item h x s) xs t = Some u"
    "appends t (concat (map (stream_encode h t) xs)) u"
    using fold_write_appends [of xs "\<lambda>x s. write_item h x s" h t] V.IH appends_inv [OF t(2)] no_item_overruns by metis
  then show ?case using t(1) appends_trans [OF t(2) u(2)] flags by simp
qed

lemma write_item_None:
  assumes "length (h_stack h) = 8" and "stream_inv s"
  shows "write_item h x s = None \<longleftrightarrow> item_overruns x s"
proof
  assume "item_overruns x s"
  then show "write_item h x s = None"
    using writeBytes_cases [OF assms(2,1)] by (cases x) (auto simp: write_string_def split: if_splits)
qed (use write_item_appends [OF assms] in force)

section \<open>Reading\<close>

definition advances :: "stream \<Rightarrow> stream \<Rightarrow> bool" where
  "advances s s' \<longleftrightarrow> (\<exists>n. s' = s\<lparr>sb_pointer := sb_pointer s + int n\<rparr>) \<and> stream_inv s'"

lemma advances_refl: "stream_inv s \<Longrightarrow> advances s s"
  unfolding advances_def by (auto intro!: exI [of _ 0])

lemma advances_trans:
  assumes "advances s t" and "advances t u"
  shows "advances s u"
proof -
  obtain m n where "t = s\<lparr>sb_pointer := sb_pointer s + int m\<rparr>" "u = t\<lparr>sb_pointer := sb_pointer t + int n\<rparr>"
    using assms by (auto simp: advances_def)
  then have "u = s\<lparr>sb_pointer := sb_pointer s + int (m + n)\<rparr>" by simp
  then show ?thesis using assms(2) unfolding advances_def by blast
qed

lemma advances_inv: "advances s s' \<Longrightarrow> stream_inv s'"
  by (simp add: advances_def)

lemma swapFromBuffer_advances:
  assumes "stream_inv s" and "swapFromBuffer h n s = Some (bs, s')"
  shows "advances s s'"
  using assms by (auto simp: swapFromBuffer_def Let_def advances_def in_block_def stream_inv_def split: if_splits)

lemma read_prim_advances: "stream_inv s \<Longrightarrow> read_prim h t s = Some (v, s') \<Longrightarrow> advances s s'"
  by (auto simp: read_prim_def dest: swapFromBuffer_advances)

lemma read_long_advances: "stream_inv s \<Longrightarrow> read_long h s = Some (v, s') \<Longrightarrow> advances s s'"
  by (auto simp: read_long_def dest: read_prim_advances)

lemma take_bytes_advances: "stream_inv s \<Longrightarrow> take_bytes n s = Some (bs, s') \<Longrightarrow> advances s s'"
proof (induction n arbitrary: s bs)
  case (Suc n)
  let ?t = "s\<lparr>sb_pointer := sb_pointer s + 1\<rparr>"
  from Suc.prems obtain cs where b: "in_block (sb_pointer s) 1 s" "take_bytes n ?t = Some (cs, s')"
    by (auto split: if_splits)
  then have "advances s ?t"
    using Suc.prems(1) by (auto simp: advances_def in_block_def stream_inv_def intro!: exI [of _ 1])
  then show ?case using Suc.IH b(2) advances_inv advances_trans by blast
qed (simp add: advances_refl)

lemma read_string_advances: "stream_inv s \<Longrightarrow> read_string h s = Some (bs, s') \<Longrightarrow> advances s s'"
  unfolding read_string_def
  by (auto simp: bind_eq_Some_conv dest!: read_long_advances intro: advances_trans take_bytes_advances advances_inv)

lemma read_cstring_advances: "stream_inv s \<Longrightarrow> read_cstring h cap s = Some (bs, s') \<Longrightarrow> advances s s'"
  unfolding read_cstring_def
  by (auto simp: bind_eq_Some_conv split: if_splits dest!: read_long_advances
        intro: advances_trans take_bytes_advances advances_inv)

lemma repeat_read_advances:
  assumes "\<And>s x s'. stream_inv s \<Longrightarrow> f s = Some (x, s') \<Longrightarrow> advances s s'"
    and "stream_inv s" and "repeat_read f n s = Some (xs, s')"
  shows "advances s s'"
  using assms(2,3)
proof (induction n arbitrary: s xs)
  case (Suc n)
  then obtain x t ys where "f s = Some (x, t)" "repeat_read f n t = Some (ys, s')"
    by (auto simp: bind_eq_Some_conv)
  then show ?case using Suc assms(1) advances_inv advances_trans by blast
qed (simp add: advances_refl)

lemma read_item_advances: "stream_inv s \<Longrightarrow> read_item h t s = Some (x, s') \<Longrightarrow> advances s s'"
proof (induction t arbitrary: s x s')
  case (Prim t)
  then show ?case by (auto dest: read_prim_advances)
next
  case Text
  then show ?case by (auto dest: read_string_advances)
next
  case (Sequence t)
  then obtain len u xs where u: "read_long h s = Some (len, u)" "repeat_read (read_item h t) (nat len) u = Some (xs, s')"
    by (auto simp: bind_eq_Some_conv)
  have "advances s u" using Sequence.prems(1) u(1) by (rule read_long_advances)
  moreover have "advances u s'"
    using repeat_read_advances [OF Sequence.IH advances_inv [OF \<open>advances s u\<close>] u(2)] .
  ultimately show ?case by (rule advances_trans)
qed

section \<open>Runs\<close>

lemma write_cstring_inv:
  assumes "length (h_stack h) = 8" and "stream_inv s" and "write_cstring h d s = Some s'"
  shows "stream_inv s'"
proof (cases "sb_analyzer s")
  case False
  then obtain bs where "writeBytes h bs s = Some s'" using assms(3) by (auto simp: write_cstring_def Let_def)
  then show ?thesis
    using writeBytes_cases [OF assms(2,1), of bs] appends_inv by (auto split: if_splits)
qed (use assms in \<open>simp add: write_cstring_def Let_def\<close>)

lemma stream_step_inv:
  assumes "length (h_stack h) = 8" and "stream_inv s" and "stream_step h op s = Some s'"
  shows "stream_inv s'"
proof (cases op)
  case (Write x)
  then have "\<not> item_overruns x s" using write_item_None [OF assms(1,2)] assms(3) by force
  then show ?thesis using write_item_appends [OF assms(1,2)] Write assms(3) appends_inv by fastforce
next
  case (Reserve n)
  then show ?thesis using reserve_appends [OF assms(2)] assms(3) by (auto dest: appends_inv)
next
  case (Extend n)
  then show ?thesis using sb_extend_appends [OF assms(2)] assms(3) by (auto dest: appends_inv)
next
  case (Read t)
  then show ?thesis using assms(3) by (auto dest!: read_item_advances [OF assms(2)] dest: advances_inv)
next
  case (Read_cstring cap)
  then show ?thesis using assms(3) by (auto dest!: read_cstring_advances [OF assms(2)] dest: advances_inv)
next
  case (Write_cstring d)
  then show ?thesis using assms(3) write_cstring_inv [OF assms(1,2)] by simp
qed (use assms(2,3) in \<open>auto simp: sb_setMode_def sb_erase_def adopt_def setAnalyzer_def stream_inv_def\<close>)

lemma stream_run_inv:
  "length (h_stack h) = 8 \<Longrightarrow> stream_inv s \<Longrightarrow> stream_run h ops s = Some s' \<Longrightarrow> stream_inv s'"
  by (induction ops arbitrary: s) (auto simp: stream_run_def bind_eq_Some_conv dest: stream_step_inv)

text \<open>
  C27. In every state a client reaches from a new stream buffer (writing, reading, changing the
  mode, erasing, reserving, adopting), the pointer lies within the block that \<open>m_length\<close> gives the
  size of. From there no write of a primitive value, of a vector or of a list leaves the block, on
  any platform. The write of a string leaves it in exactly one case: the pointer is below four
  (as after \<open>setMode\<close> or \<open>erase\<close>), the block is not empty, and the string ends in its last bytes,
  because \<open>writeBytes\<close> reserves four bytes for a length that takes eight.
\<close>

theorem stream_write_bounds:
  assumes "length (h_stack h) = 8" and "stream_run h ops (new_stream e) = Some s"
  shows "0 \<le> sb_pointer s \<and> sb_pointer s \<le> sb_length s \<and> int (length (sb_buffer s)) = sb_length s
    \<and> (\<forall>t v. write_prim h t v s \<noteq> None)
    \<and> (\<forall>xs. write_item h (V xs) s \<noteq> None)
    \<and> (\<forall>bs. write_item h (S bs) s = None \<longleftrightarrow>
         \<not> sb_analyzer s \<and> 2 * sb_pointer s + int (length bs) + 4 \<le> sb_length s
           \<and> sb_length s < sb_pointer s + int (length bs) + 8)"
proof -
  have inv: "stream_inv s" using stream_run_inv [OF assms(1) new_stream_inv assms(2)] .
  have "write_prim h t v s \<noteq> None" for t v
    by (rule write_prim_appends [OF inv assms(1), of t v]) simp
  moreover have "write_item h (V xs) s \<noteq> None" for xs
    using write_item_None [OF assms(1) inv, of "V xs"] by (simp only: item_overruns.simps simp_thms)
  moreover have "write_item h (S bs) s = None \<longleftrightarrow> \<not> sb_analyzer s
      \<and> 2 * sb_pointer s + int (length bs) + 4 \<le> sb_length s \<and> sb_length s < sb_pointer s + int (length bs) + 8" for bs
    using write_item_None [OF assms(1) inv, of "S bs"] by (simp only: item_overruns.simps overruns_def)
  ultimately show ?thesis using inv unfolding stream_inv_def by blast
qed

definition linux :: host where
  "linux = \<lparr>h_platform = Linux, h_bigEndian = False, h_stack = replicate 8 0, h_heap = (\<lambda>_. 0)\<rparr>"

lemma stream_write_bounds_witness:
  "\<exists>s. stream_run linux [Set_mode WRITING, Reserve 1] (new_stream True) = Some s \<and> sb_length s = 16384
     \<and> write_item linux (S (replicate 16380 65)) s = None \<and> write_item linux (S (replicate 16376 65)) s \<noteq> None"
proof -
  let ?s = "reserve linux 1 (sb_setMode WRITING (new_stream True))"
  have "stream_run linux [Set_mode WRITING, Reserve 1] (new_stream True) = Some ?s" by (simp add: stream_run_def)
  moreover have len: "sb_length ?s = 16384" "sb_pointer ?s = 0" "\<not> sb_analyzer ?s"
    by (simp_all add: reserve_def sb_setMode_def new_stream_def)
  moreover have "length (h_stack linux) = 8" by (simp add: linux_def)
  ultimately have "write_item linux (S bs) ?s = None \<longleftrightarrow> 16376 < length bs \<and> length bs \<le> 16380" for bs
    using stream_write_bounds [of linux "[Set_mode WRITING, Reserve 1]" True ?s] by auto
  from this [of "replicate 16380 65"] this [of "replicate 16376 65"] show ?thesis
    using len(1) \<open>stream_run linux _ _ = Some ?s\<close> by (intro exI [of _ ?s] conjI) simp_all
qed

section \<open>What was written is read back\<close>

definition moved :: "nat \<Rightarrow> stream \<Rightarrow> stream" where
  "moved n s = s\<lparr>sb_pointer := sb_pointer s + int n\<rparr>"

lemma moved_moved [simp]: "moved m (moved n s) = moved (n + m) s"
  by (simp add: moved_def)

lemma moved_0 [simp]: "moved 0 s = s"
  by (simp add: moved_def)

lemma moved_flags [simp]: "sb_swapEnabled (moved n s) = sb_swapEnabled s" "sb_analyzer (moved n s) = sb_analyzer s"
  by (simp_all add: moved_def)

lemma moved_provides:
  assumes "stream_inv s" and "remaining s = bs @ rest"
  shows "stream_inv (moved (length bs) s) \<and> remaining (moved (length bs) s) = rest"
proof -
  have "length (remaining s) = length bs + length rest" using assms(2) by simp
  then have "sb_pointer s + int (length bs) \<le> sb_length s"
    using assms(1) unfolding remaining_def stream_inv_def length_drop by linarith
  moreover have "nat (sb_pointer s + int (length bs)) = length bs + nat (sb_pointer s)"
    using assms(1) by (simp add: stream_inv_def nat_add_distrib)
  then have "remaining (moved (length bs) s) = drop (length bs) (remaining s)"
    by (simp add: remaining_def moved_def)
  ultimately show ?thesis using assms by (simp add: stream_inv_def moved_def)
qed

lemma provides_block:
  assumes "stream_inv s" and "remaining s = bs @ rest"
  shows "in_block (sb_pointer s) (length bs) s"
  using moved_provides [OF assms] assms(1) by (simp add: stream_inv_def moved_def in_block_def)

lemma swapFromBuffer_wire:
  assumes "stream_inv s" and "h_platform h \<noteq> Apple"
    and "remaining s = wire h (sb_swapEnabled s) bs @ rest" and "length (wire h (sb_swapEnabled s) bs) = length bs"
  shows "swapFromBuffer h (length bs) s = Some (bs, moved (length bs) s)"
proof -
  have "in_block (sb_pointer s) (length bs) s" using provides_block [OF assms(1,3)] assms(4) by simp
  moreover have "take (length bs) (drop (nat (sb_pointer s)) (sb_buffer s)) = wire h (sb_swapEnabled s) bs"
    using assms(3,4) unfolding remaining_def by simp
  ultimately show ?thesis
    using assms(2) by (auto simp: swapFromBuffer_def moved_def swapBuffer_def wire_def split: platform.split)
qed

lemma length_wire_no_Apple: "h_platform h \<noteq> Apple \<Longrightarrow> length (wire h e bs) = length bs"
  by (simp add: wire_def split: platform.split)

lemma read_prim_wire:
  assumes "stream_inv s" and "h_platform h \<noteq> Apple"
    and "remaining s = wire h (sb_swapEnabled s) (memory_of h (size_of t) v) @ rest"
  shows "read_prim h t s = Some (take_bit (8 * size_of t) v, moved (size_of t) s)"
  using swapFromBuffer_wire [OF assms length_wire_no_Apple [OF assms(2)]]
  by (simp add: read_prim_def of_memory_of)

lemma read_long_wire:
  assumes "stream_inv s" and "h_platform h \<noteq> Apple" and "n < 2 ^ 63"
    and "remaining s = long_wire h (sb_swapEnabled s) n @ rest"
  shows "read_long h s = Some (int n, moved 8 s)"
proof -
  have "(take_bit 64 (of_nat n) :: u64) = of_nat n" by (rule bit_word_eqI) (simp add: bit_simps)
  moreover have "sint (of_nat n :: u64) = int n"
    using assms(3) by (simp add: sint_uint signed_take_bit_int_eq_self unsigned_of_nat take_bit_nat_eq_self)
  ultimately show ?thesis
    using read_prim_wire [of s h T_long "of_nat n" rest] assms
    by (simp add: read_long_def long_wire_def)
qed

lemma take_bytes_provides:
  "stream_inv s \<Longrightarrow> remaining s = bs @ rest \<Longrightarrow> take_bytes (length bs) s = Some (bs, moved (length bs) s)"
proof (induction bs arbitrary: s)
  case (Cons b bs)
  have "in_block (sb_pointer s) 1 s"
    using provides_block [of s "[b]" "bs @ rest"] Cons.prems by simp
  moreover have "stream_inv (moved 1 s) \<and> remaining (moved 1 s) = bs @ rest"
    using moved_provides [of s "[b]" "bs @ rest"] Cons.prems by simp
  moreover have "sb_buffer s ! nat (sb_pointer s) = b"
    using Cons.prems(2) by (simp add: remaining_def nth_via_drop)
  moreover have "s\<lparr>sb_pointer := sb_pointer s + 1\<rparr> = moved 1 s" by (simp add: moved_def)
  ultimately show ?case using Cons.IH [of "moved 1 s"] by simp
qed simp

text \<open>Values of a type: numbers of its width, strings and sequences no longer than a \<open>long\<close> counts.\<close>

fun has_type :: "item_type \<Rightarrow> item \<Rightarrow> bool" where
  "has_type (Prim t) (P t' v) \<longleftrightarrow> t = t' \<and> take_bit (8 * size_of t) v = v"
| "has_type Text (S bs) \<longleftrightarrow> length bs < 2 ^ 63"
| "has_type (Sequence t) (V xs) \<longleftrightarrow> length xs < 2 ^ 63 \<and> list_all (has_type t) xs"
| "has_type _ _ \<longleftrightarrow> False"

lemma repeat_read_provides:
  assumes "\<And>x s rest. x \<in> set xs \<Longrightarrow> stream_inv s \<Longrightarrow> sb_swapEnabled s = e \<Longrightarrow> remaining s = enc x @ rest \<Longrightarrow>
      f s = Some (x, moved (length (enc x)) s)"
    and "stream_inv s" and "sb_swapEnabled s = e" and "remaining s = concat (map enc xs) @ rest"
  shows "repeat_read f (length xs) s = Some (xs, moved (length (concat (map enc xs))) s)"
  using assms
proof (induction xs arbitrary: s)
  case (Cons x xs)
  have r: "remaining s = enc x @ concat (map enc xs) @ rest" using Cons.prems(4) by simp
  have "f s = Some (x, moved (length (enc x)) s)" using Cons.prems(1) [OF _ Cons.prems(2,3) r] by simp
  moreover note moved_provides [OF Cons.prems(2) r]
  ultimately show ?case using Cons.IH [of "moved (length (enc x)) s"] Cons.prems(1,3) by simp
qed simp

lemma read_item_provides:
  assumes "h_platform h \<noteq> Apple"
  shows "has_type t x \<Longrightarrow> stream_inv s \<Longrightarrow> remaining s = encode h (sb_swapEnabled s) False x @ rest \<Longrightarrow>
    read_item h t s = Some (x, moved (length (encode h (sb_swapEnabled s) False x)) s)"
proof (induction t arbitrary: x s rest)
  case (Prim t)
  then obtain v where x: "x = P t v" "take_bit (8 * size_of t) v = v" by (cases x) auto
  then show ?case
    using read_prim_wire [OF Prim.prems(2) assms, of t v rest] Prim.prems(3)
    by (simp add: length_wire_no_Apple [OF assms])
next
  case Text
  then obtain bs where x: "x = S bs" "length bs < 2 ^ 63" by (cases x) auto
  have r: "remaining s = long_wire h (sb_swapEnabled s) (length bs) @ bs @ rest" using Text.prems(3) x by simp
  have l: "length (long_wire h (sb_swapEnabled s) (length bs)) = 8"
    by (simp add: long_wire_def length_wire_no_Apple [OF assms])
  show ?case
    using read_long_wire [OF Text.prems(2) assms x(2) r] moved_provides [OF Text.prems(2) r] l
      take_bytes_provides [of "moved 8 s" bs rest]
    by (simp add: x read_string_def)
next
  case (Sequence t)
  then obtain xs where x: "x = V xs" "length xs < 2 ^ 63" "list_all (has_type t) xs" by (cases x) auto
  let ?enc = "encode h (sb_swapEnabled s) False"
  have r: "remaining s = long_wire h (sb_swapEnabled s) (length xs) @ concat (map ?enc xs) @ rest"
    using Sequence.prems(3) x by simp
  have l: "length (long_wire h (sb_swapEnabled s) (length xs)) = 8"
    by (simp add: long_wire_def length_wire_no_Apple [OF assms])
  have "read_item h t u = Some (y, moved (length (?enc y)) u)"
    if "y \<in> set xs" "stream_inv u" "sb_swapEnabled u = sb_swapEnabled s" "remaining u = ?enc y @ rest'" for y u rest'
    using Sequence.IH [of y u rest'] that x(3) by (simp add: list_all_iff)
  then have "repeat_read (read_item h t) (length xs) (moved 8 s)
      = Some (xs, moved (length (concat (map ?enc xs))) (moved 8 s))"
    using moved_provides [OF Sequence.prems(2) r] l
    by (intro repeat_read_provides [where e = "sb_swapEnabled s" and rest = rest]) simp_all
  then show ?case using read_long_wire [OF Sequence.prems(2) assms x(2) r] l by (simp add: x)
qed

text \<open>A client that writes items of several types, and one that reads them in the same order.\<close>

primrec read_items :: "host \<Rightarrow> item_type list \<Rightarrow> stream \<Rightarrow> (item list \<times> stream) option" where
  "read_items h [] s = Some ([], s)"
| "read_items h (t # ts) s =
     Option.bind (read_item h t s) (\<lambda>(x, s). map_option (\<lambda>(xs, s). (x # xs, s)) (read_items h ts s))"

lemma read_items_provides:
  assumes "h_platform h \<noteq> Apple"
  shows "list_all2 has_type ts xs \<Longrightarrow> stream_inv s \<Longrightarrow> sb_swapEnabled s = e \<Longrightarrow>
    remaining s = concat (map (encode h e False) xs) @ rest \<Longrightarrow>
    read_items h ts s = Some (xs, moved (length (concat (map (encode h e False) xs))) s)"
proof (induction ts xs arbitrary: s rule: list_all2_induct)
  case (Cons t ts x xs)
  have r: "remaining s = encode h e False x @ concat (map (encode h e False) xs) @ rest" using Cons.prems(3) by simp
  have "read_item h t s = Some (x, moved (length (encode h e False x)) s)"
    using read_item_provides [OF assms Cons.hyps(1) Cons.prems(1)] r Cons.prems(2) by blast
  then show ?case
    using Cons.IH [of "moved (length (encode h e False x)) s"] moved_provides [OF Cons.prems(1) r] Cons.prems(2) by simp
qed simp

lemma write_items_cases:
  assumes "length (h_stack h) = 8"
  shows "stream_inv s \<Longrightarrow> \<not> sb_analyzer s \<Longrightarrow>
    (case fold_write (write_item h) xs s of
       None \<Rightarrow> \<exists>i bs. i < length xs \<and> xs ! i = S bs \<and> 16372 < length bs
         \<and> sb_pointer s + int (length (concat (map (stream_encode h s) (take i xs)))) < 4
     | Some s' \<Rightarrow> appends s (concat (map (stream_encode h s) xs)) s')"
proof (induction xs arbitrary: s)
  case Nil
  then show ?case by (simp add: appends_refl)
next
  case (Cons x xs)
  show ?case
  proof (cases "item_overruns x s")
    case True
    then obtain bs where x: "x = S bs" "overruns (length bs) s" by (cases x) auto
    then have "16372 < length bs" "sb_pointer s < 4"
      using Cons.prems(1) by (auto simp: overruns_def stream_inv_def)
    moreover have "write_item h x s = None" using write_item_None [OF assms Cons.prems(1)] True by blast
    ultimately show ?thesis using x(1) by (auto simp del: write_item.simps intro!: exI [of _ 0])
  next
    case False
    then obtain t where t: "write_item h x s = Some t" "appends s (stream_encode h s x) t"
      using write_item_appends [OF assms Cons.prems(1)] by blast
    have f: "sb_swapEnabled t = sb_swapEnabled s" "sb_analyzer t = sb_analyzer s"
      "sb_pointer t = sb_pointer s + int (length (stream_encode h s x))"
      using t(2) by (simp_all add: appends_def)
    have c: "case fold_write (write_item h) xs t of
       None \<Rightarrow> \<exists>i bs. i < length xs \<and> xs ! i = S bs \<and> 16372 < length bs
         \<and> sb_pointer t + int (length (concat (map (stream_encode h s) (take i xs)))) < 4
     | Some s' \<Rightarrow> appends t (concat (map (stream_encode h s) xs)) s'"
      using Cons.IH [OF appends_inv [OF t(2)]] Cons.prems(2) unfolding f(1,2) by blast
    show ?thesis
    proof (cases "fold_write (write_item h) xs t")
      case None
      then obtain i bs where "i < length xs" "xs ! i = S bs" "16372 < length bs"
        "sb_pointer t + int (length (concat (map (stream_encode h s) (take i xs)))) < 4"
        using c by auto
      then show ?thesis using t(1) None f(3) by (auto simp: algebra_simps intro!: exI [of _ "Suc i"])
    next
      case (Some u)
      then show ?thesis using t(1) c appends_trans [OF t(2)] by simp
    qed
  qed
qed

text \<open>
  C26. A client takes a stream buffer through any run, puts it into write mode without an analyser and
  writes items: numbers of any width, strings, nested vectors and lists. On every platform but
  Apple's, with either byte order and with or without swapping, either all of them are written,
  and in read mode the same items come back and the pointer ends where the writing stopped; or
  one of them is a string of more than 16372 bytes that starts within the first four bytes of the
  stream, the case in which \<open>writeBytes\<close> can leave its block.
\<close>

theorem stream_roundtrip:
  assumes "length (h_stack h) = 8" and "h_platform h \<noteq> Apple"
    and "stream_run h ops (new_stream e) = Some s" and "\<not> sb_analyzer s" and "list_all2 has_type ts xs"
  shows "case fold_write (write_item h) xs (sb_setMode WRITING s) of
      Some w \<Rightarrow> (case read_items h ts (sb_setMode READING w) of
          Some (ys, r) \<Rightarrow> ys = xs \<and> sb_pointer r = sb_pointer w
        | None \<Rightarrow> False)
    | None \<Rightarrow> \<exists>i bs. i < length xs \<and> xs ! i = S bs \<and> 16372 < length bs
        \<and> length (concat (map (encode h (sb_swapEnabled s) False) (take i xs))) < 4"
proof -
  let ?s = "sb_setMode WRITING s"
  have inv: "stream_inv s" using stream_run_inv [OF assms(1) new_stream_inv assms(3)] .
  then have inv': "stream_inv ?s" by (simp add: stream_inv_def sb_setMode_def)
  have s: "sb_pointer ?s = 0" "sb_swapEnabled ?s = sb_swapEnabled s" "\<not> sb_analyzer ?s" "content ?s = []"
    using assms(4) by (simp_all add: sb_setMode_def content_def)
  note c = write_items_cases [OF assms(1) inv' s(3), of xs]
  show ?thesis
  proof (cases "fold_write (write_item h) xs ?s")
    case None
    then show ?thesis using c s by simp
  next
    case (Some w)
    let ?bs = "concat (map (encode h (sb_swapEnabled s) False) xs)" and ?r = "sb_setMode READING w"
    have a: "appends ?s ?bs w" using c Some s by simp
    then have "stream_inv ?r" "sb_swapEnabled ?r = sb_swapEnabled s" and p: "sb_pointer w = int (length ?bs)"
      using s by (auto simp: appends_def stream_inv_def sb_setMode_def)
    moreover have "content w = ?bs" using a s(4) by (simp add: appends_def)
    then have "remaining ?r = ?bs @ remaining w"
      by (simp add: remaining_def sb_setMode_def content_def) (metis append_take_drop_id)
    ultimately have "read_items h ts ?r = Some (xs, moved (length ?bs) ?r)"
      using read_items_provides [OF assms(2,5)] by blast
    then show ?thesis using Some p by (simp add: moved_def sb_setMode_def)
  qed
qed

lemma stream_roundtrip_witness:
  "\<exists>w. fold_write (write_item linux) [P T_int 7, S [65, 66], V [P T_short 1, P T_short 2]] (sb_setMode WRITING (new_stream False)) = Some w
     \<and> map_option fst (read_items linux [Prim T_int, Text, Sequence (Prim T_short)] (sb_setMode READING w))
       = Some [P T_int 7, S [65, 66], V [P T_short 1, P T_short 2]]"
proof -
  let ?xs = "[P T_int 7, S [65, 66], V [P T_short 1, P T_short 2]]"
  let ?ts = "[Prim T_int, Text, Sequence (Prim T_short)]"
  have "length (h_stack linux) = 8" "h_platform linux \<noteq> Apple" by (simp_all add: linux_def)
  moreover have "stream_run linux [] (new_stream False) = Some (new_stream False)" by (simp add: stream_run_def)
  moreover have "\<not> sb_analyzer (new_stream False)" by (simp add: new_stream_def)
  moreover have "list_all2 has_type ?ts ?xs" by simp
  ultimately have r: "case fold_write (write_item linux) ?xs (sb_setMode WRITING (new_stream False)) of
      Some w \<Rightarrow> (case read_items linux ?ts (sb_setMode READING w) of
          Some (ys, r) \<Rightarrow> ys = ?xs \<and> sb_pointer r = sb_pointer w
        | None \<Rightarrow> False)
    | None \<Rightarrow> \<exists>i bs. i < length ?xs \<and> ?xs ! i = S bs \<and> 16372 < length bs
        \<and> length (concat (map (encode linux (sb_swapEnabled (new_stream False)) False) (take i ?xs))) < 4"
    by (rule stream_roundtrip)
  have "\<forall>x \<in> set ?xs. case x of S bs \<Rightarrow> length bs \<le> 2 | _ \<Rightarrow> True" by simp
  then have short: "length bs \<le> 2" if "i < length ?xs" "?xs ! i = S bs" for i bs
    using nth_mem [OF that(1)] that(2) by fastforce
  show ?thesis
  proof (cases "fold_write (write_item linux) ?xs (sb_setMode WRITING (new_stream False))")
    case None
    from r [unfolded None option.case] obtain i bs where "i < length ?xs" "?xs ! i = S bs" "16372 < length bs" by blast
    then show ?thesis using short [of i bs] by linarith
  next
    case (Some w)
    from r [unfolded Some option.case] have "map_option fst (read_items linux ?ts (sb_setMode READING w)) = Some ?xs"
      by (cases "read_items linux ?ts (sb_setMode READING w)") (auto split: prod.splits)
    then show ?thesis using Some by blast
  qed
qed

text \<open>On Apple's platform a number of more than one byte leaves the bytes of the stack in the stream.\<close>

lemma Apple_writes_the_stack:
  assumes "h_platform h = Apple" and "length (h_stack h) = 8" and "stream_inv s" and "size_of t \<noteq> 1"
  shows "\<exists>s'. write_prim h t v s = Some s' \<and> content s' = content s @ take (size_of t) (h_stack h)"
proof -
  have "wire h (sb_swapEnabled s) (memory_of h (size_of t) v) = take (size_of t) (h_stack h)"
    using assms(1,4) by (simp add: wire_def)
  moreover obtain s' where "write_prim h t v s = Some s'"
    "appends s (wire h (sb_swapEnabled s) (memory_of h (size_of t) v)) s'"
    by (rule write_prim_appends [OF assms(3,2)])
  ultimately show ?thesis by (simp add: appends_def)
qed

section \<open>Links and standard streams\<close>

text \<open>Links come back in the reverse order.\<close>

lemma identified_links_reversed:
  "getIdentifiedLink (addIdentifiedLink p i s) = Some (p, i, s)"
  by (simp add: getIdentifiedLink_def addIdentifiedLink_def)

lemma contained_links_reversed:
  "getContainedLink (addContainedLink p i l s) = Some (p, i, l, s)"
  by (simp add: getContainedLink_def addContainedLink_def)

lemma to_string_digits: "c \<in> set (to_string n) \<Longrightarrow> \<exists>d < 10. c = digit_char d"
proof (induction n rule: to_string.induct)
  case (1 n)
  have "\<exists>d < 10. digit_char (m mod 10) = digit_char d" for m by (rule exI [of _ "m mod 10"]) simp
  then show ?case using 1 by (cases "n < 10") (auto simp: to_string.simps [of n])
qed

lemma to_string_not_Nil: "to_string n \<noteq> []"
  by (subst to_string.simps) simp

lemma digit_byte:
  assumes "d < 10"
  shows "(of_char (digit_char d) :: u8) = 48 + of_nat d" and "is_digit (48 + of_nat d)"
    and "char_of (unat (48 + of_nat d :: u8)) = digit_char d"
proof -
  have u: "unat (48 + of_nat d :: u8) = 48 + d"
    using assms by (simp add: unat_word_ariths unat_of_nat)
  show "(of_char (digit_char d) :: u8) = 48 + of_nat d"
    using arg_cong [OF of_char_digit [OF assms], of "of_nat :: nat \<Rightarrow> u8"] by (simp add: of_char_def)
  show "is_digit (48 + of_nat d)" using assms u by (simp add: is_digit_def word_le_nat_alt)
  show "char_of (unat (48 + of_nat d :: u8)) = digit_char d" by (simp add: digit_char_def u)
qed

text \<open>
  \<open>Ostream\<close> writes the length and the bytes with nothing in between: \<open>Istream\<close> gets the length
  back when the first byte is not a digit, and a length of its own making when it is.
\<close>

lemma extract_dumped_length:
  assumes "n < 2 ^ 31" and "bs \<noteq> []" and "\<not> is_digit (hd bs)"
  shows "extract_int \<lparr>is_chars = map of_char (to_string n) @ bs, is_good = True\<rparr> = Some (int n, \<lparr>is_chars = bs, is_good = True\<rparr>)"
proof -
  let ?ds = "map of_char (to_string n) :: u8 list"
  have digits: "\<forall>c \<in> set ?ds. is_digit c" using to_string_digits digit_byte(1,2) by fastforce
  have chars: "map (\<lambda>c. char_of (unat c)) ?ds = to_string n"
    using to_string_digits digit_byte(1,3) by (fastforce intro: map_idI)
  obtain b cs where ds: "?ds = b # cs" using to_string_not_Nil by (cases ?ds) auto
  have "is_digit b" using digits ds by simp
  then have "\<not> is_space b" "b \<noteq> 45" "b \<noteq> 43" by (auto simp: is_digit_def is_space_def word_le_nat_alt)
  then have "dropWhile is_space (?ds @ bs) = ?ds @ bs" "hd (?ds @ bs) \<noteq> 45" "hd (?ds @ bs) \<noteq> 43" using ds by simp_all
  moreover have "takeWhile is_digit (?ds @ bs) = ?ds" "dropWhile is_digit (?ds @ bs) = bs"
    using digits assms(2,3) by (simp_all add: takeWhile_append dropWhile_append) (cases bs; simp)+
  ultimately show ?thesis
    using assms to_string_not_Nil [of n] chars
    by (simp add: extract_int_def Let_def of_digits_to_string del: dropWhile_eq_Nil_conv)
qed

lemma dumped_length_misread:
  "extract_int \<lparr>is_chars = map of_char (to_string 4) @ [49, 0, 0, 0], is_good = True\<rparr>
   = Some (41, \<lparr>is_chars = [0, 0, 0], is_good = True\<rparr>)"
  by code_simp

end
