(* ===== verification/White_Board.thy ===== *)
theory White_Board
  imports Data_Store
begin

text \<open>
  \<open>HiveWhiteBoard\<close> (GaudiHive/src/HiveWhiteBoard.cpp): one data service per event in flight. A
  partition is given to an event and taken back; a call without a partition goes to the one the
  calling thread has selected. The thread's selection is an argument, the lock of a partition is
  the atomicity of a step. Each partition has the objects of its own store: the clients are taken to
  give a store no object, address or entry of another, of which the code holds plain pointers.
\<close>

section \<open>State\<close>

datatype fsm_state = OFFLINE | CONFIGURED | INITIALIZED | RUNNING

record partition =
  pt_service :: "data_svc option"
  pt_eventNumber :: int

record white_board =
  wb_slots :: nat
  wb_rootName :: string
  wb_forceLeaves :: bool
  wb_enableFaultHdlr :: bool
  wb_inhibitPathes :: "string list"
  wb_fsm :: fsm_state
  wb_dataLoader :: bool
  wb_partitions :: "partition list"
  wb_freeSlots :: "nat list"

definition new_white_board :: "nat \<Rightarrow> string \<Rightarrow> bool \<Rightarrow> bool \<Rightarrow> string list \<Rightarrow> white_board" where
  "new_white_board slots root leaves fault inhibit =
     \<lparr>wb_slots = slots, wb_rootName = root, wb_forceLeaves = leaves, wb_enableFaultHdlr = fault,
      wb_inhibitPathes = inhibit, wb_fsm = CONFIGURED, wb_dataLoader = False, wb_partitions = [], wb_freeSlots = []\<rparr>"

definition new_partition :: partition where
  "new_partition = \<lparr>pt_service = None, pt_eventNumber = - 1\<rparr>"

section \<open>Calls of the selected store\<close>

text \<open>What a call answers: its status and, where it has them, an object, an entry and the leaves.\<close>

record answer =
  aw_status :: ds_status
  aw_object :: "object_id option"
  aw_entry :: "entry_id option"
  aw_leaves :: "entry_id list"

definition status_only :: "ds_status \<Rightarrow> answer" where
  "status_only st = \<lparr>aw_status = st, aw_object = None, aw_entry = None, aw_leaves = []\<rparr>"

datatype store_call =
    Register_address string "address_id option"
  | Register_address_at "entry_id option" string "address_id option"
  | Unregister_address string
  | Unregister_address_at "entry_id option" string
  | Object_leaves "object_id option"
  | Entry_leaves "entry_id option"
  | Object_parent "object_id option"
  | Entry_parent "entry_id option"
  | Clear_sub_tree string
  | Clear_sub_tree_ptr object_id
  | Set_root string "object_id option"
  | Set_root_address string "address_id option"
  | Pre_load
  | Register_object string string "object_id option"
  | Register_object_at "object_id option" string "object_id option"
  | Unregister_object string
  | Unregister_object_ptr "object_id option"
  | Unregister_object_at "object_id option" string
  | Retrieve_object "entry_id option" string
  | Find_object string
  | Find_object_at "entry_id option" string
  | Link_object_at "entry_id option" string "object_id option"
  | Link_object string "object_id option"
  | Unlink_object_at "entry_id option" string
  | Unlink_object_ptr "object_id option" string
  | Unlink_object string
  | Update_object_at "entry_id option"
  | Update_object "object_id option"

definition entry_parent_of :: "entry_id option \<Rightarrow> data_svc \<Rightarrow> ds_status \<times> entry_id option" where
  "entry_parent_of r s =
     (if ds_root s = None then (INVALID_ROOT, None)
      else (case r of None \<Rightarrow> (INVALID_OBJECT, None) | Some e \<Rightarrow> (DS_SUCCESS, parent_entry (ds_heap s) e)))"

definition entry_leaves_of :: "entry_id option \<Rightarrow> data_svc \<Rightarrow> ds_status \<times> entry_id list" where
  "entry_leaves_of r s =
     (if ds_root s = None then (INVALID_ROOT, [])
      else (case r of None \<Rightarrow> (INVALID_OBJECT, []) | Some e \<Rightarrow> (DS_SUCCESS, leaves_of (ds_heap s) e)))"

abbreviation with_status :: "(ds_status \<times> data_svc) outcome \<Rightarrow> (answer \<times> data_svc) outcome" where
  "with_status r \<equiv> obind r (\<lambda>(st, s). Done (status_only st, s))"

abbreviation with_object :: "(ds_status \<times> object_id option \<times> data_svc) outcome \<Rightarrow> (answer \<times> data_svc) outcome" where
  "with_object r \<equiv> obind r (\<lambda>(st, x, s). Done ((status_only st)\<lparr>aw_object := x\<rparr>, s))"

text \<open>
  The functions of the data service that the white board calls. Its \<open>findObject\<close> calls
  \<open>retrieveObject\<close>.
\<close>

fun run_call :: "nat \<Rightarrow> services \<Rightarrow> store_call \<Rightarrow> data_svc \<Rightarrow> (answer \<times> data_svc) outcome" where
  "run_call fuel svc (Register_address path a) s = with_status (registerAddress fuel svc path a s)"
| "run_call fuel svc (Register_address_at e path a) s = with_status (registerAddress_at fuel svc e path a s)"
| "run_call fuel svc (Unregister_address path) s = with_status (unregisterAddress fuel path s)"
| "run_call fuel svc (Unregister_address_at e path) s = with_status (unregisterAddress_at fuel e path s)"
| "run_call fuel svc (Object_leaves x) s =
     (let (st, es) = objectLeaves x s in Done ((status_only st)\<lparr>aw_leaves := es\<rparr>, s))"
| "run_call fuel svc (Entry_leaves e) s =
     (let (st, es) = entry_leaves_of e s in Done ((status_only st)\<lparr>aw_leaves := es\<rparr>, s))"
| "run_call fuel svc (Object_parent x) s =
     (let (st, e) = objectParent x s in Done ((status_only st)\<lparr>aw_entry := e\<rparr>, s))"
| "run_call fuel svc (Entry_parent e) s =
     (let (st, e) = entry_parent_of e s in Done ((status_only st)\<lparr>aw_entry := e\<rparr>, s))"
| "run_call fuel svc (Clear_sub_tree path) s = (let (st, s) = clearSubTree path s in Done (status_only st, s))"
| "run_call fuel svc (Clear_sub_tree_ptr x) s = (let (st, s) = clearSubTree_ptr x s in Done (status_only st, s))"
| "run_call fuel svc (Set_root path x) s = Done (status_only DS_SUCCESS, setRoot_object path x s)"
| "run_call fuel svc (Set_root_address path a) s = Done (status_only DS_SUCCESS, setRoot_address path a s)"
| "run_call fuel svc Pre_load s = obind (preLoad svc s) (\<lambda>s. Done (status_only DS_SUCCESS, s))"
| "run_call fuel svc (Register_object parent path x) s = with_status (registerObject fuel svc parent path x s)"
| "run_call fuel svc (Register_object_at p path x) s = with_status (registerObject_at fuel svc p path x s)"
| "run_call fuel svc (Unregister_object path) s = with_status (unregisterObject path s)"
| "run_call fuel svc (Unregister_object_ptr x) s = with_status (unregisterObject_ptr x s)"
| "run_call fuel svc (Unregister_object_at x path) s = with_status (unregisterObject_at x path s)"
| "run_call fuel svc (Retrieve_object e path) s = with_object (retrieveObject svc e path s)"
| "run_call fuel svc (Find_object path) s = with_object (retrieveObject svc None path s)"
| "run_call fuel svc (Find_object_at e path) s = with_object (retrieveObject svc e path s)"
| "run_call fuel svc (Link_object_at e path x) s = with_status (linkObject_at fuel svc e path x s)"
| "run_call fuel svc (Link_object path x) s = with_status (linkObject fuel svc path x s)"
| "run_call fuel svc (Unlink_object_at e path) s = with_status (unlinkObject_at fuel e path s)"
| "run_call fuel svc (Unlink_object_ptr x path) s = with_status (unlinkObject_ptr fuel x path s)"
| "run_call fuel svc (Unlink_object path) s = with_status (unlinkObject fuel path s)"
| "run_call fuel svc (Update_object_at e) s = with_status (updateObject_at svc e s)"
| "run_call fuel svc (Update_object x) s = with_status (updateObject svc x s)"

definition put_service :: "nat \<Rightarrow> data_svc \<Rightarrow> white_board \<Rightarrow> white_board" where
  "put_service i s wb =
     wb\<lparr>wb_partitions := (wb_partitions wb)[i := (wb_partitions wb ! i)\<lparr>pt_service := Some s\<rparr>]\<rparr>"

definition fwd ::
  "(data_svc \<Rightarrow> (answer \<times> data_svc) outcome) \<Rightarrow> nat option \<Rightarrow> white_board \<Rightarrow> (answer \<times> white_board) outcome"
where
  "fwd f cur wb =
     (case cur of
        None \<Rightarrow> Done (status_only INVALID_ROOT, wb)
      | Some i \<Rightarrow>
          if i \<ge> length (wb_partitions wb) then Undefined
          else (case pt_service (wb_partitions wb ! i) of
                  None \<Rightarrow> Done (status_only INVALID_ROOT, wb)
                | Some s \<Rightarrow> obind (f s) (\<lambda>(a, s). Done (a, put_service i s wb))))"

definition wb_call ::
  "nat \<Rightarrow> services \<Rightarrow> store_call \<Rightarrow> nat option \<Rightarrow> white_board \<Rightarrow> (answer \<times> white_board) outcome"
where
  "wb_call fuel svc c cur wb = fwd (run_call fuel svc c) cur wb"

definition wb_exists ::
  "nat \<Rightarrow> services \<Rightarrow> string \<Rightarrow> nat option \<Rightarrow> white_board \<Rightarrow> (bool \<times> white_board) outcome"
where
  "wb_exists fuel svc fullKey cur wb =
     obind (wb_call fuel svc (Find_object fullKey) cur wb) (\<lambda>(a, wb). Done (aw_status a = DS_SUCCESS, wb))"

section \<open>Calls of all stores\<close>

definition for_all_stores :: "(data_svc \<Rightarrow> data_svc) \<Rightarrow> white_board \<Rightarrow> white_board" where
  "for_all_stores f wb =
     wb\<lparr>wb_partitions := map (\<lambda>p. p\<lparr>pt_service := map_option f (pt_service p)\<rparr>) (wb_partitions wb)\<rparr>"

definition wb_clearStores :: "white_board \<Rightarrow> white_board" where
  "wb_clearStores = for_all_stores clearStore"

definition wb_setDataLoader :: "bool \<Rightarrow> white_board \<Rightarrow> white_board" where
  "wb_setDataLoader on wb = for_all_stores (\<lambda>s. s\<lparr>ds_dataLoader := on\<rparr>) (wb\<lparr>wb_dataLoader := on\<rparr>)"

definition wb_addPreLoadItem :: "string \<times> int \<Rightarrow> white_board \<Rightarrow> white_board" where
  "wb_addPreLoadItem item = for_all_stores (addPreLoadItem item)"

definition wb_removePreLoadItem :: "string \<times> int \<Rightarrow> white_board \<Rightarrow> white_board" where
  "wb_removePreLoadItem item = for_all_stores (removePreLoadItem item)"

definition wb_resetPreLoad :: "white_board \<Rightarrow> white_board" where
  "wb_resetPreLoad = for_all_stores resetPreLoad"

section \<open>Partitions\<close>

definition wb_countFree :: "white_board \<Rightarrow> nat" where
  "wb_countFree wb = length (wb_freeSlots wb)"

definition wb_clearStore :: "nat \<Rightarrow> white_board \<Rightarrow> white_board option" where
  "wb_clearStore i wb =
     (if i \<ge> length (wb_partitions wb) then None
      else map_option (\<lambda>s. put_service i (clearStore s) wb) (pt_service (wb_partitions wb ! i)))"

text \<open>The selection of the thread; None for an index out of range.\<close>

definition selectStore :: "nat \<Rightarrow> white_board \<Rightarrow> nat option" where
  "selectStore i wb = (if i < length (wb_partitions wb) then Some i else None)"

definition setNumberOfStores :: "nat \<Rightarrow> white_board \<Rightarrow> bool \<times> white_board" where
  "setNumberOfStores slots wb =
     (if wb_fsm wb = INITIALIZED \<or> wb_fsm wb = RUNNING then (False, wb) else (True, wb\<lparr>wb_slots := slots\<rparr>))"

text \<open>None stands for \<open>npos\<close>. The assertions are those of a debug build and not part of the release.\<close>

definition allocateStore :: "int \<Rightarrow> white_board \<Rightarrow> nat option \<times> white_board" where
  "allocateStore evtnumber wb =
     (case wb_freeSlots wb of
        [] \<Rightarrow> (None, wb)
      | slot # rest \<Rightarrow>
          (Some slot,
           wb\<lparr>wb_freeSlots := rest,
              wb_partitions := (wb_partitions wb)[slot := (wb_partitions wb ! slot)\<lparr>pt_eventNumber := evtnumber\<rparr>]\<rparr>))"

definition freeStore :: "nat \<Rightarrow> white_board \<Rightarrow> (bool \<times> white_board) option" where
  "freeStore i wb =
     (if i \<ge> length (wb_partitions wb) then None
      else
        (let prev = pt_eventNumber (wb_partitions wb ! i);
             wb = wb\<lparr>wb_partitions := (wb_partitions wb)[i := (wb_partitions wb ! i)\<lparr>pt_eventNumber := - 1\<rparr>]\<rparr>
         in if prev = - 1 then Some (False, wb) else Some (True, wb\<lparr>wb_freeSlots := wb_freeSlots wb @ [i]\<rparr>)))"

primrec find_partition :: "int \<Rightarrow> nat \<Rightarrow> partition list \<Rightarrow> nat option" where
  "find_partition e k [] = None"
| "find_partition e k (p # ps) = (if pt_eventNumber p = e then Some k else find_partition e (Suc k) ps)"

definition getPartitionNumber :: "int \<Rightarrow> white_board \<Rightarrow> nat option" where
  "getPartitionNumber e wb = find_partition e 0 (wb_partitions wb)"

section \<open>Start and end\<close>

definition new_data_svc :: "white_board \<Rightarrow> data_svc" where
  "new_data_svc wb =
     \<lparr>ds_heap = \<lparr>hp_entries = (\<lambda>_. None), hp_objects = (\<lambda>_. None), hp_addresses = (\<lambda>_. None), hp_next = 0, hp_nextObject = 0\<rparr>,
      ds_root = None, ds_rootName = wb_rootName wb, ds_forceLeaves = wb_forceLeaves wb,
      ds_inhibitPathes = wb_inhibitPathes wb, ds_enableFaultHdlr = wb_enableFaultHdlr wb, ds_enableAccessHdlr = False,
      ds_dataLoader = False, ds_preLoads = []\<rparr>"

text \<open>
  \<open>svc_ok\<close>: whether the data service of a partition initialises; \<open>loader_ok\<close>: whether the loader is found.
\<close>

definition attachServices :: "bool \<Rightarrow> white_board \<Rightarrow> bool \<times> white_board" where
  "attachServices loader_ok wb = (if loader_ok then (True, wb_setDataLoader True wb) else (False, wb))"

fun fill_partitions :: "(nat \<Rightarrow> bool) \<Rightarrow> nat list \<Rightarrow> white_board \<Rightarrow> bool \<times> white_board" where
  "fill_partitions svc_ok [] wb = (True, wb)"
| "fill_partitions svc_ok (i # is) wb =
     (if svc_ok i
      then fill_partitions svc_ok is
             ((put_service i (new_data_svc wb) wb)\<lparr>wb_freeSlots := wb_freeSlots wb @ [i]\<rparr>)
      else (False, wb))"

definition wb_initialize :: "(nat \<Rightarrow> bool) \<Rightarrow> bool \<Rightarrow> white_board \<Rightarrow> bool \<times> white_board" where
  "wb_initialize svc_ok loader_ok wb =
     (if wb_slots wb < 1 then (False, wb)
      else
        (let (ok, wb) = setNumberOfStores (wb_slots wb) wb
         in if \<not> ok then (False, wb)
            else
              (let (ok, wb) = fill_partitions svc_ok [0..<wb_slots wb] (wb\<lparr>wb_partitions := replicate (wb_slots wb) new_partition\<rparr>)
               in if \<not> ok then (False, wb) else attachServices loader_ok wb)))"

definition wb_reinitialize :: "bool \<Rightarrow> bool \<Rightarrow> white_board \<Rightarrow> bool \<times> white_board" where
  "wb_reinitialize base_ok loader_ok wb =
     (if \<not> base_ok then (False, wb) else attachServices loader_ok (wb\<lparr>wb_dataLoader := False\<rparr>))"

definition wb_finalize :: "white_board \<Rightarrow> white_board" where
  "wb_finalize wb = wb_clearStores (wb_setDataLoader False wb)"

text \<open>A second start finds the slots of the first still in the queue, and gives each out twice.\<close>

lemma slots_doubled_by_restart:
  "(let wb = snd (wb_initialize (\<lambda>_. True) True (new_white_board 1 ''/Event'' False False []));
        wb = snd (wb_initialize (\<lambda>_. True) True (wb_finalize wb));
        (a, wb) = allocateStore 0 wb;
        (b, wb) = allocateStore 1 wb
    in (a, b)) = (Some 0, Some 0)"
  by code_simp

section \<open>The partitions of a run\<close>

definition wb_inv :: "white_board \<Rightarrow> bool" where
  "wb_inv wb \<longleftrightarrow>
     distinct (wb_freeSlots wb) \<and> set (wb_freeSlots wb) \<subseteq> {..<length (wb_partitions wb)} \<and>
     (\<forall>i < length (wb_partitions wb). pt_service (wb_partitions wb ! i) \<noteq> None \<and>
        (pt_eventNumber (wb_partitions wb ! i) = - 1 \<longleftrightarrow> i \<in> set (wb_freeSlots wb)))"

definition event_at :: "white_board \<Rightarrow> nat \<Rightarrow> int" where
  "event_at wb i = pt_eventNumber (wb_partitions wb ! i)"

lemma put_service_simps [simp]:
  "length (wb_partitions (put_service i s wb)) = length (wb_partitions wb)"
  "wb_freeSlots (put_service i s wb) = wb_freeSlots wb"
  "wb_slots (put_service i s wb) = wb_slots wb"
  "j \<noteq> i \<Longrightarrow> wb_partitions (put_service i s wb) ! j = wb_partitions wb ! j"
  by (simp_all add: put_service_def)

lemma put_service_event [simp]: "i < length (wb_partitions wb) \<Longrightarrow> event_at (put_service i s wb) j = event_at wb j"
  by (simp add: put_service_def event_at_def nth_list_update)

lemma wb_inv_put: "wb_inv wb \<Longrightarrow> i < length (wb_partitions wb) \<Longrightarrow> wb_inv (put_service i s wb)"
  by (simp add: wb_inv_def put_service_def nth_list_update)

lemma wb_inv_for_all: "wb_inv wb \<Longrightarrow> wb_inv (for_all_stores f wb)"
  by (simp add: wb_inv_def for_all_stores_def)

lemma service_there:
  assumes "wb_inv wb" and "i < length (wb_partitions wb)"
  obtains s where "pt_service (wb_partitions wb ! i) = Some s"
  using assms by (auto simp: wb_inv_def)

lemma fwd_cases:
  assumes "wb_inv wb" and "fwd f cur wb = Done (a, wb')"
  shows "(cur = None \<and> wb' = wb) \<or> (\<exists>i s. cur = Some i \<and> i < length (wb_partitions wb) \<and> wb' = put_service i s wb)"
proof (cases cur)
  case (Some i)
  then have i: "i < length (wb_partitions wb)" using assms(2) by (auto simp: fwd_def split: if_splits)
  obtain s where "pt_service (wb_partitions wb ! i) = Some s" by (rule service_there [OF assms(1) i])
  then show ?thesis using assms(2) Some i by (auto simp: fwd_def)
qed (use assms(2) in \<open>simp add: fwd_def\<close>)

lemma allocateStore_inv: "wb_inv wb \<Longrightarrow> e \<noteq> - 1 \<Longrightarrow> wb_inv (snd (allocateStore e wb))"
  by (auto simp: wb_inv_def allocateStore_def nth_list_update split: list.splits if_splits)

lemma freeStore_inv: "wb_inv wb \<Longrightarrow> freeStore i wb = Some (b, wb') \<Longrightarrow> wb_inv wb'"
  by (auto simp: wb_inv_def freeStore_def Let_def nth_list_update split: if_splits)

lemma clearStore_inv: "wb_inv wb \<Longrightarrow> wb_clearStore i wb = Some wb' \<Longrightarrow> wb_inv wb'"
  by (auto simp: wb_clearStore_def wb_inv_put split: if_splits)

lemma fill_partitions_inv:
  "fill_partitions ok [k..<n] wb = (True, wb') \<Longrightarrow> k \<le> n \<Longrightarrow> length (wb_partitions wb) = n \<Longrightarrow>
   wb_freeSlots wb = [0..<k] \<Longrightarrow> (\<forall>i < n. event_at wb i = - 1) \<Longrightarrow> (\<forall>i < k. pt_service (wb_partitions wb ! i) \<noteq> None) \<Longrightarrow>
   wb_freeSlots wb' = [0..<n] \<and> length (wb_partitions wb') = n \<and> wb_slots wb' = wb_slots wb \<and>
   (\<forall>i < n. event_at wb' i = - 1 \<and> pt_service (wb_partitions wb' ! i) \<noteq> None)"
proof (induction "n - k" arbitrary: k wb)
  case 0
  then show ?case by auto
next
  case (Suc m)
  then have k: "k < n" by simp
  let ?wb = "(put_service k (new_data_svc wb) wb)\<lparr>wb_freeSlots := wb_freeSlots wb @ [k]\<rparr>"
  have "fill_partitions ok [Suc k..<n] ?wb = (True, wb')"
    using Suc.prems(1) k by (auto simp: upt_conv_Cons split: if_splits)
  moreover have "\<forall>i < n. event_at ?wb i = - 1" "\<forall>i < Suc k. pt_service (wb_partitions ?wb ! i) \<noteq> None"
    using Suc.prems k by (auto simp: put_service_def event_at_def nth_list_update less_Suc_eq)
  ultimately show ?case using Suc.hyps(1) [of "Suc k" ?wb] Suc.hyps(2) Suc.prems k by simp
qed

lemma wb_initialize_inv:
  assumes "wb_initialize svc_ok loader_ok (new_white_board n root leaves fault inhibit) = (True, wb)"
  shows "wb_inv wb \<and> length (wb_partitions wb) = n \<and> wb_freeSlots wb = [0..<n]"
proof -
  let ?new = "(new_white_board n root leaves fault inhibit)\<lparr>wb_partitions := replicate n new_partition\<rparr>"
  obtain wb1 where wb1: "fill_partitions svc_ok [0..<n] ?new = (True, wb1)" "wb = wb_setDataLoader True wb1"
    using assms
    by (auto simp: wb_initialize_def setNumberOfStores_def new_white_board_def attachServices_def split: if_splits prod.splits)
  have "wb_freeSlots wb1 = [0..<n] \<and> length (wb_partitions wb1) = n \<and> wb_slots wb1 = wb_slots ?new \<and>
      (\<forall>i < n. event_at wb1 i = - 1 \<and> pt_service (wb_partitions wb1 ! i) \<noteq> None)"
    by (rule fill_partitions_inv [OF wb1(1)]) (simp_all add: new_white_board_def event_at_def new_partition_def)
  then show ?thesis
    by (auto simp: wb1(2) wb_setDataLoader_def for_all_stores_def wb_inv_def event_at_def)
qed

section \<open>Who owns a store\<close>

text \<open>The abstract board: which event, if any, a store belongs to.\<close>

definition owner :: "white_board \<Rightarrow> nat \<Rightarrow> int option" where
  "owner wb i = (if i < length (wb_partitions wb) \<and> event_at wb i \<noteq> - 1 then Some (event_at wb i) else None)"

lemma owner_free: "wb_inv wb \<Longrightarrow> i < length (wb_partitions wb) \<Longrightarrow> owner wb i = None \<longleftrightarrow> i \<in> set (wb_freeSlots wb)"
  by (auto simp: owner_def wb_inv_def event_at_def)

lemma owner_allocate:
  assumes "wb_inv wb" and "e \<noteq> - 1" and "wb_freeSlots wb = i # rest"
  shows "allocateStore e wb = (Some i, snd (allocateStore e wb))" and "owner wb i = None" and "i < length (wb_partitions wb)"
    and "owner (snd (allocateStore e wb)) = (owner wb)(i \<mapsto> e)"
proof -
  show i: "i < length (wb_partitions wb)" using assms by (simp add: wb_inv_def)
  show "owner wb i = None" using owner_free [OF assms(1) i] assms(3) by simp
  show "allocateStore e wb = (Some i, snd (allocateStore e wb))" using assms(3) by (simp add: allocateStore_def)
  show "owner (snd (allocateStore e wb)) = (owner wb)(i \<mapsto> e)"
    using assms i by (auto simp: allocateStore_def owner_def event_at_def nth_list_update fun_eq_iff)
qed

lemma find_partition_first:
  "find_partition e k ps = Some n \<Longrightarrow> k \<le> n \<and> n - k < length ps \<and> pt_eventNumber (ps ! (n - k)) = e"
  by (induction ps arbitrary: k) (fastforce simp: nth_Cons' split: if_splits)+

lemma find_partition_none: "find_partition e k ps = None \<longleftrightarrow> (\<forall>p \<in> set ps. pt_eventNumber p \<noteq> e)"
  by (induction ps arbitrary: k) auto

lemma free_owner:
  assumes "wb_inv wb" and "i < length (wb_partitions wb)"
  obtains wb' where "freeStore i wb = Some (owner wb i \<noteq> None, wb')" "owner wb' = (owner wb)(i := None)"
proof -
  let ?wb = "snd (the (freeStore i wb))"
  have "freeStore i wb = Some (owner wb i \<noteq> None, ?wb)" using assms(2) by (simp add: freeStore_def Let_def owner_def event_at_def)
  moreover have "owner ?wb = (owner wb)(i := None)"
    using assms(2) by (auto simp: freeStore_def Let_def owner_def event_at_def nth_list_update fun_eq_iff)
  ultimately show thesis by (rule that)
qed

lemma free_complement:
  assumes "wb_inv wb"
  shows "set (wb_freeSlots wb) = {..<length (wb_partitions wb)} - dom (owner wb)"
    and "dom (owner wb) \<subseteq> {..<length (wb_partitions wb)}"
proof -
  have sub: "set (wb_freeSlots wb) \<subseteq> {..<length (wb_partitions wb)}" using assms by (simp add: wb_inv_def)
  have "x \<in> set (wb_freeSlots wb) \<longleftrightarrow> x < length (wb_partitions wb) \<and> owner wb x = None" for x
    using owner_free [OF assms, of x] sub by blast
  then show "set (wb_freeSlots wb) = {..<length (wb_partitions wb)} - dom (owner wb)"
    by (intro set_eqI) (simp only: Diff_iff lessThan_iff domIff not_not)
  show "dom (owner wb) \<subseteq> {..<length (wb_partitions wb)}" by (auto simp: owner_def split: if_splits)
qed

lemma count_owners:
  assumes "wb_inv wb"
  shows "wb_countFree wb + card (dom (owner wb)) = length (wb_partitions wb)"
proof -
  let ?n = "length (wb_partitions wb)"
  note own = free_complement(2) [OF assms]
  have fin: "finite (dom (owner wb))" by (rule finite_subset [OF own finite_lessThan])
  have "card (dom (owner wb)) \<le> ?n" using card_mono [OF finite_lessThan own] by (simp only: card_lessThan)
  moreover have "card ({..<?n} - dom (owner wb)) = ?n - card (dom (owner wb))"
    unfolding card_Diff_subset [OF fin own] by (simp only: card_lessThan)
  moreover have "length (wb_freeSlots wb) = card (set (wb_freeSlots wb))" using assms by (simp add: wb_inv_def distinct_card)
  ultimately show ?thesis unfolding wb_countFree_def free_complement(1) [OF assms] by linarith
qed

lemma lookup_owner:
  assumes "e \<noteq> - 1"
  shows "case getPartitionNumber e wb of None \<Rightarrow> e \<notin> ran (owner wb) | Some j \<Rightarrow> owner wb j = Some e"
proof (cases "getPartitionNumber e wb")
  case None
  then have "\<forall>p \<in> set (wb_partitions wb). pt_eventNumber p \<noteq> e" by (simp add: getPartitionNumber_def find_partition_none)
  then have "e \<notin> ran (owner wb)" by (auto simp: owner_def event_at_def ran_def split: if_splits)
  then show ?thesis using None by simp
next
  case (Some j)
  then show ?thesis using assms by (auto simp: getPartitionNumber_def owner_def event_at_def dest!: find_partition_first)
qed

section \<open>Runs and what they promise\<close>

text \<open>The calls that the event loop, the scheduler's threads and the algorithms make, in any order.\<close>

datatype wb_op =
    Allocate int
  | Free nat
  | Look_up int
  | Count_free
  | Clear nat
  | Call_store nat services store_call "nat option"

datatype wb_answer = A_store "nat option" | A_freed bool | A_count nat | A_done

fun wb_step :: "wb_op \<Rightarrow> white_board \<Rightarrow> (wb_answer \<times> white_board) option" where
  "wb_step (Allocate e) wb = (let (r, wb) = allocateStore e wb in Some (A_store r, wb))"
| "wb_step (Free i) wb = map_option (\<lambda>(b, wb). (A_freed b, wb)) (freeStore i wb)"
| "wb_step (Look_up e) wb = Some (A_store (getPartitionNumber e wb), wb)"
| "wb_step Count_free wb = Some (A_count (wb_countFree wb), wb)"
| "wb_step (Clear i) wb = map_option (\<lambda>wb. (A_done, wb)) (wb_clearStore i wb)"
| "wb_step (Call_store fuel svc c cur) wb =
     (case wb_call fuel svc c cur wb of Done (a, wb) \<Rightarrow> Some (A_done, wb) | _ \<Rightarrow> None)"

primrec wb_run :: "wb_op list \<Rightarrow> white_board \<Rightarrow> (wb_answer list \<times> white_board) option" where
  "wb_run [] wb = Some ([], wb)"
| "wb_run (c # cs) wb =
     Option.bind (wb_step c wb) (\<lambda>(a, wb). map_option (\<lambda>(as, wb). (a # as, wb)) (wb_run cs wb))"

text \<open>The abstract board: a map from stores to the events that they belong to, and its answers.\<close>

fun owner_step :: "nat \<Rightarrow> wb_op \<Rightarrow> (nat \<rightharpoonup> int) \<Rightarrow> wb_answer \<Rightarrow> (nat \<rightharpoonup> int) \<Rightarrow> bool" where
  "owner_step n (Allocate e) m a m' \<longleftrightarrow>
     a = A_store None \<and> m' = m \<and> dom m = {..<n} \<or> (\<exists>j < n. a = A_store (Some j) \<and> m j = None \<and> m' = m(j \<mapsto> e))"
| "owner_step n (Free i) m a m' \<longleftrightarrow> a = A_freed (m i \<noteq> None) \<and> m' = m(i := None)"
| "owner_step n (Look_up e) m a m' \<longleftrightarrow>
     m' = m \<and> (a = A_store None \<and> e \<notin> ran m \<or> (\<exists>j. a = A_store (Some j) \<and> m j = Some e))"
| "owner_step n Count_free m a m' \<longleftrightarrow> m' = m \<and> a = A_count (n - card (dom m))"
| "owner_step n (Clear i) m a m' \<longleftrightarrow> m' = m \<and> a = A_done"
| "owner_step n (Call_store fuel svc c cur) m a m' \<longleftrightarrow> m' = m \<and> a = A_done"

inductive owner_runs :: "nat \<Rightarrow> wb_op list \<Rightarrow> (nat \<rightharpoonup> int) \<Rightarrow> wb_answer list \<Rightarrow> (nat \<rightharpoonup> int) \<Rightarrow> bool" for n where
  Nil: "owner_runs n [] m [] m"
| Cons: "owner_step n c m a m' \<Longrightarrow> owner_runs n cs m' as m'' \<Longrightarrow> owner_runs n (c # cs) m (a # as) m''"

text \<open>Event numbers are not -1, which stands for free, and stores are those of the board.\<close>

fun proper_op :: "nat \<Rightarrow> wb_op \<Rightarrow> bool" where
  "proper_op n (Allocate e) \<longleftrightarrow> e \<noteq> - 1"
| "proper_op n (Look_up e) \<longleftrightarrow> e \<noteq> - 1"
| "proper_op n (Free i) \<longleftrightarrow> i < n"
| "proper_op n (Clear i) \<longleftrightarrow> i < n"
| "proper_op n c \<longleftrightarrow> True"

definition is_call :: "wb_op \<Rightarrow> bool" where
  "is_call c \<longleftrightarrow> (case c of Call_store fuel svc call cur \<Rightarrow> True | _ \<Rightarrow> False)"

lemma allocate_step:
  assumes "wb_inv wb" and "e \<noteq> - 1" and "length (wb_partitions wb) = n"
  obtains a wb' where "wb_step (Allocate e) wb = Some (a, wb')" "wb_inv wb'" "length (wb_partitions wb') = n"
    "owner_step n (Allocate e) (owner wb) a (owner wb')"
proof (cases "wb_freeSlots wb")
  case Nil
  then have "dom (owner wb) = {..<n}" using free_complement [OF assms(1)] assms(3) by auto
  then show ?thesis using that [of "A_store None" wb] Nil assms by (simp add: allocateStore_def)
next
  case (Cons j rest)
  note a = owner_allocate [OF assms(1,2) Cons]
  have "length (wb_partitions (snd (allocateStore e wb))) = n" using assms(3) Cons by (simp add: allocateStore_def)
  moreover have "wb_step (Allocate e) wb = Some (A_store (Some j), snd (allocateStore e wb))" by (simp add: split_beta a(1) [THEN arg_cong, of fst])
  ultimately show ?thesis using that [OF _ allocateStore_inv [OF assms(1,2)]] a(2-4) assms(3) by simp
qed

lemma free_step:
  assumes "wb_inv wb" and "i < n" and "length (wb_partitions wb) = n"
  obtains a wb' where "wb_step (Free i) wb = Some (a, wb')" "wb_inv wb'" "length (wb_partitions wb') = n"
    "owner_step n (Free i) (owner wb) a (owner wb')"
proof -
  obtain wb' where wb': "freeStore i wb = Some (owner wb i \<noteq> None, wb')" "owner wb' = (owner wb)(i := None)"
    using free_owner [OF assms(1), of i] assms(2,3) by auto
  have "length (wb_partitions wb') = n" using wb'(1) assms(3) by (auto simp: freeStore_def Let_def split: if_splits)
  then show ?thesis using that [of "A_freed (owner wb i \<noteq> None)" wb'] wb' freeStore_inv [OF assms(1) wb'(1)] by simp
qed

lemma put_owner: "i < length (wb_partitions wb) \<Longrightarrow> owner (put_service i s wb) = owner wb"
  by (simp add: fun_eq_iff owner_def)

lemma step_refines:
  assumes "wb_inv wb" and "length (wb_partitions wb) = n" and "proper_op n c" and "wb_step c wb = Some (a, wb')"
  shows "wb_inv wb' \<and> length (wb_partitions wb') = n \<and> owner_step n c (owner wb) a (owner wb')"
proof (cases c)
  case (Allocate e)
  obtain a1 wb1 where "wb_step (Allocate e) wb = Some (a1, wb1)" "wb_inv wb1" "length (wb_partitions wb1) = n"
    "owner_step n (Allocate e) (owner wb) a1 (owner wb1)"
    by (rule allocate_step [OF assms(1) _ assms(2), of e]) (use assms(3) Allocate in simp)
  then show ?thesis using assms(4) by (simp add: Allocate del: wb_step.simps owner_step.simps)
next
  case (Free i)
  obtain a1 wb1 where "wb_step (Free i) wb = Some (a1, wb1)" "wb_inv wb1" "length (wb_partitions wb1) = n"
    "owner_step n (Free i) (owner wb) a1 (owner wb1)"
    by (rule free_step [OF assms(1) _ assms(2), of i]) (use assms(3) Free in simp)
  then show ?thesis using assms(4) by (simp add: Free del: wb_step.simps owner_step.simps)
next
  case (Look_up e)
  then show ?thesis using lookup_owner [of e wb] assms by (auto split: option.splits)
next
  case Count_free
  then show ?thesis using count_owners [OF assms(1)] assms by auto
next
  case (Clear i)
  obtain s where "pt_service (wb_partitions wb ! i) = Some s" by (rule service_there [OF assms(1)]) (use Clear assms(2,3) in simp)
  then have "wb' = put_service i (clearStore s) wb" "a = A_done" using Clear assms(2-4) by (auto simp: wb_clearStore_def)
  then show ?thesis using Clear assms(1-3) wb_inv_put put_owner by simp
next
  case (Call_store fuel svc call cur)
  then obtain r where r: "fwd (run_call fuel svc call) cur wb = Done (r, wb')" "a = A_done"
    using assms(4) by (auto simp: wb_call_def split: outcome.splits)
  show ?thesis using fwd_cases [OF assms(1) r(1)] r(2) Call_store assms(1,2) wb_inv_put put_owner by auto
qed

lemma step_runs:
  assumes "wb_inv wb" and "length (wb_partitions wb) = n" and "proper_op n c" and "\<not> is_call c"
  shows "wb_step c wb \<noteq> None"
proof (cases c)
  case (Clear i)
  obtain s where "pt_service (wb_partitions wb ! i) = Some s" by (rule service_there [OF assms(1)]) (use Clear assms(2,3) in simp)
  then show ?thesis using Clear assms(2,3) by (simp add: wb_clearStore_def)
next
  case (Free i)
  then show ?thesis using assms(2,3) by (auto simp: freeStore_def Let_def)
next
  case (Call_store fuel svc call cur)
  then show ?thesis using assms(4) by (simp add: is_call_def)
qed (simp_all add: split_beta)

lemma run_refines:
  assumes "wb_inv wb" and "length (wb_partitions wb) = n" and "\<forall>c \<in> set cs. proper_op n c"
  shows "case wb_run cs wb of
      None \<Rightarrow> \<exists>c \<in> set cs. is_call c
    | Some (as, wb') \<Rightarrow> owner_runs n cs (owner wb) as (owner wb') \<and> wb_inv wb' \<and> length (wb_partitions wb') = n"
  using assms
proof (induction cs arbitrary: wb)
  case Nil
  then show ?case by (simp add: owner_runs.Nil)
next
  case (Cons c cs)
  show ?case
  proof (cases "wb_step c wb")
    case None
    then show ?thesis using step_runs [OF Cons.prems(1,2), of c] Cons.prems(3) by auto
  next
    case (Some p)
    obtain a wb1 where p: "p = (a, wb1)" by (cases p)
    have s: "wb_inv wb1" "length (wb_partitions wb1) = n" "owner_step n c (owner wb) a (owner wb1)"
      using step_refines [OF Cons.prems(1,2) _ Some [unfolded p]] Cons.prems(3) by simp_all
    show ?thesis
      using Cons.IH [OF s(1,2)] Cons.prems(3) Some p owner_runs.Cons [OF s(3)] by (auto split: option.splits)
  qed
qed

section \<open>Properties\<close>

text \<open>
  C5. From a successful initialisation with n stores, any sequence of calls of the white board, in
  any order and with calls of the stores' data services between, gives the answers of a map from
  stores to the events they belong to, and leaves that map: \<open>allocateStore\<close> gives an event a store
  that belongs to no other, or none exactly when every store is taken; \<open>getPartitionNumber\<close> finds a
  store of the event, or none exactly when it has none; \<open>freeStore\<close> takes the store away and
  succeeds exactly when it had an owner; \<open>freeSlots\<close> counts the stores without one; clearing and
  calling a store change no owner. The run stops only in a call of a store that does. For event
  numbers other than -1, which stands for free, and stores of the board.
\<close>

theorem stores_refine_owner_map:
  assumes "wb_initialize svc_ok loader_ok (new_white_board n root leaves fault inhibit) = (True, wb)"
    and "\<forall>c \<in> set cs. proper_op n c"
  shows "case wb_run cs wb of
      None \<Rightarrow> \<exists>c \<in> set cs. is_call c
    | Some (as, wb') \<Rightarrow> owner_runs n cs Map.empty as (owner wb') \<and> wb_countFree wb' + card (dom (owner wb')) = n"
proof -
  have i: "wb_inv wb" "length (wb_partitions wb) = n" "wb_freeSlots wb = [0..<n]" using wb_initialize_inv [OF assms(1)] by simp_all
  have "owner wb = Map.empty" using free_complement [OF i(1)] i(2,3) by (auto simp: lessThan_atLeast0)
  then show ?thesis
    using run_refines [OF i(1,2) assms(2)] count_owners by (auto split: option.splits)
qed

lemma stores_refine_owner_map_witness:
  "\<exists>as wb'. wb_run [Allocate 7, Allocate 8, Allocate 9, Free 0, Allocate 9, Look_up 9]
      (snd (wb_initialize (\<lambda>_. True) True (new_white_board 2 ''/Event'' False False []))) = Some (as, wb') \<and>
    as = [A_store (Some 0), A_store (Some 1), A_store None, A_freed True, A_store (Some 0), A_store (Some 0)] \<and>
    card (dom (owner wb')) = 2"
proof -
  let ?wb = "snd (wb_initialize (\<lambda>_. True) True (new_white_board 2 ''/Event'' False False []))"
  let ?cs = "[Allocate 7, Allocate 8, Allocate 9, Free 0, Allocate 9, Look_up 9]"
  have "fst (wb_initialize (\<lambda>_. True) True (new_white_board 2 ''/Event'' False False []))" by code_simp
  then have init: "wb_initialize (\<lambda>_. True) True (new_white_board 2 ''/Event'' False False []) = (True, ?wb)" by (simp add: prod_eq_iff)
  have "map_option (\<lambda>(as, wb'). (as, wb_countFree wb')) (wb_run ?cs ?wb) =
      Some ([A_store (Some 0), A_store (Some 1), A_store None, A_freed True, A_store (Some 0), A_store (Some 0)], 0)"
    by code_simp
  then obtain as wb' where run: "wb_run ?cs ?wb = Some (as, wb')" "wb_countFree wb' = 0"
    "as = [A_store (Some 0), A_store (Some 1), A_store None, A_freed True, A_store (Some 0), A_store (Some 0)]"
    by auto
  have "\<forall>c \<in> set ?cs. proper_op 2 c" by simp
  from stores_refine_owner_map [OF init this] run show ?thesis by auto
qed

end
