(* ===== verification/Exception_Svc.thy ===== *)
theory Exception_Svc
  imports StatusCodes
begin

text \<open>
  \<open>ExceptionSvc\<close> (GaudiMonitor/src/ExceptionSvc.h, .cpp): what becomes of an exception or of a
  failure of an algorithm. The two options, such as \<open>ALL Alg1=SUCCESS Alg2=RETHROW\<close>, are parsed
  into a policy and a table. A regular expression splits the table; its leftmost, greedy
  match is written out here.
\<close>

section \<open>State\<close>

datatype err_policy = All_errors | No_errors

datatype return_state = RS_SUCCESS | RS_FAILURE | RS_RECOVERABLE | RS_RETHROW | RS_DEFAULT

record exception_svc =
  ex_mode_exc :: err_policy
  ex_mode_err :: err_policy
  ex_retCodesExc :: "string \<Rightarrow> return_state option"
  ex_retCodesErr :: "string \<Rightarrow> return_state option"
  ex_offline :: bool

definition new_exception_svc :: exception_svc where
  "new_exception_svc =
     \<lparr>ex_mode_exc = All_errors, ex_mode_err = No_errors, ex_retCodesExc = (\<lambda>_. None), ex_retCodesErr = (\<lambda>_. None),
      ex_offline = False\<rparr>"

section \<open>Parsing\<close>

definition blank :: "char \<Rightarrow> bool" where
  "blank c \<longleftrightarrow> c \<in> {CHR '' '', CHR 0x09, CHR 0x0A, CHR 0x0B, CHR 0x0C, CHR 0x0D}"

definition char_upper :: "char \<Rightarrow> char" where
  "char_upper c = (if 97 \<le> (of_char c :: nat) \<and> (of_char c :: nat) \<le> 122 then char_of ((of_char c :: nat) - 32) else c)"

definition str_upper :: "string \<Rightarrow> string" where
  "str_upper = map char_upper"

text \<open>
  A match of \<open>[[:space:]]*([^[:space:]]+)[[:space:]]*=[[:space:]]*([^[:space:]]+)\<close> at the front,
  for a first group of at most \<open>k\<close> characters: the groups and what follows.
\<close>

fun match_tag :: "nat \<Rightarrow> string \<Rightarrow> (string \<times> string \<times> string) option" where
  "match_tag 0 s = None"
| "match_tag (Suc k) s =
     (case dropWhile blank (drop (Suc k) s) of
        [] \<Rightarrow> match_tag k s
      | c # rest \<Rightarrow>
          (let rest = dropWhile blank rest; val = takeWhile (\<lambda>c. \<not> blank c) rest
           in if c = CHR ''='' \<and> val \<noteq> [] then Some (take (Suc k) s, val, dropWhile (\<lambda>c. \<not> blank c) rest)
              else match_tag k s))"

definition match_here :: "string \<Rightarrow> (string \<times> string \<times> string) option" where
  "match_here s =
     (let s = dropWhile blank s in match_tag (length (takeWhile (\<lambda>c. \<not> blank c) s)) s)"

text \<open>The iterator: from a match on to the next one, else a character further.\<close>

lemma match_tag_shorter: "match_tag k s = Some (t, v, rest) \<Longrightarrow> length rest < length s"
proof (induction k)
  case (Suc k)
  show ?case
  proof (cases "dropWhile blank (drop (Suc k) s)")
    case (Cons c r)
    then have "length r < length s"
      using length_dropWhile_le [of blank "drop (Suc k) s"] by simp
    moreover have "length (dropWhile (\<lambda>c. \<not> blank c) (dropWhile blank r)) \<le> length r"
      using length_dropWhile_le order_trans by blast
    ultimately show ?thesis using Suc Cons by (auto simp: Let_def split: if_splits)
  next
    case Nil
    with Suc show ?thesis by (simp only: match_tag.simps list.case)
  qed
qed simp

lemma match_here_shorter: "match_here s = Some (t, v, rest) \<Longrightarrow> length rest < length s"
  using match_tag_shorter length_dropWhile_le [of blank s] by (fastforce simp: match_here_def Let_def)

function option_matches :: "string \<Rightarrow> (string \<times> string) list" where
  "option_matches s =
     (case match_here s of
        Some (tag, val, rest) \<Rightarrow> (tag, val) # option_matches rest
      | None \<Rightarrow> (case s of [] \<Rightarrow> [] | c # s \<Rightarrow> option_matches s))"
  by pat_completeness auto
termination
  by (relation "measure length") (auto dest: match_here_shorter)

declare option_matches.simps [simp del]

text \<open>The two chains of comparisons.\<close>

definition exc_return_state :: "string \<Rightarrow> return_state option" where
  "exc_return_state VAL =
     (if VAL = ''SUCCESS'' then Some RS_SUCCESS
      else if VAL = ''FAILURE'' then Some RS_FAILURE
      else if VAL = ''REVOVERABLE'' then Some RS_RECOVERABLE
      else if VAL = ''RETHROW'' then Some RS_RETHROW
      else if VAL = ''DEFAULT'' then Some RS_DEFAULT
      else None)"

definition err_return_state :: "string \<Rightarrow> return_state option" where
  "err_return_state VAL =
     (if VAL = ''SUCCESS'' then Some RS_SUCCESS
      else if VAL = ''FAILURE'' then Some RS_FAILURE
      else if VAL = ''RECOVERABLE'' then Some RS_RECOVERABLE
      else None)"

fun fill_table ::
  "(string \<Rightarrow> return_state option) \<Rightarrow> (string \<times> string) list \<Rightarrow> (string \<Rightarrow> return_state option) \<Rightarrow>
   bool \<times> (string \<Rightarrow> return_state option)"
where
  "fill_table f [] m = (True, m)"
| "fill_table f ((tag, val) # ms) m =
     (case f (str_upper val) of Some r \<Rightarrow> fill_table f ms (m(tag \<mapsto> r)) | None \<Rightarrow> (False, m))"

definition parse_policy :: "string \<Rightarrow> err_policy option" where
  "parse_policy key =
     (let mode = str_upper (takeWhile (\<lambda>c. c \<noteq> CHR '' '') key)
      in if mode = ''NONE'' then Some No_errors else if mode = ''ALL'' then Some All_errors else None)"

definition policy_table :: "string \<Rightarrow> string" where
  "policy_table key = tl (dropWhile (\<lambda>c. c \<noteq> CHR '' '') key)"

definition go_offline :: "exception_svc \<Rightarrow> error_code \<times> exception_svc" where
  "go_offline x = (FAILURE, x\<lparr>ex_offline := True\<rparr>)"

text \<open>\<open>initialize\<close>, once the base class has.\<close>

definition ex_initialize :: "string \<Rightarrow> string \<Rightarrow> exception_svc \<Rightarrow> error_code \<times> exception_svc" where
  "ex_initialize catches errors x =
     (case parse_policy catches of
        None \<Rightarrow> go_offline x
      | Some p \<Rightarrow>
          (let (ok, m) = fill_table exc_return_state (option_matches (policy_table catches)) (ex_retCodesExc x);
               x = x\<lparr>ex_mode_exc := p, ex_retCodesExc := m\<rparr>
           in if \<not> ok then go_offline x
              else (case parse_policy errors of
                  None \<Rightarrow> go_offline x
                | Some p \<Rightarrow>
                    (let (ok, m) = fill_table err_return_state (option_matches (policy_table errors)) (ex_retCodesErr x);
                         x = x\<lparr>ex_mode_err := p, ex_retCodesErr := m\<rparr>
                     in if \<not> ok then go_offline x else (SUCCESS, x)))))"

section \<open>Handling\<close>

definition handleErr :: "exception_svc \<Rightarrow> string \<Rightarrow> error_code \<Rightarrow> error_code" where
  "handleErr x alg st =
     (case ex_retCodesErr x alg of
        Some RS_SUCCESS \<Rightarrow> SUCCESS
      | Some RS_FAILURE \<Rightarrow> FAILURE
      | Some RS_RECOVERABLE \<Rightarrow> RECOVERABLE
      | Some _ \<Rightarrow> FAILURE
      | None \<Rightarrow> if ex_mode_err x = All_errors then FAILURE else st)"

text \<open>\<open>process\<close>, behind all three \<open>handle\<close>: None when the exception is thrown again.\<close>

definition process :: "exception_svc \<Rightarrow> string \<Rightarrow> error_code option" where
  "process x alg =
     (case ex_retCodesExc x alg of
        Some RS_DEFAULT \<Rightarrow> Some FAILURE
      | Some RS_SUCCESS \<Rightarrow> Some SUCCESS
      | Some RS_FAILURE \<Rightarrow> Some FAILURE
      | Some RS_RECOVERABLE \<Rightarrow> Some RECOVERABLE
      | Some RS_RETHROW \<Rightarrow> None
      | None \<Rightarrow> if ex_mode_exc x = All_errors then None else Some FAILURE)"

definition ex_handle :: "exception_svc \<Rightarrow> string \<Rightarrow> error_code option" where
  "ex_handle = process"

section \<open>Options as they are documented\<close>

text \<open>A table entry, with the names of GaudiSvc/doc/ExceptionSvc.txt for the modes.\<close>

fun mode_name :: "return_state \<Rightarrow> string" where
  "mode_name RS_SUCCESS = ''SUCCESS''"
| "mode_name RS_FAILURE = ''FAILURE''"
| "mode_name RS_RECOVERABLE = ''RECOVERABLE''"
| "mode_name RS_RETHROW = ''RETHROW''"
| "mode_name RS_DEFAULT = ''DEFAULT''"

definition print_entry :: "string \<times> return_state \<Rightarrow> string" where
  "print_entry e = CHR '' '' # fst e @ CHR ''='' # mode_name (snd e)"

definition print_policy :: "err_policy \<Rightarrow> string" where
  "print_policy p = (if p = All_errors then ''ALL'' else ''NONE'')"

definition option_text :: "err_policy \<Rightarrow> (string \<times> return_state) list \<Rightarrow> string" where
  "option_text p es = print_policy p @ concat (map print_entry es)"

definition word_chars :: "string \<Rightarrow> bool" where
  "word_chars s \<longleftrightarrow> s \<noteq> [] \<and> (\<forall>c \<in> set s. \<not> blank c \<and> c \<noteq> CHR ''='')"

lemma blank_simps [simp]: "blank CHR '' ''" "\<not> blank CHR ''=''"
  by (simp_all add: blank_def)

lemma word_mode: "word_chars (mode_name r)"
  by (cases r) (simp_all add: word_chars_def blank_def)

lemma word_spans:
  assumes "word_chars v" and "rest = [] \<or> blank (hd rest)"
  shows "takeWhile (\<lambda>c. \<not> blank c) (v @ rest) = v" "dropWhile (\<lambda>c. \<not> blank c) (v @ rest) = rest"
    "dropWhile blank (v @ rest) = v @ rest"
proof -
  have "takeWhile (\<lambda>c. \<not> blank c) rest = []" "dropWhile (\<lambda>c. \<not> blank c) rest = rest"
    using assms(2) by (cases rest; simp)+
  then show "takeWhile (\<lambda>c. \<not> blank c) (v @ rest) = v" "dropWhile (\<lambda>c. \<not> blank c) (v @ rest) = rest"
    using assms(1) by (simp_all add: word_chars_def)
  show "dropWhile blank (v @ rest) = v @ rest" using assms(1) by (cases v) (simp_all add: word_chars_def)
qed

text \<open>What may follow an entry: nothing, or a blank and then anything but an equal sign.\<close>

definition ends_entry :: "string \<Rightarrow> bool" where
  "ends_entry rest \<longleftrightarrow> (rest = [] \<or> blank (hd rest)) \<and> (\<forall>c cs. dropWhile blank rest = c # cs \<longrightarrow> c \<noteq> CHR ''='')"

lemma match_tag_entry:
  assumes n: "word_chars n" and v: "word_chars v" and rest: "ends_entry rest"
  shows "j \<le> Suc (length v) \<Longrightarrow> match_tag (length n + j) (n @ CHR ''='' # v @ rest) = Some (n, v, rest)"
proof (induction j)
  case 0
  obtain k where k: "length n = Suc k" using n by (cases n) (auto simp: word_chars_def)
  have "dropWhile blank (CHR ''='' # v @ rest) = CHR ''='' # v @ rest" by simp
  with k v word_spans [OF v] rest show ?case by (simp add: ends_entry_def word_chars_def Let_def)
next
  case (Suc j)
  let ?s = "n @ CHR ''='' # v @ rest"
  have d: "drop (Suc (length n + j)) ?s = drop j v @ rest" using Suc.prems by simp
  have "c \<noteq> CHR ''=''" if "dropWhile blank (drop j v @ rest) = c # cs" for c cs
  proof (cases "drop j v")
    case Nil
    with that rest show ?thesis by (simp add: ends_entry_def)
  next
    case (Cons x xs)
    then have "x \<in> set v" by (metis in_set_dropD list.set_intros(1))
    with v that Cons show ?thesis by (auto simp: word_chars_def)
  qed
  then have "match_tag (Suc (length n + j)) ?s = match_tag (length n + j) ?s"
    unfolding match_tag.simps d by (auto simp: Let_def split: list.splits)
  with Suc show ?case by simp
qed

lemma match_entry:
  assumes "word_chars (fst e)" and "ends_entry rest"
  shows "match_here (print_entry e @ rest) = Some (fst e, mode_name (snd e), rest)"
proof -
  let ?n = "fst e" and ?v = "mode_name (snd e)"
  let ?s = "?n @ CHR ''='' # ?v @ rest"
  have "dropWhile blank (print_entry e @ rest) = ?s"
    using assms(1) by (cases ?n) (auto simp: print_entry_def word_chars_def)
  moreover have "takeWhile (\<lambda>c. \<not> blank c) ?s = ?n @ CHR ''='' # ?v"
    using assms word_mode [of "snd e"] word_spans(1) [OF word_mode, of rest]
    by (simp add: word_chars_def ends_entry_def)
  ultimately show ?thesis
    using match_tag_entry [OF assms(1) word_mode assms(2), of "Suc (length ?v)" "snd e"]
    by (simp add: match_here_def Let_def)
qed


lemma entries_end: "list_all (\<lambda>e. word_chars (fst e)) es \<Longrightarrow> ends_entry (concat (map print_entry es))"
proof (induction es)
  case (Cons e es)
  obtain c n where "fst e = c # n" "c \<noteq> CHR ''=''" "\<not> blank c"
    using Cons.prems by (cases "fst e") (auto simp: word_chars_def)
  then show ?case by (simp add: ends_entry_def print_entry_def)
qed (simp add: ends_entry_def)

lemma option_matches_entries:
  "list_all (\<lambda>e. word_chars (fst e)) es \<Longrightarrow>
    option_matches (concat (map print_entry es)) = map (\<lambda>e. (fst e, mode_name (snd e))) es"
proof (induction es)
  case Nil
  then show ?case by (simp add: option_matches.simps [of "[]"] match_here_def)
next
  case (Cons e es)
  with match_entry [of e "concat (map print_entry es)"] entries_end [of es]
  show ?case by (simp add: option_matches.simps [of "print_entry e @ _"])
qed

lemma upper_mode [simp]: "str_upper (mode_name r) = mode_name r"
  by (cases r; simp only: mode_name.simps; code_simp)

lemma exc_mode: "r \<noteq> RS_RECOVERABLE \<Longrightarrow> exc_return_state (mode_name r) = Some r"
  by (cases r) (simp_all add: exc_return_state_def)

lemma err_mode: "r \<noteq> RS_RETHROW \<Longrightarrow> r \<noteq> RS_DEFAULT \<Longrightarrow> err_return_state (mode_name r) = Some r"
  by (cases r) (simp_all add: err_return_state_def)

lemma fill_table_all:
  "list_all (\<lambda>e. f (mode_name (snd e)) = Some (snd e)) es \<Longrightarrow>
    fill_table f (map (\<lambda>e. (fst e, mode_name (snd e))) es) m = (True, m ++ map_of (rev es))"
proof (induction es arbitrary: m)
  case (Cons e es)
  then have "m(fst e \<mapsto> snd e) ++ map_of (rev es) = m ++ map_of (rev (e # es))"
    by (cases e) (simp add: map_add_def fun_eq_iff map_of_append split: option.splits)
  with Cons show ?case by simp
qed simp

lemma fill_table_refused:
  "f (mode_name r) = None \<Longrightarrow> (n, r) \<in> set es \<Longrightarrow>
    fst (fill_table f (map (\<lambda>e. (fst e, mode_name (snd e))) es) m) = False"
proof (induction es arbitrary: m)
  case (Cons e es)
  then show ?case by (cases "f (mode_name (snd e))") auto
qed simp

lemma parse_option_text:
  assumes "list_all (\<lambda>e. word_chars (fst e)) es"
  shows "parse_policy (option_text p es) = Some p"
    and "option_matches (policy_table (option_text p es)) = map (\<lambda>e. (fst e, mode_name (snd e))) es"
proof -
  have w: "str_upper ''ALL'' = ''ALL''" "str_upper ''NONE'' = ''NONE''" by code_simp+
  have t: "takeWhile (\<lambda>c. c \<noteq> CHR '' '') (concat (map print_entry es)) = []"
    "dropWhile (\<lambda>c. c \<noteq> CHR '' '') (concat (map print_entry es)) = concat (map print_entry es)"
    by (cases es; simp add: print_entry_def)+
  then show "parse_policy (option_text p es) = Some p"
    by (cases p) (simp_all add: parse_policy_def option_text_def print_policy_def w)
  have "policy_table (option_text p es) = tl (concat (map print_entry es))"
    using t by (cases p) (simp_all add: policy_table_def option_text_def print_policy_def)
  moreover have "match_here (tl (concat (map print_entry es))) = match_here (concat (map print_entry es))"
    by (cases es) (simp_all add: match_here_def print_entry_def)
  moreover have "option_matches (tl (concat (map print_entry es))) = option_matches (concat (map print_entry es))"
    if "match_here (tl (concat (map print_entry es))) = match_here (concat (map print_entry es))"
  proof (cases "match_here (concat (map print_entry es))")
    case None
    with that show ?thesis
      by (cases "concat (map print_entry es)" rule: list.exhaust) (simp_all add: option_matches.simps [of "_ # _"] del: concat_eq_Nil_conv)
  qed (use that in \<open>simp add: option_matches.simps [of "concat (map print_entry es)"]
      option_matches.simps [of "tl (concat (map print_entry es))"]\<close>)
  ultimately show "option_matches (policy_table (option_text p es)) = map (\<lambda>e. (fst e, mode_name (snd e))) es"
    using option_matches_entries [OF assms] by simp
qed

section \<open>Properties\<close>

text \<open>
  C28. Options written as documented are read back: with the policies and per-algorithm modes
  printed in the documented format, for names without blanks and equal signs and any modes but
  RECOVERABLE for exceptions, and SUCCESS, FAILURE or RECOVERABLE for errors, the service
  initialises to exactly these policies and tables, the last entry of an algorithm winning.
  RECOVERABLE for exceptions, which the documentation lists, is refused: the code compares
  with a misspelt word, and the service goes offline.
\<close>

theorem exception_options_read_back:
  assumes "list_all (\<lambda>e. word_chars (fst e)) catches"
    and "list_all (\<lambda>e. word_chars (fst e) \<and> snd e \<in> {RS_SUCCESS, RS_FAILURE, RS_RECOVERABLE}) errors"
  shows "if RS_RECOVERABLE \<in> snd ` set catches
    then fst (ex_initialize (option_text p catches) (option_text q errors) new_exception_svc) = FAILURE
      \<and> ex_offline (snd (ex_initialize (option_text p catches) (option_text q errors) new_exception_svc))
    else ex_initialize (option_text p catches) (option_text q errors) new_exception_svc =
      (SUCCESS, \<lparr>ex_mode_exc = p, ex_mode_err = q, ex_retCodesExc = map_of (rev catches),
                 ex_retCodesErr = map_of (rev errors), ex_offline = False\<rparr>)"
proof -
  have errs: "list_all (\<lambda>e. word_chars (fst e)) errors"
    "list_all (\<lambda>e. err_return_state (mode_name (snd e)) = Some (snd e)) errors"
    using assms(2) err_mode by (auto simp: list_all_iff) (metis return_state.distinct snd_conv)
  note c = parse_option_text [OF assms(1)] and e = parse_option_text [OF errs(1)]
  show ?thesis
  proof (cases "RS_RECOVERABLE \<in> snd ` set catches")
    case True
    then obtain n where "(n, RS_RECOVERABLE) \<in> set catches" by auto
    with fill_table_refused [of exc_return_state RS_RECOVERABLE n catches "ex_retCodesExc new_exception_svc"]
    obtain m where "fill_table exc_return_state (map (\<lambda>e. (fst e, mode_name (snd e))) catches)
        (ex_retCodesExc new_exception_svc) = (False, m)"
      by (cases "fill_table exc_return_state (map (\<lambda>e. (fst e, mode_name (snd e))) catches)
        (ex_retCodesExc new_exception_svc)") (auto simp: exc_return_state_def)
    with True show ?thesis by (simp add: ex_initialize_def c go_offline_def)
  next
    case False
    then have "list_all (\<lambda>e. exc_return_state (mode_name (snd e)) = Some (snd e)) catches"
      by (auto simp: list_all_iff image_iff intro!: exc_mode)
    note f = fill_table_all [OF this] fill_table_all [OF errs(2)]
    from False show ?thesis by (simp add: ex_initialize_def c e f new_exception_svc_def map_add_def fun_eq_iff split: option.split)
  qed
qed

lemma exception_options_read_back_witness:
  "ex_initialize ''ALL A=SUCCESS B=RETHROW A=DEFAULT'' ''NONE C=RECOVERABLE'' new_exception_svc =
     (SUCCESS, \<lparr>ex_mode_exc = All_errors, ex_mode_err = No_errors,
        ex_retCodesExc = [''A'' \<mapsto> RS_DEFAULT, ''B'' \<mapsto> RS_RETHROW], ex_retCodesErr = [''C'' \<mapsto> RS_RECOVERABLE],
        ex_offline = False\<rparr>)
    \<and> fst (ex_initialize ''ALL A=RECOVERABLE'' ''NONE'' new_exception_svc) = FAILURE"
proof -
  have t: "option_text All_errors [(''A'', RS_SUCCESS), (''B'', RS_RETHROW), (''A'', RS_DEFAULT)] = ''ALL A=SUCCESS B=RETHROW A=DEFAULT''"
    "option_text No_errors [(''C'', RS_RECOVERABLE)] = ''NONE C=RECOVERABLE''"
    "option_text All_errors [(''A'', RS_RECOVERABLE)] = ''ALL A=RECOVERABLE''" "option_text No_errors [] = ''NONE''"
    by code_simp+
  have w: "word_chars ''A''" "word_chars ''B''" "word_chars ''C''" by code_simp+
  have "fst (ex_initialize ''ALL A=RECOVERABLE'' ''NONE'' new_exception_svc) = FAILURE"
    using exception_options_read_back [of "[(''A'', RS_RECOVERABLE)]" "[]" All_errors No_errors] w t by simp
  with exception_options_read_back [of "[(''A'', RS_SUCCESS), (''B'', RS_RETHROW), (''A'', RS_DEFAULT)]"
      "[(''C'', RS_RECOVERABLE)]" All_errors No_errors] w t
  show ?thesis by (auto simp: fun_eq_iff)
qed

end
