(* ===== verification/Exec_State_Svc.thy ===== *)
theory Exec_State_Svc
  imports Event_Slots Exception_Svc
begin

text \<open>
  \<open>AlgExecStateSvc\<close> (GaudiCoreSvc/src/AlgExecStateSvc, GaudiKernel/IAlgExecStateSvc.h): for every
  slot how far each algorithm got and how the event went, and how often each algorithm failed;
  and \<open>Algorithm::sysExecute\<close> (GaudiKernel/src/Lib/Algorithm.cpp), which runs an algorithm and
  records the result there. Exceptions are values of \<open>exec_error\<close>.
\<close>

section \<open>State\<close>

datatype run_state = RS_None | RS_Executing | RS_Done

text \<open>
  The status codes that algorithms return: those of the default category, and the two of the
  category \<open>FilterDecision\<close> (GaudiKernel/FunctionalFilterDecision.h), which both count as successes.
\<close>

datatype alg_status = Gaudi_code error_code | Filter_decision bool

fun status_success :: "alg_status \<Rightarrow> bool" where
  "status_success (Gaudi_code e) \<longleftrightarrow> e = SUCCESS"
| "status_success (Filter_decision b) \<longleftrightarrow> True"

record alg_exec =
  ae_filterPassed :: bool
  ae_state :: run_state
  ae_execStatus :: alg_status

definition new_alg_exec :: alg_exec where
  "new_alg_exec = \<lparr>ae_filterPassed = True, ae_state = RS_None, ae_execStatus = Gaudi_code FAILURE\<rparr>"

datatype event_status = ES_Invalid | ES_Success | ES_AlgFail | ES_AlgStall | ES_Other

type_synonym exec_map = "string \<Rightarrow> alg_exec option"

record exec_svc =
  xs_algStates :: "exec_map list"
  xs_algSubSlotStates :: "exec_map list list"
  xs_eventStatus :: "event_status list"
  xs_preInitAlgs :: "string list"
  xs_errorCount :: "string \<Rightarrow> u32 option"
  xs_isInit :: bool

datatype exec_error = No_alg_manager | Not_initialized | Bad_slot | Unknown_alg string | Bad_index

text \<open>The number of slots and the algorithms of the manager, None when there is none.\<close>

record exec_config =
  xc_concurrent :: bool
  xc_numConcurrentEvents :: nat
  xc_algorithms :: "string list option"

definition new_exec_svc :: exec_svc where
  "new_exec_svc =
     \<lparr>xs_algStates = [], xs_algSubSlotStates = [], xs_eventStatus = [], xs_preInitAlgs = [],
      xs_errorCount = (\<lambda>_. None), xs_isInit = False\<rparr>"

definition addAlg :: "string \<Rightarrow> exec_svc \<Rightarrow> exec_svc" where
  "addAlg alg s =
     (if \<not> xs_isInit s then s\<lparr>xs_preInitAlgs := xs_preInitAlgs s @ [alg]\<rparr>
      else if xs_algStates s \<noteq> [] \<and> hd (xs_algStates s) alg \<noteq> None then s
      else s\<lparr>xs_algStates := map (\<lambda>a. a(alg \<mapsto> new_alg_exec)) (xs_algStates s),
             xs_errorCount := (xs_errorCount s)(alg \<mapsto> 0)\<rparr>)"

text \<open>\<open>vector::resize\<close>.\<close>

definition vec_resize :: "nat \<Rightarrow> 'a \<Rightarrow> 'a list \<Rightarrow> 'a list" where
  "vec_resize n x xs = take n xs @ replicate (n - length xs) x"

definition xs_init :: "exec_config \<Rightarrow> exec_svc \<Rightarrow> exec_error + exec_svc" where
  "xs_init cfg s =
     (let slots = (if xc_concurrent cfg then max 1 (xc_numConcurrentEvents cfg) else 1);
          s = s\<lparr>xs_algStates := vec_resize slots (\<lambda>_. None) (xs_algStates s),
                xs_eventStatus := vec_resize slots ES_Invalid (xs_eventStatus s)\<rparr>
      in case xc_algorithms cfg of
           None \<Rightarrow> Inl No_alg_manager
         | Some algs \<Rightarrow> Inr (fold addAlg (algs @ xs_preInitAlgs s) (s\<lparr>xs_isInit := True\<rparr>)))"

text \<open>\<open>call_once(m_initFlag, init)\<close>: a call that throws does not count.\<close>

definition call_once :: "exec_config \<Rightarrow> exec_svc \<Rightarrow> exec_error + exec_svc" where
  "call_once cfg s = (if xs_isInit s then Inr s else xs_init cfg s)"

definition checkInit :: "exec_svc \<Rightarrow> exec_error + unit" where
  "checkInit s = (if xs_isInit s then Inr () else Inl Not_initialized)"

abbreviation sum_bind :: "'e + 'a \<Rightarrow> ('a \<Rightarrow> 'e + 'b) \<Rightarrow> 'e + 'b" where
  "sum_bind x f \<equiv> (case x of Inl e \<Rightarrow> Inl e | Inr a \<Rightarrow> f a)"

section \<open>Reading and writing\<close>

definition slot_index :: "event_context \<Rightarrow> nat" where
  "slot_index c = unat (ctx_slot c)"

definition sub_index :: "event_context \<Rightarrow> nat" where
  "sub_index c = unat (ctx_subslot c)"

definition algExecState_const :: "string \<Rightarrow> event_context \<Rightarrow> exec_svc \<Rightarrow> exec_error + alg_exec" where
  "algExecState_const algName ctx s =
     sum_bind (checkInit s) (\<lambda>_.
       if slot_index ctx \<ge> length (xs_algStates s) then Inl Bad_slot
       else case (xs_algStates s ! slot_index ctx) algName of
           None \<Rightarrow> Inl (Unknown_alg algName)
         | Some a \<Rightarrow>
             if usesSubSlot ctx
             then (if slot_index ctx \<ge> length (xs_algSubSlotStates s)
                    \<or> sub_index ctx \<ge> length (xs_algSubSlotStates s ! slot_index ctx)
                   then Inl Bad_index
                   else case (xs_algSubSlotStates s ! slot_index ctx ! sub_index ctx) algName of
                       None \<Rightarrow> Inl (Unknown_alg algName)
                     | Some b \<Rightarrow> Inr b)
             else Inr a)"

text \<open>
  The other \<open>algExecState\<close> answers a reference: here a function is applied to the state it
  refers to. The state in a sub-slot is created by the first access.
\<close>

definition upd_algExecState ::
  "exec_config \<Rightarrow> string \<Rightarrow> event_context \<Rightarrow> (alg_exec \<Rightarrow> alg_exec) \<Rightarrow> exec_svc \<Rightarrow> exec_error + exec_svc"
where
  "upd_algExecState cfg alg ctx f s =
     sum_bind (call_once cfg s) (\<lambda>s.
       if slot_index ctx \<ge> length (xs_algStates s) then Inl Bad_slot
       else case (xs_algStates s ! slot_index ctx) alg of
           None \<Rightarrow> Inl (Unknown_alg alg)
         | Some a \<Rightarrow>
             if usesSubSlot ctx
             then (let sub = vec_resize (max (length (xs_algSubSlotStates s)) (slot_index ctx + 1)) [] (xs_algSubSlotStates s);
                       subSlots = sub ! slot_index ctx;
                       subSlots = vec_resize (max (length subSlots) (sub_index ctx + 1)) (\<lambda>_. None) subSlots;
                       thisSubSlot = subSlots ! sub_index ctx;
                       b = (case thisSubSlot alg of Some b \<Rightarrow> b | None \<Rightarrow> new_alg_exec)
                   in Inr (s\<lparr>xs_algSubSlotStates :=
                        sub[slot_index ctx := subSlots[sub_index ctx := thisSubSlot(alg \<mapsto> f b)]]\<rparr>))
             else Inr (s\<lparr>xs_algStates := (xs_algStates s)[slot_index ctx := (xs_algStates s ! slot_index ctx)(alg \<mapsto> f a)]\<rparr>))"

definition eventStatus :: "event_context \<Rightarrow> exec_svc \<Rightarrow> exec_error + event_status" where
  "eventStatus ctx s =
     sum_bind (checkInit s) (\<lambda>_. if slot_index ctx \<ge> length (xs_eventStatus s) then Inl Bad_slot
       else Inr (xs_eventStatus s ! slot_index ctx))"

definition setEventStatus :: "exec_config \<Rightarrow> event_status \<Rightarrow> event_context \<Rightarrow> exec_svc \<Rightarrow> exec_error + exec_svc" where
  "setEventStatus cfg sc ctx s =
     sum_bind (call_once cfg s) (\<lambda>s. if slot_index ctx \<ge> length (xs_eventStatus s) then Inl Bad_slot
       else Inr (s\<lparr>xs_eventStatus := (xs_eventStatus s)[slot_index ctx := sc]\<rparr>))"

definition next_status :: "bool \<Rightarrow> event_status \<Rightarrow> event_status" where
  "next_status fail status =
     (if status = ES_Success then (if fail then ES_AlgFail else status)
      else if status = ES_Invalid then (if fail then ES_AlgFail else ES_Success)
      else status)"

definition updateEventStatus :: "exec_config \<Rightarrow> bool \<Rightarrow> event_context \<Rightarrow> exec_svc \<Rightarrow> exec_error + exec_svc" where
  "updateEventStatus cfg fail ctx s =
     sum_bind (call_once cfg s) (\<lambda>s. if slot_index ctx \<ge> length (xs_eventStatus s) then Inl Bad_slot
       else Inr (s\<lparr>xs_eventStatus := (xs_eventStatus s)[slot_index ctx := next_status fail (xs_eventStatus s ! slot_index ctx)]\<rparr>))"

definition reset_map :: "exec_map \<Rightarrow> exec_map" where
  "reset_map m = (\<lambda>n. map_option (\<lambda>_. new_alg_exec) (m n))"

definition xs_reset :: "exec_config \<Rightarrow> event_context \<Rightarrow> exec_svc \<Rightarrow> exec_error + exec_svc" where
  "xs_reset cfg ctx s =
     sum_bind (call_once cfg s) (\<lambda>s.
       let i = slot_index ctx
       in if i \<ge> length (xs_algStates s) then Inl Bad_slot
          else let s = s\<lparr>xs_algStates := (xs_algStates s)[i := reset_map (xs_algStates s ! i)],
                         xs_algSubSlotStates :=
                           (if i < length (xs_algSubSlotStates s)
                            then (xs_algSubSlotStates s)[i := map reset_map (xs_algSubSlotStates s ! i)]
                            else xs_algSubSlotStates s)\<rparr>
               in if i \<ge> length (xs_eventStatus s) then Inl Bad_slot
                  else Inr (s\<lparr>xs_eventStatus := (xs_eventStatus s)[i := ES_Invalid]\<rparr>))"

definition algErrorCount :: "string \<Rightarrow> exec_svc \<Rightarrow> u32" where
  "algErrorCount alg s = (case xs_errorCount s alg of None \<Rightarrow> 0 | Some n \<Rightarrow> n)"

definition resetErrorCount :: "string \<Rightarrow> exec_svc \<Rightarrow> exec_svc" where
  "resetErrorCount alg s =
     (case xs_errorCount s alg of
        Some n \<Rightarrow> s\<lparr>xs_errorCount := (xs_errorCount s)(alg \<mapsto> 0)\<rparr>
      | None \<Rightarrow> s)"

definition incrementErrorCount :: "string \<Rightarrow> exec_svc \<Rightarrow> u32 \<times> exec_svc" where
  "incrementErrorCount alg s =
     (case xs_errorCount s alg of
        None \<Rightarrow> (0, s)
      | Some n \<Rightarrow> (n + 1, s\<lparr>xs_errorCount := (xs_errorCount s)(alg \<mapsto> n + 1)\<rparr>))"

section \<open>Algorithm::sysExecute\<close>

text \<open>
  What the body of an algorithm does: return a status code or throw; and it may set the filter
  flag of its state on the way.
\<close>

datatype alg_outcome = Returns alg_status | Throws

record alg_body =
  ab_outcome :: alg_outcome
  ab_setFilterPassed :: "bool option"

record alg_config =
  ac_isEnabled :: bool
  ac_errorMax :: u32

text \<open>What the exception service makes of it; None when it throws the exception again.\<close>

definition outcome_status :: "exception_svc \<Rightarrow> string \<Rightarrow> alg_outcome \<Rightarrow> alg_status option" where
  "outcome_status exc alg out =
     (case out of
        Returns (Gaudi_code e) \<Rightarrow> Some (Gaudi_code (if e = SUCCESS then e else handleErr exc alg e))
      | Returns (Filter_decision b) \<Rightarrow> Some (Filter_decision b)
      | Throws \<Rightarrow> map_option Gaudi_code (ex_handle exc alg))"

text \<open>Failures are counted, and are successes as long as there are less than \<open>ErrorMax\<close>.\<close>

definition count_error :: "alg_config \<Rightarrow> string \<Rightarrow> alg_status \<Rightarrow> exec_svc \<Rightarrow> alg_status \<times> exec_svc" where
  "count_error ac alg status s =
     (if status_success status then (status, s)
      else let (nerr, s) = incrementErrorCount alg s
           in (if nerr < ac_errorMax ac then Gaudi_code SUCCESS else status, s))"

text \<open>The answer has no status when the exception service rethrows.\<close>

definition sysExecute ::
  "exec_config \<Rightarrow> exception_svc \<Rightarrow> alg_config \<Rightarrow> string \<Rightarrow> event_context \<Rightarrow> alg_body \<Rightarrow> exec_svc \<Rightarrow>
   exec_error + (alg_status option \<times> exec_svc)"
where
  "sysExecute cfg exc ac alg ctx body s =
     (if \<not> ac_isEnabled ac then Inr (Some (Gaudi_code SUCCESS), s)
      else
        sum_bind (upd_algExecState cfg alg ctx (\<lambda>a. a\<lparr>ae_state := RS_Executing\<rparr>) s) (\<lambda>s.
        sum_bind (case ab_setFilterPassed body of
            None \<Rightarrow> Inr s
          | Some b \<Rightarrow> upd_algExecState cfg alg ctx (\<lambda>a. a\<lparr>ae_filterPassed := b\<rparr>) s) (\<lambda>s.
        sum_bind (if ab_outcome body = Returns (Filter_decision False)
                  then upd_algExecState cfg alg ctx (\<lambda>a. a\<lparr>ae_filterPassed := False\<rparr>) s
                  else Inr s) (\<lambda>s.
        case outcome_status exc alg (ab_outcome body) of
          None \<Rightarrow> Inr (None, s)
        | Some status \<Rightarrow>
            (let (status, s) = count_error ac alg status s
             in sum_bind (upd_algExecState cfg alg ctx (\<lambda>a. a\<lparr>ae_state := RS_Done, ae_execStatus := status\<rparr>) s)
                  (\<lambda>s. Inr (Some status, s)))))))"

end
