(* ===== verification/Resource_Pool.thy ===== *)
theory Resource_Pool
  imports Assembly "HOL-Library.Multiset"
begin

text \<open>
  \<open>AlgResourcePool\<close> (GaudiHive/src/AlgResourcePool.h, .cpp): the instances of every algorithm
  wait in a queue of their own, and resources named by the algorithms are bits of a set that an
  algorithm takes while it runs. Tables are keyed by the hash of the algorithm's name;
  \<open>std::hash\<close> is an argument. What the scheduler relies on is stated as a contract and the pool
  is shown to provide it.
\<close>

section \<open>The pool\<close>

record alg_instance =
  in_name :: string
  in_index :: nat
  in_reEntrant :: bool

type_synonym hash_fun = "string \<Rightarrow> u64"
type_synonym bitset = "bool list"

record pool =
  pl_available :: bitset
  pl_algqueue :: "u64 \<Rightarrow> alg_instance list option"
  pl_requirements :: "u64 \<Rightarrow> bitset option"
  pl_allowed :: "u64 \<Rightarrow> nat option"
  pl_created :: "u64 \<Rightarrow> nat option"
  pl_indices :: "string \<Rightarrow> nat option"
  pl_misses :: "string \<Rightarrow> nat option"
  pl_countMisses :: bool

text \<open>\<open>boost::dynamic_bitset\<close>; the binary operations are for sets of the same size.\<close>

definition is_subset_of :: "bitset \<Rightarrow> bitset \<Rightarrow> bool" where
  "is_subset_of a b \<longleftrightarrow> list_all2 (\<lambda>x y. x \<longrightarrow> y) a b"

definition bits_xor :: "bitset \<Rightarrow> bitset \<Rightarrow> bitset" where
  "bits_xor a b = map2 (\<noteq>) a b"

definition bits_or :: "bitset \<Rightarrow> bitset \<Rightarrow> bitset" where
  "bits_or a b = map2 (\<or>) a b"

definition resize :: "nat \<Rightarrow> bitset \<Rightarrow> bitset" where
  "resize n b = take n b @ replicate (n - length b) False"

text \<open>\<open>m_resource_requirements[id]\<close>: a missing one is the empty set.\<close>

definition requirements_of :: "pool \<Rightarrow> u64 \<Rightarrow> bitset" where
  "requirements_of p a = (case pl_requirements p a of None \<Rightarrow> [] | Some b \<Rightarrow> b)"

definition queue_of :: "pool \<Rightarrow> u64 \<Rightarrow> alg_instance list" where
  "queue_of p a = (case pl_algqueue p a of None \<Rightarrow> [] | Some q \<Rightarrow> q)"

definition set_queue :: "u64 \<Rightarrow> alg_instance list \<Rightarrow> pool \<Rightarrow> pool" where
  "set_queue a q p = p\<lparr>pl_algqueue := (pl_algqueue p)(a \<mapsto> q)\<rparr>"

definition count_miss :: "string \<Rightarrow> pool \<Rightarrow> pool" where
  "count_miss n p =
     (if pl_countMisses p
      then p\<lparr>pl_misses := (pl_misses p)(n \<mapsto> (case pl_misses p n of Some k \<Rightarrow> Suc k | None \<Rightarrow> 1))\<rparr>
      else p)"

text \<open>
  \<open>acquireAlgorithm\<close> without blocking: the status, the instance when there was one, and the
  pool. A reentrant instance goes back into its queue at once.
\<close>

definition acquireAlgorithm :: "hash_fun \<Rightarrow> string \<Rightarrow> pool \<Rightarrow> error_code \<times> alg_instance option \<times> pool" where
  "acquireAlgorithm hash name p =
     (let algo_id = hash name
      in case pl_algqueue p algo_id of
           None \<Rightarrow> (FAILURE, None, p)
         | Some [] \<Rightarrow> (FAILURE, None, count_miss name p)
         | Some (algo # queue) \<Rightarrow>
             (let p = set_queue algo_id queue p;
                  requirements = requirements_of p algo_id;
                  fits = is_subset_of requirements (pl_available p);
                  p = (if fits then p\<lparr>pl_available := bits_xor (pl_available p) requirements\<rparr>
                       else if \<not> in_reEntrant algo then set_queue algo_id (queue_of p algo_id @ [algo]) p
                       else p);
                  p = (if in_reEntrant algo then set_queue algo_id (queue_of p algo_id @ [algo]) p else p)
              in (if fits then SUCCESS else FAILURE, Some algo, p)))"

text \<open>With blocking, the call waits for an instance: None while there is none.\<close>

definition acquireAlgorithm_blocking ::
  "hash_fun \<Rightarrow> string \<Rightarrow> pool \<Rightarrow> (error_code \<times> alg_instance option \<times> pool) option"
where
  "acquireAlgorithm_blocking hash name p =
     (if pl_algqueue p (hash name) = Some [] then None else Some (acquireAlgorithm hash name p))"

definition releaseAlgorithm :: "hash_fun \<Rightarrow> string \<Rightarrow> alg_instance \<Rightarrow> pool \<Rightarrow> pool" where
  "releaseAlgorithm hash name algo p =
     (let algo_id = hash name;
          p = p\<lparr>pl_available := bits_or (pl_available p) (requirements_of p algo_id)\<rparr>
      in if \<not> in_reEntrant algo then set_queue algo_id (queue_of p algo_id @ [algo]) p else p)"

text \<open>
  A single resource by its name. An unknown name gets index 0 from \<open>operator[]\<close>; None when
  there is no such bit.
\<close>

definition set_resource :: "bool \<Rightarrow> string \<Rightarrow> pool \<Rightarrow> pool option" where
  "set_resource b name p =
     (let i = (case pl_indices p name of Some i \<Rightarrow> i | None \<Rightarrow> 0);
          p = p\<lparr>pl_indices := (pl_indices p)(name \<mapsto> i)\<rparr>
      in if i < length (pl_available p) then Some (p\<lparr>pl_available := (pl_available p)[i := b]\<rparr>) else None)"

definition acquireResource :: "string \<Rightarrow> pool \<Rightarrow> pool option" where
  "acquireResource = set_resource False"

definition releaseResource :: "string \<Rightarrow> pool \<Rightarrow> pool option" where
  "releaseResource = set_resource True"

section \<open>Filling the pool\<close>

text \<open>\<open>flattenSequencer\<close>: the leaves of a sequence, until a cast to a sequence fails.\<close>

fun flattenSequencer :: "alg_tree \<Rightarrow> string list \<Rightarrow> error_code \<times> string list"
  and flatten_members :: "alg_tree list \<Rightarrow> string list \<Rightarrow> error_code \<times> string list"
where
  "flattenSequencer (Leaf_alg a) alglist = (SUCCESS, alglist @ [ga_name a])"
| "flattenSequencer (Seq_alg n ps castable subs) alglist =
     (if \<not> castable then (FAILURE, alglist) else flatten_members subs alglist)"
| "flatten_members [] alglist = (SUCCESS, alglist)"
| "flatten_members (t # ts) alglist =
     (let (sc, alglist) = flattenSequencer t alglist
      in if sc \<noteq> SUCCESS then (sc, alglist) else flatten_members ts alglist)"

text \<open>The double loop that erases later copies.\<close>

function unique_first :: "'a list \<Rightarrow> 'a list" where
  "unique_first [] = []"
| "unique_first (x # xs) = x # unique_first (removeAll x xs)"
  by pat_completeness auto
termination
  by (relation "measure length") (auto simp: less_Suc_eq_le length_removeAll_less_eq)

text \<open>
  What \<open>decodeTopAlgs\<close> reads of an algorithm and of the configuration; \<open>cf_cloneOk\<close> says
  whether the clone with an index initialises.
\<close>

record pool_alg =
  pa_reEntrant :: bool
  pa_clonable :: bool
  pa_cardinality :: nat
  pa_resources :: "string list"

record pool_config =
  cf_lazy :: bool
  cf_overrideUnClonable :: bool
  cf_cloneOk :: "string \<Rightarrow> nat \<Rightarrow> bool"

definition allowed_instances :: "pool_config \<Rightarrow> pool_alg \<Rightarrow> nat" where
  "allowed_instances cf a =
     (if pa_reEntrant a then 1
      else if pa_clonable a then pa_cardinality a
      else if pa_cardinality a = 1 then 1
      else if \<not> cf_overrideUnClonable cf then 1 else pa_cardinality a)"

text \<open>The resources an algorithm needs, numbered as they turn up.\<close>

fun need_resources ::
  "string list \<Rightarrow> (string \<Rightarrow> nat option) \<times> nat \<times> bitset \<Rightarrow> (string \<Rightarrow> nat option) \<times> nat \<times> bitset"
where
  "need_resources [] s = s"
| "need_resources (r # rs) (indices, counter, requirements) =
     (let (indices, counter, i) =
            (case indices r of Some i \<Rightarrow> (indices, counter, i)
             | None \<Rightarrow> (indices(r \<mapsto> counter), Suc counter, counter))
      in need_resources rs (indices, counter, (resize counter requirements)[i := True]))"

definition clones :: "pool_config \<Rightarrow> string \<Rightarrow> pool_alg \<Rightarrow> alg_instance list" where
  "clones cf name a =
     (if cf_lazy cf then []
      else map (\<lambda>i. \<lparr>in_name = name, in_index = i, in_reEntrant = pa_reEntrant a\<rparr>)
             (filter (cf_cloneOk cf name) [1..<allowed_instances cf a]))"

definition setup_alg ::
  "hash_fun \<Rightarrow> pool_config \<Rightarrow> (string \<Rightarrow> pool_alg) \<Rightarrow> string \<Rightarrow> error_code \<times> nat \<times> pool \<Rightarrow> error_code \<times> nat \<times> pool"
where
  "setup_alg hash cf algs name = (\<lambda>(sc, counter, p).
     (let a = algs name;
          algo_id = hash name;
          (indices, counter, requirements) = need_resources (pa_resources a) (pl_indices p, counter, []);
          cs = clones cf name a
      in (if \<not> cf_lazy cf \<and> length cs < allowed_instances cf a - 1 then FAILURE else sc, counter,
          p\<lparr>pl_algqueue := (pl_algqueue p)(algo_id \<mapsto>
              \<lparr>in_name = name, in_index = 0, in_reEntrant = pa_reEntrant a\<rparr> # cs),
            pl_allowed := (pl_allowed p)(algo_id \<mapsto> allowed_instances cf a),
            pl_created := (pl_created p)(algo_id \<mapsto> 1 + length cs),
            pl_indices := indices,
            pl_requirements := (pl_requirements p)(algo_id \<mapsto> requirements)\<rparr>)))"

definition empty_pool :: "bool \<Rightarrow> pool" where
  "empty_pool countMisses =
     \<lparr>pl_available = [], pl_algqueue = (\<lambda>_. None), pl_requirements = (\<lambda>_. None), pl_allowed = (\<lambda>_. None),
      pl_created = (\<lambda>_. None), pl_indices = (\<lambda>_. None), pl_misses = (\<lambda>_. None), pl_countMisses = countMisses\<rparr>"

text \<open>The status of flattening is that of the last top algorithm.\<close>

definition flat_algs :: "alg_tree list \<Rightarrow> error_code \<times> string list" where
  "flat_algs topAlgs = fold (\<lambda>t (sc, l). flattenSequencer t l) topAlgs (SUCCESS, [])"

definition decodeTopAlgs ::
  "hash_fun \<Rightarrow> pool_config \<Rightarrow> bool \<Rightarrow> (string \<Rightarrow> pool_alg) \<Rightarrow> alg_tree list \<Rightarrow> error_code \<times> pool"
where
  "decodeTopAlgs hash cf countMisses algs topAlgs =
     (let (sc, alglist) = flat_algs topAlgs;
          (sc, counter, p) = fold (setup_alg hash cf algs) (unique_first alglist) (sc, 0, empty_pool countMisses)
      in (sc, p\<lparr>pl_requirements := (\<lambda>a. map_option (resize counter) (pl_requirements p a)),
                pl_available := replicate counter True\<rparr>))"

section \<open>The contract\<close>

text \<open>
  A client acquires by key, holds what it got, and gives it back. \<open>ok p held\<close> ties the pool to
  what is held.
\<close>

datatype 'k pool_op = Acquire 'k | Release nat

fun pool_client ::
  "('k \<Rightarrow> 'p \<Rightarrow> error_code \<times> 'i option \<times> 'p) \<Rightarrow> ('k \<Rightarrow> 'i \<Rightarrow> 'p \<Rightarrow> 'p) \<Rightarrow> 'k pool_op \<Rightarrow>
   'p \<times> ('k \<times> 'i) list \<Rightarrow> 'p \<times> ('k \<times> 'i) list"
where
  "pool_client acquire release (Acquire k) (p, held) =
     (case acquire k p of
        (sc, Some i, p) \<Rightarrow> (p, if sc = SUCCESS then (k, i) # held else held)
      | (sc, None, p) \<Rightarrow> (p, held))"
| "pool_client acquire release (Release j) (p, held) =
     (if j < length held
      then (release (fst (held ! j)) (snd (held ! j)) p, remove1 (held ! j) held)
      else (p, held))"

locale exclusive_pool =
  fixes ok :: "'p \<Rightarrow> ('k \<times> 'i) list \<Rightarrow> bool"
    and known :: "'p \<Rightarrow> 'k \<Rightarrow> bool"
    and acquire :: "'k \<Rightarrow> 'p \<Rightarrow> error_code \<times> 'i option \<times> 'p"
    and release :: "'k \<Rightarrow> 'i \<Rightarrow> 'p \<Rightarrow> 'p"
  assumes acquired: "ok p held \<Longrightarrow> acquire k p = (SUCCESS, x, p') \<Longrightarrow> \<exists>i. x = Some i \<and> ok p' ((k, i) # held)"
    and refused: "ok p held \<Longrightarrow> acquire k p = (sc, x, p') \<Longrightarrow> sc \<noteq> SUCCESS \<Longrightarrow> ok p' held"
    and released: "ok p held \<Longrightarrow> (k, i) \<in> set held \<Longrightarrow> ok (release k i p) (remove1 (k, i) held)"
    and stays_known: "known p m \<Longrightarrow> known (snd (snd (acquire k p))) m" "known p m \<Longrightarrow> known (release k i p) m"
    and idle_acquire: "ok p [] \<Longrightarrow> known p k \<Longrightarrow> fst (acquire k p) = SUCCESS"
begin

lemma client_ok: "ok p held \<Longrightarrow> pool_client acquire release op (p, held) = (p', held') \<Longrightarrow> ok p' held'"
proof (cases op)
  case (Acquire k)
  assume ok: "ok p held" and run: "pool_client acquire release op (p, held) = (p', held')"
  obtain sc x q where a: "acquire k p = (sc, x, q)" by (metis prod_cases3)
  show ?thesis
  proof (cases "sc = SUCCESS")
    case True
    with acquired [OF ok] a obtain i where "x = Some i" "ok q ((k, i) # held)" by blast
    with run a True Acquire show ?thesis by auto
  next
    case False
    from refused [OF ok a this] run a False Acquire show ?thesis by (auto split: option.splits)
  qed
next
  case (Release j)
  assume ok: "ok p held" and run: "pool_client acquire release op (p, held) = (p', held')"
  show ?thesis
  proof (cases "j < length held")
    case True
    have "(fst (held ! j), snd (held ! j)) \<in> set held" using True by simp
    from released [OF ok this] True run Release show ?thesis by auto
  qed (use ok run Release in auto)
qed

lemma clients_ok:
  "ok p held \<Longrightarrow> fold (pool_client acquire release) ops (p, held) = (p', held') \<Longrightarrow> ok p' held'"
proof (induction ops arbitrary: p held)
  case (Cons op ops)
  obtain q h where q: "pool_client acquire release op (p, held) = (q, h)" by fastforce
  from client_ok [OF Cons.prems(1) q] Cons.IH Cons.prems(2) q show ?case by simp
qed simp

lemma client_known: "known p m \<Longrightarrow> known (fst (pool_client acquire release op (p, held))) m"
proof (cases op)
  case (Acquire k)
  then show "known p m \<Longrightarrow> ?thesis" using stays_known(1) [of p m k] by (auto split: prod.splits option.splits)
qed (use stays_known(2) in auto)

lemma clients_known: "known p m \<Longrightarrow> known (fst (fold (pool_client acquire release) ops (p, held))) m"
proof (induction ops arbitrary: p held)
  case (Cons op ops)
  obtain q h where q: "pool_client acquire release op (p, held) = (q, h)" by fastforce
  then show ?case using Cons.IH [of q h] client_known [OF Cons.prems, of op held] by simp
qed simp

lemma all_back:
  assumes "ok p held" and "fold (pool_client acquire release) ops (p, held) = (p', [])" and "known p k"
  shows "fst (acquire k p') = SUCCESS"
  using idle_acquire [OF clients_ok [OF assms(1,2)]] clients_known [OF assms(3), of ops held] assms(2) by simp

end

section \<open>The pool provides it\<close>

text \<open>
  \<open>pool_ok\<close>, for the instances every algorithm has: each is in its queue or, unless it is
  reentrant, held; and each resource is available or taken by exactly one of the holders.
\<close>

definition taken :: "hash_fun \<Rightarrow> (string \<times> alg_instance) list \<Rightarrow> u64 \<Rightarrow> alg_instance list" where
  "taken hash held a = map snd (filter (\<lambda>(n, i). hash n = a \<and> \<not> in_reEntrant i) held)"

definition users :: "hash_fun \<Rightarrow> pool \<Rightarrow> (string \<times> alg_instance) list \<Rightarrow> nat \<Rightarrow> nat" where
  "users hash p held b = length (filter (\<lambda>(n, i). requirements_of p (hash n) ! b) held)"

definition pool_ok ::
  "hash_fun \<Rightarrow> (u64 \<Rightarrow> alg_instance list) \<Rightarrow> pool \<Rightarrow> (string \<times> alg_instance) list \<Rightarrow> bool"
where
  "pool_ok hash insts p held \<longleftrightarrow>
     (\<forall>a. pl_algqueue p a = None \<longleftrightarrow> insts a = []) \<and>
     (\<forall>a. mset (queue_of p a) + mset (taken hash held a) = mset (insts a)) \<and>
     (\<forall>a. insts a \<noteq> [] \<longrightarrow> length (requirements_of p a) = length (pl_available p)) \<and>
     (\<forall>b < length (pl_available p). (if pl_available p ! b then 1 else 0) + users hash p held b = 1) \<and>
     (\<forall>(n, i) \<in> set held. i \<in> set (insts (hash n)))"

lemma pool_okD:
  assumes "pool_ok hash insts p held"
  shows "pl_algqueue p a = None \<longleftrightarrow> insts a = []"
    "mset (queue_of p a) + mset (taken hash held a) = mset (insts a)"
    "insts a \<noteq> [] \<Longrightarrow> length (requirements_of p a) = length (pl_available p)"
    "b < length (pl_available p) \<Longrightarrow> (if pl_available p ! b then 1 else 0) + users hash p held b = 1"
    "(n, i) \<in> set held \<Longrightarrow> i \<in> set (insts (hash n))"
  using assms unfolding pool_ok_def by blast+

lemma queue_simps [simp]:
  "pl_available (set_queue a q p) = pl_available p" "pl_requirements (set_queue a q p) = pl_requirements p"
  "requirements_of (set_queue a q p) = requirements_of p"
  "queue_of (set_queue a q p) = (queue_of p)(a := q)"
  "pl_algqueue (set_queue a q p) = (pl_algqueue p)(a \<mapsto> q)"
  "queue_of (p\<lparr>pl_available := v\<rparr>) = queue_of p" "requirements_of (p\<lparr>pl_available := v\<rparr>) = requirements_of p"
  "pl_available (count_miss n p) = pl_available p" "pl_requirements (count_miss n p) = pl_requirements p"
  "pl_algqueue (count_miss n p) = pl_algqueue p" "requirements_of (count_miss n p) = requirements_of p"
  "queue_of (count_miss n p) = queue_of p"
  by (auto simp: set_queue_def requirements_of_def queue_of_def count_miss_def fun_eq_iff)

lemma subset_nth: "is_subset_of r v \<longleftrightarrow> length r = length v \<and> (\<forall>b < length v. r ! b \<longrightarrow> v ! b)"
  by (auto simp: is_subset_of_def list_all2_conv_all_nth)

lemma users_Cons: "users hash p ((n, i) # held) b = (if requirements_of p (hash n) ! b then 1 else 0) + users hash p held b"
  by (simp add: users_def)

lemma length_filter_remove1: "x \<in> set xs \<Longrightarrow> length (filter P xs) = (if P x then 1 else 0) + length (filter P (remove1 x xs))"
  by (induction xs) auto

lemma users_remove:
  "(n, i) \<in> set held \<Longrightarrow>
    users hash p held b = (if requirements_of p (hash n) ! b then 1 else 0) + users hash p (remove1 (n, i) held) b"
  unfolding users_def by (subst length_filter_remove1) auto

lemma taken_remove:
  "(n, i) \<in> set held \<Longrightarrow>
    mset (taken hash held a) = (if hash n = a \<and> \<not> in_reEntrant i then {#i#} else {#}) + mset (taken hash (remove1 (n, i) held) a)"
  by (induction held) (auto simp: taken_def)

lemma users_cong: "pl_requirements q = pl_requirements p \<Longrightarrow> users hash q held = users hash p held"
  by (simp add: users_def requirements_of_def fun_eq_iff)

lemma acquire_cases:
  assumes ok: "pool_ok hash insts p held" and run: "acquireAlgorithm hash n p = (sc, x, p')"
  obtains "sc = FAILURE" "x = None" "pl_algqueue p' = pl_algqueue p" "pl_available p' = pl_available p"
      "pl_requirements p' = pl_requirements p" "queue_of p (hash n) = []"
    | i q where "queue_of p (hash n) = i # q" "x = Some i" "sc = FAILURE"
      "\<not> is_subset_of (requirements_of p (hash n)) (pl_available p)"
      "pl_algqueue p' = (pl_algqueue p)(hash n \<mapsto> q @ [i])" "pl_available p' = pl_available p"
      "pl_requirements p' = pl_requirements p"
    | i q where "queue_of p (hash n) = i # q" "x = Some i" "sc = SUCCESS"
      "is_subset_of (requirements_of p (hash n)) (pl_available p)"
      "pl_algqueue p' = (pl_algqueue p)(hash n \<mapsto> (if in_reEntrant i then q @ [i] else q))"
      "pl_available p' = bits_xor (pl_available p) (requirements_of p (hash n))"
      "pl_requirements p' = pl_requirements p"
proof (cases "pl_algqueue p (hash n)")
  case None
  with run that(1) show ?thesis by (auto simp: acquireAlgorithm_def queue_of_def)
next
  case (Some l)
  show ?thesis
  proof (cases l)
    case Nil
    with run Some that(1) show ?thesis by (auto simp: acquireAlgorithm_def queue_of_def)
  next
    case (Cons i q)
    with Some have "queue_of p (hash n) = i # q" by (simp add: queue_of_def)
    with run Some Cons that(2,3) show ?thesis
      by (cases "is_subset_of (requirements_of p (hash n)) (pl_available p)"; cases "in_reEntrant i")
        (auto simp: acquireAlgorithm_def Let_def)
  qed
qed

lemma queue_of_eq: "pl_algqueue q = pl_algqueue p \<Longrightarrow> queue_of q = queue_of p"
  by (simp add: queue_of_def fun_eq_iff)

lemma requirements_eq: "pl_requirements q = pl_requirements p \<Longrightarrow> requirements_of q = requirements_of p"
  by (simp add: requirements_of_def fun_eq_iff)

lemma acquire_refused:
  assumes ok: "pool_ok hash insts p held" and run: "acquireAlgorithm hash n p = (sc, x, p')" and sc: "sc \<noteq> SUCCESS"
  shows "pool_ok hash insts p' held"
  using ok run
proof (cases rule: acquire_cases)
  case 1
  then show ?thesis using ok
    by (simp add: pool_ok_def queue_of_eq [OF 1(3)] requirements_eq [OF 1(5)] users_cong [OF 1(5)])
next
  case (2 i q)
  have q: "queue_of p' = (queue_of p)(hash n := q @ [i])"
    using 2(5) by (simp add: queue_of_def fun_eq_iff)
  have "insts (hash n) \<noteq> []" using pool_okD(2) [OF ok, of "hash n"] 2(1) by auto
  with ok 2(1,5,6) show ?thesis
    unfolding pool_ok_def requirements_eq [OF 2(7)] users_cong [OF 2(7)] q
    by (auto simp: 2(6)) (metis add.commute mset.simps(2) union_mset_add_mset_left)+
qed (use sc in simp)

lemma acquire_granted:
  assumes ok: "pool_ok hash insts p held" and run: "acquireAlgorithm hash n p = (SUCCESS, x, p')"
  shows "\<exists>i. x = Some i \<and> pool_ok hash insts p' ((n, i) # held)"
  using ok run
proof (cases rule: acquire_cases)
  case (3 i q)
  have q: "queue_of p' = (queue_of p)(hash n := (if in_reEntrant i then q @ [i] else q))"
    using 3(5) by (simp add: queue_of_def fun_eq_iff)
  note m = pool_okD(2) [OF ok, of "hash n"]
  have mem: "i \<in> set (insts (hash n))" using arg_cong [OF m, of set_mset] 3(1) by auto
  then have tot: "insts (hash n) \<noteq> []" by auto
  note len = pool_okD(3) [OF ok tot]
  have sub: "requirements_of p (hash n) ! b \<Longrightarrow> pl_available p ! b" if "b < length (pl_available p)" for b
    using 3(4) that by (simp add: subset_nth)
  have "pool_ok hash insts p' ((n, i) # held)"
    unfolding pool_ok_def requirements_eq [OF 3(7)] users_Cons users_cong [OF 3(7)] q
  proof (intro conjI allI impI)
    fix a
    show "pl_algqueue p' a = None \<longleftrightarrow> insts a = []" using pool_okD(1) [OF ok, of a] tot by (simp add: 3(5))
    show "mset (((queue_of p)(hash n := (if in_reEntrant i then q @ [i] else q))) a) + mset (taken hash ((n, i) # held) a) = mset (insts a)"
      using pool_okD(2) [OF ok, of a] 3(1) by (auto simp: taken_def)
    show "length (requirements_of p a) = length (pl_available p')" if "insts a \<noteq> []"
      using pool_okD(3) [OF ok that] len by (simp add: 3(6) bits_xor_def)
  next
    fix b assume "b < length (pl_available p')"
    then have b: "b < length (pl_available p)" using len by (simp add: 3(6) bits_xor_def)
    then have "pl_available p' ! b = (pl_available p ! b \<noteq> requirements_of p (hash n) ! b)"
      using len by (simp add: 3(6) bits_xor_def)
    with sub [OF b] pool_okD(4) [OF ok b]
    show "(if pl_available p' ! b then 1 else 0)
        + ((if requirements_of p (hash n) ! b then 1 else 0) + users hash p held b) = 1"
      by (auto split: if_splits)
  next
    show "\<forall>(n, i)\<in>set ((n, i) # held). i \<in> set (insts (hash n))" using pool_okD(5) [OF ok] mem by auto
  qed
  with 3(2) show ?thesis by blast
qed simp_all

lemma release_ok:
  assumes ok: "pool_ok hash insts p held" and m: "(n, i) \<in> set held"
  shows "pool_ok hash insts (releaseAlgorithm hash n i p) (remove1 (n, i) held)"
proof -
  let ?p = "releaseAlgorithm hash n i p" and ?r = "requirements_of p (hash n)"
  have f: "pl_available ?p = bits_or (pl_available p) ?r" "pl_requirements ?p = pl_requirements p"
    "pl_algqueue ?p = (if in_reEntrant i then pl_algqueue p else (pl_algqueue p)(hash n \<mapsto> queue_of p (hash n) @ [i]))"
    by (simp_all add: releaseAlgorithm_def Let_def)
  have q: "queue_of ?p = (queue_of p)(hash n := queue_of p (hash n) @ (if in_reEntrant i then [] else [i]))"
    using f(3) by (auto simp: queue_of_def fun_eq_iff)
  note mem = pool_okD(5) [OF ok m]
  then have tot: "insts (hash n) \<noteq> []" by auto
  note len = pool_okD(3) [OF ok tot]
  show ?thesis
    unfolding pool_ok_def requirements_eq [OF f(2)] users_cong [OF f(2)] q
  proof (intro conjI allI impI)
    fix a
    show "pl_algqueue ?p a = None \<longleftrightarrow> insts a = []" using pool_okD(1) [OF ok, of a] tot by (simp add: f(3))
    show "mset (((queue_of p)(hash n := queue_of p (hash n) @ (if in_reEntrant i then [] else [i]))) a)
        + mset (taken hash (remove1 (n, i) held) a) = mset (insts a)"
      using pool_okD(2) [OF ok, of a] taken_remove [OF m, of hash a] by (auto split: if_splits)
    show "length (requirements_of p a) = length (pl_available ?p)" if "insts a \<noteq> []"
      using pool_okD(3) [OF ok that] len by (simp add: f(1) bits_or_def)
  next
    fix b assume "b < length (pl_available ?p)"
    then have b: "b < length (pl_available p)" using len by (simp add: f(1) bits_or_def)
    then have "pl_available ?p ! b = (pl_available p ! b \<or> ?r ! b)" using len by (simp add: f(1) bits_or_def)
    with pool_okD(4) [OF ok b] users_remove [OF m, of hash p b]
    show "(if pl_available ?p ! b then 1 else 0) + users hash p (remove1 (n, i) held) b = 1"
      by (auto split: if_splits)
  next
    show "\<forall>(n, i)\<in>set (remove1 (n, i) held). i \<in> set (insts (hash n))"
      using pool_okD(5) [OF ok] set_remove1_subset [of "(n, i)" held] by blast
  qed
qed

definition pool_known :: "hash_fun \<Rightarrow> pool \<Rightarrow> string \<Rightarrow> bool" where
  "pool_known hash p n \<longleftrightarrow> pl_algqueue p (hash n) \<noteq> None"

lemma idle_grants:
  assumes ok: "pool_ok hash insts p []" and k: "pool_known hash p n"
  shows "fst (acquireAlgorithm hash n p) = SUCCESS"
proof -
  obtain sc x p' where a: "acquireAlgorithm hash n p = (sc, x, p')" by (metis prod_cases3)
  have tot: "insts (hash n) \<noteq> []" using pool_okD(1) [OF ok, of "hash n"] k by (simp add: pool_known_def)
  have "queue_of p (hash n) \<noteq> []" using pool_okD(2) [OF ok, of "hash n"] tot by (auto simp: taken_def)
  moreover have "pl_available p ! b" if "b < length (pl_available p)" for b
    using pool_okD(4) [OF ok that] by (simp add: users_def split: if_splits)
  then have "is_subset_of (requirements_of p (hash n)) (pl_available p)"
    using pool_okD(3) [OF ok tot] by (simp add: subset_nth)
  ultimately show ?thesis using acquire_cases [OF ok a] a by auto
qed

lemma known_kept:
  "pool_known hash p m \<Longrightarrow> pool_known hash (snd (snd (acquireAlgorithm hash n p))) m"
  "pool_known hash p m \<Longrightarrow> pool_known hash (releaseAlgorithm hash n i p) m"
  by (auto simp: pool_known_def acquireAlgorithm_def releaseAlgorithm_def Let_def split: option.splits list.splits)

interpretation alg_pool: exclusive_pool "pool_ok hash insts" "pool_known hash" "acquireAlgorithm hash" "releaseAlgorithm hash"
  by unfold_locales (blast intro: acquire_granted acquire_refused release_ok idle_grants known_kept)+

section \<open>A fresh pool\<close>

lemma length_resize [simp]: "length (resize n b) = n"
  by (simp add: resize_def)

lemma unique_first_set [simp]: "set (unique_first xs) = set xs"
  by (induction xs rule: unique_first.induct) auto

lemma unique_first_distinct: "distinct (unique_first xs)"
  by (induction xs rule: unique_first.induct) auto

text \<open>Every queue belongs to one name, its instances differ, and its requirements are known.\<close>

definition set_up :: "hash_fun \<Rightarrow> pool \<Rightarrow> bool" where
  "set_up hash p \<longleftrightarrow>
     (\<forall>a q. pl_algqueue p a = Some q \<longrightarrow>
        q \<noteq> [] \<and> distinct q \<and> (\<forall>i \<in> set q. hash (in_name i) = a) \<and> pl_requirements p a \<noteq> None)"

lemma set_up_queue:
  assumes "set_up hash p"
  shows "distinct (queue_of p a)" "i \<in> set (queue_of p a) \<Longrightarrow> hash (in_name i) = a"
  using assms unfolding set_up_def queue_of_def by (cases "pl_algqueue p a"; simp)+

lemma clones_distinct: "distinct (clones cf n a)"
  by (auto simp: clones_def distinct_map inj_on_def)

lemma setup_alg_set_up:
  assumes "set_up hash (snd (snd s))"
  shows "set_up hash (snd (snd (setup_alg hash cf algs n s)))"
    and "pool_known hash (snd (snd (setup_alg hash cf algs n s))) m \<longleftrightarrow> pool_known hash (snd (snd s)) m \<or> hash m = hash n"
  using assms clones_distinct [of cf n "algs n"]
  by (auto simp: setup_alg_def set_up_def pool_known_def Let_def clones_def split: prod.splits if_splits)

lemma setup_algs_set_up:
  "set_up hash (snd (snd s)) \<Longrightarrow>
    set_up hash (snd (snd (fold (setup_alg hash cf algs) ns s))) \<and>
    (pool_known hash (snd (snd (fold (setup_alg hash cf algs) ns s))) m \<longleftrightarrow>
     pool_known hash (snd (snd s)) m \<or> hash m \<in> hash ` set ns)"
  by (induction ns arbitrary: s) (auto simp: setup_alg_set_up)

lemma decoded_pool:
  assumes "decodeTopAlgs hash cf cm algs tops = (sc, p)"
  shows "set_up hash p" and "pool_ok hash (queue_of p) p []"
    and "n \<in> set (snd (flat_algs tops)) \<Longrightarrow> pool_known hash p n"
proof -
  obtain sc1 l where l: "flat_algs tops = (sc1, l)" by fastforce
  obtain sc2 c q where q: "fold (setup_alg hash cf algs) (unique_first l) (sc1, 0, empty_pool cm) = (sc2, c, q)"
    by (metis prod_cases3)
  have p: "p = q\<lparr>pl_requirements := (\<lambda>a. map_option (resize c) (pl_requirements q a)), pl_available := replicate c True\<rparr>"
    using assms by (simp add: decodeTopAlgs_def l q)
  have e: "set_up hash (empty_pool cm)" by (simp add: set_up_def empty_pool_def)
  have s: "set_up hash q" "\<And>m. pool_known hash q m \<longleftrightarrow> pool_known hash (empty_pool cm) m \<or> hash m \<in> hash ` set l"
    using setup_algs_set_up [of hash "(sc1, 0, empty_pool cm)" cf algs "unique_first l"] e q by auto
  show "set_up hash p" using s(1) by (simp add: p set_up_def)
  show "n \<in> set (snd (flat_algs tops)) \<Longrightarrow> pool_known hash p n"
    using s(2) [of n] by (simp add: p l pool_known_def)
  show "pool_ok hash (queue_of p) p []"
    using s(1) by (auto simp: p pool_ok_def set_up_def queue_of_def requirements_of_def taken_def users_def split: option.splits)
      (metis option.simps(3))+
qed

lemma held_distinct:
  assumes ok: "pool_ok hash insts p held"
    and one: "\<And>a. distinct (insts a)" "\<And>a i. i \<in> set (insts a) \<Longrightarrow> hash (in_name i) = a"
  shows "distinct (filter (\<lambda>i. \<not> in_reEntrant i) (map snd held))"
proof (unfold distinct_count_atmost_1, intro allI)
  fix i
  let ?f = "filter (\<lambda>i. \<not> in_reEntrant i) (map snd held)"
  have own: "hash n = hash (in_name j)" if "(n, j) \<in> set held" for n j
    using one(2) [OF pool_okD(5) [OF ok that]] by simp
  have c: "count (mset (taken hash held (hash (in_name i)))) i = count (mset ?f) i"
    using own by (induction held) (auto simp: taken_def)
  have "count (mset (taken hash held (hash (in_name i)))) i \<le> count (mset (insts (hash (in_name i)))) i"
    by (metis pool_okD(2) [OF ok] count_union le_add2)
  also have "\<dots> \<le> 1" using one(1) by (simp add: distinct_count_atmost_1)
  finally have "count (mset ?f) i \<le> 1" using c by simp
  then show "count (mset ?f) i = (if i \<in> set ?f then 1 else 0)"
    by (metis One_nat_def count_mset_0_iff le_0_eq le_SucE)
qed

section \<open>Every run of a client\<close>

text \<open>
  C18. A client that acquires and releases algorithms of a freshly decoded pool, in any order, never
  shares what is exclusive: of every resource that exists at most one of the algorithms it holds
  needs it, and none while the resource counts as available; and no instance of an algorithm
  that is not reentrant is held twice. This rests on the refused calls giving everything back,
  and holds although the code keys its tables by a hash that may collide.
\<close>

theorem pool_exclusive:
  assumes "decodeTopAlgs hash cf cm algs tops = (sc, p)"
    and "fold (pool_client (acquireAlgorithm hash) (releaseAlgorithm hash)) ops (p, []) = (p', held)"
  shows "(\<forall>b < length (pl_available p').
      length (filter (\<lambda>(n, i). requirements_of p' (hash n) ! b) held) = (if pl_available p' ! b then 0 else 1))
    \<and> distinct (filter (\<lambda>i. \<not> in_reEntrant i) (map snd held))"
proof (intro conjI allI impI)
  note d = decoded_pool(1,2) [OF assms(1)]
  have ok: "pool_ok hash (queue_of p) p' held" using alg_pool.clients_ok [OF d(2) assms(2)] .
  show "length (filter (\<lambda>(n, i). requirements_of p' (hash n) ! b) held) = (if pl_available p' ! b then 0 else 1)"
    if "b < length (pl_available p')" for b
    using pool_okD(4) [OF ok that] by (simp add: users_def split: if_splits)
  show "distinct (filter (\<lambda>i. \<not> in_reEntrant i) (map snd held))"
    by (rule held_distinct [OF ok]) (rule set_up_queue [OF d(1)], erule set_up_queue [OF d(1)])
qed

text \<open>
  C19. Once a client has given everything back, every algorithm the pool was filled with can be
  acquired again at the first attempt, whatever was acquired, refused and released before: no
  instance and no resource is lost.
\<close>

theorem pool_serves_again:
  assumes "decodeTopAlgs hash cf cm algs tops = (sc, p)"
    and "fold (pool_client (acquireAlgorithm hash) (releaseAlgorithm hash)) ops (p, []) = (p', [])"
    and "name \<in> set (snd (flat_algs tops))"
  shows "fst (acquireAlgorithm hash name p') = SUCCESS
    \<and> acquireAlgorithm_blocking hash name p' = Some (acquireAlgorithm hash name p')"
proof

  note d = decoded_pool [OF assms(1)]
  have k: "pool_known hash p name" using d(3) [OF assms(3)] .
  show s: "fst (acquireAlgorithm hash name p') = SUCCESS"
    using alg_pool.all_back [OF d(2) assms(2) k] .
  then have "pl_algqueue p' (hash name) \<noteq> Some []" by (auto simp: acquireAlgorithm_def)
  then show "acquireAlgorithm_blocking hash name p' = Some (acquireAlgorithm hash name p')" by (simp add: acquireAlgorithm_blocking_def)
qed

text \<open>Two writers that share a resource, and one clonable algorithm; names hash to their length.\<close>

definition demo_hash :: hash_fun where
  "demo_hash s = of_nat (length s)"

definition demo_pool_config :: pool_config where
  "demo_pool_config = \<lparr>cf_lazy = False, cf_overrideUnClonable = False, cf_cloneOk = (\<lambda>_ _. True)\<rparr>"

definition demo_pool_algs :: "string \<Rightarrow> pool_alg" where
  "demo_pool_algs n =
     \<lparr>pa_reEntrant = False, pa_clonable = n = ''C'', pa_cardinality = (if n = ''C'' then 2 else 1),
      pa_resources = (if n = ''C'' then [] else [''file''])\<rparr>"

definition demo_leaf :: "string \<Rightarrow> alg_tree" where
  "demo_leaf n = Leaf_alg
     \<lparr>ga_name = n, ga_isBlocking = False, ga_inputs = [], ga_outputs = [], ga_cardinality = 1, ga_isClonable = False\<rparr>"

definition demo_tops :: "alg_tree list" where
  "demo_tops = [Seq_alg ''S'' [] True [demo_leaf ''W1'', demo_leaf ''W22''], demo_leaf ''C'', demo_leaf ''W1'']"

definition demo_decoded :: "error_code \<times> pool" where
  "demo_decoded = decodeTopAlgs demo_hash demo_pool_config False demo_pool_algs demo_tops"

definition demo_client :: "string pool_op list \<Rightarrow> pool \<times> (string \<times> alg_instance) list" where
  "demo_client ops = fold (pool_client (acquireAlgorithm demo_hash) (releaseAlgorithm demo_hash)) ops (snd demo_decoded, [])"

definition demo_pool_ops :: "string pool_op list" where
  "demo_pool_ops = [Acquire ''W1'', Acquire ''W22'', Acquire ''C'', Acquire ''C'', Acquire ''C'']"

lemma pool_exclusive_witness:
  "(\<lambda>(p, held). map (\<lambda>(n, i). (n, in_index i)) held = [(''C'', 1), (''C'', 0), (''W1'', 0)] \<and> pl_available p = [False]
      \<and> length (filter (\<lambda>(n, i). requirements_of p (demo_hash n) ! 0) held) = 1
      \<and> distinct (filter (\<lambda>i. \<not> in_reEntrant i) (map snd held))) (demo_client demo_pool_ops)"
proof -
  obtain p held where r: "demo_client demo_pool_ops = (p, held)" by fastforce
  have "map (\<lambda>(n, i). (n, in_index i)) (snd (demo_client demo_pool_ops)) = [(''C'', 1), (''C'', 0), (''W1'', 0)]"
    "pl_available (fst (demo_client demo_pool_ops)) = [False]"
    by code_simp+
  with pool_exclusive [OF _ r [unfolded demo_client_def], of demo_pool_config False demo_pool_algs demo_tops "fst demo_decoded"] r
  show ?thesis by (simp add: demo_decoded_def)
qed

lemma pool_serves_again_witness:
  "snd (demo_client (demo_pool_ops @ [Release 2, Release 0, Release 0])) = []
    \<and> fst (acquireAlgorithm demo_hash ''W22'' (fst (demo_client (demo_pool_ops @ [Release 2, Release 0, Release 0])))) = SUCCESS"
proof -
  let ?ops = "demo_pool_ops @ [Release 2, Release 0, Release 0]"
  have h: "snd (demo_client ?ops) = []" by code_simp
  then obtain p where r: "demo_client ?ops = (p, [])" by (metis prod.collapse)
  have "''W22'' \<in> set (snd (flat_algs demo_tops))" by (simp add: flat_algs_def demo_tops_def demo_leaf_def)
  with pool_serves_again [OF _ r [unfolded demo_client_def], of demo_pool_config False demo_pool_algs demo_tops "fst demo_decoded"] h r
  show ?thesis by (simp add: demo_decoded_def)
qed

end
