(* ===== verification/Scheduler.thy ===== *)
theory Scheduler
  imports Exec_State_Svc Resource_Pool Promoter_Runs
begin

text \<open>
  \<open>AvalancheSchedulerSvc\<close> (GaudiHive/src/AvalancheSchedulerSvc.h, .cpp) and \<open>AlgTask\<close>
  (GaudiHive/src/AlgTask.h): events are pushed into slots, the precedence rules promote their
  algorithms, the scheduler acquires instances and enqueues tasks, tasks run in other threads and
  queue their sign-off as an action for the scheduler. The state of all threads is one record
  and every operation a function on it; None stands for a run that ends in an uncaught
  exception, a null pointer, an index out of range or a visitor that does not return. Messages,
  dumps and the snapshots of the occupancy are left out.
\<close>

section \<open>State\<close>

record task_spec =
  ts_algPtr :: "alg_instance option"
  ts_algIndex :: nat
  ts_algName :: string
  ts_algRank :: u32
  ts_blocking :: bool
  ts_slotIndex :: nat
  ts_contextPtr :: event_context

definition task_default :: task_spec where
  "task_default = \<lparr>ts_algPtr = None, ts_algIndex = 0, ts_algName = '''', ts_algRank = 0, ts_blocking = False,
     ts_slotIndex = 0, ts_contextPtr = ctx_default\<rparr>"

datatype activation = INACTIVE | ACTIVE | ACT_FAILURE

text \<open>The closures of the queue of actions; the last is the one of \<open>deactivate\<close>.\<close>

datatype sched_action =
    New_event event_context
  | Signoff task_spec
  | View_action nat "event_context option" string
  | Flip_inactive

text \<open>
  \<open>sd_waiting\<close>: the tasks in the arena (and their own threads, for blocking ones) that have not
  asked for their specification; \<open>sd_running\<close>: the specifications of those that have.
\<close>

record sched =
  sd_slots :: "event_slot list"
  sd_freeSlots :: int
  sd_finished :: "event_context list"
  sd_isActive :: activation
  sd_actions :: "sched_action list"
  sd_algosInFlight :: u32
  sd_blockingInFlight :: u32
  sd_scheduled :: "task_spec list"
  sd_scheduledBlocking :: "task_spec list"
  sd_retry :: "task_spec list"
  sd_needsUpdate :: bool
  sd_pool :: pool
  sd_exec :: exec_svc
  sd_trace :: prec_trace
  sd_waiting :: "bool list"
  sd_running :: "task_spec list"

text \<open>
  The properties of the service, the other services and the graph. \<open>cg_height\<close> is the height of
  the graph, from which the fuel of a visit is computed; \<open>cg_inlineBody\<close> is what algorithms do
  that run in the thread of the scheduler.
\<close>

record sched_config =
  cg_graph :: rules_graph
  cg_cond :: cond_svc
  cg_traced :: bool
  cg_scoutFuel :: nat
  cg_height :: nat
  cg_algname_vect :: "string list"
  cg_threadPoolSize :: int
  cg_maxBlocking :: u32
  cg_preemptive :: bool
  cg_optimized :: bool
  cg_maxEvents :: nat
  cg_hash :: hash_fun
  cg_execs :: exec_config
  cg_exceptions :: exception_svc
  cg_algs :: "string \<Rightarrow> alg_config"
  cg_inlineBody :: "task_spec \<Rightarrow> alg_body"

section \<open>The services the scheduler calls\<close>

definition task_cause :: "string \<Rightarrow> cause" where
  "task_cause n = \<lparr>c_source = Task, c_sourceName = n\<rparr>"

definition prec_env :: "sched_config \<Rightarrow> cause \<Rightarrow> venv" where
  "prec_env cfg cs = \<lparr>e_graph = cg_graph cfg, e_cond = cg_cond cfg, e_cause = cs, e_trace = cg_traced cfg,
     e_scoutFuel = cg_scoutFuel cfg\<rparr>"

text \<open>\<open>m_precSvc->iterate\<close> on a slot; the trace is the service's.\<close>

definition prec_iterate ::
  "sched_config \<Rightarrow> nat \<Rightarrow> slot_ref \<Rightarrow> cause \<Rightarrow> sched \<Rightarrow> (error_code \<times> sched) option"
where
  "prec_iterate cfg i r cs s =
     map_option
       (\<lambda>(sc, v). (sc, s\<lparr>sd_slots := (sd_slots s)[i := v_ev v], sd_trace := v_trace v\<rparr>))
       (iterate (visit_fuel (cg_graph cfg) (sd_slots s ! i) (cg_height cfg)) (prec_env cfg cs) r
          \<lparr>v_ev = sd_slots s ! i, v_trace = sd_trace s\<rparr>)"

definition getPriority :: "sched_config \<Rightarrow> string \<Rightarrow> u32 option" where
  "getPriority cfg name = map_option (\<lambda>a. word_of_int (an_rank a)) (alg_node (cg_graph cfg) name)"

definition prec_isBlocking :: "sched_config \<Rightarrow> string \<Rightarrow> bool option" where
  "prec_isBlocking cfg name = map_option an_isBlocking (alg_node (cg_graph cfg) name)"

definition index2algname :: "sched_config \<Rightarrow> nat \<Rightarrow> string" where
  "index2algname cfg i = cg_algname_vect cfg ! i"

text \<open>A call of the execution state service: an exception ends the thread.\<close>

definition with_exec :: "(exec_svc \<Rightarrow> exec_error + exec_svc) \<Rightarrow> sched \<Rightarrow> sched option" where
  "with_exec f s = (case f (sd_exec s) of Inl e \<Rightarrow> None | Inr x \<Rightarrow> Some (s\<lparr>sd_exec := x\<rparr>))"

section \<open>Running a task\<close>

text \<open>
  \<open>next\<close>: the priority queues give some specification of the highest rank; which one among
  equals is not specified, so \<open>k\<close> chooses.
\<close>

definition top_ranked :: "task_spec list \<Rightarrow> task_spec list" where
  "top_ranked q = filter (\<lambda>t. list_all (\<lambda>u. ts_algRank u \<le> ts_algRank t) q) q"

definition try_pop :: "nat \<Rightarrow> task_spec list \<Rightarrow> (task_spec \<times> task_spec list) option" where
  "try_pop k q =
     (if q = [] then None
      else let best = top_ranked q; t = best ! (k mod length best) in Some (t, remove1 t q))"

definition next_task :: "nat \<Rightarrow> bool \<Rightarrow> sched \<Rightarrow> (task_spec \<times> sched) option" where
  "next_task k blocking s =
     (if blocking
      then map_option (\<lambda>(t, q). (t, s\<lparr>sd_scheduledBlocking := q\<rparr>)) (try_pop k (sd_scheduledBlocking s))
      else map_option (\<lambda>(t, q). (t, s\<lparr>sd_scheduled := q\<rparr>)) (try_pop k (sd_scheduled s)))"

text \<open>
  The rest of \<open>AlgTask::operator()\<close>, once the task has its specification: \<open>sysExecute\<close>, with
  whatever it throws caught, the status of the event, the release of the instance, and the
  sign-off as an action.
\<close>

definition task_body :: "sched_config \<Rightarrow> task_spec \<Rightarrow> alg_body \<Rightarrow> sched \<Rightarrow> sched option" where
  "task_body cfg ts body s =
     (case ts_algPtr ts of
        None \<Rightarrow> None
      | Some algPtr \<Rightarrow>
          (let (eventfailed, s) =
                 (case sysExecute (cg_execs cfg) (cg_exceptions cfg) (cg_algs cfg (ts_algName ts)) (ts_algName ts)
                         (ts_contextPtr ts) body (sd_exec s) of
                    Inl e \<Rightarrow> (True, s)
                  | Inr (None, x) \<Rightarrow> (True, s\<lparr>sd_exec := x\<rparr>)
                  | Inr (Some sc, x) \<Rightarrow> (\<not> status_success sc, s\<lparr>sd_exec := x\<rparr>))
           in Option.bind (with_exec (updateEventStatus (cg_execs cfg) eventfailed (ts_contextPtr ts)) s)
                (\<lambda>s. Some (s\<lparr>sd_pool := releaseAlgorithm (cg_hash cfg) (ts_algName ts) algPtr (sd_pool s),
                             sd_actions := sd_actions s @ [Signoff ts]\<rparr>))))"

text \<open>The whole of it, in one go; without a specification there is a warning only.\<close>

definition run_task :: "sched_config \<Rightarrow> nat \<Rightarrow> bool \<Rightarrow> sched \<Rightarrow> sched option" where
  "run_task cfg k blocking s =
     (case next_task k blocking s of
        None \<Rightarrow> Some s
      | Some (ts, s) \<Rightarrow> task_body cfg ts (cg_inlineBody cfg ts) s)"

section \<open>Scheduling\<close>

definition context_ref :: "event_context \<Rightarrow> slot_ref" where
  "context_ref c = (if usesSubSlot c then Sub (sub_index c) else Top)"

definition revise ::
  "sched_config \<Rightarrow> nat \<Rightarrow> event_context \<Rightarrow> exec_state \<Rightarrow> bool \<Rightarrow> sched \<Rightarrow> (error_code \<times> sched) option"
where
  "revise cfg iAlgo ctx state iter s =
     (let slotIndex = slot_index ctx; r = context_ref ctx
      in if slotIndex \<ge> length (sd_slots s) \<or> \<not> ref_ok (sd_slots s ! slotIndex) r then None
         else
           (let slot = sd_slots s ! slotIndex;
                sc = fst (set_state iAlgo state (algsStates (slot_at slot r)));
                s = s\<lparr>sd_slots := (sd_slots s)[slotIndex := set_alg_state r iAlgo state slot]\<rparr>
            in if sc = SUCCESS \<and> iter
               then prec_iterate cfg slotIndex r (task_cause (index2algname cfg iAlgo)) s
               else Some (sc, s)))"

text \<open>What \<open>acquireAlgorithm\<close> leaves in the pointer it is given.\<close>

definition acquired_ptr :: "sched_config \<Rightarrow> task_spec \<Rightarrow> sched \<Rightarrow> alg_instance option \<Rightarrow> alg_instance option" where
  "acquired_ptr cfg ts s x =
     (case x of
        Some i \<Rightarrow> Some i
      | None \<Rightarrow> if pl_algqueue (sd_pool s) (cg_hash cfg (ts_algName ts)) = None then None else ts_algPtr ts)"

definition schedule :: "sched_config \<Rightarrow> task_spec \<Rightarrow> sched \<Rightarrow> (error_code \<times> sched) option" where
  "schedule cfg ts s =
     (if ts_blocking ts \<and> sd_blockingInFlight s = cg_maxBlocking cfg
      then Some (SUCCESS, s\<lparr>sd_retry := sd_retry s @ [ts]\<rparr>)
      else
        (let (getAlgSC, x, p) = acquireAlgorithm (cg_hash cfg) (ts_algName ts) (sd_pool s);
             ts = ts\<lparr>ts_algPtr := acquired_ptr cfg ts s x\<rparr>;
             s = s\<lparr>sd_pool := p\<rparr>
         in if getAlgSC = SUCCESS
            then if cg_threadPoolSize cfg \<noteq> - 100
                 then revise cfg (ts_algIndex ts) (ts_contextPtr ts) SCHEDULED False
                        (if \<not> ts_blocking ts
                         then s\<lparr>sd_scheduled := sd_scheduled s @ [ts], sd_waiting := sd_waiting s @ [False],
                                sd_algosInFlight := sd_algosInFlight s + 1\<rparr>
                         else s\<lparr>sd_scheduledBlocking := sd_scheduledBlocking s @ [ts],
                                sd_blockingInFlight := sd_blockingInFlight s + 1,
                                sd_waiting := sd_waiting s @ [True]\<rparr>)
                 else Option.bind
                        (revise cfg (ts_algIndex ts) (ts_contextPtr ts) SCHEDULED False
                           (s\<lparr>sd_algosInFlight := sd_algosInFlight s + 1\<rparr>))
                        (\<lambda>(sc, s). map_option (\<lambda>s. (sc, s\<lparr>sd_algosInFlight := sd_algosInFlight s - 1\<rparr>))
                           (run_task cfg 0 False s))
            else map_option (\<lambda>(sc, s). (sc, s\<lparr>sd_retry := sd_retry s @ [ts]\<rparr>))
                   (revise cfg (ts_algIndex ts) (ts_contextPtr ts) RESOURCELESS False s)))"

section \<open>Updating the slots\<close>

definition subSlotAlgsInStates :: "event_slot \<Rightarrow> exec_state list \<Rightarrow> bool" where
  "subSlotAlgsInStates slot testStates \<longleftrightarrow> list_ex (\<lambda>ss. containsAny (algsStates ss) testStates) (allSubSlots slot)"

definition isStalled :: "event_slot \<Rightarrow> bool" where
  "isStalled slot \<longleftrightarrow>
     \<not> containsAny (algsStates (topSlot slot)) [DATAREADY, SCHEDULED, RESOURCELESS] \<and>
     \<not> subSlotAlgsInStates slot [DATAREADY, SCHEDULED, RESOURCELESS]"

definition eventFailed :: "event_context \<Rightarrow> sched \<Rightarrow> sched option" where
  "eventFailed ctx s =
     (let i = slot_index ctx
      in if i \<ge> length (sd_slots s) then None
         else
           (let slot = sd_slots s ! i
            in map_option
                 (\<lambda>c. s\<lparr>sd_finished := sd_finished s @ [c],
                        sd_slots := (sd_slots s)[i := slot\<lparr>topSlot := (topSlot slot)\<lparr>complete := True, eventContext := None\<rparr>\<rparr>]\<rparr>)
                 (eventContext (topSlot slot))))"

text \<open>The loops over the algorithms that are data-ready, on a copy of the set.\<close>

definition schedule_alg :: "sched_config \<Rightarrow> nat \<Rightarrow> event_context \<Rightarrow> nat \<Rightarrow> sched \<Rightarrow> sched option" where
  "schedule_alg cfg iSlot ctx algIndex s =
     (let algName = index2algname cfg algIndex
      in Option.bind (if cg_optimized cfg then getPriority cfg algName else Some 0) (\<lambda>rank.
         Option.bind (if cg_preemptive cfg then prec_isBlocking cfg algName else Some False) (\<lambda>blocking.
         map_option snd
           (schedule cfg \<lparr>ts_algPtr = None, ts_algIndex = algIndex, ts_algName = algName, ts_algRank = rank,
              ts_blocking = blocking, ts_slotIndex = iSlot, ts_contextPtr = ctx\<rparr> s))))"

definition schedule_ready :: "sched_config \<Rightarrow> nat \<Rightarrow> event_context \<Rightarrow> slot_frame \<Rightarrow> sched \<Rightarrow> sched option" where
  "schedule_ready cfg iSlot ctx frame s =
     loop_all (schedule_alg cfg iSlot ctx) (algsInState (algsStates frame) DATAREADY) s"

definition schedule_view :: "sched_config \<Rightarrow> nat \<Rightarrow> nat \<Rightarrow> nat \<Rightarrow> sched \<Rightarrow> sched option" where
  "schedule_view cfg n iSlot j s =
     (let subslot = allSubSlots (sd_slots s ! n) ! j
      in loop_all
           (\<lambda>algIndex s. Option.bind (eventContext subslot) (\<lambda>ctx. schedule_alg cfg iSlot ctx algIndex s))
           (algsInState (algsStates subslot) DATAREADY) s)"

definition busy_states :: "exec_state list" where
  "busy_states = [CONTROLREADY, DATAREADY, SCHEDULED, RESOURCELESS]"

definition finish_slot :: "sched_config \<Rightarrow> nat \<Rightarrow> event_context \<Rightarrow> sched \<Rightarrow> sched option" where
  "finish_slot cfg n ctx s =
     (let slot = sd_slots s ! n
      in Option.bind (CFRulesResolved (cg_graph cfg) slot) (\<lambda>resolved.
         if resolved \<and> \<not> containsAny (algsStates (topSlot slot)) busy_states \<and> \<not> subSlotAlgsInStates slot busy_states
           \<and> \<not> complete (topSlot slot)
         then (case eventStatus ctx (sd_exec s) of
                 Inl e \<Rightarrow> None
               | Inr status \<Rightarrow>
                   Some (s\<lparr>sd_finished := (if status = ES_Success then sd_finished s @ [ctx] else sd_finished s),
                           sd_slots := (sd_slots s)[n := slot\<lparr>topSlot := (topSlot slot)\<lparr>complete := True, eventContext := None\<rparr>\<rparr>]\<rparr>))
         else if isStalled slot
         then Option.bind (with_exec (setEventStatus (cg_execs cfg) ES_AlgStall ctx) s) (eventFailed ctx)
         else Some s))"

definition update_slot :: "sched_config \<Rightarrow> nat \<Rightarrow> sched \<Rightarrow> sched option" where
  "update_slot cfg n s =
     (case eventContext (topSlot (sd_slots s ! n)) of
        None \<Rightarrow> Some s
      | Some ctx \<Rightarrow>
          Option.bind (schedule_ready cfg (slot_index ctx) ctx (topSlot (sd_slots s ! n)) s) (\<lambda>s.
          Option.bind (loop_all (schedule_view cfg n (slot_index ctx)) [0..<length (allSubSlots (sd_slots s ! n))] s)
            (finish_slot cfg n ctx)))"

fun retry_tasks :: "sched_config \<Rightarrow> nat \<Rightarrow> error_code \<times> sched \<Rightarrow> (error_code \<times> sched) option" where
  "retry_tasks cfg 0 (sc, s) = Some (sc, s)"
| "retry_tasks cfg (Suc k) (sc, s) =
     (case sd_retry s of
        [] \<Rightarrow> None
      | ts # rest \<Rightarrow> Option.bind (schedule cfg ts (s\<lparr>sd_retry := rest\<rparr>)) (retry_tasks cfg k))"

text \<open>\<open>iterate\<close> of the scheduler.\<close>

definition updateStates :: "sched_config \<Rightarrow> sched \<Rightarrow> (error_code \<times> sched) option" where
  "updateStates cfg s =
     Option.bind (retry_tasks cfg (length (sd_retry s)) (SUCCESS, s)) (\<lambda>(global_sc, s).
     map_option (\<lambda>s. (global_sc, s\<lparr>sd_needsUpdate := False\<rparr>))
       (loop_all (update_slot cfg) [0..<length (sd_slots s)] s))"

section \<open>Actions\<close>

definition signoff :: "sched_config \<Rightarrow> task_spec \<Rightarrow> sched \<Rightarrow> (error_code \<times> sched) option" where
  "signoff cfg ts s =
     (let s = (if \<not> ts_blocking ts then s\<lparr>sd_algosInFlight := sd_algosInFlight s - 1\<rparr>
               else s\<lparr>sd_blockingInFlight := sd_blockingInFlight s - 1\<rparr>)
      in Option.bind (with_exec (upd_algExecState (cg_execs cfg) (ts_algName ts) (ts_contextPtr ts) id) s) (\<lambda>s.
         case algExecState_const (ts_algName ts) (ts_contextPtr ts) (sd_exec s) of
           Inl e \<Rightarrow> None
         | Inr algstate \<Rightarrow>
             (let state = (if status_success (ae_execStatus algstate)
                           then if ae_filterPassed algstate then EVTACCEPTED else EVTREJECTED
                           else ERROR)
              in map_option (\<lambda>(sc, s). (sc, s\<lparr>sd_needsUpdate := True\<rparr>))
                   (revise cfg (ts_algIndex ts) (ts_contextPtr ts) state True s))))"

definition root_decision :: cause where
  "root_decision = \<lparr>c_source = Root, c_sourceName = ''RootDecisionHub''\<rparr>"

definition new_event :: "sched_config \<Rightarrow> event_context \<Rightarrow> sched \<Rightarrow> (error_code \<times> sched) option" where
  "new_event cfg ctx s =
     (let thisSlotNum = slot_index ctx
      in if thisSlotNum \<ge> length (sd_slots s) then None
         else if \<not> complete (topSlot (sd_slots s ! thisSlotNum)) then Some (FAILURE, s)
         else
           (let s = s\<lparr>sd_slots := (sd_slots s)[thisSlotNum := reset_slot ctx (sd_slots s ! thisSlotNum)]\<rparr>
            in Option.bind (prec_iterate cfg thisSlotNum Top root_decision s) (\<lambda>(sc1, s).
               Option.bind (updateStates cfg s) (\<lambda>(sc2, s).
               Some (if sc1 \<noteq> SUCCESS \<or> sc2 \<noteq> SUCCESS then FAILURE else SUCCESS, s)))))"

definition view_action :: "nat \<Rightarrow> event_context option \<Rightarrow> string \<Rightarrow> sched \<Rightarrow> (error_code \<times> sched) option" where
  "view_action slotIndex viewContext nodeName s =
     (if slotIndex \<ge> length (sd_slots s) then None
      else
        (let slot = sd_slots s ! slotIndex
         in Some (SUCCESS, s\<lparr>sd_slots := (sd_slots s)[slotIndex :=
              (case viewContext of
                 Some c \<Rightarrow> addSubSlot c nodeName slot
               | None \<Rightarrow> disableSubSlots nodeName slot)]\<rparr>)))"

fun run_action :: "sched_config \<Rightarrow> sched_action \<Rightarrow> sched \<Rightarrow> (error_code \<times> sched) option" where
  "run_action cfg (New_event ctx) s = new_event cfg ctx s"
| "run_action cfg (Signoff ts) s = signoff cfg ts s"
| "run_action cfg (View_action i c n) s = view_action i c n s"
| "run_action cfg Flip_inactive s = Some (SUCCESS, s\<lparr>sd_isActive := INACTIVE\<rparr>)"

text \<open>
  A turn of the loop of \<open>activate\<close>, for a queue that is not empty: the thread waits in \<open>pop\<close>
  otherwise.
\<close>

definition loop_continues :: "sched \<Rightarrow> bool" where
  "loop_continues s \<longleftrightarrow> sd_isActive s = ACTIVE \<or> sd_actions s \<noteq> []"

definition activate_turn :: "sched_config \<Rightarrow> sched \<Rightarrow> sched option" where
  "activate_turn cfg s =
     (case sd_actions s of
        [] \<Rightarrow> None
      | thisAction # rest \<Rightarrow>
          Option.bind (run_action cfg thisAction (s\<lparr>sd_actions := rest\<rparr>)) (\<lambda>(sc, s).
            if sd_needsUpdate s \<and> sd_actions s = [] then map_option snd (updateStates cfg s) else Some s))"

definition deactivate :: "sched \<Rightarrow> error_code \<times> sched" where
  "deactivate s =
     (if sd_isActive s = ACTIVE
      then (SUCCESS, s\<lparr>sd_freeSlots := 0, sd_actions := [Flip_inactive]\<rparr>)
      else (SUCCESS, s))"

section \<open>What the event loop calls\<close>

definition pushNewEvent :: "event_context option \<Rightarrow> sched \<Rightarrow> error_code \<times> sched" where
  "pushNewEvent eventCtx s =
     (case eventCtx of
        None \<Rightarrow> (FAILURE, s)
      | Some ctx \<Rightarrow>
          if sd_freeSlots s = 0 then (FAILURE, s)
          else (SUCCESS, s\<lparr>sd_freeSlots := sd_freeSlots s - 1, sd_actions := sd_actions s @ [New_event ctx]\<rparr>))"

fun pushNewEvents :: "event_context option list \<Rightarrow> error_code \<Rightarrow> sched \<Rightarrow> error_code \<times> sched" where
  "pushNewEvents [] sc s = (sc, s)"
| "pushNewEvents (c # cs) sc s =
     (let (sc, s) = pushNewEvent c s in if sc \<noteq> SUCCESS then (sc, s) else pushNewEvents cs sc s)"

definition freeSlots :: "sched \<Rightarrow> nat" where
  "freeSlots s = nat (max (sd_freeSlots s) 0)"

text \<open>None while the call waits for an event.\<close>

definition popFinishedEvent :: "sched_config \<Rightarrow> sched \<Rightarrow> (error_code \<times> event_context option \<times> sched) option" where
  "popFinishedEvent cfg s =
     (if sd_freeSlots s = int (cg_maxEvents cfg) \<or> sd_isActive s = INACTIVE then Some (FAILURE, None, s)
      else case sd_finished s of
          [] \<Rightarrow> None
        | c # cs \<Rightarrow> Some (SUCCESS, Some c, s\<lparr>sd_finished := cs, sd_freeSlots := sd_freeSlots s + 1\<rparr>))"

definition tryPopFinishedEvent :: "sched \<Rightarrow> error_code \<times> event_context option \<times> sched" where
  "tryPopFinishedEvent s =
     (case sd_finished s of
        [] \<Rightarrow> (FAILURE, None, s)
      | c # cs \<Rightarrow> (SUCCESS, Some c, s\<lparr>sd_finished := cs, sd_freeSlots := sd_freeSlots s + 1\<rparr>))"

definition scheduleEventView ::
  "event_context \<Rightarrow> string \<Rightarrow> event_context option \<Rightarrow> sched \<Rightarrow> error_code \<times> sched"
where
  "scheduleEventView sourceContext nodeName viewContext s =
     (if usesSubSlot sourceContext then (FAILURE, s)
      else (SUCCESS, s\<lparr>sd_actions := sd_actions s @ [View_action (slot_index sourceContext) viewContext nodeName]\<rparr>))"

text \<open>The state once \<open>initialize\<close> is through.\<close>

definition ready_slot :: "sched_config \<Rightarrow> event_slot" where
  "ready_slot cfg =
     (let slot = new_slot (length (cg_algname_vect cfg)) (g_nodeCounter (cg_graph cfg))
      in slot\<lparr>topSlot := (topSlot slot)\<lparr>complete := True\<rparr>\<rparr>)"

definition sched_start :: "sched_config \<Rightarrow> pool \<Rightarrow> exec_svc \<Rightarrow> sched" where
  "sched_start cfg p x =
     \<lparr>sd_slots = replicate (cg_maxEvents cfg) (ready_slot cfg), sd_freeSlots = int (cg_maxEvents cfg),
      sd_finished = [], sd_isActive = ACTIVE, sd_actions = [], sd_algosInFlight = 0, sd_blockingInFlight = 0,
      sd_scheduled = [], sd_scheduledBlocking = [], sd_retry = [], sd_needsUpdate = True, sd_pool = p, sd_exec = x,
      sd_trace = \<lparr>pt_vertices = [], pt_edges = [], pt_map = []\<rparr>, sd_waiting = [], sd_running = []\<rparr>"

section \<open>Steps\<close>

text \<open>
  The threads take turns: the event loop resets the execution states of an event, pushes it
  (\<open>executeEvent\<close> does one after the other, and leaves it at the reset for an event to be
  skipped) or takes a finished one, the scheduler makes a turn of its loop, a waiting task asks
  for its specification, a running task ends with what its algorithm did.
\<close>

datatype sched_op =
    Push_event event_context
  | Reset_event event_context
  | Pop_event
  | Try_pop
  | Turn
  | Start_task nat nat
  | End_task nat alg_body

fun sched_step :: "sched_config \<Rightarrow> sched_op \<Rightarrow> sched \<Rightarrow> sched option" where
  "sched_step cfg (Push_event ctx) s = Some (snd (pushNewEvent (Some ctx) s))"
| "sched_step cfg (Reset_event ctx) s = with_exec (xs_reset (cg_execs cfg) ctx) s"
| "sched_step cfg Pop_event s = (case popFinishedEvent cfg s of None \<Rightarrow> Some s | Some (sc, c, s) \<Rightarrow> Some s)"
| "sched_step cfg Try_pop s = Some (snd (snd (tryPopFinishedEvent s)))"
| "sched_step cfg Turn s = (if sd_actions s = [] then Some s else activate_turn cfg s)"
| "sched_step cfg (Start_task j k) s =
     (if j < length (sd_waiting s)
      then (let blocking = sd_waiting s ! j;
                s = s\<lparr>sd_waiting := take j (sd_waiting s) @ drop (Suc j) (sd_waiting s)\<rparr>
            in case next_task k blocking s of
                 None \<Rightarrow> Some s
               | Some (ts, s) \<Rightarrow> Some (s\<lparr>sd_running := sd_running s @ [ts]\<rparr>))
      else Some s)"
| "sched_step cfg (End_task j body) s =
     (if j < length (sd_running s)
      then task_body cfg (sd_running s ! j) body
             (s\<lparr>sd_running := take j (sd_running s) @ drop (Suc j) (sd_running s)\<rparr>)
      else Some s)"

end
