(* ===== verification/Scheduler_Facts.thy ===== *)
theory Scheduler_Facts
  imports Scheduler
begin

text \<open>
  The invariant of the scheduler and that its operations keep it, for events without views, a
  pool of threads, and no tasks in threads of their own: every algorithm in state SCHEDULED has
  exactly one task that is scheduled, running or waiting for its sign-off, every algorithm
  in state RESOURCELESS exactly one entry of the retry queue, tasks belong to events in flight,
  and the pool accounts for the instances the tasks hold.
\<close>

section \<open>Configurations and the invariant\<close>

definition good_config :: "sched_config \<Rightarrow> (cf_ref \<Rightarrow> nat) \<Rightarrow> bool" where
  "good_config cfg \<rho> \<longleftrightarrow>
     (\<exists>ops. cg_graph cfg = build ops new_graph) \<and> cf_height (cg_graph cfg) \<rho> (cg_height cfg) \<and>
     condition_height (cg_graph cfg) \<rho> \<and> (\<forall>c. \<rho> c \<le> cg_height cfg) \<and> cg_height cfg < cg_scoutFuel cfg \<and>
     (\<exists>h. g_head (cg_graph cfg) = Some h \<and> hub_node (cg_graph cfg) h \<noteq> None) \<and>
     length (cg_algname_vect cfg) = g_algoCounter (cg_graph cfg) \<and>
     (\<forall>n \<in> set (cg_algname_vect cfg). alg_node (cg_graph cfg) n \<noteq> None) \<and>
     cg_threadPoolSize cfg \<noteq> - 100 \<and> \<not> cg_preemptive cfg"

abbreviation ctx_at :: "event_slot list \<Rightarrow> nat \<Rightarrow> event_context option" where
  "ctx_at sl i \<equiv> eventContext (topSlot (sl ! i))"

abbreviation st_at :: "event_slot list \<Rightarrow> nat \<Rightarrow> nat \<Rightarrow> exec_state" where
  "st_at sl i a \<equiv> alg_state_of (sl ! i) Top a"

abbreviation num_algs :: "sched_config \<Rightarrow> nat" where
  "num_algs cfg \<equiv> g_algoCounter (cg_graph cfg)"

definition slot_inv :: "sched_config \<Rightarrow> nat \<Rightarrow> event_slot \<Rightarrow> bool" where
  "slot_inv cfg i ev \<longleftrightarrow>
     graph_slot (cg_graph cfg) ev \<and> tri_slot (cg_graph cfg) ev \<and> allSubSlots ev = [] \<and>
     (case eventContext (topSlot ev) of
        None \<Rightarrow> complete (topSlot ev)
      | Some c \<Rightarrow> \<not> complete (topSlot ev) \<and> slot_index c = i \<and> \<not> usesSubSlot c)"

definition slots_inv :: "sched_config \<Rightarrow> event_slot list \<Rightarrow> bool" where
  "slots_inv cfg sl \<longleftrightarrow> length sl = cg_maxEvents cfg \<and> (\<forall>i < length sl. slot_inv cfg i (sl ! i))"

definition task_key :: "task_spec \<Rightarrow> nat \<times> nat" where
  "task_key t = (ts_slotIndex t, ts_algIndex t)"

definition task_at :: "sched_config \<Rightarrow> event_slot list \<Rightarrow> exec_state \<Rightarrow> task_spec \<Rightarrow> bool" where
  "task_at cfg sl st t \<longleftrightarrow>
     ts_slotIndex t < length sl \<and> ctx_at sl (ts_slotIndex t) = Some (ts_contextPtr t) \<and>
     ts_algIndex t < num_algs cfg \<and> ts_algName t = cg_algname_vect cfg ! ts_algIndex t \<and>
     \<not> ts_blocking t \<and> st_at sl (ts_slotIndex t) (ts_algIndex t) = st"

text \<open>\<open>X\<close>: algorithms whose retry entry has just been taken out.\<close>

definition tasks_inv ::
  "sched_config \<Rightarrow> (nat \<times> nat) set \<Rightarrow> event_slot list \<Rightarrow> task_spec list \<Rightarrow> task_spec list \<Rightarrow> bool"
where
  "tasks_inv cfg X sl flight retry \<longleftrightarrow>
     (\<forall>t \<in> set flight. task_at cfg sl SCHEDULED t) \<and> (\<forall>t \<in> set retry. task_at cfg sl RESOURCELESS t) \<and>
     distinct (map task_key flight) \<and> distinct (map task_key retry) \<and> X \<inter> task_key ` set retry = {} \<and>
     (\<forall>i < length sl. \<forall>a < num_algs cfg. ctx_at sl i \<noteq> None \<longrightarrow>
        (st_at sl i a = SCHEDULED \<longrightarrow> (i, a) \<in> task_key ` set flight) \<and>
        (st_at sl i a = RESOURCELESS \<longrightarrow> (i, a) \<in> task_key ` set retry \<union> X))"

definition task_holds :: "task_spec \<Rightarrow> string \<times> alg_instance" where
  "task_holds t = (ts_algName t, the (ts_algPtr t))"

definition pool_inv :: "sched_config \<Rightarrow> (u64 \<Rightarrow> alg_instance list) \<Rightarrow> pool \<Rightarrow> task_spec list \<Rightarrow> bool" where
  "pool_inv cfg insts p out \<longleftrightarrow>
     (\<forall>t \<in> set out. ts_algPtr t \<noteq> None) \<and> (\<forall>n \<in> set (cg_algname_vect cfg). pool_known (cg_hash cfg) p n) \<and>
     (\<exists>held. mset held = image_mset task_holds (mset out) \<and> pool_ok (cg_hash cfg) insts p held)"

definition exec_inv :: "sched_config \<Rightarrow> exec_svc \<Rightarrow> bool" where
  "exec_inv cfg x \<longleftrightarrow>
     xs_isInit x \<and> length (xs_algStates x) = cg_maxEvents cfg \<and> length (xs_eventStatus x) = cg_maxEvents cfg \<and>
     (\<forall>i < cg_maxEvents cfg. \<forall>n \<in> set (cg_algname_vect cfg). (xs_algStates x ! i) n \<noteq> None)"

text \<open>Tasks in flight: scheduled, running, or with their sign-off queued.\<close>

definition signoffs :: "sched_action list \<Rightarrow> task_spec list" where
  "signoffs as = List.map_filter (\<lambda>a. case a of Signoff t \<Rightarrow> Some t | _ \<Rightarrow> None) as"

definition new_events :: "sched_action list \<Rightarrow> event_context list" where
  "new_events as = List.map_filter (\<lambda>a. case a of New_event c \<Rightarrow> Some c | _ \<Rightarrow> None) as"

abbreviation out_tasks :: "sched \<Rightarrow> task_spec list" where
  "out_tasks s \<equiv> sd_scheduled s @ sd_running s"

abbreviation flight_tasks :: "sched \<Rightarrow> task_spec list" where
  "flight_tasks s \<equiv> out_tasks s @ signoffs (sd_actions s)"

definition counts_inv :: "sched \<Rightarrow> bool" where
  "counts_inv s \<longleftrightarrow>
     sd_algosInFlight s = of_nat (length (flight_tasks s)) \<and> sd_blockingInFlight s = 0 \<and>
     sd_scheduledBlocking s = [] \<and> sd_waiting s = replicate (length (sd_scheduled s)) False"

text \<open>Queued and finished events have slots of their own that are free.\<close>

definition live_slots :: "event_slot list \<Rightarrow> nat set" where
  "live_slots sl = {i. i < length sl \<and> ctx_at sl i \<noteq> None}"

definition events_inv :: "sched_config \<Rightarrow> event_slot list \<Rightarrow> sched_action list \<Rightarrow> event_context list \<Rightarrow> int \<Rightarrow> bool" where
  "events_inv cfg sl as fin free \<longleftrightarrow>
     (\<forall>a \<in> set as. (\<exists>c. a = New_event c) \<or> (\<exists>t. a = Signoff t)) \<and>
     distinct (map slot_index (new_events as @ fin)) \<and>
     (\<forall>c \<in> set (new_events as @ fin). slot_index c < cg_maxEvents cfg \<and> ctx_at sl (slot_index c) = None \<and> \<not> usesSubSlot c) \<and>
     0 \<le> free \<and> free + int (length (new_events as) + length fin + card (live_slots sl)) \<le> int (cg_maxEvents cfg)"

definition sched_inv_ex ::
  "sched_config \<Rightarrow> (u64 \<Rightarrow> alg_instance list) \<Rightarrow> (nat \<times> nat) set \<Rightarrow> sched \<Rightarrow> bool"
where
  "sched_inv_ex cfg insts X s \<longleftrightarrow>
     slots_inv cfg (sd_slots s) \<and> tasks_inv cfg X (sd_slots s) (flight_tasks s) (sd_retry s) \<and>
     pool_inv cfg insts (sd_pool s) (out_tasks s) \<and> exec_inv cfg (sd_exec s) \<and> counts_inv s \<and>
     events_inv cfg (sd_slots s) (sd_actions s) (sd_finished s) (sd_freeSlots s)"

abbreviation sched_inv :: "sched_config \<Rightarrow> (u64 \<Rightarrow> alg_instance list) \<Rightarrow> sched \<Rightarrow> bool" where
  "sched_inv cfg insts s \<equiv> sched_inv_ex cfg insts {} s"

lemma sched_invD:
  assumes "sched_inv_ex cfg insts X s"
  shows "slots_inv cfg (sd_slots s)" "tasks_inv cfg X (sd_slots s) (flight_tasks s) (sd_retry s)"
    "pool_inv cfg insts (sd_pool s) (out_tasks s)" "exec_inv cfg (sd_exec s)" "counts_inv s"
    "events_inv cfg (sd_slots s) (sd_actions s) (sd_finished s) (sd_freeSlots s)"
  using assms unfolding sched_inv_ex_def by blast+

section \<open>The parts of the invariant\<close>

lemma signoffs_simps [simp]:
  "signoffs [] = []" "signoffs (Signoff t # as) = t # signoffs as" "signoffs (New_event c # as) = signoffs as"
  "signoffs (as @ bs) = signoffs as @ signoffs bs"
  by (simp_all add: signoffs_def List.map_filter_def)

lemma new_events_simps [simp]:
  "new_events [] = []" "new_events (Signoff t # as) = new_events as" "new_events (New_event c # as) = c # new_events as"
  "new_events (as @ bs) = new_events as @ new_events bs"
  by (simp_all add: new_events_def List.map_filter_def)

text \<open>The order of the tasks does not matter.\<close>

lemma tasks_inv_perm:
  assumes "mset flight' = mset flight"
  shows "tasks_inv cfg X sl flight' retry = tasks_inv cfg X sl flight retry"
proof -
  have "set flight' = set flight" using assms by (metis set_mset_mset)
  moreover have "distinct (map task_key flight') = distinct (map task_key flight)"
    using assms by (metis mset_map mset_eq_imp_distinct_iff)
  ultimately show ?thesis by (simp add: tasks_inv_def)
qed

lemma pool_inv_perm:
  assumes "mset out' = mset out"
  shows "pool_inv cfg insts p out' = pool_inv cfg insts p out"
proof -
  have "set out' = set out" using assms by (metis set_mset_mset)
  with assms show ?thesis by (simp add: pool_inv_def)
qed

lemma set_top_fields:
  "eventContext (topSlot (set_alg_state Top a st ev)) = eventContext (topSlot ev)"
  "complete (topSlot (set_alg_state Top a st ev)) = complete (topSlot ev)"
  "allSubSlots (set_alg_state Top a st ev) = allSubSlots ev"
  by (simp_all add: set_alg_state_def)

lemma set_top_eq: "ctx_at (sl[i := set_alg_state Top a st (sl ! i)]) j = ctx_at sl j"
  by (cases "i = j"; cases "i < length sl") (simp_all add: set_alg_state_def list_update_beyond)

lemma st_at_set:
  assumes "slots_inv cfg sl" "i < length sl" "j < length sl" "a < num_algs cfg" "b < num_algs cfg"
  shows "st_at (sl[i := set_alg_state Top a st (sl ! i)]) j b =
    (if i = j \<and> a = b then next_state (st_at sl i a) st else st_at sl j b)"
proof (cases "i = j")
  case True
  have "graph_slot (cg_graph cfg) (sl ! i)" using assms by (simp add: slots_inv_def slot_inv_def)
  from alg_state_of_set [OF this _ _ assms(4,5), of Top Top st] True assms(2) show ?thesis
    by (simp add: ref_ok_def)
qed simp

lemma slots_inv_set:
  assumes "slots_inv cfg sl" "i < length sl"
  shows "slots_inv cfg (sl[i := set_alg_state Top a st (sl ! i)])"
proof -
  have inv: "slot_inv cfg i (sl ! i)" using assms by (simp add: slots_inv_def)
  then have "graph_slot (cg_graph cfg) (set_alg_state Top a st (sl ! i))"
    by (simp add: slot_inv_def set_alg_state_ok ref_ok_def)
  moreover have "tri_slot (cg_graph cfg) (set_alg_state Top a st (sl ! i))"
    using inv by (auto simp: slot_inv_def tri_slot_def slot_simps ref_ok_def split: slot_ref.splits)
  ultimately have "slot_inv cfg i (set_alg_state Top a st (sl ! i))"
    using inv by (auto simp: slot_inv_def set_top_fields split: option.splits)
  with assms show ?thesis by (auto simp: slots_inv_def nth_list_update)
qed

lemma slot_of_context:
  assumes "slots_inv cfg sl" "i < length sl" "ctx_at sl i = Some c"
  shows "slot_index c = i" "\<not> usesSubSlot c" "\<not> complete (topSlot (sl ! i))" "context_ref c = Top"
  using assms by (auto simp: slots_inv_def slot_inv_def context_ref_def)

lemma task_at_other:
  assumes "slots_inv cfg sl" "i < length sl" "a < num_algs cfg" "task_at cfg sl st t" "task_key t \<noteq> (i, a)"
  shows "task_at cfg (sl[i := set_alg_state Top a st' (sl ! i)]) st t"
  using assms st_at_set [OF assms(1,2) _ assms(3), of "ts_slotIndex t" "ts_algIndex t" st']
  by (auto simp: task_at_def set_top_eq task_key_def)

lemma task_at_self:
  assumes "slots_inv cfg sl" "task_at cfg sl st t" "next_state st st' = st'"
  shows "task_at cfg (sl[ts_slotIndex t := set_alg_state Top (ts_algIndex t) st' (sl ! ts_slotIndex t)]) st' t"
  using assms st_at_set [OF assms(1), of "ts_slotIndex t" "ts_slotIndex t" "ts_algIndex t" "ts_algIndex t" st']
  by (simp add: task_at_def set_top_fields)

lemma tasks_inv_keys:
  assumes "tasks_inv cfg X sl flight retry" "task_at cfg sl st t"
  shows "st \<noteq> SCHEDULED \<Longrightarrow> task_key t \<notin> task_key ` set flight"
    and "st \<noteq> RESOURCELESS \<or> task_key t \<in> X \<Longrightarrow> task_key t \<notin> task_key ` set retry"
  using assms by (auto simp: tasks_inv_def task_at_def task_key_def)

lemma tasks_inv_cover:
  assumes inv: "slots_inv cfg sl" "tasks_inv cfg X sl flight retry" and t: "task_at cfg sl st t"
    and i: "i < length sl" "a < num_algs cfg" "ctx_at sl i \<noteq> None"
    and new: "(i, a) \<noteq> task_key t"
  shows "st_at (sl[ts_slotIndex t := set_alg_state Top (ts_algIndex t) st' (sl ! ts_slotIndex t)]) i a = SCHEDULED
      \<Longrightarrow> (i, a) \<in> task_key ` set flight"
    and "st_at (sl[ts_slotIndex t := set_alg_state Top (ts_algIndex t) st' (sl ! ts_slotIndex t)]) i a = RESOURCELESS
      \<Longrightarrow> (i, a) \<in> task_key ` set retry \<union> X"
proof -
  have "st_at (sl[ts_slotIndex t := set_alg_state Top (ts_algIndex t) st' (sl ! ts_slotIndex t)]) i a = st_at sl i a"
    using t i new st_at_set [OF inv(1), of "ts_slotIndex t" i "ts_algIndex t" a st']
    by (auto simp: task_at_def task_key_def)
  then show "st_at (sl[ts_slotIndex t := set_alg_state Top (ts_algIndex t) st' (sl ! ts_slotIndex t)]) i a = SCHEDULED
      \<Longrightarrow> (i, a) \<in> task_key ` set flight"
    and "st_at (sl[ts_slotIndex t := set_alg_state Top (ts_algIndex t) st' (sl ! ts_slotIndex t)]) i a = RESOURCELESS
      \<Longrightarrow> (i, a) \<in> task_key ` set retry \<union> X"
    using inv(2) i by (simp_all add: tasks_inv_def)
qed

lemma other_key: "k \<notin> f ` set xs \<Longrightarrow> x \<in> set xs \<Longrightarrow> f x \<noteq> k"
  by blast

lemma tasks_inv_schedule:
  assumes sl: "slots_inv cfg sl" and inv: "tasks_inv cfg X sl flight retry" and t: "task_at cfg sl st t"
    and st: "st = DATAREADY \<or> st = RESOURCELESS \<and> task_key t \<in> X"
  shows "tasks_inv cfg (X - {task_key t})
    (sl[ts_slotIndex t := set_alg_state Top (ts_algIndex t) SCHEDULED (sl ! ts_slotIndex t)]) (t # flight) retry"
proof -
  let ?sl = "sl[ts_slotIndex t := set_alg_state Top (ts_algIndex t) SCHEDULED (sl ! ts_slotIndex t)]"
  have i: "ts_slotIndex t < length sl" "ts_algIndex t < num_algs cfg" using t by (simp_all add: task_at_def)
  have n: "next_state st SCHEDULED = SCHEDULED" using st by (auto simp: next_state_def alg_step.simps)
  have at: "\<And>u. u \<in> set flight \<Longrightarrow> task_at cfg sl SCHEDULED u" "\<And>u. u \<in> set retry \<Longrightarrow> task_at cfg sl RESOURCELESS u"
    using inv by (simp_all add: tasks_inv_def)
  have k: "task_key t \<notin> task_key ` set flight" "task_key t \<notin> task_key ` set retry"
    using tasks_inv_keys [OF inv t] st by auto
  have other: "task_at cfg ?sl st' u" if "task_at cfg sl st' u" "task_key u \<noteq> task_key t" for st' u
    using task_at_other [OF sl i that(1)] that(2) by (simp add: task_key_def)
  note cover = tasks_inv_cover [OF sl inv t, of _ _ SCHEDULED]
  show ?thesis
    unfolding tasks_inv_def
  proof (intro conjI ballI allI impI)
    fix u assume "u \<in> set (t # flight)"
    then have "u = t \<or> u \<in> set flight \<and> task_key u \<noteq> task_key t" using other_key [OF k(1)] by (metis set_ConsD)
    with at(1) other task_at_self [OF sl t n] show "task_at cfg ?sl SCHEDULED u" by blast
  next
    fix u assume "u \<in> set retry"
    then have "u \<in> set retry \<and> task_key u \<noteq> task_key t" using other_key [OF k(2)] by blast
    with at(2) other show "task_at cfg ?sl RESOURCELESS u" by blast
  next
    fix i a assume "i < length ?sl" "a < num_algs cfg" "ctx_at ?sl i \<noteq> None" and r: "st_at ?sl i a = RESOURCELESS"
    moreover have "(i, a) \<noteq> task_key t"
      using r task_at_self [OF sl t n] by (auto simp: task_at_def task_key_def)
    ultimately show "(i, a) \<in> task_key ` set retry \<union> (X - {task_key t})"
      using cover(2) [of i a] by (auto simp: set_top_eq)
  qed (use inv k cover(1) set_top_eq in \<open>auto simp: tasks_inv_def\<close>)
qed

lemma tasks_inv_refuse:
  assumes sl: "slots_inv cfg sl" and inv: "tasks_inv cfg X sl flight retry" and t: "task_at cfg sl st t"
    and st: "st = DATAREADY \<or> st = RESOURCELESS \<and> task_key t \<in> X"
  shows "tasks_inv cfg (X - {task_key t})
    (sl[ts_slotIndex t := set_alg_state Top (ts_algIndex t) RESOURCELESS (sl ! ts_slotIndex t)]) flight (retry @ [t])"
proof -
  let ?sl = "sl[ts_slotIndex t := set_alg_state Top (ts_algIndex t) RESOURCELESS (sl ! ts_slotIndex t)]"
  have i: "ts_slotIndex t < length sl" "ts_algIndex t < num_algs cfg" using t by (simp_all add: task_at_def)
  have n: "next_state st RESOURCELESS = RESOURCELESS" using st by (auto simp: next_state_def alg_step.simps)
  have at: "\<And>u. u \<in> set flight \<Longrightarrow> task_at cfg sl SCHEDULED u" "\<And>u. u \<in> set retry \<Longrightarrow> task_at cfg sl RESOURCELESS u"
    using inv by (simp_all add: tasks_inv_def)
  have k: "task_key t \<notin> task_key ` set flight" "task_key t \<notin> task_key ` set retry"
    using tasks_inv_keys [OF inv t] st by auto
  have other: "task_at cfg ?sl st' u" if "task_at cfg sl st' u" "task_key u \<noteq> task_key t" for st' u
    using task_at_other [OF sl i that(1)] that(2) by (simp add: task_key_def)
  note cover = tasks_inv_cover [OF sl inv t, of _ _ RESOURCELESS]
  show ?thesis
    unfolding tasks_inv_def
  proof (intro conjI ballI allI impI)
    fix u assume "u \<in> set (retry @ [t])"
    then have "u = t \<or> u \<in> set retry \<and> task_key u \<noteq> task_key t" using other_key [OF k(2)]
      by (metis rotate1.simps(2) set_ConsD set_rotate1)
    with at(2) other task_at_self [OF sl t n] show "task_at cfg ?sl RESOURCELESS u" by blast
  next
    fix u assume "u \<in> set flight"
    then have "u \<in> set flight \<and> task_key u \<noteq> task_key t" using other_key [OF k(1)] by blast
    with at(1) other show "task_at cfg ?sl SCHEDULED u" by blast
  next
    fix i a assume "i < length ?sl" "a < num_algs cfg" "ctx_at ?sl i \<noteq> None" and r: "st_at ?sl i a = SCHEDULED"
    moreover have "(i, a) \<noteq> task_key t"
      using r task_at_self [OF sl t n] by (auto simp: task_at_def task_key_def)
    ultimately show "(i, a) \<in> task_key ` set flight"
      using cover(1) [of i a] by (auto simp: set_top_eq)
  next
    fix i a assume "i < length ?sl" "a < num_algs cfg" "ctx_at ?sl i \<noteq> None" "st_at ?sl i a = RESOURCELESS"
    then show "(i, a) \<in> task_key ` set (retry @ [t]) \<union> (X - {task_key t})"
      using cover(2) [of i a] by (cases "(i, a) = task_key t") (auto simp: set_top_eq)
  qed (use inv k in \<open>auto simp: tasks_inv_def\<close>)
qed

lemma events_inv_cong:
  assumes "length sl' = length sl" "\<And>i. i < length sl \<Longrightarrow> ctx_at sl' i = ctx_at sl i" "length sl = cg_maxEvents cfg"
  shows "events_inv cfg sl' as fin free = events_inv cfg sl as fin free"
proof -
  have "live_slots sl' = live_slots sl" using assms(1,2) by (auto simp: live_slots_def)
  moreover have "slot_index c < cg_maxEvents cfg \<and> ctx_at sl' (slot_index c) = None \<and> \<not> usesSubSlot c \<longleftrightarrow>
      slot_index c < cg_maxEvents cfg \<and> ctx_at sl (slot_index c) = None \<and> \<not> usesSubSlot c" for c
    using assms(2,3) by auto
  ultimately show ?thesis unfolding events_inv_def by presburger
qed

lemma events_inv_set:
  "slots_inv cfg sl \<Longrightarrow> events_inv cfg (sl[i := set_alg_state Top a st (sl ! i)]) as fin free = events_inv cfg sl as fin free"
  by (rule events_inv_cong) (simp_all add: set_top_eq slots_inv_def)

section \<open>Scheduling\<close>

definition put_top :: "nat \<Rightarrow> nat \<Rightarrow> exec_state \<Rightarrow> sched \<Rightarrow> sched" where
  "put_top i a st s = s\<lparr>sd_slots := (sd_slots s)[i := set_alg_state Top a st (sd_slots s ! i)]\<rparr>"

lemma revise_top:
  assumes "slots_inv cfg (sd_slots s)" "task_at cfg (sd_slots s) st t"
  shows "\<exists>sc. revise cfg (ts_algIndex t) (ts_contextPtr t) st' False s = Some (sc, put_top (ts_slotIndex t) (ts_algIndex t) st' s)"
proof -
  have i: "ts_slotIndex t < length (sd_slots s)" "ctx_at (sd_slots s) (ts_slotIndex t) = Some (ts_contextPtr t)"
    using assms(2) by (simp_all add: task_at_def)
  from slot_of_context [OF assms(1) this] i show ?thesis
    by (simp add: revise_def ref_ok_def put_top_def Let_def)
qed

text \<open>What scheduling may change, from one state to a later one.\<close>

definition pushes_on :: "sched_config \<Rightarrow> sched \<Rightarrow> sched \<Rightarrow> bool" where
  "pushes_on cfg s s' \<longleftrightarrow>
     length (sd_slots s') = length (sd_slots s) \<and>
     (\<forall>i < length (sd_slots s). ctx_at (sd_slots s') i = ctx_at (sd_slots s) i \<and>
        (\<forall>a < num_algs cfg. st_at (sd_slots s') i a = st_at (sd_slots s) i a \<or>
           st_at (sd_slots s) i a \<in> {DATAREADY, RESOURCELESS} \<and> st_at (sd_slots s') i a \<in> {SCHEDULED, RESOURCELESS})) \<and>
     sd_actions s' = sd_actions s \<and> sd_needsUpdate s' = sd_needsUpdate s \<and>
     (out_tasks s \<noteq> [] \<longrightarrow> out_tasks s' \<noteq> []) \<and>
     (\<exists>new. sd_retry s' = sd_retry s @ new \<and> (new \<noteq> [] \<longrightarrow> out_tasks s' \<noteq> []))"

lemma pushes_on_refl: "pushes_on cfg s s"
  by (simp add: pushes_on_def)

lemma pushes_onD:
  assumes "pushes_on cfg s s'"
  shows "length (sd_slots s') = length (sd_slots s)"
    "i < length (sd_slots s) \<Longrightarrow> ctx_at (sd_slots s') i = ctx_at (sd_slots s) i"
    "i < length (sd_slots s) \<Longrightarrow> a < num_algs cfg \<Longrightarrow> st_at (sd_slots s') i a = st_at (sd_slots s) i a \<or>
       st_at (sd_slots s) i a \<in> {DATAREADY, RESOURCELESS} \<and> st_at (sd_slots s') i a \<in> {SCHEDULED, RESOURCELESS}"
    "sd_actions s' = sd_actions s" "sd_needsUpdate s' = sd_needsUpdate s"
    "out_tasks s \<noteq> [] \<Longrightarrow> out_tasks s' \<noteq> []"
    "\<exists>new. sd_retry s' = sd_retry s @ new \<and> (new \<noteq> [] \<longrightarrow> out_tasks s' \<noteq> [])"
  using assms unfolding pushes_on_def by blast+

lemma pushes_on_trans:
  assumes 1: "pushes_on cfg s t" and 2: "pushes_on cfg t u"
  shows "pushes_on cfg s u"
  unfolding pushes_on_def
proof (intro conjI allI impI)
  note d1 = pushes_onD [OF 1] and d2 = pushes_onD [OF 2]
  obtain n m where "sd_retry t = sd_retry s @ n" "n \<noteq> [] \<longrightarrow> out_tasks t \<noteq> []"
    "sd_retry u = sd_retry t @ m" "m \<noteq> [] \<longrightarrow> out_tasks u \<noteq> []"
    using d1(7) d2(7) by blast
  then show "\<exists>new. sd_retry u = sd_retry s @ new \<and> (new \<noteq> [] \<longrightarrow> out_tasks u \<noteq> [])"
    using d2(6) by (intro exI [of _ "n @ m"]) auto
  show "length (sd_slots u) = length (sd_slots s)" using d1(1) d2(1) by simp
  show "sd_actions u = sd_actions s" "sd_needsUpdate u = sd_needsUpdate s" using d1(4,5) d2(4,5) by simp_all
  show "out_tasks u \<noteq> []" if "out_tasks s \<noteq> []" using d2(6) [OF d1(6) [OF that]] .
  fix i assume i: "i < length (sd_slots s)"
  then show "ctx_at (sd_slots u) i = ctx_at (sd_slots s) i" using d1(1,2) d2(2) by simp
  fix a assume "a < num_algs cfg"
  with i show "st_at (sd_slots u) i a = st_at (sd_slots s) i a \<or>
      st_at (sd_slots s) i a \<in> {DATAREADY, RESOURCELESS} \<and> st_at (sd_slots u) i a \<in> {SCHEDULED, RESOURCELESS}"
    using d1(1) d1(3) [of i a] d2(3) [of i a] by auto
qed

lemma task_at_ptr: "task_at cfg sl st (t\<lparr>ts_algPtr := x\<rparr>) = task_at cfg sl st t" "task_key (t\<lparr>ts_algPtr := x\<rparr>) = task_key t"
  by (simp_all add: task_at_def task_key_def)

lemma pool_inv_grant:
  assumes inv: "pool_inv cfg insts p out" and run: "acquireAlgorithm (cg_hash cfg) n p = (SUCCESS, x, p')" and t: "ts_algName t = n"
  shows "\<exists>i. x = Some i \<and> pool_inv cfg insts p' (t\<lparr>ts_algPtr := Some i\<rparr> # out)"
proof -
  obtain held where h: "mset held = image_mset task_holds (mset out)" "pool_ok (cg_hash cfg) insts p held"
    using inv by (auto simp: pool_inv_def)
  obtain i where i: "x = Some i" "pool_ok (cg_hash cfg) insts p' ((n, i) # held)"
    using acquire_granted [OF h(2) run] by auto
  have "pool_known (cg_hash cfg) p' m" if "pool_known (cg_hash cfg) p m" for m
    using known_kept(1) [OF that, of n] run by simp
  with inv have "\<forall>n \<in> set (cg_algname_vect cfg). pool_known (cg_hash cfg) p' n" by (simp add: pool_inv_def)
  moreover have "mset ((n, i) # held) = image_mset task_holds (mset (t\<lparr>ts_algPtr := Some i\<rparr> # out))"
    using h(1) t by (simp add: task_holds_def)
  ultimately have "pool_inv cfg insts p' (t\<lparr>ts_algPtr := Some i\<rparr> # out)"
    using inv i(2) unfolding pool_inv_def by (intro conjI) (simp, assumption, blast)
  with i(1) show ?thesis by blast
qed

lemma pool_inv_refuse:
  assumes inv: "pool_inv cfg insts p out" and run: "acquireAlgorithm (cg_hash cfg) n p = (sc, x, p')" and sc: "sc \<noteq> SUCCESS"
    and n: "n \<in> set (cg_algname_vect cfg)"
  shows "pool_inv cfg insts p' out \<and> out \<noteq> []"
proof -
  obtain held where h: "mset held = image_mset task_holds (mset out)" "pool_ok (cg_hash cfg) insts p held"
    using inv by (auto simp: pool_inv_def)
  have "pool_known (cg_hash cfg) p' m" if "pool_known (cg_hash cfg) p m" for m
    using known_kept(1) [OF that, of n] run by simp
  moreover have "held \<noteq> []" using idle_grants [of "cg_hash cfg" insts p n] h(2) inv n run sc by (auto simp: pool_inv_def)
  ultimately show ?thesis using inv h acquire_refused [OF h(2) run sc] by (auto simp: pool_inv_def)
qed

lemma pushes_on_put:
  assumes "slots_inv cfg (sd_slots s)" "task_at cfg (sd_slots s) st t" "st = DATAREADY \<or> st = RESOURCELESS"
    and "st' = SCHEDULED \<or> st' = RESOURCELESS"
    and "sd_slots u = sd_slots (put_top (ts_slotIndex t) (ts_algIndex t) st' s)" "sd_actions u = sd_actions s"
    "sd_needsUpdate u = sd_needsUpdate s" "set (out_tasks s) \<subseteq> set (out_tasks u)"
    "sd_retry u = sd_retry s @ new" "new \<noteq> [] \<longrightarrow> out_tasks u \<noteq> []"
  shows "pushes_on cfg s u"
    and "st_at (sd_slots u) (ts_slotIndex t) (ts_algIndex t) \<in> {SCHEDULED, RESOURCELESS}"
    and "i < length (sd_slots s) \<Longrightarrow> a < num_algs cfg \<Longrightarrow> (i, a) \<noteq> task_key t \<Longrightarrow> st_at (sd_slots u) i a = st_at (sd_slots s) i a"
proof -
  have i: "ts_slotIndex t < length (sd_slots s)" "ts_algIndex t < num_algs cfg"
    "st_at (sd_slots s) (ts_slotIndex t) (ts_algIndex t) = st" using assms(2) by (simp_all add: task_at_def)
  have n: "next_state st st' = st'" using assms(3,4) by (auto simp: next_state_def alg_step.simps)
  have st: "st_at (sd_slots u) j b = (if ts_slotIndex t = j \<and> ts_algIndex t = b then st' else st_at (sd_slots s) j b)"
    if "j < length (sd_slots s)" "b < num_algs cfg" for j b
    using st_at_set [OF assms(1) i(1) that(1) i(2) that(2), of st'] n i(3) assms(5)
    unfolding put_top_def by (metis (no_types, lifting) sched.select_convs(1) sched.surjective sched.update_convs(1))
  then show "st_at (sd_slots u) (ts_slotIndex t) (ts_algIndex t) \<in> {SCHEDULED, RESOURCELESS}"
    using i assms(4) by auto
  show "i < length (sd_slots s) \<Longrightarrow> a < num_algs cfg \<Longrightarrow> (i, a) \<noteq> task_key t \<Longrightarrow> st_at (sd_slots u) i a = st_at (sd_slots s) i a"
    using st by (auto simp: task_key_def)
  have "out_tasks u \<noteq> []" if "out_tasks s \<noteq> []" using assms(8) that by auto
  then show "pushes_on cfg s u"
    using assms(3,4,6,7,9,10) st i(3)
    unfolding pushes_on_def by (auto simp: assms(5) put_top_def set_top_eq)
qed

lemma schedule_ok:
  assumes good: "good_config cfg \<rho>" and inv: "sched_inv_ex cfg insts X s"
    and t: "task_at cfg (sd_slots s) st ts" and st: "st = DATAREADY \<or> st = RESOURCELESS \<and> task_key ts \<in> X"
  obtains sc s' where "schedule cfg ts s = Some (sc, s')" "sched_inv_ex cfg insts (X - {task_key ts}) s'"
    "pushes_on cfg s s'" "st_at (sd_slots s') (ts_slotIndex ts) (ts_algIndex ts) \<in> {SCHEDULED, RESOURCELESS}"
    "\<And>i a. i < length (sd_slots s) \<Longrightarrow> a < num_algs cfg \<Longrightarrow> (i, a) \<noteq> task_key ts \<Longrightarrow>
      st_at (sd_slots s') i a = st_at (sd_slots s) i a"
proof -
  note d = sched_invD [OF inv]
  have cfg: "cg_threadPoolSize cfg \<noteq> - 100" using good by (simp add: good_config_def)
  have ts: "\<not> ts_blocking ts" "ts_algIndex ts < num_algs cfg" "ts_algName ts = cg_algname_vect cfg ! ts_algIndex ts"
    using t by (simp_all add: task_at_def)
  have name: "ts_algName ts \<in> set (cg_algname_vect cfg)" using ts good by (simp add: good_config_def)
  have st': "st = DATAREADY \<or> st = RESOURCELESS" using st by blast
  obtain asc x p where a: "acquireAlgorithm (cg_hash cfg) (ts_algName ts) (sd_pool s) = (asc, x, p)" by (metis prod_cases3)
  show thesis
  proof (cases "asc = SUCCESS")
    case True
    note a = a [unfolded True]
    obtain i where i: "x = Some i" "pool_inv cfg insts p (ts\<lparr>ts_algPtr := Some i\<rparr> # out_tasks s)"
      using pool_inv_grant [OF d(3) a refl] by blast
    let ?ts = "ts\<lparr>ts_algPtr := Some i\<rparr>"
    let ?s1 = "s\<lparr>sd_pool := p, sd_scheduled := sd_scheduled s @ [?ts], sd_waiting := sd_waiting s @ [False],
      sd_algosInFlight := sd_algosInFlight s + 1\<rparr>"
    let ?s' = "put_top (ts_slotIndex ts) (ts_algIndex ts) SCHEDULED ?s1"
    have t': "task_at cfg (sd_slots s) st ?ts" using t by (simp add: task_at_ptr)
    have "\<exists>sc. revise cfg (ts_algIndex ts) (ts_contextPtr ts) SCHEDULED False ?s1 = Some (sc, ?s')"
      using revise_top [of cfg ?s1 st ts SCHEDULED] d(1) t by simp
    then have run: "\<exists>sc. schedule cfg ts s = Some (sc, ?s')"
      using a cfg ts(1) i(1) by (simp add: schedule_def acquired_ptr_def)
    have "tasks_inv cfg (X - {task_key ?ts})
      ((sd_slots s)[ts_slotIndex ?ts := set_alg_state Top (ts_algIndex ?ts) SCHEDULED (sd_slots s ! ts_slotIndex ?ts)])
      (?ts # flight_tasks s) (sd_retry s)"
      by (rule tasks_inv_schedule [OF d(1,2) t']) (use st in \<open>simp add: task_at_ptr\<close>)
    then have "tasks_inv cfg (X - {task_key ts}) (sd_slots ?s') (flight_tasks ?s') (sd_retry ?s')"
      by (subst tasks_inv_perm [of _ "?ts # flight_tasks s"]) (simp_all add: put_top_def task_at_ptr)
    moreover have "pool_inv cfg insts p (out_tasks ?s')"
      using i(2) by (subst pool_inv_perm [of _ "?ts # out_tasks s"]) (simp_all add: put_top_def)
    moreover have "counts_inv ?s'"
      using d(5) by (simp add: counts_inv_def put_top_def replicate_append_same)
    ultimately have "sched_inv_ex cfg insts (X - {task_key ts}) ?s'"
      using d slots_inv_set [OF d(1)] events_inv_set [OF d(1)] t
      by (simp add: sched_inv_ex_def put_top_def task_at_def)
    moreover have "pushes_on cfg s ?s'" "st_at (sd_slots ?s') (ts_slotIndex ts) (ts_algIndex ts) \<in> {SCHEDULED, RESOURCELESS}"
      "\<And>i a. i < length (sd_slots s) \<Longrightarrow> a < num_algs cfg \<Longrightarrow> (i, a) \<noteq> task_key ts \<Longrightarrow>
        st_at (sd_slots ?s') i a = st_at (sd_slots s) i a"
      by (rule pushes_on_put [OF d(1) t st', of SCHEDULED _ "[]"]; auto simp: put_top_def)+
    ultimately show thesis using run that by blast
  next
    case False
    have r: "pool_inv cfg insts p (out_tasks s)" "out_tasks s \<noteq> []"
      using pool_inv_refuse [OF d(3) a False name] by auto
    let ?ts = "ts\<lparr>ts_algPtr := acquired_ptr cfg ts s x\<rparr>"
    let ?s1 = "s\<lparr>sd_pool := p\<rparr>"
    let ?s' = "put_top (ts_slotIndex ts) (ts_algIndex ts) RESOURCELESS ?s1\<lparr>sd_retry := sd_retry s @ [?ts]\<rparr>"
    have t': "task_at cfg (sd_slots s) st ?ts" using t by (simp add: task_at_ptr)
    have "\<exists>sc. revise cfg (ts_algIndex ts) (ts_contextPtr ts) RESOURCELESS False ?s1 =
        Some (sc, put_top (ts_slotIndex ts) (ts_algIndex ts) RESOURCELESS ?s1)"
      using revise_top [of cfg ?s1 st ts RESOURCELESS] d(1) t by simp
    then have run: "\<exists>sc. schedule cfg ts s = Some (sc, ?s')"
      using a ts(1) False by (auto simp: schedule_def put_top_def)
    have "tasks_inv cfg (X - {task_key ?ts})
      ((sd_slots s)[ts_slotIndex ?ts := set_alg_state Top (ts_algIndex ?ts) RESOURCELESS (sd_slots s ! ts_slotIndex ?ts)])
      (flight_tasks s) (sd_retry s @ [?ts])"
      by (rule tasks_inv_refuse [OF d(1,2) t']) (use st in \<open>simp add: task_at_ptr\<close>)
    moreover have "counts_inv ?s'" using d(5) by (simp add: counts_inv_def put_top_def)
    ultimately have "sched_inv_ex cfg insts (X - {task_key ts}) ?s'"
      using d r slots_inv_set [OF d(1)] events_inv_set [OF d(1)] t
      by (simp add: sched_inv_ex_def put_top_def task_at_def task_at_ptr)
    moreover have "pushes_on cfg s ?s'" "st_at (sd_slots ?s') (ts_slotIndex ts) (ts_algIndex ts) \<in> {SCHEDULED, RESOURCELESS}"
      "\<And>i a. i < length (sd_slots s) \<Longrightarrow> a < num_algs cfg \<Longrightarrow> (i, a) \<noteq> task_key ts \<Longrightarrow>
        st_at (sd_slots ?s') i a = st_at (sd_slots s) i a"
      by (rule pushes_on_put [OF d(1) t st', of RESOURCELESS _ "[?ts]"]; use r in \<open>auto simp: put_top_def\<close>)+
    ultimately show thesis using run that by blast
  qed
qed

section \<open>The retry queue\<close>

lemma tasks_inv_pop:
  "tasks_inv cfg {} sl flight (t # retry) \<Longrightarrow> tasks_inv cfg {task_key t} sl flight retry \<and> task_at cfg sl RESOURCELESS t"
  by (auto simp: tasks_inv_def)

lemma pushes_on_retry:
  assumes "pushes_on cfg (s\<lparr>sd_retry := a\<rparr>) t" "sd_retry t = a @ new"
  shows "pushes_on cfg (s\<lparr>sd_retry := b\<rparr>) (t\<lparr>sd_retry := b @ new\<rparr>)"
  using assms by (auto simp: pushes_on_def)

lemma retry_tasks_ok:
  assumes good: "good_config cfg \<rho>"
  shows "sched_inv cfg insts s \<Longrightarrow> k \<le> length (sd_retry s) \<Longrightarrow>
    \<exists>sc' s'. retry_tasks cfg k (sc, s) = Some (sc', s') \<and> sched_inv cfg insts s' \<and>
      pushes_on cfg (s\<lparr>sd_retry := drop k (sd_retry s)\<rparr>) s'"
proof (induction k arbitrary: s sc)
  case 0
  then show ?case by (simp add: pushes_on_refl)
next
  case (Suc k)
  then obtain t rest where r: "sd_retry s = t # rest" by (cases "sd_retry s") auto
  let ?s = "s\<lparr>sd_retry := rest\<rparr>"
  note d = sched_invD [OF Suc.prems(1)]
  have pop: "tasks_inv cfg {task_key t} (sd_slots s) (flight_tasks s) rest" "task_at cfg (sd_slots ?s) RESOURCELESS t"
    using tasks_inv_pop d(2) r by auto
  then have inv: "sched_inv_ex cfg insts {task_key t} ?s"
    using d by (simp add: sched_inv_ex_def counts_inv_def)
  obtain sc1 s1 where s1: "schedule cfg t ?s = Some (sc1, s1)" "sched_inv_ex cfg insts ({task_key t} - {task_key t}) s1"
      "pushes_on cfg ?s s1"
    by (rule schedule_ok [OF good inv pop(2)]) simp_all
  then have inv1: "sched_inv cfg insts s1" by simp
  obtain new where new: "sd_retry s1 = rest @ new" using pushes_onD(7) [OF s1(3)] by auto
  have k: "k \<le> length rest" using Suc.prems(2) r by simp
  then have "k \<le> length (sd_retry s1)" by (simp add: new)
  from Suc.IH [OF inv1 this, of sc1] obtain sc' s' where s': "retry_tasks cfg k (sc1, s1) = Some (sc', s')"
      "sched_inv cfg insts s'" "pushes_on cfg (s1\<lparr>sd_retry := drop k (sd_retry s1)\<rparr>) s'" by blast
  have "pushes_on cfg (s\<lparr>sd_retry := drop k rest\<rparr>) (s1\<lparr>sd_retry := drop k rest @ new\<rparr>)"
    by (rule pushes_on_retry [OF s1(3) new])
  with s'(3) k have "pushes_on cfg (s\<lparr>sd_retry := drop k rest\<rparr>) s'"
    by (simp add: new) (rule pushes_on_trans)
  then show ?case using s1(1) s'(1,2) r by simp
qed

section \<open>One slot\<close>

lemma schedule_alg_ok:
  assumes good: "good_config cfg \<rho>" and inv: "sched_inv cfg insts s"
    and i: "i < length (sd_slots s)" "ctx_at (sd_slots s) i = Some ctx" and a: "a < num_algs cfg" "st_at (sd_slots s) i a = DATAREADY"
  obtains s' where "schedule_alg cfg i ctx a s = Some s'" "sched_inv cfg insts s'" "pushes_on cfg s s'"
    "st_at (sd_slots s') i a \<in> {SCHEDULED, RESOURCELESS}"
    "\<And>b. b < num_algs cfg \<Longrightarrow> b \<noteq> a \<Longrightarrow> st_at (sd_slots s') i b = st_at (sd_slots s) i b"
proof -
  have "cg_algname_vect cfg ! a \<in> set (cg_algname_vect cfg)" using good a(1) by (simp add: good_config_def)
  with good have "alg_node (cg_graph cfg) (cg_algname_vect cfg ! a) \<noteq> None" by (simp add: good_config_def)
  then obtain rank where rank:
      "(if cg_optimized cfg then getPriority cfg (cg_algname_vect cfg ! a) else Some 0) = Some rank"
    by (cases "cg_optimized cfg") (auto simp: getPriority_def)
  let ?t = "\<lparr>ts_algPtr = None, ts_algIndex = a, ts_algName = cg_algname_vect cfg ! a, ts_algRank = rank,
    ts_blocking = False, ts_slotIndex = i, ts_contextPtr = ctx\<rparr>"
  have t: "task_at cfg (sd_slots s) DATAREADY ?t" using i a by (simp add: task_at_def)
  have np: "\<not> cg_preemptive cfg" using good by (simp add: good_config_def)
  obtain sc s' where s': "schedule cfg ?t s = Some (sc, s')" "sched_inv_ex cfg insts ({} - {task_key ?t}) s'"
      "pushes_on cfg s s'" "st_at (sd_slots s') (ts_slotIndex ?t) (ts_algIndex ?t) \<in> {SCHEDULED, RESOURCELESS}"
      "\<And>j b. j < length (sd_slots s) \<Longrightarrow> b < num_algs cfg \<Longrightarrow> (j, b) \<noteq> task_key ?t \<Longrightarrow>
        st_at (sd_slots s') j b = st_at (sd_slots s) j b"
    using schedule_ok [OF good inv t] by blast
  show thesis
    by (rule that [of s']) (use s' i rank np in \<open>auto simp: schedule_alg_def index2algname_def task_key_def\<close>)
qed

lemma schedule_algs_ok:
  assumes good: "good_config cfg \<rho>"
  shows "sched_inv cfg insts s \<Longrightarrow> i < length (sd_slots s) \<Longrightarrow> ctx_at (sd_slots s) i = Some ctx \<Longrightarrow> distinct l \<Longrightarrow>
    \<forall>a \<in> set l. a < num_algs cfg \<and> st_at (sd_slots s) i a = DATAREADY \<Longrightarrow>
    \<exists>s'. loop_all (schedule_alg cfg i ctx) l s = Some s' \<and> sched_inv cfg insts s' \<and> pushes_on cfg s s' \<and>
      (\<forall>a \<in> set l. st_at (sd_slots s') i a \<noteq> DATAREADY)"
proof (induction l arbitrary: s)
  case (Cons a l)
  from Cons.prems(5) have "a < num_algs cfg" "st_at (sd_slots s) i a = DATAREADY" by simp_all
  from schedule_alg_ok [OF good Cons.prems(1-3) this]
  obtain s1 where s1: "schedule_alg cfg i ctx a s = Some s1" "sched_inv cfg insts s1" "pushes_on cfg s s1"
    "st_at (sd_slots s1) i a \<in> {SCHEDULED, RESOURCELESS}"
    "\<And>b. b < num_algs cfg \<Longrightarrow> b \<noteq> a \<Longrightarrow> st_at (sd_slots s1) i b = st_at (sd_slots s) i b" by blast
  note p = pushes_onD [OF s1(3)]
  have i: "i < length (sd_slots s1)" "ctx_at (sd_slots s1) i = Some ctx" using p(1,2) Cons.prems(2,3) by simp_all
  have "distinct l" using Cons.prems(4) by simp
  moreover have "\<forall>b \<in> set l. b < num_algs cfg \<and> st_at (sd_slots s1) i b = DATAREADY"
  proof
    fix b assume b: "b \<in> set l"
    then have "b \<noteq> a" "b < num_algs cfg" using Cons.prems(4,5) by auto
    then show "b < num_algs cfg \<and> st_at (sd_slots s1) i b = DATAREADY"
      using s1(5) [of b] Cons.prems(5) b by simp
  qed
  ultimately obtain s' where s': "loop_all (schedule_alg cfg i ctx) l s1 = Some s'" "sched_inv cfg insts s'"
      "pushes_on cfg s1 s'" "\<forall>a \<in> set l. st_at (sd_slots s') i a \<noteq> DATAREADY"
    using Cons.IH [OF s1(2) i] by blast
  have "st_at (sd_slots s') i a \<noteq> DATAREADY"
    using pushes_onD(3) [OF s'(3) i(1), of a] s1(4) Cons.prems(5) by auto
  with s1(1) s' pushes_on_trans [OF s1(3) s'(3)] show ?case by auto
qed (simp add: pushes_on_refl)

lemma top_frame: "slots_inv cfg sl \<Longrightarrow> i < length sl \<Longrightarrow> frame_ok (num_algs cfg) (g_nodeCounter (cg_graph cfg)) (topSlot (sl ! i))"
  by (simp add: slots_inv_def slot_inv_def slot_ok_def frames_def)

lemma algs_in:
  assumes "slots_inv cfg sl" "i < length sl" "st \<noteq> MAXVALUE"
  shows "distinct (algsInState (algsStates (topSlot (sl ! i))) st)"
    "set (algsInState (algsStates (topSlot (sl ! i))) st) = {a. a < num_algs cfg \<and> st_at sl i a = st}"
  using states_ok_index [OF _ assms(3), of "algsStates (topSlot (sl ! i))"] top_frame [OF assms(1,2)]
  by (simp_all add: frame_ok_def alg_state_of_def)

lemma contains_any:
  assumes "slots_inv cfg sl" "i < length sl"
  shows "MAXVALUE \<notin> set sts \<Longrightarrow>
    containsAny (algsStates (topSlot (sl ! i))) sts \<longleftrightarrow> (\<exists>a < num_algs cfg. st_at sl i a \<in> set sts)"
proof (induction sts)
  case (Cons st sts)
  have "length (m_algsInState (algsStates (topSlot (sl ! i))) ! state_num st) > 0 \<longleftrightarrow> (\<exists>a < num_algs cfg. st_at sl i a = st)"
    using algs_in(2) [OF assms, of st] Cons.prems by (auto simp: algsInState_def simp flip: length_greater_0_conv set_empty)
  with Cons show ?case by auto
qed simp

lemma schedule_ready_ok:
  assumes good: "good_config cfg \<rho>" and inv: "sched_inv cfg insts s"
    and i: "i < length (sd_slots s)" "ctx_at (sd_slots s) i = Some ctx"
  obtains s' where "schedule_ready cfg i ctx (topSlot (sd_slots s ! i)) s = Some s'" "sched_inv cfg insts s'" "pushes_on cfg s s'"
    "\<And>a. a < num_algs cfg \<Longrightarrow> st_at (sd_slots s') i a \<noteq> DATAREADY"
proof -
  let ?l = "algsInState (algsStates (topSlot (sd_slots s ! i))) DATAREADY"
  note l = algs_in [OF sched_invD(1) [OF inv] i(1), of DATAREADY]
  then obtain s' where s': "loop_all (schedule_alg cfg i ctx) ?l s = Some s'" "sched_inv cfg insts s'" "pushes_on cfg s s'"
      "\<forall>a \<in> set ?l. st_at (sd_slots s') i a \<noteq> DATAREADY"
    using schedule_algs_ok [OF good inv i] by fastforce
  have "st_at (sd_slots s') i a \<noteq> DATAREADY" if "a < num_algs cfg" for a
    using s'(4) l(2) pushes_onD(3) [OF s'(3) i(1) that] that by auto
  with s' show thesis using that by (simp add: schedule_ready_def)
qed

section \<open>Finishing an event\<close>

definition closed :: "event_slot \<Rightarrow> event_slot" where
  "closed slot = slot\<lparr>topSlot := (topSlot slot)\<lparr>complete := True, eventContext := None\<rparr>\<rparr>"

lemma closed_inv: "slot_inv cfg i ev \<Longrightarrow> slot_inv cfg i (closed ev)"
proof -
  assume inv: "slot_inv cfg i ev"
  have "ref_ok (closed ev) r = ref_ok ev r" "decision_of (closed ev) r n = decision_of ev r n" for r n
    by (cases r; simp add: closed_def ref_ok_def decision_of_def)+
  moreover have "frames (closed ev) = topSlot (closed ev) # allSubSlots ev" "views_ok (closed ev) = views_ok ev"
    "sub_ok (closed ev) j = sub_ok ev j" for j
    by (simp_all add: frames_def closed_def views_ok_def views_of_def sub_ok_def)
  moreover have "frame_ok na nn (topSlot (closed ev)) = frame_ok na nn (topSlot ev)" for na nn
    by (simp add: frame_ok_def closed_def)
  ultimately show ?thesis
    using inv by (auto simp: slot_inv_def slot_ok_def frames_def tri_slot_def closed_def)
qed

lemma slots_inv_close: "slots_inv cfg sl \<Longrightarrow> n < length sl \<Longrightarrow> slots_inv cfg (sl[n := closed (sl ! n)])"
  using closed_inv by (auto simp: slots_inv_def nth_list_update)

lemma closed_ctx [simp]: "eventContext (topSlot (closed ev)) = None"
  by (simp add: closed_def)

lemma tasks_inv_close:
  assumes inv: "tasks_inv cfg {} sl flight retry" and n: "n < length sl"
    and none: "\<And>a. a < num_algs cfg \<Longrightarrow> st_at sl n a \<notin> {SCHEDULED, RESOURCELESS}"
  shows "tasks_inv cfg {} (sl[n := closed (sl ! n)]) flight retry"
proof -
  let ?sl = "sl[n := closed (sl ! n)]"
  have "task_at cfg ?sl st t" if "task_at cfg sl st t" "st = SCHEDULED \<or> st = RESOURCELESS" for st t
  proof -
    have "ts_slotIndex t \<noteq> n" using that none by (auto simp: task_at_def)
    with that(1) show ?thesis by (simp add: task_at_def)
  qed
  moreover have "ctx_at ?sl i \<noteq> None \<Longrightarrow> ?sl ! i = sl ! i" for i using n by (cases "i = n") auto
  moreover have "\<forall>t \<in> set flight. task_at cfg sl SCHEDULED t" "\<forall>t \<in> set retry. task_at cfg sl RESOURCELESS t"
    "\<And>i a. i < length sl \<Longrightarrow> a < num_algs cfg \<Longrightarrow> ctx_at sl i \<noteq> None \<Longrightarrow>
      (st_at sl i a = SCHEDULED \<longrightarrow> (i, a) \<in> task_key ` set flight) \<and>
      (st_at sl i a = RESOURCELESS \<longrightarrow> (i, a) \<in> task_key ` set retry \<union> {})"
    "distinct (map task_key flight)" "distinct (map task_key retry)"
    using inv unfolding tasks_inv_def by blast+
  ultimately show ?thesis unfolding tasks_inv_def length_list_update by simp
qed

lemma events_inv_close:
  assumes inv: "events_inv cfg sl as fin free" and n: "n < length sl" "ctx_at sl n = Some c" "slot_index c = n"
    "\<not> usesSubSlot c" "length sl = cg_maxEvents cfg" and fin': "fin' = fin \<or> fin' = fin @ [c]"
  shows "events_inv cfg (sl[n := closed (sl ! n)]) as fin' free"
proof -
  let ?sl = "sl[n := closed (sl ! n)]"
  have c: "ctx_at ?sl i = (if i = n then None else ctx_at sl i)" if "i < length sl" for i
    using that by (simp add: closed_def)
  have n': "n \<in> live_slots sl" "finite (live_slots sl)" using n by (simp_all add: live_slots_def)
  have "live_slots ?sl = live_slots sl - {n}" using n(1) by (auto simp: live_slots_def nth_list_update split: if_splits)
  then have card: "card (live_slots ?sl) + 1 = card (live_slots sl)"
    using n' by (metis One_nat_def Suc_eq_plus1 card_Suc_Diff1)
  have free: "slot_index d < cg_maxEvents cfg" "ctx_at sl (slot_index d) = None" "\<not> usesSubSlot d"
    if "d \<in> set (new_events as @ fin)" for d using inv that by (auto simp: events_inv_def)
  have "n \<notin> slot_index ` set (new_events as @ fin)" using free(2) n(2) by force
  then have "distinct (map slot_index (new_events as @ fin @ [c]))"
    using inv n(3) unfolding events_inv_def map_append distinct_append append_assoc [symmetric]
    by (simp add: image_Un)
  then have "distinct (map slot_index (new_events as @ fin'))" using fin' by (elim disjE) simp_all
  moreover have "slot_index d < cg_maxEvents cfg \<and> ctx_at ?sl (slot_index d) = None \<and> \<not> usesSubSlot d"
    if "d \<in> set (new_events as @ fin')" for d
    using free [of d] that fin' n c [of "slot_index d"] by auto
  ultimately show ?thesis using inv card fin' unfolding events_inv_def by auto
qed

lemma exec_inv_status:
  assumes "exec_inv cfg x" "slot_index c < cg_maxEvents cfg"
  shows "\<exists>st. eventStatus c x = Inr st"
    and "\<exists>x'. setEventStatus (cg_execs cfg) st c x = Inr x' \<and> exec_inv cfg x'"
    and "\<exists>x'. updateEventStatus (cg_execs cfg) b c x = Inr x' \<and> exec_inv cfg x'"
  using assms
  by (simp_all add: exec_inv_def eventStatus_def checkInit_def setEventStatus_def updateEventStatus_def call_once_def)

text \<open>After its turn a slot in flight has a task or a retry entry, and nothing left to schedule.\<close>

definition calm :: "sched_config \<Rightarrow> event_slot list \<Rightarrow> nat \<Rightarrow> bool" where
  "calm cfg sl n \<longleftrightarrow> ctx_at sl n = None \<or>
     (\<exists>a < num_algs cfg. st_at sl n a \<in> {SCHEDULED, RESOURCELESS}) \<and> (\<forall>a < num_algs cfg. st_at sl n a \<noteq> DATAREADY)"

definition unblocked :: "sched \<Rightarrow> bool" where
  "unblocked s \<longleftrightarrow> sd_retry s \<noteq> [] \<longrightarrow> out_tasks s \<noteq> []"

lemma head_resolved:
  assumes "good_config cfg \<rho>"
  shows "\<exists>b. CFRulesResolved (cg_graph cfg) ev = Some b"
  using assms by (auto simp: good_config_def CFRulesResolved_def)

lemma finish_slot_ok:
  assumes good: "good_config cfg \<rho>" and inv: "sched_inv cfg insts s"
    and n: "n < length (sd_slots s)" "ctx_at (sd_slots s) n = Some ctx"
    and dr: "\<And>a. a < num_algs cfg \<Longrightarrow> st_at (sd_slots s) n a \<noteq> DATAREADY"
  obtains s' where "finish_slot cfg n ctx s = Some s'" "sched_inv cfg insts s'" "calm cfg (sd_slots s') n"
    "sd_retry s' = sd_retry s" "out_tasks s' = out_tasks s" "sd_actions s' = sd_actions s" "sd_needsUpdate s' = sd_needsUpdate s"
    "length (sd_slots s') = length (sd_slots s)" "\<And>i. i \<noteq> n \<Longrightarrow> sd_slots s' ! i = sd_slots s ! i"
proof -
  note d = sched_invD [OF inv]
  let ?slot = "sd_slots s ! n"
  note c = slot_of_context [OF d(1) n]
  have si: "slot_inv cfg n ?slot" using d(1) n(1) by (simp add: slots_inv_def)
  then have sub: "allSubSlots ?slot = []" by (simp add: slot_inv_def)
  have len: "length (sd_slots s) = cg_maxEvents cfg" using d(1) by (simp add: slots_inv_def)
  obtain b where b: "CFRulesResolved (cg_graph cfg) ?slot = Some b" using head_resolved [OF good] by blast
  note any = contains_any [OF d(1) n(1)]
  have close: "sched_inv cfg insts (s\<lparr>sd_slots := (sd_slots s)[n := closed ?slot], sd_finished := fin, sd_exec := x\<rparr>)"
    if "\<And>a. a < num_algs cfg \<Longrightarrow> st_at (sd_slots s) n a \<notin> {SCHEDULED, RESOURCELESS}"
      "fin = sd_finished s \<or> fin = sd_finished s @ [ctx]" "exec_inv cfg x" for fin x
    using d that slots_inv_close [OF d(1) n(1)]
      tasks_inv_close [OF d(2) n(1) that(1)] events_inv_close [OF d(6) n c(1,2) len that(2)]
    by (simp add: sched_inv_ex_def counts_inv_def)
  show thesis
  proof (cases "b \<and> \<not> containsAny (algsStates (topSlot ?slot)) busy_states")
    case True
    then have none: "st_at (sd_slots s) n a \<notin> {SCHEDULED, RESOURCELESS}" if "a < num_algs cfg" for a
      using any [of busy_states] that by (auto simp: busy_states_def)
    obtain st where st: "eventStatus ctx (sd_exec s) = Inr st"
      using exec_inv_status(1) [OF d(4)] c(1) n(1) len by auto
    let ?fin = "if st = ES_Success then sd_finished s @ [ctx] else sd_finished s"
    have "finish_slot cfg n ctx s = Some (s\<lparr>sd_slots := (sd_slots s)[n := closed ?slot], sd_finished := ?fin\<rparr>)"
      using True b st c(3) sub by (simp add: finish_slot_def subSlotAlgsInStates_def closed_def Let_def)
    then show thesis
      by (rule that) (use close [OF none, of ?fin "sd_exec s"] d(4) n in \<open>auto simp: calm_def closed_def\<close>)
  next
    case False
    show thesis
    proof (cases "isStalled ?slot")
      case True
      then have none: "st_at (sd_slots s) n a \<notin> {SCHEDULED, RESOURCELESS}" if "a < num_algs cfg" for a
        using any [of "[DATAREADY, SCHEDULED, RESOURCELESS]"] that by (auto simp: isStalled_def)
      obtain x where x: "setEventStatus (cg_execs cfg) ES_AlgStall ctx (sd_exec s) = Inr x" "exec_inv cfg x"
        using exec_inv_status(2) [OF d(4), where c = ctx and st = ES_AlgStall] c(1) n(1) len by auto
      have "finish_slot cfg n ctx s = Some (s\<lparr>sd_slots := (sd_slots s)[n := closed ?slot], sd_finished := sd_finished s @ [ctx],
          sd_exec := x\<rparr>)"
        using True False b x(1) c n sub
        by (auto simp: finish_slot_def subSlotAlgsInStates_def closed_def with_exec_def eventFailed_def Let_def)
      then show thesis
        by (rule that) (use close [OF none, of "sd_finished s @ [ctx]" x] x(2) n in \<open>auto simp: calm_def closed_def\<close>)
    next
      case busy: False
      have "finish_slot cfg n ctx s = Some s"
        using False busy b sub by (auto simp: finish_slot_def subSlotAlgsInStates_def)
      moreover have "\<exists>a < num_algs cfg. st_at (sd_slots s) n a \<in> {SCHEDULED, RESOURCELESS}"
        using busy any [of "[DATAREADY, SCHEDULED, RESOURCELESS]"] sub dr
        by (auto simp: isStalled_def subSlotAlgsInStates_def)
      ultimately show thesis using that [of s] inv dr by (simp add: calm_def)
    qed
  qed
qed

section \<open>All slots\<close>

lemma calm_pushes:
  assumes "pushes_on cfg s s'" "calm cfg (sd_slots s) m" "m < length (sd_slots s)"
  shows "calm cfg (sd_slots s') m"
proof (cases "ctx_at (sd_slots s) m = None")
  case False
  note p = pushes_onD(3) [OF assms(1,3)]
  obtain a where a: "a < num_algs cfg" "st_at (sd_slots s) m a \<in> {SCHEDULED, RESOURCELESS}"
    using assms(2) False by (auto simp: calm_def)
  have "st_at (sd_slots s') m a \<in> {SCHEDULED, RESOURCELESS}" using p [OF a(1)] a(2) by auto
  moreover have "st_at (sd_slots s') m b \<noteq> DATAREADY" if "b < num_algs cfg" for b
    using p [OF that] assms(2) False that by (auto simp: calm_def)
  ultimately show ?thesis using a(1) unfolding calm_def by blast
qed (use pushes_onD(2) [OF assms(1,3)] in \<open>simp add: calm_def\<close>)

lemma unblocked_pushes: "pushes_on cfg s s' \<Longrightarrow> unblocked s \<Longrightarrow> unblocked s'"
  using pushes_onD(6,7) unfolding unblocked_def by fastforce

lemma update_slot_ok:
  assumes good: "good_config cfg \<rho>" and inv: "sched_inv cfg insts s" and un: "unblocked s" and n: "n < length (sd_slots s)"
  obtains s' where "update_slot cfg n s = Some s'" "sched_inv cfg insts s'" "unblocked s'" "calm cfg (sd_slots s') n"
    "\<And>m. m < length (sd_slots s) \<Longrightarrow> calm cfg (sd_slots s) m \<Longrightarrow> calm cfg (sd_slots s') m"
    "sd_actions s' = sd_actions s" "sd_needsUpdate s' = sd_needsUpdate s" "length (sd_slots s') = length (sd_slots s)"
proof (cases "ctx_at (sd_slots s) n")
  case None
  then show thesis using that [of s] inv un by (simp add: update_slot_def calm_def)
next
  case (Some ctx)
  have i: "slot_index ctx = n" using slot_of_context [OF sched_invD(1) [OF inv] n Some] by simp
  from schedule_ready_ok [OF good inv n Some] obtain s1 where
    s1: "schedule_ready cfg n ctx (topSlot (sd_slots s ! n)) s = Some s1" "sched_inv cfg insts s1" "pushes_on cfg s s1"
    "\<And>a. a < num_algs cfg \<Longrightarrow> st_at (sd_slots s1) n a \<noteq> DATAREADY" by blast
  note p = pushes_onD [OF s1(3)]
  have n1: "n < length (sd_slots s1)" "ctx_at (sd_slots s1) n = Some ctx" using p(1,2) n Some by simp_all
  have sub: "allSubSlots (sd_slots s1 ! n) = []"
    using sched_invD(1) [OF s1(2)] n1(1) by (simp add: slots_inv_def slot_inv_def)
  from finish_slot_ok [OF good s1(2) n1 s1(4)] obtain s2 where
    s2: "finish_slot cfg n ctx s1 = Some s2" "sched_inv cfg insts s2" "calm cfg (sd_slots s2) n"
    "sd_retry s2 = sd_retry s1" "out_tasks s2 = out_tasks s1" "sd_actions s2 = sd_actions s1" "sd_needsUpdate s2 = sd_needsUpdate s1"
    "length (sd_slots s2) = length (sd_slots s1)" "\<And>i. i \<noteq> n \<Longrightarrow> sd_slots s2 ! i = sd_slots s1 ! i" by blast
  have "update_slot cfg n s = Some s2"
    using Some s1(1) s2(1) sub i by (simp add: update_slot_def)
  moreover have "unblocked s2" using unblocked_pushes [OF s1(3) un] s2(4,5) by (simp add: unblocked_def)
  moreover have "calm cfg (sd_slots s2) m" if "m < length (sd_slots s)" "calm cfg (sd_slots s) m" for m
    using calm_pushes [OF s1(3) that(2,1)] s2(3,9) by (cases "m = n") (simp_all add: calm_def)
  ultimately show thesis using that [of s2] s2 p by simp
qed

definition settled :: "sched_config \<Rightarrow> sched \<Rightarrow> bool" where
  "settled cfg s \<longleftrightarrow> unblocked s \<and> (\<forall>m < length (sd_slots s). calm cfg (sd_slots s) m)"

lemma update_slots_ok:
  assumes good: "good_config cfg \<rho>"
  shows "sched_inv cfg insts s \<Longrightarrow> unblocked s \<Longrightarrow> set ns \<subseteq> {..<length (sd_slots s)} \<Longrightarrow>
    \<exists>s'. loop_all (update_slot cfg) ns s = Some s' \<and> sched_inv cfg insts s' \<and> unblocked s' \<and>
      (\<forall>m < length (sd_slots s). m \<in> set ns \<or> calm cfg (sd_slots s) m \<longrightarrow> calm cfg (sd_slots s') m) \<and>
      sd_actions s' = sd_actions s \<and> sd_needsUpdate s' = sd_needsUpdate s \<and> length (sd_slots s') = length (sd_slots s)"
proof (induction ns arbitrary: s)
  case (Cons n ns)
  then have "n < length (sd_slots s)" by simp
  from update_slot_ok [OF good Cons.prems(1,2) this] obtain s1 where
    s1: "update_slot cfg n s = Some s1" "sched_inv cfg insts s1" "unblocked s1" "calm cfg (sd_slots s1) n"
    "\<And>m. m < length (sd_slots s) \<Longrightarrow> calm cfg (sd_slots s) m \<Longrightarrow> calm cfg (sd_slots s1) m"
    "sd_actions s1 = sd_actions s" "sd_needsUpdate s1 = sd_needsUpdate s" "length (sd_slots s1) = length (sd_slots s)" by blast
  have "set ns \<subseteq> {..<length (sd_slots s1)}" using Cons.prems(3) s1(8) by simp
  from Cons.IH [OF s1(2,3) this] obtain s' where
    s': "loop_all (update_slot cfg) ns s1 = Some s'" "sched_inv cfg insts s'" "unblocked s'"
    "\<forall>m < length (sd_slots s1). m \<in> set ns \<or> calm cfg (sd_slots s1) m \<longrightarrow> calm cfg (sd_slots s') m"
    "sd_actions s' = sd_actions s1" "sd_needsUpdate s' = sd_needsUpdate s1" "length (sd_slots s') = length (sd_slots s1)"
    by blast
  have "calm cfg (sd_slots s') m" if "m < length (sd_slots s)" "m \<in> set (n # ns) \<or> calm cfg (sd_slots s) m" for m
    using that s1(4,5,8) s'(4) by auto
  with s1 s' show ?case by simp
qed simp

lemma updateStates_ok:
  assumes good: "good_config cfg \<rho>" and inv: "sched_inv cfg insts s"
  obtains sc s' where "updateStates cfg s = Some (sc, s')" "sched_inv cfg insts s'" "settled cfg s'"
    "\<not> sd_needsUpdate s'" "sd_actions s' = sd_actions s"
proof -
  obtain sc s1 where s1: "retry_tasks cfg (length (sd_retry s)) (SUCCESS, s) = Some (sc, s1)" "sched_inv cfg insts s1"
      "pushes_on cfg (s\<lparr>sd_retry := []\<rparr>) s1"
    using retry_tasks_ok [OF good inv order_refl, of SUCCESS] by auto
  have un: "unblocked s1" using pushes_onD(7) [OF s1(3)] by (auto simp: unblocked_def)
  obtain s2 where s2: "loop_all (update_slot cfg) [0..<length (sd_slots s1)] s1 = Some s2" "sched_inv cfg insts s2"
      "unblocked s2" "\<forall>m < length (sd_slots s1). calm cfg (sd_slots s2) m" "sd_actions s2 = sd_actions s1"
      "length (sd_slots s2) = length (sd_slots s1)"
    using update_slots_ok [OF good s1(2) un, of "[0..<length (sd_slots s1)]"] by (auto simp: lessThan_atLeast0)
  let ?s' = "s2\<lparr>sd_needsUpdate := False\<rparr>"
  have "updateStates cfg s = Some (sc, ?s')" using s1(1) s2(1) by (simp add: updateStates_def)
  moreover have "sched_inv cfg insts ?s'" using s2(2) by (simp add: sched_inv_ex_def counts_inv_def)
  moreover have "settled cfg ?s'" using s2 by (simp add: settled_def unblocked_def)
  ultimately show thesis using that s2(5) pushes_onD(4) [OF s1(3)] by simp
qed

end
