(* ===== verification/Scheduler_Events.thy ===== *)
theory Scheduler_Events
  imports Scheduler_Facts
begin

text \<open>
  Where the events are: queued, in a slot, or finished. The scheduler moves them along and makes
  no new ones.
\<close>

definition events_view ::
  "sched \<Rightarrow> event_context option list \<times> event_context list \<times> event_context list \<times> int \<times> activation"
where
  "events_view s = (map (eventContext \<circ> topSlot) (sd_slots s), new_events (sd_actions s), sd_finished s,
     sd_freeSlots s, sd_isActive s)"

definition live_events :: "event_slot list \<Rightarrow> event_context set" where
  "live_events sl = {c. Some c \<in> set (map (eventContext \<circ> topSlot) sl)}"

definition events_of :: "sched \<Rightarrow> event_context set" where
  "events_of s = set (new_events (sd_actions s)) \<union> set (sd_finished s) \<union> live_events (sd_slots s)"

definition no_new_events :: "sched \<Rightarrow> sched \<Rightarrow> bool" where
  "no_new_events s s' \<longleftrightarrow> events_of s' \<subseteq> events_of s \<and> sd_freeSlots s' = sd_freeSlots s \<and> sd_isActive s' = sd_isActive s"

lemma same_view_no_new: "events_view s' = events_view s \<Longrightarrow> no_new_events s s'"
  by (simp add: events_view_def no_new_events_def events_of_def live_events_def)

lemma live_at: "i < length sl \<Longrightarrow> ctx_at sl i = Some c \<Longrightarrow> c \<in> live_events sl"
  by (force simp: live_events_def in_set_conv_nth)

lemma live_closed: "live_events (sl[i := closed ev]) \<subseteq> live_events sl"
  by (auto simp: live_events_def map_update closed_def dest!: set_update_subset_insert [THEN subsetD])

lemma no_new_trans: "no_new_events s t \<Longrightarrow> no_new_events t u \<Longrightarrow> no_new_events s u"
  by (auto simp: no_new_events_def)

lemma no_new_refl: "no_new_events s s"
  by (simp add: no_new_events_def)

lemma top_context_set: "eventContext (topSlot (set_alg_state r a st ev)) = eventContext (topSlot ev)"
  by (cases r) (simp_all add: set_alg_state_def)

lemma map_update_same: "f y = f (xs ! i) \<Longrightarrow> map f (xs[i := y]) = map f xs"
  by (metis list_update_id map_update)

lemma revise_view: "revise cfg a c st False s = Some (sc, s') \<Longrightarrow> events_view s' = events_view s"
  by (auto simp: revise_def Let_def events_view_def map_update_same top_context_set split: if_splits)

lemma schedule_view_same:
  assumes "cg_threadPoolSize cfg \<noteq> - 100" and "schedule cfg ts s = Some (sc, s')"
  shows "events_view s' = events_view s"
proof -
  obtain g x p where a: "acquireAlgorithm (cg_hash cfg) (ts_algName ts) (sd_pool s) = (g, x, p)" by (metis prod_cases3)
  show ?thesis
    using assms a by (auto simp: schedule_def Let_def split: if_splits dest!: revise_view) (simp_all add: events_view_def)
qed

lemma schedule_alg_view:
  "cg_threadPoolSize cfg \<noteq> - 100 \<Longrightarrow> schedule_alg cfg i c a s = Some s' \<Longrightarrow> events_view s' = events_view s"
  by (auto simp: schedule_alg_def Let_def bind_eq_Some_conv dest: schedule_view_same)

lemma loop_all_view:
  assumes "\<And>x s s'. f x s = Some s' \<Longrightarrow> events_view s' = events_view s" and "loop_all f xs s = Some s'"
  shows "events_view s' = events_view s"
  using assms(2) by (induction xs arbitrary: s) (auto simp: bind_eq_Some_conv dest: assms(1))

lemma schedule_ready_view:
  "cg_threadPoolSize cfg \<noteq> - 100 \<Longrightarrow> schedule_ready cfg i c fr s = Some s' \<Longrightarrow> events_view s' = events_view s"
  unfolding schedule_ready_def by (erule loop_all_view [rotated]) (rule schedule_alg_view)

lemma schedule_subslot_view:
  assumes "cg_threadPoolSize cfg \<noteq> - 100" and "schedule_view cfg n i j s = Some s'"
  shows "events_view s' = events_view s"
  using assms(2) unfolding schedule_view_def Let_def
  by (rule loop_all_view [rotated]) (auto simp: bind_eq_Some_conv intro: schedule_alg_view [OF assms(1)])

lemma retry_tasks_view:
  "cg_threadPoolSize cfg \<noteq> - 100 \<Longrightarrow> retry_tasks cfg k (sc, s) = Some (sc', s') \<Longrightarrow> events_view s' = events_view s"
proof (induction k arbitrary: sc s)
  case (Suc k)
  then obtain ts rest sc1 s1 where "sd_retry s = ts # rest" "schedule cfg ts (s\<lparr>sd_retry := rest\<rparr>) = Some (sc1, s1)"
    "retry_tasks cfg k (sc1, s1) = Some (sc', s')"
    by (auto simp: bind_eq_Some_conv split: list.splits)
  then show ?case using Suc.IH [OF Suc.prems(1)] schedule_view_same [OF Suc.prems(1)] by (fastforce simp: events_view_def)
qed simp

lemma finish_slot_cases:
  assumes "finish_slot cfg n c s = Some s'"
  shows "s' = s \<or> (\<exists>i d x. (d = c \<or> i < length (sd_slots s) \<and> ctx_at (sd_slots s) i = Some d) \<and>
    (\<exists>fin. set fin \<subseteq> insert d (set (sd_finished s)) \<and>
      s' = s\<lparr>sd_exec := x, sd_finished := fin, sd_slots := (sd_slots s)[i := closed (sd_slots s ! i)]\<rparr>))"
proof -
  obtain b where b: "CFRulesResolved (cg_graph cfg) (sd_slots s ! n) = Some b"
    using assms by (auto simp: finish_slot_def Let_def bind_eq_Some_conv)
  let ?free = "b \<and> \<not> containsAny (algsStates (topSlot (sd_slots s ! n))) busy_states \<and>
    \<not> subSlotAlgsInStates (sd_slots s ! n) busy_states \<and> \<not> complete (topSlot (sd_slots s ! n))"
  consider "?free" | "\<not> ?free" "isStalled (sd_slots s ! n)" | "\<not> ?free" "\<not> isStalled (sd_slots s ! n)" by blast
  then show ?thesis
  proof cases
    case 1
    then obtain st where "eventStatus c (sd_exec s) = Inr st"
      and "s' = s\<lparr>sd_finished := (if st = ES_Success then sd_finished s @ [c] else sd_finished s),
        sd_slots := (sd_slots s)[n := closed (sd_slots s ! n)]\<rparr>"
      using assms b by (auto simp: finish_slot_def Let_def closed_def split: sum.splits)
    then have "s' = s\<lparr>sd_exec := sd_exec s, sd_finished := (if st = ES_Success then sd_finished s @ [c] else sd_finished s),
        sd_slots := (sd_slots s)[n := closed (sd_slots s ! n)]\<rparr>" by simp
    moreover have "set (if st = ES_Success then sd_finished s @ [c] else sd_finished s) \<subseteq> insert c (set (sd_finished s))" by auto
    ultimately show ?thesis by blast
  next
    case 2
    then obtain x where e: "eventFailed c (s\<lparr>sd_exec := x\<rparr>) = Some s'"
      using assms b by (auto simp: finish_slot_def Let_def with_exec_def bind_eq_Some_conv split: sum.splits if_splits)
    then obtain d where "slot_index c < length (sd_slots s)" "ctx_at (sd_slots s) (slot_index c) = Some d"
      "s' = s\<lparr>sd_exec := x, sd_finished := sd_finished s @ [d],
        sd_slots := (sd_slots s)[slot_index c := closed (sd_slots s ! slot_index c)]\<rparr>"
      by (auto simp: eventFailed_def Let_def closed_def split: if_splits)
    moreover have "set (sd_finished s @ [d]) \<subseteq> insert d (set (sd_finished s))" by auto
    ultimately show ?thesis by blast
  next
    case 3
    then show ?thesis using assms b by (auto simp: finish_slot_def Let_def split: if_splits)
  qed
qed

lemma finish_slot_events:
  assumes "finish_slot cfg n c s = Some s'" and "c \<in> events_of s"
  shows "no_new_events s s'"
  using finish_slot_cases [OF assms(1)]
proof (elim disjE exE conjE)
  fix i d x fin
  assume d: "d = c" and fin: "set fin \<subseteq> insert d (set (sd_finished s))"
    and s': "s' = s\<lparr>sd_exec := x, sd_finished := fin, sd_slots := (sd_slots s)[i := closed (sd_slots s ! i)]\<rparr>"
  show ?thesis
    using assms(2) d fin live_closed [of "sd_slots s" i "sd_slots s ! i"] unfolding s' no_new_events_def events_of_def by auto
next
  fix i d x fin
  assume d: "i < length (sd_slots s)" "ctx_at (sd_slots s) i = Some d" and fin: "set fin \<subseteq> insert d (set (sd_finished s))"
    and s': "s' = s\<lparr>sd_exec := x, sd_finished := fin, sd_slots := (sd_slots s)[i := closed (sd_slots s ! i)]\<rparr>"
  show ?thesis
    using live_at [OF d] fin live_closed [of "sd_slots s" i "sd_slots s ! i"] unfolding s' no_new_events_def events_of_def by auto
qed (simp add: no_new_refl)

lemma finish_slot_length: "finish_slot cfg n c s = Some s' \<Longrightarrow> length (sd_slots s') = length (sd_slots s)"
  by (auto dest!: finish_slot_cases)

lemma view_length: "events_view s' = events_view s \<Longrightarrow> length (sd_slots s') = length (sd_slots s)"
  unfolding events_view_def by (metis length_map prod.inject)

lemma update_slot_parts:
  assumes t: "cg_threadPoolSize cfg \<noteq> - 100" and c: "ctx_at (sd_slots s) n = Some c" and u: "update_slot cfg n s = Some s'"
  obtains s2 where "events_view s2 = events_view s" "finish_slot cfg n c s2 = Some s'"
proof -
  from u c obtain s1 s2 where s: "schedule_ready cfg (slot_index c) c (topSlot (sd_slots s ! n)) s = Some s1"
    "loop_all (schedule_view cfg n (slot_index c)) [0..<length (allSubSlots (sd_slots s1 ! n))] s1 = Some s2"
    "finish_slot cfg n c s2 = Some s'"
    by (auto simp: update_slot_def bind_eq_Some_conv)
  have "events_view s2 = events_view s"
    using loop_all_view [OF schedule_subslot_view [OF t] s(2)] schedule_ready_view [OF t s(1)] by simp
  then show thesis using that s(3) by blast
qed

lemma update_slot_events:
  assumes t: "cg_threadPoolSize cfg \<noteq> - 100" and n: "n < length (sd_slots s)" and u: "update_slot cfg n s = Some s'"
  shows "no_new_events s s' \<and> length (sd_slots s') = length (sd_slots s)"
proof (cases "ctx_at (sd_slots s) n")
  case None
  then show ?thesis using u by (simp add: update_slot_def no_new_refl)
next
  case (Some c)
  obtain s2 where s2: "events_view s2 = events_view s" "finish_slot cfg n c s2 = Some s'"
    by (rule update_slot_parts [OF t Some u])
  have "c \<in> events_of s" using live_at [OF n Some] by (simp add: events_of_def)
  then have "c \<in> events_of s2" using s2(1) by (simp add: events_view_def events_of_def live_events_def)
  then have "no_new_events s2 s'" by (rule finish_slot_events [OF s2(2)])
  moreover have "no_new_events s s2" using s2(1) by (rule same_view_no_new)
  ultimately show ?thesis
    using no_new_trans finish_slot_length [OF s2(2)] view_length [OF s2(1)] by metis
qed

lemma updateStates_events:
  assumes t: "cg_threadPoolSize cfg \<noteq> - 100" and u: "updateStates cfg s = Some (sc, s')"
  shows "no_new_events s s'"
proof -
  obtain s1 s2 where s: "retry_tasks cfg (length (sd_retry s)) (SUCCESS, s) = Some (sc, s1)"
    "loop_all (update_slot cfg) [0..<length (sd_slots s1)] s1 = Some s2" "s' = s2\<lparr>sd_needsUpdate := False\<rparr>"
    using u by (auto simp: updateStates_def bind_eq_Some_conv)
  have "no_new_events a b" if "loop_all (update_slot cfg) ns a = Some b" "set ns \<subseteq> {..<length (sd_slots a)}" for ns a b
    using that
  proof (induction ns arbitrary: a)
    case (Cons n ns)
    then obtain a1 where a1: "update_slot cfg n a = Some a1" "loop_all (update_slot cfg) ns a1 = Some b"
      by (auto simp: bind_eq_Some_conv)
    have a: "no_new_events a a1 \<and> length (sd_slots a1) = length (sd_slots a)"
      using update_slot_events [OF t _ a1(1)] Cons.prems(2) by simp
    then have "no_new_events a1 b" using Cons.IH [OF a1(2)] Cons.prems(2) by simp
    then show ?case using a no_new_trans by blast
  qed (simp add: no_new_refl)
  then have "no_new_events s1 s2" using s(2) by (simp add: lessThan_atLeast0)
  moreover have "no_new_events s2 s'" by (simp add: s(3) no_new_events_def events_of_def live_events_def)
  ultimately show ?thesis
    using same_view_no_new [OF retry_tasks_view [OF t s(1)]] no_new_trans by blast
qed

end
