(* ===== verification/Scheduler_Runs.thy ===== *)
theory Scheduler_Runs
  imports Scheduler_Events
begin

text \<open>
  Runs of the scheduler: every step keeps the invariant and ends, whatever the order in which
  the event loop, the scheduler and the tasks take their turns and whatever the algorithms do.
\<close>

section \<open>The precedence rules inside a run\<close>

lemma tasks_inv_cong:
  assumes "length sl' = length sl" "\<And>i. i < length sl \<Longrightarrow> ctx_at sl' i = ctx_at sl i"
    and "\<And>i a st. i < length sl \<Longrightarrow> a < num_algs cfg \<Longrightarrow> st = SCHEDULED \<or> st = RESOURCELESS \<Longrightarrow>
      (st_at sl' i a = st) = (st_at sl i a = st)"
  shows "tasks_inv cfg X sl' flight retry = tasks_inv cfg X sl flight retry"
proof -
  have "task_at cfg sl' st t = task_at cfg sl st t" if "st = SCHEDULED \<or> st = RESOURCELESS" for st t
    using assms that by (auto simp: task_at_def)
  with assms show ?thesis unfolding tasks_inv_def by (simp cong: conj_cong)
qed

lemma good_graph:
  assumes "good_config cfg \<rho>"
  shows "\<exists>ops. cg_graph cfg = build ops new_graph" "graph_ok (cg_graph cfg)"
    "\<exists>h. g_head (cg_graph cfg) = Some h \<and> hub_node (cg_graph cfg) h \<noteq> None"
  using assms build_ok [OF new_graph_ok] by (auto simp: good_config_def)

lemma good_pool: "good_config cfg \<rho> \<Longrightarrow> cg_threadPoolSize cfg \<noteq> - 100"
  by (simp add: good_config_def)

lemma good_runnable:
  assumes "good_config cfg \<rho>" and "c_source cs = Task \<longrightarrow> c_sourceName cs \<in> set (cg_algname_vect cfg)"
  shows "runnable (prec_env cfg cs) \<rho> (cg_height cfg)"
  using assms good_graph(2) [OF assms(1)] by (auto simp: runnable_def prec_env_def good_config_def)

lemma prec_iterate_ok:
  assumes good: "good_config cfg \<rho>" and inv: "sched_inv_ex cfg insts X s"
    and i: "i < length (sd_slots s)" "ctx_at (sd_slots s) i \<noteq> None"
    and cs: "c_source cs = Task \<longrightarrow> c_sourceName cs \<in> set (cg_algname_vect cfg)"
  obtains s' where "prec_iterate cfg i Top cs s = Some (SUCCESS, s')" "sched_inv_ex cfg insts X s'"
    "sd_actions s' = sd_actions s" "sd_needsUpdate s' = sd_needsUpdate s" "out_tasks s' = out_tasks s"
    "events_view s' = events_view s"
proof -
  let ?ev = "sd_slots s ! i" and ?env = "prec_env cfg cs"
  let ?v = "\<lparr>v_ev = ?ev, v_trace = sd_trace s\<rparr>"
  note d = sched_invD [OF inv]
  have si: "slot_inv cfg i ?ev" using d(1) i(1) by (simp add: slots_inv_def)
  have env: "e_graph ?env = cg_graph cfg" "e_cond ?env = cg_cond cfg" by (simp_all add: prec_env_def)
  obtain ops where ops: "e_graph ?env = build ops new_graph" using good_graph(1) [OF good] env by auto
  obtain h where h: "g_head (e_graph ?env) = Some h" "hub_node (e_graph ?env) h \<noteq> None"
    using good_graph(3) [OF good] env by auto
  have ready: "ready ?env ?v"
    using si i(2) good_graph(2) [OF good] by (simp add: ready_def live_def env slot_inv_def)
  have ref: "ref_ok (v_ev ?v) Top" by (simp add: ref_ok_def)
  obtain v where v: "iterate (visit_fuel (cg_graph cfg) ?ev (cg_height cfg)) ?env Top ?v = Some (SUCCESS, v)"
    using iterate_total [OF good_runnable [OF good cs] ready ref, of "visit_fuel (cg_graph cfg) ?ev (cg_height cfg)"] h env
      iterate_vstep [OF ready_live [OF ready] ref] by fastforce
  let ?s' = "s\<lparr>sd_slots := (sd_slots s)[i := v_ev v], sd_trace := v_trace v\<rparr>"
  have step: "evolves (cg_graph cfg) (cg_cond cfg) ?ev (v_ev v)"
    using iterate_vstep [OF ready_live [OF ready] ref v] by (simp add: vstep_def env)
  then have f: "frame_evolves (cg_graph cfg) (cg_cond cfg) ?ev (v_ev v) Top"
    "graph_slot (cg_graph cfg) (v_ev v)" "length (allSubSlots (v_ev v)) = length (allSubSlots ?ev)"
    by (simp_all add: evolves_def ref_ok_def)
  have "tri_slot (cg_graph cfg) (v_ev v)"
    using tri_slot_evolves [OF step] si by (simp add: slot_inv_def)
  then have "slot_inv cfg i (v_ev v)"
    using si f by (simp add: slot_inv_def frame_evolves_def cong: option.case_cong)
  then have sl: "slots_inv cfg (sd_slots ?s')" using d(1) i(1) by (auto simp: slots_inv_def nth_list_update)
  have ctx: "ctx_at (sd_slots ?s') j = ctx_at (sd_slots s) j" for j
    using f(1) i(1) by (cases "i = j") (simp_all add: frame_evolves_def)
  have st: "(st_at (sd_slots ?s') j a = st) = (st_at (sd_slots s) j a = st)"
    if "a < num_algs cfg" "st = SCHEDULED \<or> st = RESOURCELESS" for j a st
    using f(1) i(1) that by (cases "i = j") (auto simp: frame_evolves_def promoted_def)
  have "tasks_inv cfg X (sd_slots ?s') (flight_tasks ?s') (sd_retry ?s')"
    using tasks_inv_cong [of "sd_slots ?s'" "sd_slots s" cfg X] d(2) ctx st by simp
  moreover have "events_inv cfg (sd_slots ?s') (sd_actions ?s') (sd_finished ?s') (sd_freeSlots ?s')"
    using events_inv_cong [of "sd_slots ?s'" "sd_slots s" cfg] d(1,6) ctx by (simp add: slots_inv_def)
  ultimately have "sched_inv_ex cfg insts X ?s'"
    using d sl by (simp add: sched_inv_ex_def counts_inv_def)
  moreover have "prec_iterate cfg i Top cs s = Some (SUCCESS, ?s')" using v by (simp add: prec_iterate_def)
  moreover have "events_view ?s' = events_view s"
    using ctx [of i] i(1) by (simp add: events_view_def map_update_same)
  ultimately show thesis using that by simp
qed

section \<open>Signing off\<close>

lemma exec_upd:
  assumes "exec_inv cfg x" "slot_index c < cg_maxEvents cfg" "\<not> usesSubSlot c" "n \<in> set (cg_algname_vect cfg)"
  obtains x' where "upd_algExecState (cg_execs cfg) n c f x = Inr x'" "exec_inv cfg x'"
proof -
  obtain a where a: "(xs_algStates x ! slot_index c) n = Some a"
    using assms by (auto simp: exec_inv_def)
  let ?x = "x\<lparr>xs_algStates := (xs_algStates x)[slot_index c := (xs_algStates x ! slot_index c)(n \<mapsto> f a)]\<rparr>"
  have "upd_algExecState (cg_execs cfg) n c f x = Inr ?x"
    using assms a by (simp add: upd_algExecState_def call_once_def exec_inv_def)
  moreover have "exec_inv cfg ?x" using assms by (auto simp: exec_inv_def nth_list_update)
  ultimately show thesis using that by blast
qed

lemma exec_read:
  assumes "exec_inv cfg x" "slot_index c < cg_maxEvents cfg" "\<not> usesSubSlot c" "n \<in> set (cg_algname_vect cfg)"
  shows "\<exists>a. algExecState_const n c x = Inr a"
proof -
  obtain a where "(xs_algStates x ! slot_index c) n = Some a" using assms by (auto simp: exec_inv_def)
  with assms show ?thesis by (simp add: algExecState_const_def checkInit_def exec_inv_def)
qed

lemma exec_count: "exec_inv cfg x \<Longrightarrow> exec_inv cfg (snd (incrementErrorCount n x))"
  by (auto simp: exec_inv_def incrementErrorCount_def split: option.splits)

lemma tasks_inv_signoff:
  assumes sl: "slots_inv cfg sl" and inv: "tasks_inv cfg {} sl (t # flight) retry"
    and st: "st = EVTACCEPTED \<or> st = EVTREJECTED \<or> st = ERROR"
  shows "tasks_inv cfg {} (sl[ts_slotIndex t := set_alg_state Top (ts_algIndex t) st (sl ! ts_slotIndex t)]) flight retry"
proof -
  let ?sl = "sl[ts_slotIndex t := set_alg_state Top (ts_algIndex t) st (sl ! ts_slotIndex t)]"
  have t: "task_at cfg sl SCHEDULED t" and at: "\<And>u. u \<in> set flight \<Longrightarrow> task_at cfg sl SCHEDULED u"
    "\<And>u. u \<in> set retry \<Longrightarrow> task_at cfg sl RESOURCELESS u"
    using inv by (simp_all add: tasks_inv_def)
  have i: "ts_slotIndex t < length sl" "ts_algIndex t < num_algs cfg" using t by (simp_all add: task_at_def)
  have n: "next_state SCHEDULED st = st" using st by (auto simp: next_state_def alg_step.simps)
  have k: "task_key t \<notin> task_key ` set flight" "task_key t \<notin> task_key ` set retry"
    using inv tasks_inv_keys(2) [OF inv t] by (auto simp: tasks_inv_def)
  have other: "task_at cfg ?sl st' u" if "task_at cfg sl st' u" "task_key u \<noteq> task_key t" for st' u
    using task_at_other [OF sl i that(1)] that(2) by (simp add: task_key_def)
  note cover = tasks_inv_cover [OF sl inv t, of _ _ st]
  have self: "st_at ?sl i a = st" if "(i, a) = task_key t" for i a
    using task_at_self [OF sl t n] that by (auto simp: task_at_def task_key_def)
  show ?thesis
    unfolding tasks_inv_def
  proof (intro conjI ballI allI impI)
    show "task_at cfg ?sl SCHEDULED u" if "u \<in> set flight" for u
      using other [OF at(1) [OF that]] other_key [OF k(1) that] by simp
    show "task_at cfg ?sl RESOURCELESS u" if "u \<in> set retry" for u
      using other [OF at(2) [OF that]] other_key [OF k(2) that] by simp
    fix i a assume ia: "i < length ?sl" "a < num_algs cfg" "ctx_at ?sl i \<noteq> None"
    then have ia': "i < length sl" "ctx_at sl i \<noteq> None" by (simp_all add: set_top_eq)
    show "(i, a) \<in> task_key ` set flight" if "st_at ?sl i a = SCHEDULED"
    proof -
      have ne: "(i, a) \<noteq> task_key t" using self [of i a] that st by auto
      show ?thesis using cover(1) [OF ia'(1) ia(2) ia'(2) ne that] ne by auto
    qed
    show "(i, a) \<in> task_key ` set retry \<union> {}" if "st_at ?sl i a = RESOURCELESS"
    proof -
      have ne: "(i, a) \<noteq> task_key t" using self [of i a] that st by auto
      show ?thesis using cover(2) [OF ia'(1) ia(2) ia'(2) ne that] by simp
    qed
  qed (use inv in \<open>auto simp: tasks_inv_def\<close>)
qed

lemma signoff_ok:
  assumes good: "good_config cfg \<rho>" and inv: "sched_inv cfg insts s" and act: "sd_actions s = Signoff t # rest"
  obtains sc s' where "signoff cfg t (s\<lparr>sd_actions := rest\<rparr>) = Some (sc, s')" "sched_inv cfg insts s'"
    "sd_needsUpdate s'" "sd_actions s' = rest" "no_new_events s s'"
proof -
  note d = sched_invD [OF inv]
  have tm: "mset (flight_tasks s) = mset (t # out_tasks s @ signoffs rest)" using act by simp
  have ti: "tasks_inv cfg {} (sd_slots s) (t # out_tasks s @ signoffs rest) (sd_retry s)"
    using d(2) tasks_inv_perm [OF tm] by simp
  then have t: "task_at cfg (sd_slots s) SCHEDULED t" by (simp add: tasks_inv_def)
  then have tf: "ts_slotIndex t < length (sd_slots s)" "ctx_at (sd_slots s) (ts_slotIndex t) = Some (ts_contextPtr t)"
    "\<not> ts_blocking t" "ts_algIndex t < num_algs cfg" "ts_algName t = cg_algname_vect cfg ! ts_algIndex t"
    by (simp_all add: task_at_def)
  have name: "ts_algName t \<in> set (cg_algname_vect cfg)" using tf good by (simp add: good_config_def)
  note c = slot_of_context [OF d(1) tf(1,2)]
  have ci: "slot_index (ts_contextPtr t) < cg_maxEvents cfg" using c(1) tf(1) d(1) by (simp add: slots_inv_def)
  obtain x where x: "upd_algExecState (cg_execs cfg) (ts_algName t) (ts_contextPtr t) id (sd_exec s) = Inr x" "exec_inv cfg x"
    using exec_upd [OF d(4) ci c(2) name] by blast
  obtain as where as: "algExecState_const (ts_algName t) (ts_contextPtr t) x = Inr as"
    using exec_read [OF x(2) ci c(2) name] by blast
  define st where "st = (if status_success (ae_execStatus as) then if ae_filterPassed as then EVTACCEPTED else EVTREJECTED else ERROR)"
  have st: "st = EVTACCEPTED \<or> st = EVTREJECTED \<or> st = ERROR" by (simp add: st_def)
  let ?s1 = "s\<lparr>sd_actions := rest, sd_algosInFlight := sd_algosInFlight s - 1, sd_exec := x\<rparr>"
  let ?s2 = "put_top (ts_slotIndex t) (ts_algIndex t) st ?s1"
  have "tasks_inv cfg {} (sd_slots ?s2) (flight_tasks ?s2) (sd_retry ?s2)"
    using tasks_inv_signoff [OF d(1) ti st] by (simp add: put_top_def)
  moreover have "counts_inv ?s2" using d(5) act by (simp add: counts_inv_def put_top_def)
  moreover have "events_inv cfg (sd_slots s) rest (sd_finished s) (sd_freeSlots s)"
    using d(6) act by (simp add: events_inv_def)
  ultimately have inv2: "sched_inv cfg insts ?s2"
    using d x(2) slots_inv_set [OF d(1) tf(1)] events_inv_set [OF d(1)] by (simp add: sched_inv_ex_def put_top_def)
  have ok: "fst (set_state (ts_algIndex t) st (algsStates (topSlot (sd_slots s ! ts_slotIndex t)))) = SUCCESS"
    using set_state_cases [of "algsStates (topSlot (sd_slots s ! ts_slotIndex t))" "ts_algIndex t" st] t tf(4)
      top_frame [OF d(1) tf(1)] st
    by (auto simp: task_at_def alg_state_of_def frame_ok_def states_size_def alg_step.simps)
  let ?cs = "task_cause (index2algname cfg (ts_algIndex t))"
  have "c_sourceName ?cs \<in> set (cg_algname_vect cfg)" using name tf(5) by (simp add: task_cause_def index2algname_def)
  moreover have "ts_slotIndex t < length (sd_slots ?s2)" "ctx_at (sd_slots ?s2) (ts_slotIndex t) \<noteq> None"
    using tf(1,2) by (simp_all add: put_top_def set_top_fields)
  ultimately obtain s3 where s3: "prec_iterate cfg (ts_slotIndex t) Top ?cs ?s2 = Some (SUCCESS, s3)" "sched_inv cfg insts s3"
      "sd_actions s3 = sd_actions ?s2" "events_view s3 = events_view ?s2"
    using prec_iterate_ok [OF good inv2] by metis
  have "events_view ?s2 = events_view s"
    using act by (simp add: events_view_def put_top_def map_update_same top_context_set)
  then have nn: "no_new_events s (s3\<lparr>sd_needsUpdate := True\<rparr>)"
    using s3(4) by (intro same_view_no_new) (simp add: events_view_def)
  have "revise cfg (ts_algIndex t) (ts_contextPtr t) st True ?s1 = Some (SUCCESS, s3)"
    using s3(1) ok tf(1) c by (simp add: revise_def Let_def ref_ok_def put_top_def)
  then have "signoff cfg t (s\<lparr>sd_actions := rest\<rparr>) = Some (SUCCESS, s3\<lparr>sd_needsUpdate := True\<rparr>)"
    using x(1) as tf(3) by (simp add: signoff_def with_exec_def st_def Let_def)
  moreover have "sched_inv cfg insts (s3\<lparr>sd_needsUpdate := True\<rparr>)"
    using s3(2) by (simp add: sched_inv_ex_def counts_inv_def)
  ultimately show thesis using that s3(3) nn by (simp add: put_top_def)
qed

section \<open>A new event\<close>

lemma reset_inv:
  assumes "graph_slot (cg_graph cfg) ev" "slot_index c = i" "\<not> usesSubSlot c"
  shows "slot_inv cfg i (reset_slot c ev)"
proof -
  have g: "graph_slot (cg_graph cfg) (reset_slot c ev)" using assms(1) by (rule reset_slot_ok)
  have "length (controlFlowState (topSlot ev)) = g_nodeCounter (cg_graph cfg)"
    using graph_frame [OF assms(1), of Top] by (simp add: ref_ok_def)
  then have "decision_of (reset_slot c ev) Top n = - 1" if "n < g_nodeCounter (cg_graph cfg)" for n
    using that by (simp add: decision_of_def reset_slot_def)
  then have "tri_slot (cg_graph cfg) (reset_slot c ev)"
    by (auto simp: tri_slot_def tri_def ref_ok_def reset_slot_def split: slot_ref.splits)
  with g assms(2,3) show ?thesis by (simp add: slot_inv_def) (simp add: reset_slot_def)
qed

lemma reset_states_top:
  assumes "graph_slot (cg_graph cfg) ev" "a < num_algs cfg"
  shows "alg_state_of (reset_slot c ev) Top a = INITIAL"
proof -
  have "states_size (algsStates (topSlot ev)) = num_algs cfg"
    using assms(1) by (simp add: slot_ok_def frames_def frame_ok_def)
  with assms(2) show ?thesis
    by (simp add: alg_state_of_def reset_slot_def state_of_def reset_states_def states_size_def)
qed

lemma new_event_ok:
  assumes good: "good_config cfg \<rho>" and inv: "sched_inv cfg insts s" and act: "sd_actions s = New_event c # rest"
  obtains sc s' where "new_event cfg c (s\<lparr>sd_actions := rest\<rparr>) = Some (sc, s')" "sched_inv cfg insts s'"
    "settled cfg s'" "\<not> sd_needsUpdate s'" "sd_actions s' = rest" "no_new_events s s'"
proof -
  note d = sched_invD [OF inv]
  let ?i = "slot_index c"
  have ev: "?i < cg_maxEvents cfg" "ctx_at (sd_slots s) ?i = None" "\<not> usesSubSlot c"
    and dist: "?i \<notin> slot_index ` set (new_events rest @ sd_finished s)" "distinct (map slot_index (new_events rest @ sd_finished s))"
    using d(6) act by (auto simp: events_inv_def)
  have len: "length (sd_slots s) = cg_maxEvents cfg" using d(1) by (simp add: slots_inv_def)
  then have i: "?i < length (sd_slots s)" using ev(1) by simp
  then have si: "slot_inv cfg ?i (sd_slots s ! ?i)" using d(1) by (simp add: slots_inv_def)
  then have g: "graph_slot (cg_graph cfg) (sd_slots s ! ?i)" "complete (topSlot (sd_slots s ! ?i))"
    using ev(2) by (simp_all add: slot_inv_def)
  let ?sl = "(sd_slots s)[?i := reset_slot c (sd_slots s ! ?i)]"
  let ?s1 = "s\<lparr>sd_actions := rest, sd_slots := ?sl\<rparr>"
  have ctx: "ctx_at ?sl j = (if j = ?i then Some c else ctx_at (sd_slots s) j)" for j
    using i by (cases "j = ?i") (auto simp: reset_slot_def)
  have sl: "slots_inv cfg ?sl"
    using d(1) reset_inv [OF g(1) refl ev(3)] ev(1) by (auto simp: slots_inv_def nth_list_update)
  have st: "st_at ?sl ?i a = INITIAL" if "a < num_algs cfg" for a
    using reset_states_top [OF g(1) that] i by simp
  have task: "task_at cfg ?sl st t" if "task_at cfg (sd_slots s) st t" for st t
  proof -
    have "ts_slotIndex t \<noteq> ?i" using that ev(2) by (auto simp: task_at_def)
    with that show ?thesis by (simp add: task_at_def)
  qed
  have fl: "flight_tasks s = out_tasks s @ signoffs rest" using act by simp
  have ti: "\<And>t. t \<in> set (flight_tasks s) \<Longrightarrow> task_at cfg (sd_slots s) SCHEDULED t"
    "\<And>t. t \<in> set (sd_retry s) \<Longrightarrow> task_at cfg (sd_slots s) RESOURCELESS t"
    "distinct (map task_key (flight_tasks s))" "distinct (map task_key (sd_retry s))"
    using d(2) unfolding tasks_inv_def by blast+
  have "tasks_inv cfg {} ?sl (flight_tasks s) (sd_retry s)"
    unfolding tasks_inv_def
  proof (intro conjI ballI allI impI)
    fix i a assume ia: "i < length ?sl" "a < num_algs cfg" "ctx_at ?sl i \<noteq> None"
    show "(i, a) \<in> task_key ` set (flight_tasks s)" if "st_at ?sl i a = SCHEDULED"
      using that ia st [OF ia(2)] d(2) by (cases "i = ?i") (simp_all add: tasks_inv_def)
    show "(i, a) \<in> task_key ` set (sd_retry s) \<union> {}" if "st_at ?sl i a = RESOURCELESS"
      using that ia st [OF ia(2)] d(2) by (cases "i = ?i") (simp_all add: tasks_inv_def)
  qed (use ti task in auto)
  then have ti': "tasks_inv cfg {} (sd_slots ?s1) (flight_tasks ?s1) (sd_retry ?s1)" using fl by simp
  have live: "live_slots ?sl = insert ?i (live_slots (sd_slots s))" "?i \<notin> live_slots (sd_slots s)"
    "finite (live_slots (sd_slots s))"
    using ctx i ev(2) by (auto simp: live_slots_def)
  have "slot_index e < cg_maxEvents cfg \<and> ctx_at ?sl (slot_index e) = None \<and> \<not> usesSubSlot e"
    if "e \<in> set (new_events rest @ sd_finished s)" for e
  proof -
    have "slot_index e \<noteq> ?i" using dist(1) that by (metis imageI)
    with d(6) act that ctx [of "slot_index e"] show ?thesis by (auto simp: events_inv_def)
  qed
  moreover have "\<forall>a \<in> set rest. (\<exists>c. a = New_event c) \<or> (\<exists>t. a = Signoff t)" "0 \<le> sd_freeSlots s"
    "sd_freeSlots s + int (length (new_events rest) + length (sd_finished s) + card (live_slots ?sl)) \<le> int (cg_maxEvents cfg)"
    using d(6) act live by (simp_all add: events_inv_def)
  ultimately have "events_inv cfg ?sl rest (sd_finished s) (sd_freeSlots s)"
    using dist(2) unfolding events_inv_def by blast
  then have inv1: "sched_inv cfg insts ?s1"
    using d sl ti' act by (simp add: sched_inv_ex_def counts_inv_def)
  have "?i < length (sd_slots ?s1)" "ctx_at (sd_slots ?s1) ?i \<noteq> None" using i ctx [of ?i] by simp_all
  from prec_iterate_ok [OF good inv1 this, of root_decision] obtain s2 where
    s2: "prec_iterate cfg ?i Top root_decision ?s1 = Some (SUCCESS, s2)" "sched_inv cfg insts s2" "sd_actions s2 = sd_actions ?s1"
    "events_view s2 = events_view ?s1"
    by (auto simp: root_decision_def)
  obtain sc s3 where s3: "updateStates cfg s2 = Some (sc, s3)" "sched_inv cfg insts s3" "settled cfg s3"
      "\<not> sd_needsUpdate s3" "sd_actions s3 = sd_actions s2"
    using updateStates_ok [OF good s2(2)] by blast
  have "new_event cfg c (s\<lparr>sd_actions := rest\<rparr>) = Some (if sc \<noteq> SUCCESS then FAILURE else SUCCESS, s3)"
    using i g(2) s2(1) s3(1) by (simp add: new_event_def Let_def)
  moreover have "live_events ?sl \<subseteq> insert c (live_events (sd_slots s))"
    by (auto simp: live_events_def map_update reset_slot_def dest!: set_update_subset_insert [THEN subsetD])
  then have "no_new_events s ?s1" using act by (auto simp: no_new_events_def events_of_def)
  then have "no_new_events s s3"
    using same_view_no_new [OF s2(4)] updateStates_events [OF good_pool [OF good] s3(1)] no_new_trans by blast
  ultimately show thesis using that s3 s2(3) by simp
qed

text \<open>\<open>rested\<close>: when the queue of actions is empty, nothing is left to do but wait for tasks.\<close>

definition rested :: "sched_config \<Rightarrow> sched \<Rightarrow> bool" where
  "rested cfg s \<longleftrightarrow> (sd_actions s = [] \<longrightarrow> settled cfg s)"

lemma turn_ok:
  assumes good: "good_config cfg \<rho>" and inv: "sched_inv cfg insts s" and act: "sd_actions s \<noteq> []"
  obtains s' where "activate_turn cfg s = Some s'" "sched_inv cfg insts s'" "rested cfg s'" "no_new_events s s'"
proof -
  obtain a rest where a: "sd_actions s = a # rest" using act by (cases "sd_actions s") auto
  then consider c where "a = New_event c" | t where "a = Signoff t"
    using sched_invD(6) [OF inv] by (auto simp: events_inv_def)
  then show thesis
  proof cases
    case 1
    from new_event_ok [OF good inv a [unfolded 1]] obtain sc s' where
      "new_event cfg c (s\<lparr>sd_actions := rest\<rparr>) = Some (sc, s')" "sched_inv cfg insts s'" "settled cfg s'" "\<not> sd_needsUpdate s'"
      "no_new_events s s'" by blast
    then show thesis using that [of s'] a 1 by (simp add: activate_turn_def rested_def)
  next
    case 2
    from signoff_ok [OF good inv a [unfolded 2]] obtain sc s1 where
      s1: "signoff cfg t (s\<lparr>sd_actions := rest\<rparr>) = Some (sc, s1)" "sched_inv cfg insts s1" "sd_needsUpdate s1" "sd_actions s1 = rest"
      "no_new_events s s1" by blast
    show thesis
    proof (cases "rest = []")
      case True
      obtain sc' s' where u: "updateStates cfg s1 = Some (sc', s')" "sched_inv cfg insts s'" "settled cfg s'"
        using updateStates_ok [OF good s1(2)] by blast
      have "no_new_events s s'" using s1(5) updateStates_events [OF good_pool [OF good] u(1)] by (rule no_new_trans)
      then show thesis using that [of s'] a 2 s1 u True by (simp add: activate_turn_def rested_def)
    next
      case False
      then show thesis using that [of s1] a 2 s1 by (simp add: activate_turn_def rested_def)
    qed
  qed
qed

section \<open>Tasks\<close>

lemma sysExecute_ok:
  assumes "exec_inv cfg x" "slot_index c < cg_maxEvents cfg" "\<not> usesSubSlot c" "n \<in> set (cg_algname_vect cfg)"
  shows "\<exists>r x'. sysExecute (cg_execs cfg) exc ac n c body x = Inr (r, x') \<and> exec_inv cfg x'"
proof (cases "ac_isEnabled ac")
  case True
  have upd: "\<exists>y'. upd_algExecState (cg_execs cfg) n c f y = Inr y' \<and> exec_inv cfg y'" if "exec_inv cfg y" for f y
    using exec_upd [OF that assms(2-4)] by blast
  obtain x1 where x1: "upd_algExecState (cg_execs cfg) n c (\<lambda>a. a\<lparr>ae_state := RS_Executing\<rparr>) x = Inr x1" "exec_inv cfg x1"
    using upd [OF assms(1)] by blast
  have "\<exists>x2. (case ab_setFilterPassed body of None \<Rightarrow> Inr x1
      | Some b \<Rightarrow> upd_algExecState (cg_execs cfg) n c (\<lambda>a. a\<lparr>ae_filterPassed := b\<rparr>) x1) = Inr x2 \<and> exec_inv cfg x2"
    using upd [OF x1(2)] x1(2) by (simp split: option.split)
  then obtain x2 where x2: "(case ab_setFilterPassed body of None \<Rightarrow> Inr x1
      | Some b \<Rightarrow> upd_algExecState (cg_execs cfg) n c (\<lambda>a. a\<lparr>ae_filterPassed := b\<rparr>) x1) = Inr x2" "exec_inv cfg x2"
    by blast
  have "\<exists>x3. (if ab_outcome body = Returns (Filter_decision False)
      then upd_algExecState (cg_execs cfg) n c (\<lambda>a. a\<lparr>ae_filterPassed := False\<rparr>) x2 else Inr x2) = Inr x3 \<and> exec_inv cfg x3"
    using upd [OF x2(2)] x2(2) by simp
  then obtain x3 where x3: "(if ab_outcome body = Returns (Filter_decision False)
      then upd_algExecState (cg_execs cfg) n c (\<lambda>a. a\<lparr>ae_filterPassed := False\<rparr>) x2 else Inr x2) = Inr x3" "exec_inv cfg x3"
    by blast
  have final: "\<exists>r x'. (let (status, s) = count_error ac n st x3
      in sum_bind (upd_algExecState (cg_execs cfg) n c (\<lambda>a. a\<lparr>ae_state := RS_Done, ae_execStatus := status\<rparr>) s)
           (\<lambda>s. Inr (Some status, s))) = Inr (r, x') \<and> exec_inv cfg x'" for st
  proof -
    obtain st' y where y: "count_error ac n st x3 = (st', y)" by fastforce
    have "exec_inv cfg y" using y x3(2) exec_count [OF x3(2), of n] by (auto simp: count_error_def split: if_splits prod.splits)
    then obtain z where "upd_algExecState (cg_execs cfg) n c (\<lambda>a. a\<lparr>ae_state := RS_Done, ae_execStatus := st'\<rparr>) y = Inr z"
      "exec_inv cfg z" using upd by blast
    then show ?thesis by (simp add: y)
  qed
  show ?thesis unfolding sysExecute_def
    using True x1(1) x2(1) x3 final by (simp split: option.split)
qed (use assms(1) in \<open>simp add: sysExecute_def\<close>)

lemma pool_inv_release:
  assumes inv: "pool_inv cfg insts p (t # out)" and i: "ts_algPtr t = Some i"
  shows "pool_inv cfg insts (releaseAlgorithm (cg_hash cfg) (ts_algName t) i p) out"
proof -
  obtain held where h: "mset held = image_mset task_holds (mset (t # out))" "pool_ok (cg_hash cfg) insts p held"
    using inv by (auto simp: pool_inv_def)
  have t: "task_holds t = (ts_algName t, i)" using i by (simp add: task_holds_def)
  have mem: "(ts_algName t, i) \<in> set held" using arg_cong [OF h(1), of set_mset] t by auto
  have "mset (remove1 (ts_algName t, i) held) = image_mset task_holds (mset out)" using h(1) t by simp
  then have "\<exists>held. mset held = image_mset task_holds (mset out) \<and>
      pool_ok (cg_hash cfg) insts (releaseAlgorithm (cg_hash cfg) (ts_algName t) i p) held"
    using release_ok [OF h(2) mem] by blast
  then show ?thesis using inv known_kept(2) unfolding pool_inv_def by auto
qed

lemma nth_split: "j < length xs \<Longrightarrow> mset xs = add_mset (xs ! j) (mset (take j xs @ drop (Suc j) xs))"
  by (metis id_take_nth_drop mset.simps(2) mset_append union_mset_add_mset_right)

lemma end_task_ok:
  assumes good: "good_config cfg \<rho>" and inv: "sched_inv cfg insts s" and j: "j < length (sd_running s)"
  obtains s' where "sched_step cfg (End_task j body) s = Some s'" "sched_inv cfg insts s'" "sd_actions s' \<noteq> []"
proof -
  note d = sched_invD [OF inv]
  let ?t = "sd_running s ! j" and ?run = "take j (sd_running s) @ drop (Suc j) (sd_running s)"
  have tin: "?t \<in> set (flight_tasks s)" using j by simp
  then have t: "task_at cfg (sd_slots s) SCHEDULED ?t" using d(2) by (simp add: tasks_inv_def)
  then have tf: "ts_slotIndex ?t < length (sd_slots s)" "ctx_at (sd_slots s) (ts_slotIndex ?t) = Some (ts_contextPtr ?t)"
    "ts_algIndex ?t < num_algs cfg" "ts_algName ?t = cg_algname_vect cfg ! ts_algIndex ?t" by (simp_all add: task_at_def)
  have name: "ts_algName ?t \<in> set (cg_algname_vect cfg)" using tf good by (simp add: good_config_def)
  note c = slot_of_context [OF d(1) tf(1,2)]
  have ci: "slot_index (ts_contextPtr ?t) < cg_maxEvents cfg" using c(1) tf(1) d(1) by (simp add: slots_inv_def)
  obtain i where i: "ts_algPtr ?t = Some i" using d(3) j by (fastforce simp: pool_inv_def)
  obtain r x where x: "sysExecute (cg_execs cfg) (cg_exceptions cfg) (cg_algs cfg (ts_algName ?t)) (ts_algName ?t)
      (ts_contextPtr ?t) body (sd_exec s) = Inr (r, x)" "exec_inv cfg x"
    using sysExecute_ok [OF d(4) ci c(2) name] by blast
  obtain b where b: "(case r of None \<Rightarrow> True | Some sc \<Rightarrow> \<not> status_success sc) = b" by blast
  obtain y where y: "updateEventStatus (cg_execs cfg) b (ts_contextPtr ?t) x = Inr y" "exec_inv cfg y"
    using exec_inv_status(3) [OF x(2) ci] by blast
  let ?s' = "s\<lparr>sd_running := ?run, sd_exec := y, sd_pool := releaseAlgorithm (cg_hash cfg) (ts_algName ?t) i (sd_pool s),
    sd_actions := sd_actions s @ [Signoff ?t]\<rparr>"
  have step: "sched_step cfg (End_task j body) s = Some ?s'"
    using j i x(1) y(1) b by (auto simp: task_body_def with_exec_def Let_def split: option.splits)
  have m: "mset (sd_running s) = add_mset ?t (mset ?run)" by (rule nth_split [OF j])
  then have "mset (out_tasks s) = mset (?t # sd_scheduled s @ ?run)" by simp
  then have "pool_inv cfg insts (sd_pool s) (?t # sd_scheduled s @ ?run)" using d(3) pool_inv_perm by metis
  then have pool: "pool_inv cfg insts (sd_pool ?s') (out_tasks ?s')" using pool_inv_release [OF _ i] by simp
  have fm: "mset (flight_tasks ?s') = mset (flight_tasks s)" using m by simp
  have tasks: "tasks_inv cfg {} (sd_slots s) (flight_tasks ?s') (sd_retry s)" using d(2) unfolding tasks_inv_perm [OF fm] .
  have fl: "length (flight_tasks ?s') = length (flight_tasks s)" using fm by (rule mset_eq_length)
  have counts: "counts_inv ?s'" using d(5) unfolding counts_inv_def fl by simp
  have events: "events_inv cfg (sd_slots s) (sd_actions ?s') (sd_finished s) (sd_freeSlots s)"
    using d(6) by (auto simp: events_inv_def)
  show thesis
    by (rule that [OF step]) (use d y(2) pool tasks counts events in \<open>simp_all add: sched_inv_ex_def\<close>)
qed

lemma try_pop_some:
  assumes "q \<noteq> []"
  obtains t where "try_pop k q = Some (t, remove1 t q)" "t \<in> set q"
proof -
  let ?m = "Max (ts_algRank ` set q)"
  have "?m \<in> ts_algRank ` set q" by (rule Max_in) (use assms in auto)
  then obtain t where t: "?m = ts_algRank t" "t \<in> set q" by (rule imageE)
  have "ts_algRank u \<le> ts_algRank t" if "u \<in> set q" for u using t(1) that by (metis List.finite_set Max_ge finite_imageI imageI)
  then have "t \<in> set (top_ranked q)" using t(2) by (simp add: top_ranked_def list_all_iff)
  then have ne: "top_ranked q \<noteq> []" by auto
  let ?t = "top_ranked q ! (k mod length (top_ranked q))"
  have "?t \<in> set (top_ranked q)" using ne by (simp add: nth_mem)
  then have "?t \<in> set q" by (simp add: top_ranked_def)
  with assms show thesis using that [of ?t] by (simp add: try_pop_def Let_def)
qed

lemma replicate_gap: "j < n \<Longrightarrow> take j (replicate n x) @ drop (Suc j) (replicate n x) = replicate (n - 1) x"
  by (simp add: min_def flip: replicate_add)

lemma start_task_ok:
  assumes inv: "sched_inv cfg insts s" and j: "j < length (sd_waiting s)"
  obtains t s' where "sched_step cfg (Start_task j k) s = Some s'" "t \<in> set (sd_scheduled s)"
    "s' = s\<lparr>sd_waiting := take j (sd_waiting s) @ drop (Suc j) (sd_waiting s),
            sd_scheduled := remove1 t (sd_scheduled s), sd_running := sd_running s @ [t]\<rparr>" "sched_inv cfg insts s'"
proof -
  note d = sched_invD [OF inv]
  have w: "sd_waiting s = replicate (length (sd_scheduled s)) False" using d(5) by (simp add: counts_inv_def)
  then have ne: "sd_scheduled s \<noteq> []" "\<not> sd_waiting s ! j" using j by auto
  obtain t where t: "try_pop k (sd_scheduled s) = Some (t, remove1 t (sd_scheduled s))" "t \<in> set (sd_scheduled s)"
    using try_pop_some [OF ne(1)] by blast
  let ?s' = "s\<lparr>sd_waiting := take j (sd_waiting s) @ drop (Suc j) (sd_waiting s),
    sd_scheduled := remove1 t (sd_scheduled s), sd_running := sd_running s @ [t]\<rparr>"
  have step: "sched_step cfg (Start_task j k) s = Some ?s'" using j ne(2) t(1) by (simp add: next_task_def)
  have m: "mset (sd_scheduled s) = add_mset t (mset (remove1 t (sd_scheduled s)))" using t(2) by simp
  have "mset (out_tasks ?s') = mset (out_tasks s)" using m by simp
  then have pool: "pool_inv cfg insts (sd_pool s) (out_tasks ?s')" using d(3) pool_inv_perm by metis
  have fm: "mset (flight_tasks ?s') = mset (flight_tasks s)" using m by simp
  have tasks: "tasks_inv cfg {} (sd_slots s) (flight_tasks ?s') (sd_retry s)" using d(2) unfolding tasks_inv_perm [OF fm] .
  have len: "length (sd_scheduled s) = Suc (length (remove1 t (sd_scheduled s)))" using m by (metis size_add_mset size_mset)
  have jl: "j < length (sd_scheduled s)" using j w by simp
  have "sd_waiting ?s' = replicate (length (sd_scheduled ?s')) False"
    unfolding w using replicate_gap [OF jl] len by simp
  then have counts: "counts_inv ?s'" using d(5) len by (simp add: counts_inv_def)
  show thesis
    by (rule that [OF step t(2)]) (use d pool tasks counts in \<open>simp_all add: sched_inv_ex_def\<close>)
qed

section \<open>All runs\<close>

text \<open>The event loop pushes an event into a slot that is not in use; the whiteboard gave it out.\<close>

definition idle_slot :: "sched_config \<Rightarrow> sched \<Rightarrow> event_context \<Rightarrow> bool" where
  "idle_slot cfg s c \<longleftrightarrow>
     slot_index c < cg_maxEvents cfg \<and> \<not> usesSubSlot c \<and> ctx_at (sd_slots s) (slot_index c) = None \<and>
     slot_index c \<notin> slot_index ` set (new_events (sd_actions s) @ sd_finished s)"

fun client_ok :: "sched_config \<Rightarrow> sched \<Rightarrow> sched_op \<Rightarrow> bool" where
  "client_ok cfg s (Push_event c) = idle_slot cfg s c"
| "client_ok cfg s (Reset_event c) = idle_slot cfg s c"
| "client_ok cfg s _ = True"

lemma reset_exec_ok:
  assumes "exec_inv cfg x" "slot_index c < cg_maxEvents cfg"
  obtains x' where "xs_reset (cg_execs cfg) c x = Inr x'" "exec_inv cfg x'"
proof -
  have r: "reset_map m n \<noteq> None" if "m n \<noteq> None" for m n using that by (simp add: reset_map_def)
  have "\<exists>x'. xs_reset (cg_execs cfg) c x = Inr x' \<and> exec_inv cfg x'"
    using assms r by (auto simp: xs_reset_def call_once_def exec_inv_def Let_def nth_list_update)
  then show thesis using that by blast
qed

lemma push_ok:
  assumes inv: "sched_inv cfg insts s" and r: "rested cfg s" and c: "idle_slot cfg s c"
  obtains s' where "sched_step cfg (Push_event c) s = Some s'" "sched_inv cfg insts s'" "rested cfg s'"
proof -
  note d = sched_invD [OF inv]
  show thesis
  proof (cases "sd_freeSlots s = 0")
    case True
    then show thesis using that [of s] inv r by (simp add: pushNewEvent_def)
  next
    case False
    let ?s' = "s\<lparr>sd_freeSlots := sd_freeSlots s - 1, sd_actions := sd_actions s @ [New_event c]\<rparr>"
    have "distinct (map slot_index (new_events (sd_actions ?s') @ sd_finished s))"
      using d(6) c by (auto simp: events_inv_def idle_slot_def)
    moreover have "\<forall>e \<in> set (new_events (sd_actions ?s') @ sd_finished s).
        slot_index e < cg_maxEvents cfg \<and> ctx_at (sd_slots s) (slot_index e) = None \<and> \<not> usesSubSlot e"
      using d(6) c by (auto simp: events_inv_def idle_slot_def)
    ultimately have "events_inv cfg (sd_slots s) (sd_actions ?s') (sd_finished s) (sd_freeSlots s - 1)"
      using d(6) False unfolding events_inv_def by simp
    then have "sched_inv cfg insts ?s'" using d by (simp add: sched_inv_ex_def counts_inv_def)
    then show thesis using that [of ?s'] False by (simp add: pushNewEvent_def rested_def)
  qed
qed

lemma reset_ok:
  assumes inv: "sched_inv cfg insts s" and r: "rested cfg s" and c: "idle_slot cfg s c"
  obtains s' where "sched_step cfg (Reset_event c) s = Some s'" "sched_inv cfg insts s'" "rested cfg s'"
proof -
  note d = sched_invD [OF inv]
  obtain x where x: "xs_reset (cg_execs cfg) c (sd_exec s) = Inr x" "exec_inv cfg x"
    using reset_exec_ok [OF d(4)] c by (auto simp: idle_slot_def)
  have "sched_inv cfg insts (s\<lparr>sd_exec := x\<rparr>)" using d x(2) by (simp add: sched_inv_ex_def counts_inv_def)
  then show thesis using that [of "s\<lparr>sd_exec := x\<rparr>"] x(1) r
    by (simp add: with_exec_def rested_def settled_def unblocked_def)
qed

lemma pop_ok:
  assumes inv: "sched_inv cfg insts s" and r: "rested cfg s" and f: "sd_finished s = c # cs"
  shows "sched_inv cfg insts (s\<lparr>sd_finished := cs, sd_freeSlots := sd_freeSlots s + 1\<rparr>)"
    and "rested cfg (s\<lparr>sd_finished := cs, sd_freeSlots := sd_freeSlots s + 1\<rparr>)"
proof -
  note d = sched_invD [OF inv]
  have "events_inv cfg (sd_slots s) (sd_actions s) cs (sd_freeSlots s + 1)"
    using d(6) f by (auto simp: events_inv_def)
  then show "sched_inv cfg insts (s\<lparr>sd_finished := cs, sd_freeSlots := sd_freeSlots s + 1\<rparr>)"
    using d by (simp add: sched_inv_ex_def counts_inv_def)
  show "rested cfg (s\<lparr>sd_finished := cs, sd_freeSlots := sd_freeSlots s + 1\<rparr>)"
    using r by (simp add: rested_def settled_def unblocked_def)
qed

lemma step_ok:
  assumes good: "good_config cfg \<rho>" and inv: "sched_inv cfg insts s" and r: "rested cfg s" and op: "client_ok cfg s op"
  obtains s' where "sched_step cfg op s = Some s'" "sched_inv cfg insts s'" "rested cfg s'"
proof (cases op)
  case (Push_event c)
  then show thesis using push_ok [OF inv r] op that by (metis client_ok.simps(1))
next
  case (Reset_event c)
  then show thesis using reset_ok [OF inv r] op that by (metis client_ok.simps(2))
next
  case Pop_event
  show thesis
  proof (cases "sd_freeSlots s = int (cg_maxEvents cfg) \<or> sd_isActive s = INACTIVE \<or> sd_finished s = []")
    case True
    then show thesis using that [of s] inv r Pop_event by (auto simp: popFinishedEvent_def)
  next
    case False
    then obtain c cs where "sd_finished s = c # cs" by (cases "sd_finished s") auto
    from that [OF _ pop_ok [OF inv r this]] this False Pop_event show thesis by (simp add: popFinishedEvent_def)
  qed
next
  case Try_pop
  show thesis
  proof (cases "sd_finished s")
    case Nil
    then show thesis using that [of s] inv r Try_pop by (simp add: tryPopFinishedEvent_def)
  next
    case (Cons c cs)
    from that [OF _ pop_ok [OF inv r this]] this Try_pop show thesis by (simp add: tryPopFinishedEvent_def)
  qed
next
  case Turn
  then show thesis using that [of s] inv r turn_ok [OF good inv] that by (cases "sd_actions s = []") auto
next
  case (Start_task j k)
  show thesis
  proof (cases "j < length (sd_waiting s)")
    case True
    then obtain t s' where s': "sched_step cfg (Start_task j k) s = Some s'" "t \<in> set (sd_scheduled s)"
      "s' = s\<lparr>sd_waiting := take j (sd_waiting s) @ drop (Suc j) (sd_waiting s),
        sd_scheduled := remove1 t (sd_scheduled s), sd_running := sd_running s @ [t]\<rparr>" "sched_inv cfg insts s'"
      using start_task_ok [OF inv] by metis
    have "rested cfg s'" using r s'(3) by (simp add: rested_def settled_def unblocked_def)
    then show thesis using that Start_task s' by blast
  qed (use that [of s] inv r Start_task in simp)
next
  case (End_task j body)
  show thesis
  proof (cases "j < length (sd_running s)")
    case True
    then show thesis using end_task_ok [OF good inv True, of body] that End_task by (metis rested_def)
  qed (use that [of s] inv r End_task in simp)
qed

inductive sched_reach :: "sched_config \<Rightarrow> sched \<Rightarrow> sched \<Rightarrow> bool" for cfg s0 where
  start: "sched_reach cfg s0 s0"
| step: "sched_reach cfg s0 s \<Longrightarrow> client_ok cfg s op \<Longrightarrow> sched_step cfg op s = Some s' \<Longrightarrow> sched_reach cfg s0 s'"

text \<open>
  The state at the start: the pool was filled with the algorithms of the graph, the execution
  state service initialised with them, for as many slots as the scheduler has.
\<close>

definition started :: "sched_config \<Rightarrow> sched \<Rightarrow> bool" where
  "started cfg s0 \<longleftrightarrow>
     (\<exists>pcf cm algs tops sc p x xalgs.
        decodeTopAlgs (cg_hash cfg) pcf cm algs tops = (sc, p) \<and>
        set (cg_algname_vect cfg) \<subseteq> set (snd (flat_algs tops)) \<and>
        xc_concurrent (cg_execs cfg) \<and> 0 < cg_maxEvents cfg \<and> xc_numConcurrentEvents (cg_execs cfg) = cg_maxEvents cfg \<and>
        xc_algorithms (cg_execs cfg) = Some xalgs \<and> set (cg_algname_vect cfg) \<subseteq> set xalgs \<and>
        xs_init (cg_execs cfg) new_exec_svc = Inr x \<and> s0 = sched_start cfg p x)"

lemma addAlgs_ok:
  assumes "xs_isInit x" "0 < length (xs_algStates x)"
    and "\<And>i n. i < length (xs_algStates x) \<Longrightarrow> (xs_algStates x ! i) n \<noteq> None \<longleftrightarrow> (xs_algStates x ! 0) n \<noteq> None"
  shows "xs_isInit (fold addAlg ns x) \<and> length (xs_algStates (fold addAlg ns x)) = length (xs_algStates x) \<and>
    xs_eventStatus (fold addAlg ns x) = xs_eventStatus x \<and>
    (\<forall>i < length (xs_algStates x). \<forall>n. (xs_algStates (fold addAlg ns x) ! i) n \<noteq> None \<longleftrightarrow>
       n \<in> set ns \<or> (xs_algStates x ! 0) n \<noteq> None)"
  using assms
proof (induction ns arbitrary: x)
  case (Cons m ns)
  let ?y = "addAlg m x"
  have y: "xs_isInit ?y" "length (xs_algStates ?y) = length (xs_algStates x)" "xs_eventStatus ?y = xs_eventStatus x"
    using Cons.prems(1) by (auto simp: addAlg_def)
  have known: "(xs_algStates ?y ! i) n \<noteq> None \<longleftrightarrow> n = m \<or> (xs_algStates x ! 0) n \<noteq> None" if "i < length (xs_algStates x)" for i n
  proof (cases "(xs_algStates x ! 0) m")
    case None
    then have "xs_algStates ?y = map (\<lambda>a. a(m \<mapsto> new_alg_exec)) (xs_algStates x)"
      using Cons.prems(1,2) by (simp add: addAlg_def hd_conv_nth)
    then show ?thesis using that Cons.prems(3) [OF that, of n] by simp
  next
    case (Some a)
    then have "?y = x" using Cons.prems(1,2) by (simp add: addAlg_def hd_conv_nth)
    then show ?thesis using Cons.prems(3) [OF that, of n] Some by auto
  qed
  have ih: "xs_isInit (fold addAlg ns ?y) \<and> length (xs_algStates (fold addAlg ns ?y)) = length (xs_algStates ?y) \<and>
    xs_eventStatus (fold addAlg ns ?y) = xs_eventStatus ?y \<and>
    (\<forall>i < length (xs_algStates ?y). \<forall>n. (xs_algStates (fold addAlg ns ?y) ! i) n \<noteq> None \<longleftrightarrow>
       n \<in> set ns \<or> (xs_algStates ?y ! 0) n \<noteq> None)"
  proof (rule Cons.IH)
    show "xs_isInit ?y" by (rule y(1))
    show "0 < length (xs_algStates ?y)" using y(2) Cons.prems(2) by simp
    fix i n assume "i < length (xs_algStates ?y)"
    then have "i < length (xs_algStates x)" using y(2) by simp
    then show "(xs_algStates ?y ! i) n \<noteq> None \<longleftrightarrow> (xs_algStates ?y ! 0) n \<noteq> None"
      unfolding known [OF \<open>i < length (xs_algStates x)\<close>] known [OF Cons.prems(2)] by blast
  qed
  have "(xs_algStates (fold addAlg ns ?y) ! i) n \<noteq> None \<longleftrightarrow> n \<in> set (m # ns) \<or> (xs_algStates x ! 0) n \<noteq> None"
    if "i < length (xs_algStates x)" for i n
  proof -
    have "(xs_algStates (fold addAlg ns ?y) ! i) n \<noteq> None \<longleftrightarrow> n \<in> set ns \<or> (xs_algStates ?y ! 0) n \<noteq> None"
      using ih that y(2) by simp
    then show ?thesis unfolding known [OF Cons.prems(2)] by auto
  qed
  with ih y show ?case by simp
next
  case Nil
  show ?case using Nil.prems(1) Nil.prems(3) by (simp only: fold_simps id_apply list.set) blast
qed

lemma started_exec:
  assumes "xs_init e new_exec_svc = Inr x" "xc_concurrent e" "xc_numConcurrentEvents e = cg_maxEvents cfg" "0 < cg_maxEvents cfg"
    "xc_algorithms e = Some xalgs" "set (cg_algname_vect cfg) \<subseteq> set xalgs"
  shows "exec_inv cfg x"
proof -
  let ?n = "cg_maxEvents cfg"
  let ?y = "new_exec_svc\<lparr>xs_algStates := replicate ?n (\<lambda>_. None), xs_eventStatus := replicate ?n ES_Invalid, xs_isInit := True\<rparr>"
  have x: "x = fold addAlg xalgs ?y"
    using assms by (simp add: xs_init_def Let_def max_def vec_resize_def new_exec_svc_def)
  have "xs_isInit ?y" "0 < length (xs_algStates ?y)"
    "\<And>i n. i < length (xs_algStates ?y) \<Longrightarrow> (xs_algStates ?y ! i) n \<noteq> None \<longleftrightarrow> (xs_algStates ?y ! 0) n \<noteq> None"
    using assms(4) by simp_all
  from addAlgs_ok [OF this, of xalgs] show ?thesis using assms(6) unfolding x by (auto simp: exec_inv_def)
qed

lemma ready_slot_inv:
  assumes "good_config cfg \<rho>"
  shows "slot_inv cfg i (ready_slot cfg)"
proof -
  have n: "length (cg_algname_vect cfg) = num_algs cfg" using assms by (simp add: good_config_def)
  let ?new = "new_slot (num_algs cfg) (g_nodeCounter (cg_graph cfg))"
  have r: "ready_slot cfg = ?new\<lparr>topSlot := (topSlot ?new)\<lparr>complete := True\<rparr>\<rparr>" by (simp add: ready_slot_def n Let_def)
  have "graph_slot (cg_graph cfg) ?new" by (rule new_slot_ok)
  then have "graph_slot (cg_graph cfg) (ready_slot cfg)"
    by (simp add: r slot_ok_def frames_def frame_ok_def views_ok_def views_of_def sub_ok_def)
  moreover have "tri_slot (cg_graph cfg) (ready_slot cfg)"
    by (auto simp: r tri_slot_def tri_def decision_of_def new_slot_def ref_ok_def split: slot_ref.splits)
  ultimately show ?thesis by (simp add: slot_inv_def) (simp add: r new_slot_def)
qed

lemma start_inv:
  assumes good: "good_config cfg \<rho>" and st: "started cfg s0"
  obtains p where "set_up (cg_hash cfg) p" "sched_inv cfg (queue_of p) s0" "rested cfg s0"
proof -
  obtain pcf cm algs tops sc p x xalgs where
    p: "decodeTopAlgs (cg_hash cfg) pcf cm algs tops = (sc, p)" "set (cg_algname_vect cfg) \<subseteq> set (snd (flat_algs tops))"
    and e: "xs_init (cg_execs cfg) new_exec_svc = Inr x" "xc_concurrent (cg_execs cfg)"
      "xc_numConcurrentEvents (cg_execs cfg) = cg_maxEvents cfg" "0 < cg_maxEvents cfg"
      "xc_algorithms (cg_execs cfg) = Some xalgs" "set (cg_algname_vect cfg) \<subseteq> set xalgs"
    and s0: "s0 = sched_start cfg p x"
    using st unfolding started_def by blast
  note d = decoded_pool [OF p(1)]
  let ?sl = "replicate (cg_maxEvents cfg) (ready_slot cfg)"
  have none: "ctx_at ?sl i = None" if "i < cg_maxEvents cfg" for i
    using that by (simp add: ready_slot_def new_slot_def Let_def)
  have "slots_inv cfg ?sl" using ready_slot_inv [OF good] by (simp add: slots_inv_def)
  moreover have "tasks_inv cfg {} ?sl [] []" using none by (simp add: tasks_inv_def)
  moreover have "pool_inv cfg (queue_of p) p []"
    using d(2,3) p(2) by (auto simp: pool_inv_def)
  moreover have "exec_inv cfg x" by (rule started_exec [OF e])
  moreover have "live_slots ?sl = {}" using none by (auto simp: live_slots_def)
  then have "events_inv cfg ?sl [] [] (int (cg_maxEvents cfg))" by (simp add: events_inv_def)
  ultimately have "sched_inv cfg (queue_of p) s0"
    by (simp add: s0 sched_inv_ex_def sched_start_def counts_inv_def)
  moreover have "rested cfg s0"
    using none by (simp add: s0 rested_def settled_def unblocked_def sched_start_def calm_def)
  ultimately show thesis using that d(1) by blast
qed

lemma reach_inv:
  assumes "sched_reach cfg s0 s" "good_config cfg \<rho>" "sched_inv cfg insts s0" "rested cfg s0"
  shows "sched_inv cfg insts s \<and> rested cfg s"
  using assms(1)
proof induction
  case start
  show ?case using assms(3,4) by blast
next
  case (step s op s')
  then have "sched_inv cfg insts s" "rested cfg s" by blast+
  from step_ok [OF assms(2) this step.hyps(2)] step.hyps(3) show ?case by (metis option.inject)
qed

lemma key_once:
  "distinct (map f xs) \<Longrightarrow> k \<in> f ` set xs \<Longrightarrow> length (filter (\<lambda>x. f x = k) xs) = 1"
  by (induction xs) (auto simp: filter_empty_conv intro: rev_image_eqI)

section \<open>Properties\<close>

text \<open>
  C1. Whatever the order in which the event loop, the scheduler and the tasks take their turns,
  and whatever the algorithms do (fail, throw, reject), the scheduler never crashes and every
  turn ends. A task that is scheduled, running or to be signed off belongs to an event that is
  still in its slot, so its context is not freed under it, and its algorithm is in state
  SCHEDULED; an algorithm in state SCHEDULED has exactly one such task and one in state
  RESOURCELESS exactly one entry of the retry queue, so none is lost or run twice; no instance
  is used by two tasks at a time; and the counter of algorithms in flight is exact. For pools
  of threads and tasks without event views or threads of their own, until the deactivation.
\<close>

theorem scheduler_safe:
  assumes "good_config cfg \<rho>" and "started cfg s0" and "sched_reach cfg s0 s"
  shows "(\<forall>op. client_ok cfg s op \<longrightarrow> sched_step cfg op s \<noteq> None)
    \<and> (\<forall>t \<in> set (flight_tasks s). ctx_at (sd_slots s) (ts_slotIndex t) = Some (ts_contextPtr t)
         \<and> st_at (sd_slots s) (ts_slotIndex t) (ts_algIndex t) = SCHEDULED)
    \<and> (\<forall>i < cg_maxEvents cfg. \<forall>a < num_algs cfg. ctx_at (sd_slots s) i \<noteq> None \<longrightarrow>
         (st_at (sd_slots s) i a = SCHEDULED \<longrightarrow> length (filter (\<lambda>t. task_key t = (i, a)) (flight_tasks s)) = 1) \<and>
         (st_at (sd_slots s) i a = RESOURCELESS \<longrightarrow> length (filter (\<lambda>t. task_key t = (i, a)) (sd_retry s)) = 1))
    \<and> distinct (filter (\<lambda>i. \<not> in_reEntrant i) (map (the \<circ> ts_algPtr) (out_tasks s)))
    \<and> sd_algosInFlight s = of_nat (length (flight_tasks s))"
proof -
  obtain p where p: "set_up (cg_hash cfg) p" "sched_inv cfg (queue_of p) s0" "rested cfg s0"
    by (rule start_inv [OF assms(1,2)])
  have inv: "sched_inv cfg (queue_of p) s" "rested cfg s" using reach_inv [OF assms(3,1) p(2,3)] by blast+
  note d = sched_invD [OF inv(1)]
  have "sched_step cfg op s \<noteq> None" if "client_ok cfg s op" for op
    using step_ok [OF assms(1) inv that] by (metis option.distinct(1))
  moreover have "ctx_at (sd_slots s) (ts_slotIndex t) = Some (ts_contextPtr t)
      \<and> st_at (sd_slots s) (ts_slotIndex t) (ts_algIndex t) = SCHEDULED" if "t \<in> set (flight_tasks s)" for t
    using d(2) that unfolding tasks_inv_def task_at_def by blast
  moreover have "(st_at (sd_slots s) i a = SCHEDULED \<longrightarrow> length (filter (\<lambda>t. task_key t = (i, a)) (flight_tasks s)) = 1) \<and>
      (st_at (sd_slots s) i a = RESOURCELESS \<longrightarrow> length (filter (\<lambda>t. task_key t = (i, a)) (sd_retry s)) = 1)"
    if "i < cg_maxEvents cfg" "a < num_algs cfg" "ctx_at (sd_slots s) i \<noteq> None" for i a
  proof -
    have "i < length (sd_slots s)" using that(1) d(1) by (simp add: slots_inv_def)
    with d(2) that(2,3) key_once [of task_key "flight_tasks s" "(i, a)"] key_once [of task_key "sd_retry s" "(i, a)"]
    show ?thesis unfolding tasks_inv_def by blast
  qed
  moreover have "distinct (filter (\<lambda>i. \<not> in_reEntrant i) (map (the \<circ> ts_algPtr) (out_tasks s)))"
  proof -
    obtain held where h: "mset held = image_mset task_holds (mset (out_tasks s))" "pool_ok (cg_hash cfg) (queue_of p) (sd_pool s) held"
      using d(3) by (auto simp: pool_inv_def)
    have "distinct (filter (\<lambda>i. \<not> in_reEntrant i) (map snd held))"
      by (rule held_distinct [OF h(2)]) (rule set_up_queue [OF p(1)], erule set_up_queue [OF p(1)])
    moreover have "mset (filter (\<lambda>i. \<not> in_reEntrant i) (map snd held)) =
        mset (filter (\<lambda>i. \<not> in_reEntrant i) (map (the \<circ> ts_algPtr) (out_tasks s)))"
      using h(1) by (simp add: image_mset.compositionality task_holds_def o_def)
    ultimately show ?thesis by (metis mset_eq_imp_distinct_iff)
  qed
  moreover have "sd_algosInFlight s = of_nat (length (flight_tasks s))" using d(5) by (simp add: counts_inv_def)
  ultimately show ?thesis by blast
qed

text \<open>
  C2. The scheduler never stalls by itself: when its queue of actions is empty and no task is
  scheduled or running, no event is left in a slot and no algorithm waits for a retry: every event
  that was pushed and taken up has been resolved or declared stalled, and its slot is free.
\<close>

theorem scheduler_never_stuck:
  assumes "good_config cfg \<rho>" and "started cfg s0" and "sched_reach cfg s0 s"
    and "sd_actions s = []" and "sd_waiting s = []" and "sd_running s = []"
  shows "sd_retry s = [] \<and> (\<forall>i < cg_maxEvents cfg. ctx_at (sd_slots s) i = None \<and> complete (topSlot (sd_slots s ! i)))"
proof -
  obtain p where p: "set_up (cg_hash cfg) p" "sched_inv cfg (queue_of p) s0" "rested cfg s0"
    by (rule start_inv [OF assms(1,2)])
  have inv: "sched_inv cfg (queue_of p) s" "rested cfg s" using reach_inv [OF assms(3,1) p(2,3)] by blast+
  note d = sched_invD [OF inv(1)]
  have sc: "sd_scheduled s = []" using d(5) assms(5) by (simp add: counts_inv_def)
  have set: "settled cfg s" using inv(2) assms(4) by (simp add: rested_def)
  then have retry: "sd_retry s = []" using sc assms(6) by (auto simp: settled_def unblocked_def)
  have ti: "tasks_inv cfg {} (sd_slots s) [] []" using d(2) sc assms(4,6) retry by simp
  have "ctx_at (sd_slots s) i = None \<and> complete (topSlot (sd_slots s ! i))" if "i < cg_maxEvents cfg" for i
  proof -
    have i: "i < length (sd_slots s)" "slot_inv cfg i (sd_slots s ! i)" using that d(1) by (simp_all add: slots_inv_def)
    have "ctx_at (sd_slots s) i = None"
    proof (rule ccontr)
      assume live: "ctx_at (sd_slots s) i \<noteq> None"
      then obtain a where "a < num_algs cfg" "st_at (sd_slots s) i a \<in> {SCHEDULED, RESOURCELESS}"
        using set i(1) by (auto simp: settled_def calm_def)
      with ti i(1) live show False by (auto simp: tasks_inv_def)
    qed
    then show ?thesis using i(2) by (simp add: slot_inv_def)
  qed
  with retry show ?thesis by blast
qed

end
