(* ===== verification/Event_Loop.thy ===== *)
theory Event_Loop
  imports White_Board Scheduler_Runs
begin

text \<open>
  \<open>HiveSlimEventLoopMgr\<close> (GaudiHive/src/HiveSlimEventLoopMgr.h, .cpp): the thread that creates
  events, gives each a store of the white board, pushes it to the scheduler, takes finished events
  back and frees their stores. The other threads move before each of its calls of the scheduler;
  the event selector is a parameter. Incidents and complaints are recorded, messages for
  information are left out.
\<close>

section \<open>State\<close>

datatype incident_name = BeginEvent | BeginProcessing | EndProcessing | EndEvent

text \<open>The messages that say that something is wrong.\<close>

datatype complaint =
    Slot_not_free event_context
  | Null_context
  | Event_failed event_context
  | Slot_not_cleared event_context

text \<open>\<open>next\<close> and \<open>createAddress\<close> of the selector: whether it succeeds, and the address.\<close>

record 'sel selector =
  se_next :: "'sel \<Rightarrow> bool \<times> 'sel"
  se_createAddress :: "'sel \<Rightarrow> (bool \<times> address_id option) \<times> 'sel"

text \<open>
  \<open>lc_patience\<close>: how often the wait for a finished event looks for one; \<open>lc_others\<close>: what the
  other threads do before the \<open>n\<close>th call.
\<close>

record 'sel loop_config =
  lc_selector :: "'sel selector"
  lc_blackList :: "u32 list"
  lc_abortOnFailure :: bool
  lc_services :: services
  lc_sched :: sched_config
  lc_patience :: nat
  lc_others :: "nat \<Rightarrow> sched_op list"

record 'sel loop_mgr =
  lm_evtContext :: "'sel option"
  lm_nevt :: u64
  lm_blackListBS :: "bool list option"
  lm_endEventFired :: bool
  lm_scheduledStop :: bool
  lm_incidents :: "(incident_name \<times> event_context) list"
  lm_complaints :: "complaint list"
  lm_whiteboard :: white_board
  lm_current :: "nat option"
  lm_sched :: sched
  lm_calls :: nat

fun background :: "sched_op \<Rightarrow> bool" where
  "background Turn = True"
| "background (Start_task j k) = True"
| "background (End_task j body) = True"
| "background _ = False"

definition meanwhile :: "'sel loop_config \<Rightarrow> 'sel loop_mgr \<Rightarrow> 'sel loop_mgr outcome" where
  "meanwhile cfg lm =
     (case loop_all (sched_step (lc_sched cfg)) (filter background (lc_others cfg (lm_calls lm))) (lm_sched lm) of
        None \<Rightarrow> Undefined
      | Some s \<Rightarrow> Done (lm\<lparr>lm_sched := s, lm_calls := Suc (lm_calls lm)\<rparr>))"

definition fireIncident :: "incident_name \<Rightarrow> event_context \<Rightarrow> 'sel loop_mgr \<Rightarrow> 'sel loop_mgr" where
  "fireIncident n c lm = lm\<lparr>lm_incidents := lm_incidents lm @ [(n, c)]\<rparr>"

definition complain :: "complaint \<Rightarrow> 'sel loop_mgr \<Rightarrow> 'sel loop_mgr" where
  "complain c lm = lm\<lparr>lm_complaints := lm_complaints lm @ [c]\<rparr>"

definition stop_mgr :: "'sel loop_mgr \<Rightarrow> 'sel loop_mgr" where
  "stop_mgr lm = (if lm_endEventFired lm then lm else (fireIncident EndEvent ctx_default lm)\<lparr>lm_endEventFired := True\<rparr>)"

definition stopRun :: "'sel loop_mgr \<Rightarrow> error_code \<times> 'sel loop_mgr" where
  "stopRun lm = (SUCCESS, lm\<lparr>lm_scheduledStop := True\<rparr>)"

section \<open>A new event\<close>

definition getEventRoot :: "'sel selector \<Rightarrow> 'sel \<Rightarrow> (bool \<times> address_id option) \<times> 'sel" where
  "getEventRoot sel e =
     (let (ok, e) = se_next sel e
      in if \<not> ok then ((False, None), e)
         else
           (let ((ok, a), e) = se_createAddress sel e
            in if ok then ((True, a), e)
               else
                 (let (ok, e) = se_next sel e
                  in if \<not> ok then ((False, a), e) else se_createAddress sel e)))"

text \<open>The address is new, and among those of the store that is selected; so is the object.\<close>

definition place_address :: "address_id option \<Rightarrow> heap \<Rightarrow> heap" where
  "place_address = with_some (\<lambda>a h. h\<lparr>hp_addresses := (hp_addresses h)(a \<mapsto> \<lparr>cn_refCount = 0, cn_registry = None\<rparr>)\<rparr>)"

definition declareEventRootAddress :: "'sel loop_config \<Rightarrow> 'sel loop_mgr \<Rightarrow> (bool \<times> 'sel loop_mgr) outcome" where
  "declareEventRootAddress cfg lm =
     (case lm_evtContext lm of
        Some e \<Rightarrow>
          (let ((ok, a), e) = getEventRoot (lc_selector cfg) e; lm = lm\<lparr>lm_evtContext := Some e\<rparr>
           in if \<not> ok then Done (False, lm)
              else obind (fwd (\<lambda>s. run_call 0 (lc_services cfg) (Set_root_address ''/Event'' a) (on_heap (place_address a) s))
                            (lm_current lm) (lm_whiteboard lm))
                     (\<lambda>(answer, wb). Done (True, lm\<lparr>lm_whiteboard := wb\<rparr>)))
      | None \<Rightarrow>
          obind (fwd (\<lambda>s. let (x, h) = new_object (ds_heap s)
                          in run_call 0 (lc_services cfg) (Set_root ''/Event'' (Some x)) (s\<lparr>ds_heap := h\<rparr>))
                   (lm_current lm) (lm_whiteboard lm))
            (\<lambda>(answer, wb). Done (True, lm\<lparr>lm_whiteboard := wb\<rparr>)))"

text \<open>\<open>allocateStore\<close> takes an \<open>int\<close> and answers \<open>npos\<close> when there is none.\<close>

definition event_number :: "u64 \<Rightarrow> int" where
  "event_number e = sint (ucast e :: u32)"

definition slot_word :: "nat option \<Rightarrow> u64" where
  "slot_word x = (case x of None \<Rightarrow> INVALID_CONTEXT_ID | Some i \<Rightarrow> of_nat i)"

definition createEventContext :: "'sel loop_config \<Rightarrow> 'sel loop_mgr \<Rightarrow> (event_context \<times> 'sel loop_mgr) outcome" where
  "createEventContext cfg lm =
     (let (slot, wb) = allocateStore (event_number (lm_nevt lm)) (lm_whiteboard lm);
          ctx = ctx_new (lm_nevt lm) (slot_word slot) INVALID_CONTEXT_ID;
          lm = lm\<lparr>lm_whiteboard := wb, lm_nevt := lm_nevt lm + 1\<rparr>
      in case selectStore (slot_index ctx) wb of
           None \<Rightarrow> Undefined
         | Some i \<Rightarrow>
             obind (declareEventRootAddress cfg (lm\<lparr>lm_current := Some i\<rparr>))
               (\<lambda>(ok, lm). Done (if ok then ctx else ctx_default, lm)))"

text \<open>Whether the event is to be skipped; the bit set has no bound check.\<close>

definition blacklisted :: "'sel loop_config \<Rightarrow> 'sel loop_mgr \<Rightarrow> event_context \<Rightarrow> bool outcome" where
  "blacklisted cfg lm ctx =
     (case lm_blackListBS lm of
        Some bs \<Rightarrow> if unat (ctx_evt ctx) < length bs then Done (bs ! unat (ctx_evt ctx)) else Undefined
      | None \<Rightarrow> Done (ctx_evt ctx \<in> set (map ucast (lc_blackList cfg))))"

definition free_slot :: "nat \<Rightarrow> 'sel loop_mgr \<Rightarrow> (bool \<times> 'sel loop_mgr) outcome" where
  "free_slot i lm =
     (case freeStore i (lm_whiteboard lm) of
        None \<Rightarrow> Undefined
      | Some (ok, wb) \<Rightarrow> Done (ok, lm\<lparr>lm_whiteboard := wb\<rparr>))"

definition reset_exec :: "'sel loop_config \<Rightarrow> event_context \<Rightarrow> 'sel loop_mgr \<Rightarrow> 'sel loop_mgr outcome" where
  "reset_exec cfg ctx lm =
     (case with_exec (xs_reset (cg_execs (lc_sched cfg)) ctx) (lm_sched lm) of
        None \<Rightarrow> Undefined
      | Some s \<Rightarrow> Done (lm\<lparr>lm_sched := s\<rparr>))"

definition push_event :: "event_context \<Rightarrow> 'sel loop_mgr \<Rightarrow> 'sel loop_mgr" where
  "push_event ctx lm =
     (let (sc, s) = pushNewEvent (Some ctx) (lm_sched lm); lm = lm\<lparr>lm_sched := s\<rparr>
      in if sc = SUCCESS then lm else complain (Slot_not_free ctx) lm)"

definition executeEvent ::
  "'sel loop_config \<Rightarrow> event_context \<Rightarrow> 'sel loop_mgr \<Rightarrow> (error_code \<times> 'sel loop_mgr) outcome"
where
  "executeEvent cfg ctx lm =
     obind (meanwhile cfg lm) (\<lambda>lm.
     obind (reset_exec cfg ctx lm) (\<lambda>lm.
     obind (blacklisted cfg lm ctx) (\<lambda>skip.
       if skip then obind (free_slot (slot_index ctx) lm) (\<lambda>(ok, lm). Done (RECOVERABLE, lm))
       else
         obind (meanwhile cfg (fireIncident BeginProcessing ctx (fireIncident BeginEvent ctx lm)))
           (\<lambda>lm. Done (SUCCESS, push_event ctx lm)))))"

section \<open>Finished events\<close>

fun wait_finished :: "nat \<Rightarrow> 'sel loop_config \<Rightarrow> 'sel loop_mgr \<Rightarrow> (event_context option \<times> 'sel loop_mgr) outcome" where
  "wait_finished 0 cfg lm = Exhausted"
| "wait_finished (Suc k) cfg lm =
     obind (meanwhile cfg lm) (\<lambda>lm.
       case popFinishedEvent (lc_sched cfg) (lm_sched lm) of
         None \<Rightarrow> wait_finished k cfg lm
       | Some (sc, c, s) \<Rightarrow> Done (c, lm\<lparr>lm_sched := s\<rparr>))"

text \<open>As often as there are slots, and once more to see that there is none left.\<close>

fun pop_others :: "nat \<Rightarrow> 'sel loop_config \<Rightarrow> 'sel loop_mgr \<Rightarrow> (event_context option list \<times> 'sel loop_mgr) outcome" where
  "pop_others 0 cfg lm = Exhausted"
| "pop_others (Suc k) cfg lm =
     obind (meanwhile cfg lm) (\<lambda>lm.
       case tryPopFinishedEvent (lm_sched lm) of
         (sc, c, s) \<Rightarrow>
           if sc \<noteq> SUCCESS then Done ([], lm\<lparr>lm_sched := s\<rparr>)
           else obind (pop_others k cfg (lm\<lparr>lm_sched := s\<rparr>)) (\<lambda>(cs, lm). Done (c # cs, lm)))"

definition clearWBSlot :: "nat \<Rightarrow> 'sel loop_mgr \<Rightarrow> (bool \<times> 'sel loop_mgr) outcome" where
  "clearWBSlot i lm =
     (case wb_clearStore i (lm_whiteboard lm) of
        None \<Rightarrow> Undefined
      | Some wb \<Rightarrow> free_slot i (lm\<lparr>lm_whiteboard := wb\<rparr>))"

text \<open>One finished event: whether the run is to end, and how many events have finished.\<close>

definition flush_event ::
  "'sel loop_config \<Rightarrow> event_context option \<Rightarrow> (bool \<times> nat) \<times> 'sel loop_mgr \<Rightarrow> ((bool \<times> nat) \<times> 'sel loop_mgr) outcome"
where
  "flush_event cfg x r =
     (case r of ((failed, n), lm) \<Rightarrow>
       (case x of
          None \<Rightarrow> Done ((True, n), complain Null_context lm)
        | Some c \<Rightarrow>
            obind (meanwhile cfg lm) (\<lambda>lm.
              case eventStatus c (sd_exec (lm_sched lm)) of
                Inl e \<Rightarrow> Undefined
              | Inr status \<Rightarrow>
                  (let bad = status \<noteq> ES_Success;
                       lm = (if bad then complain (Event_failed c) lm else lm);
                       lm = fireIncident EndEvent c (fireIncident EndProcessing c lm)
                   in obind (clearWBSlot (slot_index c) lm) (\<lambda>(ok, lm).
                        Done ((failed \<or> bad \<and> lc_abortOnFailure cfg, Suc n),
                              if ok then lm else complain (Slot_not_cleared c) lm))))))"

definition drainScheduler :: "'sel loop_config \<Rightarrow> nat \<Rightarrow> 'sel loop_mgr \<Rightarrow> ((bool \<times> nat) \<times> 'sel loop_mgr) outcome" where
  "drainScheduler cfg finishedEvts lm =
     obind (wait_finished (lc_patience cfg) cfg lm) (\<lambda>(c, lm).
     obind (pop_others (cg_maxEvents (lc_sched cfg) + 2) cfg lm) (\<lambda>(cs, lm).
       each (flush_event cfg) (c # cs) ((False, finishedEvts), lm)))"

section \<open>The loop\<close>

text \<open>
  The variables of \<open>nextEvent\<close>. A turn of the outer loop either drains the scheduler or starts
  the inner loop, and \<open>lv_creating\<close> says that the inner loop goes on.
\<close>

record loop_vars =
  lv_finished :: nat
  lv_created :: int
  lv_skipped :: nat
  lv_ended :: bool
  lv_newEvtAllowed :: bool
  lv_creating :: bool

definition loop_start :: loop_vars where
  "loop_start = \<lparr>lv_finished = 0, lv_created = 0, lv_skipped = 0, lv_ended = False, lv_newEvtAllowed = False, lv_creating = False\<rparr>"

definition more_to_create :: "int \<Rightarrow> loop_vars \<Rightarrow> bool" where
  "more_to_create maxevt v \<longleftrightarrow> lv_created v < maxevt \<or> maxevt < 0"

definition goes_on :: "int \<Rightarrow> loop_vars \<Rightarrow> bool" where
  "goes_on maxevt v \<longleftrightarrow>
     lv_creating v \<or> (\<not> lv_ended v \<and> (maxevt < 0 \<or> int (lv_finished v) + int (lv_skipped v) < maxevt))"

definition may_create :: "int \<Rightarrow> loop_vars \<Rightarrow> 'sel loop_mgr \<Rightarrow> bool" where
  "may_create maxevt v lm \<longleftrightarrow>
     (lv_newEvtAllowed v \<or> lv_created v = 0) \<and> 0 \<le> lv_created v \<and> more_to_create maxevt v \<and>
     0 < freeSlots (lm_sched lm) \<and> 0 < wb_countFree (lm_whiteboard lm)"

text \<open>
  A turn of the inner loop. A failure of \<open>executeEvent\<close> would end the run, but it gives none.
\<close>

definition create_event ::
  "'sel loop_config \<Rightarrow> int \<Rightarrow> loop_vars \<Rightarrow> 'sel loop_mgr \<Rightarrow> (loop_vars \<times> 'sel loop_mgr) outcome"
where
  "create_event cfg maxevt v lm =
     obind (createEventContext cfg lm) (\<lambda>(ctx, lm).
       if \<not> ctx_valid ctx then Done (v\<lparr>lv_created := - 1, lv_creating := False\<rparr>, lm)
       else
         obind (executeEvent cfg ctx lm) (\<lambda>(sc, lm).
           let v = v\<lparr>lv_skipped := (if sc = RECOVERABLE then lv_skipped v + 1 else lv_skipped v), lv_created := lv_created v + 1\<rparr>
           in Done (v\<lparr>lv_creating := sc \<noteq> SUCCESS \<and> more_to_create maxevt v\<rparr>, lm)))"

definition drain_turn ::
  "'sel loop_config \<Rightarrow> loop_vars \<Rightarrow> 'sel loop_mgr \<Rightarrow> (loop_vars \<times> 'sel loop_mgr) outcome"
where
  "drain_turn cfg v lm =
     obind (drainScheduler cfg (lv_finished v) lm) (\<lambda>((failed, n), lm).
       Done (v\<lparr>lv_ended := lv_ended v \<or> failed, lv_finished := n, lv_newEvtAllowed := True\<rparr>, lm))"

definition loop_turn ::
  "'sel loop_config \<Rightarrow> int \<Rightarrow> loop_vars \<times> 'sel loop_mgr \<Rightarrow> (loop_vars \<times> 'sel loop_mgr) outcome"
where
  "loop_turn cfg maxevt r =
     (case r of (v, lm) \<Rightarrow>
        if lv_creating v \<or> may_create maxevt v lm then create_event cfg maxevt v lm else drain_turn cfg v lm)"

text \<open>None when the turns do not suffice.\<close>

fun and_turns :: "'a outcome \<Rightarrow> ('a \<Rightarrow> 'b outcome option) \<Rightarrow> 'b outcome option" where
  "and_turns (Done x) f = f x"
| "and_turns Data_Store.Throws f = Some Data_Store.Throws"
| "and_turns Undefined f = Some Undefined"
| "and_turns Exhausted f = Some Exhausted"

fun loop_turns ::
  "nat \<Rightarrow> 'sel loop_config \<Rightarrow> int \<Rightarrow> loop_vars \<times> 'sel loop_mgr \<Rightarrow> (loop_vars \<times> 'sel loop_mgr) outcome option"
where
  "loop_turns 0 cfg maxevt r = (if goes_on maxevt (fst r) then None else Some (Done r))"
| "loop_turns (Suc k) cfg maxevt r =
     (if goes_on maxevt (fst r) then and_turns (loop_turn cfg maxevt r) (loop_turns k cfg maxevt) else Some (Done r))"

definition nextEvent ::
  "nat \<Rightarrow> 'sel loop_config \<Rightarrow> int \<Rightarrow> 'sel loop_mgr \<Rightarrow> (loop_vars \<times> 'sel loop_mgr) outcome option"
where
  "nextEvent k cfg maxevt lm = loop_turns k cfg maxevt (loop_start, lm)"

text \<open>\<open>executeRun\<close>: the loop that fills the bit set stops at the first number above \<open>maxevt\<close>.\<close>

fun fill_blackList :: "u32 list \<Rightarrow> int \<Rightarrow> bool list \<Rightarrow> bool list outcome" where
  "fill_blackList [] maxevt bs = Done bs"
| "fill_blackList (e # es) maxevt bs =
     (if uint e \<le> maxevt
      then if unat e < length bs then fill_blackList es maxevt (bs[unat e := True]) else Undefined
      else Done bs)"

definition executeRun ::
  "nat \<Rightarrow> 'sel loop_config \<Rightarrow> int \<Rightarrow> 'sel loop_mgr \<Rightarrow> (error_code \<times> loop_vars \<times> 'sel loop_mgr) outcome option"
where
  "executeRun k cfg maxevt lm =
     and_turns
       (if maxevt > 0
        then obind (fill_blackList (lc_blackList cfg) maxevt (replicate (nat maxevt) False)) (\<lambda>bs. Done (Some bs))
        else Done (lm_blackListBS lm))
       (\<lambda>bs. map_option (\<lambda>r. obind r (\<lambda>(v, lm). Done (SUCCESS, v, lm\<lparr>lm_blackListBS := None\<rparr>)))
                 (nextEvent k cfg maxevt (lm\<lparr>lm_blackListBS := bs\<rparr>)))"

end
