(* ===== verification/Event_Loop_Facts.thy ===== *)
theory Event_Loop_Facts
  imports Event_Loop
begin

text \<open>
  The event loop against the scheduler and the white board: the contracts of the two meet, and
  the stores of the events in flight are theirs alone.
\<close>

section \<open>The other threads\<close>

lemma background_client: "background op \<Longrightarrow> client_ok cfg s op"
  by (cases op) auto

lemma background_step:
  assumes good: "good_config cfg \<rho>" and inv: "sched_inv cfg insts s" and r: "rested cfg s" and op: "background op"
    and st: "sched_step cfg op s = Some s'"
  shows "no_new_events s s'"
proof (cases op)
  case Turn
  then show ?thesis using st turn_ok [OF good inv] by (cases "sd_actions s = []") (auto simp: no_new_refl)
next
  case (Start_task j k)
  show ?thesis
  proof (cases "j < length (sd_waiting s)")
    case True
    then obtain t where "s' = s\<lparr>sd_waiting := take j (sd_waiting s) @ drop (Suc j) (sd_waiting s),
        sd_scheduled := remove1 t (sd_scheduled s), sd_running := sd_running s @ [t]\<rparr>"
      using start_task_ok [OF inv] st Start_task by (metis option.inject)
    then show ?thesis by (simp add: same_view_no_new events_view_def)
  qed (use st Start_task in \<open>simp add: no_new_refl\<close>)
next
  case (End_task j body)
  show ?thesis
  proof (cases "j < length (sd_running s)")
    case True
    then have "events_view s' = events_view s"
      using st End_task
      by (auto simp: task_body_def with_exec_def Let_def bind_eq_Some_conv events_view_def split: option.splits sum.splits)
    then show ?thesis by (rule same_view_no_new)
  qed (use st End_task in \<open>simp add: no_new_refl\<close>)
qed (use op in simp_all)

lemma reach_background:
  assumes good: "good_config cfg \<rho>" and inv: "sched_inv cfg insts s0" "rested cfg s0" and s: "sched_reach cfg s0 s"
    and ops: "\<forall>op \<in> set ops. background op"
  obtains s' where "loop_all (sched_step cfg) ops s = Some s'" "sched_reach cfg s0 s'" "no_new_events s s'"
proof -
  have "\<exists>s'. loop_all (sched_step cfg) ops s = Some s' \<and> sched_reach cfg s0 s' \<and> no_new_events s s'"
    using s ops
  proof (induction ops arbitrary: s)
    case (Cons op ops)
    have si: "sched_inv cfg insts s" "rested cfg s" using reach_inv [OF Cons.prems(1) good inv] by blast+
    have c: "client_ok cfg s op" by (rule background_client) (use Cons.prems(2) in simp)
    obtain s1 where s1: "sched_step cfg op s = Some s1" by (rule step_ok [OF good si c])
    have n: "no_new_events s s1" by (rule background_step [OF good si _ s1]) (use Cons.prems(2) in simp)
    have "sched_reach cfg s0 s1" by (rule sched_reach.step [OF Cons.prems(1) c s1])
    from Cons.IH [OF this] Cons.prems(2) obtain s' where
      "loop_all (sched_step cfg) ops s1 = Some s'" "sched_reach cfg s0 s'" "no_new_events s1 s'" by auto
    then show ?case using s1 n no_new_trans by auto
  qed (simp add: no_new_refl)
  then show thesis using that by blast
qed

section \<open>The invariant\<close>

text \<open>The store of an event: its slot is not free and has the number of the event.\<close>

definition held :: "white_board \<Rightarrow> event_context \<Rightarrow> bool" where
  "held wb c \<longleftrightarrow> slot_index c < length (wb_partitions wb) \<and> slot_index c \<notin> set (wb_freeSlots wb) \<and>
     event_at wb (slot_index c) = event_number (ctx_evt c)"

text \<open>\<open>pend\<close>: the events that the loop has in its hands.\<close>

definition loop_inv :: "'sel loop_config \<Rightarrow> sched \<Rightarrow> event_context list \<Rightarrow> 'sel loop_mgr \<Rightarrow> bool" where
  "loop_inv cfg s0 pend lm \<longleftrightarrow>
     sched_reach (lc_sched cfg) s0 (lm_sched lm) \<and> wb_inv (lm_whiteboard lm) \<and>
     length (wb_partitions (lm_whiteboard lm)) = cg_maxEvents (lc_sched cfg) \<and>
     (\<forall>c \<in> events_of (lm_sched lm) \<union> set pend. held (lm_whiteboard lm) c) \<and>
     distinct (map slot_index pend) \<and> slot_index ` set pend \<inter> slot_index ` events_of (lm_sched lm) = {}"

definition bad_complaint :: "complaint \<Rightarrow> bool" where
  "bad_complaint x \<longleftrightarrow> (\<exists>c. x = Slot_not_free c \<or> x = Slot_not_cleared c)"

text \<open>The scheduler a run of the loop starts with.\<close>

definition sound_start :: "'sel loop_config \<Rightarrow> (cf_ref \<Rightarrow> nat) \<Rightarrow> sched \<Rightarrow> bool" where
  "sound_start cfg \<rho> s0 \<longleftrightarrow> good_config (lc_sched cfg) \<rho> \<and> started (lc_sched cfg) s0 \<and> cg_maxEvents (lc_sched cfg) < 2 ^ 64"

lemma sound_inv:
  assumes "sound_start cfg \<rho> s0" and "loop_inv cfg s0 pend lm"
  obtains insts where "good_config (lc_sched cfg) \<rho>" "sched_inv (lc_sched cfg) insts s0" "rested (lc_sched cfg) s0"
    "sched_inv (lc_sched cfg) insts (lm_sched lm)" "rested (lc_sched cfg) (lm_sched lm)"
proof -
  have g: "good_config (lc_sched cfg) \<rho>" "started (lc_sched cfg) s0" using assms(1) by (simp_all add: sound_start_def)
  obtain p where p: "sched_inv (lc_sched cfg) (queue_of p) s0" "rested (lc_sched cfg) s0" by (rule start_inv [OF g])
  have "sched_reach (lc_sched cfg) s0 (lm_sched lm)" using assms(2) by (simp add: loop_inv_def)
  from reach_inv [OF this g(1) p] that [OF g(1) p] show thesis by blast
qed

lemma loop_inv_cong:
  "lm_sched lm' = lm_sched lm \<Longrightarrow> lm_whiteboard lm' = lm_whiteboard lm \<Longrightarrow> loop_inv cfg s0 pend lm' = loop_inv cfg s0 pend lm"
  by (simp add: loop_inv_def)

lemma meanwhile_ok:
  assumes st: "sound_start cfg \<rho> s0" and inv: "loop_inv cfg s0 pend lm"
  obtains s where "meanwhile cfg lm = Done (lm\<lparr>lm_sched := s, lm_calls := Suc (lm_calls lm)\<rparr>)"
    "loop_inv cfg s0 pend (lm\<lparr>lm_sched := s, lm_calls := Suc (lm_calls lm)\<rparr>)" "sd_freeSlots s = sd_freeSlots (lm_sched lm)"
proof -
  obtain insts where i: "good_config (lc_sched cfg) \<rho>" "sched_inv (lc_sched cfg) insts s0" "rested (lc_sched cfg) s0"
    by (rule sound_inv [OF st inv])
  have "sched_reach (lc_sched cfg) s0 (lm_sched lm)" using inv by (simp add: loop_inv_def)
  then obtain s where s: "loop_all (sched_step (lc_sched cfg)) (filter background (lc_others cfg (lm_calls lm))) (lm_sched lm) = Some s"
    "sched_reach (lc_sched cfg) s0 s" "no_new_events (lm_sched lm) s"
    using reach_background [OF i, of "lm_sched lm" "filter background (lc_others cfg (lm_calls lm))"] by (auto simp del: Un_iff)
  then have "loop_inv cfg s0 pend (lm\<lparr>lm_sched := s, lm_calls := Suc (lm_calls lm)\<rparr>)"
    using inv unfolding loop_inv_def no_new_events_def by (simp, blast)
  then show thesis using that s by (simp add: meanwhile_def no_new_events_def)
qed

section \<open>Steps of the loop\<close>

lemma set_root_done:
  "\<exists>a s'. run_call n svc (Set_root_address p x) s = Done (a, s')"
  "\<exists>a s'. run_call n svc (Set_root p y) s = Done (a, s')"
  by simp_all

lemma fwd_set_root:
  assumes "wb_inv wb" and "i < length (wb_partitions wb)" and "\<And>s. \<exists>a s'. f s = Done (a, s')"
  obtains a s where "fwd f (Some i) wb = Done (a, put_service i s wb)"
proof -
  obtain s where s: "pt_service (wb_partitions wb ! i) = Some s" by (rule service_there [OF assms(1,2)])
  obtain a s' where "f s = Done (a, s')" using assms(3) by blast
  then show thesis using that assms(2) s by (simp add: fwd_def)
qed

lemma declare_ok:
  assumes wb: "wb_inv (lm_whiteboard lm)" and i: "lm_current lm = Some i" "i < length (wb_partitions (lm_whiteboard lm))"
  shows "\<exists>ok e wb. declareEventRootAddress cfg lm = Done (ok, lm\<lparr>lm_evtContext := e, lm_whiteboard := wb\<rparr>) \<and>
    (wb = lm_whiteboard lm \<or> (\<exists>s. wb = put_service i s (lm_whiteboard lm)))"
proof (cases "lm_evtContext lm")
  case None
  let ?f = "\<lambda>s. let (x, h) = new_object (ds_heap s)
    in run_call 0 (lc_services cfg) (Set_root ''/Event'' (Some x)) (s\<lparr>ds_heap := h\<rparr>)"
  have f: "\<exists>a s'. ?f s = Done (a, s')" for s by (simp add: new_object_def Let_def)
  obtain a s where "fwd ?f (Some i) (lm_whiteboard lm) = Done (a, put_service i s (lm_whiteboard lm))"
    by (rule fwd_set_root [OF wb i(2) f])
  then have "declareEventRootAddress cfg lm = Done (True, lm\<lparr>lm_evtContext := None, lm_whiteboard := put_service i s (lm_whiteboard lm)\<rparr>)"
    using None i(1) by (simp add: declareEventRootAddress_def)
  then show ?thesis by blast
next
  case (Some e)
  obtain ok a e' where r: "getEventRoot (lc_selector cfg) e = ((ok, a), e')" by (metis prod.exhaust)
  show ?thesis
  proof (cases ok)
    case True
    let ?f = "\<lambda>s. run_call 0 (lc_services cfg) (Set_root_address ''/Event'' a) (on_heap (place_address a) s)"
    have f: "\<exists>x s'. ?f s = Done (x, s')" for s by simp
    obtain x s where "fwd ?f (Some i) (lm_whiteboard lm) = Done (x, put_service i s (lm_whiteboard lm))"
      by (rule fwd_set_root [OF wb i(2) f])
    then have "declareEventRootAddress cfg lm =
        Done (True, lm\<lparr>lm_evtContext := Some e', lm_whiteboard := put_service i s (lm_whiteboard lm)\<rparr>)"
      using Some i(1) r True by (simp add: declareEventRootAddress_def)
    then show ?thesis by blast
  next
    case False
    then have "declareEventRootAddress cfg lm = Done (False, lm\<lparr>lm_evtContext := Some e', lm_whiteboard := lm_whiteboard lm\<rparr>)"
      using Some r by (simp add: declareEventRootAddress_def)
    then show ?thesis by blast
  qed
qed

lemma event_number_small:
  assumes "unat e < 2 ^ 31"
  shows "event_number e = int (unat e)"
proof -
  have "event_number e = signed_take_bit 31 (uint e)" by (simp add: event_number_def signed_ucast_eq)
  moreover have "signed_take_bit 31 (int n) = int n" if "n < 2 ^ 31" for n
    by (rule signed_take_bit_int_eq_self) (use that in simp_all)
  ultimately show ?thesis using assms by (metis uint_nat)
qed

lemma unat_of_index: "i < 2 ^ 64 \<Longrightarrow> unat (of_nat i :: u64) = i"
  by (simp add: unat_of_nat)

lemma held_put: "i < length (wb_partitions wb) \<Longrightarrow> held (put_service i s wb) c = held wb c"
  by (simp add: held_def)

lemma ctx_new_simps:
  "ctx_evt (ctx_new e s INVALID_CONTEXT_ID) = e" "slot_index (ctx_new e s INVALID_CONTEXT_ID) = unat s"
  "\<not> usesSubSlot (ctx_new e s INVALID_CONTEXT_ID)"
  by (simp_all add: ctx_new_def slot_index_def usesSubSlot_def)

lemma allocate_held:
  assumes wb: "wb_inv wb" and free: "wb_freeSlots wb = i # rest" and n: "event_number e \<noteq> - 1" and len: "length (wb_partitions wb) < 2 ^ 64"
  defines "c \<equiv> ctx_new e (slot_word (Some i)) INVALID_CONTEXT_ID" and "wb' \<equiv> snd (allocateStore (event_number e) wb)"
  shows "wb_inv wb'" "length (wb_partitions wb') = length (wb_partitions wb)" "slot_index c = i" "i < length (wb_partitions wb)"
    "held wb' c" "\<And>d. held wb d \<Longrightarrow> held wb' d \<and> slot_index d \<noteq> i"
proof -
  show i: "i < length (wb_partitions wb)" using wb free by (simp add: wb_inv_def)
  have nd: "distinct (i # rest)" using wb free by (simp add: wb_inv_def)
  have w: "wb' = wb\<lparr>wb_freeSlots := rest,
      wb_partitions := (wb_partitions wb)[i := (wb_partitions wb ! i)\<lparr>pt_eventNumber := event_number e\<rparr>]\<rparr>"
    by (simp add: wb'_def allocateStore_def free)
  show "wb_inv wb'" unfolding wb'_def by (rule allocateStore_inv [OF wb n])
  show "length (wb_partitions wb') = length (wb_partitions wb)" by (simp add: w)
  show c: "slot_index c = i"
    using unat_of_index [of i] i len by (simp add: c_def ctx_new_simps slot_word_def)
  show "held wb' c" using i nd unfolding held_def c by (simp add: w event_at_def c_def ctx_new_simps)
  show "held wb' d \<and> slot_index d \<noteq> i" if "held wb d" for d
    using that free by (auto simp: held_def w event_at_def)
qed

text \<open>What stays as it is while an event is created, executed or flushed.\<close>

definition same_sched :: "'sel loop_mgr \<Rightarrow> 'sel loop_mgr \<Rightarrow> bool" where
  "same_sched lm lm' \<longleftrightarrow> lm_sched lm' = lm_sched lm \<and> lm_complaints lm' = lm_complaints lm \<and>
     lm_blackListBS lm' = lm_blackListBS lm"

lemma create_ok:
  assumes st: "sound_start cfg \<rho> s0" and inv: "loop_inv cfg s0 [] lm" and free: "wb_freeSlots (lm_whiteboard lm) \<noteq> []"
    and n: "unat (lm_nevt lm) < 2 ^ 31"
  obtains ctx lm' where "createEventContext cfg lm = Done (ctx, lm')" "lm_nevt lm' = lm_nevt lm + 1" "same_sched lm lm'"
    "if ctx_valid ctx then loop_inv cfg s0 [ctx] lm' \<and> ctx_evt ctx = lm_nevt lm \<and> \<not> usesSubSlot ctx else loop_inv cfg s0 [] lm'"
proof -
  let ?wb = "lm_whiteboard lm"
  obtain i rest where f: "wb_freeSlots ?wb = i # rest" using free by (cases "wb_freeSlots ?wb") auto
  have "0 \<le> event_number (lm_nevt lm)" unfolding event_number_small [OF n] by (rule of_nat_0_le_iff)
  then have e: "event_number (lm_nevt lm) \<noteq> - 1" by linarith
  have wb: "wb_inv ?wb" and len: "length (wb_partitions ?wb) < 2 ^ 64" "length (wb_partitions ?wb) = cg_maxEvents (lc_sched cfg)"
    using inv st by (simp_all add: loop_inv_def sound_start_def)
  obtain wb1 where al: "allocateStore (event_number (lm_nevt lm)) ?wb = (Some i, wb1)" using f by (simp add: allocateStore_def)
  note a = allocate_held [OF wb f e len(1), unfolded al snd_conv]
  let ?c = "ctx_new (lm_nevt lm) (slot_word (Some i)) INVALID_CONTEXT_ID"
  let ?lm1 = "lm\<lparr>lm_whiteboard := wb1, lm_nevt := lm_nevt lm + 1, lm_current := Some i\<rparr>"
  have i1: "i < length (wb_partitions wb1)" using a(2,4) by simp
  then have sel: "selectStore (slot_index ?c) wb1 = Some i" using a(3) by (simp add: selectStore_def)
  obtain ok x wb2 where d: "declareEventRootAddress cfg ?lm1 = Done (ok, ?lm1\<lparr>lm_evtContext := x, lm_whiteboard := wb2\<rparr>)"
    "wb2 = wb1 \<or> (\<exists>s. wb2 = put_service i s wb1)"
    using declare_ok [of ?lm1 i cfg] a(1) i1 by auto
  let ?lm2 = "?lm1\<lparr>lm_evtContext := x, lm_whiteboard := wb2\<rparr>" and ?ctx = "if ok then ?c else ctx_default"
  have run: "createEventContext cfg lm = Done (?ctx, ?lm2)"
    using al sel d(1) by (simp add: createEventContext_def Let_def)
  have wb2: "wb_inv wb2" "length (wb_partitions wb2) = length (wb_partitions ?wb)" "\<And>y. held wb2 y = held wb1 y"
    using d(2) a(1,2) i1 wb_inv_put [OF a(1) i1] by (auto simp: held_put)
  have h: "held wb2 y" "slot_index y \<noteq> i" if "y \<in> events_of (lm_sched lm)" for y
    using a(6) [of y] that inv wb2(3) by (auto simp: loop_inv_def)
  have empty: "loop_inv cfg s0 [] ?lm2" using inv wb2(1,2) len h(1) by (simp add: loop_inv_def)
  have one: "loop_inv cfg s0 [?c] ?lm2"
    using inv wb2 len h a(3,5) by (auto simp: loop_inv_def)
  show thesis
  proof (rule that [OF run])
    show "if ctx_valid ?ctx then loop_inv cfg s0 [?ctx] ?lm2 \<and> ctx_evt ?ctx = lm_nevt lm \<and> \<not> usesSubSlot ?ctx else loop_inv cfg s0 [] ?lm2"
      using empty one by (simp add: ctx_new_simps ctx_default_def)
  qed (simp_all add: same_sched_def)
qed

lemma idle_of_pending:
  assumes st: "sound_start cfg \<rho> s0" and inv: "loop_inv cfg s0 [c] lm" and c: "\<not> usesSubSlot c"
  shows "idle_slot (lc_sched cfg) (lm_sched lm) c"
proof -
  let ?s = "lm_sched lm"
  obtain insts where "sched_inv (lc_sched cfg) insts ?s" by (rule sound_inv [OF st inv])
  then have si: "slots_inv (lc_sched cfg) (sd_slots ?s)" by (rule sched_invD(1))
  have i: "slot_index c < cg_maxEvents (lc_sched cfg)" using inv by (simp add: loop_inv_def held_def)
  then have len: "slot_index c < length (sd_slots ?s)" using si by (simp add: slots_inv_def)
  have new: "slot_index c \<notin> slot_index ` events_of ?s" using inv by (simp add: loop_inv_def)
  have "ctx_at (sd_slots ?s) (slot_index c) = None"
  proof (rule ccontr)
    assume "ctx_at (sd_slots ?s) (slot_index c) \<noteq> None"
    then obtain d where d: "ctx_at (sd_slots ?s) (slot_index c) = Some d" by blast
    then have "slot_index d = slot_index c" using slot_of_context [OF si len d] by simp
    moreover have "d \<in> events_of ?s" using live_at [OF len d] by (simp add: events_of_def)
    ultimately show False using new by (metis imageI)
  qed
  then show ?thesis using i c new by (auto simp: idle_slot_def events_of_def)
qed

lemma free_held:
  assumes "wb_inv wb" and "held wb c"
  obtains wb' where "freeStore (slot_index c) wb = Some (True, wb')" "wb_inv wb'"
    "length (wb_partitions wb') = length (wb_partitions wb)" "wb_freeSlots wb' \<noteq> []"
    "\<forall>d. held wb d \<longrightarrow> slot_index d \<noteq> slot_index c \<longrightarrow> held wb' d"
proof -
  let ?i = "slot_index c"
  have i: "?i < length (wb_partitions wb)" "pt_eventNumber (wb_partitions wb ! ?i) \<noteq> - 1"
    using assms by (auto simp: held_def wb_inv_def)
  then obtain wb' where w: "freeStore ?i wb = Some (True, wb')" by (simp add: freeStore_def Let_def)
  have d: "held wb' d" if "held wb d" "slot_index d \<noteq> ?i" for d
    using that w i by (auto simp: freeStore_def Let_def held_def event_at_def)
  show thesis
    by (rule that [OF w freeStore_inv [OF assms(1) w]]) (use w i d in \<open>auto simp: freeStore_def Let_def\<close>)
qed

lemma client_reach:
  assumes st: "sound_start cfg \<rho> s0" and inv: "loop_inv cfg s0 pend lm" and c: "client_ok (lc_sched cfg) (lm_sched lm) op"
  obtains s where "sched_step (lc_sched cfg) op (lm_sched lm) = Some s" "sched_reach (lc_sched cfg) s0 s"
proof -
  obtain insts where i: "good_config (lc_sched cfg) \<rho>" "sched_inv (lc_sched cfg) insts (lm_sched lm)" "rested (lc_sched cfg) (lm_sched lm)"
    by (rule sound_inv [OF st inv])
  obtain s where s: "sched_step (lc_sched cfg) op (lm_sched lm) = Some s" by (rule step_ok [OF i c])
  have "sched_reach (lc_sched cfg) s0 (lm_sched lm)" using inv by (simp add: loop_inv_def)
  then show thesis using that s sched_reach.step [OF _ c s] by blast
qed

lemma reset_exec_loop_ok:
  assumes st: "sound_start cfg \<rho> s0" and inv: "loop_inv cfg s0 [c] lm" and c: "\<not> usesSubSlot c"
  obtains x where "reset_exec cfg c lm = Done (lm\<lparr>lm_sched := (lm_sched lm)\<lparr>sd_exec := x\<rparr>\<rparr>)"
    "loop_inv cfg s0 [c] (lm\<lparr>lm_sched := (lm_sched lm)\<lparr>sd_exec := x\<rparr>\<rparr>)"
proof -
  have "client_ok (lc_sched cfg) (lm_sched lm) (Reset_event c)" using idle_of_pending [OF st inv c] by simp
  then obtain s where s: "sched_step (lc_sched cfg) (Reset_event c) (lm_sched lm) = Some s" "sched_reach (lc_sched cfg) s0 s"
    by (rule client_reach [OF st inv])
  then obtain x where x: "s = (lm_sched lm)\<lparr>sd_exec := x\<rparr>" by (auto simp: with_exec_def split: sum.splits)
  have "events_of s = events_of (lm_sched lm)" by (simp add: x events_of_def)
  then have "loop_inv cfg s0 [c] (lm\<lparr>lm_sched := s\<rparr>)" using inv s(2) by (simp add: loop_inv_def)
  then show thesis using that [of x] s(1) by (simp add: reset_exec_def x)
qed

lemma push_event_ok:
  assumes st: "sound_start cfg \<rho> s0" and inv: "loop_inv cfg s0 [c] lm" and c: "\<not> usesSubSlot c" and f: "sd_freeSlots (lm_sched lm) > 0"
  shows "loop_inv cfg s0 [] (push_event c lm)" and "lm_complaints (push_event c lm) = lm_complaints lm"
    and "lm_nevt (push_event c lm) = lm_nevt lm" and "lm_blackListBS (push_event c lm) = lm_blackListBS lm"
proof -
  have cl: "client_ok (lc_sched cfg) (lm_sched lm) (Push_event c)" using idle_of_pending [OF st inv c] by simp
  obtain s where s: "sched_step (lc_sched cfg) (Push_event c) (lm_sched lm) = Some s" "sched_reach (lc_sched cfg) s0 s"
    by (rule client_reach [OF st inv cl])
  have p: "pushNewEvent (Some c) (lm_sched lm) = (SUCCESS, s)" using s(1) f by (auto simp: pushNewEvent_def)
  then have "events_of s \<subseteq> insert c (events_of (lm_sched lm))" using f by (auto simp: pushNewEvent_def events_of_def)
  then have "loop_inv cfg s0 [] (lm\<lparr>lm_sched := s\<rparr>)" using inv s(2) by (auto simp: loop_inv_def)
  then show "loop_inv cfg s0 [] (push_event c lm)" "lm_complaints (push_event c lm) = lm_complaints lm"
    "lm_nevt (push_event c lm) = lm_nevt lm" "lm_blackListBS (push_event c lm) = lm_blackListBS lm"
    using p by (simp_all add: push_event_def)
qed

lemma free_slot_ok:
  assumes inv: "loop_inv cfg s0 (c # pend) lm"
  obtains wb where "free_slot (slot_index c) lm = Done (True, lm\<lparr>lm_whiteboard := wb\<rparr>)"
    "loop_inv cfg s0 pend (lm\<lparr>lm_whiteboard := wb\<rparr>)" "wb_freeSlots wb \<noteq> []"
proof -
  have "wb_inv (lm_whiteboard lm)" "held (lm_whiteboard lm) c" using inv by (simp_all add: loop_inv_def)
  then obtain wb where wb: "freeStore (slot_index c) (lm_whiteboard lm) = Some (True, wb)" "wb_inv wb"
    "length (wb_partitions wb) = length (wb_partitions (lm_whiteboard lm))" "wb_freeSlots wb \<noteq> []"
    "\<forall>d. held (lm_whiteboard lm) d \<longrightarrow> slot_index d \<noteq> slot_index c \<longrightarrow> held wb d"
    by (rule free_held)
  have "held wb d" if "d \<in> events_of (lm_sched lm) \<union> set pend" for d
  proof (rule wb(5) [rule_format])
    show "held (lm_whiteboard lm) d" using inv that by (auto simp: loop_inv_def)
    show "slot_index d \<noteq> slot_index c"
      using inv that by (auto simp: loop_inv_def) (metis imageI)+
  qed
  then have "loop_inv cfg s0 pend (lm\<lparr>lm_whiteboard := wb\<rparr>)" using inv wb(2,3) by (simp add: loop_inv_def)
  then show thesis using that wb(1,4) by (simp add: free_slot_def)
qed

text \<open>The number of the event is within the bit set, when there is one.\<close>

definition within_bits :: "'sel loop_mgr \<Rightarrow> u64 \<Rightarrow> bool" where
  "within_bits lm e \<longleftrightarrow> (case lm_blackListBS lm of None \<Rightarrow> True | Some bs \<Rightarrow> unat e < length bs)"

lemma execute_ok:
  assumes st: "sound_start cfg \<rho> s0" and inv: "loop_inv cfg s0 [c] lm" and c: "\<not> usesSubSlot c"
    and f: "sd_freeSlots (lm_sched lm) > 0" and b: "within_bits lm (ctx_evt c)"
  obtains sc lm' where "executeEvent cfg c lm = Done (sc, lm')" "loop_inv cfg s0 [] lm'" "lm_complaints lm' = lm_complaints lm"
    "lm_nevt lm' = lm_nevt lm" "lm_blackListBS lm' = lm_blackListBS lm" "sc = SUCCESS \<or> sc = RECOVERABLE"
    "sc \<noteq> SUCCESS \<longrightarrow> sd_freeSlots (lm_sched lm') > 0 \<and> wb_freeSlots (lm_whiteboard lm') \<noteq> []"
proof -
  obtain s1 where s1: "meanwhile cfg lm = Done (lm\<lparr>lm_sched := s1, lm_calls := Suc (lm_calls lm)\<rparr>)"
    "loop_inv cfg s0 [c] (lm\<lparr>lm_sched := s1, lm_calls := Suc (lm_calls lm)\<rparr>)" "sd_freeSlots s1 = sd_freeSlots (lm_sched lm)"
    by (rule meanwhile_ok [OF st inv])
  let ?lm1 = "lm\<lparr>lm_sched := s1, lm_calls := Suc (lm_calls lm)\<rparr>"
  obtain x where x: "reset_exec cfg c ?lm1 = Done (?lm1\<lparr>lm_sched := (lm_sched ?lm1)\<lparr>sd_exec := x\<rparr>\<rparr>)"
    "loop_inv cfg s0 [c] (?lm1\<lparr>lm_sched := (lm_sched ?lm1)\<lparr>sd_exec := x\<rparr>\<rparr>)"
    by (rule reset_exec_loop_ok [OF st s1(2) c])
  let ?lm2 = "?lm1\<lparr>lm_sched := (lm_sched ?lm1)\<lparr>sd_exec := x\<rparr>\<rparr>"
  obtain skip where skip: "blacklisted cfg ?lm2 c = Done skip"
    using b by (auto simp: blacklisted_def within_bits_def split: option.splits)
  have ex: "executeEvent cfg c lm =
      (if skip then obind (free_slot (slot_index c) ?lm2) (\<lambda>(ok, lm). Done (RECOVERABLE, lm))
       else obind (meanwhile cfg (fireIncident BeginProcessing c (fireIncident BeginEvent c ?lm2))) (\<lambda>lm. Done (SUCCESS, push_event c lm)))"
    unfolding executeEvent_def s1(1) obind.simps x(1) skip ..
  show thesis
  proof (cases skip)
    case True
    obtain wb where wb: "free_slot (slot_index c) ?lm2 = Done (True, ?lm2\<lparr>lm_whiteboard := wb\<rparr>)"
      "loop_inv cfg s0 [] (?lm2\<lparr>lm_whiteboard := wb\<rparr>)" "wb_freeSlots wb \<noteq> []"
      by (rule free_slot_ok [OF x(2)])
    show thesis by (rule that [OF _ wb(2), of RECOVERABLE]) (use ex wb(1,3) True f s1(3) in simp_all)
  next
    case False
    let ?lm3 = "fireIncident BeginProcessing c (fireIncident BeginEvent c ?lm2)"
    have i3: "loop_inv cfg s0 [c] ?lm3" using x(2) by (simp add: fireIncident_def loop_inv_def)
    obtain s4 where s4: "meanwhile cfg ?lm3 = Done (?lm3\<lparr>lm_sched := s4, lm_calls := Suc (lm_calls ?lm3)\<rparr>)"
      "loop_inv cfg s0 [c] (?lm3\<lparr>lm_sched := s4, lm_calls := Suc (lm_calls ?lm3)\<rparr>)" "sd_freeSlots s4 = sd_freeSlots (lm_sched ?lm3)"
      by (rule meanwhile_ok [OF st i3])
    have f4: "sd_freeSlots (lm_sched (?lm3\<lparr>lm_sched := s4, lm_calls := Suc (lm_calls ?lm3)\<rparr>)) > 0"
      using s4(3) s1(3) f by (simp add: fireIncident_def)
    note p = push_event_ok [OF st s4(2) c f4]
    show thesis by (rule that [OF _ p(1), of SUCCESS]) (use p(2-4) ex s4(1) False in \<open>simp_all add: fireIncident_def\<close>)
  qed
qed

section \<open>Taking finished events\<close>

lemma popped_slot:
  assumes si: "slots_inv cfg (sd_slots s)" and ev: "events_inv cfg (sd_slots s) (sd_actions s) (sd_finished s) (sd_freeSlots s)"
    and f: "sd_finished s = c # cs"
  shows "slot_index c \<notin> slot_index ` events_of (s\<lparr>sd_finished := cs, sd_freeSlots := n\<rparr>)"
proof -
  have "slot_index d \<noteq> slot_index c" if "d \<in> events_of (s\<lparr>sd_finished := cs, sd_freeSlots := n\<rparr>)" for d
  proof -
    from that consider "d \<in> set (new_events (sd_actions s) @ cs)" | "d \<in> live_events (sd_slots s)"
      by (auto simp: events_of_def)
    then show ?thesis
    proof cases
      case 1
      then have "slot_index d \<in> slot_index ` (set (new_events (sd_actions s)) \<union> set cs)" by auto
      moreover have "slot_index c \<notin> slot_index ` (set (new_events (sd_actions s)) \<union> set cs)"
        using ev f by (auto simp: events_inv_def)
      ultimately show ?thesis by metis
    next
      case 2
      then obtain i where i: "i < length (sd_slots s)" "ctx_at (sd_slots s) i = Some d"
        by (auto simp: live_events_def in_set_conv_nth)
      have "ctx_at (sd_slots s) (slot_index c) = None" using ev f by (simp add: events_inv_def)
      then show ?thesis using slot_of_context(1) [OF si i] i by auto
    qed
  qed
  then show ?thesis by (metis imageE)
qed

lemma take_finished:
  assumes st: "sound_start cfg \<rho> s0" and inv: "loop_inv cfg s0 pend lm" and f: "sd_finished (lm_sched lm) = c # cs"
  shows "loop_inv cfg s0 (pend @ [c]) (lm\<lparr>lm_sched := (lm_sched lm)\<lparr>sd_finished := cs, sd_freeSlots := sd_freeSlots (lm_sched lm) + 1\<rparr>\<rparr>)"
proof -
  let ?s = "(lm_sched lm)\<lparr>sd_finished := cs, sd_freeSlots := sd_freeSlots (lm_sched lm) + 1\<rparr>"
  obtain insts where "sched_inv (lc_sched cfg) insts (lm_sched lm)" by (rule sound_inv [OF st inv])
  note d = sched_invD [OF this]
  have c: "slot_index c \<notin> slot_index ` events_of ?s" by (rule popped_slot [OF d(1,6) f])
  have ev: "events_of (lm_sched lm) = insert c (events_of ?s)" using f by (auto simp: events_of_def)
  have "client_ok (lc_sched cfg) (lm_sched lm) Try_pop" by simp
  then obtain s where s: "sched_step (lc_sched cfg) Try_pop (lm_sched lm) = Some s" "sched_reach (lc_sched cfg) s0 s"
    by (rule client_reach [OF st inv])
  then have reach: "sched_reach (lc_sched cfg) s0 ?s" using f by (simp add: tryPopFinishedEvent_def)
  have p: "distinct (map slot_index pend)" "slot_index ` set pend \<inter> slot_index ` insert c (events_of ?s) = {}"
    and h: "\<forall>d \<in> insert c (events_of ?s) \<union> set pend. held (lm_whiteboard lm) d"
    using inv unfolding loop_inv_def ev by blast+
  have "distinct (map slot_index (pend @ [c]))" using p by auto
  moreover have "slot_index ` set (pend @ [c]) \<inter> slot_index ` events_of ?s = {}" using p(2) c by auto
  moreover have "\<forall>d \<in> events_of ?s \<union> set (pend @ [c]). held (lm_whiteboard lm) d" using h by auto
  moreover have "wb_inv (lm_whiteboard lm)" "length (wb_partitions (lm_whiteboard lm)) = cg_maxEvents (lc_sched cfg)"
    using inv by (simp_all add: loop_inv_def)
  ultimately show ?thesis using reach by (simp add: loop_inv_def)
qed

lemma reach_free:
  assumes st: "sound_start cfg \<rho> s0" and inv: "loop_inv cfg s0 pend lm"
  shows "0 \<le> sd_freeSlots (lm_sched lm)" and "sd_freeSlots (lm_sched lm) \<le> int (cg_maxEvents (lc_sched cfg))"
proof -
  obtain insts where "sched_inv (lc_sched cfg) insts (lm_sched lm)" by (rule sound_inv [OF st inv])
  note d = sched_invD(6) [OF this]
  then show "0 \<le> sd_freeSlots (lm_sched lm)" "sd_freeSlots (lm_sched lm) \<le> int (cg_maxEvents (lc_sched cfg))"
    by (simp_all add: events_inv_def)
qed

definition pending :: "event_context option \<Rightarrow> event_context list" where
  "pending x = (case x of None \<Rightarrow> [] | Some c \<Rightarrow> [c])"

definition same_books :: "'sel loop_mgr \<Rightarrow> 'sel loop_mgr \<Rightarrow> bool" where
  "same_books lm lm' \<longleftrightarrow> lm_nevt lm' = lm_nevt lm \<and> lm_blackListBS lm' = lm_blackListBS lm \<and>
     filter bad_complaint (lm_complaints lm') = filter bad_complaint (lm_complaints lm)"

lemma same_books_trans: "same_books a b \<Longrightarrow> same_books b c \<Longrightarrow> same_books a c"
  by (simp add: same_books_def)

lemma pop_cases:
  "popFinishedEvent cfg s = None \<or> popFinishedEvent cfg s = Some (FAILURE, None, s) \<or>
    (\<exists>c cs. sd_finished s = c # cs \<and>
       popFinishedEvent cfg s = Some (SUCCESS, Some c, s\<lparr>sd_finished := cs, sd_freeSlots := sd_freeSlots s + 1\<rparr>))"
  by (cases "sd_finished s") (simp_all add: popFinishedEvent_def)

lemma wait_ok:
  assumes st: "sound_start cfg \<rho> s0"
  shows "loop_inv cfg s0 [] lm \<Longrightarrow> wait_finished k cfg lm = Exhausted \<or>
    (\<exists>x lm'. wait_finished k cfg lm = Done (x, lm') \<and> loop_inv cfg s0 (pending x) lm' \<and> same_books lm lm')"
proof (induction k arbitrary: lm)
  case (Suc k)
  obtain s where s: "meanwhile cfg lm = Done (lm\<lparr>lm_sched := s, lm_calls := Suc (lm_calls lm)\<rparr>)"
    "loop_inv cfg s0 [] (lm\<lparr>lm_sched := s, lm_calls := Suc (lm_calls lm)\<rparr>)"
    by (rule meanwhile_ok [OF st Suc.prems])
  let ?lm = "lm\<lparr>lm_sched := s, lm_calls := Suc (lm_calls lm)\<rparr>"
  have b: "same_books lm ?lm" by (simp add: same_books_def)
  consider (none) "popFinishedEvent (lc_sched cfg) s = None" | (fail) "popFinishedEvent (lc_sched cfg) s = Some (FAILURE, None, s)"
    | (some) c cs where "sd_finished s = c # cs"
        "popFinishedEvent (lc_sched cfg) s = Some (SUCCESS, Some c, s\<lparr>sd_finished := cs, sd_freeSlots := sd_freeSlots s + 1\<rparr>)"
    using pop_cases [of "lc_sched cfg" s] by metis
  then show ?case
  proof cases
    case none
    then have "wait_finished (Suc k) cfg lm = wait_finished k cfg ?lm" using s(1) by simp
    then show ?thesis using Suc.IH [OF s(2)] same_books_trans [OF b] by metis
  next
    case fail
    then have "wait_finished (Suc k) cfg lm = Done (None, ?lm)" using s(1) by simp
    then show ?thesis using s(2) b by (auto simp: pending_def)
  next
    case (some c cs)
    let ?s = "s\<lparr>sd_finished := cs, sd_freeSlots := sd_freeSlots s + 1\<rparr>"
    have "wait_finished (Suc k) cfg lm = Done (Some c, ?lm\<lparr>lm_sched := ?s\<rparr>)" using s(1) some(2) by simp
    moreover have "loop_inv cfg s0 ([] @ [c]) (?lm\<lparr>lm_sched := ?s\<rparr>)"
      using take_finished [OF st s(2)] some(1) by simp
    moreover have "same_books lm (?lm\<lparr>lm_sched := ?s\<rparr>)" by (simp add: same_books_def)
    ultimately show ?thesis by (auto simp: pending_def)
  qed
qed simp

lemma pop_others_ok:
  assumes st: "sound_start cfg \<rho> s0"
  shows "loop_inv cfg s0 pend lm \<Longrightarrow> int (cg_maxEvents (lc_sched cfg)) < sd_freeSlots (lm_sched lm) + int k \<Longrightarrow>
    \<exists>cs lm'. pop_others k cfg lm = Done (map Some cs, lm') \<and> loop_inv cfg s0 (pend @ cs) lm' \<and> same_books lm lm'"
proof (induction k arbitrary: pend lm)
  case 0
  then show ?case using reach_free [OF st 0(1)] by simp
next
  case (Suc k)
  obtain s where s: "meanwhile cfg lm = Done (lm\<lparr>lm_sched := s, lm_calls := Suc (lm_calls lm)\<rparr>)"
    "loop_inv cfg s0 pend (lm\<lparr>lm_sched := s, lm_calls := Suc (lm_calls lm)\<rparr>)" "sd_freeSlots s = sd_freeSlots (lm_sched lm)"
    by (rule meanwhile_ok [OF st Suc.prems(1)])
  let ?lm = "lm\<lparr>lm_sched := s, lm_calls := Suc (lm_calls lm)\<rparr>"
  show ?case
  proof (cases "sd_finished s")
    case Nil
    then have "pop_others (Suc k) cfg lm = Done (map Some [], ?lm)" using s(1) by (simp add: tryPopFinishedEvent_def)
    moreover have "same_books lm ?lm" by (simp add: same_books_def)
    ultimately show ?thesis using s(2) append_Nil2 by metis
  next
    case (Cons c cs)
    let ?s = "s\<lparr>sd_finished := cs, sd_freeSlots := sd_freeSlots s + 1\<rparr>"
    have i: "loop_inv cfg s0 (pend @ [c]) (?lm\<lparr>lm_sched := ?s\<rparr>)" using take_finished [OF st s(2)] Cons by simp
    have "int (cg_maxEvents (lc_sched cfg)) < sd_freeSlots (lm_sched (?lm\<lparr>lm_sched := ?s\<rparr>)) + int k" using Suc.prems(2) s(3) by simp
    from Suc.IH [OF i this] obtain ds lm' where ds: "pop_others k cfg (?lm\<lparr>lm_sched := ?s\<rparr>) = Done (map Some ds, lm')"
      "loop_inv cfg s0 ((pend @ [c]) @ ds) lm'" "same_books (?lm\<lparr>lm_sched := ?s\<rparr>) lm'" by blast
    have "pop_others (Suc k) cfg lm = Done (map Some (c # ds), lm')"
      using s(1) Cons ds(1) by (simp add: tryPopFinishedEvent_def)
    moreover have "same_books lm (?lm\<lparr>lm_sched := ?s\<rparr>)" by (simp add: same_books_def)
    from this ds(3) have "same_books lm lm'" by (rule same_books_trans)
    moreover have "loop_inv cfg s0 (pend @ c # ds) lm'" using ds(2) by simp
    ultimately show ?thesis by blast
  qed
qed

lemma clear_slot_ok:
  assumes inv: "loop_inv cfg s0 (c # pend) lm"
  obtains wb where "clearWBSlot (slot_index c) lm = Done (True, lm\<lparr>lm_whiteboard := wb\<rparr>)"
    "loop_inv cfg s0 pend (lm\<lparr>lm_whiteboard := wb\<rparr>)"
proof -
  let ?wb = "lm_whiteboard lm" and ?i = "slot_index c"
  have i: "wb_inv ?wb" "?i < length (wb_partitions ?wb)" using inv by (simp_all add: loop_inv_def held_def)
  obtain s where "pt_service (wb_partitions ?wb ! ?i) = Some s" by (rule service_there [OF i])
  then have w: "wb_clearStore ?i ?wb = Some (put_service ?i (clearStore s) ?wb)" using i(2) by (simp add: wb_clearStore_def)
  have "loop_inv cfg s0 (c # pend) (lm\<lparr>lm_whiteboard := put_service ?i (clearStore s) ?wb\<rparr>)"
    using inv wb_inv_put [OF i] held_put [OF i(2)] by (simp add: loop_inv_def)
  then obtain wb where "free_slot ?i (lm\<lparr>lm_whiteboard := put_service ?i (clearStore s) ?wb\<rparr>) =
      Done (True, (lm\<lparr>lm_whiteboard := put_service ?i (clearStore s) ?wb\<rparr>)\<lparr>lm_whiteboard := wb\<rparr>)"
    "loop_inv cfg s0 pend ((lm\<lparr>lm_whiteboard := put_service ?i (clearStore s) ?wb\<rparr>)\<lparr>lm_whiteboard := wb\<rparr>)"
    by (rule free_slot_ok)
  then show thesis using that w by (simp add: clearWBSlot_def)
qed

lemma flush_ok:
  assumes st: "sound_start cfg \<rho> s0" and inv: "loop_inv cfg s0 (pending x @ pend) lm"
  obtains b m lm' where "flush_event cfg x ((failed, n), lm) = Done ((b, m), lm')" "loop_inv cfg s0 pend lm'" "same_books lm lm'"
proof (cases x)
  case None
  have "loop_inv cfg s0 pend (complain Null_context lm)" using inv None by (simp add: pending_def complain_def loop_inv_def)
  then show thesis using that None by (simp add: flush_event_def complain_def same_books_def bad_complaint_def)
next
  case (Some c)
  then have i: "loop_inv cfg s0 (c # pend) lm" using inv by (simp add: pending_def)
  obtain s where s: "meanwhile cfg lm = Done (lm\<lparr>lm_sched := s, lm_calls := Suc (lm_calls lm)\<rparr>)"
    "loop_inv cfg s0 (c # pend) (lm\<lparr>lm_sched := s, lm_calls := Suc (lm_calls lm)\<rparr>)"
    by (rule meanwhile_ok [OF st i])
  let ?lm1 = "lm\<lparr>lm_sched := s, lm_calls := Suc (lm_calls lm)\<rparr>"
  obtain insts where "sched_inv (lc_sched cfg) insts (lm_sched ?lm1)" by (rule sound_inv [OF st s(2)])
  then have "exec_inv (lc_sched cfg) (sd_exec s)" using sched_invD(4) by fastforce
  moreover have "slot_index c < cg_maxEvents (lc_sched cfg)" using i by (simp add: loop_inv_def held_def)
  ultimately obtain status where status: "eventStatus c (sd_exec s) = Inr status" using exec_inv_status(1) by blast
  let ?bad = "status \<noteq> ES_Success"
  let ?lm2 = "fireIncident EndEvent c (fireIncident EndProcessing c (if ?bad then complain (Event_failed c) ?lm1 else ?lm1))"
  have "loop_inv cfg s0 (c # pend) ?lm2" using s(2) by (simp add: fireIncident_def complain_def loop_inv_def)
  then obtain wb where wb: "clearWBSlot (slot_index c) ?lm2 = Done (True, ?lm2\<lparr>lm_whiteboard := wb\<rparr>)"
    "loop_inv cfg s0 pend (?lm2\<lparr>lm_whiteboard := wb\<rparr>)"
    by (rule clear_slot_ok)
  have run: "flush_event cfg x ((failed, n), lm) = Done ((failed \<or> ?bad \<and> lc_abortOnFailure cfg, Suc n), ?lm2\<lparr>lm_whiteboard := wb\<rparr>)"
    using wb(1) unfolding flush_event_def prod.case Some option.case s(1) obind.simps by (simp add: status Let_def)
  have "same_books lm (?lm2\<lparr>lm_whiteboard := wb\<rparr>)"
    by (simp add: same_books_def fireIncident_def complain_def bad_complaint_def)
  with run wb(2) show thesis by (rule that)
qed

lemma flush_all_ok:
  assumes st: "sound_start cfg \<rho> s0"
  shows "loop_inv cfg s0 (concat (map pending xs)) (snd r) \<Longrightarrow>
    \<exists>b m lm'. each (flush_event cfg) xs r = Done ((b, m), lm') \<and> loop_inv cfg s0 [] lm' \<and> same_books (snd r) lm'"
proof (induction xs arbitrary: r)
  case Nil
  then show ?case by (cases r) (auto simp: same_books_def)
next
  case (Cons x xs)
  obtain failed n lm where r: "r = ((failed, n), lm)" by (metis prod.exhaust)
  obtain b m lm' where f: "flush_event cfg x r = Done ((b, m), lm')" "loop_inv cfg s0 (concat (map pending xs)) lm'" "same_books lm lm'"
    unfolding r by (rule flush_ok [OF st]) (use Cons.prems r in auto)
  have "\<exists>b' m' lm''. each (flush_event cfg) xs ((b, m), lm') = Done ((b', m'), lm'') \<and> loop_inv cfg s0 [] lm'' \<and> same_books lm' lm''"
    using Cons.IH [of "((b, m), lm')"] f(2) by simp
  then obtain b' m' lm'' where "each (flush_event cfg) xs ((b, m), lm') = Done ((b', m'), lm'')" "loop_inv cfg s0 [] lm''" "same_books lm' lm''"
    by blast
  then show ?case using f(1,3) r same_books_trans by auto
qed

lemma pending_some: "concat (map pending (map Some cs)) = cs"
  by (induction cs) (auto simp: pending_def)

lemma drain_ok:
  assumes st: "sound_start cfg \<rho> s0" and inv: "loop_inv cfg s0 [] lm"
  shows "drainScheduler cfg n lm = Exhausted \<or>
    (\<exists>b m lm'. drainScheduler cfg n lm = Done ((b, m), lm') \<and> loop_inv cfg s0 [] lm' \<and> same_books lm lm')"
proof (cases "wait_finished (lc_patience cfg) cfg lm = Exhausted")
  case False
  then obtain x lm1 where x: "wait_finished (lc_patience cfg) cfg lm = Done (x, lm1)" "loop_inv cfg s0 (pending x) lm1" "same_books lm lm1"
    using wait_ok [OF st inv, of "lc_patience cfg"] by blast
  have "int (cg_maxEvents (lc_sched cfg)) < sd_freeSlots (lm_sched lm1) + int (cg_maxEvents (lc_sched cfg) + 2)"
    using reach_free(1) [OF st x(2)] by simp
  from pop_others_ok [OF st x(2) this] obtain cs lm2 where
    cs: "pop_others (cg_maxEvents (lc_sched cfg) + 2) cfg lm1 = Done (map Some cs, lm2)" "loop_inv cfg s0 (pending x @ cs) lm2" "same_books lm1 lm2"
    by blast
  have "\<exists>b m lm'. each (flush_event cfg) (x # map Some cs) ((False, n), lm2) = Done ((b, m), lm') \<and> loop_inv cfg s0 [] lm' \<and> same_books lm2 lm'"
    using flush_all_ok [OF st, of "x # map Some cs" "((False, n), lm2)"] cs(2) by (simp only: list.map concat.simps pending_some snd_conv)
  then obtain b m lm' where "each (flush_event cfg) (x # map Some cs) ((False, n), lm2) = Done ((b, m), lm')" "loop_inv cfg s0 [] lm'" "same_books lm2 lm'"
    by blast
  moreover from this have "drainScheduler cfg n lm = Done ((b, m), lm')"
    unfolding drainScheduler_def x(1) obind.simps prod.case cs(1) by simp
  ultimately show ?thesis using same_books_trans [OF same_books_trans [OF x(3) cs(3)]] by blast
qed (simp add: drainScheduler_def)

section \<open>Why a run ends early\<close>

lemma obind_elim: "obind m f = Done y \<Longrightarrow> (\<And>x. m = Done x \<Longrightarrow> f x = Done y \<Longrightarrow> P) \<Longrightarrow> P"
  by (cases m) auto

text \<open>The scheduler had no event in flight to give, or an event failed under \<open>AbortOnFailure\<close>.\<close>

definition ended_early :: "'sel loop_config \<Rightarrow> 'sel loop_mgr \<Rightarrow> bool" where
  "ended_early cfg lm \<longleftrightarrow> Null_context \<in> set (lm_complaints lm) \<or>
     lc_abortOnFailure cfg \<and> (\<exists>c. Event_failed c \<in> set (lm_complaints lm))"

lemma ended_early_mono: "ended_early cfg lm \<Longrightarrow> set (lm_complaints lm) \<subseteq> set (lm_complaints lm') \<Longrightarrow> ended_early cfg lm'"
  by (auto simp: ended_early_def)

lemma meanwhile_complaints: "meanwhile cfg lm = Done lm' \<Longrightarrow> lm_complaints lm' = lm_complaints lm"
  by (auto simp: meanwhile_def split: option.splits)

lemma clear_complaints: "clearWBSlot i lm = Done (b, lm') \<Longrightarrow> lm_complaints lm' = lm_complaints lm"
  by (auto simp: clearWBSlot_def free_slot_def split: option.splits)

lemma wait_complaints: "wait_finished k cfg lm = Done (c, lm') \<Longrightarrow> lm_complaints lm' = lm_complaints lm"
proof (induction k arbitrary: lm)
  case (Suc k)
  obtain lm1 where m: "meanwhile cfg lm = Done lm1"
    and r: "(case popFinishedEvent (lc_sched cfg) (lm_sched lm1) of
      None \<Rightarrow> wait_finished k cfg lm1 | Some (sc, c, s) \<Rightarrow> Done (c, lm1\<lparr>lm_sched := s\<rparr>)) = Done (c, lm')"
    by (rule obind_elim [OF Suc.prems [unfolded wait_finished.simps]])
  show ?case
  proof (cases "popFinishedEvent (lc_sched cfg) (lm_sched lm1)")
    case None
    with r have "wait_finished k cfg lm1 = Done (c, lm')" by simp
    from Suc.IH [OF this] meanwhile_complaints [OF m] show ?thesis by simp
  qed (use r meanwhile_complaints [OF m] in auto)
qed simp

lemma pop_complaints: "pop_others k cfg lm = Done (cs, lm') \<Longrightarrow> lm_complaints lm' = lm_complaints lm"
proof (induction k arbitrary: lm cs)
  case (Suc k)
  obtain lm1 where m: "meanwhile cfg lm = Done lm1"
    and r: "(case tryPopFinishedEvent (lm_sched lm1) of (sc, c, s) \<Rightarrow>
      if sc \<noteq> SUCCESS then Done ([], lm1\<lparr>lm_sched := s\<rparr>)
      else obind (pop_others k cfg (lm1\<lparr>lm_sched := s\<rparr>)) (\<lambda>(cs, lm). Done (c # cs, lm))) = Done (cs, lm')"
    by (rule obind_elim [OF Suc.prems [unfolded pop_others.simps]])
  obtain sc c s where t: "tryPopFinishedEvent (lm_sched lm1) = (sc, c, s)" by (metis prod.exhaust)
  show ?case
  proof (cases "sc = SUCCESS")
    case True
    with r t have "obind (pop_others k cfg (lm1\<lparr>lm_sched := s\<rparr>)) (\<lambda>(cs, lm). Done (c # cs, lm)) = Done (cs, lm')" by simp
    then obtain ds where "pop_others k cfg (lm1\<lparr>lm_sched := s\<rparr>) = Done (ds, lm')" by (auto elim!: obind_elim)
    from Suc.IH [OF this] meanwhile_complaints [OF m] show ?thesis by simp
  qed (use r t meanwhile_complaints [OF m] in auto)
qed simp

lemma flush_reason:
  assumes "flush_event cfg x ((failed, n), lm) = Done ((b, m), lm')"
  shows "set (lm_complaints lm) \<subseteq> set (lm_complaints lm') \<and> (b \<longrightarrow> failed \<or> ended_early cfg lm')"
proof (cases x)
  case None
  then show ?thesis using assms by (auto simp: flush_event_def complain_def ended_early_def)
next
  case (Some c)
  obtain lm1 where m: "meanwhile cfg lm = Done lm1"
    and r: "(case eventStatus c (sd_exec (lm_sched lm1)) of
                Inl e \<Rightarrow> Undefined
              | Inr status \<Rightarrow>
                  (let bad = status \<noteq> ES_Success;
                       lm = (if bad then complain (Event_failed c) lm1 else lm1);
                       lm = fireIncident EndEvent c (fireIncident EndProcessing c lm)
                   in obind (clearWBSlot (slot_index c) lm) (\<lambda>(ok, lm).
                        Done ((failed \<or> bad \<and> lc_abortOnFailure cfg, Suc n),
                              if ok then lm else complain (Slot_not_cleared c) lm)))) = Done ((b, m), lm')"
    by (rule obind_elim [OF assms [unfolded Some flush_event_def prod.case option.case]]) blast
  then obtain status where st: "eventStatus c (sd_exec (lm_sched lm1)) = Inr status"
    by (cases "eventStatus c (sd_exec (lm_sched lm1))") simp_all
  let ?lm2 = "fireIncident EndEvent c (fireIncident EndProcessing c
    (if status \<noteq> ES_Success then complain (Event_failed c) lm1 else lm1))"
  from r st have "obind (clearWBSlot (slot_index c) ?lm2) (\<lambda>(ok, lm). Done ((failed \<or> status \<noteq> ES_Success \<and> lc_abortOnFailure cfg, Suc n),
      if ok then lm else complain (Slot_not_cleared c) lm)) = Done ((b, m), lm')"
    by (simp only: sum.case Let_def)
  then obtain ok lm3 where c3: "clearWBSlot (slot_index c) ?lm2 = Done (ok, lm3)"
    and b: "b = (failed \<or> status \<noteq> ES_Success \<and> lc_abortOnFailure cfg)"
    and l: "lm' = (if ok then lm3 else complain (Slot_not_cleared c) lm3)"
    by (elim obind_elim) (auto split: prod.splits)
  have "set (lm_complaints ?lm2) \<subseteq> set (lm_complaints lm')"
    using clear_complaints [OF c3] l by (auto simp: complain_def)
  moreover have "set (lm_complaints lm) \<subseteq> set (lm_complaints ?lm2)"
    using meanwhile_complaints [OF m] by (auto simp: complain_def fireIncident_def)
  moreover have "ended_early cfg ?lm2" if "status \<noteq> ES_Success \<and> lc_abortOnFailure cfg"
    using that by (auto simp: complain_def fireIncident_def ended_early_def)
  ultimately show ?thesis using b ended_early_mono by blast
qed

lemma flush_all_reason:
  "each (flush_event cfg) xs ((failed, n), lm) = Done ((b, m), lm') \<Longrightarrow>
    set (lm_complaints lm) \<subseteq> set (lm_complaints lm') \<and> (b \<longrightarrow> failed \<or> ended_early cfg lm')"
proof (induction xs arbitrary: failed n lm)
  case (Cons x xs)
  obtain b1 m1 lm1 where f: "flush_event cfg x ((failed, n), lm) = Done ((b1, m1), lm1)"
    and r: "each (flush_event cfg) xs ((b1, m1), lm1) = Done ((b, m), lm')"
    using Cons.prems(1) unfolding each.simps by (elim obind_elim) (metis prod.exhaust)
  show ?case using flush_reason [OF f] Cons.IH [OF r] ended_early_mono by blast
qed simp

lemma drain_reason:
  assumes "drainScheduler cfg n lm = Done ((b, m), lm')"
  shows "set (lm_complaints lm) \<subseteq> set (lm_complaints lm') \<and> (b \<longrightarrow> ended_early cfg lm')"
proof -
  obtain c lm0 where 0: "wait_finished (lc_patience cfg) cfg lm = Done (c, lm0)"
    "obind (pop_others (cg_maxEvents (lc_sched cfg) + 2) cfg lm0) (\<lambda>(cs, lm).
      each (flush_event cfg) (c # cs) ((False, n), lm)) = Done ((b, m), lm')"
    by (rule obind_elim [OF assms [unfolded drainScheduler_def]]) (simp only: split_paired_all prod.case)
  obtain cs lm1 where 1: "pop_others (cg_maxEvents (lc_sched cfg) + 2) cfg lm0 = Done (cs, lm1)"
    "each (flush_event cfg) (c # cs) ((False, n), lm1) = Done ((b, m), lm')"
    by (rule obind_elim [OF 0(2)]) (simp only: split_paired_all prod.case)
  show ?thesis using flush_all_reason [OF 1(2)] wait_complaints [OF 0(1)] pop_complaints [OF 1(1)] by simp
qed

section \<open>The loop\<close>

text \<open>What holds before each turn; a bit set has room for the events that are still to come.\<close>

definition turn_inv :: "'sel loop_config \<Rightarrow> sched \<Rightarrow> int \<Rightarrow> loop_vars \<times> 'sel loop_mgr \<Rightarrow> bool" where
  "turn_inv cfg s0 maxevt r \<longleftrightarrow>
     (case r of (v, lm) \<Rightarrow>
       loop_inv cfg s0 [] lm \<and> filter bad_complaint (lm_complaints lm) = [] \<and> (lv_ended v \<longrightarrow> ended_early cfg lm) \<and>
       (lv_creating v \<longrightarrow> more_to_create maxevt v \<and> 0 \<le> lv_created v \<and>
          sd_freeSlots (lm_sched lm) > 0 \<and> wb_freeSlots (lm_whiteboard lm) \<noteq> []) \<and>
       (case lm_blackListBS lm of None \<Rightarrow> True
        | Some bs \<Rightarrow> 0 < maxevt \<and> length bs = nat maxevt \<and> (0 \<le> lv_created v \<longrightarrow> lv_created v = int (unat (lm_nevt lm)))))"

abbreviation events_so_far :: "loop_vars \<times> 'sel loop_mgr \<Rightarrow> nat" where
  "events_so_far r \<equiv> unat (lm_nevt (snd r))"

lemma next_number: "unat e < 2 ^ 31 \<Longrightarrow> unat (e + 1 :: u64) = Suc (unat e)"
  by (simp add: unat_word_ariths)

lemma create_turn_ok:
  assumes st: "sound_start cfg \<rho> s0" and inv: "turn_inv cfg s0 maxevt (v, lm)" and c: "lv_creating v \<or> may_create maxevt v lm"
    and n: "unat (lm_nevt lm) < 2 ^ 31"
  obtains v' lm' where "create_event cfg maxevt v lm = Done (v', lm')" "turn_inv cfg s0 maxevt (v', lm')"
    "unat (lm_nevt lm') = Suc (unat (lm_nevt lm))"
proof -
  have li: "loop_inv cfg s0 [] lm" and bad: "filter bad_complaint (lm_complaints lm) = []" and early: "lv_ended v \<longrightarrow> ended_early cfg lm"
    and free: "sd_freeSlots (lm_sched lm) > 0" "wb_freeSlots (lm_whiteboard lm) \<noteq> []"
    and more: "more_to_create maxevt v" "0 \<le> lv_created v"
    using inv c by (auto simp: turn_inv_def may_create_def wb_countFree_def freeSlots_def)
  have bits: "0 < maxevt \<and> length bs = nat maxevt \<and> lv_created v = int (unat (lm_nevt lm))" if "lm_blackListBS lm = Some bs" for bs
    using inv more(2) that by (simp add: turn_inv_def)
  obtain ctx lm1 where cr: "createEventContext cfg lm = Done (ctx, lm1)" "lm_nevt lm1 = lm_nevt lm + 1" "same_sched lm lm1"
    "if ctx_valid ctx then loop_inv cfg s0 [ctx] lm1 \<and> ctx_evt ctx = lm_nevt lm \<and> \<not> usesSubSlot ctx else loop_inv cfg s0 [] lm1"
    by (rule create_ok [OF st li free(2) n])
  have nevt: "unat (lm_nevt lm1) = Suc (unat (lm_nevt lm))" unfolding cr(2) by (rule next_number [OF n])
  show thesis
  proof (cases "ctx_valid ctx")
    case False
    then have i1: "loop_inv cfg s0 [] lm1" using cr(4) by simp
    let ?v = "v\<lparr>lv_created := - 1, lv_creating := False\<rparr>"
    have "create_event cfg maxevt v lm = Done (?v, lm1)" using cr(1) False by (simp add: create_event_def)
    moreover have "turn_inv cfg s0 maxevt (?v, lm1)"
      using i1 bad early cr(3) bits by (auto simp: turn_inv_def same_sched_def ended_early_def split: option.splits)
    ultimately show thesis using that nevt by blast
  next
    case True
    then have i1: "loop_inv cfg s0 [ctx] lm1" and ctx: "ctx_evt ctx = lm_nevt lm" "\<not> usesSubSlot ctx" using cr(4) by simp_all
    have f1: "sd_freeSlots (lm_sched lm1) > 0" using free(1) cr(3) by (simp add: same_sched_def)
    have "unat (lm_nevt lm) < length bs" if "lm_blackListBS lm = Some bs" for bs
    proof -
      have "int (unat (lm_nevt lm)) < maxevt" using bits [OF that] more(1) by (auto simp: more_to_create_def)
      then show ?thesis using bits [OF that] by linarith
    qed
    then have w: "within_bits lm1 (ctx_evt ctx)"
      using cr(3) ctx(1) by (simp add: within_bits_def same_sched_def split: option.splits)
    obtain sc lm2 where ex: "executeEvent cfg ctx lm1 = Done (sc, lm2)" "loop_inv cfg s0 [] lm2" "lm_complaints lm2 = lm_complaints lm1"
      "lm_nevt lm2 = lm_nevt lm1" "lm_blackListBS lm2 = lm_blackListBS lm1" "sc = SUCCESS \<or> sc = RECOVERABLE"
      "sc \<noteq> SUCCESS \<longrightarrow> sd_freeSlots (lm_sched lm2) > 0 \<and> wb_freeSlots (lm_whiteboard lm2) \<noteq> []"
      by (rule execute_ok [OF st i1 ctx(2) f1 w])
    let ?v1 = "v\<lparr>lv_skipped := (if sc = RECOVERABLE then lv_skipped v + 1 else lv_skipped v), lv_created := lv_created v + 1\<rparr>"
    let ?v = "?v1\<lparr>lv_creating := sc \<noteq> SUCCESS \<and> more_to_create maxevt ?v1\<rparr>"
    have "create_event cfg maxevt v lm = Done (?v, lm2)"
      unfolding create_event_def cr(1) obind.simps prod.case ex(1) Let_def using True by simp
    moreover have "turn_inv cfg s0 maxevt (?v, lm2)"
      using ex(2,3,5,7) bad early cr(3) bits more nevt ex(4)
      by (auto simp: turn_inv_def same_sched_def more_to_create_def ended_early_def split: option.splits)
    ultimately show thesis using that nevt ex(4) by metis
  qed
qed

lemma drain_turn_ok:
  assumes st: "sound_start cfg \<rho> s0" and inv: "turn_inv cfg s0 maxevt (v, lm)" and c: "\<not> lv_creating v"
  shows "drain_turn cfg v lm = Exhausted \<or>
    (\<exists>v' lm'. drain_turn cfg v lm = Done (v', lm') \<and> turn_inv cfg s0 maxevt (v', lm') \<and> lm_nevt lm' = lm_nevt lm)"
proof -
  have li: "loop_inv cfg s0 [] lm" using inv by (simp add: turn_inv_def)
  from drain_ok [OF st li, of "lv_finished v"] show ?thesis
  proof (elim disjE exE conjE)
    fix b m lm'
    assume d: "drainScheduler cfg (lv_finished v) lm = Done ((b, m), lm')" "loop_inv cfg s0 [] lm'" "same_books lm lm'"
    let ?v = "v\<lparr>lv_ended := lv_ended v \<or> b, lv_finished := m, lv_newEvtAllowed := True\<rparr>"
    have "drain_turn cfg v lm = Done (?v, lm')" using d(1) by (simp add: drain_turn_def)
    moreover have "turn_inv cfg s0 maxevt (?v, lm')"
      using inv d(2,3) c drain_reason [OF d(1)] ended_early_mono
      by (auto simp: turn_inv_def same_books_def split: option.splits)
    ultimately show ?thesis using d(3) by (auto simp: same_books_def)
  qed (simp add: drain_turn_def)
qed

lemma turns_ok:
  assumes st: "sound_start cfg \<rho> s0"
  shows "turn_inv cfg s0 maxevt r \<Longrightarrow> events_so_far r + k < 2 ^ 31 \<Longrightarrow> loop_turns k cfg maxevt r = Some x \<Longrightarrow>
    x = Exhausted \<or> (\<exists>r'. x = Done r' \<and> turn_inv cfg s0 maxevt r' \<and> \<not> goes_on maxevt (fst r'))"
proof (induction k arbitrary: r)
  case 0
  then show ?case by (cases "goes_on maxevt (fst r)"; cases r) auto
next
  case (Suc k)
  obtain v lm where r: "r = (v, lm)" by (cases r)
  show ?case
  proof (cases "goes_on maxevt v")
    case False
    then show ?thesis using Suc.prems r by auto
  next
    case True
    have turn: "loop_turn cfg maxevt r = Exhausted \<or>
      (\<exists>r'. loop_turn cfg maxevt r = Done r' \<and> turn_inv cfg s0 maxevt r' \<and> events_so_far r' \<le> Suc (events_so_far r))"
    proof (cases "lv_creating v \<or> may_create maxevt v lm")
      case True
      have n: "unat (lm_nevt lm) < 2 ^ 31" using Suc.prems(2) r by simp
      obtain v' lm' where c: "create_event cfg maxevt v lm = Done (v', lm')" "turn_inv cfg s0 maxevt (v', lm')"
        "unat (lm_nevt lm') = Suc (unat (lm_nevt lm))"
        by (rule create_turn_ok [OF st Suc.prems(1) [unfolded r] True n])
      then show ?thesis using True r by (auto simp: loop_turn_def)
    next
      case False
      then show ?thesis using drain_turn_ok [OF st Suc.prems(1) [unfolded r]] r by (fastforce simp: loop_turn_def)
    qed
    then show ?thesis
    proof (elim disjE exE conjE)
      fix r'
      assume t: "loop_turn cfg maxevt r = Done r'" "turn_inv cfg s0 maxevt r'" "events_so_far r' \<le> Suc (events_so_far r)"
      have "loop_turns k cfg maxevt r' = Some x" using Suc.prems(3) True t(1) r by simp
      moreover have "events_so_far r' + k < 2 ^ 31" using t(3) Suc.prems(2) by simp
      ultimately show ?thesis using Suc.IH [OF t(2)] by blast
    qed (use Suc.prems(3) True r in simp)
  qed
qed

section \<open>Runs\<close>

text \<open>The manager after the initialisation of all services.\<close>

definition loop_ready :: "'sel loop_config \<Rightarrow> sched \<Rightarrow> 'sel loop_mgr \<Rightarrow> bool" where
  "loop_ready cfg s0 lm \<longleftrightarrow>
     lm_sched lm = s0 \<and> lm_nevt lm = 0 \<and> lm_complaints lm = [] \<and> lm_blackListBS lm = None \<and>
     (\<exists>svc_ok loader_ok root leaves fault inhibit.
        wb_initialize svc_ok loader_ok (new_white_board (cg_maxEvents (lc_sched cfg)) root leaves fault inhibit) = (True, lm_whiteboard lm))"

lemma started_empty: "started cfg s0 \<Longrightarrow> events_of s0 = {}"
  by (auto simp: started_def sched_start_def events_of_def live_events_def ready_slot_def new_slot_def Let_def)

lemma ready_inv:
  assumes st: "sound_start cfg \<rho> s0" and r: "loop_ready cfg s0 lm"
  shows "loop_inv cfg s0 [] lm"
proof -
  obtain svc_ok loader_ok root leaves fault inhibit where
    "wb_initialize svc_ok loader_ok (new_white_board (cg_maxEvents (lc_sched cfg)) root leaves fault inhibit) = (True, lm_whiteboard lm)"
    using r by (auto simp: loop_ready_def)
  from wb_initialize_inv [OF this] have "wb_inv (lm_whiteboard lm)"
    "length (wb_partitions (lm_whiteboard lm)) = cg_maxEvents (lc_sched cfg)" by simp_all
  moreover have "lm_sched lm = s0" "events_of s0 = {}" using r st started_empty by (auto simp: loop_ready_def sound_start_def)
  ultimately show ?thesis by (simp add: loop_inv_def sched_reach.start)
qed

lemma fill_blackList_ok:
  "\<forall>e \<in> set es. uint e \<noteq> maxevt \<Longrightarrow> length bs = nat maxevt \<Longrightarrow>
   \<exists>bs'. fill_blackList es maxevt bs = Done bs' \<and> length bs' = nat maxevt"
proof (induction es arbitrary: bs)
  case (Cons e es)
  have "unat e < length bs" if "uint e \<le> maxevt"
  proof -
    have "uint e < maxevt" using that Cons.prems(1) by auto
    then have "int (unat e) < maxevt" by (simp only: uint_nat)
    then show ?thesis using Cons.prems(2) by linarith
  qed
  then show ?case using Cons.IH [of "bs[unat e := True]"] Cons.IH [of bs] Cons.prems by auto
qed simp

lemma events_own_slots:
  assumes st: "sound_start cfg \<rho> s0" and inv: "loop_inv cfg s0 pend lm"
  shows "inj_on slot_index (events_of (lm_sched lm))"
proof (rule inj_onI)
  let ?s = "lm_sched lm"
  fix c d
  assume c: "c \<in> events_of ?s" and d: "d \<in> events_of ?s" and eq: "slot_index c = slot_index d"
  obtain insts where "sched_inv (lc_sched cfg) insts ?s" by (rule sound_inv [OF st inv])
  note si = sched_invD(1) [OF this] and ev = sched_invD(6) [OF this]
  let ?q = "new_events (sd_actions ?s) @ sd_finished ?s"
  have live: "slot_index x < length (sd_slots ?s) \<and> ctx_at (sd_slots ?s) (slot_index x) = Some x" if "x \<in> live_events (sd_slots ?s)" for x
  proof -
    obtain i where i: "i < length (sd_slots ?s)" "ctx_at (sd_slots ?s) i = Some x"
      using \<open>x \<in> live_events (sd_slots ?s)\<close> by (auto simp: live_events_def in_set_conv_nth)
    then show ?thesis using slot_of_context(1) [OF si i] by simp
  qed
  have quiet: "ctx_at (sd_slots ?s) (slot_index x) = None" if "x \<in> set ?q" for x
    using ev that unfolding events_inv_def by blast
  have "distinct (map slot_index ?q)" using ev unfolding events_inv_def by blast
  then have "inj_on slot_index (set ?q)" by (rule distinct_map [THEN iffD1, THEN conjunct2])
  moreover have "c \<in> set ?q \<or> c \<in> live_events (sd_slots ?s)" "d \<in> set ?q \<or> d \<in> live_events (sd_slots ?s)"
    using c d by (auto simp: events_of_def)
  ultimately show "c = d" using live quiet eq by (metis inj_onD option.distinct(1) option.inject)
qed

lemma event_run_ok:
  assumes st: "sound_start cfg \<rho> s0" and ready: "loop_ready cfg s0 lm" and black: "\<forall>e \<in> set (lc_blackList cfg). uint e \<noteq> maxevt"
    and k: "k < 2 ^ 31" and run: "executeRun k cfg maxevt lm = Some x"
  shows "x = Exhausted \<or> (\<exists>v lm' lm''. x = Done (SUCCESS, v, lm') \<and> lm' = lm''\<lparr>lm_blackListBS := None\<rparr> \<and>
    turn_inv cfg s0 maxevt (v, lm'') \<and> \<not> goes_on maxevt v)"
proof -
  let ?start = "if maxevt > 0 then obind (fill_blackList (lc_blackList cfg) maxevt (replicate (nat maxevt) False)) (\<lambda>bs. Done (Some bs))
    else Done (lm_blackListBS lm)"
  have none: "lm_blackListBS lm = None" "lm_nevt lm = 0" "lm_complaints lm = []" using ready by (simp_all add: loop_ready_def)
  obtain bs where bs: "?start = Done bs" "bs = None \<or> (\<exists>b. bs = Some b \<and> 0 < maxevt \<and> length b = nat maxevt)"
  proof (cases "maxevt > 0")
    case True
    obtain b where "fill_blackList (lc_blackList cfg) maxevt (replicate (nat maxevt) False) = Done b" "length b = nat maxevt"
      using fill_blackList_ok [OF black, of "replicate (nat maxevt) False"] by auto
    then show thesis using that [of "Some b"] True by simp
  qed (use that [of None] none in simp)
  let ?lm = "lm\<lparr>lm_blackListBS := bs\<rparr>"
  have inv: "turn_inv cfg s0 maxevt (loop_start, ?lm)"
    using ready_inv [OF st ready] bs(2) none loop_inv_cong [of ?lm lm cfg s0 "[]"]
    by (auto simp: turn_inv_def loop_start_def)
  obtain y where y: "nextEvent k cfg maxevt ?lm = Some y" "x = obind y (\<lambda>(v, lm). Done (SUCCESS, v, lm\<lparr>lm_blackListBS := None\<rparr>))"
    using run unfolding executeRun_def bs(1) by auto
  have "y = Exhausted \<or> (\<exists>r'. y = Done r' \<and> turn_inv cfg s0 maxevt r' \<and> \<not> goes_on maxevt (fst r'))"
    by (rule turns_ok [OF st inv]) (use y(1) k none(2) in \<open>simp_all add: nextEvent_def\<close>)
  then show ?thesis using y(2) by auto
qed

section \<open>The loop ends\<close>

lemma flush_counts:
  assumes "flush_event cfg x ((failed, n), lm) = Done ((b, m), lm')"
  shows "(failed \<longrightarrow> b) \<and> n \<le> m \<and> (b \<or> n < m)"
proof (cases x)
  case (Some c)
  with assms obtain lm1 where m: "meanwhile cfg lm = Done lm1"
    and f: "(case eventStatus c (sd_exec (lm_sched lm1)) of Inl e \<Rightarrow> Undefined | Inr status \<Rightarrow>
      (let bad = status \<noteq> ES_Success; lm = (if bad then complain (Event_failed c) lm1 else lm1);
           lm = fireIncident EndEvent c (fireIncident EndProcessing c lm)
       in obind (clearWBSlot (slot_index c) lm) (\<lambda>(ok, lm). Done ((failed \<or> bad \<and> lc_abortOnFailure cfg, Suc n),
            if ok then lm else complain (Slot_not_cleared c) lm)))) = Done ((b, m), lm')"
    unfolding flush_event_def prod.case by (auto elim!: obind_elim)
  then show ?thesis by (auto simp: Let_def split: sum.splits if_splits)
qed (use assms in \<open>simp add: flush_event_def\<close>)

lemma flush_all_counts:
  "each (flush_event cfg) xs ((failed, n), lm) = Done ((b, m), lm') \<Longrightarrow> xs \<noteq> [] \<Longrightarrow> (failed \<longrightarrow> b) \<and> n \<le> m \<and> (b \<or> n < m)"
proof (induction xs arbitrary: failed n lm)
  case (Cons x xs)
  obtain b1 m1 lm1 where f: "flush_event cfg x ((failed, n), lm) = Done ((b1, m1), lm1)"
    and r: "each (flush_event cfg) xs ((b1, m1), lm1) = Done ((b, m), lm')"
    using Cons.prems(1) unfolding each.simps by (elim obind_elim) (metis prod.exhaust)
  note c = flush_counts [OF f]
  show ?case
  proof (cases "xs = []")
    case True
    then show ?thesis using r c by simp
  next
    case False
    then show ?thesis using Cons.IH [OF r] c by auto
  qed
qed simp

lemma drain_counts:
  assumes "drainScheduler cfg n lm = Done ((b, m), lm')"
  shows "n \<le> m \<and> (b \<or> n < m)"
proof -
  obtain c lm0 where 0: "obind (pop_others (cg_maxEvents (lc_sched cfg) + 2) cfg lm0) (\<lambda>(cs, lm).
      each (flush_event cfg) (c # cs) ((False, n), lm)) = Done ((b, m), lm')"
    by (rule obind_elim [OF assms [unfolded drainScheduler_def]]) (simp only: split_paired_all prod.case)
  obtain cs lm1 where "each (flush_event cfg) (c # cs) ((False, n), lm1) = Done ((b, m), lm')"
    by (rule obind_elim [OF 0]) (simp only: split_paired_all prod.case)
  from flush_all_counts [OF this] show ?thesis by simp
qed

text \<open>The turns that can be left: one for each event to create, one for the end of the input, one for each to finish.\<close>

definition turns_left :: "int \<Rightarrow> loop_vars \<Rightarrow> nat" where
  "turns_left maxevt v =
     (if lv_created v < 0 then 0 else nat (maxevt - lv_created v) + 1) +
     (if lv_ended v then 0 else nat (maxevt - int (lv_finished v) - int (lv_skipped v)))"

lemma create_decreases:
  assumes c: "create_event cfg maxevt v lm = Done (v', lm')" and m: "lv_created v < maxevt" "0 \<le> lv_created v" "0 \<le> maxevt"
  shows "turns_left maxevt v' < turns_left maxevt v \<and> (lv_creating v' \<longrightarrow> 0 \<le> lv_created v' \<and> lv_created v' < maxevt)"
proof -
  obtain ctx lm1 where 1: "createEventContext cfg lm = Done (ctx, lm1)"
    using c unfolding create_event_def by (elim obind_elim) (metis prod.exhaust)
  show ?thesis
  proof (cases "ctx_valid ctx")
    case False
    then have "v' = v\<lparr>lv_created := - 1, lv_creating := False\<rparr>" using c 1 by (simp add: create_event_def)
    then show ?thesis using m by (simp add: turns_left_def)
  next
    case True
    then have "obind (executeEvent cfg ctx lm1) (\<lambda>(sc, lm).
        let v = v\<lparr>lv_skipped := (if sc = RECOVERABLE then lv_skipped v + 1 else lv_skipped v), lv_created := lv_created v + 1\<rparr>
        in Done (v\<lparr>lv_creating := sc \<noteq> SUCCESS \<and> more_to_create maxevt v\<rparr>, lm)) = Done (v', lm')"
      using c 1 by (simp add: create_event_def)
    then obtain sc lm2 where "executeEvent cfg ctx lm1 = Done (sc, lm2)"
      and v': "v' = (let v = v\<lparr>lv_skipped := (if sc = RECOVERABLE then lv_skipped v + 1 else lv_skipped v), lv_created := lv_created v + 1\<rparr>
        in v\<lparr>lv_creating := sc \<noteq> SUCCESS \<and> more_to_create maxevt v\<rparr>)"
      by (elim obind_elim) (auto simp: Let_def)
    then have "lv_created v' = lv_created v + 1" "lv_skipped v \<le> lv_skipped v'" "lv_finished v' = lv_finished v" "lv_ended v' = lv_ended v"
      "lv_creating v' \<longrightarrow> lv_created v' < maxevt"
      using m by (auto simp: Let_def more_to_create_def)
    then show ?thesis using m by (auto simp: turns_left_def)
  qed
qed

lemma drain_decreases:
  assumes d: "drain_turn cfg v lm = Done (v', lm')" and g: "goes_on maxevt v" "\<not> lv_creating v" "0 \<le> maxevt"
  shows "turns_left maxevt v' < turns_left maxevt v \<and> \<not> lv_creating v'"
proof -
  obtain b m where "drainScheduler cfg (lv_finished v) lm = Done ((b, m), lm')"
    and v': "v' = v\<lparr>lv_ended := lv_ended v \<or> b, lv_finished := m, lv_newEvtAllowed := True\<rparr>"
    using d unfolding drain_turn_def by (elim obind_elim) auto
  from drain_counts [OF this(1)] show ?thesis using g by (auto simp: v' turns_left_def goes_on_def)
qed

lemma turns_suffice:
  "turns_left maxevt (fst r) \<le> k \<Longrightarrow> 0 \<le> maxevt \<Longrightarrow>
   (lv_creating (fst r) \<longrightarrow> 0 \<le> lv_created (fst r) \<and> lv_created (fst r) < maxevt) \<Longrightarrow> loop_turns k cfg maxevt r \<noteq> None"
proof (induction k arbitrary: r)
  case 0
  then show ?case by (auto simp: turns_left_def goes_on_def split: if_splits)
next
  case (Suc k)
  obtain v lm where r: "r = (v, lm)" by (cases r)
  show ?case
  proof (cases "goes_on maxevt v")
    case True
    have "turns_left maxevt v' < turns_left maxevt v \<and> (lv_creating v' \<longrightarrow> 0 \<le> lv_created v' \<and> lv_created v' < maxevt)"
      if t: "loop_turn cfg maxevt r = Done (v', lm')" for v' lm'
    proof (cases "lv_creating v \<or> may_create maxevt v lm")
      case True
      then have "lv_created v < maxevt" "0 \<le> lv_created v"
        using Suc.prems(2,3) r by (auto simp: may_create_def more_to_create_def)
      then show ?thesis using create_decreases [of cfg maxevt v lm v' lm'] t True r Suc.prems(2) by (simp add: loop_turn_def)
    next
      case False
      then have "drain_turn cfg v lm = Done (v', lm')" using t r by (simp add: loop_turn_def)
      from drain_decreases [OF this \<open>goes_on maxevt v\<close>] False Suc.prems(2) show ?thesis by simp
    qed
    then have "loop_turns k cfg maxevt r' \<noteq> None" if "loop_turn cfg maxevt r = Done r'" for r'
      using Suc.IH [of r'] Suc.prems(1,2) that r by (cases r') fastforce
    then show ?thesis using True r by (cases "loop_turn cfg maxevt r") auto
  qed (use r in simp)
qed

lemma and_turns_some: "(\<And>x. f x \<noteq> None) \<Longrightarrow> and_turns m f \<noteq> None"
  by (cases m) auto

section \<open>Properties\<close>


text \<open>
  C4. The loop of a run over \<open>n\<close> events makes at most \<open>2 n + 1\<close> turns, whatever the selector, the
  scheduler and the other threads do: every turn creates or skips an event, finds the input at
  its end, takes at least one finished event or ends the run. Only the wait for a finished event
  inside a turn may last.
\<close>

theorem event_loop_turns:
  assumes "0 \<le> maxevt" and "2 * nat maxevt + 1 \<le> k"
  shows "executeRun k cfg maxevt lm \<noteq> None"
proof -
  have "loop_turns k cfg maxevt (loop_start, lm') \<noteq> None" for lm'
    by (rule turns_suffice) (use assms in \<open>simp_all add: turns_left_def loop_start_def\<close>)
  then have "nextEvent k cfg maxevt lm' \<noteq> None" for lm' by (simp add: nextEvent_def)
  then show ?thesis unfolding executeRun_def by (intro and_turns_some) simp
qed

end
