(* ===== verification/Scheduler_Demo.thy ===== *)
theory Scheduler_Demo
  imports Scheduler_Runs
begin

text \<open>
  Runs of the scheduler on two algorithms, the second reading what the first writes: the
  witnesses of its properties, and the runs in which the code does not do what it means to.
\<close>

section \<open>Two algorithms in two slots\<close>

definition first_char :: hash_fun where
  "first_char s = (case s of [] \<Rightarrow> 0 | c # cs \<Rightarrow> of_char c)"

definition duo_config :: sched_config where
  "duo_config =
     \<lparr>cg_graph = build run_ops new_graph, cg_cond = e_cond (run_env root_cause), cg_traced = True, cg_scoutFuel = 2,
      cg_height = 1, cg_algname_vect = [''a'', ''b''], cg_threadPoolSize = - 1, cg_maxBlocking = 0, cg_preemptive = False,
      cg_optimized = False, cg_maxEvents = 2, cg_hash = first_char,
      cg_execs = \<lparr>xc_concurrent = True, xc_numConcurrentEvents = 2, xc_algorithms = Some [''a'', ''b'']\<rparr>,
      cg_exceptions = new_exception_svc, cg_algs = (\<lambda>_. \<lparr>ac_isEnabled = True, ac_errorMax = 1\<rparr>),
      cg_inlineBody = (\<lambda>_. \<lparr>ab_outcome = Returns (Gaudi_code SUCCESS), ab_setFilterPassed = None\<rparr>)\<rparr>"

definition duo_pool :: pool where
  "duo_pool = snd (decodeTopAlgs first_char demo_pool_config False
     (\<lambda>_. \<lparr>pa_reEntrant = False, pa_clonable = False, pa_cardinality = 1, pa_resources = []\<rparr>)
     [demo_leaf ''a'', demo_leaf ''b''])"

definition duo_exec :: exec_svc where
  "duo_exec = fold addAlg [''a'', ''b''] (new_exec_svc\<lparr>xs_algStates := replicate 2 (\<lambda>_. None),
     xs_eventStatus := replicate 2 ES_Invalid, xs_isInit := True\<rparr>)"

definition duo_start :: sched where
  "duo_start = sched_start duo_config duo_pool duo_exec"

definition event_in :: "u64 \<Rightarrow> u64 \<Rightarrow> event_context" where
  "event_in e s = ctx_new e s INVALID_CONTEXT_ID"

definition did_ok :: alg_body where
  "did_ok = \<lparr>ab_outcome = Returns (Gaudi_code SUCCESS), ab_setFilterPassed = None\<rparr>"

definition did_fail :: alg_body where
  "did_fail = \<lparr>ab_outcome = Returns (Gaudi_code FAILURE), ab_setFilterPassed = None\<rparr>"

definition run_client :: "sched_config \<Rightarrow> sched_op list \<Rightarrow> sched \<Rightarrow> sched option" where
  "run_client cfg ops s = loop_all (\<lambda>op s. if client_ok cfg s op then sched_step cfg op s else None) ops s"

lemma run_client_reach: "run_client cfg ops s = Some s' \<Longrightarrow> sched_reach cfg s0 s \<Longrightarrow> sched_reach cfg s0 s'"
  by (induction ops arbitrary: s)
    (auto simp: run_client_def bind_eq_Some_conv split: if_splits intro: sched_reach.step)

definition one_event :: "sched_op list" where
  "one_event = [Reset_event (event_in 7 0), Push_event (event_in 7 0), Turn, Start_task 0 0, End_task 0 did_ok, Turn, Start_task 0 0, End_task 0 did_ok, Turn]"

lemma duo_good: "good_config duo_config (case_cf_ref (\<lambda>n. 0) (\<lambda>n. 1))"
proof -
  let ?g = "build run_ops new_graph"
  have "hub_node ?g ''h'' \<noteq> None" using run_graph by (simp add: map_of_eq_None_iff flip: set_map)
  moreover have "alg_node ?g n \<noteq> None" if "n \<in> {''a'', ''b''}" for n
    using run_graph that by (simp add: map_of_eq_None_iff flip: set_map)
  ultimately show ?thesis
    using run_runnable run_graph
    by (auto simp: good_config_def duo_config_def runnable_def run_env_def)
qed

lemma duo_started: "started duo_config duo_start"
proof -
  have "xs_init (cg_execs duo_config) new_exec_svc = Inr duo_exec"
    by (simp add: xs_init_def duo_config_def duo_exec_def vec_resize_def new_exec_svc_def Let_def eval_nat_numeral)
  moreover have "set (snd (flat_algs [demo_leaf ''a'', demo_leaf ''b''])) = {''a'', ''b''}"
    by (auto simp: flat_algs_def demo_leaf_def)
  moreover have "decodeTopAlgs (cg_hash duo_config) demo_pool_config False
     (\<lambda>_. \<lparr>pa_reEntrant = False, pa_clonable = False, pa_cardinality = 1, pa_resources = []\<rparr>)
     [demo_leaf ''a'', demo_leaf ''b''] = (fst (decodeTopAlgs (cg_hash duo_config) demo_pool_config False
     (\<lambda>_. \<lparr>pa_reEntrant = False, pa_clonable = False, pa_cardinality = 1, pa_resources = []\<rparr>)
     [demo_leaf ''a'', demo_leaf ''b'']), duo_pool)"
    by (simp add: duo_pool_def duo_config_def)
  ultimately show ?thesis
    unfolding started_def duo_start_def by (fastforce simp: duo_config_def)
qed

lemma scheduler_safe_witness:
  "\<exists>s. run_client duo_config [Reset_event (event_in 7 0), Push_event (event_in 7 0), Turn, Start_task 0 0] duo_start = Some s
    \<and> map ts_algName (sd_running s) = [''a''] \<and> sd_algosInFlight s = 1
    \<and> sched_step duo_config (End_task 0 did_fail) s \<noteq> None"
proof -
  have "(case run_client duo_config [Reset_event (event_in 7 0), Push_event (event_in 7 0), Turn, Start_task 0 0] duo_start of None \<Rightarrow> False
     | Some s \<Rightarrow> map ts_algName (sd_running s) = [''a''] \<and> sd_scheduled s = [] \<and> sd_actions s = [])"
    by code_simp
  then obtain s where s: "run_client duo_config [Reset_event (event_in 7 0), Push_event (event_in 7 0), Turn, Start_task 0 0] duo_start = Some s"
    "map ts_algName (sd_running s) = [''a'']" "sd_scheduled s = []" "sd_actions s = []"
    by (auto split: option.splits)
  have len: "length (flight_tasks s) = 1"
    using s(3,4) arg_cong [OF s(2), of length] by simp
  note safe = scheduler_safe [OF duo_good duo_started run_client_reach [OF s(1) sched_reach.start]]
  have "client_ok duo_config s (End_task 0 did_fail)" by (simp only: client_ok.simps)
  then have no_fault: "sched_step duo_config (End_task 0 did_fail) s \<noteq> None"
    by (rule conjunct1 [OF safe, THEN spec, THEN mp])
  have "sd_algosInFlight s = of_nat (length (flight_tasks s))"
    by (rule safe [THEN conjunct2, THEN conjunct2, THEN conjunct2, THEN conjunct2])
  then have flight: "sd_algosInFlight s = 1" unfolding len by (simp only: of_nat_1)
  show ?thesis by (intro exI conjI) (fact s(1) s(2) flight no_fault)+
qed

lemma scheduler_never_stuck_witness:
  "\<exists>s. run_client duo_config one_event duo_start = Some s \<and> sd_finished s = [event_in 7 0]
    \<and> map (eventContext \<circ> topSlot) (sd_slots s) = [None, None] \<and> sd_retry s = []"
proof -
  have "(case run_client duo_config one_event duo_start of None \<Rightarrow> False
     | Some s \<Rightarrow> sd_finished s = [event_in 7 0] \<and> sd_actions s = [] \<and> sd_waiting s = [] \<and> sd_running s = [] \<and> length (sd_slots s) = 2)"
    by code_simp
  then obtain s where s: "run_client duo_config one_event duo_start = Some s" "sd_finished s = [event_in 7 0]"
    "sd_actions s = []" "sd_waiting s = []" "sd_running s = []" "length (sd_slots s) = 2"
    by (auto split: option.splits)
  have n: "cg_maxEvents duo_config = 2" by (simp add: duo_config_def)
  have "sd_retry s = [] \<and> (\<forall>i < 2. ctx_at (sd_slots s) i = None)"
    using scheduler_never_stuck [OF duo_good duo_started run_client_reach [OF s(1) sched_reach.start] s(3-5)] n by simp
  moreover have "map (eventContext \<circ> topSlot) (sd_slots s) = [ctx_at (sd_slots s) 0, ctx_at (sd_slots s) 1]"
    using s(6) by (auto simp: numeral_2_eq_2 length_Suc_conv)
  ultimately show ?thesis using s(1,2) by simp
qed

section \<open>Runs that end differently\<close>

text \<open>
  With the thread pool of size -100 algorithms run in the scheduler's thread, but their
  specification is never put into the queue they are taken from: the algorithm stays scheduled
  and no thread has anything left to do.
\<close>

definition inline_config :: sched_config where
  "inline_config = duo_config\<lparr>cg_threadPoolSize := - 100\<rparr>"

lemma inline_tasks_never_run:
  "map_option (\<lambda>s. (map (algsInState (algsStates (topSlot (sd_slots s ! 0)))) [SCHEDULED, EVTACCEPTED],
       sd_actions s, sd_scheduled s, sd_waiting s, sd_running s, sd_finished s))
     (run_client inline_config [Reset_event (event_in 7 0), Push_event (event_in 7 0), Turn] duo_start) =
   Some ([[0], []], [], [], [], [], [])"
  by code_simp

text \<open>
  One algorithm of its own whose decision its hub passes: when it fails, the control flow of the
  event is resolved all the same, and the event goes neither to the finished events nor to the
  error handling. The slot takes the next event, but no call of the event loop ever returns this
  one, and the slots counted as free are one too few.
\<close>

definition solo_graph :: rules_graph where
  "solo_graph = build [Head ''h'' example_modes,
     Add_alg ((example_alg ''a'')\<lparr>ga_isBlocking := True\<rparr>) ''h'' False True, Initialize None] new_graph"

definition solo_config :: sched_config where
  "solo_config = duo_config\<lparr>cg_graph := solo_graph, cg_algname_vect := [''a'']\<rparr>"

lemma failed_event_lost:
  "map_option (\<lambda>s. (ctx_at (sd_slots s) 0, sd_finished s, sd_actions s, sd_freeSlots s,
        eventStatus (event_in 7 0) (sd_exec s), Option.is_none (popFinishedEvent solo_config s)))
     (run_client solo_config [Reset_event (event_in 7 0), Push_event (event_in 7 0), Turn, Start_task 0 0, End_task 0 did_fail, Turn] duo_start)
   = Some (None, [], [], 1, Inr ES_AlgFail, True)"
  by code_simp

text \<open>
  A disabled algorithm returns success from \<open>sysExecute\<close> and leaves its execution state as the
  reset made it, with the status FAILURE: the sign-off takes it for an error, and the algorithm
  that waits for it stalls its event.
\<close>

definition disabled_config :: sched_config where
  "disabled_config = duo_config\<lparr>cg_algs := (\<lambda>n. \<lparr>ac_isEnabled = n \<noteq> ''a'', ac_errorMax = 1\<rparr>)\<rparr>"

lemma disabled_algorithm_stalls:
  "map_option (\<lambda>s. (map (algsInState (algsStates (topSlot (sd_slots s ! 0)))) [ERROR, CONTROLREADY], sd_finished s,
        eventStatus (event_in 7 0) (sd_exec s)))
     (run_client disabled_config [Reset_event (event_in 7 0), Push_event (event_in 7 0), Turn, Start_task 0 0, End_task 0 did_ok, Turn] duo_start)
   = Some ([[0], []], [event_in 7 0], Inr ES_AlgStall)"
  by code_simp

text \<open>
  With a limit of one blocking algorithm at a time, an algorithm over the limit stays data-ready
  and its copy in the retry queue is not the last: each update makes another one, and the
  algorithm runs twice on its event.
\<close>

definition blocking_config :: sched_config where
  "blocking_config = solo_config\<lparr>cg_preemptive := True, cg_maxBlocking := 1, cg_maxEvents := 3,
     cg_execs := \<lparr>xc_concurrent = True, xc_numConcurrentEvents = 3, xc_algorithms = Some [''a'']\<rparr>\<rparr>"

definition blocking_start :: sched where
  "blocking_start = sched_start blocking_config
     (snd (decodeTopAlgs first_char demo_pool_config False
       (\<lambda>_. \<lparr>pa_reEntrant = True, pa_clonable = False, pa_cardinality = 0, pa_resources = []\<rparr>) [demo_leaf ''a'']))
     (fold addAlg [''a''] (new_exec_svc\<lparr>xs_algStates := replicate 3 (\<lambda>_. None),
       xs_eventStatus := replicate 3 ES_Invalid, xs_isInit := True\<rparr>))"

lemma blocking_retries_pile_up:
  "map_option (\<lambda>s. map ts_slotIndex (sd_retry s))
     (run_client blocking_config [Reset_event (event_in 7 0), Push_event (event_in 7 0), Turn, Reset_event (event_in 8 1), Push_event (event_in 8 1), Turn,
        Reset_event (event_in 9 2), Push_event (event_in 9 2), Turn] blocking_start) = Some [1, 1, 2]"
  by code_simp

definition blocking_run :: "sched_op list" where
  "blocking_run = [Reset_event (event_in 7 0), Push_event (event_in 7 0), Turn, Reset_event (event_in 8 1), Push_event (event_in 8 1), Turn, Reset_event (event_in 9 2), Push_event (event_in 9 2), Turn,
     Start_task 0 0, End_task 0 did_ok, Turn, Start_task 0 0, End_task 0 did_ok, Turn]"

lemma blocking_algorithm_runs_twice:
  "map_option (\<lambda>s. (map ts_slotIndex (sd_scheduledBlocking s), map (\<lambda>i. ctx_at (sd_slots s) i) [0, 1, 2], sd_finished s))
     (run_client blocking_config blocking_run blocking_start)
   = Some ([1], [None, None, Some (event_in 9 2)], [event_in 7 0, event_in 8 1])"
  by code_simp

end
