(* ===== verification/Event_Loop_Demo.thy ===== *)
theory Event_Loop_Demo
  imports Event_Loop_Facts Scheduler_Demo
begin

text \<open>
  Runs of the event loop over the two algorithms of the demonstration of the scheduler: the
  witnesses of its properties and the runs in which the code does not do what it means to.
\<close>

section \<open>A small application\<close>

text \<open>The selector has as many events as its context says; the others run all tasks before the fourth call.\<close>

definition count_down :: "nat selector" where
  "count_down = \<lparr>se_next = (\<lambda>n. (0 < n, n - 1)), se_createAddress = (\<lambda>n. ((True, Some n), n))\<rparr>"

definition no_services :: services where
  "no_services = \<lparr>sv_createObj = (\<lambda>a s. (Raised, s)), sv_fillObjRefs = (\<lambda>a x s. (Raised, s)), sv_updateObj = (\<lambda>a x s. (Raised, s)),
     sv_updateObjRefs = (\<lambda>a x s. (Raised, s)), sv_fireIncident = (\<lambda>t p s. s)\<rparr>"

definition busy_others :: "alg_body \<Rightarrow> nat \<Rightarrow> sched_op list" where
  "busy_others body n =
     (if n = 3 then [Turn, Start_task 0 0, End_task 0 body, Turn, Start_task 0 0, End_task 0 body, Turn] else [])"

definition demo_loop :: "alg_body \<Rightarrow> u32 list \<Rightarrow> nat loop_config" where
  "demo_loop body black =
     \<lparr>lc_selector = count_down, lc_blackList = black, lc_abortOnFailure = True, lc_services = no_services,
      lc_sched = duo_config, lc_patience = 2, lc_others = busy_others body\<rparr>"

definition demo_manager :: "nat \<Rightarrow> nat loop_mgr" where
  "demo_manager events =
     \<lparr>lm_evtContext = Some events, lm_nevt = 0, lm_blackListBS = None, lm_endEventFired = False, lm_scheduledStop = False,
      lm_incidents = [], lm_complaints = [],
      lm_whiteboard = snd (wb_initialize (\<lambda>_. True) True (new_white_board 2 ''/Event'' False False [])),
      lm_current = Some 0, lm_sched = duo_start, lm_calls = 0\<rparr>"

lemma demo_sound: "sound_start (demo_loop body black) (case_cf_ref (\<lambda>n. 0) (\<lambda>n. 1)) duo_start"
  using duo_good duo_started by (simp add: sound_start_def demo_loop_def) (simp add: duo_config_def)

lemma demo_ready: "loop_ready (demo_loop body black) duo_start (demo_manager n)"
proof -
  have "fst (wb_initialize (\<lambda>_. True) True (new_white_board 2 ''/Event'' False False []))"
    by code_simp
  then have "wb_initialize (\<lambda>_. True) True (new_white_board (cg_maxEvents (lc_sched (demo_loop body black))) ''/Event'' False False []) =
      (True, lm_whiteboard (demo_manager n))"
    by (simp add: demo_loop_def duo_config_def demo_manager_def prod_eq_iff)
  moreover have "lm_sched (demo_manager n) = duo_start \<and> lm_nevt (demo_manager n) = 0 \<and> lm_complaints (demo_manager n) = [] \<and>
      lm_blackListBS (demo_manager n) = None" by (simp add: demo_manager_def)
  ultimately show ?thesis unfolding loop_ready_def by blast
qed

text \<open>Event 0 is on the black list, event 1 is executed.\<close>

definition done_with :: "nat \<Rightarrow> nat \<Rightarrow> (error_code \<times> loop_vars \<times> nat loop_mgr) outcome option \<Rightarrow> bool" where
  "done_with finished skipped x =
     (case x of Some (Done (sc, v, lm)) \<Rightarrow> sc = SUCCESS \<and> lv_finished v = finished \<and> lv_skipped v = skipped
      | _ \<Rightarrow> False)"

lemma one_skipped_one_done: "done_with 1 1 (executeRun 3 (demo_loop did_ok [0]) 2 (demo_manager 2))"
  by code_simp


lemma event_loop_turns_witness: "executeRun 3 (demo_loop did_ok []) 1 (demo_manager 9) \<noteq> None"
  using event_loop_turns [of 1 3 "demo_loop did_ok []" "demo_manager 9"] by simp

section \<open>Runs that end differently\<close>

text \<open>
  An event that fails ends the run, as \<open>AbortOnFailure\<close> asks, but the run reports success all the
  same.
\<close>

lemma aborted_run_succeeds:
  "(case executeRun 2 (demo_loop did_fail []) 4 (demo_manager 9) of
      Some (Done (sc, v, lm)) \<Rightarrow> sc = SUCCESS \<and> lv_ended v \<and> lm_complaints lm = [Event_failed (event_in 0 0)]
    | _ \<Rightarrow> False)"
  by code_simp

text \<open>
  At the end of the input the store for the next event has been allocated already and is not
  given back.
\<close>

lemma store_lost_at_end:
  "(case executeRun 2 (demo_loop did_ok []) 4 (demo_manager 0) of
      Some (Done (sc, v, lm)) \<Rightarrow> sc = SUCCESS \<and> wb_countFree (lm_whiteboard lm) = 1
    | _ \<Rightarrow> False)"
  by code_simp

text \<open>
  The number of the next event goes on from run to run, but the bit set of a run starts at 0: the
  first event of a second run of one event tests a bit its bit set does not have.
\<close>

lemma second_run_out_of_range:
  "(case executeRun 1 (demo_loop did_ok []) 1 ((demo_manager 9)\<lparr>lm_nevt := 1\<rparr>) of Some Undefined \<Rightarrow> True | _ \<Rightarrow> False)"
  by code_simp

text \<open>A number of the black list that equals the number of events sets a bit that is not there.\<close>

lemma blacklist_out_of_range:
  "(case executeRun 1 (demo_loop did_ok [1]) 1 (demo_manager 9) of Some Undefined \<Rightarrow> True | _ \<Rightarrow> False)"
  by code_simp

end
