(* ===== verification/Incident_Svc.thy ===== *)
theory Incident_Svc
  imports Event_Slots
begin

text \<open>
  \<open>IncidentSvc\<close> (GaudiCoreSvc/src/IncidentSvc/IncidentSvc.h, .cpp) and \<open>IncidentProcAlg\<close>: listeners
  by type of incident and priority, incidents that are handled at once and incidents that are
  queued for their event. A handler may call the service again while the loop over the listeners
  is in one of their lists, so the nodes of a list have an identity: \<open>Faulted\<close> is the use of a node
  or of an incident that is gone. Messages and timing are left out.
\<close>

section \<open>State\<close>

record incident =
  ic_type :: string
  ic_context :: event_context

type_synonym listener_id = nat

record listener =
  li_iListener :: listener_id
  li_priority :: int
  li_rethrow :: bool
  li_singleShot :: bool

text \<open>A list of listeners: its nodes, each with the value it holds.\<close>

type_synonym nodes = "(nat \<times> listener) list"

text \<open>\<open>m_currentIncidentType\<close> points into the incident, which may be gone.\<close>

datatype type_ptr = No_type | Type_of string | Dangling

record incident_svc =
  is_listenerMap :: "string \<Rightarrow> nodes option"
  is_currentType :: type_ptr
  is_firedIncidents :: "u64 \<Rightarrow> incident list option"
  is_slotEvent :: "u64 \<Rightarrow> u64 option"
  is_nextNode :: nat
  is_returnCode :: int
  is_handled :: "(listener_id \<times> incident) list"

definition new_incident_svc :: incident_svc where
  "new_incident_svc =
     \<lparr>is_listenerMap = (\<lambda>_. None), is_currentType = No_type, is_firedIncidents = (\<lambda>_. None), is_slotEvent = (\<lambda>_. None),
      is_nextNode = 0, is_returnCode = 0, is_handled = []\<rparr>"

section \<open>Listeners\<close>

definition listener_type :: "string \<Rightarrow> string" where
  "listener_type t = (if t \<noteq> [] then t else ''ALL'')"

definition nodes_of :: "string \<Rightarrow> incident_svc \<Rightarrow> nodes" where
  "nodes_of t s = (case is_listenerMap s t of None \<Rightarrow> [] | Some c \<Rightarrow> c)"

definition addListener :: "listener_id \<Rightarrow> string \<Rightarrow> int \<Rightarrow> bool \<Rightarrow> bool \<Rightarrow> incident_svc \<Rightarrow> incident_svc" where
  "addListener lis t prio rethrow singleShot s =
     (let ltype = listener_type t;
          llist = nodes_of ltype s;
          i = partition_point (\<lambda>j. li_priority (snd j) \<ge> prio) llist;
          l = \<lparr>li_iListener = lis, li_priority = prio, li_rethrow = rethrow, li_singleShot = singleShot\<rparr>
      in s\<lparr>is_listenerMap := (is_listenerMap s)(ltype \<mapsto> insert_at i (is_nextNode s, l) llist),
           is_nextNode := Suc (is_nextNode s)\<rparr>)"

text \<open>
  \<open>erase(remove_if(...), end)\<close> on a \<open>std::list\<close>: the values that stay move to the front, and the
  nodes at the end are the ones that go.
\<close>

definition erase_if :: "(listener \<Rightarrow> bool) \<Rightarrow> nodes \<Rightarrow> nodes" where
  "erase_if P c = zip (map fst c) (filter (\<lambda>l. \<not> P l) (map snd c))"

definition is_match :: "listener_id option \<Rightarrow> listener \<Rightarrow> bool" where
  "is_match item l = (case item of None \<Rightarrow> True | Some x \<Rightarrow> x = li_iListener l)"

definition removeListenerFromList :: "listener_id option \<Rightarrow> bool \<Rightarrow> nodes \<Rightarrow> nodes option" where
  "removeListenerFromList item scheduleRemoval c =
     (let c = (if \<not> scheduleRemoval then erase_if (is_match item) c
               else map (\<lambda>(n, l). (n, if is_match item l then l\<lparr>li_singleShot := True\<rparr> else l)) c)
      in if c = [] then None else Some c)"

definition removeListener :: "listener_id option \<Rightarrow> string \<Rightarrow> incident_svc \<Rightarrow> incident_svc option" where
  "removeListener lis t s =
     (if is_currentType s = Dangling then None
      else
        (let scheduleForRemoval = (is_currentType s = Type_of t);
             remove = (\<lambda>c. Option.bind c (removeListenerFromList lis scheduleForRemoval))
         in Some (if t = [] then s\<lparr>is_listenerMap := (\<lambda>u. remove (is_listenerMap s u))\<rparr>
                  else s\<lparr>is_listenerMap := (is_listenerMap s)(t := remove (is_listenerMap s t))\<rparr>)))"

definition getListeners :: "string \<Rightarrow> incident_svc \<Rightarrow> listener_id list" where
  "getListeners t s = map (li_iListener \<circ> snd) (nodes_of (listener_type t) s)"

section \<open>Incidents for an event: the queue of a slot\<close>

definition fire_async :: "incident \<Rightarrow> incident_svc \<Rightarrow> incident_svc" where
  "fire_async inc s =
     (let ctx = ic_context inc; slot = ctx_slot ctx;
          q = (case is_firedIncidents s slot of None \<Rightarrow> [] | Some q \<Rightarrow> q);
          e = (case is_slotEvent s slot of None \<Rightarrow> ctx_evt ctx | Some e \<Rightarrow> e);
          q = (if e \<noteq> ctx_evt ctx then [] else q)
      in s\<lparr>is_firedIncidents := (is_firedIncidents s)(slot \<mapsto> q @ [inc]), is_slotEvent := (is_slotEvent s)(slot \<mapsto> ctx_evt ctx)\<rparr>)"

section \<open>Firing\<close>

text \<open>What a handler does with the service, one command after the other.\<close>

datatype command =
    Add_listener listener_id string int bool bool
  | Remove_listener "listener_id option" string
  | Fire incident
  | Fire_async incident
  | Throw

text \<open>The handlers: by listener, incident and the number of calls made before.\<close>

type_synonym handlers = "listener_id \<Rightarrow> incident \<Rightarrow> nat \<Rightarrow> command list"

datatype handled = Finished incident_svc | Thrown incident_svc | Faulted | Out_of_fuel

definition reached :: "handled \<Rightarrow> (bool \<times> incident_svc) option" where
  "reached r = (case r of Finished s \<Rightarrow> Some (False, s) | Thrown s \<Rightarrow> Some (True, s) | _ \<Rightarrow> None)"

text \<open>The application return code keeps the first failure.\<close>

definition note_failure :: "incident \<Rightarrow> incident_svc \<Rightarrow> incident_svc" where
  "note_failure inc s =
     (if (ic_type inc = ''FailInputFile'' \<or> ic_type inc = ''CorruptedInputFile'') \<and> is_returnCode s = 0
      then s\<lparr>is_returnCode := (if ic_type inc = ''FailInputFile'' then 2 else 16)\<rparr> else s)"

definition node_at :: "string \<Rightarrow> nat \<Rightarrow> incident_svc \<Rightarrow> listener option" where
  "node_at t n s = map_of (nodes_of t s) n"

fun node_after :: "nat \<Rightarrow> nodes \<Rightarrow> nat option" where
  "node_after n [] = None"
| "node_after n ((m, l) # c) = (if m = n then (case c of [] \<Rightarrow> None | (k, _) # _ \<Rightarrow> Some k) else node_after n c)"

definition end_of_loop :: "string \<Rightarrow> bool \<Rightarrow> incident_svc \<Rightarrow> incident_svc" where
  "end_of_loop t firedSingleShot s =
     (let s = (if firedSingleShot
               then (let c = erase_if li_singleShot (nodes_of t s)
                     in s\<lparr>is_listenerMap := (is_listenerMap s)(t := if c = [] then None else Some c)\<rparr>)
               else s)
      in s\<lparr>is_currentType := No_type\<rparr>)"

text \<open>An exception leaves the pointer where it is, and takes the incident with it.\<close>

definition leave_by_exception :: "incident_svc \<Rightarrow> incident_svc" where
  "leave_by_exception s = (if is_currentType s = No_type then s else s\<lparr>is_currentType := Dangling\<rparr>)"

text \<open>
  The calls that are in progress; each is a function of \<open>run\<close>, which makes the calls inside it.
  The depth of \<open>run_job\<close> is fuel, since handlers may fire incidents without end.
\<close>

datatype job =
    Call_node incident string nat bool
  | Commands "command list"
  | Fire_type incident string
  | Fire_incident incident

text \<open>The loop over the listeners, from a node on.\<close>

definition call_node ::
  "(job \<Rightarrow> incident_svc \<Rightarrow> handled) \<Rightarrow> handlers \<Rightarrow> incident \<Rightarrow> string \<Rightarrow> nat \<Rightarrow> bool \<Rightarrow> incident_svc \<Rightarrow> handled"
where
  "call_node run h inc t n fired s =
     (case node_at t n s of
        None \<Rightarrow> Faulted
      | Some l \<Rightarrow>
          (let r = run (Commands (h (li_iListener l) inc (length (is_handled s))))
                     (s\<lparr>is_handled := is_handled s @ [(li_iListener l, inc)]\<rparr>)
           in case reached r of
                None \<Rightarrow> r
              | Some (thrown, s) \<Rightarrow>
                  (case node_at t n s of
                     None \<Rightarrow> Faulted
                   | Some l \<Rightarrow>
                       if thrown \<and> li_rethrow l then Thrown (leave_by_exception s)
                       else
                         (case node_after n (nodes_of t s) of
                            None \<Rightarrow> Finished (end_of_loop t (fired \<or> li_singleShot l) s)
                          | Some m \<Rightarrow> run (Call_node inc t m (fired \<or> li_singleShot l)) s))))"

fun run_commands :: "(job \<Rightarrow> incident_svc \<Rightarrow> handled) \<Rightarrow> command list \<Rightarrow> incident_svc \<Rightarrow> handled" where
  "run_commands run [] s = Finished s"
| "run_commands run (Add_listener lis t prio rethrow single # cs) s =
     run_commands run cs (addListener lis t prio rethrow single s)"
| "run_commands run (Remove_listener lis t # cs) s =
     (case removeListener lis t s of None \<Rightarrow> Faulted | Some s \<Rightarrow> run_commands run cs s)"
| "run_commands run (Fire inc # cs) s =
     (case run (Fire_incident inc) s of Finished s \<Rightarrow> run_commands run cs s | r \<Rightarrow> r)"
| "run_commands run (Fire_async inc # cs) s = run_commands run cs (fire_async inc s)"
| "run_commands run (Throw # cs) s = Thrown s"

definition i_fireIncident :: "(job \<Rightarrow> incident_svc \<Rightarrow> handled) \<Rightarrow> incident \<Rightarrow> string \<Rightarrow> incident_svc \<Rightarrow> handled" where
  "i_fireIncident run inc t s =
     (let s = note_failure inc s
      in case is_listenerMap s t of
           None \<Rightarrow> Finished s
         | Some c \<Rightarrow>
             (let s = s\<lparr>is_currentType := Type_of (ic_type inc)\<rparr>
              in case c of
                   [] \<Rightarrow> Finished (end_of_loop t False s)
                 | (n, l) # _ \<Rightarrow> run (Call_node inc t n False) s))"

definition fireIncident :: "(job \<Rightarrow> incident_svc \<Rightarrow> handled) \<Rightarrow> incident \<Rightarrow> incident_svc \<Rightarrow> handled" where
  "fireIncident run inc s =
     (case run (Fire_type inc (ic_type inc)) s of
        Finished s \<Rightarrow> if ic_type inc \<noteq> ''ALL'' then run (Fire_type inc ''ALL'') s else Finished s
      | r \<Rightarrow> r)"

primrec run_job :: "nat \<Rightarrow> handlers \<Rightarrow> job \<Rightarrow> incident_svc \<Rightarrow> handled" where
  "run_job 0 h j s = Out_of_fuel"
| "run_job (Suc k) h j s =
     (case j of
        Call_node inc t n fired \<Rightarrow> call_node (run_job k h) h inc t n fired s
      | Commands cs \<Rightarrow> run_commands (run_job k h) cs s
      | Fire_type inc t \<Rightarrow> i_fireIncident (run_job k h) inc t s
      | Fire_incident inc \<Rightarrow> fireIncident (run_job k h) inc s)"

section \<open>Incidents for an event: its calls\<close>

definition getIncidents :: "event_context \<Rightarrow> incident_svc \<Rightarrow> (incident \<times> listener list) list \<times> incident_svc" where
  "getIncidents ctx s =
     (case is_firedIncidents s (ctx_slot ctx) of
        None \<Rightarrow> ([], s)
      | Some q \<Rightarrow>
          (map (\<lambda>inc. (inc, map snd (nodes_of (ic_type inc) s)))
             (filter (\<lambda>inc. ctx_evt (ic_context inc) = ctx_evt ctx \<and> is_listenerMap s (ic_type inc) \<noteq> None) q),
           s\<lparr>is_firedIncidents := (is_firedIncidents s)(ctx_slot ctx \<mapsto> [])\<rparr>))"

definition is_finalize :: "incident_svc \<Rightarrow> incident_svc" where
  "is_finalize s = s\<lparr>is_firedIncidents := (\<lambda>_. None)\<rparr>"

text \<open>\<open>IncidentProcAlg::execute\<close>: the calls of one pack, then the next pack, until one is empty.\<close>

fun proc_calls :: "nat \<Rightarrow> handlers \<Rightarrow> (incident \<times> listener) list \<Rightarrow> incident_svc \<Rightarrow> handled" where
  "proc_calls k h [] s = Finished s"
| "proc_calls k h ((inc, l) # cs) s =
     (let r = run_job k h (Commands (h (li_iListener l) inc (length (is_handled s))))
                (s\<lparr>is_handled := is_handled s @ [(li_iListener l, inc)]\<rparr>)
      in case reached r of
           None \<Rightarrow> r
         | Some (thrown, s) \<Rightarrow> if thrown \<and> li_rethrow l then Thrown s else proc_calls k h cs s)"

fun proc_execute :: "nat \<Rightarrow> handlers \<Rightarrow> event_context \<Rightarrow> incident_svc \<Rightarrow> handled" where
  "proc_execute 0 h ctx s = Out_of_fuel"
| "proc_execute (Suc k) h ctx s =
     (case getIncidents ctx s of
        (pack, s) \<Rightarrow>
          if pack = [] then Finished s
          else (case proc_calls k h (concat (map (\<lambda>(inc, ls). map (\<lambda>l. (inc, l)) ls) pack)) s of
                  Finished s \<Rightarrow> proc_execute k h ctx s
                | r \<Rightarrow> r))"

end
