(* ===== verification/Incident_Facts.thy ===== *)
theory Incident_Facts
  imports Incident_Svc
begin

text \<open>
  The order of the listeners, what a firing calls, which handlers are safe, the queue of an
  event; and the runs in which handlers that change the lists lose calls or fault.
\<close>

section \<open>Lists in order\<close>

definition by_priority :: "nodes \<Rightarrow> bool" where
  "by_priority c \<longleftrightarrow> sorted_wrt (\<lambda>a b. li_priority b \<le> li_priority a) (map snd c)"

definition list_ok :: "nat \<Rightarrow> nodes \<Rightarrow> bool" where
  "list_ok m c \<longleftrightarrow> by_priority c \<and> distinct (map fst c) \<and> (\<forall>n \<in> set (map fst c). n < m)"

definition listeners_ok :: "incident_svc \<Rightarrow> bool" where
  "listeners_ok s \<longleftrightarrow> (\<forall>t c. is_listenerMap s t = Some c \<longrightarrow> c \<noteq> [] \<and> list_ok (is_nextNode s) c)"

abbreviation values_of :: "string \<Rightarrow> incident_svc \<Rightarrow> listener list" where
  "values_of t s \<equiv> map snd (nodes_of t s)"

lemma listeners_okD: "listeners_ok s \<Longrightarrow> list_ok (is_nextNode s) (nodes_of t s)"
  by (cases "is_listenerMap s t") (simp_all add: listeners_ok_def nodes_of_def, simp add: list_ok_def by_priority_def)

lemma list_ok_Suc: "list_ok m c \<Longrightarrow> list_ok (Suc m) c"
  by (auto simp: list_ok_def less_Suc_eq)

lemma listeners_ok_cong:
  "is_listenerMap s' = is_listenerMap s \<Longrightarrow> is_nextNode s' = is_nextNode s \<Longrightarrow> listeners_ok s' = listeners_ok s"
  by (simp add: listeners_ok_def)

lemma insert_priority:
  assumes "by_priority c"
  shows "map snd (insert_at (partition_point (\<lambda>j. li_priority (snd j) \<ge> p) c) (n, l) c) =
    filter (\<lambda>x. p \<le> li_priority x) (map snd c) @ l # filter (\<lambda>x. li_priority x < p) (map snd c)"
proof -
  let ?P = "\<lambda>j. p \<le> li_priority (snd j)"
  have part: "partitioned ?P c"
    using assms(1) by (auto simp: by_priority_def sorted_wrt_map elim: sorted_wrt_mono_rel [rotated])
  have "takeWhile ?P c = filter ?P c \<and> dropWhile ?P c = filter (\<lambda>x. \<not> ?P x) c"
    using part by (induction c) (auto simp: filter_empty_conv filter_id_conv intro: sym)
  then show ?thesis
    unfolding insert_at_def take_partition_point [OF part] drop_partition_point [OF part]
    by (simp add: filter_map o_def not_le)
qed

lemma sorted_insert_priority:
  assumes "by_priority c" and "li_priority l = p"
  shows "by_priority (insert_at (partition_point (\<lambda>j. li_priority (snd j) \<ge> p) c) (n, l) c)"
proof -
  have "sorted_wrt (\<lambda>a b. li_priority b \<le> li_priority a) (filter P (map snd c))" for P
    using assms(1) unfolding by_priority_def by (rule sorted_wrt_filter)
  then show ?thesis
    unfolding by_priority_def insert_priority [OF assms(1)] using assms(2)
    by (auto simp: sorted_wrt_append)
qed

lemma map_fst_insert_at: "map fst (insert_at i x c) = insert_at i (fst x) (map fst c)"
  by (simp add: insert_at_def take_map drop_map)

lemma set_insert_at: "set (insert_at i x xs) = insert x (set xs)"
  unfolding insert_at_def by (metis append_take_drop_id list.set(2) set_append Un_insert_right)

lemma distinct_insert_at: "distinct (insert_at i x xs) \<longleftrightarrow> distinct xs \<and> x \<notin> set xs"
proof -
  have "distinct (ys @ x # zs) \<longleftrightarrow> distinct (ys @ zs) \<and> x \<notin> set (ys @ zs)" for ys zs by auto
  from this [of "take i xs" "drop i xs"] show ?thesis unfolding insert_at_def by (simp only: append_take_drop_id)
qed

lemma addListener_ok:
  assumes ok: "listeners_ok s"
  shows "listeners_ok (addListener lis t prio rethrow single s)"
proof -
  let ?u = "listener_type t"
  let ?l = "\<lparr>li_iListener = lis, li_priority = prio, li_rethrow = rethrow, li_singleShot = single\<rparr>"
  let ?c = "insert_at (partition_point (\<lambda>j. li_priority (snd j) \<ge> prio) (nodes_of ?u s)) (is_nextNode s, ?l) (nodes_of ?u s)"
  have d: "by_priority (nodes_of ?u s)" "distinct (map fst (nodes_of ?u s))" "\<forall>n \<in> set (map fst (nodes_of ?u s)). n < is_nextNode s"
    using listeners_okD [OF ok, of ?u] unfolding list_ok_def by blast+
  have "by_priority ?c" by (rule sorted_insert_priority [OF d(1)]) simp
  moreover have "distinct (map fst ?c)" using d(2,3) by (auto simp: map_fst_insert_at distinct_insert_at)
  moreover have "\<forall>n \<in> set (map fst ?c). n < Suc (is_nextNode s)"
    using d(3) by (auto simp: map_fst_insert_at set_insert_at less_Suc_eq simp del: set_map)
  ultimately have "list_ok (Suc (is_nextNode s)) ?c" unfolding list_ok_def by blast
  moreover have "?c \<noteq> []" by (simp add: insert_at_def)
  ultimately show ?thesis
    using ok list_ok_Suc by (simp add: listeners_ok_def addListener_def Let_def)
qed

lemma erase_if_snd: "map snd (erase_if P c) = filter (\<lambda>l. \<not> P l) (map snd c)"
proof -
  have "length (filter (\<lambda>l. \<not> P l) (map snd c)) \<le> length (map fst c)" using length_filter_le [of _ "map snd c"] by simp
  then show ?thesis by (simp add: erase_if_def map_snd_zip_take)
qed

lemma erase_if_fst: "\<exists>k. map fst (erase_if P c) = take k (map fst c)"
  by (auto simp: erase_if_def map_fst_zip_take)

lemma erase_if_ok:
  assumes "list_ok m c"
  shows "list_ok m (erase_if P c)"
proof -
  have "by_priority (erase_if P c)" using assms unfolding list_ok_def by_priority_def erase_if_snd by (blast intro: sorted_wrt_filter)
  moreover obtain k where k: "map fst (erase_if P c) = take k (map fst c)" using erase_if_fst by blast
  have "distinct (map fst (erase_if P c))" unfolding k using assms unfolding list_ok_def by (blast intro: distinct_take)
  moreover have "\<forall>n \<in> set (map fst (erase_if P c)). n < m"
    unfolding k using assms unfolding list_ok_def by (blast dest: in_set_takeD)
  ultimately show ?thesis unfolding list_ok_def by blast
qed

lemma mark_fields:
  "map fst (map (\<lambda>(n, l). (n, if P l then l\<lparr>li_singleShot := True\<rparr> else l)) c) = map fst c"
  "map li_priority (map snd (map (\<lambda>(n, l). (n, if P l then l\<lparr>li_singleShot := True\<rparr> else l)) c)) = map li_priority (map snd c)"
  by (induction c) auto

lemma by_priority_alt: "by_priority c \<longleftrightarrow> sorted_wrt (\<lambda>a b. b \<le> a) (map li_priority (map snd c))"
  unfolding by_priority_def sorted_wrt_map [of _ li_priority] ..

lemma by_priority_cong: "map li_priority (map snd c') = map li_priority (map snd c) \<Longrightarrow> by_priority c' = by_priority c"
  unfolding by_priority_alt by simp

lemma removeFromList_ok:
  assumes "removeListenerFromList item sched c = Some c'" and "list_ok m c"
  shows "c' \<noteq> [] \<and> list_ok m c'"
proof (cases sched)
  case True
  then have c': "c' = map (\<lambda>(n, l). (n, if is_match item l then l\<lparr>li_singleShot := True\<rparr> else l)) c" "c' \<noteq> []"
    using assms(1) by (auto simp: removeListenerFromList_def split: if_splits)
  have "by_priority c' = by_priority c" by (rule by_priority_cong) (unfold c'(1), rule mark_fields(2))
  moreover have "map fst c' = map fst c" unfolding c'(1) by (rule mark_fields(1))
  ultimately show ?thesis using assms(2) c'(2) unfolding list_ok_def by simp
next
  case False
  then have "c' = erase_if (is_match item) c" "c' \<noteq> []"
    using assms(1) by (auto simp: removeListenerFromList_def Let_def split: if_splits)
  then show ?thesis using erase_if_ok [OF assms(2)] by blast
qed

lemma listeners_ok_update:
  assumes "listeners_ok s" and "is_nextNode s' = is_nextNode s"
    and "\<And>t c. is_listenerMap s' t = Some c \<Longrightarrow> is_listenerMap s t = Some c \<or> c \<noteq> [] \<and> list_ok (is_nextNode s) c"
  shows "listeners_ok s'"
  using assms unfolding listeners_ok_def by metis

lemma removeListener_ok:
  assumes ok: "listeners_ok s" and r: "removeListener lis t s = Some s'"
  shows "listeners_ok s'"
proof (rule listeners_ok_update [OF ok])
  show "is_nextNode s' = is_nextNode s" using r by (auto simp: removeListener_def Let_def split: if_splits)
  fix u c
  assume c: "is_listenerMap s' u = Some c"
  then have "is_listenerMap s u = Some c \<or>
      (\<exists>d. is_listenerMap s u = Some d \<and> removeListenerFromList lis (is_currentType s = Type_of t) d = Some c)"
    using r by (auto simp: removeListener_def Let_def bind_eq_Some_conv split: if_splits)
  then show "is_listenerMap s u = Some c \<or> c \<noteq> [] \<and> list_ok (is_nextNode s) c"
    using ok removeFromList_ok unfolding listeners_ok_def by metis
qed

lemma end_of_loop_ok:
  assumes ok: "listeners_ok s"
  shows "listeners_ok (end_of_loop t fired s)"
proof (rule listeners_ok_update [OF ok])
  fix u c
  assume c: "is_listenerMap (end_of_loop t fired s) u = Some c"
  show "is_listenerMap s u = Some c \<or> c \<noteq> [] \<and> list_ok (is_nextNode s) c"
    using c erase_if_ok [OF listeners_okD [OF ok], of li_singleShot t] by (auto simp: end_of_loop_def Let_def split: if_splits)
qed (simp add: end_of_loop_def Let_def)

lemma note_failure_same: "is_listenerMap (note_failure inc s) = is_listenerMap s" "is_nextNode (note_failure inc s) = is_nextNode s"
  "is_handled (note_failure inc s) = is_handled s"
  by (simp_all add: note_failure_def)

lemma leave_same: "is_listenerMap (leave_by_exception s) = is_listenerMap s" "is_nextNode (leave_by_exception s) = is_nextNode s"
  by (simp_all add: leave_by_exception_def)

text \<open>The queue of a slot holds incidents of one event, the one that \<open>m_slotEvent\<close> names.\<close>

definition queues_ok :: "incident_svc \<Rightarrow> bool" where
  "queues_ok s \<longleftrightarrow> (\<forall>sl q. is_firedIncidents s sl = Some q \<longrightarrow>
     is_slotEvent s sl \<noteq> None \<and>
     (\<forall>i \<in> set q. ctx_slot (ic_context i) = sl \<and> is_slotEvent s sl = Some (ctx_evt (ic_context i))))"

definition svc_ok :: "incident_svc \<Rightarrow> bool" where
  "svc_ok s \<longleftrightarrow> listeners_ok s \<and> queues_ok s"

lemma queues_ok_cong:
  "is_firedIncidents s' = is_firedIncidents s \<Longrightarrow> is_slotEvent s' = is_slotEvent s \<Longrightarrow> queues_ok s' = queues_ok s"
  by (simp add: queues_ok_def)

lemma addListener_svc: "svc_ok s \<Longrightarrow> svc_ok (addListener lis t prio rethrow single s)"
  using addListener_ok queues_ok_cong [of "addListener lis t prio rethrow single s" s]
  by (auto simp: svc_ok_def addListener_def Let_def)

lemma removeListener_svc: "svc_ok s \<Longrightarrow> removeListener lis t s = Some s' \<Longrightarrow> svc_ok s'"
  using removeListener_ok queues_ok_cong [of s' s]
  by (auto simp: svc_ok_def removeListener_def Let_def split: if_splits)

lemma end_of_loop_svc: "svc_ok s \<Longrightarrow> svc_ok (end_of_loop t fired s)"
  using end_of_loop_ok queues_ok_cong [of "end_of_loop t fired s" s] by (auto simp: svc_ok_def end_of_loop_def Let_def)

lemma fire_async_svc:
  assumes "svc_ok s"
  shows "svc_ok (fire_async inc s)"
proof -
  have "queues_ok (fire_async inc s)"
    using assms unfolding svc_ok_def queues_ok_def fire_async_def Let_def
    by (cases "is_firedIncidents s (ctx_slot (ic_context inc))"; cases "is_slotEvent s (ctx_slot (ic_context inc))") auto
  moreover have "listeners_ok (fire_async inc s)"
    using assms listeners_ok_cong [of "fire_async inc s" s] by (simp add: svc_ok_def fire_async_def Let_def)
  ultimately show ?thesis by (simp add: svc_ok_def)
qed

lemma getIncidents_svc: "svc_ok s \<Longrightarrow> svc_ok (snd (getIncidents ctx s))"
  by (auto simp: svc_ok_def getIncidents_def listeners_ok_def queues_ok_def split: option.splits)

lemma is_finalize_svc: "svc_ok s \<Longrightarrow> svc_ok (is_finalize s)"
  by (simp add: svc_ok_def is_finalize_def listeners_ok_def queues_ok_def)

lemma svc_ok_update [simp]: "svc_ok (s\<lparr>is_currentType := x\<rparr>) = svc_ok s" "svc_ok (s\<lparr>is_handled := y\<rparr>) = svc_ok s"
  by (simp_all add: svc_ok_def listeners_ok_def queues_ok_def)

lemma note_failure_svc [simp]: "svc_ok (note_failure inc s) = svc_ok s"
  by (simp add: note_failure_def svc_ok_def listeners_ok_def queues_ok_def)

lemma leave_svc [simp]: "svc_ok (leave_by_exception s) = svc_ok s"
  by (simp add: leave_by_exception_def)

definition result_ok :: "handled \<Rightarrow> bool" where
  "result_ok r \<longleftrightarrow> (case reached r of None \<Rightarrow> True | Some (thrown, s) \<Rightarrow> svc_ok s)"

lemma result_ok_simps [simp]:
  "result_ok (Finished s) = svc_ok s" "result_ok (Thrown s) = svc_ok s" "result_ok Faulted" "result_ok Out_of_fuel"
  by (simp_all add: result_ok_def reached_def)

lemma reached_ok: "result_ok r \<Longrightarrow> reached r = Some (b, s) \<Longrightarrow> svc_ok s"
  by (simp add: result_ok_def)

lemma run_commands_ok:
  assumes run: "\<And>j s. svc_ok s \<Longrightarrow> result_ok (run j s)"
  shows "svc_ok s \<Longrightarrow> result_ok (run_commands run cs s)"
proof (induction cs arbitrary: s)
  case (Cons c cs)
  show ?case
  proof (cases c)
    case (Remove_listener lis t)
    then show ?thesis using Cons removeListener_svc by (cases "removeListener lis t s") auto
  next
    case (Fire inc)
    then show ?thesis using Cons.IH run [OF Cons.prems, of "Fire_incident inc"] by (cases "run (Fire_incident inc) s") auto
  qed (use Cons addListener_svc fire_async_svc in auto)
qed simp

lemma call_node_ok:
  assumes run: "\<And>j s. svc_ok s \<Longrightarrow> result_ok (run j s)" and s: "svc_ok s"
  shows "result_ok (call_node run h inc t n fired s)"
proof (cases "node_at t n s")
  case (Some l)
  let ?r = "run (Commands (h (li_iListener l) inc (length (is_handled s)))) (s\<lparr>is_handled := is_handled s @ [(li_iListener l, inc)]\<rparr>)"
  have r: "result_ok ?r" by (rule run) (use s in simp)
  show ?thesis
  proof (cases "reached ?r")
    case None
    then show ?thesis using r Some by (simp add: call_node_def Let_def)
  next
    case (Some a)
    obtain b s' where a: "a = (b, s')" by (cases a)
    have s': "svc_ok s'" using reached_ok [OF r] Some a by simp
    have "svc_ok (leave_by_exception s')" using s' by simp
    then show ?thesis
      using Some a \<open>node_at t n s = Some l\<close> s' run end_of_loop_svc
      by (auto simp: call_node_def Let_def split: option.splits)
  qed
qed (simp add: call_node_def)

lemma i_fireIncident_ok:
  assumes run: "\<And>j s. svc_ok s \<Longrightarrow> result_ok (run j s)" and s: "svc_ok s"
  shows "result_ok (i_fireIncident run inc t s)"
proof -
  have "svc_ok (note_failure inc s)" using s by simp
  then have "svc_ok ((note_failure inc s)\<lparr>is_currentType := x\<rparr>)" for x by simp
  then show ?thesis
    using run end_of_loop_svc \<open>svc_ok (note_failure inc s)\<close>
    by (auto simp: i_fireIncident_def Let_def split: option.splits list.splits)
qed

lemma fireIncident_ok:
  assumes run: "\<And>j s. svc_ok s \<Longrightarrow> result_ok (run j s)" and s: "svc_ok s"
  shows "result_ok (fireIncident run inc s)"
  using run [OF s, of "Fire_type inc (ic_type inc)"] run
  by (cases "run (Fire_type inc (ic_type inc)) s") (auto simp: fireIncident_def)

lemma run_job_ok: "svc_ok s \<Longrightarrow> result_ok (run_job k h j s)"
proof (induction k arbitrary: j s)
  case (Suc k)
  note run = Suc.IH
  show ?case
    using run_commands_ok [OF run Suc.prems] call_node_ok [OF run Suc.prems] i_fireIncident_ok [OF run Suc.prems]
      fireIncident_ok [OF run Suc.prems]
    by (cases j) simp_all
qed simp

lemma proc_calls_ok: "svc_ok s \<Longrightarrow> result_ok (proc_calls k h cs s)"
proof (induction cs arbitrary: s)
  case (Cons c cs)
  obtain inc l where c: "c = (inc, l)" by (cases c)
  let ?r = "run_job k h (Commands (h (li_iListener l) inc (length (is_handled s)))) (s\<lparr>is_handled := is_handled s @ [(li_iListener l, inc)]\<rparr>)"
  have r: "result_ok ?r" by (rule run_job_ok) (use Cons.prems in simp)
  show ?case
  proof (cases "reached ?r")
    case None
    then show ?thesis using r by (simp add: c Let_def)
  next
    case (Some a)
    then have "svc_ok (snd a)" using reached_ok [OF r] by (cases a) simp
    then show ?thesis using Cons.IH Some by (cases a) (simp add: c Let_def)
  qed
qed simp

lemma proc_execute_ok: "svc_ok s \<Longrightarrow> result_ok (proc_execute k h ctx s)"
proof (induction k arbitrary: s)
  case (Suc k)
  obtain pack s1 where g: "getIncidents ctx s = (pack, s1)" by (cases "getIncidents ctx s")
  have s1: "svc_ok s1" using getIncidents_svc [OF Suc.prems, of ctx] by (simp add: g)
  let ?r = "proc_calls k h (concat (map (\<lambda>(inc, ls). map (\<lambda>l. (inc, l)) ls) pack)) s1"
  have "result_ok ?r" by (rule proc_calls_ok [OF s1])
  then show ?case using Suc.IH s1 by (cases ?r) (auto simp: g)
qed simp

section \<open>The life of the service\<close>

inductive svc_run :: "handlers \<Rightarrow> incident_svc \<Rightarrow> bool" for h :: handlers where
  created: "svc_run h new_incident_svc"
| called: "svc_run h s \<Longrightarrow> reached (run_job k h (Commands [c]) s) = Some (b, s') \<Longrightarrow> svc_run h s'"
| collected: "svc_run h s \<Longrightarrow> svc_run h (snd (getIncidents ctx s))"
| processed: "svc_run h s \<Longrightarrow> reached (proc_execute k h ctx s) = Some (b, s') \<Longrightarrow> svc_run h s'"
| finalized: "svc_run h s \<Longrightarrow> svc_run h (is_finalize s)"

lemma svc_run_ok: "svc_run h s \<Longrightarrow> svc_ok s"
proof (induction rule: svc_run.induct)
  case created
  show ?case by (simp add: svc_ok_def listeners_ok_def queues_ok_def new_incident_svc_def)
next
  case called
  then show ?case using run_job_ok reached_ok by blast
next
  case processed
  then show ?case using proc_execute_ok reached_ok by blast
qed (simp_all add: getIncidents_svc is_finalize_svc)

section \<open>A firing that no handler disturbs\<close>

text \<open>Handlers that leave the service alone; they may throw where the exception is not passed on.\<close>

definition quiet :: "handlers \<Rightarrow> incident \<Rightarrow> listener \<Rightarrow> bool" where
  "quiet h inc l \<longleftrightarrow> (\<forall>n. h (li_iListener l) inc n = [] \<or> h (li_iListener l) inc n = [Throw] \<and> \<not> li_rethrow l)"

definition called_in_order :: "incident \<Rightarrow> listener list \<Rightarrow> incident_svc \<Rightarrow> incident_svc" where
  "called_in_order inc ls s = s\<lparr>is_handled := is_handled s @ map (\<lambda>l. (li_iListener l, inc)) ls\<rparr>"

lemma called_in_order_simps [simp]:
  "called_in_order inc [] s = s" "nodes_of t (called_in_order inc ls s) = nodes_of t s"
  "called_in_order inc ls (called_in_order inc ks s) = called_in_order inc (ks @ ls) s"
  "is_listenerMap (called_in_order inc ls s) = is_listenerMap s"
  "is_handled (called_in_order inc ls s) = is_handled s @ map (\<lambda>l. (li_iListener l, inc)) ls"
  by (simp_all add: called_in_order_def nodes_of_def)

lemma quiet_commands:
  assumes "quiet h inc l"
  shows "\<exists>b. reached (run_commands run (h (li_iListener l) inc n) s) = Some (b, s) \<and> (b \<longrightarrow> \<not> li_rethrow l)"
proof -
  have "h (li_iListener l) inc n = [] \<or> h (li_iListener l) inc n = [Throw] \<and> \<not> li_rethrow l"
    using assms unfolding quiet_def by blast
  then show ?thesis by (auto simp: reached_def ex_bool_eq)
qed

lemma call_node_quiet:
  assumes "node_at t n s = Some l" and "quiet h inc l"
  shows "call_node (run_job (Suc k) h) h inc t n fired s =
    (case node_after n (nodes_of t s) of
       None \<Rightarrow> Finished (end_of_loop t (fired \<or> li_singleShot l) (called_in_order inc [l] s))
     | Some m \<Rightarrow> run_job (Suc k) h (Call_node inc t m (fired \<or> li_singleShot l)) (called_in_order inc [l] s))"
proof -
  let ?s = "s\<lparr>is_handled := is_handled s @ [(li_iListener l, inc)]\<rparr>"
  have same: "?s = called_in_order inc [l] s" by (simp add: called_in_order_def)
  obtain b where b: "reached (run_commands (run_job k h) (h (li_iListener l) inc (length (is_handled s))) ?s) = Some (b, ?s)"
      "b \<longrightarrow> \<not> li_rethrow l" using quiet_commands [OF assms(2)] by blast
  have "node_at t n ?s = Some l" using assms(1) by (simp add: node_at_def nodes_of_def)
  then show ?thesis using assms(1) b unfolding call_node_def by (auto simp: same)
qed

lemma node_after_append:
  "n \<notin> set (map fst pre) \<Longrightarrow> node_after n (pre @ (n, l) # c) = (case c of [] \<Rightarrow> None | (k, _) # _ \<Rightarrow> Some k)"
  by (induction pre) auto

lemma node_at_middle: "nodes_of t s = pre @ (n, l) # post \<Longrightarrow> distinct (map fst (nodes_of t s)) \<Longrightarrow> node_at t n s = Some l"
  unfolding node_at_def by (rule map_of_is_SomeI) simp_all

lemma run_call_node: "run_job (Suc k) h (Call_node inc t n fired) s = call_node (run_job k h) h inc t n fired s"
  by simp

lemma loop_quiet:
  assumes "nodes_of t s = pre @ (n, l) # post" and "distinct (map fst (nodes_of t s))"
    and "\<forall>x \<in> set (l # map snd post). quiet h inc x"
  shows "run_job (Suc (Suc (length post + k))) h (Call_node inc t n fired) s =
    Finished (end_of_loop t (fired \<or> (\<exists>x \<in> set (l # map snd post). li_singleShot x)) (called_in_order inc (l # map snd post) s))"
  using assms
proof (induction post arbitrary: pre n l fired s k)
  case Nil
  have "node_at t n s = Some l" by (rule node_at_middle) (use Nil.prems in simp_all)
  moreover have "node_after n (nodes_of t s) = None" using Nil.prems(1,2) by (simp add: node_after_append)
  ultimately show ?case using Nil.prems(3) call_node_quiet [of t n s l h inc k fired] by (simp add: run_call_node)
next
  case (Cons a post)
  obtain m x where a: "a = (m, x)" by (cases a)
  have "node_at t n s = Some l" by (rule node_at_middle) (use Cons.prems in simp_all)
  moreover have "node_after n (nodes_of t s) = Some m" using Cons.prems(1,2) by (simp add: node_after_append a)
  moreover have "run_job (Suc (Suc (length post + k))) h (Call_node inc t m (fired \<or> li_singleShot l)) (called_in_order inc [l] s) =
      Finished (end_of_loop t ((fired \<or> li_singleShot l) \<or> (\<exists>y \<in> set (x # map snd post). li_singleShot y))
        (called_in_order inc (x # map snd post) (called_in_order inc [l] s)))"
    by (rule Cons.IH [of _ "pre @ [(n, l)]"]) (use Cons.prems a in simp_all)
  ultimately show ?case
    using Cons.prems(3) call_node_quiet [of t n s l h inc "Suc (length post + k)" fired] by (simp add: run_call_node a)
qed

text \<open>What one list's firing leaves: its calls made, its single-shot listeners gone.\<close>

definition fired_quietly :: "incident \<Rightarrow> string \<Rightarrow> incident_svc \<Rightarrow> incident_svc \<Rightarrow> bool" where
  "fired_quietly inc t s s' \<longleftrightarrow>
     is_handled s' = is_handled s @ map (\<lambda>l. (li_iListener l, inc)) (values_of t s) \<and>
     (\<forall>u. values_of u s' = (if u = t then filter (\<lambda>l. \<not> li_singleShot l) (values_of t s) else values_of u s)) \<and>
     is_returnCode s' = is_returnCode (note_failure inc s)"

lemma nodes_of_end_of_loop:
  "nodes_of u (end_of_loop t fired s) = (if u = t \<and> fired then erase_if li_singleShot (nodes_of t s) else nodes_of u s)"
  by (simp add: end_of_loop_def Let_def nodes_of_def split: option.splits)

lemma nodes_of_note: "nodes_of t (note_failure inc s) = nodes_of t s"
  by (simp add: nodes_of_def note_failure_same)

lemma fired_quietly_end:
  assumes "fired \<longleftrightarrow> (\<exists>x \<in> set (values_of t s). li_singleShot x)"
  shows "fired_quietly inc t s
    (end_of_loop t fired (called_in_order inc (values_of t s) ((note_failure inc s)\<lparr>is_currentType := p\<rparr>)))"
proof -
  have "filter (\<lambda>l. \<not> li_singleShot l) (values_of t s) = values_of t s" if "\<not> fired"
    using that assms by (intro filter_True) blast
  then show ?thesis
    unfolding fired_quietly_def nodes_of_end_of_loop
    by (simp add: erase_if_snd nodes_of_note nodes_of_def [of _ "_\<lparr>is_currentType := p\<rparr>"] nodes_of_def [symmetric] note_failure_same)
       (simp add: end_of_loop_def Let_def called_in_order_def note_failure_same)
qed

lemma fire_type_quiet:
  assumes ok: "svc_ok s" and q: "\<forall>x \<in> set (values_of t s). quiet h inc x" and k: "length (nodes_of t s) + 2 \<le> k"
  shows "\<exists>s'. run_job k h (Fire_type inc t) s = Finished s' \<and> fired_quietly inc t s s'"
proof (cases "is_listenerMap s t")
  case None
  then show ?thesis
    using k by (cases k) (simp_all add: i_fireIncident_def Let_def note_failure_same fired_quietly_def nodes_of_def)
next
  case (Some c)
  have l: "listeners_ok s" using ok by (simp add: svc_ok_def)
  then have c: "c \<noteq> []" "distinct (map fst c)" using Some unfolding listeners_ok_def list_ok_def by blast+
  obtain n l post where post: "c = (n, l) # post" using c(1) by (metis list.exhaust surj_pair)
  have nodes: "nodes_of t s = (n, l) # post" using Some post by (simp add: nodes_of_def)
  obtain j where j: "k = Suc (Suc (Suc (length post + j)))" using k nodes le_Suc_ex [of "length (nodes_of t s) + 2" k] by auto
  let ?s = "(note_failure inc s)\<lparr>is_currentType := Type_of (ic_type inc)\<rparr>"
  have n: "nodes_of t ?s = [] @ (n, l) # post" using nodes by (simp add: nodes_of_def note_failure_same)
  have q': "\<forall>x \<in> set (l # map snd post). quiet h inc x" using q nodes by simp
  have "run_job (Suc (Suc (length post + j))) h (Call_node inc t n False) ?s =
      Finished (end_of_loop t (False \<or> (\<exists>x \<in> set (l # map snd post). li_singleShot x)) (called_in_order inc (l # map snd post) ?s))"
    by (rule loop_quiet [OF n _ q']) (unfold n, use c(2) post in simp)
  moreover have "l # map snd post = values_of t s" by (simp add: nodes)
  ultimately have "run_job k h (Fire_type inc t) s =
      Finished (end_of_loop t (\<exists>x \<in> set (values_of t s). li_singleShot x) (called_in_order inc (values_of t s) ?s))"
    using Some by (simp add: j i_fireIncident_def Let_def note_failure_same post)
  then show ?thesis using fired_quietly_end [OF refl] by blast
qed

section \<open>Handlers that change the lists\<close>

text \<open>
  The removals that \<open>m_currentIncidentType\<close> protects in a firing of type \<open>ty\<close>: those by the
  fired type. Others are safe when they touch neither of the two lists that are fired.
\<close>

fun tame :: "string \<Rightarrow> command \<Rightarrow> bool" where
  "tame ty (Remove_listener lis t) \<longleftrightarrow> t \<noteq> [] \<and> (t = ty \<or> t \<noteq> ''ALL'')"
| "tame ty (Fire inc) \<longleftrightarrow> False"
| "tame ty c \<longleftrightarrow> True"

fun adds :: "command \<Rightarrow> bool" where
  "adds (Add_listener lis t prio rethrow single) \<longleftrightarrow> True"
| "adds c \<longleftrightarrow> False"

abbreviation ids_of :: "string \<Rightarrow> incident_svc \<Rightarrow> nat list" where
  "ids_of t s \<equiv> map fst (nodes_of t s)"

text \<open>The nodes of a firing's lists stay where they are.\<close>

definition kept :: "bool \<Rightarrow> string \<Rightarrow> incident_svc \<Rightarrow> incident_svc \<Rightarrow> bool" where
  "kept added ty s s' \<longleftrightarrow> is_currentType s' = is_currentType s \<and>
     (\<forall>t \<in> {ty, ''ALL''}. set (ids_of t s) \<subseteq> set (ids_of t s') \<and> (\<not> added \<longrightarrow> ids_of t s' = ids_of t s))"

lemma kept_refl: "kept a ty s s"
  by (simp add: kept_def)

lemma kept_same:
  "is_currentType s' = is_currentType s \<Longrightarrow> (\<And>t. t \<in> {ty, ''ALL''} \<Longrightarrow> ids_of t s' = ids_of t s) \<Longrightarrow> kept False ty s s'"
  unfolding kept_def by (metis order_refl)

lemma kept_trans:
  assumes "kept a ty s s'" and "kept b ty s' s''"
  shows "kept (a \<or> b) ty s s''"
  unfolding kept_def
proof (intro conjI ballI impI)
  show "is_currentType s'' = is_currentType s" using assms by (simp add: kept_def)
  fix t assume t: "t \<in> {ty, ''ALL''}"
  then show "set (ids_of t s) \<subseteq> set (ids_of t s'')"
    using assms subset_trans [of "set (ids_of t s)" "set (ids_of t s')"] unfolding kept_def by blast
  assume "\<not> (a \<or> b)"
  then show "ids_of t s'' = ids_of t s" using assms t unfolding kept_def by (metis (no_types))
qed

lemma kept_add: "kept True ty s (addListener lis t prio rethrow single s)"
  unfolding kept_def addListener_def Let_def
  by (auto simp: nodes_of_def map_fst_insert_at set_insert_at simp del: set_map)

lemma remove_keeps_ids:
  assumes "is_listenerMap s u \<noteq> Some []" and "t \<noteq> []" and "is_currentType s \<noteq> Dangling" and "t = u \<longrightarrow> is_currentType s = Type_of t"
  shows "\<exists>s'. removeListener lis t s = Some s' \<and> is_currentType s' = is_currentType s \<and> ids_of u s' = ids_of u s"
proof (cases "t = u")
  case True
  have "map fst (case removeListenerFromList lis True c of None \<Rightarrow> [] | Some c \<Rightarrow> c) = map fst c" if "c \<noteq> []" for c
    using that mark_fields(1) [of "is_match lis" c] by (simp add: removeListenerFromList_def)
  then show ?thesis
    using assms True by (cases "is_listenerMap s u") (simp_all add: removeListener_def nodes_of_def Let_def)
next
  case False
  then show ?thesis using assms by (simp add: removeListener_def nodes_of_def Let_def)
qed

lemma kept_remove:
  assumes "tame ty (Remove_listener lis t)" and "is_currentType s = Type_of ty" and "listeners_ok s"
  shows "\<exists>s'. removeListener lis t s = Some s' \<and> kept False ty s s'"
proof -
  have u: "\<exists>s'. removeListener lis t s = Some s' \<and> is_currentType s' = is_currentType s \<and> ids_of u s' = ids_of u s"
    if "u \<in> {ty, ''ALL''}" for u
    by (rule remove_keeps_ids) (use assms that in \<open>auto simp: listeners_ok_def\<close>)
  then obtain s' where s': "removeListener lis t s = Some s'" "is_currentType s' = is_currentType s" by blast
  have "kept False ty s s'" by (rule kept_same [OF s'(2)]) (use u s'(1) in fastforce)
  then show ?thesis using s'(1) by blast
qed

lemma kept_async: "kept False ty s (fire_async inc s)"
  by (simp add: kept_def fire_async_def Let_def nodes_of_def)

lemma tame_commands:
  assumes "\<forall>c \<in> set cs. tame ty c" and "is_currentType s = Type_of ty" and "svc_ok s"
  shows "\<exists>b s'. reached (run_commands run cs s) = Some (b, s') \<and> kept (\<exists>c \<in> set cs. adds c) ty s s' \<and> svc_ok s'"
  using assms
proof (induction cs arbitrary: s)
  case Nil
  then show ?case by (simp add: reached_def kept_refl ex_bool_eq)
next
  case (Cons c cs)
  show ?case
  proof (cases "c = Throw")
    case True
    then have "reached (run_commands run (c # cs) s) = Some (True, s)" by (simp add: reached_def)
    then show ?thesis using Cons.prems(3) kept_refl by blast
  next
    case False
    obtain s1 where s1: "run_commands run (c # cs) s = run_commands run cs s1" "kept (adds c) ty s s1" "svc_ok s1"
    proof (cases c)
      case (Add_listener lis t prio rethrow single)
      then show ?thesis using that kept_add addListener_svc [OF Cons.prems(3)] by simp
    next
      case (Remove_listener lis t)
      then obtain s1 where "removeListener lis t s = Some s1" "kept False ty s s1"
        using kept_remove [of ty lis t s] Cons.prems by (auto simp: svc_ok_def)
      then show ?thesis using that removeListener_svc [OF Cons.prems(3)] Remove_listener by simp
    next
      case (Fire_async inc)
      then show ?thesis using that kept_async fire_async_svc [OF Cons.prems(3)] by simp
    qed (use Cons.prems(1) False in simp_all)
    have "is_currentType s1 = Type_of ty" using s1(2) Cons.prems(2) by (simp add: kept_def)
    then obtain b s2 where "reached (run_commands run cs s1) = Some (b, s2)" "kept (\<exists>c \<in> set cs. adds c) ty s1 s2" "svc_ok s2"
      using Cons.IH [of s1] Cons.prems(1) s1(3) by auto
    then show ?thesis using s1 kept_trans [OF s1(2)] by auto
  qed
qed

lemma node_at_iff: "node_at t n s \<noteq> None \<longleftrightarrow> n \<in> set (ids_of t s)"
  by (simp add: node_at_def map_of_eq_None_iff)

lemma node_after_in: "node_after n c = Some m \<Longrightarrow> m \<in> set (map fst c)"
  by (induction n c rule: node_after.induct) (auto split: if_splits list.splits)

definition tame_handlers :: "handlers \<Rightarrow> incident \<Rightarrow> bool" where
  "tame_handlers h inc \<longleftrightarrow> (\<forall>l n. \<forall>c \<in> set (h l inc n). tame (ic_type inc) c)"

definition adds_listeners :: "handlers \<Rightarrow> incident \<Rightarrow> bool" where
  "adds_listeners h inc \<longleftrightarrow> (\<exists>l n. \<exists>c \<in> set (h l inc n). adds c)"

text \<open>One call of the loop: it finds its node, before and after the handler.\<close>

lemma call_node_tame:
  assumes "tame_handlers h inc" and "is_currentType s = Type_of (ic_type inc)" and "svc_ok s"
    and t: "t \<in> {ic_type inc, ''ALL''}" and n: "n \<in> set (ids_of t s)"
  shows "\<exists>s' fired'. kept (adds_listeners h inc) (ic_type inc) s s' \<and> svc_ok s' \<and>
    (call_node (run_job (Suc k) h) h inc t n fired s = Thrown (leave_by_exception s') \<or>
     call_node (run_job (Suc k) h) h inc t n fired s =
       (case node_after n (nodes_of t s') of
          None \<Rightarrow> Finished (end_of_loop t fired' s')
        | Some m \<Rightarrow> run_job (Suc k) h (Call_node inc t m fired') s'))"
proof -
  obtain l where l: "node_at t n s = Some l" using n node_at_iff by (metis not_Some_eq)
  let ?cs = "h (li_iListener l) inc (length (is_handled s))" and ?s = "s\<lparr>is_handled := is_handled s @ [(li_iListener l, inc)]\<rparr>"
  have "\<forall>c \<in> set ?cs. tame (ic_type inc) c" using assms(1) by (simp add: tame_handlers_def)
  from tame_commands [OF this, of ?s] obtain b s' where s': "reached (run_commands (run_job k h) ?cs ?s) = Some (b, s')"
      "kept (\<exists>c \<in> set ?cs. adds c) (ic_type inc) ?s s'" "svc_ok s'"
    using assms(2,3) by (metis (no_types, lifting) svc_ok_update(2) incident_svc.select_convs(2) incident_svc.surjective incident_svc.update_convs(7))
  have "kept (adds_listeners h inc) (ic_type inc) s s'"
    using s'(2) unfolding kept_def adds_listeners_def nodes_of_def by auto
  moreover obtain l' where "node_at t n s' = Some l'"
    using calculation t n node_at_iff [of t n s'] unfolding kept_def by blast
  ultimately show ?thesis
    using l s' by (cases "b \<and> li_rethrow l'") (auto simp: call_node_def Let_def)
qed

lemma loop_tame:
  assumes h: "tame_handlers h inc" and t: "t \<in> {ic_type inc, ''ALL''}"
  shows "is_currentType s = Type_of (ic_type inc) \<Longrightarrow> svc_ok s \<Longrightarrow> n \<in> set (ids_of t s) \<Longrightarrow>
    run_job k h (Call_node inc t n fired) s \<noteq> Faulted"
proof (induction k arbitrary: n fired s)
  case (Suc k)
  note IH = Suc.IH
  show ?case
  proof (cases k)
    case 0
    moreover obtain l where "node_at t n s = Some l" using Suc.prems(3) node_at_iff by (metis not_Some_eq)
    ultimately show ?thesis by (simp add: call_node_def Let_def reached_def)
  next
    case (Suc j)
    obtain s' fired' where s': "kept (adds_listeners h inc) (ic_type inc) s s'" "svc_ok s'"
      "call_node (run_job (Suc j) h) h inc t n fired s = Thrown (leave_by_exception s') \<or>
       call_node (run_job (Suc j) h) h inc t n fired s =
       (case node_after n (nodes_of t s') of
          None \<Rightarrow> Finished (end_of_loop t fired' s')
        | Some m \<Rightarrow> run_job (Suc j) h (Call_node inc t m fired') s')"
      using call_node_tame [OF h Suc.prems(1,2) t Suc.prems(3), of j fired] by blast
    have "is_currentType s' = Type_of (ic_type inc)" using s'(1) Suc.prems(1) by (simp add: kept_def)
    then have "run_job (Suc j) h (Call_node inc t m fired') s' \<noteq> Faulted" if "node_after n (nodes_of t s') = Some m" for m
      using IH s'(2) node_after_in [OF that] Suc by blast
    then show ?thesis using s'(3) Suc unfolding run_call_node by (auto split: option.splits simp del: run_job.simps)
  qed
qed simp

lemma fire_type_tame:
  assumes h: "tame_handlers h inc" and t: "t \<in> {ic_type inc, ''ALL''}" and s: "svc_ok s"
  shows "run_job k h (Fire_type inc t) s \<noteq> Faulted"
proof (cases "k = 0 \<or> is_listenerMap s t = None \<or> is_listenerMap s t = Some []")
  case True
  then show ?thesis by (cases k) (auto simp: i_fireIncident_def Let_def note_failure_same)
next
  case False
  then obtain j n l post where j: "k = Suc j" "is_listenerMap s t = Some ((n, l) # post)"
    by (metis not0_implies_Suc not_None_eq list.exhaust surj_pair)
  let ?s = "(note_failure inc s)\<lparr>is_currentType := Type_of (ic_type inc)\<rparr>"
  have "run_job j h (Call_node inc t n False) ?s \<noteq> Faulted"
    by (rule loop_tame [OF h t]) (use s j(2) in \<open>simp_all add: nodes_of_def note_failure_same\<close>)
  then show ?thesis using j by (simp add: i_fireIncident_def Let_def note_failure_same)
qed

text \<open>Handlers that add no listener: the loop comes to the end of its list.\<close>

lemma node_after_ids:
  "map fst c = pre @ n # post \<Longrightarrow> n \<notin> set pre \<Longrightarrow> node_after n c = (case post of [] \<Rightarrow> None | m # _ \<Rightarrow> Some m)"
proof (induction pre arbitrary: c)
  case Nil
  then obtain l c' where "c = (n, l) # c'" "map fst c' = post" by auto
  then show ?case by (auto split: list.splits)
next
  case (Cons p pre)
  then obtain l c' where "c = (p, l) # c'" "map fst c' = pre @ n # post" by auto
  then show ?case using Cons by simp
qed

lemma kept_ids: "kept False ty s s' \<Longrightarrow> t \<in> {ty, ''ALL''} \<Longrightarrow> ids_of t s' = ids_of t s"
  unfolding kept_def by blast

lemma ids_distinct: "svc_ok s \<Longrightarrow> distinct (ids_of t s)"
  using listeners_okD [of s t] unfolding svc_ok_def list_ok_def by blast

definition others_kept :: "string \<Rightarrow> string \<Rightarrow> incident_svc \<Rightarrow> handled \<Rightarrow> bool" where
  "others_kept ty t s r \<longleftrightarrow>
     (case reached r of None \<Rightarrow> False | Some (b, s') \<Rightarrow> svc_ok s' \<and> (\<forall>u \<in> {ty, ''ALL''} - {t}. ids_of u s' = ids_of u s))"

lemma others_kept_trans: "kept False ty s s1 \<Longrightarrow> others_kept ty t s1 r \<Longrightarrow> others_kept ty t s r"
  unfolding others_kept_def by (cases "reached r") (simp, clarsimp simp del: insert_iff, metis DiffI insertCI kept_ids insertE singletonD)

lemma others_kept_cong: "(\<And>u. nodes_of u s1 = nodes_of u s) \<Longrightarrow> others_kept ty t s1 r = others_kept ty t s r"
  by (simp add: others_kept_def split: option.split)

lemma others_kept_end: "svc_ok s \<Longrightarrow> others_kept ty t s (Finished (end_of_loop t fired s))"
  by (simp add: others_kept_def reached_def end_of_loop_svc nodes_of_end_of_loop)

lemma others_kept_throw: "svc_ok s \<Longrightarrow> others_kept ty t s (Thrown (leave_by_exception s))"
  by (simp add: others_kept_def reached_def nodes_of_def leave_same)

lemma loop_ends:
  assumes h: "tame_handlers h inc" "\<not> adds_listeners h inc" and t: "t \<in> {ic_type inc, ''ALL''}"
  shows "is_currentType s = Type_of (ic_type inc) \<Longrightarrow> svc_ok s \<Longrightarrow> ids_of t s = pre @ n # post \<Longrightarrow>
    others_kept (ic_type inc) t s (run_job (Suc (Suc (length post + k))) h (Call_node inc t n fired) s)"
proof (induction post arbitrary: pre n fired s)
  case Nil
  obtain s' fired' where s': "kept False (ic_type inc) s s'" "svc_ok s'"
      "call_node (run_job (Suc k) h) h inc t n fired s = Thrown (leave_by_exception s') \<or>
       call_node (run_job (Suc k) h) h inc t n fired s =
       (case node_after n (nodes_of t s') of
          None \<Rightarrow> Finished (end_of_loop t fired' s')
        | Some m \<Rightarrow> run_job (Suc k) h (Call_node inc t m fired') s')"
    using call_node_tame [OF h(1) Nil.prems(1,2) t, of n k fired] Nil.prems(3) h(2) by auto
  have "ids_of t s' = ids_of t s" by (rule kept_ids [OF s'(1) t])
  then have "node_after n (nodes_of t s') = None"
    using node_after_ids [of "nodes_of t s'" pre n] ids_distinct [OF s'(2), of t] Nil.prems(3) by simp
  then show ?case
    using s' others_kept_trans [OF s'(1)] others_kept_end [OF s'(2)] others_kept_throw [OF s'(2)]
    by (auto simp: run_call_node simp del: run_job.simps)
next
  case (Cons m post)
  obtain s' fired' where s': "kept False (ic_type inc) s s'" "svc_ok s'"
      "call_node (run_job (Suc (Suc (length post + k))) h) h inc t n fired s = Thrown (leave_by_exception s') \<or>
       call_node (run_job (Suc (Suc (length post + k))) h) h inc t n fired s =
       (case node_after n (nodes_of t s') of
          None \<Rightarrow> Finished (end_of_loop t fired' s')
        | Some m \<Rightarrow> run_job (Suc (Suc (length post + k))) h (Call_node inc t m fired') s')"
    using call_node_tame [OF h(1) Cons.prems(1,2) t, of n "Suc (length post + k)" fired] Cons.prems(3) h(2) by auto
  have ids: "ids_of t s' = ids_of t s" by (rule kept_ids [OF s'(1) t])
  then have "node_after n (nodes_of t s') = Some m"
    using node_after_ids [of "nodes_of t s'" pre n] ids_distinct [OF s'(2), of t] Cons.prems(3) by simp
  moreover have "is_currentType s' = Type_of (ic_type inc)" using s'(1) Cons.prems(1) by (simp add: kept_def)
  then have "others_kept (ic_type inc) t s' (run_job (Suc (Suc (length post + k))) h (Call_node inc t m fired') s')"
    by (rule Cons.IH [OF _ s'(2), of "pre @ [n]"]) (simp add: ids Cons.prems(3))
  ultimately show ?case
    using s' others_kept_trans [OF s'(1)] others_kept_throw [OF s'(2)]
    by (auto simp: run_call_node [of "Suc (Suc (length post + k))"] simp del: run_job.simps)
qed

lemma fire_type_ends:
  assumes h: "tame_handlers h inc" "\<not> adds_listeners h inc" and t: "t \<in> {ic_type inc, ''ALL''}" and s: "svc_ok s"
    and k: "length (nodes_of t s) + 2 \<le> k"
  shows "others_kept (ic_type inc) t s (run_job k h (Fire_type inc t) s)"
proof (cases "is_listenerMap s t")
  case None
  then show ?thesis
    using k s by (cases k) (simp_all add: i_fireIncident_def Let_def note_failure_same others_kept_def reached_def nodes_of_note)
next
  case (Some c)
  then obtain n l post where post: "c = (n, l) # post" using s by (metis list.exhaust listeners_ok_def surj_pair svc_ok_def)
  then have nodes: "nodes_of t s = (n, l) # post" using Some by (simp add: nodes_of_def)
  obtain j where j: "k = Suc (Suc (Suc (length post + j)))" using k nodes le_Suc_ex [of "length (nodes_of t s) + 2" k] by auto
  let ?s = "(note_failure inc s)\<lparr>is_currentType := Type_of (ic_type inc)\<rparr>"
  have n: "nodes_of u ?s = nodes_of u s" for u by (simp add: nodes_of_def note_failure_same)
  have "others_kept (ic_type inc) t ?s (run_job (Suc (Suc (length (map fst post) + j))) h (Call_node inc t n False) ?s)"
    by (rule loop_ends [OF h t, where pre = "[]"]) (use s nodes n in simp_all)
  then have "others_kept (ic_type inc) t s (run_job (Suc (Suc (length post + j))) h (Call_node inc t n False) ?s)"
    using others_kept_cong [of ?s s] n by simp
  then show ?thesis using Some by (simp add: j i_fireIncident_def Let_def note_failure_same post del: run_job.simps) (simp add: i_fireIncident_def Let_def note_failure_same post)
qed

end
