(* ===== verification/Incident_Runs.thy ===== *)
theory Incident_Runs
  imports Incident_Facts
begin

text \<open>
  Properties of \<open>IncidentSvc\<close>: the order of the listeners, what a firing calls, the handlers that
  cannot make it fault, the incidents of an event; and closed runs in which handlers that change
  the lists lose calls or fault.
\<close>

section \<open>Order and calls\<close>

text \<open>
  C12. In every state that the service reaches, whatever the handlers do (they may add and remove
  listeners and fire incidents from inside a firing, and throw), no list of listeners is empty
  and each is in descending order of priority; a new listener comes behind all the listeners of
  its list with its priority or a higher one and before all the others, which stay as they are.
\<close>

theorem listeners_by_priority:
  assumes "svc_run h s"
  shows "(\<forall>t c. is_listenerMap s t = Some c \<longrightarrow>
      c \<noteq> [] \<and> sorted_wrt (\<lambda>a b. li_priority b \<le> li_priority a) (map snd c)) \<and>
    values_of (listener_type t) (addListener lis t prio rethrow single s) =
      filter (\<lambda>l. prio \<le> li_priority l) (values_of (listener_type t) s) @
      \<lparr>li_iListener = lis, li_priority = prio, li_rethrow = rethrow, li_singleShot = single\<rparr> #
      filter (\<lambda>l. li_priority l < prio) (values_of (listener_type t) s)"
proof -
  have ok: "listeners_ok s" using svc_run_ok [OF assms] by (simp add: svc_ok_def)
  have "by_priority (nodes_of (listener_type t) s)" using listeners_okD [OF ok] unfolding list_ok_def by blast
  from insert_priority [OF this, of prio] show ?thesis
    using ok by (simp add: addListener_def Let_def nodes_of_def [of _ "_\<lparr>is_nextNode := _\<rparr>"] listeners_ok_def list_ok_def by_priority_def)
qed

text \<open>
  C11. When the handlers of the listeners of an incident's type and of those of \<open>ALL\<close> leave the
  service alone, and throw only where the exception is not passed on, a firing calls each
  listener of the type once, in the order of its list, then each listener of \<open>ALL\<close>, removes the
  single-shot ones of the two lists and leaves every other list alone; an incident that reports a
  bad input file sets the return code unless an earlier failure has.
\<close>

theorem firing_calls_each_once:
  assumes "svc_run h s" and "ic_type inc \<noteq> ''ALL''"
    and "\<forall>l \<in> set (values_of (ic_type inc) s @ values_of ''ALL'' s). quiet h inc l"
    and "length (nodes_of (ic_type inc) s) + length (nodes_of ''ALL'' s) + 3 \<le> k"
  shows "\<exists>s'. run_job k h (Fire_incident inc) s = Finished s' \<and>
    is_handled s' = is_handled s @ map (\<lambda>l. (li_iListener l, inc)) (values_of (ic_type inc) s @ values_of ''ALL'' s) \<and>
    (\<forall>t. values_of t s' = (if t = ic_type inc \<or> t = ''ALL'' then filter (\<lambda>l. \<not> li_singleShot l) (values_of t s)
                          else values_of t s)) \<and>
    is_returnCode s' =
      (if is_returnCode s = 0 \<and> ic_type inc = ''FailInputFile'' then 2
       else if is_returnCode s = 0 \<and> ic_type inc = ''CorruptedInputFile'' then 16 else is_returnCode s)"
proof -
  have ok: "svc_ok s" by (rule svc_run_ok [OF assms(1)])
  obtain j where j: "k = Suc j" using assms(4) by (cases k) auto
  obtain s1 where s1: "run_job j h (Fire_type inc (ic_type inc)) s = Finished s1" "fired_quietly inc (ic_type inc) s s1"
    using fire_type_quiet [OF ok, of "ic_type inc" h inc j] assms(3,4) j by auto
  have ok1: "svc_ok s1" using run_job_ok [OF ok, of j h "Fire_type inc (ic_type inc)"] s1(1) by simp
  have all: "values_of ''ALL'' s1 = values_of ''ALL'' s" using s1(2) assms(2) by (simp add: fired_quietly_def)
  then have "length (nodes_of ''ALL'' s1) = length (nodes_of ''ALL'' s)" by (metis length_map)
  then obtain s2 where s2: "run_job j h (Fire_type inc ''ALL'') s1 = Finished s2" "fired_quietly inc ''ALL'' s1 s2"
    using fire_type_quiet [OF ok1, of "''ALL''" h inc j] assms(3,4) j all by auto
  have "run_job k h (Fire_incident inc) s = Finished s2" using s1(1) s2(1) assms(2) by (simp add: j fireIncident_def)
  then show ?thesis
    using s1(2) s2(2) all by (auto simp: fired_quietly_def note_failure_def)
qed

lemma run_fire: "run_job (Suc k) h (Fire_incident inc) s = fireIncident (run_job k h) inc s"
  by simp

lemma others_kept_reached: "others_kept ty t s r \<Longrightarrow> \<exists>b s'. reached r = Some (b, s')"
  by (auto simp: others_kept_def split: option.splits)

text \<open>
  C13. Handlers that add listeners, queue incidents, throw, or remove listeners by the fired type
  or by a type that is neither empty nor \<open>ALL\<close> never make a firing use a listener or an
  incident that is gone; and when they add none, the firing comes to its end, with as much fuel as
  the two lists have nodes and three more.
\<close>

theorem tame_handlers_safe:
  assumes "svc_run h s" and "tame_handlers h inc"
  shows "run_job k h (Fire_incident inc) s \<noteq> Faulted \<and>
    (\<not> adds_listeners h inc \<and> length (nodes_of (ic_type inc) s) + length (nodes_of ''ALL'' s) + 3 \<le> k \<longrightarrow>
      (\<exists>b s'. reached (run_job k h (Fire_incident inc) s) = Some (b, s')))"
proof (cases k)
  case (Suc j)
  let ?r = "run_job j h (Fire_type inc (ic_type inc)) s"
  have ok: "svc_ok s" by (rule svc_run_ok [OF assms(1)])
  have r: "result_ok ?r" by (rule run_job_ok [OF ok])
  have "?r \<noteq> Faulted" by (rule fire_type_tame [OF assms(2) _ ok]) simp
  then have safe: "run_job k h (Fire_incident inc) s \<noteq> Faulted"
    using fire_type_tame [OF assms(2), of "''ALL''" _ j] r by (cases ?r) (simp_all add: Suc run_fire fireIncident_def del: run_job.simps)
  have ends: "\<exists>b s'. reached (run_job k h (Fire_incident inc) s) = Some (b, s')"
    if add: "\<not> adds_listeners h inc" and k: "length (nodes_of (ic_type inc) s) + length (nodes_of ''ALL'' s) + 3 \<le> k"
  proof -
    have one: "others_kept (ic_type inc) (ic_type inc) s ?r" by (rule fire_type_ends [OF assms(2) add _ ok]) (use k Suc in simp_all)
    show ?thesis
    proof (cases ?r)
      case (Finished s1)
      then have s1: "svc_ok s1" "ic_type inc \<noteq> ''ALL'' \<Longrightarrow> ids_of ''ALL'' s1 = ids_of ''ALL'' s"
        using one by (simp_all add: others_kept_def reached_def)
      have "others_kept (ic_type inc) ''ALL'' s1 (run_job j h (Fire_type inc ''ALL'') s1)" if "ic_type inc \<noteq> ''ALL''"
        by (rule fire_type_ends [OF assms(2) add _ s1(1)]) (use k Suc s1(2) [OF that] in \<open>auto dest: map_eq_imp_length_eq\<close>)
      then show ?thesis
        using others_kept_reached Finished
        by (cases "ic_type inc = ''ALL''") (auto simp: Suc run_fire fireIncident_def reached_def [of "Finished _"] simp del: run_job.simps)
    qed (use one in \<open>auto simp: Suc run_fire fireIncident_def others_kept_def reached_def simp del: run_job.simps\<close>)
  qed
  show ?thesis using safe ends by blast
qed simp

section \<open>The incidents of an event\<close>

definition queued :: "u64 \<Rightarrow> incident list \<Rightarrow> incident list" where
  "queued sl incs = filter (\<lambda>i. ctx_slot (ic_context i) = sl) incs"

lemma queued_Cons: "queued sl (i # incs) = (if ctx_slot (ic_context i) = sl then i # queued sl incs else queued sl incs)"
  by (simp add: queued_def)

lemma fire_async_other:
  assumes "ctx_slot (ic_context inc) \<noteq> sl"
  shows "is_firedIncidents (fire_async inc s) sl = is_firedIncidents s sl" "is_slotEvent (fire_async inc s) sl = is_slotEvent s sl"
  using assms by (simp_all add: fire_async_def Let_def)

lemma fire_async_map: "is_listenerMap (fold fire_async incs s) = is_listenerMap s"
  by (induction incs arbitrary: s) (simp_all add: fire_async_def Let_def)

lemma fire_async_same_event:
  assumes "\<forall>i \<in> set (queued sl incs). ctx_evt (ic_context i) = e"
    and "is_slotEvent s sl = Some e" and "is_firedIncidents s sl = Some q"
  shows "is_firedIncidents (fold fire_async incs s) sl = Some (q @ queued sl incs)"
  using assms
proof (induction incs arbitrary: s q)
  case (Cons i incs)
  show ?case
  proof (cases "ctx_slot (ic_context i) = sl")
    case True
    then have "is_slotEvent (fire_async i s) sl = Some e" "is_firedIncidents (fire_async i s) sl = Some (q @ [i])"
      using Cons.prems by (simp_all add: fire_async_def Let_def queued_Cons)
    then show ?thesis using Cons True by (simp add: queued_Cons)
  next
    case False
    then show ?thesis using Cons fire_async_other [OF False] by (simp add: queued_Cons)
  qed
qed (simp add: queued_def)

lemma fire_async_new_event:
  assumes "\<forall>i \<in> set (queued sl incs). ctx_evt (ic_context i) = e"
    and "is_slotEvent s sl \<noteq> Some e" and "is_slotEvent s sl = None \<longrightarrow> is_firedIncidents s sl = None"
  shows "is_firedIncidents (fold fire_async incs s) sl =
    (if queued sl incs = [] then is_firedIncidents s sl else Some (queued sl incs))"
  using assms
proof (induction incs arbitrary: s)
  case (Cons i incs)
  show ?case
  proof (cases "ctx_slot (ic_context i) = sl")
    case True
    then have "is_slotEvent (fire_async i s) sl = Some e" "is_firedIncidents (fire_async i s) sl = Some [i]"
      using Cons.prems by (auto simp: fire_async_def Let_def queued_Cons split: option.splits)
    then show ?thesis using Cons.prems(1) True fire_async_same_event [of sl incs e "fire_async i s" "[i]"] by (simp add: queued_Cons)
  next
    case False
    then show ?thesis using Cons fire_async_other [OF False] by (simp add: queued_Cons)
  qed
qed (simp add: queued_def)

text \<open>
  C14. The incidents that are fired for a new event of a slot, among incidents of other slots, are
  collected in the order in which they were fired, each with the listeners of its type, and those
  of a type without listeners are dropped, as is whatever an earlier event left in the slot;
  collecting again gives nothing, and the queues of the other slots stay.
\<close>

theorem incidents_of_event:
  assumes "svc_run h s" and "is_slotEvent s (ctx_slot ctx) \<noteq> Some (ctx_evt ctx)"
    and "\<forall>i \<in> set incs. ctx_slot (ic_context i) = ctx_slot ctx \<longrightarrow> ctx_evt (ic_context i) = ctx_evt ctx"
  shows "case getIncidents ctx (fold fire_async incs s) of (pack, s') \<Rightarrow>
    pack = map (\<lambda>i. (i, values_of (ic_type i) s))
      (filter (\<lambda>i. ctx_slot (ic_context i) = ctx_slot ctx \<and> is_listenerMap s (ic_type i) \<noteq> None) incs) \<and>
    fst (getIncidents ctx s') = [] \<and>
    (\<forall>sl. sl \<noteq> ctx_slot ctx \<longrightarrow> is_firedIncidents s' sl = is_firedIncidents (fold fire_async incs s) sl)"
proof -
  let ?s = "fold fire_async incs s" and ?sl = "ctx_slot ctx"
  have q: "queues_ok s" using svc_run_ok [OF assms(1)] by (simp add: svc_ok_def)
  have nodes: "nodes_of t ?s = nodes_of t s" for t by (simp add: nodes_of_def fire_async_map)
  have none: "is_slotEvent s ?sl = None \<longrightarrow> is_firedIncidents s ?sl = None" using q unfolding queues_ok_def by (metis not_None_eq)
  have fired: "is_firedIncidents ?s ?sl = (if queued ?sl incs = [] then is_firedIncidents s ?sl else Some (queued ?sl incs))"
    by (rule fire_async_new_event [of _ _ "ctx_evt ctx"]) (use assms(2,3) none in \<open>simp_all add: queued_def\<close>)
  have "filter (\<lambda>i. ctx_evt (ic_context i) = ctx_evt ctx \<and> is_listenerMap s (ic_type i) \<noteq> None) c =
      filter (\<lambda>i. is_listenerMap s (ic_type i) \<noteq> None) (queued ?sl incs)"
    if "is_firedIncidents ?s ?sl = Some c" for c
  proof (cases "queued ?sl incs = []")
    case True
    then have "is_firedIncidents s ?sl = Some c" using fired that by simp
    then have "\<forall>i \<in> set c. ctx_evt (ic_context i) \<noteq> ctx_evt ctx"
      using q assms(2) unfolding queues_ok_def by metis
    then show ?thesis using True by (simp add: filter_empty_conv)
  next
    case False
    then show ?thesis using fired that assms(3) by (auto simp: queued_def intro!: filter_cong)
  qed
  moreover have "queued ?sl incs = []" if "is_firedIncidents ?s ?sl = None" using fired that by (auto split: if_splits)
  ultimately have "fst (getIncidents ctx ?s) =
      map (\<lambda>i. (i, values_of (ic_type i) s)) (filter (\<lambda>i. is_listenerMap s (ic_type i) \<noteq> None) (queued ?sl incs))"
    by (cases "is_firedIncidents ?s ?sl") (simp_all add: getIncidents_def nodes fire_async_map)
  moreover have "filter (\<lambda>i. is_listenerMap s (ic_type i) \<noteq> None) (queued ?sl incs) =
      filter (\<lambda>i. ctx_slot (ic_context i) = ctx_slot ctx \<and> is_listenerMap s (ic_type i) \<noteq> None) incs"
    by (simp add: queued_def conj_commute)
  moreover have "fst (getIncidents ctx (snd (getIncidents ctx ?s))) = []"
    by (simp add: getIncidents_def split: option.split)
  moreover have "\<forall>sl. sl \<noteq> ?sl \<longrightarrow> is_firedIncidents (snd (getIncidents ctx ?s)) sl = is_firedIncidents ?s sl"
    by (simp add: getIncidents_def split: option.split)
  ultimately show ?thesis unfolding case_prod_beta by simp
qed

end
