(* ===== verification/Incident_Demo.thy ===== *)
theory Incident_Demo
  imports Incident_Runs
begin

text \<open>
  Instances of the properties of \<open>IncidentSvc\<close>, and closed runs in which a handler that changes
  the lists loses a call, is called once too often, or makes the loop use a listener that is gone.
\<close>

definition demo_incident :: "string \<Rightarrow> incident" where
  "demo_incident t = \<lparr>ic_type = t, ic_context = ctx_default\<rparr>"

definition demo_context :: "u64 \<Rightarrow> u64 \<Rightarrow> event_context" where
  "demo_context e s = ctx_default\<lparr>ctx_evt := e, ctx_slot := s\<rparr>"

definition demo_listen :: "(listener_id \<times> string \<times> int) list \<Rightarrow> incident_svc" where
  "demo_listen ls = fold (\<lambda>(l, t, p). addListener l t p False False) ls new_incident_svc"

definition no_commands :: handlers where
  "no_commands l inc n = []"

definition handles :: "nat \<Rightarrow> handlers \<Rightarrow> string \<Rightarrow> incident_svc \<Rightarrow> listener_id list option" where
  "handles k h t s =
     (case reached (run_job k h (Fire_incident (demo_incident t)) s) of
        None \<Rightarrow> None | Some (b, s') \<Rightarrow> Some (map fst (is_handled s')))"

lemma svc_run_add: "svc_run h s \<Longrightarrow> svc_run h (addListener l t p rethrow single s)"
  using svc_run.called [of h s 1 "Add_listener l t p rethrow single" False] by (simp add: reached_def)

lemma svc_run_listen: "svc_run h (demo_listen ls)"
proof -
  have "svc_run h s \<Longrightarrow> svc_run h (fold (\<lambda>(l, t, p). addListener l t p False False) ls s)" for s
    by (induction ls arbitrary: s) (auto intro: svc_run_add)
  then show ?thesis using svc_run.created unfolding demo_listen_def by blast
qed

section \<open>Instances\<close>

lemma listeners_by_priority_witness:
  "map li_iListener (values_of ''X'' (addListener 9 ''X'' 5 False False (demo_listen [(1, ''X'', 0), (2, ''X'', 5), (3, ''X'', 7)]))) =
    [3, 2, 9, 1]"
proof -
  have "listener_type ''X'' = ''X''" by (simp add: listener_type_def)
  moreover have "values_of ''X'' (demo_listen [(1, ''X'', 0), (2, ''X'', 5), (3, ''X'', 7)]) =
      [\<lparr>li_iListener = 3, li_priority = 7, li_rethrow = False, li_singleShot = False\<rparr>,
       \<lparr>li_iListener = 2, li_priority = 5, li_rethrow = False, li_singleShot = False\<rparr>,
       \<lparr>li_iListener = 1, li_priority = 0, li_rethrow = False, li_singleShot = False\<rparr>]"
    by code_simp
  ultimately show ?thesis
    using listeners_by_priority [OF svc_run_listen, of "[(1, ''X'', 0), (2, ''X'', 5), (3, ''X'', 7)]" "''X''" 9 5 False False]
    by simp
qed

lemma firing_calls_each_once_witness:
  "\<exists>s'. run_job 6 no_commands (Fire_incident (demo_incident ''X'')) (demo_listen [(1, ''ALL'', 0), (2, ''X'', 5), (3, ''X'', 7)]) = Finished s' \<and>
    map fst (is_handled s') = [3, 2, 1]"
proof -
  let ?s = "demo_listen [(1, ''ALL'', 0), (2, ''X'', 5), (3, ''X'', 7)]"
  have v: "map li_iListener (values_of ''X'' ?s) = [3, 2]" "map li_iListener (values_of ''ALL'' ?s) = [1]" "is_handled ?s = []"
    by code_simp+
  have k: "length (nodes_of ''X'' ?s) + length (nodes_of ''ALL'' ?s) + 3 \<le> 6" by code_simp
  have t: "ic_type (demo_incident ''X'') = ''X''" by (simp add: demo_incident_def)
  show ?thesis
    using firing_calls_each_once [of no_commands ?s "demo_incident ''X''" 6, OF svc_run_listen] v k
    by (auto simp: t quiet_def no_commands_def o_def)
qed

definition remove_self :: "string \<Rightarrow> handlers" where
  "remove_self t l inc n = [Remove_listener (Some l) t]"

lemma tame_handlers_safe_witness:
  "run_job 6 (remove_self ''X'') (Fire_incident (demo_incident ''X'')) (demo_listen [(1, ''ALL'', 0), (2, ''X'', 5), (3, ''X'', 7)]) \<noteq> Faulted \<and>
    (\<exists>b s'. reached (run_job 6 (remove_self ''X'') (Fire_incident (demo_incident ''X''))
      (demo_listen [(1, ''ALL'', 0), (2, ''X'', 5), (3, ''X'', 7)])) = Some (b, s'))"
proof -
  let ?s = "demo_listen [(1, ''ALL'', 0), (2, ''X'', 5), (3, ''X'', 7)]"
  have t: "ic_type (demo_incident ''X'') = ''X''" by (simp add: demo_incident_def)
  have h: "tame_handlers (remove_self ''X'') (demo_incident ''X'')" "\<not> adds_listeners (remove_self ''X'') (demo_incident ''X'')"
    by (simp_all add: tame_handlers_def adds_listeners_def remove_self_def t)
  have k: "length (nodes_of ''X'' ?s) + length (nodes_of ''ALL'' ?s) + 3 \<le> 6" by code_simp
  show ?thesis using tame_handlers_safe [OF svc_run_listen h(1), of 6 "[(1, ''ALL'', 0), (2, ''X'', 5), (3, ''X'', 7)]"] h(2) k by (simp add: t)
qed

lemma incidents_of_event_witness:
  "map (\<lambda>(i, ls). (ic_type i, map li_iListener ls)) (fst (getIncidents (demo_context 7 1)
     (fold fire_async [\<lparr>ic_type = ''X'', ic_context = demo_context 7 1\<rparr>, \<lparr>ic_type = ''X'', ic_context = demo_context 8 2\<rparr>,
        \<lparr>ic_type = ''Y'', ic_context = demo_context 7 1\<rparr>] (demo_listen [(2, ''X'', 5), (3, ''X'', 7)])))) = [(''X'', [3, 2])]"
proof -
  let ?s = "demo_listen [(2, ''X'', 5), (3, ''X'', 7)]"
  let ?is = "[\<lparr>ic_type = ''X'', ic_context = demo_context 7 1\<rparr>, \<lparr>ic_type = ''X'', ic_context = demo_context 8 2\<rparr>,
        \<lparr>ic_type = ''Y'', ic_context = demo_context 7 1\<rparr>]"
  have v: "map li_iListener (values_of ''X'' ?s) = [3, 2]" "is_listenerMap ?s ''X'' \<noteq> None" "is_listenerMap ?s ''Y'' = None"
    "is_slotEvent ?s 1 = None" by code_simp+
  have c: "ctx_slot (demo_context e s) = s" "ctx_evt (demo_context e s) = e" for e s by (simp_all add: demo_context_def)
  have "is_slotEvent ?s (ctx_slot (demo_context 7 1)) \<noteq> Some (ctx_evt (demo_context 7 1))" by (simp add: c v)
  moreover have "\<forall>i \<in> set ?is. ctx_slot (ic_context i) = ctx_slot (demo_context 7 1) \<longrightarrow>
      ctx_evt (ic_context i) = ctx_evt (demo_context 7 1)" by (simp add: c)
  ultimately show ?thesis
    using incidents_of_event [OF svc_run_listen [of no_commands "[(2, ''X'', 5), (3, ''X'', 7)]"], of "demo_context 7 1" ?is] v
    by (simp add: c case_prod_beta o_def)
qed

section \<open>Handlers that the loop does not survive\<close>

text \<open>
  A listener of \<open>ALL\<close> that removes itself from \<open>ALL\<close>, or with the default type \<open>""\<close>, inside its
  handler: \<open>m_currentIncidentType\<close> names the type of the incident, so its removal is immediate. The
  values behind it move up, so the next listener is skipped; at the end of the list the loop reads
  a node that is gone.
\<close>

definition once :: "listener_id \<Rightarrow> command list \<Rightarrow> handlers" where
  "once x cs l inc n = (if l = x then cs else [])"

definition faulted :: "handled \<Rightarrow> bool" where
  "faulted r = (case r of Faulted \<Rightarrow> True | _ \<Rightarrow> False)"

lemma removal_from_all_skips:
  "handles 7 (once 1 [Remove_listener (Some 1) ''ALL'']) ''X'' (demo_listen [(1, ''ALL'', 0), (2, ''ALL'', 0), (3, ''ALL'', 0)]) = Some [1, 3] \<and>
   handles 7 (once 1 [Remove_listener (Some 1) '''']) ''X'' (demo_listen [(1, ''ALL'', 0), (2, ''ALL'', 0), (3, ''ALL'', 0)]) = Some [1, 3]"
  by code_simp

lemma removal_from_all_faults:
  "faulted (run_job 7 (once 2 [Remove_listener (Some 2) ''ALL'']) (Fire_incident (demo_incident ''X'')) (demo_listen [(1, ''ALL'', 0), (2, ''ALL'', 0)]))"
  by code_simp

text \<open>
  A handler that fires an incident of another type before it removes itself: the inner firing
  resets \<open>m_currentIncidentType\<close>, so that the removal is immediate although the loop over the
  list is still on; without the inner firing the removal waits.
\<close>

lemma nested_firing_unprotects:
  "faulted (run_job 9 (once 1 [Fire (demo_incident ''Y''), Remove_listener (Some 1) ''X'']) (Fire_incident (demo_incident ''X''))
     (demo_listen [(1, ''X'', 0), (2, ''Y'', 0)])) \<and>
   handles 7 (once 1 [Remove_listener (Some 1) ''X'']) ''X'' (demo_listen [(1, ''X'', 0), (2, ''Y'', 0)]) = Some [1]"
  by code_simp

text \<open>
  A removal that waits is carried out only when the loop notes a single-shot listener after the
  removal: a listener that was passed before is called in the next firing once more.
\<close>

lemma removed_but_called_again:
  "(case run_job 7 (once 2 [Remove_listener (Some 1) ''X'']) (Fire_incident (demo_incident ''X'')) (demo_listen [(1, ''X'', 1), (2, ''X'', 0)]) of
      Finished s \<Rightarrow> map fst (is_handled s) = [1, 2] \<and> getListeners ''X'' s = [1, 2] \<and>
        handles 7 no_commands ''X'' s = Some [1, 2, 1, 2]
    | _ \<Rightarrow> False)"
  by code_simp

text \<open>
  A single-shot listener that is added in front of the one that is called never gets its shot: it
  is removed with those that did.
\<close>

lemma single_shot_lost:
  "(case run_job 7 (once 1 [Add_listener 9 ''X'' 5 False True]) (Fire_incident (demo_incident ''X''))
       (addListener 1 ''X'' 0 False True new_incident_svc) of
      Finished s \<Rightarrow> map fst (is_handled s) = [1] \<and> getListeners ''X'' s = []
    | _ \<Rightarrow> False)"
  by code_simp

text \<open>
  An exception that is passed on leaves \<open>m_currentIncidentType\<close> pointing into the incident of the
  caller; the next removal reads it.
\<close>

lemma rethrow_leaves_pointer:
  "(case run_job 7 (once 1 [Throw]) (Fire_incident (demo_incident ''X'')) (addListener 1 ''X'' 0 True False new_incident_svc) of
      Thrown s \<Rightarrow> is_currentType s = Dangling \<and> Option.is_none (removeListener (Some 1) ''X'' s)
    | _ \<Rightarrow> False)"
  by code_simp

section \<open>Incidents of an event\<close>

text \<open>
  The listeners of \<open>ALL\<close> get no asynchronous incident, and the single-shot ones of its type get
  every one.
\<close>

lemma async_differs:
  "(let s = addListener 2 ''X'' 0 False True (addListener 1 ''ALL'' 0 False False new_incident_svc);
        i = \<lparr>ic_type = ''X'', ic_context = demo_context 7 1\<rparr>
    in case proc_execute 5 no_commands (demo_context 7 1) (fire_async i (fire_async i s)) of
         Finished s' \<Rightarrow> map fst (is_handled s') = [2, 2] \<and> getListeners ''X'' s' = [2]
       | _ \<Rightarrow> False)"
  by code_simp

text \<open>
  \<open>getIncidents\<close> compares the event of each incident, which its comment calls unnecessary: an
  incident that its event did not collect is still queued when the slot's next event asks.
\<close>

lemma stale_incident_dropped:
  "(let s = fire_async \<lparr>ic_type = ''X'', ic_context = demo_context 7 1\<rparr> (demo_listen [(1, ''X'', 0)])
    in is_firedIncidents s 1 = Some [\<lparr>ic_type = ''X'', ic_context = demo_context 7 1\<rparr>] \<and>
       fst (getIncidents (demo_context 8 1) s) = [] \<and>
       fst (getIncidents (demo_context 7 1) (snd (getIncidents (demo_context 8 1) s))) = [])"
  by code_simp

text \<open>An incident that a handler queues is called by the same \<open>execute\<close>, in the next pack.\<close>

lemma queued_in_handler_is_called:
  "(case proc_execute 6 (once 1 [Fire_async \<lparr>ic_type = ''Y'', ic_context = demo_context 7 1\<rparr>]) (demo_context 7 1)
       (fire_async \<lparr>ic_type = ''X'', ic_context = demo_context 7 1\<rparr> (demo_listen [(1, ''X'', 0), (2, ''Y'', 0)])) of
      Finished s \<Rightarrow> map fst (is_handled s) = [1, 2]
    | _ \<Rightarrow> False)"
  by code_simp

end
