(* ===== verification/Sequencers.thy ===== *)
theory Sequencers
  imports Exec_State_Svc
begin

text \<open>
  The serial processing of an event: \<open>GaudiSequencer\<close> and \<open>Sequencer\<close> (GaudiAlg/src/lib), which
  execute their members in order, inside \<open>Algorithm::sysExecute\<close>, and the execution of one event by
  \<open>MinimalEventLoopMgr\<close> (GaudiKernel/src/Lib). Timers, contexts and messages are left out.
\<close>

section \<open>Algorithms\<close>

text \<open>
  What the body of an algorithm does in an event: its outcome, the objects it registers in the
  event store, and whether it fires \<open>AbortEvent\<close>.
\<close>

record alg_action =
  act_body :: alg_body
  act_objects :: "string list"
  act_abort :: bool

type_synonym bodies = "string \<Rightarrow> string list \<Rightarrow> alg_action"

record alg_props =
  al_type :: string
  al_name :: string
  al_config :: alg_config
  al_vetoObjs :: "string list"
  al_requireObjs :: "string list"

record seq_props =
  sq_modeOR :: bool
  sq_ignoreFilter :: bool
  sq_returnOK :: bool
  sq_shortCircuit :: bool
  sq_invert :: bool

text \<open>
  The members of a sequence with their inversion. A \<open>Sequencer\<close> has the property \<open>StopOverride\<close>, its
  members and those of its branch.
\<close>

datatype alg =
    Algorithm alg_props
  | Gaudi_sequencer alg_props seq_props "(alg \<times> bool) list"
  | Sequencer alg_props bool "(alg \<times> bool) list" "(alg \<times> bool) list"

fun props_of :: "alg \<Rightarrow> alg_props" where
  "props_of (Algorithm p) = p"
| "props_of (Gaudi_sequencer p q es) = p"
| "props_of (Sequencer p stop ms bs) = p"

abbreviation alg_name :: "alg \<Rightarrow> string" where
  "alg_name a \<equiv> al_name (props_of a)"

definition isEnabled :: "alg \<Rightarrow> bool" where
  "isEnabled a = ac_isEnabled (al_config (props_of a))"

section \<open>The state of an event\<close>

text \<open>\<open>se_ran\<close> records the bodies that ran, in order.\<close>

record serial =
  se_svc :: exec_svc
  se_objects :: "string list"
  se_ran :: "string list"
  se_abortEvent :: bool
  se_branchFilterPassed :: "string \<times> u64 \<Rightarrow> bool"
  se_returnCode :: int

text \<open>What the algorithms of an application share.\<close>

record serial_config =
  sc_execs :: exec_config
  sc_exceptions :: exception_svc
  sc_bodies :: bodies

text \<open>\<open>execState(ctx)\<close>, written and read; None when it throws.\<close>

definition upd_state :: "serial_config \<Rightarrow> string \<Rightarrow> event_context \<Rightarrow> (alg_exec \<Rightarrow> alg_exec) \<Rightarrow> serial \<Rightarrow> serial option" where
  "upd_state cfg n ctx f st =
     (case upd_algExecState (sc_execs cfg) n ctx f (se_svc st) of Inl e \<Rightarrow> None | Inr s \<Rightarrow> Some (st\<lparr>se_svc := s\<rparr>))"

definition get_state :: "serial_config \<Rightarrow> string \<Rightarrow> event_context \<Rightarrow> serial \<Rightarrow> (alg_exec \<times> serial) option" where
  "get_state cfg n ctx st =
     (case upd_state cfg n ctx (\<lambda>a. a) st of
        None \<Rightarrow> None
      | Some st \<Rightarrow> (case algExecState_const n ctx (se_svc st) of Inl e \<Rightarrow> None | Inr a \<Rightarrow> Some (a, st)))"

section \<open>sysExecute\<close>

text \<open>
  \<open>Algorithm::sysExecute\<close> around any \<open>execute\<close>, first what follows it; the status is None when an
  exception leaves \<open>sysExecute\<close>.
\<close>

definition after_execute :: "serial_config \<Rightarrow> alg_props \<Rightarrow> event_context \<Rightarrow> alg_outcome \<Rightarrow> serial \<Rightarrow> alg_status option \<times> serial" where
  "after_execute cfg p ctx out st =
     (case (if out = Returns (Filter_decision False)
            then upd_state cfg (al_name p) ctx (\<lambda>a. a\<lparr>ae_filterPassed := False\<rparr>) st else Some st) of
        None \<Rightarrow> (None, st)
      | Some st \<Rightarrow>
          (case outcome_status (sc_exceptions cfg) (al_name p) out of
             None \<Rightarrow> (None, st)
           | Some status \<Rightarrow>
               (let (status, s) = count_error (al_config p) (al_name p) status (se_svc st);
                    st = st\<lparr>se_svc := s\<rparr>
                in case upd_state cfg (al_name p) ctx (\<lambda>a. a\<lparr>ae_state := RS_Done, ae_execStatus := status\<rparr>) st of
                     None \<Rightarrow> (None, st)
                   | Some st \<Rightarrow> (Some status, st))))"

definition sys_execute ::
  "serial_config \<Rightarrow> alg_props \<Rightarrow> event_context \<Rightarrow> (serial \<Rightarrow> alg_outcome \<times> serial) \<Rightarrow> serial \<Rightarrow> alg_status option \<times> serial"
where
  "sys_execute cfg p ctx execute st =
     (if \<not> ac_isEnabled (al_config p) then (Some (Gaudi_code SUCCESS), st)
      else
        (case upd_state cfg (al_name p) ctx (\<lambda>a. a\<lparr>ae_state := RS_Executing\<rparr>) st of
           None \<Rightarrow> (None, st)
         | Some st \<Rightarrow> (case execute st of (out, st) \<Rightarrow> after_execute cfg p ctx out st)))"

text \<open>\<open>GaudiAlgorithm\<close> and \<open>GaudiSequencer\<close> look at the event store before.\<close>

definition may_execute :: "alg_props \<Rightarrow> serial \<Rightarrow> bool" where
  "may_execute p st \<longleftrightarrow>
     \<not> list_ex (\<lambda>loc. loc \<in> set (se_objects st)) (al_vetoObjs p) \<and>
     (al_requireObjs p = [] \<or> list_ex (\<lambda>loc. loc \<in> set (se_objects st)) (al_requireObjs p))"

definition guarded :: "alg_props \<Rightarrow> (serial \<Rightarrow> alg_status option \<times> serial) \<Rightarrow> serial \<Rightarrow> alg_status option \<times> serial" where
  "guarded p sys st = (if may_execute p st then sys st else (Some (Gaudi_code SUCCESS), st))"

text \<open>
  The body of an algorithm that is no sequence, which is user code: what it does is \<open>sc_bodies\<close>,
  given its name and what the store holds.
\<close>

definition run_body :: "serial_config \<Rightarrow> string \<Rightarrow> event_context \<Rightarrow> serial \<Rightarrow> alg_outcome \<times> serial" where
  "run_body cfg n ctx st =
     (let a = sc_bodies cfg n (se_objects st);
          st = st\<lparr>se_ran := se_ran st @ [n], se_objects := se_objects st @ act_objects a,
                  se_abortEvent := (se_abortEvent st \<or> act_abort a)\<rparr>
      in case ab_setFilterPassed (act_body a) of
           None \<Rightarrow> (ab_outcome (act_body a), st)
         | Some b \<Rightarrow>
             (case upd_state cfg n ctx (\<lambda>s. s\<lparr>ae_filterPassed := b\<rparr>) st of
                None \<Rightarrow> (Throws, st)
              | Some st \<Rightarrow> (ab_outcome (act_body a), st)))"

section \<open>Sequences\<close>

text \<open>How the loop over the members ended: by an exception, or with \<open>seqPass\<close> and \<open>result\<close>.\<close>

datatype seq_end = Seq_thrown | Seq_ended bool alg_status

text \<open>\<open>GaudiSequencer::execute\<close> after its loop.\<close>

definition gs_finish :: "serial_config \<Rightarrow> alg_props \<Rightarrow> seq_props \<Rightarrow> bool \<Rightarrow> event_context \<Rightarrow> seq_end \<times> serial \<Rightarrow> alg_outcome \<times> serial" where
  "gs_finish cfg p q has_entries ctx r =
     (case r of
        (Seq_thrown, st) \<Rightarrow> (Throws, st)
      | (Seq_ended seqPass result, st) \<Rightarrow>
          (case upd_state cfg (al_name p) ctx
                  (\<lambda>a. a\<lparr>ae_filterPassed := (if \<not> sq_ignoreFilter q \<and> has_entries
                                            then (if sq_invert q then \<not> seqPass else seqPass) else ae_filterPassed a),
                         ae_state := RS_Done\<rparr>) st of
             None \<Rightarrow> (Throws, st)
           | Some st \<Rightarrow> (Returns (if sq_returnOK q then Gaudi_code SUCCESS else result), st)))"

text \<open>\<open>Sequencer::execute\<close> on a list of members: how it ended and \<open>lastAlgorithm\<close>.\<close>

type_synonym members_end = "alg_status option \<times> string option \<times> serial"

definition set_branch :: "string \<Rightarrow> event_context \<Rightarrow> bool \<Rightarrow> serial \<Rightarrow> serial" where
  "set_branch n ctx b st = st\<lparr>se_branchFilterPassed := (se_branchFilterPassed st)((n, ctx_slot ctx) := b)\<rparr>"

definition sq_done :: "serial_config \<Rightarrow> alg_props \<Rightarrow> event_context \<Rightarrow> alg_status option \<times> serial \<Rightarrow> alg_outcome \<times> serial" where
  "sq_done cfg p ctx r =
     (case r of
        (None, st) \<Rightarrow> (Throws, st)
      | (Some result, st) \<Rightarrow>
          (case upd_state cfg (al_name p) ctx (\<lambda>a. a\<lparr>ae_state := RS_Done\<rparr>) st of
             None \<Rightarrow> (Throws, st)
           | Some st \<Rightarrow> (Returns result, st)))"

text \<open>
  \<open>Sequencer::execute\<close>: the members, then the branch when the filter that failed heads it. The
  comparison of \<open>lastAlgorithm\<close> is by name, which is unique in an application.
\<close>

definition sq_execute ::
  "serial_config \<Rightarrow> alg_props \<Rightarrow> bool \<Rightarrow> string list \<Rightarrow> (serial \<Rightarrow> members_end) \<Rightarrow> (serial \<Rightarrow> members_end) \<Rightarrow> event_context \<Rightarrow> serial \<Rightarrow>
   alg_outcome \<times> serial"
where
  "sq_execute cfg p stop branch run_members run_branch ctx st =
     (case get_state cfg (al_name p) ctx st of
        None \<Rightarrow> (Throws, st)
      | Some (own, st) \<Rightarrow>
          if ae_state own = RS_Done then (Returns (Gaudi_code SUCCESS), st)
          else
            (case run_members (set_branch (al_name p) ctx False st) of
               (None, last_alg, st) \<Rightarrow> (Throws, st)
             | (Some result, last_alg, st) \<Rightarrow>
                 if \<not> status_success result then sq_done cfg p ctx (Some result, st)
                 else
                   (case get_state cfg (al_name p) ctx st of
                      None \<Rightarrow> (Throws, st)
                    | Some (own, st) \<Rightarrow>
                        if \<not> ae_filterPassed own \<and> \<not> stop \<and> branch \<noteq> [] \<and> last_alg = Some (hd branch)
                        then
                          (case run_branch (set_branch (al_name p) ctx False st) of
                             (None, _, st) \<Rightarrow> (Throws, st)
                           | (Some result, _, st) \<Rightarrow>
                               if \<not> status_success result then sq_done cfg p ctx (Some result, st)
                               else
                                 (case get_state cfg (al_name p) ctx st of
                                    None \<Rightarrow> (Throws, st)
                                  | Some (own, st) \<Rightarrow>
                                      sq_done cfg p ctx (Some result, set_branch (al_name p) ctx (ae_filterPassed own) st)))
                        else sq_done cfg p ctx (Some result, st))))"

text \<open>
  The loops over the members see of a member its properties, its \<open>sysExecute\<close> (a virtual function) and
  whether its result is inverted.
\<close>

type_synonym member = "alg_props \<times> (serial \<Rightarrow> alg_status option \<times> serial) \<times> bool"

text \<open>The loop of \<open>GaudiSequencer::execute\<close>.\<close>

fun run_entries :: "serial_config \<Rightarrow> event_context \<Rightarrow> seq_props \<Rightarrow> member list \<Rightarrow> bool \<Rightarrow> alg_status \<Rightarrow> serial \<Rightarrow> seq_end \<times> serial" where
  "run_entries cfg ctx q [] seqPass result st = (Seq_ended seqPass result, st)"
| "run_entries cfg ctx q ((p, sysExecute_of, reverse) # es) seqPass result st =
     (if \<not> ac_isEnabled (al_config p) then run_entries cfg ctx q es seqPass result st
      else
        (case get_state cfg (al_name p) ctx st of
           None \<Rightarrow> (Seq_thrown, st)
         | Some (s, st) \<Rightarrow>
             (case (if ae_state s \<noteq> RS_Done then sysExecute_of st else (Some result, st)) of
                (None, st) \<Rightarrow> (Seq_thrown, st)
              | (Some result, st) \<Rightarrow>
                  if \<not> status_success result then (Seq_ended seqPass result, st)
                  else if sq_ignoreFilter q then run_entries cfg ctx q es seqPass result st
                  else
                    (case get_state cfg (al_name p) ctx st of
                       None \<Rightarrow> (Seq_thrown, st)
                     | Some (s, st) \<Rightarrow>
                         let passed = (if reverse then \<not> ae_filterPassed s else ae_filterPassed s)
                         in if (if sq_modeOR q then passed else \<not> passed)
                            then (if sq_shortCircuit q then (Seq_ended passed result, st)
                                  else run_entries cfg ctx q es passed result st)
                            else run_entries cfg ctx q es seqPass result st))))"

text \<open>The loop of \<open>Sequencer::execute\<close>, with \<open>executeMember\<close>; \<open>n\<close> is the sequencer's own name.\<close>

definition executeMember :: "serial_config \<Rightarrow> event_context \<Rightarrow> member \<Rightarrow> serial \<Rightarrow> alg_status option \<times> serial" where
  "executeMember cfg ctx m st =
     (case m of
        (p, sysExecute_of, _) \<Rightarrow>
          if ac_isEnabled (al_config p)
          then (case get_state cfg (al_name p) ctx st of
                  None \<Rightarrow> (None, st)
                | Some (s, st) \<Rightarrow> if ae_state s \<noteq> RS_Done then sysExecute_of st else (Some (Gaudi_code SUCCESS), st))
          else (Some (Gaudi_code SUCCESS), st))"

fun run_members ::
  "serial_config \<Rightarrow> event_context \<Rightarrow> string \<Rightarrow> bool \<Rightarrow> member list \<Rightarrow> alg_status \<Rightarrow> string option \<Rightarrow> serial \<Rightarrow> members_end"
where
  "run_members cfg ctx n stop [] result last_alg st = (Some result, last_alg, st)"
| "run_members cfg ctx n stop ((p, sysExecute_of, inverted) # ms) result last_alg st =
     (case executeMember cfg ctx (p, sysExecute_of, inverted) st of
        (None, st) \<Rightarrow> (None, Some (al_name p), st)
      | (Some result, st) \<Rightarrow>
          if \<not> status_success result then (Some result, Some (al_name p), st)
          else
            (case get_state cfg (al_name p) ctx st of
               None \<Rightarrow> (None, Some (al_name p), st)
             | Some (s, st) \<Rightarrow>
                 let passed = (if inverted then \<not> ae_filterPassed s else ae_filterPassed s)
                 in case upd_state cfg n ctx (\<lambda>a. a\<lparr>ae_filterPassed := passed\<rparr>) st of
                      None \<Rightarrow> (None, Some (al_name p), st)
                    | Some st \<Rightarrow>
                        if \<not> stop \<and> \<not> passed then (Some result, Some (al_name p), st)
                        else run_members cfg ctx n stop ms result (Some (al_name p)) st))"

text \<open>\<open>sysExecute\<close> of any algorithm.\<close>

lemma alg_size [termination_simp]: "(a, r) \<in> set es \<Longrightarrow> size a < Suc (size_list (size_prod size f) es + n)"
  by (induction es) auto

fun run_alg :: "serial_config \<Rightarrow> event_context \<Rightarrow> alg \<Rightarrow> serial \<Rightarrow> alg_status option \<times> serial" where
  "run_alg cfg ctx (Algorithm p) = guarded p (sys_execute cfg p ctx (run_body cfg (al_name p) ctx))"
| "run_alg cfg ctx (Gaudi_sequencer p q es) =
     (let ms = map (\<lambda>(a, reverse). (props_of a, run_alg cfg ctx a, reverse)) es
      in guarded p (sys_execute cfg p ctx
           (\<lambda>st. gs_finish cfg p q (es \<noteq> []) ctx (run_entries cfg ctx q ms (\<not> sq_modeOR q) (Gaudi_code SUCCESS) st))))"
| "run_alg cfg ctx (Sequencer p stop ms bs) =
     (let ms = map (\<lambda>(a, inverted). (props_of a, run_alg cfg ctx a, inverted)) ms;
          bs = map (\<lambda>(a, inverted). (props_of a, run_alg cfg ctx a, inverted)) bs
      in sys_execute cfg p ctx
           (sq_execute cfg p stop (map (al_name \<circ> fst) bs) (run_members cfg ctx (al_name p) stop ms (Gaudi_code SUCCESS) None)
              (run_members cfg ctx (al_name p) stop (tl bs) (Gaudi_code SUCCESS) None) ctx))"

section \<open>One event\<close>

text \<open>\<open>MinimalEventLoopMgr::executeEvent\<close>: the top algorithms, with the exceptions they let out.\<close>

fun run_tops :: "serial_config \<Rightarrow> event_context \<Rightarrow> alg list \<Rightarrow> bool \<Rightarrow> serial \<Rightarrow> bool \<times> serial" where
  "run_tops cfg ctx [] eventfailed st = (eventfailed, st)"
| "run_tops cfg ctx (a # as) eventfailed st =
     (if se_abortEvent st then (eventfailed, st\<lparr>se_abortEvent := False\<rparr>)
      else
        (case run_alg cfg ctx a st of
           (None, st) \<Rightarrow> run_tops cfg ctx as True (if se_returnCode st = 0 then st\<lparr>se_returnCode := 6\<rparr> else st)
         | (Some sc, st) \<Rightarrow> run_tops cfg ctx as (eventfailed \<or> \<not> status_success sc) st))"

text \<open>The output streams; None when an exception leaves \<open>executeEvent\<close>.\<close>

fun run_streams :: "serial_config \<Rightarrow> event_context \<Rightarrow> alg list \<Rightarrow> bool \<Rightarrow> serial \<Rightarrow> bool option \<times> serial" where
  "run_streams cfg ctx [] eventfailed st = (Some eventfailed, st)"
| "run_streams cfg ctx (a # as) eventfailed st =
     (case upd_state cfg (alg_name a) ctx (\<lambda>s. s\<lparr>ae_filterPassed := True\<rparr>) st of
        None \<Rightarrow> (None, st)
      | Some st \<Rightarrow>
          (case run_alg cfg ctx a st of
             (None, st) \<Rightarrow> (None, st)
           | (Some sc, st) \<Rightarrow> run_streams cfg ctx as (eventfailed \<or> \<not> status_success sc) st))"

text \<open>
  All of it; \<open>se_objects\<close> is what the store holds that is selected for the event, and an exception that
  the service of execution states throws leaves it.
\<close>

definition executeEvent_serial :: "serial_config \<Rightarrow> alg list \<Rightarrow> alg list \<Rightarrow> event_context \<Rightarrow> serial \<Rightarrow> error_code option \<times> serial" where
  "executeEvent_serial cfg tops streams ctx st =
     (case xs_reset (sc_execs cfg) ctx (se_svc st) of
        Inl e \<Rightarrow> (None, st)
      | Inr s \<Rightarrow>
          (case run_tops cfg ctx tops False (st\<lparr>se_svc := s\<rparr>) of
             (eventfailed, st) \<Rightarrow>
               (case updateEventStatus (sc_execs cfg) eventfailed ctx (se_svc st) of
                  Inl e \<Rightarrow> (None, st)
                | Inr s \<Rightarrow>
                    (case run_streams cfg ctx streams eventfailed (st\<lparr>se_svc := s, se_abortEvent := False\<rparr>) of
                       (None, st) \<Rightarrow> (None, st)
                     | (Some eventfailed, st) \<Rightarrow> (Some (if eventfailed then FAILURE else SUCCESS), st)))))"

section \<open>toControlFlowExpression\<close>

definition quoted :: "string \<Rightarrow> string" where
  "quoted n = CHR 0x27 # n @ [CHR 0x27]"

fun join_with :: "string \<Rightarrow> string list \<Rightarrow> string" where
  "join_with op [] = []"
| "join_with op [x] = x"
| "join_with op (x # y # xs) = x @ op @ join_with op (y # xs)"

fun toControlFlowExpression :: "alg \<Rightarrow> string" where
  "toControlFlowExpression (Algorithm p) = al_type p @ ''('' @ quoted (al_name p) @ '')''"
| "toControlFlowExpression (Gaudi_sequencer p q es) =
     (if sq_invert q then ''~'' else []) @
     (if es = [] then (if \<not> sq_modeOR q then ''CFTrue'' else ''CFFalse'')
      else (if length es > 1 then ''seq('' else []) @
           join_with (if sq_modeOR q then '' | '' else '' & '')
             (map (\<lambda>(a, reverse). (if reverse then ''~'' else []) @ toControlFlowExpression a) es) @
           (if length es > 1 then '')'' else []))"
| "toControlFlowExpression (Sequencer p stop ms bs) =
     (if ms = [] then ''CFTrue''
      else ''seq('' @
           join_with (if stop then '' >> '' else '' & '')
             (map (\<lambda>(a, inverted). (if inverted then ''~'' else []) @ toControlFlowExpression a) ms) @ '')'')"

end
