(* ===== verification/Sequencer_Facts.thy ===== *)
theory Sequencer_Facts
  imports Sequencers
begin

text \<open>
  The execution states under serial processing: reading and writing them, each body run at most
  once in an event, and the decisions of sequences as formulas over those of their members.
\<close>

section \<open>Execution states\<close>

definition state_at :: "event_context \<Rightarrow> exec_svc \<Rightarrow> string \<Rightarrow> alg_exec" where
  "state_at ctx s n =
     (if usesSubSlot ctx
      then (if slot_index ctx < length (xs_algSubSlotStates s) \<and> sub_index ctx < length (xs_algSubSlotStates s ! slot_index ctx)
            then (case (xs_algSubSlotStates s ! slot_index ctx ! sub_index ctx) n of Some b \<Rightarrow> b | None \<Rightarrow> new_alg_exec)
            else new_alg_exec)
      else the ((xs_algStates s ! slot_index ctx) n))"

definition served :: "event_context \<Rightarrow> string set \<Rightarrow> exec_svc \<Rightarrow> bool" where
  "served ctx N s \<longleftrightarrow> xs_isInit s \<and> slot_index ctx < length (xs_algStates s) \<and> slot_index ctx < length (xs_eventStatus s) \<and>
     (\<forall>n \<in> N. (xs_algStates s ! slot_index ctx) n \<noteq> None)"

lemma vec_resize_props:
  "length (vec_resize n x xs) = n"
  "i < n \<Longrightarrow> vec_resize n x xs ! i = (if i < length xs then xs ! i else x)"
  by (simp_all add: vec_resize_def nth_append)

lemma upd_served:
  assumes "served ctx N s" and "n \<in> N"
  obtains s' where "upd_algExecState cfg n ctx f s = Inr s'" "served ctx N s'"
    "state_at ctx s' = (state_at ctx s)(n := f (state_at ctx s n))"
    "algExecState_const n ctx s' = Inr (f (state_at ctx s n))"
proof -
  obtain a where a: "(xs_algStates s ! slot_index ctx) n = Some a" "slot_index ctx < length (xs_algStates s)" "xs_isInit s"
    using assms by (auto simp: served_def)
  show ?thesis
  proof (cases "usesSubSlot ctx")
    case False
    let ?s = "s\<lparr>xs_algStates := (xs_algStates s)[slot_index ctx := (xs_algStates s ! slot_index ctx)(n \<mapsto> f a)]\<rparr>"
    have "upd_algExecState cfg n ctx f s = Inr ?s" using a False by (simp add: upd_algExecState_def call_once_def)
    moreover have "served ctx N ?s" using assms(1) by (simp add: served_def)
    moreover have "state_at ctx ?s = (state_at ctx s)(n := f (state_at ctx s n))" using a False by (auto simp: state_at_def)
    moreover have "algExecState_const n ctx ?s = Inr (f (state_at ctx s n))"
      using a False by (simp add: algExecState_const_def checkInit_def state_at_def)
    ultimately show ?thesis by (rule that)
  next
    case True
    obtain sub where sub: "sub = vec_resize (max (length (xs_algSubSlotStates s)) (slot_index ctx + 1)) [] (xs_algSubSlotStates s)"
      by blast
    obtain slots where slots: "slots = vec_resize (max (length (sub ! slot_index ctx)) (sub_index ctx + 1)) (\<lambda>_. None) (sub ! slot_index ctx)"
      by blast
    obtain b where b: "b = (case (slots ! sub_index ctx) n of Some b \<Rightarrow> b | None \<Rightarrow> new_alg_exec)" by blast
    let ?s = "s\<lparr>xs_algSubSlotStates := sub[slot_index ctx := slots[sub_index ctx := (slots ! sub_index ctx)(n \<mapsto> f b)]]\<rparr>"
    have len: "slot_index ctx < length sub" "sub_index ctx < length slots" by (simp_all add: sub slots vec_resize_props)
    have cur: "(case (slots ! sub_index ctx) m of Some b \<Rightarrow> b | None \<Rightarrow> new_alg_exec) = state_at ctx s m" for m
      using True by (simp add: sub slots vec_resize_props state_at_def)
    then have b': "b = state_at ctx s n" by (simp add: b)
    have "upd_algExecState cfg n ctx f s = Inr ?s" using a True by (simp add: upd_algExecState_def call_once_def Let_def b sub slots)
    moreover have "served ctx N ?s" using assms(1) by (simp add: served_def)
    moreover have "state_at ctx ?s m = (case ((slots ! sub_index ctx)(n \<mapsto> f b)) m of Some b \<Rightarrow> b | None \<Rightarrow> new_alg_exec)" for m
      using True len by (simp add: state_at_def)
    then have "state_at ctx ?s = (state_at ctx s)(n := f (state_at ctx s n))"
      using cur b' by (auto simp: fun_eq_iff)
    moreover have "algExecState_const n ctx ?s = Inr (f (state_at ctx s n))"
      using a True len b' by (simp add: algExecState_const_def checkInit_def)
    ultimately show ?thesis using that by blast
  qed
qed

abbreviation at :: "event_context \<Rightarrow> serial \<Rightarrow> string \<Rightarrow> alg_exec" where
  "at ctx st \<equiv> state_at ctx (se_svc st)"

abbreviation served_in :: "event_context \<Rightarrow> string set \<Rightarrow> serial \<Rightarrow> bool" where
  "served_in ctx N st \<equiv> served ctx N (se_svc st)"

text \<open>Everything but the execution states is as before.\<close>

definition same_but_svc :: "serial \<Rightarrow> serial \<Rightarrow> bool" where
  "same_but_svc st st' \<longleftrightarrow> se_ran st' = se_ran st \<and> se_objects st' = se_objects st \<and> se_abortEvent st' = se_abortEvent st"

lemma upd_state_ready:
  assumes "served_in ctx N st" and "n \<in> N"
  obtains st' where "upd_state cfg n ctx f st = Some st'" "served_in ctx N st'" "at ctx st' = (at ctx st)(n := f (at ctx st n))"
    "same_but_svc st st'"
proof -
  obtain s' where s': "upd_algExecState (sc_execs cfg) n ctx f (se_svc st) = Inr s'" "served ctx N s'"
    "state_at ctx s' = (at ctx st)(n := f (at ctx st n))"
    using upd_served [OF assms] by metis
  show ?thesis by (rule that [of "st\<lparr>se_svc := s'\<rparr>"]) (use s' in \<open>simp_all add: upd_state_def same_but_svc_def\<close>)
qed

lemma get_state_ready:
  assumes "served_in ctx N st" and "n \<in> N"
  obtains st' where "get_state cfg n ctx st = Some (at ctx st n, st')" "served_in ctx N st'" "at ctx st' = at ctx st" "same_but_svc st st'"
proof -
  obtain s' where s': "upd_algExecState (sc_execs cfg) n ctx (\<lambda>a. a) (se_svc st) = Inr s'" "served ctx N s'"
    "state_at ctx s' = (at ctx st)(n := at ctx st n)" "algExecState_const n ctx s' = Inr (at ctx st n)"
    using upd_served [OF assms, of "sc_execs cfg" "\<lambda>a. a"] by metis
  show ?thesis by (rule that [of "st\<lparr>se_svc := s'\<rparr>"]) (use s' in \<open>simp_all add: get_state_def upd_state_def same_but_svc_def\<close>)
qed

lemma incrementErrorCount_states:
  assumes "incrementErrorCount n s = (k, s')"
  shows "state_at ctx s' = state_at ctx s" "served ctx N s' = served ctx N s"
  using assms by (auto simp: incrementErrorCount_def state_at_def served_def fun_eq_iff split: option.splits)

lemma count_error_states:
  assumes "count_error ac n status s = (status', s')"
  shows "state_at ctx s' = state_at ctx s" "served ctx N s' = served ctx N s" "status_success status \<Longrightarrow> status' = status"
    "status' = Filter_decision b \<Longrightarrow> status = Filter_decision b"
proof -
  obtain k s1 where k: "incrementErrorCount n s = (k, s1)" by fastforce
  note i = incrementErrorCount_states [OF k]
  show "state_at ctx s' = state_at ctx s" "served ctx N s' = served ctx N s" "status_success status \<Longrightarrow> status' = status"
    "status' = Filter_decision b \<Longrightarrow> status = Filter_decision b"
    using assms i(1) [of ctx] i(2) [of ctx N] k by (auto simp: count_error_def split: if_splits)
qed

text \<open>What follows \<open>execute\<close>: the algorithm is \<open>Done\<close>, unless an exception is thrown again.\<close>

abbreviation filter_failed :: "alg_outcome \<Rightarrow> bool" where
  "filter_failed out \<equiv> out = Returns (Filter_decision False)"

lemma after_execute_ready:
  assumes "served_in ctx N st" and "al_name p \<in> N" and "out = Throws \<longrightarrow> ex_handle (sc_exceptions cfg) (al_name p) \<noteq> None"
  obtains status st' where "after_execute cfg p ctx out st = (Some status, st')" "served_in ctx N st'" "same_but_svc st st'"
    "at ctx st' = (at ctx st)(al_name p := \<lparr>ae_filterPassed = (ae_filterPassed (at ctx st (al_name p)) \<and> \<not> filter_failed out),
       ae_state = RS_Done, ae_execStatus = status\<rparr>)"
    "\<forall>sc. out = Returns sc \<longrightarrow> status_success sc \<longrightarrow> status = sc"
proof -
  let ?n = "al_name p"
  obtain st1 where st1: "(if filter_failed out then upd_state cfg ?n ctx (\<lambda>a. a\<lparr>ae_filterPassed := False\<rparr>) st else Some st) = Some st1"
    "served_in ctx N st1" "same_but_svc st st1"
    "at ctx st1 = (at ctx st)(?n := (at ctx st ?n)\<lparr>ae_filterPassed := (ae_filterPassed (at ctx st ?n) \<and> \<not> filter_failed out)\<rparr>)"
  proof (cases "filter_failed out")
    case True
    obtain st1 where "upd_state cfg ?n ctx (\<lambda>a. a\<lparr>ae_filterPassed := False\<rparr>) st = Some st1" "served_in ctx N st1"
      "at ctx st1 = (at ctx st)(?n := (at ctx st ?n)\<lparr>ae_filterPassed := False\<rparr>)" "same_but_svc st st1"
      using upd_state_ready [OF assms(1,2)] by metis
    then show ?thesis using that True by simp
  next
    case False
    then show ?thesis using that [of st] assms(1) by (simp add: same_but_svc_def)
  qed
  have "outcome_status (sc_exceptions cfg) ?n out \<noteq> None"
    using assms(3) by (auto simp: outcome_status_def split: alg_outcome.split alg_status.split)
  then obtain status where status: "outcome_status (sc_exceptions cfg) ?n out = Some status" by blast
  obtain status' s2 where s2: "count_error (al_config p) ?n status (se_svc st1) = (status', s2)" by fastforce
  let ?st2 = "st1\<lparr>se_svc := s2\<rparr>"
  have "served_in ctx N ?st2" "at ctx ?st2 = at ctx st1" "same_but_svc st1 ?st2"
    using count_error_states(1,2) [OF s2] st1(2) by (simp_all add: same_but_svc_def)
  then obtain st3 where st3: "upd_state cfg ?n ctx (\<lambda>a. a\<lparr>ae_state := RS_Done, ae_execStatus := status'\<rparr>) ?st2 = Some st3"
    "served_in ctx N st3" "at ctx st3 = (at ctx st1)(?n := (at ctx st1 ?n)\<lparr>ae_state := RS_Done, ae_execStatus := status'\<rparr>)"
    "same_but_svc st1 st3"
    using upd_state_ready [of ctx N ?st2 ?n cfg "\<lambda>a. a\<lparr>ae_state := RS_Done, ae_execStatus := status'\<rparr>"] assms(2)
    by (auto simp: same_but_svc_def)
  show ?thesis
  proof (rule that [of status' st3])
    show "after_execute cfg p ctx out st = (Some status', st3)"
      by (simp only: after_execute_def st1(1) option.case status s2 Let_def prod.case st3(1))
    show "same_but_svc st st3" using st1(3) st3(4) by (simp add: same_but_svc_def)
    show "at ctx st3 = (at ctx st)(?n := \<lparr>ae_filterPassed = (ae_filterPassed (at ctx st ?n) \<and> \<not> filter_failed out),
       ae_state = RS_Done, ae_execStatus = status'\<rparr>)"
      unfolding st3(3) st1(4) by (cases "at ctx st ?n") simp
    show "\<forall>sc. out = Returns sc \<longrightarrow> status_success sc \<longrightarrow> status' = sc"
      using status count_error_states(3) [OF s2] by (auto simp: outcome_status_def split: alg_status.splits)
  qed (rule st3(2))
qed

section \<open>Each body runs once\<close>

definition ran_once :: "string set \<Rightarrow> string set \<Rightarrow> event_context \<Rightarrow> serial \<Rightarrow> bool" where
  "ran_once L N ctx st \<longleftrightarrow> served_in ctx N st \<and> set (se_ran st) \<subseteq> L \<and> distinct (se_ran st) \<and>
     (\<forall>n \<in> L. n \<in> set (se_ran st) \<longleftrightarrow> ae_state (at ctx st n) = RS_Done)"

lemma once_step:
  "ran_once L N ctx st \<Longrightarrow> served_in ctx N st' \<Longrightarrow> same_but_svc st st' \<Longrightarrow>
    (\<And>n. n \<in> L \<Longrightarrow> ae_state (at ctx st' n) = RS_Done \<longleftrightarrow> ae_state (at ctx st n) = RS_Done) \<Longrightarrow> ran_once L N ctx st'"
  by (simp add: ran_once_def same_but_svc_def)

lemma once_upd:
  assumes "ran_once L N ctx st" and "n \<in> N" and "n \<in> L \<Longrightarrow> ae_state (f (at ctx st n)) = RS_Done \<longleftrightarrow> ae_state (at ctx st n) = RS_Done"
  obtains st' where "upd_state cfg n ctx f st = Some st'" "ran_once L N ctx st'" "at ctx st' = (at ctx st)(n := f (at ctx st n))"
    "se_ran st' = se_ran st"
proof -
  have "served_in ctx N st" using assms(1) by (simp add: ran_once_def)
  then obtain st' where st': "upd_state cfg n ctx f st = Some st'" "served_in ctx N st'"
    "at ctx st' = (at ctx st)(n := f (at ctx st n))" "same_but_svc st st'" by (rule upd_state_ready [OF _ assms(2)])
  have "ran_once L N ctx st'" by (rule once_step [OF assms(1) st'(2,4)]) (use st'(3) assms(3) in auto)
  then show ?thesis using that st' by (simp add: same_but_svc_def)
qed

lemma once_get:
  assumes "ran_once L N ctx st" and "n \<in> N"
  obtains st' where "get_state cfg n ctx st = Some (at ctx st n, st')" "ran_once L N ctx st'" "at ctx st' = at ctx st"
proof -
  have "served_in ctx N st" using assms(1) by (simp add: ran_once_def)
  then obtain st' where st': "get_state cfg n ctx st = Some (at ctx st n, st')" "served_in ctx N st'"
    "at ctx st' = at ctx st" "same_but_svc st st'" by (rule get_state_ready [OF _ assms(2)])
  then show ?thesis using that once_step [OF assms(1) st'(2,4)] by simp
qed

text \<open>Between \<open>sysExecute\<close> and its end, all but the algorithm that executes.\<close>

definition once_but :: "string \<Rightarrow> string set \<Rightarrow> string set \<Rightarrow> event_context \<Rightarrow> serial \<Rightarrow> bool" where
  "once_but n L N ctx st \<longleftrightarrow> served_in ctx N st \<and> set (se_ran st) \<subseteq> L \<and> distinct (se_ran st) \<and>
     (\<forall>m \<in> L - {n}. m \<in> set (se_ran st) \<longleftrightarrow> ae_state (at ctx st m) = RS_Done) \<and> (n \<in> L \<longrightarrow> n \<in> set (se_ran st))"

lemma once_but_weaken: "ran_once L N ctx st \<Longrightarrow> n \<notin> L \<Longrightarrow> once_but n L N ctx st"
  by (simp add: ran_once_def once_but_def)

definition no_rethrow :: "serial_config \<Rightarrow> bool" where
  "no_rethrow cfg \<longleftrightarrow> (\<forall>n. ex_handle (sc_exceptions cfg) n \<noteq> None)"

lemma once_after:
  assumes "once_but (al_name p) L N ctx st" and "al_name p \<in> N" and "no_rethrow cfg"
  shows "ran_once L N ctx (snd (after_execute cfg p ctx out st))"
proof -
  have "served_in ctx N st" "out = Throws \<longrightarrow> ex_handle (sc_exceptions cfg) (al_name p) \<noteq> None"
    using assms by (simp_all add: once_but_def no_rethrow_def)
  then obtain status st' where st': "after_execute cfg p ctx out st = (Some status, st')" "served_in ctx N st'" "same_but_svc st st'"
    "at ctx st' = (at ctx st)(al_name p := \<lparr>ae_filterPassed = (ae_filterPassed (at ctx st (al_name p)) \<and> \<not> filter_failed out),
       ae_state = RS_Done, ae_execStatus = status\<rparr>)"
    using after_execute_ready [OF _ assms(2)] by metis
  then show ?thesis using assms(1) by (auto simp: once_but_def ran_once_def same_but_svc_def)
qed

text \<open>An \<open>execute\<close> that keeps the invariant, under the name of no body, and that of a body.\<close>

lemma once_sys_sequence:
  assumes "\<And>st. ran_once L N ctx st \<Longrightarrow> ran_once L N ctx (snd (execute st))"
    and "ran_once L N ctx st" and "al_name p \<in> N - L" and "no_rethrow cfg"
  shows "ran_once L N ctx (snd (sys_execute cfg p ctx execute st))"
proof (cases "ac_isEnabled (al_config p)")
  case True
  obtain st1 where st1: "upd_state cfg (al_name p) ctx (\<lambda>a. a\<lparr>ae_state := RS_Executing\<rparr>) st = Some st1" "ran_once L N ctx st1"
    using once_upd [OF assms(2), of "al_name p" "\<lambda>a. a\<lparr>ae_state := RS_Executing\<rparr>" cfg] assms(3) by blast
  obtain out st2 where st2: "execute st1 = (out, st2)" by (cases "execute st1")
  have "ran_once L N ctx st2" using assms(1) [OF st1(2)] st2 by simp
  then have "ran_once L N ctx (snd (after_execute cfg p ctx out st2))"
    using once_after [OF once_but_weaken] assms(3,4) by blast
  then show ?thesis using True st1(1) st2 by (simp add: sys_execute_def)
qed (use assms(2) in \<open>simp add: sys_execute_def\<close>)

lemma once_run_body:
  assumes "ran_once L N ctx st" and "n \<in> L" and "n \<in> N" and "n \<notin> set (se_ran st)"
  shows "once_but n L N ctx (snd (run_body cfg n ctx st))"
proof -
  let ?a = "sc_bodies cfg n (se_objects st)"
  let ?st = "st\<lparr>se_ran := se_ran st @ [n], se_objects := se_objects st @ act_objects ?a, se_abortEvent := (se_abortEvent st \<or> act_abort ?a)\<rparr>"
  have but: "once_but n L N ctx ?st" using assms by (simp add: ran_once_def once_but_def)
  show ?thesis
  proof (cases "ab_setFilterPassed (act_body ?a)")
    case None
    then show ?thesis using but by (simp add: run_body_def Let_def)
  next
    case (Some b)
    have "served_in ctx N ?st" using assms(1) by (simp add: ran_once_def)
    then obtain st' where "upd_state cfg n ctx (\<lambda>s. s\<lparr>ae_filterPassed := b\<rparr>) ?st = Some st'" "served_in ctx N st'"
      "at ctx st' = (at ctx ?st)(n := (at ctx ?st n)\<lparr>ae_filterPassed := b\<rparr>)" "same_but_svc ?st st'"
      by (rule upd_state_ready [OF _ assms(3)])
    then show ?thesis using but Some by (simp add: run_body_def Let_def once_but_def same_but_svc_def)
  qed
qed

lemma once_sys_body:
  assumes "ran_once L N ctx st" and "al_name p \<in> L" and "al_name p \<in> N" and "no_rethrow cfg"
    and "ae_state (at ctx st (al_name p)) \<noteq> RS_Done"
  shows "ran_once L N ctx (snd (sys_execute cfg p ctx (run_body cfg (al_name p) ctx) st))"
proof (cases "ac_isEnabled (al_config p)")
  case True
  have ran: "al_name p \<notin> set (se_ran st)" using assms(1,2,5) by (auto simp: ran_once_def)
  obtain st1 where st1: "upd_state cfg (al_name p) ctx (\<lambda>a. a\<lparr>ae_state := RS_Executing\<rparr>) st = Some st1" "ran_once L N ctx st1"
    "se_ran st1 = se_ran st"
    using once_upd [OF assms(1,3), of "\<lambda>a. a\<lparr>ae_state := RS_Executing\<rparr>" cfg] assms(5) by auto
  obtain out st2 where st2: "run_body cfg (al_name p) ctx st1 = (out, st2)" by (cases "run_body cfg (al_name p) ctx st1")
  have "once_but (al_name p) L N ctx st2"
    using once_run_body [OF st1(2) assms(2,3), of cfg] st1(3) ran st2 by simp
  then show ?thesis using once_after [OF _ assms(3,4)] True st1(1) st2 by (simp add: sys_execute_def)
qed (use assms(1) in \<open>simp add: sys_execute_def\<close>)

definition member_once :: "string set \<Rightarrow> string set \<Rightarrow> event_context \<Rightarrow> member \<Rightarrow> bool" where
  "member_once L N ctx m \<longleftrightarrow> (case m of (p, f, r) \<Rightarrow> al_name p \<in> N \<and>
     (\<forall>st. ran_once L N ctx st \<longrightarrow> ae_state (at ctx st (al_name p)) \<noteq> RS_Done \<longrightarrow> ran_once L N ctx (snd (f st))))"

lemma once_entries:
  assumes "\<forall>m \<in> set ms. member_once L N ctx m" and "ran_once L N ctx st"
  shows "ran_once L N ctx (snd (run_entries cfg ctx q ms seqPass result st))"
  using assms
proof (induction ms arbitrary: seqPass result st)
  case (Cons m ms)
  obtain p f r where m: "m = (p, f, r)" by (cases m)
  have IH: "ran_once L N ctx (snd (run_entries cfg ctx q ms seqPass result st))" if "ran_once L N ctx st" for seqPass result st
    using Cons.IH Cons.prems(1) that by simp
  have n: "al_name p \<in> N" and f: "\<And>st. ran_once L N ctx st \<Longrightarrow> ae_state (at ctx st (al_name p)) \<noteq> RS_Done \<Longrightarrow> ran_once L N ctx (snd (f st))"
    using Cons.prems(1) by (auto simp: m member_once_def)
  obtain st1 where st1: "get_state cfg (al_name p) ctx st = Some (at ctx st (al_name p), st1)" "ran_once L N ctx st1" "at ctx st1 = at ctx st"
    by (rule once_get [OF Cons.prems(2) n])
  let ?r = "if ae_state (at ctx st (al_name p)) \<noteq> RS_Done then f st1 else (Some result, st1)"
  obtain res st2 where st2: "?r = (res, st2)" by (cases ?r)
  have o2: "ran_once L N ctx st2"
  proof (cases "ae_state (at ctx st (al_name p)) = RS_Done")
    case False
    then show ?thesis using f [OF st1(2)] st1(3) st2 by simp
  qed (use st1(2) st2 in simp)
  obtain st3 where st3: "get_state cfg (al_name p) ctx st2 = Some (at ctx st2 (al_name p), st3)" "ran_once L N ctx st3" "at ctx st3 = at ctx st2"
    by (rule once_get [OF o2 n])
  show ?case
    using IH [OF Cons.prems(2)] IH [OF o2] IH [OF st3(2)] o2 st3(1,2) st1(1) st2
    by (cases res) (simp_all add: m Let_def)
qed simp

lemma once_executeMember:
  assumes "member_once L N ctx m" and "ran_once L N ctx st"
  shows "ran_once L N ctx (snd (executeMember cfg ctx m st))"
proof -
  obtain p f r where m: "m = (p, f, r)" by (cases m)
  have n: "al_name p \<in> N" and f: "\<And>st. ran_once L N ctx st \<Longrightarrow> ae_state (at ctx st (al_name p)) \<noteq> RS_Done \<Longrightarrow> ran_once L N ctx (snd (f st))"
    using assms(1) by (auto simp: m member_once_def)
  obtain st1 where "get_state cfg (al_name p) ctx st = Some (at ctx st (al_name p), st1)" "ran_once L N ctx st1" "at ctx st1 = at ctx st"
    by (rule once_get [OF assms(2) n])
  then show ?thesis using f assms(2) by (simp add: executeMember_def m)
qed

lemma once_members:
  assumes "\<forall>m \<in> set ms. member_once L N ctx m" and "n \<in> N" and "ran_once L N ctx st"
  shows "ran_once L N ctx (snd (snd (run_members cfg ctx n stop ms result last_alg st)))"
  using assms
proof (induction ms arbitrary: result last_alg st)
  case (Cons m ms)
  obtain p f r where m: "m = (p, f, r)" by (cases m)
  have p: "al_name p \<in> N" using Cons.prems(1) by (simp add: m member_once_def)
  obtain res st1 where st1: "executeMember cfg ctx (p, f, r) st = (res, st1)" by (cases "executeMember cfg ctx (p, f, r) st")
  have o1: "ran_once L N ctx st1" using once_executeMember [of L N ctx "(p, f, r)" st cfg] Cons.prems(1,3) st1 m by simp
  obtain st2 where st2: "get_state cfg (al_name p) ctx st1 = Some (at ctx st1 (al_name p), st2)" "ran_once L N ctx st2"
    by (rule once_get [OF o1 p])
  let ?passed = "if r then \<not> ae_filterPassed (at ctx st1 (al_name p)) else ae_filterPassed (at ctx st1 (al_name p))"
  obtain st3 where st3: "upd_state cfg n ctx (\<lambda>a. a\<lparr>ae_filterPassed := ?passed\<rparr>) st2 = Some st3" "ran_once L N ctx st3"
    using once_upd [OF st2(2) Cons.prems(2), of "\<lambda>a. a\<lparr>ae_filterPassed := ?passed\<rparr>" cfg] by auto
  have "ran_once L N ctx (snd (snd (run_members cfg ctx n stop ms result (Some (al_name p)) st3)))" for result
    by (rule Cons.IH) (use Cons.prems st3(2) in simp_all)
  then show ?case using st1 o1 st2(1) st3 by (cases res) (simp_all add: m Let_def)
qed simp

lemma once_gs_finish:
  assumes "ran_once L N ctx (snd r)" and "al_name p \<in> N - L"
  shows "ran_once L N ctx (snd (gs_finish cfg p q b ctx r))"
proof -
  obtain e st where r: "r = (e, st)" by (cases r)
  show ?thesis
  proof (cases e)
    case (Seq_ended seqPass result)
    let ?f = "\<lambda>a. a\<lparr>ae_filterPassed := (if \<not> sq_ignoreFilter q \<and> b then (if sq_invert q then \<not> seqPass else seqPass)
                                      else ae_filterPassed a), ae_state := RS_Done\<rparr>"
    obtain st' where "upd_state cfg (al_name p) ctx ?f st = Some st'" "ran_once L N ctx st'"
      using once_upd [of L N ctx st "al_name p" ?f cfg] assms r by auto
    then show ?thesis by (simp add: gs_finish_def r Seq_ended)
  qed (use assms(1) in \<open>simp add: gs_finish_def r\<close>)
qed

lemma once_sq_done:
  assumes "ran_once L N ctx (snd r)" and "al_name p \<in> N - L"
  shows "ran_once L N ctx (snd (sq_done cfg p ctx r))"
proof -
  obtain e st where r: "r = (e, st)" by (cases r)
  obtain st' where "upd_state cfg (al_name p) ctx (\<lambda>a. a\<lparr>ae_state := RS_Done\<rparr>) st = Some st'" "ran_once L N ctx st'"
    using once_upd [of L N ctx st "al_name p" "\<lambda>a. a\<lparr>ae_state := RS_Done\<rparr>" cfg] assms r by auto
  then show ?thesis using assms(1) by (cases e) (simp_all add: sq_done_def r)
qed


lemma once_sq_execute:
  assumes ms: "\<And>st. ran_once L N ctx st \<Longrightarrow> ran_once L N ctx (snd (snd (run_members_of st)))"
    and bs: "\<And>st. ran_once L N ctx st \<Longrightarrow> ran_once L N ctx (snd (snd (run_branch st)))"
    and st: "ran_once L N ctx st" and p: "al_name p \<in> N - L"
  shows "ran_once L N ctx (snd (sq_execute cfg p stop branch run_members_of run_branch ctx st))"
proof -
  have get: "\<exists>own st'. get_state cfg (al_name p) ctx st = Some (own, st') \<and> ran_once L N ctx st'" if "ran_once L N ctx st" for st
    using once_get [OF that] p by blast
  have set_branch: "ran_once L N ctx (set_branch (al_name p) ctx b st) = ran_once L N ctx st" for b st
    by (simp add: ran_once_def set_branch_def)
  have fin: "ran_once L N ctx (snd (sq_done cfg p ctx (r, st)))" if "ran_once L N ctx st" for r st
    using once_sq_done [of L N ctx "(r, st)" p cfg] that p by simp
  obtain own st1 where st1: "get_state cfg (al_name p) ctx st = Some (own, st1)" "ran_once L N ctx st1" using get [OF st] by blast
  obtain r last_alg st2 where st2: "run_members_of (set_branch (al_name p) ctx False st1) = (r, last_alg, st2)"
    by (cases "run_members_of (set_branch (al_name p) ctx False st1)")
  have o2: "ran_once L N ctx st2" using ms [of "set_branch (al_name p) ctx False st1"] st1(2) st2 by (simp add: set_branch)
  obtain own2 st3 where st3: "get_state cfg (al_name p) ctx st2 = Some (own2, st3)" "ran_once L N ctx st3" using get [OF o2] by blast
  obtain r4 last4 st4 where st4: "run_branch (set_branch (al_name p) ctx False st3) = (r4, last4, st4)"
    by (cases "run_branch (set_branch (al_name p) ctx False st3)")
  have o4: "ran_once L N ctx st4" using bs [of "set_branch (al_name p) ctx False st3"] st3(2) st4 by (simp add: set_branch)
  obtain own5 st5 where st5: "get_state cfg (al_name p) ctx st4 = Some (own5, st5)" "ran_once L N ctx st5" using get [OF o4] by blast
  show ?thesis
    using st1 st2 o2 st3 st4 o4 st5 fin by (simp add: sq_execute_def set_branch split: option.split)
qed

text \<open>The names of the algorithms that are no sequences, and of those that are.\<close>

fun leaf_names :: "alg \<Rightarrow> string set" and seq_names :: "alg \<Rightarrow> string set" where
  "leaf_names (Algorithm p) = {al_name p}"
| "leaf_names (Gaudi_sequencer p q es) = (\<Union>(a, r) \<in> set es. leaf_names a)"
| "leaf_names (Sequencer p stop ms bs) = (\<Union>(a, r) \<in> set ms \<union> set bs. leaf_names a)"
| "seq_names (Algorithm p) = {}"
| "seq_names (Gaudi_sequencer p q es) = insert (al_name p) (\<Union>(a, r) \<in> set es. seq_names a)"
| "seq_names (Sequencer p stop ms bs) = insert (al_name p) (\<Union>(a, r) \<in> set ms \<union> set bs. seq_names a)"

definition is_leaf :: "alg \<Rightarrow> bool" where
  "is_leaf a \<longleftrightarrow> (case a of Algorithm p \<Rightarrow> True | _ \<Rightarrow> False)"

lemma once_guarded: "ran_once L N ctx st \<Longrightarrow> (ran_once L N ctx st \<Longrightarrow> ran_once L N ctx (snd (f st))) \<Longrightarrow> ran_once L N ctx (snd (guarded p f st))"
  by (simp add: guarded_def)

lemma once_run_alg:
  assumes cfg: "no_rethrow cfg" and L: "L \<subseteq> N"
  shows "leaf_names a \<subseteq> L \<Longrightarrow> seq_names a \<subseteq> N - L \<Longrightarrow> ran_once L N ctx st \<Longrightarrow>
    (is_leaf a \<Longrightarrow> ae_state (at ctx st (alg_name a)) \<noteq> RS_Done) \<Longrightarrow> ran_once L N ctx (snd (run_alg cfg ctx a st))"
proof (induction a arbitrary: st)
  case (Algorithm p)
  then have "al_name p \<in> L" "al_name p \<in> N" using L by auto
  then show ?case using Algorithm once_sys_body [OF _ _ _ cfg] by (simp add: guarded_def is_leaf_def)
next
  case (Gaudi_sequencer p q es)
  have m: "\<forall>m \<in> set (map (\<lambda>(a, r). (props_of a, run_alg cfg ctx a, r)) es). member_once L N ctx m"
  proof
    fix m assume "m \<in> set (map (\<lambda>(a, r). (props_of a, run_alg cfg ctx a, r)) es)"
    then obtain a r where a: "(a, r) \<in> set es" "m = (props_of a, run_alg cfg ctx a, r)" by auto
    have names: "leaf_names a \<subseteq> L" "seq_names a \<subseteq> N - L" using Gaudi_sequencer.prems(1,2) a(1) by auto
    then have "alg_name a \<in> N" using L by (cases a) auto
    moreover have "ran_once L N ctx (snd (run_alg cfg ctx a st))" if "ran_once L N ctx st" "ae_state (at ctx st (alg_name a)) \<noteq> RS_Done" for st
      using Gaudi_sequencer.IH [OF a(1) _ names] that by (simp add: fsts.simps)
    ultimately show "member_once L N ctx m" by (simp add: member_once_def a(2))
  qed
  have p: "al_name p \<in> N - L" using Gaudi_sequencer.prems(2) by auto
  have "ran_once L N ctx (snd (sys_execute cfg p ctx (\<lambda>st. gs_finish cfg p q (es \<noteq> []) ctx
      (run_entries cfg ctx q (map (\<lambda>(a, r). (props_of a, run_alg cfg ctx a, r)) es) (\<not> sq_modeOR q) (Gaudi_code SUCCESS) st)) st))"
    by (rule once_sys_sequence [OF once_gs_finish [OF once_entries [OF m] p] Gaudi_sequencer.prems(3) p cfg])
  then show ?case using once_guarded [OF Gaudi_sequencer.prems(3)] by (simp add: Let_def)
next
  case (Sequencer p stop ms bs)
  have m: "member_once L N ctx m" if m: "m \<in> set (map (\<lambda>(a, r). (props_of a, run_alg cfg ctx a, r)) (ms @ bs))" for m
  proof -
    obtain a r where a: "(a, r) \<in> set ms \<union> set bs" "m = (props_of a, run_alg cfg ctx a, r)" using m by auto
    have names: "leaf_names a \<subseteq> L" "seq_names a \<subseteq> N - L" using Sequencer.prems(1,2) a(1) by auto
    then have "alg_name a \<in> N" using L by (cases a) auto
    moreover have "ran_once L N ctx (snd (run_alg cfg ctx a st))" if "ran_once L N ctx st" "ae_state (at ctx st (alg_name a)) \<noteq> RS_Done" for st
      using Sequencer.IH a(1) names that by (auto simp: fsts.simps)
    ultimately show "member_once L N ctx m" by (simp add: member_once_def a(2))
  qed
  have p: "al_name p \<in> N - L" using Sequencer.prems(2) by auto
  let ?ms = "map (\<lambda>(a, r). (props_of a, run_alg cfg ctx a, r)) ms" and ?bs = "map (\<lambda>(a, r). (props_of a, run_alg cfg ctx a, r)) bs"
  have "\<forall>m \<in> set ?ms. member_once L N ctx m" "\<forall>m \<in> set (tl ?bs). member_once L N ctx m"
    using m list.set_sel(2) [of ?bs] by (cases "?bs = []"; force)+
  note loops = once_members [OF this(1)] once_members [OF this(2)]
  have "ran_once L N ctx (snd (sq_execute cfg p stop (map (al_name \<circ> fst) ?bs)
      (run_members cfg ctx (al_name p) stop ?ms (Gaudi_code SUCCESS) None) (run_members cfg ctx (al_name p) stop (tl ?bs) (Gaudi_code SUCCESS) None) ctx st))"
    if "ran_once L N ctx st" for st
    by (rule once_sq_execute [OF loops(1) loops(2) that p]) (use p in auto)
  then have "ran_once L N ctx (snd (sys_execute cfg p ctx (sq_execute cfg p stop (map (al_name \<circ> fst) ?bs)
      (run_members cfg ctx (al_name p) stop ?ms (Gaudi_code SUCCESS) None) (run_members cfg ctx (al_name p) stop (tl ?bs) (Gaudi_code SUCCESS) None) ctx) st))"
    by (rule once_sys_sequence [OF _ Sequencer.prems(3) p cfg])
  then show ?case by (simp add: Let_def)
qed

section \<open>An event\<close>

text \<open>
  The order in which the top algorithms and output streams may be given: none that is no sequence
  comes after something that executed it.
\<close>

fun top_order :: "string set \<Rightarrow> alg list \<Rightarrow> bool" where
  "top_order seen [] \<longleftrightarrow> True"
| "top_order seen (a # as) \<longleftrightarrow> (is_leaf a \<longrightarrow> alg_name a \<notin> seen) \<and> top_order (seen \<union> leaf_names a) as"

abbreviation tree_leaves :: "alg list \<Rightarrow> string set" where
  "tree_leaves as \<equiv> (\<Union>a \<in> set as. leaf_names a)"

lemma top_order_append: "top_order seen (as @ bs) \<longleftrightarrow> top_order seen as \<and> top_order (seen \<union> tree_leaves as) bs"
  by (induction as arbitrary: seen) (simp_all add: Un_assoc)

definition known_algs :: "string set \<Rightarrow> string set \<Rightarrow> alg list \<Rightarrow> bool" where
  "known_algs L N as \<longleftrightarrow> L \<subseteq> N \<and> (\<forall>a \<in> set as. leaf_names a \<subseteq> L \<and> seq_names a \<subseteq> N - L)"

lemma once_mono: "ran_once L N ctx st \<Longrightarrow> set (se_ran st) \<subseteq> L' \<Longrightarrow> L' \<subseteq> L \<Longrightarrow> ran_once L' N ctx st"
  by (auto simp: ran_once_def)

lemma leaf_name_in: "is_leaf a \<Longrightarrow> alg_name a \<in> leaf_names a"
  by (cases a) (simp_all add: is_leaf_def)

text \<open>One algorithm: its leaves are all that it runs.\<close>

lemma once_one:
  assumes "no_rethrow cfg" and "known_algs L N [a]" and "ran_once L N ctx st"
    and "set (se_ran st) \<subseteq> seen" and "seen \<subseteq> L" and "is_leaf a \<longrightarrow> alg_name a \<notin> seen"
  shows "ran_once L N ctx (snd (run_alg cfg ctx a st)) \<and> set (se_ran (snd (run_alg cfg ctx a st))) \<subseteq> seen \<union> leaf_names a"
proof -
  have k: "L \<subseteq> N" "leaf_names a \<subseteq> L" "seq_names a \<subseteq> N - L" using assms(2) by (simp_all add: known_algs_def)
  have d: "ae_state (at ctx st (alg_name a)) \<noteq> RS_Done" if "is_leaf a"
  proof -
    have "alg_name a \<in> L" "alg_name a \<notin> set (se_ran st)" using leaf_name_in [OF that] k(2) assms(4,6) that by auto
    then show ?thesis using assms(3) by (simp add: ran_once_def)
  qed
  have "ran_once L N ctx (snd (run_alg cfg ctx a st))" by (rule once_run_alg [OF assms(1) k(1-3) assms(3) d])
  moreover have "ran_once (seen \<union> leaf_names a) N ctx (snd (run_alg cfg ctx a st))"
  proof (rule once_run_alg [OF assms(1) _ _ _ _ d])
    show "ran_once (seen \<union> leaf_names a) N ctx st" by (rule once_mono [OF assms(3)]) (use assms(4,5) k(2) in auto)
  qed (use k assms(5) in auto)
  ultimately show ?thesis by (simp add: ran_once_def)
qed

lemma once_tops:
  assumes "no_rethrow cfg" and "known_algs L N as" and "ran_once L N ctx st"
    and "set (se_ran st) \<subseteq> seen" and "seen \<subseteq> L" and "top_order seen as"
  shows "ran_once L N ctx (snd (run_tops cfg ctx as failed st)) \<and>
    set (se_ran (snd (run_tops cfg ctx as failed st))) \<subseteq> seen \<union> tree_leaves as"
  using assms(2-)
proof (induction as arbitrary: failed st seen)
  case Nil
  then show ?case by simp
next
  case (Cons a as)
  have k: "known_algs L N [a]" "known_algs L N as" using Cons.prems(1) by (simp_all add: known_algs_def)
  obtain r st1 where r: "run_alg cfg ctx a st = (r, st1)" by (cases "run_alg cfg ctx a st")
  have one: "ran_once L N ctx st1" "set (se_ran st1) \<subseteq> seen \<union> leaf_names a"
    using once_one [OF assms(1) k(1) Cons.prems(2-4)] Cons.prems(5) r by auto
  have step: "ran_once L N ctx (snd (run_tops cfg ctx as failed st')) \<and>
      set (se_ran (snd (run_tops cfg ctx as failed st'))) \<subseteq> seen \<union> tree_leaves (a # as)"
    if "se_svc st' = se_svc st1" "se_ran st' = se_ran st1" for failed st'
    using Cons.IH [OF k(2), of st' "seen \<union> leaf_names a" failed] one that Cons.prems(4,5) k(1)
    by (simp add: ran_once_def known_algs_def Un_assoc)
  show ?case
  proof (cases "se_abortEvent st")
    case True
    then show ?thesis using Cons.prems(2,3) by (auto simp: ran_once_def)
  next
    case False
    then show ?thesis using step [of st1] step [of "st1\<lparr>se_returnCode := 6\<rparr>"] r by (cases r) simp_all
  qed
qed

lemma once_streams:
  assumes "no_rethrow cfg" and "known_algs L N as" and "ran_once L N ctx st"
    and "set (se_ran st) \<subseteq> seen" and "seen \<subseteq> L" and "top_order seen as"
  shows "ran_once L N ctx (snd (run_streams cfg ctx as failed st)) \<and>
    set (se_ran (snd (run_streams cfg ctx as failed st))) \<subseteq> seen \<union> tree_leaves as"
  using assms(2-)
proof (induction as arbitrary: failed st seen)
  case Nil
  then show ?case by simp
next
  case (Cons a as)
  have k: "known_algs L N [a]" "known_algs L N as" using Cons.prems(1) by (simp_all add: known_algs_def)
  have "alg_name a \<in> N" using k(1) by (cases a) (auto simp: known_algs_def)
  then obtain st0 where st0: "upd_state cfg (alg_name a) ctx (\<lambda>s. s\<lparr>ae_filterPassed := True\<rparr>) st = Some st0" "ran_once L N ctx st0"
    "se_ran st0 = se_ran st"
    using once_upd [OF Cons.prems(2), of "alg_name a" "\<lambda>s. s\<lparr>ae_filterPassed := True\<rparr>" cfg] by auto
  obtain r st1 where r: "run_alg cfg ctx a st0 = (r, st1)" by (cases "run_alg cfg ctx a st0")
  have one: "ran_once L N ctx st1" "set (se_ran st1) \<subseteq> seen \<union> leaf_names a"
    using once_one [OF assms(1) k(1) st0(2) _ Cons.prems(4)] Cons.prems(3,5) r st0(3) by auto
  show ?case
    using Cons.IH [OF k(2) one] one Cons.prems(4,5) k(1) st0(1) r
    by (cases r) (auto simp: known_algs_def Un_assoc)
qed

text \<open>The start of an event: every known algorithm is as new.\<close>

lemma xs_reset_served:
  assumes "served ctx N s"
  obtains s' where "xs_reset cfg ctx s = Inr s'" "served ctx N s'" "\<And>n. n \<in> N \<Longrightarrow> state_at ctx s' n = new_alg_exec"
proof -
  let ?i = "slot_index ctx"
  let ?s = "s\<lparr>xs_algStates := (xs_algStates s)[?i := reset_map (xs_algStates s ! ?i)],
              xs_algSubSlotStates := (if ?i < length (xs_algSubSlotStates s)
                then (xs_algSubSlotStates s)[?i := map reset_map (xs_algSubSlotStates s ! ?i)] else xs_algSubSlotStates s),
              xs_eventStatus := (xs_eventStatus s)[?i := ES_Invalid]\<rparr>"
  have a: "xs_isInit s" "?i < length (xs_algStates s)" "?i < length (xs_eventStatus s)" "\<And>n. n \<in> N \<Longrightarrow> \<exists>a. (xs_algStates s ! ?i) n = Some a"
    using assms(1) by (auto simp: served_def)
  have "xs_reset cfg ctx s = Inr ?s" using a(1-3) by (simp add: xs_reset_def call_once_def Let_def)
  moreover have "served ctx N ?s" using assms(1) by (auto simp: served_def reset_map_def)
  moreover have "state_at ctx ?s n = new_alg_exec" if "n \<in> N" for n
    using a(2) a(4) [OF that] by (auto simp: state_at_def reset_map_def split: option.splits)
  ultimately show ?thesis using that [of ?s] by simp
qed

text \<open>
  C15. In an event in which no exception is thrown again, the body of each algorithm runs at most
  once, however many sequences it is a member of, whatever the bodies return, throw or register
  in the store and wherever the event is aborted; only a top algorithm or an output stream that is
  no sequence runs whether it ran before or not, so it must not come after what contains it. The
  bodies that ran are those whose algorithm is \<open>Done\<close> at the end.
\<close>

theorem bodies_run_once:
  assumes "no_rethrow cfg" and "served_in ctx N st" and "se_ran st = []"
    and "known_algs (tree_leaves (tops @ streams)) N (tops @ streams)" and "top_order {} (tops @ streams)"
    and "executeEvent_serial cfg tops streams ctx st = (sc, st')"
  shows "distinct (se_ran st') \<and> set (se_ran st') \<subseteq> tree_leaves (tops @ streams) \<and>
    (\<forall>n \<in> tree_leaves (tops @ streams). n \<in> set (se_ran st') \<longleftrightarrow> ae_state (at ctx st' n) = RS_Done)"
proof -
  let ?L = "tree_leaves (tops @ streams)"
  obtain s0 where s0: "xs_reset (sc_execs cfg) ctx (se_svc st) = Inr s0" "served ctx N s0"
    "\<And>n. n \<in> N \<Longrightarrow> state_at ctx s0 n = new_alg_exec"
    using xs_reset_served [OF assms(2), of "sc_execs cfg"] by metis
  have L: "?L \<subseteq> N" using assms(4) unfolding known_algs_def by blast
  have "ran_once ?L N ctx (st\<lparr>se_svc := s0\<rparr>)"
    using s0(2,3) assms(3) L by (auto simp: ran_once_def new_alg_exec_def)
  moreover obtain failed st1 where st1: "run_tops cfg ctx tops False (st\<lparr>se_svc := s0\<rparr>) = (failed, st1)" by fastforce
  moreover have k: "known_algs ?L N tops" "known_algs ?L N streams" using assms(4) by (auto simp: known_algs_def)
  ultimately have tops: "ran_once ?L N ctx st1" "set (se_ran st1) \<subseteq> tree_leaves tops"
    using once_tops [OF assms(1) k(1), of ctx "st\<lparr>se_svc := s0\<rparr>" "{}" False] assms(3,5) by (auto simp: top_order_append)
  show ?thesis
  proof (cases "updateEventStatus (sc_execs cfg) failed ctx (se_svc st1)")
    case (Inl e)
    then show ?thesis using assms(6) tops(1) s0(1) st1 by (auto simp: executeEvent_serial_def ran_once_def)
  next
    case (Inr s2)
    have "state_at ctx s2 = at ctx st1 \<and> served ctx N s2"
      using Inr tops(1) by (auto simp: updateEventStatus_def call_once_def ran_once_def served_def state_at_def fun_eq_iff split: if_splits)
    then have "ran_once ?L N ctx (st1\<lparr>se_svc := s2, se_abortEvent := False\<rparr>)" using tops(1) by (simp add: ran_once_def)
    then have "ran_once ?L N ctx (snd (run_streams cfg ctx streams failed (st1\<lparr>se_svc := s2, se_abortEvent := False\<rparr>)))"
      using once_streams [OF assms(1) k(2)] tops(2) assms(5) by (simp add: top_order_append)
    then show ?thesis using assms(6) s0(1) st1 Inr by (auto simp: executeEvent_serial_def ran_once_def split: option.splits prod.splits)
  qed
qed

end
