(* ===== verification/Sequencer_Values.thy ===== *)
theory Sequencer_Values
  imports Sequencer_Facts
begin

text \<open>
  The decision of a tree of sequences as a formula over the decisions of its algorithms, and that
  the serial execution of an event, with its early ends and its members shared by several
  sequences, leaves exactly that in the execution states.
\<close>

section \<open>The formula\<close>

text \<open>
  A \<open>Sequencer\<close> with \<open>StopOverride\<close> takes the last member's decision; else all must pass, or the
  branch does, which is consulted when the member that failed heads it.
\<close>

definition main_or_branch :: "bool \<Rightarrow> (string \<times> bool) list \<Rightarrow> (string \<times> bool) list \<Rightarrow> bool" where
  "main_or_branch stop ms bs \<longleftrightarrow>
     (if stop then ms = [] \<or> snd (last ms)
      else list_all snd ms \<or>
        bs \<noteq> [] \<and> fst (hd (dropWhile snd ms)) = fst (hd bs) \<and> tl bs \<noteq> [] \<and> list_all snd (tl bs))"

fun passes :: "(string \<Rightarrow> bool) \<Rightarrow> alg \<Rightarrow> bool" where
  "passes v (Algorithm p) \<longleftrightarrow> \<not> ac_isEnabled (al_config p) \<or> v (al_name p)"
| "passes v (Gaudi_sequencer p q es) \<longleftrightarrow>
     (let ms = map (\<lambda>(a, r). (isEnabled a, passes v a \<noteq> r)) es
      in \<not> ac_isEnabled (al_config p) \<or> sq_ignoreFilter q \<or> es = [] \<or>
         sq_invert q \<noteq> (if sq_modeOR q then list_ex (\<lambda>(e, b). e \<and> b) ms else list_all (\<lambda>(e, b). e \<longrightarrow> b) ms))"
| "passes v (Sequencer p stop ms bs) \<longleftrightarrow>
     \<not> ac_isEnabled (al_config p) \<or>
     main_or_branch stop (map (\<lambda>(a, r). (alg_name a, passes v a \<noteq> r)) ms) (map (\<lambda>(a, r). (alg_name a, passes v a \<noteq> r)) bs)"

fun subs :: "alg \<Rightarrow> alg set" where
  "subs (Algorithm p) = {Algorithm p}"
| "subs (Gaudi_sequencer p q es) = insert (Gaudi_sequencer p q es) (\<Union>(a, r) \<in> set es. subs a)"
| "subs (Sequencer p stop ms bs) = insert (Sequencer p stop ms bs) (\<Union>(a, r) \<in> set ms \<union> set bs. subs a)"

abbreviation names_of :: "alg \<Rightarrow> string set" where
  "names_of a \<equiv> alg_name ` subs a"

text \<open>A name stands for one algorithm, and none looks at the event store before it executes.\<close>

definition wf_app :: "(string \<Rightarrow> alg) \<Rightarrow> alg \<Rightarrow> bool" where
  "wf_app T a \<longleftrightarrow> (\<forall>b \<in> subs a. T (alg_name b) = b \<and> al_vetoObjs (props_of b) = [] \<and> al_requireObjs (props_of b) = [])"

text \<open>
  The bodies succeed and decide, whatever is in the store. Those in \<open>D\<close> may say no by their status,
  \<open>FilterDecision::FAILED\<close>, as functional algorithms do; the others only by their filter flag.
\<close>

definition decide :: "serial_config \<Rightarrow> string set \<Rightarrow> (string \<Rightarrow> bool) \<Rightarrow> bool" where
  "decide cfg D v \<longleftrightarrow> (\<forall>n objs. let b = act_body (sc_bodies cfg n objs)
     in \<exists>sc. ab_outcome b = Returns sc \<and> status_success sc \<and> (sc = Filter_decision False \<longrightarrow> n \<in> D) \<and>
          v n = (sc \<noteq> Filter_decision False \<and> ab_setFilterPassed b \<noteq> Some False))"

text \<open>
  A sequence returns the status of the member that it executed last, so that \<open>sysExecute\<close>, which
  reads \<open>FilterDecision::FAILED\<close> as a decision, may undo what the sequence decided. It does not where
  the sequence returns none of its members' \<open>FAILED\<close>, or none that is not also its own decision.
\<close>

fun announces :: "string set \<Rightarrow> alg \<Rightarrow> bool" where
  "announces D (Algorithm p) \<longleftrightarrow> al_name p \<in> D"
| "announces D (Gaudi_sequencer p q es) \<longleftrightarrow> \<not> sq_returnOK q \<and> (\<exists>(a, r) \<in> set es. announces D a)"
| "announces D (Sequencer p stop ms bs) \<longleftrightarrow> (\<exists>(a, r) \<in> set ms \<union> set bs. announces D a)"

definition heard :: "string set \<Rightarrow> seq_props \<Rightarrow> (alg \<times> bool) list \<Rightarrow> bool" where
  "heard D q es \<longleftrightarrow> sq_returnOK q \<or> (\<forall>(a, r) \<in> set es. \<not> announces D a) \<or>
     \<not> sq_modeOR q \<and> \<not> sq_ignoreFilter q \<and> \<not> sq_invert q \<and> (\<forall>(a, r) \<in> set es. announces D a \<longrightarrow> \<not> r)"

fun undisturbed :: "string set \<Rightarrow> alg \<Rightarrow> bool" where
  "undisturbed D (Algorithm p) \<longleftrightarrow> True"
| "undisturbed D (Gaudi_sequencer p q es) \<longleftrightarrow> heard D q es \<and> (\<forall>(a, r) \<in> set es. undisturbed D a)"
| "undisturbed D (Sequencer p stop ms bs) \<longleftrightarrow>
     (\<forall>(a, r) \<in> set ms \<union> set bs. (announces D a \<longrightarrow> \<not> r) \<and> undisturbed D a)"

text \<open>The status of an algorithm that decides as the formula says.\<close>

definition verdict :: "string set \<Rightarrow> (string \<Rightarrow> bool) \<Rightarrow> alg \<Rightarrow> alg_status \<Rightarrow> bool" where
  "verdict D v a s \<longleftrightarrow> status_success s \<and> (s = Filter_decision False \<longrightarrow> announces D a \<and> \<not> passes v a)"

section \<open>States that agree with the formula\<close>

definition settled_to :: "(string \<Rightarrow> alg) \<Rightarrow> (string \<Rightarrow> bool) \<Rightarrow> string set \<Rightarrow> (string \<Rightarrow> alg_exec) \<Rightarrow> bool" where
  "settled_to T v B e \<longleftrightarrow> (\<forall>n \<in> B. ae_filterPassed (e n) = (ae_state (e n) = RS_Done \<longrightarrow> passes v (T n)))"

definition goes :: "(string \<Rightarrow> alg) \<Rightarrow> (string \<Rightarrow> bool) \<Rightarrow> string set \<Rightarrow> string set \<Rightarrow> event_context \<Rightarrow> serial \<Rightarrow> serial \<Rightarrow> bool" where
  "goes T v N B ctx st st' \<longleftrightarrow> served_in ctx N st' \<and> settled_to T v B (at ctx st') \<and>
     (\<forall>n. if n \<in> B then ae_state (at ctx st n) = RS_Done \<longrightarrow> ae_state (at ctx st' n) = RS_Done else at ctx st' n = at ctx st n)"

lemma goes_trans: "goes T v N B ctx st st' \<Longrightarrow> goes T v N B ctx st' st'' \<Longrightarrow> goes T v N B ctx st st''"
  unfolding goes_def by metis

text \<open>The same for all names but one.\<close>

definition others_go :: "string \<Rightarrow> string set \<Rightarrow> (string \<Rightarrow> alg_exec) \<Rightarrow> (string \<Rightarrow> alg_exec) \<Rightarrow> bool" where
  "others_go n B e e' \<longleftrightarrow>
     (\<forall>m. m \<noteq> n \<longrightarrow> (if m \<in> B then ae_state (e m) = RS_Done \<longrightarrow> ae_state (e' m) = RS_Done else e' m = e m))"

lemma others_go_trans: "others_go n B e e' \<Longrightarrow> others_go n B e' e'' \<Longrightarrow> others_go n B e e''"
  unfolding others_go_def by metis

lemma others_go_simps [simp]:
  "others_go n B e e" "others_go n B e (e'(n := x)) = others_go n B e e'" "others_go n B (e(n := x)) e' = others_go n B e e'"
  by (simp_all add: others_go_def)

lemma goes_others: "goes T v N B ctx st st' \<Longrightarrow> others_go n B (at ctx st) (at ctx st')"
  by (simp add: goes_def others_go_def)

lemma goes_outside: "goes T v N B ctx st st' \<Longrightarrow> n \<notin> B \<Longrightarrow> at ctx st' n = at ctx st n"
  unfolding goes_def by metis

lemma goes_done: "goes T v N B ctx st st' \<Longrightarrow> ae_state (at ctx st n) = RS_Done \<Longrightarrow> ae_state (at ctx st' n) = RS_Done"
  unfolding goes_def by metis

lemma goes_refl: "served_in ctx N st \<Longrightarrow> settled_to T v B (at ctx st) \<Longrightarrow> goes T v N B ctx st st"
  by (simp add: goes_def)

lemma goes_mono:
  assumes "goes T v N A ctx st st'" and "A \<subseteq> B" and "settled_to T v B (at ctx st)"
  shows "goes T v N B ctx st st'"
  unfolding goes_def settled_to_def
proof (intro conjI allI ballI)
  show "served_in ctx N st'" using assms(1) by (simp add: goes_def)
  fix n
  show "if n \<in> B then ae_state (at ctx st n) = RS_Done \<longrightarrow> ae_state (at ctx st' n) = RS_Done else at ctx st' n = at ctx st n"
    using assms(2) goes_outside [OF assms(1)] goes_done [OF assms(1)] by auto
  show "ae_filterPassed (at ctx st' n) = (ae_state (at ctx st' n) = RS_Done \<longrightarrow> passes v (T n))" if "n \<in> B"
    using assms(1,3) that goes_outside [OF assms(1), of n] unfolding goes_def settled_to_def by (cases "n \<in> A") simp_all
qed

text \<open>A member whose \<open>sysExecute\<close> computes its formula.\<close>

definition good_member ::
  "string set \<Rightarrow> (string \<Rightarrow> alg) \<Rightarrow> (string \<Rightarrow> bool) \<Rightarrow> string set \<Rightarrow> string set \<Rightarrow> event_context \<Rightarrow> alg \<Rightarrow>
   (serial \<Rightarrow> alg_status option \<times> serial) \<Rightarrow> bool"
where
  "good_member D T v N B ctx a f \<longleftrightarrow> alg_name a \<in> B \<and> T (alg_name a) = a \<and>
     (\<forall>st. isEnabled a \<longrightarrow> served_in ctx N st \<longrightarrow> settled_to T v B (at ctx st) \<longrightarrow>
        (\<exists>s st'. f st = (Some s, st') \<and> verdict D v a s \<and> goes T v N B ctx st st' \<and> ae_state (at ctx st' (alg_name a)) = RS_Done))"

text \<open>Executing a member that is not done yet, in either kind of sequence.\<close>

lemma member_step:
  assumes "good_member D T v N B ctx a f" and "B \<subseteq> N" and "isEnabled a" and "served_in ctx N st" and "settled_to T v B (at ctx st)"
  obtains s st1 st2 result' where "get_state cfg (alg_name a) ctx st = Some (s, st1)"
    "(if ae_state s \<noteq> RS_Done then f st1 else (Some result, st1)) = (Some result', st2)"
    "result' = result \<or> verdict D v a result'"
    "goes T v N B ctx st st2" "ae_filterPassed (at ctx st2 (alg_name a)) = passes v a"
proof -
  have a: "alg_name a \<in> B" "T (alg_name a) = a" using assms(1) by (simp_all add: good_member_def)
  obtain st1 where st1: "get_state cfg (alg_name a) ctx st = Some (at ctx st (alg_name a), st1)" "served_in ctx N st1" "at ctx st1 = at ctx st"
    using get_state_ready [OF assms(4)] a(1) assms(2) by blast
  have settled1: "settled_to T v B (at ctx st1)" using assms(5) st1(3) by simp
  obtain result' st2 where st2: "(if ae_state (at ctx st (alg_name a)) \<noteq> RS_Done then f st1 else (Some result, st1)) = (Some result', st2)"
    "result' = result \<or> verdict D v a result'" "goes T v N B ctx st1 st2" "ae_state (at ctx st2 (alg_name a)) = RS_Done"
  proof (cases "ae_state (at ctx st (alg_name a)) = RS_Done")
    case True
    then show ?thesis using that goes_refl [OF st1(2) settled1] st1(3) by simp
  next
    case False
    obtain s st2 where "f st1 = (Some s, st2)" "verdict D v a s" "goes T v N B ctx st1 st2" "ae_state (at ctx st2 (alg_name a)) = RS_Done"
      using assms(1,3) st1(2) settled1 unfolding good_member_def by blast
    then show ?thesis using that False by simp
  qed
  have "ae_filterPassed (at ctx st2 (alg_name a)) = passes v a"
    using st2(3,4) a unfolding goes_def settled_to_def by simp
  then show ?thesis using that [OF st1(1) st2(1,2)] st2(3) st1(3) by (simp add: goes_def)
qed

section \<open>The loops\<close>

abbreviation members_of :: "(alg \<Rightarrow> serial \<Rightarrow> alg_status option \<times> serial) \<Rightarrow> (alg \<times> bool) list \<Rightarrow> member list" where
  "members_of F es \<equiv> map (\<lambda>(a, r). (props_of a, F a, r)) es"

abbreviation values_of_members :: "(string \<Rightarrow> bool) \<Rightarrow> (alg \<times> bool) list \<Rightarrow> (bool \<times> bool) list" where
  "values_of_members v es \<equiv> map (\<lambda>(a, r). (isEnabled a, passes v a \<noteq> r)) es"

definition latched :: "seq_props \<Rightarrow> bool \<Rightarrow> (bool \<times> bool) list \<Rightarrow> bool" where
  "latched q b vs = (if sq_modeOR q then b \<or> list_ex (\<lambda>(e, x). e \<and> x) vs else b \<and> list_all (\<lambda>(e, x). e \<longrightarrow> x) vs)"

lemma latched_Cons:
  "latched q b ((e, x) # vs) =
    (if \<not> e then latched q b vs else if (if sq_modeOR q then x else \<not> x) then x else latched q b vs)"
  "(if sq_modeOR q then x else \<not> x) \<Longrightarrow> latched q x vs = x"
  by (auto simp: latched_def split: if_splits)

text \<open>What the loop does with an enabled member.\<close>

lemma entries_step:
  assumes good: "good_member D T v N B ctx a sys" and "B \<subseteq> N" and en: "isEnabled a"
    and "served_in ctx N st" and "settled_to T v B (at ctx st)" and "status_success result"
  obtains st2 st3 result' where "goes T v N B ctx st st2" "goes T v N B ctx st st3" "result' = result \<or> verdict D v a result'"
    "\<forall>ms b. run_entries cfg ctx q ((props_of a, sys, r) # ms) b result st =
        (if sq_ignoreFilter q then run_entries cfg ctx q ms b result' st2
         else if (if sq_modeOR q then passes v a \<noteq> r else \<not> (passes v a \<noteq> r))
         then (if sq_shortCircuit q then (Seq_ended (passes v a \<noteq> r) result', st3)
               else run_entries cfg ctx q ms (passes v a \<noteq> r) result' st3)
         else run_entries cfg ctx q ms b result' st3)"
proof -
  obtain s st1 st2 result' where st2: "get_state cfg (alg_name a) ctx st = Some (s, st1)"
    "(if ae_state s \<noteq> RS_Done then sys st1 else (Some result, st1)) = (Some result', st2)"
    "result' = result \<or> verdict D v a result'"
    "goes T v N B ctx st st2" "ae_filterPassed (at ctx st2 (alg_name a)) = passes v a"
    by (rule member_step [OF assms(1-5)])
  have ok: "status_success result'" using st2(3) assms(6) by (auto simp: verdict_def)
  have r2: "served_in ctx N st2" using st2(4) by (simp add: goes_def)
  have "alg_name a \<in> N" using good assms(2) by (auto simp: good_member_def)
  then obtain st3 where st3: "get_state cfg (alg_name a) ctx st2 = Some (at ctx st2 (alg_name a), st3)" "served_in ctx N st3"
    "at ctx st3 = at ctx st2"
    using get_state_ready [OF r2(1)] by metis
  have "goes T v N B ctx st st3" using st2(4) st3(2,3) by (simp add: goes_def)
  then show ?thesis by (rule that [OF st2(4) _ st2(3)]) (use en ok st2(1,2,5) st3(1) in \<open>auto simp: isEnabled_def Let_def\<close>)
qed

text \<open>Some member said no, which the sequence may have to say as well.\<close>

definition said_no :: "string set \<Rightarrow> (string \<Rightarrow> bool) \<Rightarrow> (alg \<times> bool) list \<Rightarrow> bool" where
  "said_no D v es \<longleftrightarrow> (\<exists>(a, r) \<in> set es. isEnabled a \<and> announces D a \<and> \<not> passes v a)"

lemma entries_value:
  assumes "\<forall>(a, r) \<in> set es. good_member D T v N B ctx a (F a)" and "B \<subseteq> N"
    and "served_in ctx N st" and "settled_to T v B (at ctx st)" and "status_success result"
  shows "\<exists>st' b' result'. run_entries cfg ctx q (members_of F es) b result st = (Seq_ended b' result', st') \<and>
    goes T v N B ctx st st' \<and> (\<not> sq_ignoreFilter q \<longrightarrow> b' = latched q b (values_of_members v es)) \<and>
    status_success result' \<and> (result' = result \<or> (result' = Filter_decision False \<longrightarrow> said_no D v es))"
  using assms
proof (induction es arbitrary: b st result)
  case Nil
  then show ?case by (simp add: latched_def goes_refl)
next
  case (Cons e es)
  obtain a r where e: "e = (a, r)" by (cases e)
  have good: "good_member D T v N B ctx a (F a)" and es: "\<forall>(a, r) \<in> set es. good_member D T v N B ctx a (F a)"
    using Cons.prems(1) by (simp_all add: e)
  show ?case
  proof (cases "isEnabled a")
    case False
    then show ?thesis using Cons.IH [OF es Cons.prems(2-5), of b] by (simp add: e isEnabled_def latched_Cons said_no_def)
  next
    case True
    obtain st2 st3 res where g: "goes T v N B ctx st st2" "goes T v N B ctx st st3" and res: "res = result \<or> verdict D v a res"
      and all_eq: "\<forall>ms b. run_entries cfg ctx q ((props_of a, F a, r) # ms) b result st =
        (if sq_ignoreFilter q then run_entries cfg ctx q ms b res st2
         else if (if sq_modeOR q then passes v a \<noteq> r else \<not> (passes v a \<noteq> r))
         then (if sq_shortCircuit q then (Seq_ended (passes v a \<noteq> r) res, st3)
               else run_entries cfg ctx q ms (passes v a \<noteq> r) res st3)
         else run_entries cfg ctx q ms b res st3)"
      by (rule entries_step [OF good Cons.prems(2) True Cons.prems(3-5), where cfg = cfg and q = q and r = r])
    note eq = all_eq [THEN spec, THEN spec]
    have ok: "status_success res" using res Cons.prems(5) by (auto simp: verdict_def)
    have no: "res = result \<or> (res = Filter_decision False \<longrightarrow> said_no D v (e # es))" "said_no D v es \<Longrightarrow> said_no D v (e # es)"
      using res True by (auto simp: said_no_def verdict_def e)
    have rest: "\<exists>st' b' result'. run_entries cfg ctx q (members_of F es) b res st1 = (Seq_ended b' result', st') \<and>
        goes T v N B ctx st st' \<and> (\<not> sq_ignoreFilter q \<longrightarrow> b' = latched q b (values_of_members v es)) \<and>
        status_success result' \<and> (result' = result \<or> (result' = Filter_decision False \<longrightarrow> said_no D v (e # es)))"
      if "goes T v N B ctx st st1" for b st1
    proof -
      have "served_in ctx N st1" "settled_to T v B (at ctx st1)" using that by (simp_all add: goes_def)
      from Cons.IH [OF es Cons.prems(2) this ok, of b] show ?thesis using goes_trans [OF that] no by blast
    qed
    have val: "latched q b (values_of_members v (e # es)) =
        (if (if sq_modeOR q then passes v a \<noteq> r else \<not> (passes v a \<noteq> r)) then (passes v a \<noteq> r) else latched q b (values_of_members v es))"
      using True by (simp add: e latched_Cons)
    have es_eq: "members_of F (e # es) = (props_of a, F a, r) # members_of F es" by (simp add: e)
    show ?thesis
    proof (cases "if sq_modeOR q then passes v a \<noteq> r else \<not> (passes v a \<noteq> r)")
      case latch: True
      show ?thesis
        unfolding val es_eq eq if_P [OF latch]
        using rest [OF g(1), of b] rest [OF g(2), of "passes v a \<noteq> r"] g(2) ok no(1) latched_Cons(2) [OF latch, of "values_of_members v es"]
        by (cases "sq_ignoreFilter q"; cases "sq_shortCircuit q") auto
    next
      case False
      show ?thesis unfolding val es_eq eq if_not_P [OF False]
        using rest [OF g(1), of b] rest [OF g(2), of b] by (cases "sq_ignoreFilter q") auto
    qed
  qed
qed

lemma passes_disabled: "\<not> isEnabled a \<Longrightarrow> passes v a"
  by (cases a) (simp_all add: isEnabled_def Let_def)

lemma member_taken:
  assumes good: "good_member D T v N B ctx a (F a)" and B: "B \<subseteq> N" and n: "n \<in> N - B"
    and r: "served_in ctx N st" "settled_to T v B (at ctx st)"
  obtains st' res where
    "\<forall>ms result. run_members cfg ctx n stop (members_of F ((a, r) # ms)) result last_alg st =
      (if \<not> stop \<and> \<not> (passes v a \<noteq> r) then (Some res, Some (alg_name a), st')
       else run_members cfg ctx n stop (members_of F ms) res (Some (alg_name a)) st')"
    "verdict D v a res"
    "served_in ctx N st'" "settled_to T v B (at ctx st')" "at ctx st' n = (at ctx st n)\<lparr>ae_filterPassed := (passes v a \<noteq> r)\<rparr>"
    "others_go n B (at ctx st) (at ctx st')"
proof -
  have a: "alg_name a \<in> B" "alg_name a \<in> N" "T (alg_name a) = a" using good B by (auto simp: good_member_def)
  have none: "verdict D v a (Gaudi_code SUCCESS)" by (simp add: verdict_def)
  obtain res st2 where st2: "executeMember cfg ctx (props_of a, F a, r) st = (Some res, st2)" "verdict D v a res" "goes T v N B ctx st st2"
    "ae_filterPassed (at ctx st2 (alg_name a)) = passes v a"
  proof (cases "isEnabled a")
    case True
    obtain s st1 st2 res where "get_state cfg (alg_name a) ctx st = Some (s, st1)"
      "(if ae_state s \<noteq> RS_Done then F a st1 else (Some (Gaudi_code SUCCESS), st1)) = (Some res, st2)"
      "res = Gaudi_code SUCCESS \<or> verdict D v a res"
      "goes T v N B ctx st st2" "ae_filterPassed (at ctx st2 (alg_name a)) = passes v a"
      by (rule member_step [OF good B True r])
    then show ?thesis using that [of res st2] True none by (auto simp: executeMember_def isEnabled_def)
  next
    case False
    then show ?thesis
      using that [OF _ none, of st] goes_refl [OF r] passes_disabled [OF False] r(2) a(1,3)
      by (simp add: executeMember_def isEnabled_def settled_to_def)
  qed
  obtain st3 where st3: "get_state cfg (alg_name a) ctx st2 = Some (at ctx st2 (alg_name a), st3)" "served_in ctx N st3"
    "at ctx st3 = at ctx st2"
    using get_state_ready st2(3) a(2) unfolding goes_def by metis
  obtain st4 where st4: "upd_state cfg n ctx (\<lambda>s. s\<lparr>ae_filterPassed := (passes v a \<noteq> r)\<rparr>) st3 = Some st4" "served_in ctx N st4"
    "at ctx st4 = (at ctx st3)(n := (at ctx st3 n)\<lparr>ae_filterPassed := (passes v a \<noteq> r)\<rparr>)"
    using upd_state_ready [OF st3(2)] n by (metis DiffD1)
  have "(if r then \<not> ae_filterPassed (at ctx st2 (alg_name a)) else ae_filterPassed (at ctx st2 (alg_name a))) = (passes v a \<noteq> r)"
    using st2(4) by simp
  moreover have "status_success res" using st2(2) by (simp add: verdict_def)
  ultimately have eq: "\<forall>ms result. run_members cfg ctx n stop (members_of F ((a, r) # ms)) result last_alg st =
      (if \<not> stop \<and> \<not> (passes v a \<noteq> r) then (Some res, Some (alg_name a), st4)
       else run_members cfg ctx n stop (members_of F ms) res (Some (alg_name a)) st4)"
    using st2(1) st3(1) st4(1) by (simp add: Let_def del: not_iff)
  show ?thesis
    by (rule that [OF eq st2(2) st4(2)]) (use st2(3) goes_others [OF st2(3), of n] st3(3) st4(3) n in \<open>auto simp: goes_def settled_to_def\<close>)
qed

definition members_pass :: "bool \<Rightarrow> bool \<Rightarrow> (string \<times> bool) list \<Rightarrow> bool" where
  "members_pass stop b ms = (if ms = [] then b else if stop then snd (last ms) else list_all snd ms)"

abbreviation named_values :: "(string \<Rightarrow> bool) \<Rightarrow> (alg \<times> bool) list \<Rightarrow> (string \<times> bool) list" where
  "named_values v ms \<equiv> map (\<lambda>(a, r). (alg_name a, passes v a \<noteq> r)) ms"

text \<open>None whose status may be \<open>FAILED\<close> is inverted.\<close>

definition upright :: "string set \<Rightarrow> (alg \<times> bool) list \<Rightarrow> bool" where
  "upright D ms \<longleftrightarrow> (\<forall>(a, r) \<in> set ms. announces D a \<longrightarrow> \<not> r)"

text \<open>The status of a list: a \<open>FAILED\<close> comes from a member, and the flag says the same.\<close>

definition list_status :: "string set \<Rightarrow> (alg \<times> bool) list \<Rightarrow> alg_status \<Rightarrow> bool \<Rightarrow> bool" where
  "list_status D ms s passed \<longleftrightarrow> status_success s \<and>
     (s = Filter_decision False \<longrightarrow> \<not> passed \<and> (\<exists>(a, r) \<in> set ms. announces D a))"

lemma members_value:
  assumes "\<forall>(a, r) \<in> set ms. good_member D T v N B ctx a (F a)" and "B \<subseteq> N" and "n \<in> N - B"
    and "served_in ctx N st" and "settled_to T v B (at ctx st)" and "upright D ms"
  shows "\<exists>res last_alg' st'. run_members cfg ctx n stop (members_of F ms) result last_alg st = (Some res, last_alg', st') \<and>
    (if ms = [] then res = result else list_status D ms res (members_pass stop b (named_values v ms))) \<and>
    served_in ctx N st' \<and> settled_to T v B (at ctx st') \<and> (others_go n B (at ctx st) (at ctx st')) \<and>
    at ctx st' n = (at ctx st n)\<lparr>ae_filterPassed := members_pass stop (ae_filterPassed (at ctx st n)) (named_values v ms)\<rparr> \<and>
    (\<not> stop \<and> \<not> list_all snd (named_values v ms) \<longrightarrow> last_alg' = Some (fst (hd (dropWhile snd (named_values v ms)))))"
  using assms
proof (induction ms arbitrary: result last_alg st b)
  case Nil
  then show ?case by (simp add: members_pass_def)
next
  case (Cons m ms)
  obtain a r where m: "m = (a, r)" by (cases m)
  have good: "good_member D T v N B ctx a (F a)" and ms: "\<forall>(a, r) \<in> set ms. good_member D T v N B ctx a (F a)"
    and up: "announces D a \<longrightarrow> \<not> r" "upright D ms"
    using Cons.prems(1,6) by (simp_all add: m upright_def)
  obtain st1 res where st1: "\<forall>ms result. run_members cfg ctx n stop (members_of F ((a, r) # ms)) result last_alg st =
      (if \<not> stop \<and> \<not> (passes v a \<noteq> r) then (Some res, Some (alg_name a), st1)
       else run_members cfg ctx n stop (members_of F ms) res (Some (alg_name a)) st1)"
    "verdict D v a res"
    "served_in ctx N st1" "settled_to T v B (at ctx st1)" "at ctx st1 n = (at ctx st n)\<lparr>ae_filterPassed := (passes v a \<noteq> r)\<rparr>"
    "others_go n B (at ctx st) (at ctx st1)"
    by (rule member_taken [where F = F and a = a, OF good Cons.prems(2-5)])
  have res: "list_status D (m # ms) res (passes v a \<noteq> r)" using st1(2) up(1) by (auto simp: verdict_def list_status_def m)
  show ?case
  proof (cases "\<not> stop \<and> \<not> (passes v a \<noteq> r)")
    case True
    then show ?thesis using st1(1,3-6) res by (simp add: m members_pass_def)
  next
    case False
    have mp: "members_pass stop (passes v a \<noteq> r) (named_values v ms) = members_pass stop b (named_values v (m # ms))" for b
      using False by (cases "ms = []") (auto simp: m members_pass_def)
    obtain res2 last2 st2 where st2: "run_members cfg ctx n stop (members_of F ms) res (Some (alg_name a)) st1 = (Some res2, last2, st2)"
      "if ms = [] then res2 = res else list_status D ms res2 (members_pass stop (passes v a \<noteq> r) (named_values v ms))"
      "served_in ctx N st2" "settled_to T v B (at ctx st2)" "others_go n B (at ctx st1) (at ctx st2)"
      "at ctx st2 n = (at ctx st1 n)\<lparr>ae_filterPassed := members_pass stop (ae_filterPassed (at ctx st1 n)) (named_values v ms)\<rparr>"
      "\<not> stop \<and> \<not> list_all snd (named_values v ms) \<longrightarrow> last2 = Some (fst (hd (dropWhile snd (named_values v ms))))"
      using Cons.IH [OF ms Cons.prems(2,3) st1(3,4) up(2), of res "Some (alg_name a)" "passes v a \<noteq> r"] by blast
    have "list_status D (m # ms) res2 (members_pass stop b (named_values v (m # ms)))"
      using st2(2) res unfolding mp [of b, symmetric] by (cases "ms = []") (auto simp: list_status_def members_pass_def)
    then show ?thesis using False st1(1,3-6) st2(1,3-7) others_go_trans [OF st1(6) st2(5)] mp by (auto simp: m)
  qed
qed

section \<open>Every algorithm computes its formula\<close>

lemma good_member_mono:
  assumes "good_member D T v N A ctx a f" and "A \<subseteq> B"
  shows "good_member D T v N B ctx a f"
  unfolding good_member_def
proof (intro conjI allI impI)
  show "alg_name a \<in> B" "T (alg_name a) = a" using assms by (auto simp: good_member_def)
  fix st assume st: "isEnabled a" "served_in ctx N st" "settled_to T v B (at ctx st)"
  then have "settled_to T v A (at ctx st)" using assms(2) by (auto simp: settled_to_def)
  then obtain s st' where "f st = (Some s, st')" "verdict D v a s" "goes T v N A ctx st st'" "ae_state (at ctx st' (alg_name a)) = RS_Done"
    using assms(1) st(1,2) unfolding good_member_def by blast
  then show "\<exists>s st'. f st = (Some s, st') \<and> verdict D v a s \<and> goes T v N B ctx st st' \<and> ae_state (at ctx st' (alg_name a)) = RS_Done"
    using goes_mono [OF _ assms(2) st(3)] by blast
qed

lemma member_size:
  "(a, r) \<in> set es \<Longrightarrow> size a < size (Gaudi_sequencer p q es)"
  "(a, r) \<in> set ms \<union> set bs \<Longrightarrow> size a < size (Sequencer p stop ms bs)"
  using alg_size [of a r es "\<lambda>_. 0" 0] alg_size [of a r ms "\<lambda>_. 0" "size_list (size_prod size (\<lambda>_. 0)) bs"]
    alg_size [of a r bs "\<lambda>_. 0" "size_list (size_prod size (\<lambda>_. 0)) ms"]
  by (auto simp: add.commute)

lemma subs_size: "b \<in> subs a \<Longrightarrow> size b \<le> size a"
proof (induction a)
  case (Gaudi_sequencer p q es)
  show ?case
  proof (cases "b = Gaudi_sequencer p q es")
    case False
    then obtain a r where a: "(a, r) \<in> set es" "b \<in> subs a" using Gaudi_sequencer.prems by auto
    have "size b \<le> size a" by (rule Gaudi_sequencer.IH [OF a(1) _ a(2)]) simp
    then show ?thesis using member_size(1) [OF a(1), of p q] by linarith
  qed simp
next
  case (Sequencer p stop ms bs)
  show ?case
  proof (cases "b = Sequencer p stop ms bs")
    case False
    then obtain a r where a: "(a, r) \<in> set ms \<union> set bs" "b \<in> subs a" using Sequencer.prems by auto
    have "size b \<le> size a" using a(1) Sequencer.IH(1) [OF _ _ a(2)] Sequencer.IH(2) [OF _ _ a(2)] by force
    then show ?thesis using member_size(2) [OF a(1), of p stop] by linarith
  qed simp
qed simp

lemma subs_self: "a \<in> subs a"
  by (cases a) simp_all

lemma subs_trans: "b \<in> subs a \<Longrightarrow> c \<in> subs b \<Longrightarrow> c \<in> subs a"
proof (induction a)
  case (Gaudi_sequencer p q es)
  then show ?case by (fastforce simp: fsts.simps)
next
  case (Sequencer p stop ms bs)
  then show ?case by (fastforce simp: fsts.simps)
qed simp

text \<open>\<open>sysExecute\<close> around an \<open>execute\<close> that succeeds.\<close>

lemma sys_execute_ready:
  assumes "ac_isEnabled (al_config p)" and "al_name p \<in> N" and "served_in ctx N st"
  obtains st1 where "served_in ctx N st1" "at ctx st1 = (at ctx st)(al_name p := (at ctx st (al_name p))\<lparr>ae_state := RS_Executing\<rparr>)"
    "\<forall>sc st2. execute st1 = (Returns sc, st2) \<longrightarrow> served_in ctx N st2 \<longrightarrow> status_success sc \<longrightarrow>
      (\<exists>st'. sys_execute cfg p ctx execute st = (Some sc, st') \<and> served_in ctx N st' \<and>
        at ctx st' = (at ctx st2)(al_name p := \<lparr>ae_filterPassed = (ae_filterPassed (at ctx st2 (al_name p)) \<and> sc \<noteq> Filter_decision False),
          ae_state = RS_Done, ae_execStatus = sc\<rparr>))"
proof -
  obtain st1 where st1: "upd_state cfg (al_name p) ctx (\<lambda>a. a\<lparr>ae_state := RS_Executing\<rparr>) st = Some st1" "served_in ctx N st1"
    "at ctx st1 = (at ctx st)(al_name p := (at ctx st (al_name p))\<lparr>ae_state := RS_Executing\<rparr>)"
    using upd_state_ready [OF assms(3,2)] by metis
  show ?thesis
  proof (rule that [OF st1(2,3)], intro allI impI)
    fix sc st2 assume e: "execute st1 = (Returns sc, st2)" "served_in ctx N st2" and sc: "status_success sc"
    obtain status st' where st': "after_execute cfg p ctx (Returns sc) st2 = (Some status, st')" "served_in ctx N st'" "same_but_svc st2 st'"
      "at ctx st' = (at ctx st2)(al_name p := \<lparr>ae_filterPassed = (ae_filterPassed (at ctx st2 (al_name p)) \<and> \<not> filter_failed (Returns sc)),
         ae_state = RS_Done, ae_execStatus = status\<rparr>)" "\<forall>s. Returns sc = Returns s \<longrightarrow> status_success s \<longrightarrow> status = s"
    proof (rule after_execute_ready [OF e(2) assms(2), of "Returns sc" cfg])
      show "Returns sc = Throws \<longrightarrow> ex_handle (sc_exceptions cfg) (al_name p) \<noteq> None" by simp
    qed (rule that)
    have "status = sc" using st'(5) sc by simp
    then show "\<exists>st'. sys_execute cfg p ctx execute st = (Some sc, st') \<and> served_in ctx N st' \<and>
        at ctx st' = (at ctx st2)(al_name p := \<lparr>ae_filterPassed = (ae_filterPassed (at ctx st2 (al_name p)) \<and> sc \<noteq> Filter_decision False),
          ae_state = RS_Done, ae_execStatus = sc\<rparr>)"
      using assms(1) st1(1) e(1) st'(1,2,4) by (auto simp: sys_execute_def)
  qed
qed

text \<open>What the body of an algorithm leaves.\<close>

lemma run_body_ready:
  assumes "served_in ctx N st" and "n \<in> N" and "a = sc_bodies cfg n (se_objects st)"
  obtains st' where "run_body cfg n ctx st = (ab_outcome (act_body a), st')" "served_in ctx N st'" "\<forall>m. m \<noteq> n \<longrightarrow> at ctx st' m = at ctx st m"
    "ae_filterPassed (at ctx st' n) = (case ab_setFilterPassed (act_body a) of None \<Rightarrow> ae_filterPassed (at ctx st n) | Some b \<Rightarrow> b)"
proof -
  let ?st = "st\<lparr>se_ran := se_ran st @ [n], se_objects := se_objects st @ act_objects a, se_abortEvent := (se_abortEvent st \<or> act_abort a)\<rparr>"
  show ?thesis
  proof (cases "ab_setFilterPassed (act_body a)")
    case None
    show ?thesis
      by (rule that [of ?st]) (use None assms(1) in \<open>simp_all add: run_body_def assms(3) [symmetric]\<close>)
  next
    case (Some b)
    have "served_in ctx N ?st" using assms(1) by simp
    then obtain st' where "upd_state cfg n ctx (\<lambda>s. s\<lparr>ae_filterPassed := b\<rparr>) ?st = Some st'" "served_in ctx N st'"
      "at ctx st' = (at ctx ?st)(n := (at ctx ?st n)\<lparr>ae_filterPassed := b\<rparr>)"
      by (rule upd_state_ready [OF _ assms(2)])
    note st' = this
    show ?thesis
      by (rule that [of st']) (use Some st' in \<open>simp_all add: run_body_def assms(3) [symmetric]\<close>)
  qed
qed

lemma body_good:
  assumes "decide cfg D v" and "T (al_name p) = Algorithm p" and "al_name p \<in> N" and "al_vetoObjs p = []" and "al_requireObjs p = []"
  shows "good_member D T v N {al_name p} ctx (Algorithm p) (run_alg cfg ctx (Algorithm p))"
  unfolding good_member_def
proof (intro conjI allI impI)
  let ?n = "al_name p" and ?A = "Algorithm p"
  fix st assume st: "isEnabled ?A" "served_in ctx N st" "settled_to T v {?n} (at ctx st)"
  have on: "ac_isEnabled (al_config p)" using st(1) by (simp add: isEnabled_def)
  let ?body = "run_body cfg ?n ctx"
  obtain st1 where st1: "served_in ctx N st1" "at ctx st1 = (at ctx st)(?n := (at ctx st ?n)\<lparr>ae_state := RS_Executing\<rparr>)"
    "\<forall>sc st2. ?body st1 = (Returns sc, st2) \<longrightarrow> served_in ctx N st2 \<longrightarrow> status_success sc \<longrightarrow>
      (\<exists>st'. sys_execute cfg p ctx ?body st = (Some sc, st') \<and> served_in ctx N st' \<and>
        at ctx st' = (at ctx st2)(?n := \<lparr>ae_filterPassed = (ae_filterPassed (at ctx st2 ?n) \<and> sc \<noteq> Filter_decision False),
          ae_state = RS_Done, ae_execStatus = sc\<rparr>))"
    by (rule sys_execute_ready [OF on assms(3) st(2), where execute = ?body and cfg = cfg])
  let ?a = "sc_bodies cfg ?n (se_objects st1)"
  obtain sc where sc: "ab_outcome (act_body ?a) = Returns sc" "status_success sc" "sc = Filter_decision False \<longrightarrow> ?n \<in> D"
    "v ?n = (sc \<noteq> Filter_decision False \<and> ab_setFilterPassed (act_body ?a) \<noteq> Some False)"
    using assms(1) by (auto simp: decide_def Let_def)
  obtain st2 where st2: "?body st1 = (ab_outcome (act_body ?a), st2)" "served_in ctx N st2" "\<forall>m. m \<noteq> ?n \<longrightarrow> at ctx st2 m = at ctx st1 m"
    "ae_filterPassed (at ctx st2 ?n) = (case ab_setFilterPassed (act_body ?a) of None \<Rightarrow> ae_filterPassed (at ctx st1 ?n) | Some b \<Rightarrow> b)"
    by (rule run_body_ready [OF st1(1) assms(3) refl])
  obtain st' where st': "sys_execute cfg p ctx ?body st = (Some sc, st')" "served_in ctx N st'"
    "at ctx st' = (at ctx st2)(?n := \<lparr>ae_filterPassed = (ae_filterPassed (at ctx st2 ?n) \<and> sc \<noteq> Filter_decision False),
       ae_state = RS_Done, ae_execStatus = sc\<rparr>)"
    using st1(3) st2(1,2) sc(1,2) by metis
  have A: "passes v ?A = v ?n" using on by simp
  have "ae_filterPassed (at ctx st ?n) = (ae_state (at ctx st ?n) = RS_Done \<longrightarrow> v ?n)"
    using st(3) assms(2) A by (simp add: settled_to_def del: passes.simps)
  then have "(ae_filterPassed (at ctx st2 ?n) \<and> sc \<noteq> Filter_decision False) = v ?n"
    using st2(4) st1(2) sc(4) by (auto split: option.splits)
  then have "ae_filterPassed (at ctx st' ?n) = passes v ?A" using st'(3) A by simp
  then have "goes T v N {?n} ctx st st'"
    using st'(2,3) st2(3) st1(2) assms(2) by (simp add: goes_def settled_to_def del: passes.simps)
  moreover have "verdict D v ?A sc" using sc A by (simp add: verdict_def del: passes.simps)
  moreover have "run_alg cfg ctx ?A st = (Some sc, st')" using st'(1) assms(4,5) by (simp add: guarded_def may_execute_def)
  ultimately show "\<exists>s st'. run_alg cfg ctx ?A st = (Some s, st') \<and> verdict D v ?A s \<and> goes T v N {?n} ctx st st' \<and>
      ae_state (at ctx st' (alg_name ?A)) = RS_Done"
    using st'(3) by (auto simp del: run_alg.simps)
qed (use assms(2) in simp_all)

lemma passes_gaudi:
  "ac_isEnabled (al_config p) \<Longrightarrow> passes v (Gaudi_sequencer p q es) \<longleftrightarrow>
    sq_ignoreFilter q \<or> es = [] \<or> sq_invert q \<noteq> latched q (\<not> sq_modeOR q) (values_of_members v es)"
  by (simp add: latched_def Let_def)

lemma heard_verdict:
  assumes "heard D q es" and "ac_isEnabled (al_config p)" and "said_no D v es" and "\<not> sq_returnOK q"
  shows "verdict D v (Gaudi_sequencer p q es) (Filter_decision False)"
proof -
  obtain a r where a: "(a, r) \<in> set es" "isEnabled a" "announces D a" "\<not> passes v a" using assms(3) by (auto simp: said_no_def)
  then have q: "\<not> sq_modeOR q" "\<not> sq_ignoreFilter q" "\<not> sq_invert q" "\<not> r" using assms(1,4) by (auto simp: heard_def)
  have "\<not> latched q True (values_of_members v es)" using q(1,4) a by (force simp: latched_def list_all_iff)
  then have "\<not> passes v (Gaudi_sequencer p q es)" unfolding passes_gaudi [OF assms(2)] using q a(1) by auto
  moreover have "announces D (Gaudi_sequencer p q es)" using a assms(4) by auto
  ultimately show ?thesis by (simp add: verdict_def)
qed

lemma gaudi_good:
  assumes ms: "\<forall>(a, r) \<in> set es. good_member D T v N U ctx a (run_alg cfg ctx a)" and U: "U \<subseteq> N" "al_name p \<in> N - U"
    and T: "T (al_name p) = Gaudi_sequencer p q es" and store: "al_vetoObjs p = []" "al_requireObjs p = []" and heard: "heard D q es"
  shows "good_member D T v N (insert (al_name p) U) ctx (Gaudi_sequencer p q es) (run_alg cfg ctx (Gaudi_sequencer p q es))"
  unfolding good_member_def
proof (intro conjI allI impI)
  let ?n = "al_name p" and ?a = "Gaudi_sequencer p q es"
  fix st assume st: "isEnabled ?a" "served_in ctx N st" "settled_to T v (insert ?n U) (at ctx st)"
  have on: "ac_isEnabled (al_config p)" using st(1) by (simp add: isEnabled_def)
  let ?loop = "run_entries cfg ctx q (members_of (run_alg cfg ctx) es) (\<not> sq_modeOR q) (Gaudi_code SUCCESS)"
  let ?ex = "\<lambda>st. gs_finish cfg p q (es \<noteq> []) ctx (?loop st)"
  obtain st1 where st1: "served_in ctx N st1" "at ctx st1 = (at ctx st)(?n := (at ctx st ?n)\<lparr>ae_state := RS_Executing\<rparr>)"
    "\<forall>sc st2. ?ex st1 = (Returns sc, st2) \<longrightarrow> served_in ctx N st2 \<longrightarrow> status_success sc \<longrightarrow>
      (\<exists>st'. sys_execute cfg p ctx ?ex st = (Some sc, st') \<and> served_in ctx N st' \<and>
        at ctx st' = (at ctx st2)(?n := \<lparr>ae_filterPassed = (ae_filterPassed (at ctx st2 ?n) \<and> sc \<noteq> Filter_decision False),
          ae_state = RS_Done, ae_execStatus = sc\<rparr>))"
    by (rule sys_execute_ready [OF on _ st(2), where execute = ?ex and cfg = cfg]) (use U(2) in auto)
  have "settled_to T v U (at ctx st1)" using st(3) st1(2) U(2) by (simp add: settled_to_def)
  then obtain st2 b res where st2: "?loop st1 = (Seq_ended b res, st2)"
    "goes T v N U ctx st1 st2" "\<not> sq_ignoreFilter q \<longrightarrow> b = latched q (\<not> sq_modeOR q) (values_of_members v es)"
    "status_success res" "res = Filter_decision False \<longrightarrow> said_no D v es"
    using entries_value [OF ms U(1) st1(1), of "Gaudi_code SUCCESS" cfg q "\<not> sq_modeOR q"] by auto
  define sc where "sc = (if sq_returnOK q then Gaudi_code SUCCESS else res)"
  have sc: "status_success sc" "sc = Filter_decision False \<longrightarrow> \<not> passes v ?a" "verdict D v ?a sc"
    using heard_verdict [OF heard on] st2(4,5) unfolding sc_def by (auto simp: verdict_def simp del: passes.simps announces.simps)
  let ?f = "\<lambda>a. a\<lparr>ae_filterPassed := (if \<not> sq_ignoreFilter q \<and> es \<noteq> [] then (if sq_invert q then \<not> b else b) else ae_filterPassed a),
                  ae_state := RS_Done\<rparr>"
  have r2: "served_in ctx N st2" using st2(2) by (simp add: goes_def)
  obtain st3 where st3: "upd_state cfg ?n ctx ?f st2 = Some st3" "served_in ctx N st3" "at ctx st3 = (at ctx st2)(?n := ?f (at ctx st2 ?n))"
    by (rule upd_state_ready [OF r2]) (use U(2) in auto)
  have "?ex st1 = (Returns sc, st3)" using st2(1) st3(1) by (simp add: gs_finish_def sc_def)
  then obtain st' where st': "sys_execute cfg p ctx ?ex st = (Some sc, st')" "served_in ctx N st'"
    "at ctx st' = (at ctx st3)(?n := \<lparr>ae_filterPassed = (ae_filterPassed (at ctx st3 ?n) \<and> sc \<noteq> Filter_decision False), ae_state = RS_Done, ae_execStatus = sc\<rparr>)"
    using st1(3) st3(2) sc(1) by blast
  have "at ctx st2 ?n = at ctx st1 ?n" using st2(2) U(2) by (simp add: goes_def)
  then have "ae_filterPassed (at ctx st3 ?n) = passes v ?a"
    using st3(3) st2(3) st1(2) st(3) T passes_gaudi [OF on, of v q es] by (auto simp: settled_to_def simp del: passes.simps)
  then have "ae_filterPassed (at ctx st' ?n) = passes v ?a" using st'(3) sc(2) by (auto simp del: passes.simps)
  then have "goes T v N (insert ?n U) ctx st st'"
    using st'(2,3) st3(3) st2(2) st1(2) T by (simp add: goes_def settled_to_def del: passes.simps)
  moreover have "run_alg cfg ctx ?a st = (Some sc, st')"
    using st'(1) store by (simp add: guarded_def may_execute_def)
  ultimately show "\<exists>s st'. run_alg cfg ctx ?a st = (Some s, st') \<and> verdict D v ?a s \<and> goes T v N (insert ?n U) ctx st st' \<and>
      ae_state (at ctx st' (alg_name ?a)) = RS_Done"
    using st'(3) sc(3) by (auto simp del: run_alg.simps)
qed (use T in simp_all)

text \<open>\<open>Sequencer::execute\<close>: its members, and its branch.\<close>

definition only_own :: "(string \<Rightarrow> alg) \<Rightarrow> (string \<Rightarrow> bool) \<Rightarrow> string set \<Rightarrow> string set \<Rightarrow> string \<Rightarrow> event_context \<Rightarrow> serial \<Rightarrow> serial \<Rightarrow> bool" where
  "only_own T v N U n ctx st st' \<longleftrightarrow> served_in ctx N st' \<and> settled_to T v U (at ctx st') \<and>
     (others_go n U (at ctx st) (at ctx st')) \<and> (ae_state (at ctx st n) \<noteq> RS_Done \<longrightarrow> ae_state (at ctx st' n) \<noteq> RS_Done)"

lemma only_own_trans: "only_own T v N U n ctx st st' \<Longrightarrow> only_own T v N U n ctx st' st'' \<Longrightarrow> only_own T v N U n ctx st st''"
  by (auto simp: only_own_def intro: others_go_trans)

lemma only_own_get:
  assumes "served_in ctx N st" and "n \<in> N" and "settled_to T v U (at ctx st)"
  obtains st' where "get_state cfg n ctx st = Some (at ctx st n, st')" "at ctx st' = at ctx st" "only_own T v N U n ctx st st'"
proof -
  obtain st' where "get_state cfg n ctx st = Some (at ctx st n, st')" "served_in ctx N st'" "at ctx st' = at ctx st"
    by (rule get_state_ready [OF assms(1,2)])
  then show ?thesis using that assms(3) by (simp add: only_own_def)
qed

lemma set_branch_same: "at ctx (set_branch n ctx b st) = at ctx st" "served_in ctx N (set_branch n ctx b st) = served_in ctx N st"
  "only_own T v N U n ctx st' (set_branch n ctx b st) = only_own T v N U n ctx st' st"
  "only_own T v N U n ctx (set_branch n ctx b st') st = only_own T v N U n ctx st' st"
  by (simp_all add: set_branch_def only_own_def)

lemma sq_done_own:
  assumes "only_own T v N U (al_name p) ctx st st2" and "al_name p \<in> N - U"
  shows "\<exists>st'. sq_done cfg p ctx (Some res, st2) = (Returns res, st') \<and> served_in ctx N st' \<and> settled_to T v U (at ctx st') \<and>
    others_go (al_name p) U (at ctx st) (at ctx st') \<and> ae_filterPassed (at ctx st' (al_name p)) = ae_filterPassed (at ctx st2 (al_name p))"
proof -
  let ?n = "al_name p"
  have "served_in ctx N st2" "?n \<in> N" using assms by (simp_all add: only_own_def)
  then obtain st' where "upd_state cfg ?n ctx (\<lambda>a. a\<lparr>ae_state := RS_Done\<rparr>) st2 = Some st'" "served_in ctx N st'"
    "at ctx st' = (at ctx st2)(?n := (at ctx st2 ?n)\<lparr>ae_state := RS_Done\<rparr>)"
    by (rule upd_state_ready)
  then show ?thesis using assms by (auto simp: sq_done_def only_own_def settled_to_def)
qed

text \<open>A list of members as \<open>Sequencer::execute\<close> runs it, with the look at its own state behind.\<close>

lemma run_list:
  assumes "\<forall>(a, r) \<in> set ms. good_member D T v N U ctx a (F a)" and "U \<subseteq> N" and "n \<in> N - U"
    and "only_own T v N U n ctx st0 st" and "upright D ms"
  obtains res last_alg' st' st'' where
    "run_members cfg ctx n stop (members_of F ms) (Gaudi_code SUCCESS) None (set_branch n ctx False st) = (Some res, last_alg', st')"
    "if ms = [] then res = Gaudi_code SUCCESS \<and> last_alg' = None else list_status D ms res (ae_filterPassed (at ctx st' n))"
    "get_state cfg n ctx st' = Some (at ctx st' n, st'')" "at ctx st'' = at ctx st'" "only_own T v N U n ctx st0 st''"
    "ae_filterPassed (at ctx st' n) = members_pass stop (ae_filterPassed (at ctx st n)) (named_values v ms)"
    "\<not> stop \<and> \<not> list_all snd (named_values v ms) \<longrightarrow> last_alg' = Some (fst (hd (dropWhile snd (named_values v ms))))"
proof -
  let ?st = "set_branch n ctx False st" and ?b = "ae_filterPassed (at ctx st n)"
  have r: "served_in ctx N ?st" "settled_to T v U (at ctx ?st)" using assms(4) by (simp_all add: set_branch_same only_own_def)
  obtain res last_alg' st' where st': "run_members cfg ctx n stop (members_of F ms) (Gaudi_code SUCCESS) None ?st = (Some res, last_alg', st')"
    "if ms = [] then res = Gaudi_code SUCCESS else list_status D ms res (members_pass stop ?b (named_values v ms))"
    "served_in ctx N st'" "settled_to T v U (at ctx st')" "others_go n U (at ctx ?st) (at ctx st')"
    "at ctx st' n = (at ctx ?st n)\<lparr>ae_filterPassed := members_pass stop (ae_filterPassed (at ctx ?st n)) (named_values v ms)\<rparr>"
    "\<not> stop \<and> \<not> list_all snd (named_values v ms) \<longrightarrow> last_alg' = Some (fst (hd (dropWhile snd (named_values v ms))))"
    using members_value [OF assms(1-3) r assms(5), of cfg stop "Gaudi_code SUCCESS" None ?b] by blast
  have flag: "ae_filterPassed (at ctx st' n) = members_pass stop ?b (named_values v ms)" using st'(6) by (simp add: set_branch_same)
  have "only_own T v N U n ctx ?st st'" using st'(3-6) by (auto simp: only_own_def)
  then have own: "only_own T v N U n ctx st0 st'" using only_own_trans [OF assms(4)] by (simp only: set_branch_same)
  have n: "n \<in> N" using assms(3) by simp
  obtain st'' where st'': "get_state cfg n ctx st' = Some (at ctx st' n, st'')" "at ctx st'' = at ctx st'" "only_own T v N U n ctx st' st''"
    by (rule only_own_get [OF st'(3) n st'(4)])
  have "ms = [] \<Longrightarrow> last_alg' = None" using st'(1) by simp
  then show ?thesis
    by (intro that [OF st'(1) _ st''(1,2) only_own_trans [OF own st''(3)] flag st'(7)]) (use st'(2) flag in auto)
qed

lemma sq_value:
  assumes ms: "\<forall>(a, r) \<in> set ms \<union> set bs. good_member D T v N U ctx a (F a)" and U: "U \<subseteq> N" "al_name p \<in> N - U"
    and st: "served_in ctx N st" "settled_to T v U (at ctx st)" "ae_state (at ctx st (al_name p)) \<noteq> RS_Done"
    and empty: "ms = [] \<longrightarrow> ae_filterPassed (at ctx st (al_name p))" and up: "upright D (ms @ bs)"
  shows "\<exists>res st'. sq_execute cfg p stop (map (al_name \<circ> fst) (members_of F bs))
      (run_members cfg ctx (al_name p) stop (members_of F ms) (Gaudi_code SUCCESS) None)
      (run_members cfg ctx (al_name p) stop (tl (members_of F bs)) (Gaudi_code SUCCESS) None) ctx st = (Returns res, st') \<and>
    list_status D (ms @ bs) res (ae_filterPassed (at ctx st' (al_name p))) \<and>
    served_in ctx N st' \<and> settled_to T v U (at ctx st') \<and> (others_go (al_name p) U (at ctx st) (at ctx st')) \<and>
    ae_filterPassed (at ctx st' (al_name p)) = main_or_branch stop (named_values v ms) (named_values v bs)"
proof -
  let ?n = "al_name p"
  have n: "?n \<in> N" using U(2) by simp
  obtain st1 where st1: "get_state cfg ?n ctx st = Some (at ctx st ?n, st1)" "at ctx st1 = at ctx st" "only_own T v N U ?n ctx st st1"
    by (rule only_own_get [OF st(1) n st(2)])
  have tl: "set (tl bs) \<subseteq> set bs" by (cases bs) auto
  then have good: "\<forall>(a, r) \<in> set ms. good_member D T v N U ctx a (F a)" "\<forall>(a, r) \<in> set (tl bs). good_member D T v N U ctx a (F a)"
    and up2: "upright D ms" "upright D (tl bs)"
    using ms up unfolding upright_def by auto
  let ?main = "run_members cfg ctx ?n stop (members_of F ms) (Gaudi_code SUCCESS) None"
  let ?alt = "run_members cfg ctx ?n stop (tl (members_of F bs)) (Gaudi_code SUCCESS) None"
  obtain res2 last2 st2 st3 where st2: "?main (set_branch ?n ctx False st1) = (Some res2, last2, st2)"
    "if ms = [] then res2 = Gaudi_code SUCCESS \<and> last2 = None else list_status D ms res2 (ae_filterPassed (at ctx st2 ?n))"
    "get_state cfg ?n ctx st2 = Some (at ctx st2 ?n, st3)" "at ctx st3 = at ctx st2" "only_own T v N U ?n ctx st st3"
    "ae_filterPassed (at ctx st2 ?n) = members_pass stop (ae_filterPassed (at ctx st1 ?n)) (named_values v ms)"
    "\<not> stop \<and> \<not> list_all snd (named_values v ms) \<longrightarrow> last2 = Some (fst (hd (dropWhile snd (named_values v ms))))"
    by (rule run_list [OF good(1) U st1(3) up2(1), where cfg = cfg and stop = stop])
  have ok2: "list_status D (ms @ bs) res2 (ae_filterPassed (at ctx st2 ?n))" "status_success res2"
    using st2(2) by (auto simp: list_status_def split: if_splits)
  let ?branch = "map (al_name \<circ> fst) (members_of F bs)"
  have names: "?branch = map fst (named_values v bs)" by auto
  have flag2: "ae_filterPassed (at ctx st2 ?n) = (ms = [] \<or> (if stop then snd (last (named_values v ms)) else list_all snd (named_values v ms)))"
    using st2(6) empty st1(2) by (simp add: members_pass_def)
  show ?thesis
  proof (cases "\<not> ae_filterPassed (at ctx st2 ?n) \<and> \<not> stop \<and> ?branch \<noteq> [] \<and> last2 = Some (hd ?branch)")
    case False
    have "sq_execute cfg p stop ?branch ?main ?alt ctx st = sq_done cfg p ctx (Some res2, st3)"
      using False st(3) st1(1) st2(1,3) ok2(2) by (auto simp: sq_execute_def)
    moreover have "ae_filterPassed (at ctx st3 ?n) = main_or_branch stop (named_values v ms) (named_values v bs)"
      using False flag2 st2(4,7) names by (auto simp: main_or_branch_def hd_map)
    ultimately show ?thesis using sq_done_own [OF st2(5) U(2), of cfg res2] ok2(1) st2(4) by auto
  next
    case True
    obtain res4 last4 st4 st5 where st4:
      "run_members cfg ctx ?n stop (members_of F (tl bs)) (Gaudi_code SUCCESS) None (set_branch ?n ctx False st3) = (Some res4, last4, st4)"
      "if tl bs = [] then res4 = Gaudi_code SUCCESS \<and> last4 = None else list_status D (tl bs) res4 (ae_filterPassed (at ctx st4 ?n))"
      "get_state cfg ?n ctx st4 = Some (at ctx st4 ?n, st5)" "at ctx st5 = at ctx st4" "only_own T v N U ?n ctx st st5"
      "ae_filterPassed (at ctx st4 ?n) = members_pass stop (ae_filterPassed (at ctx st3 ?n)) (named_values v (tl bs))"
      by (rule run_list [OF good(2) U st2(5) up2(2), where cfg = cfg and stop = stop])
    have ok4: "list_status D (ms @ bs) res4 (ae_filterPassed (at ctx st4 ?n))" "status_success res4"
      using st4(2) tl by (auto simp: list_status_def split: if_splits)
    let ?st5 = "set_branch ?n ctx (ae_filterPassed (at ctx st4 ?n)) st5"
    have own5: "only_own T v N U ?n ctx st ?st5" unfolding set_branch_same by (rule st4(5))
    have "sq_execute cfg p stop ?branch ?main ?alt ctx st = sq_done cfg p ctx (Some res4, ?st5)"
      using True st(3) st1(1) st2(1,3) st4(1,3) ok2(2) ok4(2) by (simp add: sq_execute_def map_tl)
    moreover have "ae_filterPassed (at ctx ?st5 ?n) = main_or_branch stop (named_values v ms) (named_values v bs)"
      using True flag2 st2(2,4,7) st4(4,6) names by (auto simp: main_or_branch_def members_pass_def set_branch_same hd_map map_tl)
    moreover have "ae_filterPassed (at ctx ?st5 ?n) = ae_filterPassed (at ctx st4 ?n)" by (simp add: set_branch_same st4(4))
    ultimately show ?thesis using sq_done_own [OF own5 U(2), of cfg res4] ok4(1) by auto
  qed
qed

lemma sequencer_good:
  assumes ms: "\<forall>(a, r) \<in> set ms \<union> set bs. good_member D T v N U ctx a (run_alg cfg ctx a)" and U: "U \<subseteq> N" "al_name p \<in> N - U"
    and T: "T (al_name p) = Sequencer p stop ms bs" and up: "upright D (ms @ bs)"
  shows "good_member D T v N (insert (al_name p) U) ctx (Sequencer p stop ms bs) (run_alg cfg ctx (Sequencer p stop ms bs))"
  unfolding good_member_def
proof (intro conjI allI impI)
  let ?n = "al_name p" and ?a = "Sequencer p stop ms bs" and ?F = "run_alg cfg ctx"
  fix st assume st: "isEnabled ?a" "served_in ctx N st" "settled_to T v (insert ?n U) (at ctx st)"
  have on: "ac_isEnabled (al_config p)" using st(1) by (simp add: isEnabled_def)
  let ?ex = "sq_execute cfg p stop (map (al_name \<circ> fst) (members_of ?F bs))
      (run_members cfg ctx ?n stop (members_of ?F ms) (Gaudi_code SUCCESS) None)
      (run_members cfg ctx ?n stop (tl (members_of ?F bs)) (Gaudi_code SUCCESS) None) ctx"
  obtain st1 where st1: "served_in ctx N st1" "at ctx st1 = (at ctx st)(?n := (at ctx st ?n)\<lparr>ae_state := RS_Executing\<rparr>)"
    "\<forall>sc st2. ?ex st1 = (Returns sc, st2) \<longrightarrow> served_in ctx N st2 \<longrightarrow> status_success sc \<longrightarrow>
      (\<exists>st'. sys_execute cfg p ctx ?ex st = (Some sc, st') \<and> served_in ctx N st' \<and>
        at ctx st' = (at ctx st2)(?n := \<lparr>ae_filterPassed = (ae_filterPassed (at ctx st2 ?n) \<and> sc \<noteq> Filter_decision False),
          ae_state = RS_Done, ae_execStatus = sc\<rparr>))"
    by (rule sys_execute_ready [OF on _ st(2), where execute = ?ex and cfg = cfg]) (use U(2) in auto)
  have s1: "settled_to T v U (at ctx st1)" "ae_state (at ctx st1 ?n) \<noteq> RS_Done" using st(3) st1(2) U(2) by (simp_all add: settled_to_def)
  have "ms = [] \<longrightarrow> passes v ?a" by (simp add: main_or_branch_def)
  then have empty: "ms = [] \<longrightarrow> ae_filterPassed (at ctx st1 ?n)" using st(3) st1(2) T by (auto simp: settled_to_def simp del: passes.simps)
  obtain sc st2 where st2: "?ex st1 = (Returns sc, st2)" "list_status D (ms @ bs) sc (ae_filterPassed (at ctx st2 ?n))"
    "served_in ctx N st2" "settled_to T v U (at ctx st2)" "others_go ?n U (at ctx st1) (at ctx st2)"
    "ae_filterPassed (at ctx st2 ?n) = main_or_branch stop (named_values v ms) (named_values v bs)"
    using sq_value [OF ms U st1(1) s1 empty up, of cfg stop] by blast
  have sc: "status_success sc" using st2(2) by (simp add: list_status_def)
  obtain st' where st': "sys_execute cfg p ctx ?ex st = (Some sc, st')" "served_in ctx N st'"
    "at ctx st' = (at ctx st2)(?n := \<lparr>ae_filterPassed = (ae_filterPassed (at ctx st2 ?n) \<and> sc \<noteq> Filter_decision False), ae_state = RS_Done, ae_execStatus = sc\<rparr>)"
    using st1(3) st2(1,3) sc by blast
  have flag: "ae_filterPassed (at ctx st2 ?n) = passes v ?a" using st2(6) on by simp
  then have "verdict D v ?a sc" using st2(2) by (auto simp: list_status_def verdict_def simp del: passes.simps)
  moreover have "ae_filterPassed (at ctx st' ?n) = passes v ?a" using st'(3) flag st2(2) by (auto simp: list_status_def simp del: passes.simps)
  then have "goes T v N (insert ?n U) ctx st st'"
    using st'(2,3) st2(4,5) st1(2) T by (simp add: goes_def settled_to_def others_go_def del: passes.simps)
  moreover have "run_alg cfg ctx ?a st = (Some sc, st')" using st'(1) by (simp add: Let_def)
  ultimately show "\<exists>s st'. run_alg cfg ctx ?a st = (Some s, st') \<and> verdict D v ?a s \<and> goes T v N (insert ?n U) ctx st st' \<and>
      ae_state (at ctx st' (alg_name ?a)) = RS_Done"
    using st'(3) by (auto simp del: run_alg.simps)
qed (use T in simp_all)

text \<open>The members of a sequence do not contain it.\<close>

lemma own_name:
  assumes "wf_app T a" and "b \<in> subs a" and "size b < size a"
  shows "alg_name a \<notin> names_of b"
proof
  assume "alg_name a \<in> names_of b"
  then obtain c where c: "c \<in> subs b" "alg_name c = alg_name a" by auto
  have "c \<in> subs a \<Longrightarrow> c = a" using c(2) assms(1) subs_self [of a] unfolding wf_app_def by metis
  then show False using c(1) assms(2,3) subs_size [OF c(1)] subs_trans by force
qed

lemma run_alg_good:
  assumes "decide cfg D v"
  shows "wf_app T a \<Longrightarrow> undisturbed D a \<Longrightarrow> names_of a \<subseteq> N \<Longrightarrow> good_member D T v N (names_of a) ctx a (run_alg cfg ctx a)"
proof (induction a)
  case (Algorithm p)
  then show ?case using body_good [OF assms, of T p N ctx] by (simp add: wf_app_def)
next
  case (Gaudi_sequencer p q es)
  let ?a = "Gaudi_sequencer p q es" and ?U = "\<Union>(x, r) \<in> set es. names_of x"
  have m: "good_member D T v N ?U ctx x (run_alg cfg ctx x) \<and> al_name p \<notin> names_of x" if x: "(x, r) \<in> set es" for x r
  proof -
    have sub: "subs x \<subseteq> subs ?a" using x by force
    then have "wf_app T x" "names_of x \<subseteq> N" using Gaudi_sequencer.prems(1,3) unfolding wf_app_def by blast+
    then have "good_member D T v N (names_of x) ctx x (run_alg cfg ctx x)"
      using Gaudi_sequencer.IH [OF x] Gaudi_sequencer.prems(2) x by (fastforce simp: fsts.simps)
    moreover have "names_of x \<subseteq> ?U" using x by force
    moreover have "alg_name ?a \<notin> names_of x"
      by (rule own_name [OF Gaudi_sequencer.prems(1) _ member_size(1) [OF x]]) (use sub subs_self in blast)
    ultimately show ?thesis using good_member_mono by auto
  qed
  have "?U \<subseteq> N" "al_name p \<in> N - ?U" using Gaudi_sequencer.prems(3) m by fastforce+
  moreover have "\<forall>(x, r) \<in> set es. good_member D T v N ?U ctx x (run_alg cfg ctx x)" using m by blast
  moreover have "T (al_name p) = ?a \<and> al_vetoObjs p = [] \<and> al_requireObjs p = []"
    using Gaudi_sequencer.prems(1) subs_self [of ?a] unfolding wf_app_def by force
  ultimately have "good_member D T v N (insert (al_name p) ?U) ctx ?a (run_alg cfg ctx ?a)"
    using Gaudi_sequencer.prems(2) by (intro gaudi_good) simp_all
  moreover have "names_of ?a = insert (al_name p) ?U" by auto
  ultimately show ?case by simp
next
  case (Sequencer p stop ms bs)
  let ?a = "Sequencer p stop ms bs" and ?U = "\<Union>(x, r) \<in> set ms \<union> set bs. names_of x"
  have m: "good_member D T v N ?U ctx x (run_alg cfg ctx x) \<and> al_name p \<notin> names_of x" if x: "(x, r) \<in> set ms \<union> set bs" for x r
  proof -
    have sub: "subs x \<subseteq> subs ?a" using x by force
    then have "wf_app T x" "names_of x \<subseteq> N" using Sequencer.prems(1,3) unfolding wf_app_def by blast+
    then have "good_member D T v N (names_of x) ctx x (run_alg cfg ctx x)"
      using Sequencer.IH Sequencer.prems(2) x by (fastforce simp: fsts.simps)
    moreover have "names_of x \<subseteq> ?U" using x by force
    moreover have "alg_name ?a \<notin> names_of x"
      by (rule own_name [OF Sequencer.prems(1) _ member_size(2) [OF x]]) (use sub subs_self in blast)
    ultimately show ?thesis using good_member_mono by auto
  qed
  have "?U \<subseteq> N" "al_name p \<in> N - ?U" using Sequencer.prems(3) m by fastforce+
  moreover have "\<forall>(x, r) \<in> set ms \<union> set bs. good_member D T v N ?U ctx x (run_alg cfg ctx x)" using m by blast
  moreover have "T (al_name p) = ?a" using Sequencer.prems(1) subs_self [of ?a] unfolding wf_app_def by force
  ultimately have "good_member D T v N (insert (al_name p) ?U) ctx ?a (run_alg cfg ctx ?a)"
    using Sequencer.prems(2) by (intro sequencer_good) (auto simp: upright_def)
  moreover have "names_of ?a = insert (al_name p) ?U" by auto
  ultimately show ?case by simp
qed

section \<open>No abort\<close>

definition no_aborts :: "serial_config \<Rightarrow> bool" where
  "no_aborts cfg \<longleftrightarrow> (\<forall>n objs. \<not> act_abort (sc_bodies cfg n objs))"

named_theorems abort_same

lemma upd_state_abort [abort_same]: "upd_state cfg n ctx f st = Some st' \<Longrightarrow> se_abortEvent st' = se_abortEvent st"
  by (auto simp: upd_state_def split: sum.splits)

lemma get_state_abort [abort_same]: "get_state cfg n ctx st = Some (a, st') \<Longrightarrow> se_abortEvent st' = se_abortEvent st"
  by (auto simp: get_state_def dest: upd_state_abort split: sum.splits option.splits)

lemma after_execute_abort: "se_abortEvent (snd (after_execute cfg p ctx out st)) = se_abortEvent st"
  by (auto simp: after_execute_def Let_def dest!: abort_same split: option.splits if_splits prod.splits)

lemma sys_execute_abort:
  "(\<And>st. se_abortEvent (snd (execute st)) = se_abortEvent st) \<Longrightarrow> se_abortEvent (snd (sys_execute cfg p ctx execute st)) = se_abortEvent st"
  using after_execute_abort by (auto simp: sys_execute_def dest!: abort_same split: option.splits prod.splits) (metis snd_conv)+

lemma run_body_abort: "no_aborts cfg \<Longrightarrow> se_abortEvent (snd (run_body cfg n ctx st)) = se_abortEvent st"
  by (auto simp: run_body_def Let_def no_aborts_def dest!: abort_same split: option.splits)

lemma gs_finish_abort: "se_abortEvent (snd (gs_finish cfg p q b ctx r)) = se_abortEvent (snd r)"
  by (auto simp: gs_finish_def dest!: abort_same split: option.splits prod.splits seq_end.splits)

definition keeps_abort :: "(serial \<Rightarrow> 'r \<times> serial) \<Rightarrow> bool" where
  "keeps_abort f \<longleftrightarrow> (\<forall>st. se_abortEvent (snd (f st)) = se_abortEvent st)"

lemma keeps_abortD: "keeps_abort f \<Longrightarrow> f st = (r, st') \<Longrightarrow> se_abortEvent st' = se_abortEvent st"
  unfolding keeps_abort_def by (metis snd_conv)

lemma entries_abort:
  "\<forall>(p, f, r) \<in> set ms. keeps_abort f \<Longrightarrow> se_abortEvent (snd (run_entries cfg ctx q ms b result st)) = se_abortEvent st"
proof (induction ms arbitrary: b result st)
  case (Cons m ms)
  obtain p f r where m: "m = (p, f, r)" by (cases m)
  have IH: "se_abortEvent (snd (run_entries cfg ctx q ms b result st)) = se_abortEvent st" for b result st
    using Cons by simp
  show ?case
  proof (cases "get_state cfg (al_name p) ctx st")
    case None
    then show ?thesis using IH by (simp add: m)
  next
    case (Some x)
    obtain s st1 where x: "x = (s, st1)" by (cases x)
    obtain res st2 where st2: "(if ae_state s \<noteq> RS_Done then f st1 else (Some result, st1)) = (res, st2)" by fastforce
    have "keeps_abort f" using Cons.prems by (simp add: m)
    then have a2: "se_abortEvent st2 = se_abortEvent st"
      using st2 get_state_abort [OF Some [unfolded x]] keeps_abortD [of f st1 res st2] by (auto split: if_splits)
    show ?thesis
    proof (cases "get_state cfg (al_name p) ctx st2")
      case None
      then show ?thesis using Some x st2 a2 IH by (cases res) (simp_all add: m)
    next
      case (Some y)
      obtain s' st3 where y: "y = (s', st3)" by (cases y)
      have "se_abortEvent st3 = se_abortEvent st" using get_state_abort [OF Some [unfolded y]] a2 by simp
      then show ?thesis using \<open>get_state cfg (al_name p) ctx st = Some x\<close> Some x y st2 a2 IH by (cases res) (simp_all add: m Let_def)
    qed
  qed
qed simp

lemma members_abort:
  "\<forall>(p, f, r) \<in> set ms. keeps_abort f \<Longrightarrow>
    run_members cfg ctx n stop ms result last_alg st = (res, last_alg', st') \<Longrightarrow> se_abortEvent st' = se_abortEvent st"
proof (induction ms arbitrary: result last_alg st)
  case (Cons m ms)
  obtain p f r where m: "m = (p, f, r)" by (cases m)
  have f: "keeps_abort f" using Cons.prems(1) by (simp add: m)
  obtain r1 st1 where st1: "executeMember cfg ctx (p, f, r) st = (r1, st1)" by fastforce
  have a1: "se_abortEvent st1 = se_abortEvent st"
    using st1 keeps_abortD [OF f] by (auto simp: executeMember_def dest!: abort_same split: if_splits option.splits prod.splits)
  show ?case
  proof (cases "get_state cfg (al_name p) ctx st1")
    case None
    then show ?thesis using Cons.prems(2) st1 a1 by (auto simp: m split: option.splits if_splits)
  next
    case (Some y)
    obtain s st2 where y: "y = (s, st2)" by (cases y)
    have a2: "se_abortEvent st2 = se_abortEvent st" using get_state_abort [OF Some [unfolded y]] a1 by simp
    let ?x = "if r then \<not> ae_filterPassed s else ae_filterPassed s"
    show ?thesis
    proof (cases "upd_state cfg n ctx (\<lambda>a. a\<lparr>ae_filterPassed := ?x\<rparr>) st2")
      case None
      then show ?thesis using Cons.prems(2) st1 a1 a2 Some y by (auto simp: m Let_def split: option.splits if_splits)
    next
      case u: (Some st3)
      have a3: "se_abortEvent st3 = se_abortEvent st" using upd_state_abort [OF u] a2 by simp
      then have "run_members cfg ctx n stop ms r (Some (al_name p)) st3 = (res, last_alg', st') \<Longrightarrow> se_abortEvent st' = se_abortEvent st" for r
        using Cons.IH Cons.prems(1) by simp
      then show ?thesis using Cons.prems(2) st1 a1 a2 a3 Some y u by (auto simp: m Let_def split: option.splits if_splits)
    qed
  qed
qed simp

lemma sq_done_abort: "se_abortEvent (snd (sq_done cfg p ctx (r, st))) = se_abortEvent st"
  by (auto simp: sq_done_def dest!: abort_same split: option.splits)

lemma set_branch_abort: "se_abortEvent (set_branch n ctx b st) = se_abortEvent st"
  by (simp add: set_branch_def)

lemma sq_execute_abort:
  assumes ms: "\<And>st res last_alg st'. run_ms st = (res, last_alg, st') \<Longrightarrow> se_abortEvent st' = se_abortEvent st"
    and bs: "\<And>st res last_alg st'. run_bs st = (res, last_alg, st') \<Longrightarrow> se_abortEvent st' = se_abortEvent st"
  shows "se_abortEvent (snd (sq_execute cfg p stop branch run_ms run_bs ctx st)) = se_abortEvent st"
proof (cases "get_state cfg (al_name p) ctx st")
  case g1: (Some x)
  obtain own1 st1 where x: "x = (own1, st1)" by (cases x)
  have a1: "se_abortEvent st1 = se_abortEvent st" by (rule get_state_abort [OF g1 [unfolded x]])
  obtain r2 l2 st2 where st2: "run_ms (set_branch (al_name p) ctx False st1) = (r2, l2, st2)" by (metis prod_cases3)
  have a2: "se_abortEvent st2 = se_abortEvent st" using ms [OF st2] a1 by (simp add: set_branch_abort)
  show ?thesis
  proof (cases "get_state cfg (al_name p) ctx st2")
    case None
    then show ?thesis using g1 x st2 a1 a2 by (cases r2) (simp_all add: sq_execute_def sq_done_abort)
  next
    case g3: (Some y)
    obtain own3 st3 where y: "y = (own3, st3)" by (cases y)
    have a3: "se_abortEvent st3 = se_abortEvent st" using get_state_abort [OF g3 [unfolded y]] a2 by simp
    obtain r4 l4 st4 where st4: "run_bs (set_branch (al_name p) ctx False st3) = (r4, l4, st4)" by (metis prod_cases3)
    have a4: "se_abortEvent st4 = se_abortEvent st" using bs [OF st4] a3 by (simp add: set_branch_abort)
    have a5: "se_abortEvent st5 = se_abortEvent st" if "get_state cfg (al_name p) ctx st4 = Some (own5, st5)" for own5 st5
      using get_state_abort [OF that] a4 by simp
    show ?thesis
      using g1 x st2 g3 y st4 a1 a2 a3 a4 a5
      by (cases r2; cases r4) (auto simp: sq_execute_def sq_done_abort set_branch_abort split: option.split)
  qed
qed (simp add: sq_execute_def)

lemma run_alg_abort:
  assumes "no_aborts cfg"
  shows "keeps_abort (run_alg cfg ctx a)"
proof (induction a)
  case (Algorithm p)
  show ?case
    using sys_execute_abort [of "run_body cfg (al_name p) ctx" cfg p ctx] run_body_abort [OF assms]
    by (simp add: keeps_abort_def guarded_def)
next
  case (Gaudi_sequencer p q es)
  have "\<forall>(p, f, r) \<in> set (members_of (run_alg cfg ctx) es). keeps_abort f"
    using Gaudi_sequencer.IH by (auto simp: fsts.simps)
  then have "se_abortEvent (snd (sys_execute cfg p ctx (\<lambda>st. gs_finish cfg p q (es \<noteq> []) ctx
      (run_entries cfg ctx q (members_of (run_alg cfg ctx) es) (\<not> sq_modeOR q) (Gaudi_code SUCCESS) st)) st)) = se_abortEvent st" for st
    by (intro sys_execute_abort) (simp add: gs_finish_abort entries_abort)
  then show ?case by (simp add: keeps_abort_def guarded_def Let_def)
next
  case (Sequencer p stop ms bs)
  have m: "\<forall>(p, f, r) \<in> set (members_of (run_alg cfg ctx) ms). keeps_abort f"
    "\<forall>(p, f, r) \<in> set (tl (members_of (run_alg cfg ctx) bs)). keeps_abort f"
    using Sequencer.IH by (cases bs; auto simp: fsts.simps)+
  show ?case
    unfolding keeps_abort_def run_alg.simps Let_def
    by (intro allI sys_execute_abort sq_execute_abort) (erule members_abort [OF m(1)], erule members_abort [OF m(2)])
qed

section \<open>The event\<close>

definition no_checks :: "(string \<Rightarrow> alg) \<Rightarrow> string set \<Rightarrow> alg list \<Rightarrow> bool" where
  "no_checks T N as \<longleftrightarrow> (\<forall>a \<in> set as. wf_app T a \<and> names_of a \<subseteq> N \<and> isEnabled a)"

abbreviation all_names :: "alg list \<Rightarrow> string set" where
  "all_names as \<equiv> (\<Union>a \<in> set as. names_of a)"

lemma tops_good:
  assumes d: "decide cfg D v" "no_aborts cfg" and B: "B \<subseteq> N"
    and "no_checks T N as" and "list_all (undisturbed D) as" and "all_names as \<subseteq> B" and "served_in ctx N st"
    and "settled_to T v B (at ctx st)" and "\<not> se_abortEvent st"
  shows "\<exists>st'. run_tops cfg ctx as False st = (False, st') \<and> goes T v N B ctx st st' \<and>
    (\<forall>a \<in> set as. ae_state (at ctx st' (alg_name a)) = RS_Done)"
  using assms(4-)
proof (induction as arbitrary: st)
  case Nil
  then show ?case by (simp add: goes_refl)
next
  case (Cons a as)
  have a: "wf_app T a" "undisturbed D a" "names_of a \<subseteq> N" "isEnabled a" "names_of a \<subseteq> B" using Cons.prems(1-3) by (simp_all add: no_checks_def)
  have "good_member D T v N B ctx a (run_alg cfg ctx a)"
    using good_member_mono [OF run_alg_good [OF d(1) a(1-3)] a(5)] .
  then obtain s st1 where st1: "run_alg cfg ctx a st = (Some s, st1)" "verdict D v a s" "goes T v N B ctx st st1"
    "ae_state (at ctx st1 (alg_name a)) = RS_Done"
    using a(4) Cons.prems(4,5) unfolding good_member_def by blast
  have r1: "served_in ctx N st1" "settled_to T v B (at ctx st1)" using st1(3) by (simp_all add: goes_def)
  have "\<not> se_abortEvent st1" using keeps_abortD [OF run_alg_abort [OF d(2)] st1(1)] Cons.prems(6) by simp
  then obtain st2 where st2: "run_tops cfg ctx as False st1 = (False, st2)" "goes T v N B ctx st1 st2"
    "\<forall>a \<in> set as. ae_state (at ctx st2 (alg_name a)) = RS_Done"
    using Cons.IH [OF _ _ _ r1] Cons.prems(1-3) by (auto simp: no_checks_def)
  have "status_success s" using st1(2) by (simp add: verdict_def)
  then show ?case
    using st1(1) Cons.prems(6) st2(1,3) goes_trans [OF st1(3) st2(2)] goes_done [OF st2(2) st1(4)] by simp
qed

lemma event_settles:
  assumes "decide cfg D v" and "no_aborts cfg" and "no_checks T N tops" and "list_all (undisturbed D) tops"
    and "served_in ctx N st" and "\<not> se_abortEvent st"
  obtains st' where "executeEvent_serial cfg tops [] ctx st = (Some SUCCESS, st')" "settled_to T v (all_names tops) (at ctx st')"
    "\<forall>a \<in> set tops. ae_state (at ctx st' (alg_name a)) = RS_Done"
proof -
  obtain s0 where s0: "xs_reset (sc_execs cfg) ctx (se_svc st) = Inr s0" "served ctx N s0"
    "\<And>n. n \<in> N \<Longrightarrow> state_at ctx s0 n = new_alg_exec"
    using xs_reset_served [OF assms(5), of "sc_execs cfg"] by metis
  have B: "all_names tops \<subseteq> N" using assms(3) by (auto simp: no_checks_def)
  then have "state_at ctx s0 n = new_alg_exec" if "n \<in> all_names tops" for n using s0(3) that by blast
  then have "settled_to T v (all_names tops) (at ctx (st\<lparr>se_svc := s0\<rparr>))"
    unfolding settled_to_def by (simp del: UN_iff add: new_alg_exec_def)
  then obtain st1 where st1: "run_tops cfg ctx tops False (st\<lparr>se_svc := s0\<rparr>) = (False, st1)"
    "goes T v N (all_names tops) ctx (st\<lparr>se_svc := s0\<rparr>) st1" "\<forall>a \<in> set tops. ae_state (at ctx st1 (alg_name a)) = RS_Done"
    using tops_good [OF assms(1,2) B assms(3,4) subset_refl, of ctx "st\<lparr>se_svc := s0\<rparr>"] s0(2) assms(6) by auto
  have r1: "served_in ctx N st1" "settled_to T v (all_names tops) (at ctx st1)" using st1(2) by (simp_all add: goes_def)
  then obtain s2 where s2: "updateEventStatus (sc_execs cfg) False ctx (se_svc st1) = Inr s2" "state_at ctx s2 = at ctx st1"
    by (auto simp: updateEventStatus_def call_once_def served_def state_at_def fun_eq_iff)
  show ?thesis
    by (rule that [of "st1\<lparr>se_svc := s2, se_abortEvent := False\<rparr>"]) (use s0(1) st1(1,3) s2 r1(2) in \<open>simp_all add: executeEvent_serial_def\<close>)
qed

lemma settled_top:
  assumes "settled_to T v (all_names tops) e" and "no_checks T N tops" and "a \<in> set tops" and "b \<in> subs a"
  shows "ae_filterPassed (e (alg_name b)) = (ae_state (e (alg_name b)) = RS_Done \<longrightarrow> passes v b)"
proof -
  have "T (alg_name b) = b" using assms(2-4) by (simp add: no_checks_def wf_app_def)
  moreover have "alg_name b \<in> all_names tops" using assms(3,4) by blast
  then have "ae_filterPassed (e (alg_name b)) = (ae_state (e (alg_name b)) = RS_Done \<longrightarrow> passes v (T (alg_name b)))"
    using assms(1) unfolding settled_to_def by (rule bspec [rotated])
  ultimately show ?thesis by simp
qed


end
