(* ===== verification/Sequencer_Demo.thy ===== *)
theory Sequencer_Demo
  imports Sequencer_Values Hub_Decisions
begin

text \<open>
  Serial and concurrent decisions compared, instances of the properties of the serial processing,
  and closed runs that show where it departs from what it documents.
\<close>

section \<open>Hubs and sequences\<close>

definition value_of :: "bool \<Rightarrow> int" where
  "value_of b = (if b then 1 else 0)"

text \<open>A hub with the modes that \<open>assembleCFRules\<close> takes from the properties of a \<open>GaudiSequencer\<close>.\<close>

definition hub_of :: "seq_props \<Rightarrow> decision_node \<Rightarrow> bool" where
  "hub_of q d \<longleftrightarrow> dn_modeOR d = sq_modeOR q \<and> dn_inverted d = sq_invert q \<and> dn_allPass d = sq_ignoreFilter q \<and>
     dn_modePromptDecision d = (sq_shortCircuit q \<and> \<not> sq_ignoreFilter q)"

lemma list_all2_sets:
  "list_all2 P xs ys \<Longrightarrow> (\<forall>x \<in> set xs. \<exists>y \<in> set ys. P x y) \<and> (\<forall>y \<in> set ys. \<exists>x \<in> set xs. P x y)"
  by (induction rule: list_all2_induct) auto

lemma decided_kleene:
  assumes "list_all2 (\<lambda>x b. x = - 1 \<or> x = value_of b) xs bs" and "bs \<noteq> []"
  shows "(kleene d xs = - 1 \<or> kleene d xs = value_of (if dn_modeOR d then list_ex id bs else list_all id bs)) \<and>
    (- 1 \<notin> set xs \<longrightarrow> kleene d xs = value_of (if dn_modeOR d then list_ex id bs else list_all id bs))"
proof -
  have in_xs: "\<exists>b \<in> set bs. x = - 1 \<or> x = value_of b" if "x \<in> set xs" for x
    using list_all2_sets [OF assms(1)] that by blast
  have in_bs: "\<exists>x \<in> set xs. x = - 1 \<or> x = value_of b" if "b \<in> set bs" for b
    using list_all2_sets [OF assms(1)] that by blast
  have pos: "1 \<in> set xs \<Longrightarrow> True \<in> set bs" "0 \<in> set xs \<Longrightarrow> False \<in> set bs"
    using in_xs [of 1] in_xs [of 0] by (auto simp: value_of_def split: if_splits)
  have neg: "- 1 \<notin> set xs \<Longrightarrow> True \<in> set bs \<Longrightarrow> 1 \<in> set xs" "- 1 \<notin> set xs \<Longrightarrow> False \<in> set bs \<Longrightarrow> 0 \<in> set xs"
    using in_bs [of True] in_bs [of False] by (auto simp: value_of_def)
  have b: "list_ex id bs = (True \<in> set bs)" "list_all id bs = (False \<notin> set bs)" by (induction bs) auto
  show ?thesis
  proof (cases "dn_modeOR d")
    case True
    then show ?thesis unfolding kleene_def decisive_def b value_of_def using pos(1) neg(1) by auto
  next
    case False
    then show ?thesis unfolding kleene_def decisive_def b value_of_def using pos(2) neg(2) by auto
  qed
qed

lemma enabled_values:
  "\<forall>(a, reverse) \<in> set es. isEnabled a \<Longrightarrow>
    list_ex (\<lambda>(e, x). e \<and> x) (values_of_members v es) = list_ex id (map (\<lambda>(a, reverse). passes v a \<noteq> reverse) es) \<and>
    list_all (\<lambda>(e, x). e \<longrightarrow> x) (values_of_members v es) = list_all id (map (\<lambda>(a, reverse). passes v a \<noteq> reverse) es)"
  by (induction es) auto

lemma hub_decides_formula:
  assumes "hub_of q d" and "ac_isEnabled (al_config p)" and "es \<noteq> []" and "\<forall>(a, reverse) \<in> set es. isEnabled a"
    and "list_all2 (\<lambda>x (a, reverse). x = - 1 \<or> x = value_of (passes v a \<noteq> reverse)) (monitored g ev r d) es"
  shows "(hub_decision d (monitor_children g ev r d) = - 1 \<or>
      hub_decision d (monitor_children g ev r d) = value_of (passes v (Gaudi_sequencer p q es))) \<and>
    (- 1 \<notin> set (monitored g ev r d) \<longrightarrow>
      hub_decision d (monitor_children g ev r d) = value_of (passes v (Gaudi_sequencer p q es)))"
proof -
  let ?xs = "monitored g ev r d" and ?bs = "map (\<lambda>(a, reverse). passes v a \<noteq> reverse) es"
  have l: "list_all2 (\<lambda>x b. x = - 1 \<or> x = value_of b) ?xs ?bs"
    using assms(5) by (simp add: list_all2_map2 case_prod_unfold)
  have "\<forall>x \<in> set ?xs. tri x"
    using list_all2_sets [OF l] unfolding tri_def value_of_def by (metis insert_iff)
  note h = monitored_hub_decision [OF this]
  show ?thesis
  proof (cases "sq_ignoreFilter q")
    case True
    then have "hub_decision d (monitor_children g ev r d) = (if - 1 \<in> set ?xs then - 1 else 1)"
      using h assms(1) by (auto simp: hub_of_def seen_def kleene_def invert_def)
    then show ?thesis using True by (simp add: value_of_def)
  next
    case False
    have "hub_decision d (monitor_children g ev r d) = invert d (kleene d ?xs)" using h False assms(1) by (simp add: hub_of_def)
    moreover have "passes v (Gaudi_sequencer p q es) \<longleftrightarrow>
        sq_invert q \<noteq> (if sq_modeOR q then list_ex id ?bs else list_all id ?bs)"
      using False assms(3) enabled_values [OF assms(4)] unfolding passes_gaudi [OF assms(2)] by (simp add: latched_def)
    ultimately show ?thesis
      using decided_kleene [OF l, of d] assms(1,3) by (auto simp: hub_of_def invert_def value_of_def)
  qed
qed

text \<open>
  C17. The scheduler's hub for a \<open>GaudiSequencer\<close> decides what the serial execution of the event leaves
  in the filter flag of the sequence, as soon as it decides, when each child is undecided or has
  decided as the formula of its member says: an early decision is never wrong, and when all
  children have decided so has the hub. It needs what C17 needs, and the sequence must be enabled,
  have members, which are all enabled, and be executed (\<open>Done\<close>) in the serial event.
\<close>

theorem hub_agrees_with_sequencer:
  assumes "decide cfg D v" and "no_aborts cfg" and "no_checks T N tops" and "list_all (undisturbed D) tops"
    and "served_in ctx N st" and "\<not> se_abortEvent st"
    and "t \<in> set tops" and "Gaudi_sequencer p q es \<in> subs t" and "ac_isEnabled (al_config p)"
    and "es \<noteq> []" and "\<forall>(a, reverse) \<in> set es. isEnabled a" and "hub_of q d"
    and "list_all2 (\<lambda>x (a, reverse). x = - 1 \<or> x = value_of (passes v a \<noteq> reverse)) (monitored g ev r d) es"
  shows "\<exists>st'. executeEvent_serial cfg tops [] ctx st = (Some SUCCESS, st') \<and>
    (ae_state (at ctx st' (al_name p)) = RS_Done \<longrightarrow>
      (hub_decision d (monitor_children g ev r d) = - 1 \<or>
       hub_decision d (monitor_children g ev r d) = value_of (ae_filterPassed (at ctx st' (al_name p)))) \<and>
      (- 1 \<notin> set (monitored g ev r d) \<longrightarrow>
       hub_decision d (monitor_children g ev r d) = value_of (ae_filterPassed (at ctx st' (al_name p)))))"
proof (rule event_settles [OF assms(1-6)])
  fix st'
  assume st': "executeEvent_serial cfg tops [] ctx st = (Some SUCCESS, st')" "settled_to T v (all_names tops) (at ctx st')"
  have "ae_filterPassed (at ctx st' (al_name p)) = passes v (Gaudi_sequencer p q es)"
    if "ae_state (at ctx st' (al_name p)) = RS_Done"
    using settled_top [OF st'(2) assms(3,7,8)] that by (simp del: passes.simps)
  then show ?thesis
    using st'(1) hub_decides_formula [OF assms(12,9-11,13)] by (auto simp del: passes.simps)
qed

section \<open>A small application\<close>

definition demo_props :: "string \<Rightarrow> alg_props" where
  "demo_props n = \<lparr>al_type = ''Alg'', al_name = n, al_config = \<lparr>ac_isEnabled = True, ac_errorMax = 1\<rparr>,
     al_vetoObjs = [], al_requireObjs = []\<rparr>"

definition demo_seq :: seq_props where
  "demo_seq = \<lparr>sq_modeOR = False, sq_ignoreFilter = False, sq_returnOK = False, sq_shortCircuit = True, sq_invert = False\<rparr>"

abbreviation leaf :: "string \<Rightarrow> alg" where
  "leaf n \<equiv> Algorithm (demo_props n)"

definition acting :: "alg_outcome \<Rightarrow> bool option \<Rightarrow> alg_action" where
  "acting out b = \<lparr>act_body = \<lparr>ab_outcome = out, ab_setFilterPassed = b\<rparr>, act_objects = [], act_abort = False\<rparr>"

text \<open>
  Names that start with \<open>n\<close> say no by their flag, those with \<open>p\<close> by their status, those with \<open>f\<close> fail,
  with \<open>x\<close> throw and with \<open>k\<close> fire an abort.
\<close>

definition demo_bodies :: bodies where
  "demo_bodies n objs =
     (case n of
        [] \<Rightarrow> acting (Returns (Gaudi_code SUCCESS)) None
      | c # _ \<Rightarrow>
          if c = CHR ''n'' then acting (Returns (Gaudi_code SUCCESS)) (Some False)
          else if c = CHR ''p'' then acting (Returns (Filter_decision False)) None
          else if c = CHR ''f'' then acting (Returns (Gaudi_code FAILURE)) None
          else if c = CHR ''x'' then acting Throws None
          else if c = CHR ''k'' then (acting (Returns (Gaudi_code SUCCESS)) None)\<lparr>act_abort := True\<rparr>
          else acting (Returns (Gaudi_code SUCCESS)) None)"

definition demo_serial :: "err_policy \<Rightarrow> string list \<Rightarrow> serial_config" where
  "demo_serial policy names =
     \<lparr>sc_execs = \<lparr>xc_concurrent = False, xc_numConcurrentEvents = 0, xc_algorithms = Some names\<rparr>,
      sc_exceptions = new_exception_svc\<lparr>ex_mode_exc := policy\<rparr>, sc_bodies = demo_bodies\<rparr>"

definition demo_start :: "string list \<Rightarrow> serial" where
  "demo_start names =
     \<lparr>se_svc = (case xs_init \<lparr>xc_concurrent = False, xc_numConcurrentEvents = 0, xc_algorithms = Some names\<rparr> new_exec_svc of
                  Inl e \<Rightarrow> new_exec_svc | Inr s \<Rightarrow> s),
      se_objects = [], se_ran = [], se_abortEvent = False, se_branchFilterPassed = (\<lambda>_. False), se_returnCode = 0\<rparr>"

definition demo_ctx :: event_context where
  "demo_ctx = ctx_default\<lparr>ctx_evt := 0, ctx_slot := 0\<rparr>"

text \<open>What an event runs, and the filter flags it leaves.\<close>

definition demo_event :: "err_policy \<Rightarrow> string list \<Rightarrow> alg list \<Rightarrow> alg list \<Rightarrow> error_code option \<times> serial" where
  "demo_event policy names tops streams = executeEvent_serial (demo_serial policy names) tops streams demo_ctx (demo_start names)"

definition flag :: "string \<Rightarrow> error_code option \<times> serial \<Rightarrow> bool" where
  "flag n r = ae_filterPassed (at demo_ctx (snd r) n)"

definition ran :: "error_code option \<times> serial \<Rightarrow> string list" where
  "ran r = se_ran (snd r)"

text \<open>A member of two sequences runs once, and both take its decision.\<close>

definition shared_tops :: "alg list" where
  "shared_tops = [Gaudi_sequencer (demo_props ''S'') demo_seq [(leaf ''a'', False), (leaf ''nb'', False), (leaf ''c'', False)],
     Gaudi_sequencer (demo_props ''Q'') (demo_seq\<lparr>sq_modeOR := True\<rparr>) [(leaf ''nb'', False), (leaf ''a'', False)]]"

definition shared_names :: "string list" where
  "shared_names = [''S'', ''Q'', ''a'', ''nb'', ''c'']"

lemma shared_run:
  "ran (demo_event No_errors shared_names shared_tops []) = [''a'', ''nb''] \<and>
   \<not> flag ''S'' (demo_event No_errors shared_names shared_tops []) \<and> flag ''Q'' (demo_event No_errors shared_names shared_tops [])"
  by code_simp

lemma shared_ready: "served_in demo_ctx (set shared_names) (demo_start shared_names)"
  by code_simp

lemma shared_known: "known_algs (tree_leaves shared_tops) (set shared_names) shared_tops"
  by code_simp

lemma bodies_run_once_witness:
  "distinct (ran (demo_event No_errors shared_names shared_tops [])) \<and>
   ae_state (at demo_ctx (snd (demo_event No_errors shared_names shared_tops [])) ''c'') \<noteq> RS_Done"
proof -
  obtain sc st' where e: "demo_event No_errors shared_names shared_tops [] = (sc, st')" by fastforce
  have "no_rethrow (demo_serial No_errors shared_names)"
    by (simp add: no_rethrow_def demo_serial_def ex_handle_def process_def new_exception_svc_def)
  moreover have "se_ran (demo_start shared_names) = []" by (simp add: demo_start_def)
  moreover have "top_order {} (shared_tops @ [])" by code_simp
  ultimately have r: "distinct (se_ran st') \<and> set (se_ran st') \<subseteq> tree_leaves shared_tops \<and>
      (\<forall>n \<in> tree_leaves shared_tops. n \<in> set (se_ran st') \<longleftrightarrow> ae_state (at demo_ctx st' n) = RS_Done)"
    using bodies_run_once [of "demo_serial No_errors shared_names" demo_ctx "set shared_names" "demo_start shared_names" shared_tops "[]" sc st']
      shared_ready shared_known e by (simp add: demo_event_def)
  have "''c'' \<in> tree_leaves shared_tops" by code_simp
  moreover have "''c'' \<notin> set (se_ran st')" using shared_run e by (simp add: ran_def)
  ultimately show ?thesis using r e by (simp add: ran_def)
qed

definition deciding :: serial_config where
  "deciding = (demo_serial All_errors shared_names)\<lparr>sc_bodies := (\<lambda>n objs. acting (Returns (Gaudi_code SUCCESS)) (if n = ''nb'' then Some False else None))\<rparr>"

definition shared_alg :: "string \<Rightarrow> alg" where
  "shared_alg n = (if n = ''S'' then shared_tops ! 0 else if n = ''Q'' then shared_tops ! 1 else leaf n)"

lemma deciding_bodies: "decide deciding {} (\<lambda>n. n \<noteq> ''nb'')" "no_aborts deciding"
  by (simp_all add: decide_def no_aborts_def deciding_def acting_def Let_def)

lemma shared_checks: "no_checks shared_alg (set shared_names) shared_tops" "list_all (undisturbed {}) shared_tops"
  by code_simp+


lemma hub_agrees_with_sequencer_witness:
  "(let d = (new_decision_node ''h'' 0 example_modes)\<lparr>dn_children := [Alg_Node ''nb'', Alg_Node ''a''], dn_modeOR := True,
        dn_inverted := False, dn_allPass := False, dn_modePromptDecision := True\<rparr>
    in hub_decision d (monitor_children new_graph (new_slot 0 1) Top d) \<noteq> 0)"
proof -
  let ?d = "(new_decision_node ''h'' 0 example_modes)\<lparr>dn_children := [Alg_Node ''nb'', Alg_Node ''a''], dn_modeOR := True,
        dn_inverted := False, dn_allPass := False, dn_modePromptDecision := True\<rparr>"
  let ?q = "demo_seq\<lparr>sq_modeOR := True\<rparr>" and ?es = "[(leaf ''nb'', False), (leaf ''a'', False)]"
  have m: "monitored new_graph (new_slot 0 1) Top ?d = [- 1, - 1]" by code_simp
  have h: "hub_of ?q ?d" by (simp add: hub_of_def demo_seq_def)
  have Q: "shared_tops ! 1 \<in> set shared_tops" "Gaudi_sequencer (demo_props ''Q'') ?q ?es \<in> subs (shared_tops ! 1)"
    by (simp_all add: shared_tops_def)
  have run: "ae_state (at demo_ctx (snd (executeEvent_serial deciding shared_tops [] demo_ctx (demo_start shared_names))) ''Q'') = RS_Done"
    "ae_filterPassed (at demo_ctx (snd (executeEvent_serial deciding shared_tops [] demo_ctx (demo_start shared_names))) ''Q'')"
    by code_simp+
  have "\<not> se_abortEvent (demo_start shared_names)" by (simp add: demo_start_def)
  from hub_agrees_with_sequencer [OF deciding_bodies shared_checks shared_ready this Q _ _ _ h, of new_graph "new_slot 0 1" Top] run
  show ?thesis unfolding m Let_def by (auto simp: demo_props_def isEnabled_def value_of_def)
qed

section \<open>Where it departs from what it documents\<close>

text \<open>
  An exception that is thrown again, which is the default policy, leaves the member \<open>Executing\<close>:
  the next sequence that contains it runs its body once more.
\<close>

lemma rethrow_runs_twice:
  "(let tops = [Gaudi_sequencer (demo_props ''S'') demo_seq [(leaf ''x'', False)], Gaudi_sequencer (demo_props ''Q'') demo_seq [(leaf ''x'', False)]];
        r = demo_event All_errors [''S'', ''Q'', ''x''] tops []
    in ran r = [''x'', ''x''] \<and> se_returnCode (snd r) = 6)"
  by code_simp

text \<open>
  A member that says no by its status, as functional algorithms do, and is the last that the
  sequence executes: the sequence returns that status, and \<open>sysExecute\<close> takes it for the decision of
  the sequence itself. So the sequence fails although it inverts its result, although it is a
  disjunction of which a member has passed (with \<open>ShortCircuit\<close> if that member was \<open>Done\<close> before), or
  although it ignores its filters. With members that say no by their flag all four pass.
\<close>

definition status_run :: "seq_props \<Rightarrow> string list \<Rightarrow> alg list \<Rightarrow> bool" where
  "status_run q ms before =
     flag ''S'' (demo_event No_errors ([''S''] @ ms @ map alg_name before)
       (before @ [Gaudi_sequencer (demo_props ''S'') q (map (\<lambda>n. (leaf n, False)) ms)]) [])"

lemma failed_status_overrides:
  "\<not> status_run (demo_seq\<lparr>sq_invert := True\<rparr>) [''p''] [] \<and> status_run (demo_seq\<lparr>sq_invert := True\<rparr>) [''n''] []"
  "\<not> status_run (demo_seq\<lparr>sq_modeOR := True, sq_shortCircuit := False\<rparr>) [''a'', ''p''] [] \<and>
   status_run (demo_seq\<lparr>sq_modeOR := True, sq_shortCircuit := False\<rparr>) [''a'', ''n''] []"
  "\<not> status_run (demo_seq\<lparr>sq_modeOR := True\<rparr>) [''p'', ''a''] [leaf ''a''] \<and>
   status_run (demo_seq\<lparr>sq_modeOR := True\<rparr>) [''n'', ''a''] [leaf ''a'']"
  "\<not> status_run (demo_seq\<lparr>sq_ignoreFilter := True\<rparr>) [''a'', ''p''] [] \<and> status_run (demo_seq\<lparr>sq_ignoreFilter := True\<rparr>) [''a'', ''n''] []"
  by code_simp+

text \<open>A top algorithm is executed whether it is \<open>Done\<close> or not.\<close>

lemma top_runs_twice:
  "ran (demo_event No_errors [''S'', ''a''] [Gaudi_sequencer (demo_props ''S'') demo_seq [(leaf ''a'', False)], leaf ''a''] []) = [''a'', ''a'']"
  by code_simp

text \<open>
  With \<open>ReturnOK\<close> a sequence whose member failed is a success, and its filter has passed: the loop
  ends before the member's decision is looked at.
\<close>

lemma returnOK_passes:
  "(let r = demo_event No_errors [''S'', ''f'', ''nb'']
       [Gaudi_sequencer (demo_props ''S'') (demo_seq\<lparr>sq_returnOK := True\<rparr>) [(leaf ''f'', False), (leaf ''nb'', False)]] []
    in ran r = [''f''] \<and> flag ''S'' r \<and> (case fst r of Some sc \<Rightarrow> sc = SUCCESS | None \<Rightarrow> False))"
  by code_simp

text \<open>
  An empty disjunction is written as \<open>CFFalse\<close>, since the default value depends on \<open>ModeOR\<close>, but its
  execution leaves the filter passed.
\<close>

definition empty_or :: alg where
  "empty_or = Gaudi_sequencer (demo_props ''S'') (demo_seq\<lparr>sq_modeOR := True\<rparr>) []"

lemma empty_or_passes:
  "toControlFlowExpression empty_or = ''CFFalse'' \<and> flag ''S'' (demo_event No_errors [''S''] [empty_or] [])"
  by code_simp

text \<open>A sequence that ignores its filters passes, but is written like one that does not.\<close>

lemma ignored_filters_written:
  "(let a = Gaudi_sequencer (demo_props ''S'') (demo_seq\<lparr>sq_ignoreFilter := True\<rparr>) [(leaf ''a'', False), (leaf ''nb'', False)]
    in toControlFlowExpression a = ''seq(Alg('' @ quoted ''a'' @ '') & Alg('' @ quoted ''nb'' @ ''))'' \<and>
       flag ''S'' (demo_event No_errors [''S'', ''a'', ''nb''] [a] []))"
  by code_simp

text \<open>
  \<open>ShortCircuit\<close> ends a disjunction at the first member that passes, and without it all members are
  executed; the comment in the header says the opposite.
\<close>

lemma short_circuit_or:
  "(let s = (\<lambda>b. Gaudi_sequencer (demo_props ''S'') (demo_seq\<lparr>sq_modeOR := True, sq_shortCircuit := b\<rparr>) [(leaf ''a'', False), (leaf ''c'', False)])
    in ran (demo_event No_errors [''S'', ''a'', ''c''] [s True] []) = [''a''] \<and>
       ran (demo_event No_errors [''S'', ''a'', ''c''] [s False] []) = [''a'', ''c''])"
  by code_simp

text \<open>
  An abort ends the loop over the top algorithms, and output streams are still executed. One that
  an output stream fires comes after the flag was cleared, so the next event runs no top algorithm.
\<close>

lemma abort_of_stream_skips_next_event:
  "(let cfg = demo_serial No_errors [''k'', ''a'', ''b''];
        r = demo_event No_errors [''k'', ''a'', ''b''] [leaf ''k'', leaf ''a''] [leaf ''b''];
        r1 = demo_event No_errors [''k'', ''a'', ''b''] [leaf ''a''] [leaf ''k''];
        r2 = executeEvent_serial cfg [leaf ''a''] [leaf ''b''] demo_ctx (snd r1)
    in ran r = [''k'', ''b''] \<and> ran r1 = [''a'', ''k''] \<and> ran r2 = [''a'', ''k'', ''b''] \<and>
       (case fst r2 of Some sc \<Rightarrow> sc = SUCCESS | None \<Rightarrow> False))"
  by code_simp

text \<open>
  \<open>Sequencer::execute\<close> asks whether it is \<open>Done\<close> to avoid a second execution, but \<open>sysExecute\<close> has just
  set it to \<open>Executing\<close>: given twice, it runs its members that are not \<open>Done\<close> again.
\<close>

lemma sequencer_not_protected:
  "(let s = Sequencer (demo_props ''S'') False [(leaf ''x'', False)] []
    in ran (demo_event All_errors [''S'', ''x''] [s, s] []) = [''x'', ''x''])"
  by code_simp

end
