(* ===== verification/Spec2Isabelle.thy ===== *)
theory Spec2Isabelle
  imports StatusCodes Vector_Map Simulation Assembly Validators Data_Store_Paths Stream_Facts Event_Loop_Demo Incident_Demo Sequencer_Demo
begin

text \<open>
  Verification of the core of Gaudi, a framework that runs the algorithms of an event-processing
  application.

  \<^bold>\<open>The parts and how they interact.\<close> An application reads events. The event loop (GaudiHive,
  HiveSlimEventLoopMgr) takes a store of the white board for each event, loads the root of the
  event into it and pushes the event to the scheduler (AvalancheSchedulerSvc). For each event in
  flight the scheduler keeps an event slot: the state of every algorithm and the decision of every
  node of the control-flow graph, once for the event and once for each of its views. The precedence
  service asks visitors to walk the graph from an algorithm that ended; they decide hubs, propagate
  decisions upwards and promote the algorithms whose control flow and whose input data are ready.
  For those the scheduler acquires an instance from the algorithm pool and starts a task, in which
  \<open>sysExecute\<close> runs the algorithm, consults the exception service and records the outcome in the
  service of execution states; the task then signs off. Algorithms read and write the transient
  event store (GaudiKernel, DataSvc), a tree of registry entries that hold data objects or the
  addresses from which a conversion service loads them. A finished event goes back to the event
  loop, which clears and frees its store. On the way incidents are fired (IncidentSvc): listeners are
  called at once, by priority, or find them queued for their event. Without the scheduler,
  MinimalEventLoopMgr executes the top algorithms of an event one after the other, and sequences
  (GaudiSequencer, Sequencer) execute their members. Events are named by event IDs and ranges of them,
  operations answer with status codes, VectorMap is the sorted-vector map that kernel classes use,
  and StreamBuffer the byte stream that persistent objects are written to.

  \<^bold>\<open>Theories, in the order of the parts.\<close>

  \<^item> Prelude: lemmas on lists, options and folds, the fuel notion, named collections.
  \<^item> StatusCodes: \<open>GaudiKernel/StatusCode.h\<close>, \<open>StatusCode.cpp\<close>. A category is a record of its
    virtual functions.
  \<^item> Vector\_Map: \<open>GaudiKernel/VectorMap.h\<close> on association lists; a locale states the contract of
    a finite map over an ordered vector and is interpreted on the model.
  \<^item> Stream\_Buffer, Stream\_Facts: \<open>GaudiKernel/StreamBuffer.h\<close>. The memory block is a list of bytes
    with its allocated length; a write beyond it is a value of its own.
  \<^item> Event\_ID: \<open>EventIDBase\<close>, \<open>EventIDRange\<close>, \<open>EventContext.h\<close>, numbers at their width.
  \<^item> Exec\_States: \<open>AlgsExecutionStates\<close>; Event\_Slots: \<open>EventSlot.h\<close>.
  \<^item> Rules\_Graph, Graph\_Links: \<open>PRGraph/PrecedenceRulesGraph\<close>. Nodes are named and refer to each
    other by name, as the code finds them in its indices.
  \<^item> Scouts, Promoters, Hub\_Decisions, Promoter\_Facts, Promoter\_Runs, Simulation, Validators: the
    visitors of \<open>PRGraph/Visitors\<close> and the loops of \<open>PrecedenceSvc.cpp\<close> that drive them.
  \<^item> Assembly: \<open>PrecedenceSvc::assembleCFRules\<close> and \<open>initialize\<close> up to the data realm.
  \<^item> Resource\_Pool: \<open>AlgResourcePool\<close>, instances and resources of algorithms; Exception\_Svc:
    \<open>GaudiMonitor/ExceptionSvc\<close>, with its regular expression; Exec\_State\_Svc: \<open>AlgExecStateSvc\<close> and
    \<open>Algorithm::sysExecute\<close>.
  \<^item> Scheduler: \<open>AvalancheSchedulerSvc\<close> and \<open>AlgTask.h\<close>, all threads on one record, with the steps that
    the threads take in turn; Scheduler\_Facts, Scheduler\_Events, Scheduler\_Runs: its invariant, where
    its events are, its runs; Scheduler\_Demo: a small application, and runs that show faults.
  \<^item> Registry, Registry\_Facts: \<open>RegistryEntry\<close> on a heap of entries, objects and addresses with
    their reference counts; Data\_Store, Data\_Store\_Facts, Data\_Store\_Runs, Data\_Store\_Paths:
    \<open>DataSvc\<close>, its soundness under any sequence of operations, and names and paths.
  \<^item> White\_Board: \<open>HiveWhiteBoard.cpp\<close>, the stores of the events in flight.
  \<^item> Event\_Loop, Event\_Loop\_Facts, Event\_Loop\_Demo: \<open>HiveSlimEventLoopMgr\<close>, its composition with the
    scheduler and the white board, and runs of a small application.
  \<^item> Incident\_Svc, Incident\_Facts, Incident\_Runs, Incident\_Demo: \<open>IncidentSvc\<close> and
    \<open>IncidentProcAlg\<close> (GaudiCoreSvc). The nodes of a list of listeners have identities, since a
    handler may change the list that the loop is in; a handler is a list of calls of the service.
  \<^item> Sequencers, Sequencer\_Facts, Sequencer\_Values, Sequencer\_Demo: \<open>GaudiSequencer\<close>, \<open>Sequencer\<close> and
    \<open>GaudiAlgorithm::sysExecute\<close> (GaudiAlg) and \<open>MinimalEventLoopMgr::executeEvent\<close>, on the execution
    states of Exec\_State\_Svc. An algorithm is a tree of members, of which a loop sees the properties
    and \<open>sysExecute\<close>; the decision of a tree as a formula, and its hub in the scheduler. A status is
    a code or a \<open>FilterDecision\<close>, which counts as a success but sets the filter of whoever returns it.

  \<^bold>\<open>What the lemmas show.\<close> Each component has its invariant and the lemma that every operation
  keeps it: index sets that partition the algorithms, inverse links of the graph, the sorted
  vector, the registry tree with its reference counts, tasks that match the states of their
  algorithms, the owners of stores. On them rest the properties: iterating over a graph ends and
  only promotes; a hub's decision is three-valued logic over its children; simulation and
  validation end with the verdicts they should give; the scheduler never faults under any order of
  its threads, loses no task and never stalls by itself; the event loop keeps the scheduler's and
  the white board's contracts, so no two events share a store; instances are held exclusively; what
  is written to a stream is read back; map operations refine those of a finite map; what was
  registered in the store is found; listeners are called once each, by priority, and handlers that
  change the lists in the protected way are safe; the white board gives the answers of a map from
  stores to events, and the states of algorithms those of a plain vector; the hub of a sequence
  decides by the sequence's properties; in a serial event each body runs once and the decisions are
  those of the formula, wherever no \<open>FilterDecision::FAILED\<close> of a member can undo them, and the
  scheduler's hubs decide the same. Where the code departs from what it documents, a property or a
  closed run states what it does.

  \<^bold>\<open>Fuel and bounds.\<close> The recursions of the visitors follow the graph and the chain of parent
  slots. They take fuel, and each termination property gives a bound computed from the number
  of slots and nodes and the height of the graph, for which the result no longer depends on the
  fuel; the scheduler gives that bound itself (\<open>visit_fuel\<close>). Walks over the registry tree take the
  number of places ever given out, plus two, as fuel; since a leaf is always younger than its
  parent, that is more than its depth. The mutual calls of the data store (\<open>registerObject\<close> and the
  others) take fuel and answer \<open>Exhausted\<close> when it runs out; the properties about them speak of
  calls that end. The loop of \<open>nextEvent\<close> counts its turns; \<open>2 n + 1\<close> turns are shown to be enough
  for \<open>n\<close> events. The wait for a finished event inside a turn gives up after \<open>lc_patience\<close> looks and
  answers \<open>Exhausted\<close>, since an event may never finish. The calls that handlers of incidents make
  take fuel as well (\<open>Out_of_fuel\<close>), since handlers can fire incidents for ever; as many as the two
  lists have nodes, and three, are enough when handlers fire none and add no listeners.

  \<^bold>\<open>Parameters.\<close> Hash functions, the conversion service and incident listeners of the store,
  the functions that status codes invoke, the bodies of algorithms, the event selector and the
  order in which threads take their turns are arguments, with what is relied on as a named
  contract (\<open>services_ok\<close>, \<open>client_ok\<close>).

  \<^bold>\<open>Not modelled.\<close> Log output, the dumps of graphs to files, the Boost and TBB containers'
  internals, the start-up of services (properties and job options) and of the members of sequences,
  histograms and n-tuples,
  persistency back ends, Python and multi-process front ends, profiling and examples.
\<close>

end
